(* ===== verification/Prelude.thy ===== *)
theory Prelude
  imports Main "HOL-Library.Word" "HOL-Library.Monad_Syntax"
begin

unbundle bit_operations_syntax

text \<open>
  Shared vocabulary of the development: the machine types, C's partial operations (a shift
  and an array access that may be undefined behaviour), a \<open>for\<close> loop over a list, and
  bit lists, the abstract view of a bit stream. A C operation whose behaviour is undefined
  has the value \<^const>\<open>None\<close>; every function that uses one is in the option monad.
\<close>

section \<open>Types and C primitives\<close>

type_synonym u8 = "8 word"
type_synonym u32 = "32 word"
type_synonym u64 = "64 word"

text \<open>Shifts of a 32-bit value: a distance of 32 or more is undefined behaviour in C.\<close>

definition shl32 :: "u32 \<Rightarrow> nat \<Rightarrow> u32 option" where
  "shl32 v k = (if k < 32 then Some (push_bit k v) else None)"

definition shr32 :: "u32 \<Rightarrow> nat \<Rightarrow> u32 option" where
  "shr32 v k = (if k < 32 then Some (drop_bit k v) else None)"

text \<open>Reading and writing an array element; out of range is undefined behaviour.\<close>

definition rd :: "'a list \<Rightarrow> nat \<Rightarrow> 'a option" where
  "rd xs i = (if i < length xs then Some (xs ! i) else None)"

definition wr :: "'a list \<Rightarrow> nat \<Rightarrow> 'a \<Rightarrow> 'a list option" where
  "wr xs i v = (if i < length xs then Some (xs[i := v]) else None)"

text \<open>An indexed read with C's signed index; negative is out of range.\<close>

definition rd_int :: "'a list \<Rightarrow> int \<Rightarrow> 'a option" where
  "rd_int xs i = (if i < 0 then None else rd xs (nat i))"

lemma unat_u8_less: "unat (b :: u8) < 256"
proof -
  have "unat b < 2 ^ LENGTH(8)" by (rule unsigned_less)
  then show ?thesis by simp
qed

text \<open>A counted loop whose body may be undefined.\<close>

fun ofor :: "('a \<Rightarrow> 's \<Rightarrow> 's option) \<Rightarrow> 'a list \<Rightarrow> 's \<Rightarrow> 's option" where
  "ofor f [] s = Some s"
| "ofor f (x # xs) s = (case f x s of None \<Rightarrow> None | Some s' \<Rightarrow> ofor f xs s')"

lemma rd_Some [simp]: "i < length xs \<Longrightarrow> rd xs i = Some (xs ! i)"
  by (simp add: rd_def)

lemma wr_Some [simp]: "i < length xs \<Longrightarrow> wr xs i v = Some (xs[i := v])"
  by (simp add: wr_def)

lemma rd_eq_Some_iff: "rd xs i = Some x \<longleftrightarrow> i < length xs \<and> x = xs ! i"
  by (auto simp: rd_def)

lemma rd_int_Some [simp]: "0 \<le> i \<Longrightarrow> nat i < length xs \<Longrightarrow> rd_int xs i = Some (xs ! nat i)"
  by (simp add: rd_int_def)

lemma wr_eq_Some_iff: "wr xs i v = Some ys \<longleftrightarrow> i < length xs \<and> ys = xs[i := v]"
  by (auto simp: wr_def)

lemma shl32_Some [simp]: "k < 32 \<Longrightarrow> shl32 v k = Some (push_bit k v)"
  by (simp add: shl32_def)

lemma shr32_Some [simp]: "k < 32 \<Longrightarrow> shr32 v k = Some (drop_bit k v)"
  by (simp add: shr32_def)

lemma ofor_append:
  "ofor f (xs @ ys) s = (case ofor f xs s of None \<Rightarrow> None | Some s' \<Rightarrow> ofor f ys s')"
  by (induction xs arbitrary: s) (auto split: option.splits)

text \<open>The Hoare rule of the loop: an invariant on the remaining list and the state.\<close>

lemma ofor_rule:
  assumes "I xs s"
    and "\<And>x xs s. I (x # xs) s \<Longrightarrow> \<exists>s'. f x s = Some s' \<and> I xs s'"
  shows "\<exists>s'. ofor f xs s = Some s' \<and> I [] s'"
  using assms(1)
proof (induction xs arbitrary: s)
  case Nil
  then show ?case by simp
next
  case (Cons x xs)
  from assms(2) [OF Cons.prems] obtain s' where "f x s = Some s'" and "I xs s'"
    by blast
  then show ?case using Cons.IH by simp
qed

text \<open>The same for a counter: the invariant is on the counter and the state.\<close>

lemma ofor_upt_rule [consumes 1, case_names init step]:
  assumes "a \<le> b"
    and "I a s"
    and "\<And>k s. a \<le> k \<Longrightarrow> k < b \<Longrightarrow> I k s \<Longrightarrow> \<exists>s'. f k s = Some s' \<and> I (Suc k) s'"
  shows "\<exists>s'. ofor f [a..<b] s = Some s' \<and> I b s'"
  using assms(1,3)
proof (induction b)
  case 0
  with assms(2) show ?case by simp
next
  case (Suc b)
  show ?case
  proof (cases "a = Suc b")
    case True
    with assms(2) show ?thesis by simp
  next
    case False
    with Suc obtain s' where "ofor f [a..<b] s = Some s'" "I b s'" by auto
    moreover from this(2) Suc.prems(2) [of b s'] Suc.prems(1) False
    obtain t where "f b s' = Some t" "I (Suc b) t" by auto
    ultimately show ?thesis using False Suc.prems(1) by (auto simp: ofor_append)
  qed
qed

text \<open>Unfolding an interval with literal bounds, for evaluation by \<open>simp\<close>.\<close>

lemma upt_0_numeral: "[0..<numeral n] = 0 # [Suc 0..<numeral n]"
  by (simp add: upt_rec [of 0])

lemma upt_1_numeral:
  "[Suc 0..<numeral n] = (if numeral n = (1 :: nat) then [] else Suc 0 # [2..<numeral n])"
proof (cases "numeral n = (1 :: nat)")
  case False
  then have "Suc 0 < numeral n" by (metis One_nat_def linorder_neqE_nat not_numeral_less_one)
  then have "[Suc 0..<numeral n] = Suc 0 # [Suc (Suc 0)..<numeral n]" by (rule upt_conv_Cons)
  with False show ?thesis by (simp add: numeral_2_eq_2)
qed simp

lemmas upt_eval = upt_0_numeral upt_1_numeral upt_rec_numeral

section \<open>Bit lists\<close>

text \<open>The low \<open>n\<close> bits of a value, least significant first, and most significant first.\<close>

definition bits_lsb :: "nat \<Rightarrow> 'a::semiring_bits \<Rightarrow> bool list" where
  "bits_lsb n v = map (bit v) [0..<n]"

definition bits_msb :: "nat \<Rightarrow> 'a::semiring_bits \<Rightarrow> bool list" where
  "bits_msb n v = rev (bits_lsb n v)"

text \<open>The number a bit list stands for, least significant bit first.\<close>

definition nat_of_bits :: "bool list \<Rightarrow> nat" where
  "nat_of_bits bs = horner_sum of_bool 2 bs"

text \<open>The bits of a byte string in the order DEFLATE consumes them.\<close>

definition bytes_bits :: "u8 list \<Rightarrow> bool list" where
  "bytes_bits bs = concat (map (bits_lsb 8) bs)"

lemma length_bits_lsb [simp]: "length (bits_lsb n v) = n"
  by (simp add: bits_lsb_def)

lemma length_bits_msb [simp]: "length (bits_msb n v) = n"
  by (simp add: bits_msb_def)

lemma bits_lsb_0 [simp]: "bits_lsb 0 v = []"
  by (simp add: bits_lsb_def)

lemma nth_bits_lsb [simp]: "i < n \<Longrightarrow> bits_lsb n v ! i = bit v i"
  by (simp add: bits_lsb_def)

lemma nth_bits_msb [simp]: "i < n \<Longrightarrow> bits_msb n v ! i = bit v (n - 1 - i)"
  by (simp add: bits_msb_def rev_nth)

lemma bits_lsb_cong: "(\<And>i. i < n \<Longrightarrow> bit v i = bit w i) \<Longrightarrow> bits_lsb n v = bits_lsb n w"
  by (simp add: bits_lsb_def)

lemma bits_lsb_add: "bits_lsb (m + n) v = bits_lsb m v @ map (\<lambda>i. bit v (m + i)) [0..<n]"
  by (rule nth_equalityI) (auto simp: nth_append)

lemma take_bits_lsb [simp]: "take k (bits_lsb n v) = bits_lsb (min k n) v"
  by (rule nth_equalityI) auto

lemma drop_bits_lsb: "drop k (bits_lsb n v) = map (\<lambda>i. bit v (k + i)) [0..<n - k]"
  by (rule nth_equalityI) auto

lemma nat_of_bits_Nil [simp]: "nat_of_bits [] = 0"
  by (simp add: nat_of_bits_def)

lemma nat_of_bits_Cons [simp]: "nat_of_bits (b # bs) = of_bool b + 2 * nat_of_bits bs"
  by (simp add: nat_of_bits_def)

lemma nat_of_bits_less: "nat_of_bits bs < 2 ^ length bs"
  by (induction bs) auto

lemma nat_of_bits_lsb_nat: "nat_of_bits (bits_lsb n (v :: nat)) = v mod 2 ^ n"
  by (simp add: nat_of_bits_def bits_lsb_def horner_sum_bit_eq_take_bit take_bit_eq_mod)

lemma nat_of_bits_lsb_word:
  "nat_of_bits (bits_lsb n (v :: 'a::len word)) = unat v mod 2 ^ n"
proof -
  have "bits_lsb n v = bits_lsb n (unat v)"
    by (rule bits_lsb_cong) (auto simp: bit_unsigned_iff dest: bit_imp_le_length)
  then show ?thesis by (simp add: nat_of_bits_lsb_nat)
qed

lemma bit_nat_of_bits: "bit (nat_of_bits bs) i \<longleftrightarrow> i < length bs \<and> bs ! i"
  by (simp add: nat_of_bits_def bit_horner_sum_bit_iff)

lemma bytes_bits_Nil [simp]: "bytes_bits [] = []"
  by (simp add: bytes_bits_def)

lemma bytes_bits_Cons [simp]: "bytes_bits (b # bs) = bits_lsb 8 b @ bytes_bits bs"
  by (simp add: bytes_bits_def)

lemma bytes_bits_append [simp]: "bytes_bits (xs @ ys) = bytes_bits xs @ bytes_bits ys"
  by (simp add: bytes_bits_def)

lemma length_bytes_bits [simp]: "length (bytes_bits bs) = 8 * length bs"
  by (induction bs) auto

section \<open>Transition systems\<close>

text \<open>What every run of a step relation satisfies: a property of the start that each step keeps.\<close>

locale inductive_invariant =
  fixes init :: 's and step :: "'s \<Rightarrow> 's \<Rightarrow> bool" and inv :: "'s \<Rightarrow> bool"
  assumes init_inv: "inv init" and step_inv: "inv s \<Longrightarrow> step s t \<Longrightarrow> inv t"
begin

lemma reachable_inv: "step\<^sup>*\<^sup>* init s \<Longrightarrow> inv s"
  by (induction rule: rtranclp_induct) (auto intro: init_inv step_inv)

end

text \<open>
  Runs of a deterministic machine, and a forward simulation: what the abstract machine can do, the
  concrete one does as well, in related states.
\<close>

primrec steps :: "('s \<Rightarrow> 's option) \<Rightarrow> nat \<Rightarrow> 's \<Rightarrow> 's option" where
  "steps f 0 s = Some s"
| "steps f (Suc n) s = do { s \<leftarrow> f s; steps f n s }"

locale forward_simulation =
  fixes spec :: "'a \<Rightarrow> 'a option" and impl :: "'b \<Rightarrow> 'b option" and related :: "'a \<Rightarrow> 'b \<Rightarrow> bool"
  assumes simulates: "related a b \<Longrightarrow> spec a = Some a' \<Longrightarrow> \<exists>b'. impl b = Some b' \<and> related a' b'"
begin

lemma steps_related: "related a b \<Longrightarrow> steps spec n a = Some a' \<Longrightarrow> \<exists>b'. steps impl n b = Some b' \<and> related a' b'"
proof (induction n arbitrary: a b)
  case (Suc n)
  obtain c where c: "spec a = Some c" "steps spec n c = Some a'" using Suc.prems(2) by (auto simp: bind_eq_Some_conv)
  obtain d where d: "impl b = Some d" "related c d" using simulates [OF Suc.prems(1) c(1)] by blast
  from Suc.IH [OF d(2) c(2)] d(1) show ?case by simp
qed simp

end

end
