(* ===== verification/Format.thy ===== *)
theory Format
  imports Prelude
begin

text \<open>
  The constants of the format: the error codes of \<open>include/deflate.h\<close>, the alphabet sizes
  of \<open>src/internal.h\<close> and the length and distance tables of \<open>src/bits.c\<close>, with the two
  functions that index them.
\<close>

datatype dferr = DF_ERR_OUTPUT | DF_ERR_INPUT | DF_ERR_CORRUPT | DF_ERR_MEMORY

fun df_code :: "dferr \<Rightarrow> int" where
  "df_code DF_ERR_OUTPUT = -1"
| "df_code DF_ERR_INPUT = -2"
| "df_code DF_ERR_CORRUPT = -3"
| "df_code DF_ERR_MEMORY = -4"

abbreviation (input) NUM_LITERALS :: nat where "NUM_LITERALS \<equiv> 286"
abbreviation (input) NUM_DISTANCES :: nat where "NUM_DISTANCES \<equiv> 30"
abbreviation (input) NUM_CODELEN :: nat where "NUM_CODELEN \<equiv> 19"
abbreviation (input) MAX_CODE_BITS :: nat where "MAX_CODE_BITS \<equiv> 15"
abbreviation (input) MAX_CL_BITS :: nat where "MAX_CL_BITS \<equiv> 7"
abbreviation (input) END_OF_BLOCK :: nat where "END_OF_BLOCK \<equiv> 256"
abbreviation (input) WINDOW_SIZE :: nat where "WINDOW_SIZE \<equiv> 32768"
abbreviation (input) MIN_MATCH :: nat where "MIN_MATCH \<equiv> 3"
abbreviation (input) MAX_MATCH :: nat where "MAX_MATCH \<equiv> 258"

definition LENGTH_BASE :: "nat list" where
  "LENGTH_BASE = [3, 4, 5, 6, 7, 8, 9, 10, 11, 13, 15, 17, 19, 23, 27, 31,
    35, 43, 51, 59, 67, 83, 99, 115, 131, 163, 195, 227, 258]"

definition LENGTH_EXTRA :: "nat list" where
  "LENGTH_EXTRA = [0, 0, 0, 0, 0, 0, 0, 0, 1, 1, 1, 1, 2, 2, 2, 2,
    3, 3, 3, 3, 4, 4, 4, 4, 5, 5, 5, 5, 0]"

definition DIST_BASE :: "nat list" where
  "DIST_BASE = [1, 2, 3, 4, 5, 7, 9, 13, 17, 25, 33, 49, 65, 97, 129, 193,
    257, 385, 513, 769, 1025, 1537, 2049, 3073, 4097, 6145,
    8193, 12289, 16385, 24577]"

definition DIST_EXTRA :: "nat list" where
  "DIST_EXTRA = [0, 0, 0, 0, 1, 1, 2, 2, 3, 3, 4, 4, 5, 5, 6, 6,
    7, 7, 8, 8, 9, 9, 10, 10, 11, 11, 12, 12, 13, 13]"

definition CODELEN_ORDER :: "nat list" where
  "CODELEN_ORDER = [16, 17, 18, 0, 8, 7, 9, 6, 10, 5, 11, 4, 12, 3, 13, 2, 14, 1, 15]"

text \<open>
  The lengths of the fixed code, as \<open>fixed_lengths\<close> of \<open>src/deflate.c\<close> and \<open>fixed_decoders\<close>
  of \<open>src/inflate.c\<close> fill them in. RFC 1951, 3.2.6, assigns codes to 288 symbols (286 and 287
  take part in the construction), which is \<open>rfc_fixed_lit_lengths\<close>.
\<close>

definition fixed_lit_lengths :: "nat list" where
  "fixed_lit_lengths =
     replicate 144 8 @ replicate 112 9 @ replicate 24 7 @ replicate (NUM_LITERALS - 280) 8"

definition fixed_dist_lengths :: "nat list" where
  "fixed_dist_lengths = replicate NUM_DISTANCES 5"

definition rfc_fixed_lit_lengths :: "nat list" where
  "rfc_fixed_lit_lengths = replicate 144 8 @ replicate 112 9 @ replicate 24 7 @ replicate 8 8"

text \<open>The loop of both functions: scan the table downwards for the first base reached.\<close>

fun scan_down :: "nat list \<Rightarrow> nat \<Rightarrow> nat \<Rightarrow> nat" where
  "scan_down base v 0 = 0"
| "scan_down base v (Suc i) = (if v \<ge> base ! i then i else scan_down base v i)"

definition length_to_code :: "nat \<Rightarrow> nat" where
  "length_to_code len = scan_down LENGTH_BASE len 29"

definition distance_to_code :: "nat \<Rightarrow> nat" where
  "distance_to_code dist = scan_down DIST_BASE dist 30"

lemma length_tables [simp]:
  "length LENGTH_BASE = 29" "length LENGTH_EXTRA = 29"
  "length DIST_BASE = 30" "length DIST_EXTRA = 30" "length CODELEN_ORDER = 19"
  by (simp_all add: LENGTH_BASE_def LENGTH_EXTRA_def DIST_BASE_def DIST_EXTRA_def
      CODELEN_ORDER_def)

lemma scan_down_less: "0 < n \<Longrightarrow> scan_down base v n < n"
  by (induction n) (auto simp: less_Suc_eq)

lemma scan_down_base:
  "0 < n \<Longrightarrow> base ! 0 \<le> v \<Longrightarrow> base ! scan_down base v n \<le> v"
proof (induction n)
  case (Suc n)
  then show ?case by (cases "n = 0") auto
qed simp

lemma scan_down_next:
  "i < n \<Longrightarrow> scan_down base v n < i \<Longrightarrow> v < base ! i"
proof (induction n)
  case (Suc n)
  then show ?case by (cases "i = n") (auto split: if_splits)
qed simp

text \<open>
  What an encoder needs of the tables: the code of a legal length or distance is a code of
  the alphabet, and the offset from its base fits in the code's extra bits.
\<close>

lemma length_base_step:
  "list_all (\<lambda>i. LENGTH_BASE ! Suc i \<le> LENGTH_BASE ! i + 2 ^ (LENGTH_EXTRA ! i)) [0..<28]"
  by (simp add: LENGTH_BASE_def LENGTH_EXTRA_def DIST_BASE_def DIST_EXTRA_def upt_eval)

lemma dist_base_step:
  "list_all (\<lambda>i. DIST_BASE ! Suc i \<le> DIST_BASE ! i + 2 ^ (DIST_EXTRA ! i)) [0..<29]"
  by (simp add: LENGTH_BASE_def LENGTH_EXTRA_def DIST_BASE_def DIST_EXTRA_def upt_eval)

lemma length_to_code_less [simp]: "length_to_code l < 29"
  by (simp add: length_to_code_def scan_down_less)

lemma distance_to_code_less [simp]: "distance_to_code d < 30"
  by (simp add: distance_to_code_def scan_down_less)

lemma length_to_code_base: "3 \<le> l \<Longrightarrow> LENGTH_BASE ! length_to_code l \<le> l"
  by (simp add: length_to_code_def scan_down_base LENGTH_BASE_def)

lemma distance_to_code_base: "1 \<le> d \<Longrightarrow> DIST_BASE ! distance_to_code d \<le> d"
  by (simp add: distance_to_code_def scan_down_base DIST_BASE_def)

lemma length_to_code_extra:
  assumes "3 \<le> l" "l \<le> 258"
  shows "l - LENGTH_BASE ! length_to_code l < 2 ^ (LENGTH_EXTRA ! length_to_code l)"
proof (cases "length_to_code l = 28")
  case True
  then show ?thesis using assms by (simp add: LENGTH_BASE_def LENGTH_EXTRA_def)
next
  case False
  let ?c = "length_to_code l"
  have c: "?c < 28" using False length_to_code_less [of l] by linarith
  then have "l < LENGTH_BASE ! Suc ?c"
    by (intro scan_down_next [of _ 29]) (auto simp: length_to_code_def)
  moreover have "LENGTH_BASE ! Suc ?c \<le> LENGTH_BASE ! ?c + 2 ^ (LENGTH_EXTRA ! ?c)"
    using length_base_step c by (simp add: list_all_iff)
  moreover have "LENGTH_BASE ! ?c \<le> l" using assms(1) by (rule length_to_code_base)
  ultimately show ?thesis by linarith
qed

lemma distance_to_code_extra:
  assumes "1 \<le> d" "d \<le> 32768"
  shows "d - DIST_BASE ! distance_to_code d < 2 ^ (DIST_EXTRA ! distance_to_code d)"
proof (cases "distance_to_code d = 29")
  case True
  then show ?thesis using assms by (simp add: DIST_BASE_def DIST_EXTRA_def)
next
  case False
  let ?c = "distance_to_code d"
  have c: "?c < 29" using False distance_to_code_less [of d] by linarith
  then have "d < DIST_BASE ! Suc ?c"
    by (intro scan_down_next [of _ 30]) (auto simp: distance_to_code_def)
  moreover have "DIST_BASE ! Suc ?c \<le> DIST_BASE ! ?c + 2 ^ (DIST_EXTRA ! ?c)"
    using dist_base_step c by (simp add: list_all_iff)
  moreover have "DIST_BASE ! ?c \<le> d" using assms(1) by (rule distance_to_code_base)
  ultimately show ?thesis by linarith
qed

lemma length_extra_le: "c < 29 \<Longrightarrow> LENGTH_EXTRA ! c \<le> 5"
proof -
  assume "c < 29"
  then have "LENGTH_EXTRA ! c \<in> set LENGTH_EXTRA" by simp
  then show ?thesis by (auto simp: LENGTH_EXTRA_def)
qed

lemma dist_extra_le: "c < 30 \<Longrightarrow> DIST_EXTRA ! c \<le> 13"
proof -
  assume "c < 30"
  then have "DIST_EXTRA ! c \<in> set DIST_EXTRA" by simp
  then show ?thesis by (auto simp: DIST_EXTRA_def)
qed

section \<open>Properties\<close>

text \<open>
  For every length the format allows, 3 to 258, \<open>length_to_code\<close> picks a code of the alphabet
  whose base is at most the length and whose extra bits hold the difference; likewise
  \<open>distance_to_code\<close> for the distances 1 to 32768.
\<close>

theorem code_tables_cover:
  assumes "3 \<le> len" "len \<le> 258" "1 \<le> dist" "dist \<le> 32768"
  shows "length_to_code len < 29 \<and> LENGTH_BASE ! length_to_code len \<le> len \<and>
      len - LENGTH_BASE ! length_to_code len < 2 ^ (LENGTH_EXTRA ! length_to_code len) \<and>
      distance_to_code dist < 30 \<and> DIST_BASE ! distance_to_code dist \<le> dist \<and>
      dist - DIST_BASE ! distance_to_code dist < 2 ^ (DIST_EXTRA ! distance_to_code dist)"
  using assms by (simp add: length_to_code_base length_to_code_extra distance_to_code_base distance_to_code_extra)

theorem code_tables_cover_witness:
  "LENGTH_BASE ! length_to_code 200 \<le> 200 \<and> DIST_BASE ! distance_to_code 30000 \<le> 30000"
  using code_tables_cover [of 200 30000] by simp

end
