(* ===== verification/Bits.thy ===== *)
theory Bits
  imports Format
begin

text \<open>
  The bit writer and the bit reader of \<open>src/bits.c\<close>. A buffer is the list of all its bytes
  and is written by index; the 32-bit accumulator keeps its width. The bit counts are
  \<open>nat\<close>: the only place where C would compute a negative one is \<open>bw_align\<close> after an
  overflow, and there the result is \<^const>\<open>None\<close> (the shift by it is undefined).
\<close>

section \<open>The writer\<close>

record bitwriter =
  w_out :: "u8 list"
  w_cap :: nat
  w_pos :: nat
  w_bit_buf :: u32
  w_bit_count :: nat
  w_overflow :: bool

definition bw_init :: "u8 list \<Rightarrow> nat \<Rightarrow> bitwriter" where
  "bw_init out cap = \<lparr>w_out = out, w_cap = cap, w_pos = 0,
     w_bit_buf = 0, w_bit_count = 0, w_overflow = False\<rparr>"

text \<open>The \<open>while\<close> loop of \<open>bw_bits\<close>.\<close>

function bw_drain :: "bitwriter \<Rightarrow> bitwriter option" where
  "bw_drain w =
     (if w_bit_count w \<ge> 8 then
        if w_pos w \<ge> w_cap w then Some (w\<lparr>w_overflow := True\<rparr>)
        else case wr (w_out w) (w_pos w) (ucast (w_bit_buf w AND 0xFF)) of
               None \<Rightarrow> None
             | Some out \<Rightarrow>
                 bw_drain (w\<lparr>w_out := out, w_pos := w_pos w + 1,
                   w_bit_buf := drop_bit 8 (w_bit_buf w), w_bit_count := w_bit_count w - 8\<rparr>)
      else Some w)"
  by pat_completeness auto
termination
  by (relation "measure w_bit_count") auto

declare bw_drain.simps [simp del]

definition bw_bits :: "bitwriter \<Rightarrow> u32 \<Rightarrow> nat \<Rightarrow> bitwriter option" where
  "bw_bits w value count = do {
     value \<leftarrow> (if count < 32 then do { one \<leftarrow> shl32 1 count; Some (value AND (one - 1)) }
              else Some value);
     shifted \<leftarrow> shl32 value (w_bit_count w);
     bw_drain (w\<lparr>w_bit_buf := w_bit_buf w OR shifted, w_bit_count := w_bit_count w + count\<rparr>)
   }"

definition reverse_code :: "u32 \<Rightarrow> nat \<Rightarrow> u32 option" where
  "reverse_code code count =
     ofor (\<lambda>i reversed. do { c \<leftarrow> shr32 code i; Some (push_bit 1 reversed OR (c AND 1)) })
       [0..<count] 0"

definition bw_code :: "bitwriter \<Rightarrow> u32 \<Rightarrow> nat \<Rightarrow> bitwriter option" where
  "bw_code w code count = do { reversed \<leftarrow> reverse_code code count; bw_bits w reversed count }"

definition bw_align :: "bitwriter \<Rightarrow> bitwriter option" where
  "bw_align w =
     (if w_bit_count w > 0 then
        if w_bit_count w \<le> 8 then bw_bits w 0 (8 - w_bit_count w)
        else None
      else Some w)"

definition bw_finish :: "bitwriter \<Rightarrow> (nat \<times> bitwriter) option" where
  "bw_finish w = do { w \<leftarrow> bw_align w; Some (w_pos w, w) }"

section \<open>The reader\<close>

record bitreader =
  r_in :: "u8 list"
  r_len :: nat
  r_pos :: nat
  r_bit_buf :: u32
  r_bit_count :: nat
  r_underflow :: bool

definition br_init :: "u8 list \<Rightarrow> nat \<Rightarrow> bitreader" where
  "br_init inp len = \<lparr>r_in = inp, r_len = len, r_pos = 0,
     r_bit_buf = 0, r_bit_count = 0, r_underflow = False\<rparr>"

text \<open>The \<open>while\<close> loop of \<open>br_bits\<close>.\<close>

function br_fill :: "bitreader \<Rightarrow> nat \<Rightarrow> bitreader option" where
  "br_fill r count =
     (if r_bit_count r < count then
        if r_pos r \<ge> r_len r then
          (case shl32 0 (r_bit_count r) of
             None \<Rightarrow> None
           | Some z \<Rightarrow>
               br_fill (r\<lparr>r_underflow := True, r_bit_buf := r_bit_buf r OR z,
                 r_bit_count := r_bit_count r + 8\<rparr>) count)
        else
          (case rd (r_in r) (r_pos r) of
             None \<Rightarrow> None
           | Some b \<Rightarrow>
              (case shl32 (ucast b) (r_bit_count r) of
                 None \<Rightarrow> None
               | Some s \<Rightarrow>
                   br_fill (r\<lparr>r_bit_buf := r_bit_buf r OR s, r_pos := r_pos r + 1,
                     r_bit_count := r_bit_count r + 8\<rparr>) count))
      else Some r)"
  by pat_completeness auto
termination
  by (relation "measure (\<lambda>(r, count). count - r_bit_count r)") auto

declare br_fill.simps [simp del]

definition br_bits :: "bitreader \<Rightarrow> nat \<Rightarrow> (u32 \<times> bitreader) option" where
  "br_bits r count = do {
     r \<leftarrow> br_fill r count;
     mask \<leftarrow> (if count = 32 then Some 0xFFFFFFFF
              else do { one \<leftarrow> shl32 1 count; Some (one - 1) });
     let value = r_bit_buf r AND mask;
     buf \<leftarrow> shr32 (r_bit_buf r) count;
     Some (value, r\<lparr>r_bit_buf := buf, r_bit_count := r_bit_count r - count\<rparr>)
   }"

definition br_align :: "bitreader \<Rightarrow> bitreader option" where
  "br_align r =
     (let drop = r_bit_count r mod 8 in
      if drop \<noteq> 0 then do { (_, r) \<leftarrow> br_bits r drop; Some r } else Some r)"

section \<open>The writer appends bits\<close>

text \<open>
  The bits written so far: the bytes flushed to the buffer, then the accumulator. \<open>bw_ok\<close>
  is the invariant between two calls while the buffer has not overflowed.
\<close>

definition w_stream :: "bitwriter \<Rightarrow> bool list" where
  "w_stream w = bytes_bits (take (w_pos w) (w_out w)) @ bits_lsb (w_bit_count w) (w_bit_buf w)"

definition clean_above :: "nat \<Rightarrow> u32 \<Rightarrow> bool" where
  "clean_above n v \<longleftrightarrow> take_bit n v = v"

definition bw_ok :: "bitwriter \<Rightarrow> bool" where
  "bw_ok w \<longleftrightarrow> w_pos w \<le> w_cap w \<and> w_cap w \<le> length (w_out w) \<and> w_bit_count w < 8 \<and>
     clean_above (w_bit_count w) (w_bit_buf w) \<and> \<not> w_overflow w"

text \<open>The part of a writer no call changes: its capacity and the bytes from there on.\<close>

definition same_buffer :: "bitwriter \<Rightarrow> bitwriter \<Rightarrow> bool" where
  "same_buffer w w' \<longleftrightarrow> w_cap w' = w_cap w \<and> length (w_out w') = length (w_out w) \<and>
     drop (w_cap w) (w_out w') = drop (w_cap w) (w_out w)"

text \<open>
  \<open>emits f bs\<close>: whenever \<open>bs\<close> fits in the buffer, the step \<open>f\<close> is defined and appends exactly
  \<open>bs\<close> to the stream.
\<close>

definition emits :: "(bitwriter \<Rightarrow> bitwriter option) \<Rightarrow> bool list \<Rightarrow> bool" where
  "emits f bs \<longleftrightarrow>
     (\<forall>w. bw_ok w \<and> length (w_stream w) + length bs \<le> 8 * w_cap w \<longrightarrow>
        (\<exists>w'. f w = Some w' \<and> bw_ok w' \<and> same_buffer w w' \<and> w_stream w' = w_stream w @ bs))"

lemma clean_above_iff: "clean_above n v \<longleftrightarrow> (\<forall>i \<ge> n. \<not> bit v i)"
proof
  assume "clean_above n v"
  then show "\<forall>i \<ge> n. \<not> bit v i"
    unfolding clean_above_def by (metis bit_take_bit_iff leD)
next
  assume "\<forall>i \<ge> n. \<not> bit v i"
  then show "clean_above n v"
    unfolding clean_above_def
    by (intro bit_word_eqI) (auto simp: bit_take_bit_iff not_le)
qed

lemma same_buffer_refl [simp]: "same_buffer w w"
  by (simp add: same_buffer_def)

lemma same_buffer_trans: "same_buffer u v \<Longrightarrow> same_buffer v w \<Longrightarrow> same_buffer u w"
  by (simp add: same_buffer_def)

lemma emitsD:
  assumes "emits f bs" "bw_ok w" "length (w_stream w) + length bs \<le> 8 * w_cap w"
  obtains w' where "f w = Some w'" "bw_ok w'" "same_buffer w w'" "w_stream w' = w_stream w @ bs"
  using assms unfolding emits_def by blast

lemma emits_skip: "emits Some []"
  by (simp add: emits_def)

lemma emits_bind:
  assumes "emits f as" "emits g bs"
  shows "emits (\<lambda>w. f w \<bind> g) (as @ bs)"
  unfolding emits_def
proof (intro allI impI, elim conjE)
  fix w
  assume ok: "bw_ok w" and room: "length (w_stream w) + length (as @ bs) \<le> 8 * w_cap w"
  from room have "length (w_stream w) + length as \<le> 8 * w_cap w" by simp
  with assms(1) ok obtain v where v: "f w = Some v" "bw_ok v" "same_buffer w v"
    "w_stream v = w_stream w @ as" by (rule emitsD)
  with room have "length (w_stream v) + length bs \<le> 8 * w_cap v" by (simp add: same_buffer_def)
  with assms(2) v(2) obtain u where "g v = Some u" "bw_ok u" "same_buffer v u"
    "w_stream u = w_stream v @ bs" by (rule emitsD)
  with v show "\<exists>w'. (f w \<bind> g) = Some w' \<and> bw_ok w' \<and> same_buffer w w' \<and>
      w_stream w' = w_stream w @ as @ bs"
    by (auto intro: same_buffer_trans)
qed

lemma ofor_Cons_bind: "ofor f (x # xs) = (\<lambda>s. f x s \<bind> ofor f xs)"
  by (rule ext) (simp split: option.split bind_split)

lemma emits_ofor:
  assumes "\<And>x. x \<in> set xs \<Longrightarrow> emits (f x) (enc x)"
  shows "emits (ofor f xs) (concat (map enc xs))"
  using assms
proof (induction xs)
  case Nil
  then show ?case using emits_skip by (simp add: emits_def)
next
  case (Cons x xs)
  have "emits (ofor f xs) (concat (map enc xs))" by (rule Cons.IH) (simp add: Cons.prems)
  moreover have "emits (f x) (enc x)" by (simp add: Cons.prems)
  ultimately show ?case unfolding ofor_Cons_bind by (simp add: emits_bind)
qed

lemma low_byte: "v AND 0xFF = take_bit 8 (v :: u32)"
  by (simp add: take_bit_eq_mask mask_eq_exp_minus_1)

lemma bits_lsb_split_byte:
  fixes v :: u32
  assumes "8 \<le> n"
  shows "bits_lsb n v = bits_lsb 8 (ucast (v AND 0xFF) :: u8) @ bits_lsb (n - 8) (drop_bit 8 v)"
proof -
  have "bit v (8 + i) = bit (drop_bit 8 v) i" for i by (simp add: bit_drop_bit_eq)
  moreover have "(ucast (v AND 0xFF) :: u8) = ucast v"
    by (rule bit_word_eqI) (simp add: low_byte bit_simps)
  moreover have "bits_lsb 8 (ucast v :: u8) = bits_lsb 8 v"
    by (rule bits_lsb_cong) (simp add: bit_simps)
  ultimately show ?thesis using assms bits_lsb_add [of 8 "n - 8" v]
    by (simp add: bits_lsb_def)
qed

lemma bw_drain_ok:
  assumes "w_pos w \<le> w_cap w" "w_cap w \<le> length (w_out w)"
    and "clean_above (w_bit_count w) (w_bit_buf w)" "\<not> w_overflow w"
    and "8 * w_pos w + w_bit_count w \<le> 8 * w_cap w"
  shows "\<exists>w'. bw_drain w = Some w' \<and> bw_ok w' \<and> same_buffer w w' \<and> w_stream w' = w_stream w"
  using assms
proof (induction w rule: bw_drain.induct)
  case (1 w)
  show ?case
  proof (cases "w_bit_count w \<ge> 8")
    case True
    with "1.prems" have pos: "w_pos w < w_cap w" "w_pos w < length (w_out w)" by linarith+
    let ?b = "ucast (w_bit_buf w AND 0xFF) :: u8"
    let ?v = "w\<lparr>w_out := (w_out w)[w_pos w := ?b], w_pos := w_pos w + 1,
      w_bit_buf := drop_bit 8 (w_bit_buf w), w_bit_count := w_bit_count w - 8\<rparr>"
    have "clean_above (w_bit_count w - 8) (drop_bit 8 (w_bit_buf w))"
      using "1.prems"(3) by (simp add: clean_above_iff bit_drop_bit_eq)
    then obtain w' where w': "bw_drain ?v = Some w'" "bw_ok w'" "same_buffer ?v w'"
      "w_stream w' = w_stream ?v"
      using "1.IH" [OF True, of "(w_out w)[w_pos w := ?b]"] "1.prems" pos True by auto
    have "w_stream ?v = w_stream w"
      using pos True by (simp add: w_stream_def take_Suc_conv_app_nth
          bits_lsb_split_byte [OF True, of "w_bit_buf w"])
    moreover have "same_buffer w ?v" using pos by (simp add: same_buffer_def)
    ultimately show ?thesis
      using w' pos True by (subst bw_drain.simps) (auto intro: same_buffer_trans)
  next
    case False
    with "1.prems" show ?thesis by (subst bw_drain.simps) (simp add: bw_ok_def)
  qed
qed

lemma mask_value: "v AND (2 ^ count - 1) = take_bit count (v :: u32)"
  by (simp add: take_bit_eq_mask mask_eq_exp_minus_1)

lemma length_w_stream [simp]:
  "w_pos w \<le> length (w_out w) \<Longrightarrow> length (w_stream w) = 8 * w_pos w + w_bit_count w"
  by (simp add: w_stream_def)

text \<open>\<open>bw_bits\<close> appends the low \<open>count\<close> bits of its value, least significant first.\<close>

lemma bw_bits_emits:
  assumes "count \<le> 24"
  shows "emits (\<lambda>w. bw_bits w value count) (bits_lsb count value)"
  unfolding emits_def
proof (intro allI impI, elim conjE)
  fix w
  assume ok: "bw_ok w" and room: "length (w_stream w) + length (bits_lsb count value) \<le> 8 * w_cap w"
  let ?buf = "w_bit_buf w OR push_bit (w_bit_count w) (take_bit count value)"
  let ?v = "w\<lparr>w_bit_buf := ?buf, w_bit_count := w_bit_count w + count\<rparr>"
  have eq: "bw_bits w value count = bw_drain ?v"
    using ok assms by (simp add: bw_bits_def bw_ok_def mask_value)
  have clean: "clean_above (w_bit_count w) (w_bit_buf w)" using ok by (simp add: bw_ok_def)
  then have "clean_above (w_bit_count w + count) ?buf"
    by (auto simp: clean_above_iff bit_simps)
  then have "\<exists>w'. bw_drain ?v = Some w' \<and> bw_ok w' \<and> same_buffer ?v w' \<and> w_stream w' = w_stream ?v"
    using ok room by (intro bw_drain_ok) (auto simp: bw_ok_def)
  moreover have "w_stream ?v = w_stream w @ bits_lsb count value"
  proof -
    have "bits_lsb (w_bit_count w) ?buf = bits_lsb (w_bit_count w) (w_bit_buf w)"
      by (rule bits_lsb_cong) (simp add: bit_simps)
    moreover have "map (\<lambda>i. bit ?buf (w_bit_count w + i)) [0..<count] = bits_lsb count value"
      using clean ok assms
      by (auto simp: bits_lsb_def clean_above_iff bit_simps bw_ok_def)
    ultimately show ?thesis by (simp add: w_stream_def bits_lsb_add)
  qed
  ultimately show "\<exists>w'. bw_bits w value count = Some w' \<and> bw_ok w' \<and> same_buffer w w' \<and>
      w_stream w' = w_stream w @ bits_lsb count value"
    by (simp add: eq same_buffer_def)
qed

text \<open>\<open>bw_code\<close> reverses: a Huffman code goes out most significant bit first.\<close>

lemma reverse_code_upto:
  "k \<le> 32 \<Longrightarrow> \<exists>r. ofor (\<lambda>i reversed. do { c \<leftarrow> shr32 code i; Some (push_bit 1 reversed OR (c AND 1)) })
     [0..<k] 0 = Some r \<and> (\<forall>j. bit r j \<longleftrightarrow> j < k \<and> bit code (k - 1 - j))"
proof (induction k)
  case (Suc k)
  then obtain r where r: "ofor (\<lambda>i reversed. do { c \<leftarrow> shr32 code i;
      Some (push_bit 1 reversed OR (c AND 1)) }) [0..<k] 0 = Some r"
    and bits: "\<forall>j. bit r j \<longleftrightarrow> j < k \<and> bit code (k - 1 - j)" by auto
  let ?r = "push_bit 1 r OR (drop_bit k code AND 1)"
  have "bit ?r j \<longleftrightarrow> j < Suc k \<and> bit code (Suc k - 1 - j)" for j
  proof (cases j)
    case 0
    have "bit ?r 0 = bit (drop_bit k code) 0"
      by (simp only: bit_or_iff bit_and_iff bit_push_bit_iff) (simp add: bit_1_iff)
    with 0 show ?thesis by (simp add: bit_drop_bit_eq)
  next
    case (Suc i)
    have "bit ?r (Suc i) \<longleftrightarrow> Suc i < 32 \<and> bit r i"
      by (simp only: bit_or_iff bit_and_iff bit_push_bit_iff) (simp add: bit_1_iff)
    then have "bit ?r (Suc i) \<longleftrightarrow> Suc i < 32 \<and> i < k \<and> bit code (k - 1 - i)"
      using bits by blast
    also have "\<dots> \<longleftrightarrow> Suc i < Suc k \<and> bit code (Suc k - 1 - Suc i)"
      using \<open>Suc k \<le> 32\<close> by force
    finally show ?thesis unfolding Suc .
  qed
  with r Suc.prems show ?case by (auto simp: ofor_append)
qed simp

lemma reverse_code_ok:
  assumes "count \<le> 32"
  shows "\<exists>r. reverse_code code count = Some r \<and> bits_lsb count r = bits_msb count code"
proof -
  from reverse_code_upto [OF assms, of code] obtain r where
    r: "reverse_code code count = Some r" "\<forall>j. bit r j \<longleftrightarrow> j < count \<and> bit code (count - 1 - j)"
    unfolding reverse_code_def by blast
  then have "bits_lsb count r = bits_msb count code"
    by (intro nth_equalityI) auto
  with r show ?thesis by blast
qed

lemma bw_code_emits:
  assumes "count \<le> 24"
  shows "emits (\<lambda>w. bw_code w code count) (bits_msb count code)"
proof -
  from assms have "count \<le> 32" by simp
  from reverse_code_ok [OF this, of code] obtain r where
    "reverse_code code count = Some r" and r: "bits_lsb count r = bits_msb count code" by blast
  then have "(\<lambda>w. bw_code w code count) = (\<lambda>w. bw_bits w r count)" by (simp add: bw_code_def)
  with bw_bits_emits [OF assms, of r] r show ?thesis by simp
qed

text \<open>Alignment pads with zero bits to the next byte boundary.\<close>

definition pad_bits :: "nat \<Rightarrow> bool list" where
  "pad_bits n = replicate ((8 - n mod 8) mod 8) False"

lemma bits_lsb_zero: "bits_lsb n (0 :: u32) = replicate n False"
  by (rule nth_equalityI) auto

lemma bw_ok_stream_mod:
  assumes "bw_ok w"
  shows "length (w_stream w) mod 8 = w_bit_count w" "length (w_stream w) div 8 = w_pos w"
  using assms by (auto simp: bw_ok_def)

lemma bw_align_ok:
  assumes ok: "bw_ok w" and room: "length (w_stream w) \<le> 8 * w_cap w"
  shows "\<exists>w'. bw_align w = Some w' \<and> bw_ok w' \<and> same_buffer w w' \<and> w_bit_count w' = 0 \<and>
    w_stream w' = w_stream w @ pad_bits (length (w_stream w))"
proof (cases "w_bit_count w = 0")
  case True
  then show ?thesis using ok bw_ok_stream_mod [OF ok] by (simp add: bw_align_def pad_bits_def)
next
  case False
  let ?k = "8 - w_bit_count w"
  have cnt: "w_bit_count w < 8" using ok by (simp add: bw_ok_def)
  have len: "length (w_stream w) = 8 * w_pos w + w_bit_count w" using ok by (auto simp: bw_ok_def)
  with room False have "length (w_stream w) + length (bits_lsb ?k (0 :: u32)) \<le> 8 * w_cap w"
    using cnt by simp presburger
  moreover have "emits (\<lambda>w. bw_bits w 0 ?k) (bits_lsb ?k (0 :: u32))"
    by (rule bw_bits_emits) simp
  ultimately obtain w' where w': "bw_bits w 0 ?k = Some w'" "bw_ok w'"
    "same_buffer w w'" "w_stream w' = w_stream w @ bits_lsb ?k (0 :: u32)"
    using ok by (blast elim: emitsD)
  have "w_bit_count w' = 0"
    using bw_ok_stream_mod(1) [OF w'(2)] cnt len w'(4) by simp
  moreover have "?k = (8 - length (w_stream w) mod 8) mod 8"
    using bw_ok_stream_mod(1) [OF ok] False cnt by simp
  ultimately show ?thesis
    using w' False cnt by (simp add: bw_align_def pad_bits_def bits_lsb_zero)
qed

lemma bw_init_ok:
  assumes "cap \<le> length out"
  shows "bw_ok (bw_init out cap)" "w_stream (bw_init out cap) = []"
  using assms by (auto simp: bw_init_def bw_ok_def w_stream_def clean_above_def)

lemma bw_finish_ok:
  assumes ok: "bw_ok w" and room: "length (w_stream w) \<le> 8 * w_cap w"
  shows "\<exists>w' n. bw_finish w = Some (n, w') \<and> same_buffer w w' \<and> \<not> w_overflow w' \<and> n \<le> w_cap w \<and>
    8 * n = length (w_stream w) + length (pad_bits (length (w_stream w))) \<and>
    bytes_bits (take n (w_out w')) = w_stream w @ pad_bits (length (w_stream w))"
proof -
  from bw_align_ok [OF assms] obtain w' where w': "bw_align w = Some w'" "bw_ok w'"
    "same_buffer w w'" "w_bit_count w' = 0"
    "w_stream w' = w_stream w @ pad_bits (length (w_stream w))" by blast
  have st: "w_stream w' = bytes_bits (take (w_pos w') (w_out w'))"
    using w'(4) by (simp add: w_stream_def)
  have len: "length (bytes_bits (take (w_pos w') (w_out w'))) = 8 * w_pos w'"
    using w'(2) by (simp add: bw_ok_def)
  have "8 * w_pos w' = length (w_stream w) + length (pad_bits (length (w_stream w)))"
    using len st w'(5) by (metis length_append)
  with w' st show ?thesis
    by (intro exI [of _ w'] exI [of _ "w_pos w'"])
      (simp add: bw_finish_def bw_ok_def same_buffer_def)
qed

section \<open>The reader takes bits\<close>

text \<open>The bits not read yet, and the invariant between two reads.\<close>

definition r_stream :: "bitreader \<Rightarrow> bool list" where
  "r_stream r = bits_lsb (r_bit_count r) (r_bit_buf r) @
     bytes_bits (drop (r_pos r) (take (r_len r) (r_in r)))"

definition br_ok :: "bitreader \<Rightarrow> bool" where
  "br_ok r \<longleftrightarrow> r_pos r \<le> r_len r \<and> r_len r \<le> length (r_in r) \<and> r_bit_count r < 8 \<and>
     clean_above (r_bit_count r) (r_bit_buf r)"

definition same_input :: "bitreader \<Rightarrow> bitreader \<Rightarrow> bool" where
  "same_input r r' \<longleftrightarrow> r_in r' = r_in r \<and> r_len r' = r_len r"

text \<open>
  \<open>reads f bs x\<close>: on a stream that starts with \<open>bs\<close> the step \<open>f\<close> is defined, consumes exactly
  \<open>bs\<close> and returns \<open>x\<close>.
\<close>

definition reads :: "(bitreader \<Rightarrow> ('a \<times> bitreader) option) \<Rightarrow> bool list \<Rightarrow> 'a \<Rightarrow> bool" where
  "reads f bs x \<longleftrightarrow>
     (\<forall>r rest. br_ok r \<and> r_stream r = bs @ rest \<longrightarrow>
        (\<exists>r'. f r = Some (x, r') \<and> br_ok r' \<and> same_input r r' \<and>
              r_underflow r' = r_underflow r \<and> r_stream r' = rest))"

lemma same_input_refl [simp]: "same_input r r"
  by (simp add: same_input_def)

lemma same_input_trans: "same_input r s \<Longrightarrow> same_input s t \<Longrightarrow> same_input r t"
  by (simp add: same_input_def)

lemma readsD:
  assumes "reads f bs x" "br_ok r" "r_stream r = bs @ rest"
  obtains r' where "f r = Some (x, r')" "br_ok r'" "same_input r r'"
    "r_underflow r' = r_underflow r" "r_stream r' = rest"
  using assms unfolding reads_def by blast

lemma br_init_ok:
  "len \<le> length inp \<Longrightarrow> br_ok (br_init inp len)"
  "r_stream (br_init inp len) = bytes_bits (take len inp)"
  by (simp_all add: br_init_def br_ok_def r_stream_def clean_above_def)

lemma length_r_stream:
  "br_ok r \<Longrightarrow> length (r_stream r) = r_bit_count r + 8 * (r_len r - r_pos r)"
  by (auto simp: br_ok_def r_stream_def)

text \<open>
  Filling the accumulator never leaves defined behaviour for a request of up to 24 bits;
  past the end of the input it appends zero bits and latches \<open>r_underflow\<close>.
\<close>

lemma bits_lsb_add_byte:
  fixes buf :: u32
  assumes "clean_above n buf" "n + 8 \<le> 32"
  shows "bits_lsb (n + 8) (buf OR push_bit n (ucast (b :: u8))) = bits_lsb n buf @ bits_lsb 8 b"
    and "clean_above (n + 8) (buf OR push_bit n (ucast b))"
proof -
  have "bits_lsb n (buf OR push_bit n (ucast b)) = bits_lsb n buf"
    by (rule bits_lsb_cong) (simp add: bit_simps)
  moreover have "map (\<lambda>i. bit (buf OR push_bit n (ucast b)) (n + i)) [0..<8] = bits_lsb 8 b"
    using assms by (auto simp: bits_lsb_def clean_above_iff bit_simps)
  ultimately show "bits_lsb (n + 8) (buf OR push_bit n (ucast b)) = bits_lsb n buf @ bits_lsb 8 b"
    by (simp add: bits_lsb_add)
  show "clean_above (n + 8) (buf OR push_bit n (ucast b))"
    using assms by (auto simp: clean_above_iff bit_simps dest: bit_imp_le_length)
qed

definition fill_inv :: "bitreader \<Rightarrow> nat \<Rightarrow> bool" where
  "fill_inv r count \<longleftrightarrow> r_pos r \<le> r_len r \<and> r_len r \<le> length (r_in r) \<and>
     r_bit_count r < count + 8 \<and> clean_above (r_bit_count r) (r_bit_buf r)"

lemma clean_above_mono: "clean_above m v \<Longrightarrow> m \<le> n \<Longrightarrow> clean_above n v"
  by (simp add: clean_above_iff)

lemma bits_lsb_clean:
  "clean_above m (v :: u32) \<Longrightarrow> bits_lsb (m + k) v = bits_lsb m v @ replicate k False"
  by (simp add: bits_lsb_add clean_above_iff map_replicate_const)

lemma br_fill_ok:
  assumes "fill_inv r count" "count \<le> 24"
  shows "\<exists>r' k. br_fill r count = Some r' \<and> fill_inv r' count \<and> count \<le> r_bit_count r' \<and>
    same_input r r' \<and> r_stream r' = r_stream r @ replicate k False \<and>
    (r_underflow r' \<longleftrightarrow> r_underflow r \<or> length (r_stream r) < count) \<and>
    (count \<le> length (r_stream r) \<longrightarrow> k = 0)"
  using assms
proof (induction r count rule: br_fill.induct)
  case (1 r count)
  note inv = "1.prems"(1) [unfolded fill_inv_def]
  show ?case
  proof (cases "r_bit_count r < count")
    case False
    moreover from this have "count \<le> length (r_stream r)" by (simp add: r_stream_def)
    ultimately show ?thesis
      using "1.prems" by (subst br_fill.simps) (auto intro!: exI [of _ 0])
  next
    case less: True
    then have lt: "r_bit_count r < 32" using "1.prems" by simp
    show ?thesis
    proof (cases "r_pos r \<ge> r_len r")
      case True
      let ?r = "r\<lparr>r_underflow := True, r_bit_buf := r_bit_buf r OR push_bit (r_bit_count r) 0,
        r_bit_count := r_bit_count r + 8\<rparr>"
      have "fill_inv ?r count"
        using inv less by (auto simp: fill_inv_def intro: clean_above_mono)
      with "1.IH"(1) [OF less True, of "push_bit (r_bit_count r) 0"] lt "1.prems" obtain r' k where
        r': "br_fill ?r count = Some r'" "fill_inv r' count" "count \<le> r_bit_count r'"
          "same_input ?r r'" "r_stream r' = r_stream ?r @ replicate k False" "r_underflow r'"
        by auto
      have "r_stream ?r = r_stream r @ replicate 8 False"
        using inv True by (simp add: r_stream_def bits_lsb_clean)
      moreover have "length (r_stream r) < count"
        using True less inv by (simp add: r_stream_def)
      ultimately show ?thesis
        using r' less True lt
        by (subst br_fill.simps)
          (auto simp: same_input_def replicate_add [symmetric] intro!: exI [of _ "8 + k"])
    next
      case False
      let ?b = "r_in r ! r_pos r"
      let ?s = "push_bit (r_bit_count r) (ucast ?b) :: u32"
      let ?r = "r\<lparr>r_bit_buf := r_bit_buf r OR ?s, r_pos := r_pos r + 1,
        r_bit_count := r_bit_count r + 8\<rparr>"
      have le: "r_bit_count r + 8 \<le> 32" using less "1.prems"(2) by simp
      have pos: "r_pos r < length (r_in r)" using False inv by simp
      have "fill_inv ?r count"
        using inv less False le by (auto simp: fill_inv_def bits_lsb_add_byte)
      with "1.IH"(2) [OF less False, of ?b ?s] lt pos "1.prems" obtain r' k where
        r': "br_fill ?r count = Some r'" "fill_inv r' count" "count \<le> r_bit_count r'"
          "same_input ?r r'" "r_stream r' = r_stream ?r @ replicate k False"
          "r_underflow r' \<longleftrightarrow> r_underflow ?r \<or> length (r_stream ?r) < count"
          "count \<le> length (r_stream ?r) \<longrightarrow> k = 0"
        by auto
      have "drop (r_pos r) (take (r_len r) (r_in r)) = ?b # drop (Suc (r_pos r)) (take (r_len r) (r_in r))"
        using False inv by (simp add: Cons_nth_drop_Suc [symmetric])
      then have "r_stream ?r = r_stream r"
        using inv le by (simp add: r_stream_def bits_lsb_add_byte)
      with r' less False lt pos show ?thesis
        by (subst br_fill.simps) (auto simp: same_input_def)
    qed
  qed
qed

lemma bits_lsb_split:
  fixes v :: u32
  assumes "c \<le> n"
  shows "bits_lsb n v = bits_lsb c (take_bit c v) @ bits_lsb (n - c) (drop_bit c v)"
proof -
  have "bits_lsb c (take_bit c v) = bits_lsb c v"
    by (rule bits_lsb_cong) (simp add: bit_take_bit_iff)
  moreover have "bits_lsb (n - c) (drop_bit c v) = map (\<lambda>i. bit v (c + i)) [0..<n - c]"
    by (simp add: bits_lsb_def bit_drop_bit_eq)
  ultimately show ?thesis using bits_lsb_add [of c "n - c" v] assms by simp
qed

text \<open>
  A read of up to 24 bits is always defined and keeps the invariant. With enough input it
  returns exactly the next bits; otherwise it latches \<open>r_underflow\<close>.
\<close>

lemma br_bits_total:
  assumes ok: "br_ok r" and c: "c \<le> 24"
  shows "\<exists>v r'. br_bits r c = Some (v, r') \<and> br_ok r' \<and> same_input r r' \<and>
    take_bit c v = v \<and>
    (if c \<le> length (r_stream r)
     then r_underflow r' = r_underflow r \<and> r_stream r = bits_lsb c v @ r_stream r'
     else r_underflow r')"
proof -
  have "fill_inv r c" using ok by (auto simp: br_ok_def fill_inv_def)
  from br_fill_ok [OF this c] obtain s k where s: "br_fill r c = Some s" "fill_inv s c"
    "c \<le> r_bit_count s" "same_input r s" "r_stream s = r_stream r @ replicate k False"
    "r_underflow s \<longleftrightarrow> r_underflow r \<or> length (r_stream r) < c"
    "c \<le> length (r_stream r) \<longrightarrow> k = 0" by blast
  let ?v = "take_bit c (r_bit_buf s)"
  let ?r = "s\<lparr>r_bit_buf := drop_bit c (r_bit_buf s), r_bit_count := r_bit_count s - c\<rparr>"
  have "br_bits r c = Some (?v, ?r)"
    using s(1) c by (simp add: br_bits_def mask_value)
  moreover have "br_ok ?r"
    using s(2,3) by (auto simp: fill_inv_def br_ok_def clean_above_iff bit_drop_bit_eq)
  moreover have "same_input r ?r" using s(4) by (simp add: same_input_def)
  moreover have "r_stream s = bits_lsb c ?v @ r_stream ?r"
    using bits_lsb_split [OF s(3), of "r_bit_buf s"] by (simp add: r_stream_def)
  ultimately show ?thesis
    using s(5-7) by (intro exI [of _ ?v] exI [of _ ?r]) auto
qed

text \<open>The field \<open>value\<close> of width \<open>c\<close> is read back by a read of the same width.\<close>

lemma reads_bits:
  assumes "c \<le> 24"
  shows "reads (\<lambda>r. br_bits r c) (bits_lsb c v) (take_bit c v)"
  unfolding reads_def
proof (intro allI impI, elim conjE)
  fix r rest
  assume ok: "br_ok r" and st: "r_stream r = bits_lsb c v @ rest"
  from br_bits_total [OF ok assms] obtain v' r' where
    r': "br_bits r c = Some (v', r')" "br_ok r'" "same_input r r'" "take_bit c v' = v'"
    and split: "if c \<le> length (r_stream r)
     then r_underflow r' = r_underflow r \<and> r_stream r = bits_lsb c v' @ r_stream r'
     else r_underflow r'" by blast
  from split st have eq: "r_underflow r' = r_underflow r" "bits_lsb c v' = bits_lsb c v"
    "r_stream r' = rest" by auto
  have bits: "bit v' i = bit v i" if "i < c" for i
    using eq(2) that by (metis nth_bits_lsb)
  have "take_bit c v' = take_bit c v"
    by (rule bit_word_eqI) (auto simp: bit_take_bit_iff bits)
  with r' eq show "\<exists>r'. br_bits r c = Some (take_bit c v, r') \<and> br_ok r' \<and> same_input r r' \<and>
      r_underflow r' = r_underflow r \<and> r_stream r' = rest"
    by auto
qed

lemma br_align_ok:
  assumes ok: "br_ok r"
  shows "\<exists>r'. br_align r = Some r' \<and> br_ok r' \<and> same_input r r' \<and>
    r_underflow r' = r_underflow r \<and> r_bit_count r' = 0 \<and>
    r_stream r' = drop (length (r_stream r) mod 8) (r_stream r)"
proof -
  let ?c = "r_bit_count r"
  have c: "?c < 8" using ok by (simp add: br_ok_def)
  have len: "length (r_stream r) mod 8 = ?c" using c by (simp add: length_r_stream [OF ok])
  show ?thesis
  proof (cases "?c = 0")
    case True
    then show ?thesis using ok len by (simp add: br_align_def)
  next
    case False
    have "?c \<le> length (r_stream r)" by (simp add: r_stream_def)
    moreover have "?c \<le> 24" using c by simp
    ultimately obtain v r' where r': "br_bits r ?c = Some (v, r')" "br_ok r'" "same_input r r'"
      "r_underflow r' = r_underflow r" "r_stream r = bits_lsb ?c v @ r_stream r'"
      using br_bits_total [OF ok, of ?c] by auto
    have "r_bit_count r' = 0"
    proof -
      have "length (r_stream r') mod 8 = 0"
        using r'(5) length_r_stream [OF ok] by (metis add_diff_cancel_left' length_append
            length_bits_lsb mod_mult_self1_is_0 mult.commute)
      then show ?thesis using length_r_stream [OF r'(2)] r'(2) by (simp add: br_ok_def)
    qed
    moreover have "r_stream r' = drop ?c (r_stream r)" using r'(5) by simp
    ultimately show ?thesis using r' False c len by (simp add: br_align_def)
  qed
qed

text \<open>Sequencing two reads.\<close>

lemma reads_bind:
  assumes "reads f as x" "reads (g x) bs y"
  shows "reads (\<lambda>r. f r \<bind> (\<lambda>(x, r). g x r)) (as @ bs) y"
  unfolding reads_def
proof (intro allI impI, elim conjE)
  fix r rest
  assume ok: "br_ok r" and st: "r_stream r = (as @ bs) @ rest"
  from st have "r_stream r = as @ (bs @ rest)" by simp
  with assms(1) ok obtain s where s: "f r = Some (x, s)" "br_ok s" "same_input r s"
    "r_underflow s = r_underflow r" "r_stream s = bs @ rest" by (rule readsD)
  with assms(2) obtain t where "g x s = Some (y, t)" "br_ok t" "same_input s t"
    "r_underflow t = r_underflow s" "r_stream t = rest" by (auto elim: readsD)
  with s show "\<exists>r'. (f r \<bind> (\<lambda>(x, r). g x r)) = Some (y, r') \<and> br_ok r' \<and> same_input r r' \<and>
      r_underflow r' = r_underflow r \<and> r_stream r' = rest"
    by (auto intro: same_input_trans)
qed

text \<open>A single bit.\<close>

lemma reads_bit: "reads (\<lambda>r. br_bits r 1) [b] (of_bool b)"
proof -
  have "bits_lsb 1 (of_bool b :: u32) = [b]" by (simp add: bits_lsb_def bit_0)
  then show ?thesis using reads_bits [of 1 "of_bool b"] by (cases b) simp_all
qed

text \<open>
  The measure of the decoding loops: the bits left, and 0 once the input has run out. A read
  never increases it and, as long as the input lasts, pays one for every bit.
\<close>

definition br_left :: "bitreader \<Rightarrow> nat" where
  "br_left r = (if r_underflow r then 0 else Suc (r_bit_count r + 8 * (r_len r - r_pos r)))"

lemma br_left_0_iff: "br_left r = 0 \<longleftrightarrow> r_underflow r"
  by (simp add: br_left_def)

lemma br_left_ok: "br_ok r \<Longrightarrow> br_left r = (if r_underflow r then 0 else Suc (length (r_stream r)))"
  by (simp add: br_left_def length_r_stream)

lemma br_fill_left:
  "br_fill r c = Some r' \<Longrightarrow> c \<le> r_bit_count r' \<and> br_left r' \<le> br_left r \<and>
     (\<not> r_underflow r' \<longrightarrow> br_left r' = br_left r)"
proof (induction r c arbitrary: r' rule: br_fill.induct)
  case (1 r c)
  show ?case
  proof (cases "r_bit_count r < c")
    case False
    with "1.prems" show ?thesis by (subst (asm) br_fill.simps) auto
  next
    case less: True
    show ?thesis
    proof (cases "r_pos r \<ge> r_len r")
      case True
      with "1.prems" less obtain z where z: "shl32 0 (r_bit_count r) = Some z"
        and rec: "br_fill (r\<lparr>r_underflow := True, r_bit_buf := r_bit_buf r OR z,
          r_bit_count := r_bit_count r + 8\<rparr>) c = Some r'"
        by (subst (asm) br_fill.simps) (auto split: option.splits)
      from "1.IH"(1) [OF less True z rec] show ?thesis by (simp add: br_left_def)
    next
      case False
      with "1.prems" less obtain b x where b: "rd (r_in r) (r_pos r) = Some b"
        and x: "shl32 (ucast b) (r_bit_count r) = Some x"
        and rec: "br_fill (r\<lparr>r_bit_buf := r_bit_buf r OR x, r_pos := r_pos r + 1,
          r_bit_count := r_bit_count r + 8\<rparr>) c = Some r'"
        by (subst (asm) br_fill.simps) (auto split: option.splits)
      from "1.IH"(2) [OF less False b x rec] False show ?thesis by (auto simp: br_left_def)
    qed
  qed
qed

lemma br_bits_decr:
  assumes "br_bits r c = Some (v, r')"
  shows "br_left r' \<le> br_left r" "\<not> r_underflow r' \<Longrightarrow> br_left r' + c = br_left r"
proof -
  from assms obtain s buf where s: "br_fill r c = Some s"
    and r': "r' = s\<lparr>r_bit_buf := buf, r_bit_count := r_bit_count s - c\<rparr>"
    by (auto simp: br_bits_def Let_def Option.bind_eq_Some_conv)
  from br_fill_left [OF s] show "br_left r' \<le> br_left r"
    "\<not> r_underflow r' \<Longrightarrow> br_left r' + c = br_left r"
    by (auto simp: r' br_left_def split: if_splits)
qed

lemma br_bits_left:
  assumes "br_ok r" "c \<le> 24"
  obtains v r' where "br_bits r c = Some (v, r')" "br_ok r'" "same_input r r'"
    "take_bit c v = v" "br_left r' \<le> br_left r"
    "\<not> r_underflow r' \<Longrightarrow> br_left r' + c = br_left r"
    "\<not> r_underflow r' \<Longrightarrow> r_stream r = bits_lsb c v @ r_stream r'"
proof -
  from br_bits_total [OF assms] obtain v r' where r': "br_bits r c = Some (v, r')" "br_ok r'"
    "same_input r r'" "take_bit c v = v"
    and split: "if c \<le> length (r_stream r)
     then r_underflow r' = r_underflow r \<and> r_stream r = bits_lsb c v @ r_stream r'
     else r_underflow r'" by blast
  from split show thesis
    by (intro that [OF r'] br_bits_decr [OF r'(1)]) (auto split: if_splits)
qed

section \<open>Properties\<close>

text \<open>
  A read of at most 24 bits is defined in every state of the reader between two calls, keeps its
  invariant, and returns exactly the next bits of the input when there are enough; otherwise it
  latches \<open>underflow\<close>, which then stays set.
\<close>

theorem reader_total:
  assumes "br_ok r" "count \<le> 24"
  shows "\<exists>v r'. br_bits r count = Some (v, r') \<and> br_ok r' \<and> r_in r' = r_in r \<and> r_len r' = r_len r \<and>
    (if count \<le> length (r_stream r)
     then r_underflow r' = r_underflow r \<and> r_stream r = bits_lsb count v @ r_stream r'
     else r_underflow r')"
proof -
  from br_bits_total [OF assms] obtain v r' where
    "br_bits r count = Some (v, r')" "br_ok r'" "same_input r r'"
    "if count \<le> length (r_stream r)
     then r_underflow r' = r_underflow r \<and> r_stream r = bits_lsb count v @ r_stream r'
     else r_underflow r'" by blast
  then show ?thesis by (intro exI [of _ v] exI [of _ r']) (simp add: same_input_def)
qed

theorem reader_total_witness:
  "\<exists>v r'. br_bits (br_init [0xA5] 1) 9 = Some (v, r') \<and> br_ok r' \<and> r_underflow r'"
proof -
  have "br_ok (br_init [0xA5] 1)" by (rule br_init_ok) simp
  from reader_total [OF this, of 9] show ?thesis by (auto simp: br_init_ok(2))
qed

text \<open>
  A write of at most 24 bits to a writer with room for them is defined, keeps the writer's
  invariant, appends exactly the low bits of the value, least significant first, and touches no byte
  at or past the capacity.
\<close>

theorem writer_appends:
  assumes "bw_ok w" "count \<le> 24" "length (w_stream w) + count \<le> 8 * w_cap w"
  shows "\<exists>w'. bw_bits w value count = Some w' \<and> bw_ok w' \<and> w_cap w' = w_cap w \<and>
    drop (w_cap w) (w_out w') = drop (w_cap w) (w_out w) \<and>
    w_stream w' = w_stream w @ bits_lsb count value"
proof -
  have "length (w_stream w) + length (bits_lsb count value) \<le> 8 * w_cap w" using assms(3) by simp
  from emitsD [OF bw_bits_emits [OF assms(2)] assms(1) this] show ?thesis
    by (auto simp: same_buffer_def)
qed

theorem writer_appends_witness:
  "\<exists>w'. bw_bits (bw_init [0, 0] 2) 0x1FF 9 = Some w' \<and> w_stream w' = bits_lsb 9 (0x1FF :: u32)"
proof -
  have "bw_ok (bw_init [0, 0] 2)" "w_stream (bw_init [0, 0] 2) = []" by (rule bw_init_ok, simp)+
  with writer_appends [of "bw_init [0, 0] 2" 9 "0x1FF"] show ?thesis
    by (auto simp: bw_init_def simp del: length_w_stream)
qed

text \<open>
  \<open>br_bits\<close> prepares a mask for a read of 32 bits, but such a read is undefined in every state: it
  ends by shifting the 32-bit accumulator by 32.
\<close>

theorem read_of_32_undefined: "br_bits r 32 = None"
  by (auto simp: br_bits_def shr32_def split: bind_splits)

end
