(* ===== verification/Huffman_Code.thy ===== *)
theory Huffman_Code
  imports Bits
begin

text \<open>
  Canonical Huffman codes of \<open>src/huffman.c\<close>: from bit lengths to codes
  (\<open>huff_assign_codes\<close>). Table entries are \<open>nat\<close> with C's wrap-around written out. The second
  half states the rule of RFC 1951 on the lengths alone and proves that the tables hold it.
\<close>

section \<open>From lengths to codes\<close>

definition count_lengths :: "nat list \<Rightarrow> nat \<Rightarrow> nat list option" where
  "count_lengths lengths n =
     ofor (\<lambda>i bl_count. do {
         l \<leftarrow> rd lengths i;
         if l \<noteq> 0 then do { c \<leftarrow> rd bl_count l; wr bl_count l ((c + 1) mod 2 ^ 16) }
         else Some bl_count })
       [0..<n] (replicate 16 0)"

definition first_codes :: "nat list \<Rightarrow> (nat \<times> nat list) option" where
  "first_codes bl_count =
     ofor (\<lambda>bits (code, next_code). do {
         c \<leftarrow> rd bl_count (bits - 1);
         let code = ((code + c) * 2) mod 2 ^ 32;
         next_code \<leftarrow> wr next_code bits (code mod 2 ^ 16);
         Some (code, next_code) })
       [1..<16] (0, replicate 17 0)"

definition hand_out_codes :: "nat list \<Rightarrow> nat \<Rightarrow> nat list \<Rightarrow> (nat list \<times> nat list) option" where
  "hand_out_codes lengths n next_code =
     ofor (\<lambda>i (next_code, codes). do {
         l \<leftarrow> rd lengths i;
         if l \<noteq> 0 then do {
           c \<leftarrow> rd next_code l;
           next_code \<leftarrow> wr next_code l ((c + 1) mod 2 ^ 16);
           codes \<leftarrow> wr codes i c;
           Some (next_code, codes) }
         else do { codes \<leftarrow> wr codes i 0; Some (next_code, codes) } })
       [0..<n] (next_code, replicate n 0)"

definition huff_assign_codes :: "nat list \<Rightarrow> nat \<Rightarrow> nat list option" where
  "huff_assign_codes lengths n = do {
     bl_count \<leftarrow> count_lengths lengths n;
     (_, next_code) \<leftarrow> first_codes bl_count;
     (_, codes) \<leftarrow> hand_out_codes lengths n next_code;
     Some codes }"

section \<open>What the tables contain\<close>

text \<open>
  The rule of RFC 1951, 3.2.2, on the lengths alone: the number of codes of each length, the
  first code of each length, the code of a symbol, and the position of the first symbol of
  each length in the decoding table.
\<close>

definition num_codes :: "nat list \<Rightarrow> nat \<Rightarrow> nat" where
  "num_codes ls l = (if l = 0 then 0 else count_list ls l)"

fun first_code :: "nat list \<Rightarrow> nat \<Rightarrow> nat" where
  "first_code ls 0 = 0"
| "first_code ls (Suc l) = 2 * (first_code ls l + num_codes ls l)"

fun first_index :: "nat list \<Rightarrow> nat \<Rightarrow> nat" where
  "first_index ls 0 = 0"
| "first_index ls (Suc l) = first_index ls l + num_codes ls l"

definition code_of :: "nat list \<Rightarrow> nat \<Rightarrow> nat" where
  "code_of ls i = first_code ls (ls ! i) + count_list (take i ls) (ls ! i)"

definition code_bits :: "nat list \<Rightarrow> nat \<Rightarrow> bool list" where
  "code_bits ls i = bits_msb (ls ! i) (code_of ls i)"

text \<open>Kraft's sum scaled by \<open>2 ^ m\<close>; a code is over-subscribed when it exceeds \<open>2 ^ m\<close>.\<close>

definition kraft :: "nat \<Rightarrow> nat list \<Rightarrow> nat" where
  "kraft m ls = (\<Sum>l\<leftarrow>ls. if l = 0 then 0 else 2 ^ (m - l))"

definition valid_lengths :: "nat list \<Rightarrow> bool" where
  "valid_lengths ls \<longleftrightarrow> length ls \<le> NUM_LITERALS \<and> (\<forall>l \<in> set ls. l \<le> MAX_CODE_BITS) \<and>
     kraft MAX_CODE_BITS ls \<le> 2 ^ MAX_CODE_BITS"

lemma num_codes_Nil [simp]: "num_codes [] l = 0"
  by (simp add: num_codes_def)

lemma num_codes_0 [simp]: "num_codes ls 0 = 0"
  by (simp add: num_codes_def)

lemma kraft_Nil [simp]: "kraft m [] = 0"
  by (simp add: kraft_def)

lemma kraft_Cons [simp]: "kraft m (l # ls) = (if l = 0 then 0 else 2 ^ (m - l)) + kraft m ls"
  by (simp add: kraft_def)

lemma kraft_append [simp]: "kraft m (as @ bs) = kraft m as + kraft m bs"
  by (simp add: kraft_def)

text \<open>Up to length \<open>l\<close> the code space used is the Kraft sum of the symbols that short.\<close>

lemma used_space:
  "first_code ls l + num_codes ls l = kraft l (filter (\<lambda>x. x \<le> l) ls)"
proof (induction l)
  case 0
  have "kraft 0 (filter (\<lambda>x. x \<le> 0) ls) = 0" by (induction ls) auto
  then show ?case by (simp add: num_codes_def)
next
  case (Suc l)
  have "kraft (Suc l) (filter (\<lambda>x. x \<le> Suc l) ls) =
      2 * kraft l (filter (\<lambda>x. x \<le> l) ls) + count_list ls (Suc l)"
    by (induction ls) (auto simp: Suc_diff_le le_Suc_eq)
  with Suc show ?case by (simp add: num_codes_def)
qed

lemma kraft_scale: "\<forall>l \<in> set ls. l \<le> m \<Longrightarrow> m \<le> k \<Longrightarrow> kraft k ls = 2 ^ (k - m) * kraft m ls"
  by (induction ls) (auto simp: algebra_simps power_add [symmetric])

lemma kraft_filter_le: "kraft m (filter P ls) \<le> kraft m ls"
  by (induction ls) auto

lemma code_space:
  assumes "kraft m ls \<le> 2 ^ m" "l \<le> m"
  shows "first_code ls l + num_codes ls l \<le> 2 ^ l"
proof -
  have "2 ^ (m - l) * kraft l (filter (\<lambda>x. x \<le> l) ls) = kraft m (filter (\<lambda>x. x \<le> l) ls)"
    using assms(2) by (intro kraft_scale [symmetric]) auto
  also have "\<dots> \<le> 2 ^ m" using assms(1) kraft_filter_le le_trans by blast
  also have "(2 :: nat) ^ m = 2 ^ (m - l) * 2 ^ l" using assms(2) by (simp flip: power_add)
  finally show ?thesis by (simp add: used_space)
qed

text \<open>Codes grow with their length: a prefix of a longer code is beyond every shorter code.\<close>

lemma first_code_mono:
  assumes "l < l'"
  shows "2 ^ (l' - l) * (first_code ls l + num_codes ls l) \<le> first_code ls l'"
  using assms
proof (induction l')
  case (Suc l')
  show ?case
  proof (cases "l = l'")
    case False
    with Suc have "2 ^ (l' - l) * (first_code ls l + num_codes ls l) \<le> first_code ls l'" by simp
    moreover have "(2 :: nat) ^ (Suc l' - l) = 2 * 2 ^ (l' - l)"
      using Suc.prems by (simp add: Suc_diff_le)
    ultimately show ?thesis by simp
  qed simp
qed simp

lemma count_list_take_less:
  "i < length ls \<Longrightarrow> count_list (take i ls) (ls ! i) < count_list ls (ls ! i)"
proof -
  assume "i < length ls"
  then have "ls = take i ls @ ls ! i # drop (Suc i) ls" by (rule id_take_nth_drop)
  then have "count_list ls (ls ! i) = count_list (take i ls @ ls ! i # drop (Suc i) ls) (ls ! i)"
    by simp
  then show ?thesis by simp
qed

lemma code_of_bounds:
  assumes "i < length ls" "ls ! i \<noteq> 0"
  shows "first_code ls (ls ! i) \<le> code_of ls i"
    and "code_of ls i < first_code ls (ls ! i) + num_codes ls (ls ! i)"
  using assms count_list_take_less [of i ls] by (simp_all add: code_of_def num_codes_def)

lemma num_codes_take_Suc:
  "k < length ls \<Longrightarrow>
     num_codes (take (Suc k) ls) l = num_codes (take k ls) l + of_bool (l \<noteq> 0 \<and> ls ! k = l)"
  by (simp add: num_codes_def take_Suc_conv_app_nth)

lemma num_codes_take_le: "num_codes (take k ls) l \<le> num_codes ls l"
  by (metis append_take_drop_id count_list_append le_add1 num_codes_def order_refl)

lemma num_codes_le_length: "num_codes ls l \<le> length ls"
  by (simp add: num_codes_def count_le_length)

lemma code_of_eq: "ls ! i \<noteq> 0 \<Longrightarrow> code_of ls i = first_code ls (ls ! i) + num_codes (take i ls) (ls ! i)"
  by (simp add: code_of_def num_codes_def)

text \<open>A list that is a table of a function, the shape of every array below.\<close>

definition tabulates :: "nat list \<Rightarrow> nat \<Rightarrow> (nat \<Rightarrow> nat) \<Rightarrow> bool" where
  "tabulates xs n f \<longleftrightarrow> length xs = n \<and> (\<forall>i < n. xs ! i = f i)"

lemma tabulates_rd: "tabulates xs n f \<Longrightarrow> i < n \<Longrightarrow> rd xs i = Some (f i)"
  by (simp add: tabulates_def)

lemma tabulates_wr:
  "tabulates xs n f \<Longrightarrow> i < n \<Longrightarrow> \<exists>ys. wr xs i v = Some ys \<and> tabulates ys n (f(i := v))"
  by (auto simp: tabulates_def nth_list_update)

lemma tabulates_replicate: "tabulates (replicate n v) n (\<lambda>_. v)"
  by (simp add: tabulates_def)

lemma tabulates_cong: "tabulates xs n f \<Longrightarrow> (\<And>i. i < n \<Longrightarrow> f i = g i) \<Longrightarrow> tabulates xs n g"
  by (simp add: tabulates_def)

lemma valid_lengths_length: "valid_lengths ls \<Longrightarrow> length ls \<le> 286"
  by (simp add: valid_lengths_def)

lemma valid_lengths_nth: "valid_lengths ls \<Longrightarrow> i < length ls \<Longrightarrow> ls ! i \<le> 15"
  by (simp add: valid_lengths_def)

lemma valid_code_space:
  "valid_lengths ls \<Longrightarrow> l \<le> 15 \<Longrightarrow> first_code ls l + num_codes ls l \<le> 2 ^ l"
  using code_space [of 15 ls l] by (auto simp: valid_lengths_def)

lemma count_lengths_ok:
  assumes "length ls \<le> 286" "\<forall>l \<in> set ls. l \<le> 15"
  shows "\<exists>bl. count_lengths ls (length ls) = Some bl \<and> tabulates bl 16 (num_codes ls)"
proof -
  have "\<exists>bl. count_lengths ls (length ls) = Some bl \<and> tabulates bl 16 (num_codes (take (length ls) ls))"
    unfolding count_lengths_def
  proof (rule ofor_upt_rule)
    show "tabulates (replicate 16 0) 16 (num_codes (take 0 ls))"
      by (rule tabulates_cong [OF tabulates_replicate]) (simp add: num_codes_def)
  next
    fix k bl
    assume k: "k < length ls" and bl: "tabulates bl 16 (num_codes (take k ls))"
    have "ls ! k \<le> 15" using assms(2) k by simp
    then have l: "ls ! k < 16" by simp
    have "num_codes (take k ls) (ls ! k) \<le> 286"
      using num_codes_le_length [of "take k ls" "ls ! k"] assms(1) k by simp
    then have m: "(num_codes (take k ls) (ls ! k) + 1) mod 2 ^ 16 = num_codes (take k ls) (ls ! k) + 1"
      by simp
    show "\<exists>bl'. (rd ls k \<bind> (\<lambda>l. if l \<noteq> 0
          then rd bl l \<bind> (\<lambda>c. wr bl l ((c + 1) mod 2 ^ 16)) else Some bl)) = Some bl' \<and>
        tabulates bl' 16 (num_codes (take (Suc k) ls))"
    proof (cases "ls ! k = 0")
      case True
      then show ?thesis
        using k bl by (auto simp: num_codes_take_Suc elim!: tabulates_cong)
    next
      case False
      from tabulates_wr [OF bl l] obtain ys where
        ys: "wr bl (ls ! k) (num_codes (take k ls) (ls ! k) + 1) = Some ys"
          "tabulates ys 16 ((num_codes (take k ls))(ls ! k := num_codes (take k ls) (ls ! k) + 1))"
        by blast
      moreover have "tabulates ys 16 (num_codes (take (Suc k) ls))"
        by (rule tabulates_cong [OF ys(2)]) (simp add: num_codes_take_Suc k False)
      ultimately show ?thesis
        using k False tabulates_rd [OF bl l] m by simp
    qed
  qed simp
  then show ?thesis by simp
qed

lemma first_codes_ok:
  assumes bl: "tabulates bl 16 (num_codes ls)"
    and space: "\<And>l. l \<le> 15 \<Longrightarrow> first_code ls l + num_codes ls l \<le> 2 ^ l"
  shows "\<exists>c nc. first_codes bl = Some (c, nc) \<and>
    tabulates nc 17 (\<lambda>l. if l < 16 then first_code ls l else 0)"
proof -
  let ?I = "\<lambda>b (code, nc). code = first_code ls (b - 1) \<and>
    tabulates nc 17 (\<lambda>l. if l < b then first_code ls l else 0)"
  have "\<exists>s. first_codes bl = Some s \<and> ?I 16 s"
    unfolding first_codes_def
  proof (rule ofor_upt_rule [where I = ?I])
    show "?I 1 (0, replicate 17 0)"
      by (auto intro: tabulates_cong [OF tabulates_replicate])
  next
    fix b s
    assume b: "1 \<le> b" "b < 16" and inv: "?I b s"
    obtain code nc where s: "s = (code, nc)" by (cases s)
    with inv have code: "code = first_code ls (b - 1)"
      and nc: "tabulates nc 17 (\<lambda>l. if l < b then first_code ls l else 0)" by auto
    have next_eq: "first_code ls b = (code + num_codes ls (b - 1)) * 2"
      using b code by (cases b) auto
    have "first_code ls b \<le> 2 ^ b" using space [of b] b by simp
    also have "(2 :: nat) ^ b \<le> 2 ^ 15" using b by (intro power_increasing) auto
    finally have "first_code ls b < 2 ^ 16" by simp
    then have m: "((code + num_codes ls (b - 1)) * 2) mod 4294967296 = first_code ls b"
      "first_code ls b mod 65536 = first_code ls b"
      by (simp_all add: next_eq)
    have b17: "b < 17" using b by simp
    from tabulates_wr [OF nc b17, of "first_code ls b"] obtain ys where ys:
      "wr nc b (first_code ls b) = Some ys"
      "tabulates ys 17 ((\<lambda>l. if l < b then first_code ls l else 0)(b := first_code ls b))" by blast
    have "tabulates ys 17 (\<lambda>l. if l < Suc b then first_code ls l else 0)"
      by (rule tabulates_cong [OF ys(2)]) auto
    moreover have "rd bl (b - 1) = Some (num_codes ls (b - 1))"
      by (rule tabulates_rd [OF bl]) (use b in simp)
    ultimately show "\<exists>s'. (case s of (code, next_code) \<Rightarrow> rd bl (b - 1) \<bind> (\<lambda>c.
          let code = ((code + c) * 2) mod 2 ^ 32
          in wr next_code b (code mod 2 ^ 16) \<bind> (\<lambda>next_code. Some (code, next_code)))) = Some s' \<and>
        ?I (Suc b) s'"
      using ys(1) by (simp add: s m Let_def del: One_nat_def distrib_right_numeral)
  qed simp
  then show ?thesis by auto
qed

lemma hand_out_codes_ok:
  assumes nc: "tabulates nc 17 (\<lambda>l. if l < 16 then first_code ls l else 0)"
    and valid: "valid_lengths ls"
  shows "\<exists>nc' codes. hand_out_codes ls (length ls) nc = Some (nc', codes) \<and>
    tabulates codes (length ls) (\<lambda>i. if ls ! i = 0 then 0 else code_of ls i)"
proof -
  let ?f = "\<lambda>k l. if l < 16 then first_code ls l + num_codes (take k ls) l else 0"
  let ?g = "\<lambda>k i. if i < k \<and> ls ! i \<noteq> 0 then code_of ls i else 0"
  let ?I = "\<lambda>k (nc, codes). tabulates nc 17 (?f k) \<and> tabulates codes (length ls) (?g k)"
  have "\<exists>s. hand_out_codes ls (length ls) nc = Some s \<and> ?I (length ls) s"
    unfolding hand_out_codes_def
  proof (rule ofor_upt_rule [where I = ?I])
    show "?I 0 (nc, replicate (length ls) 0)"
      using tabulates_cong [OF nc, where g = "?f 0"] tabulates_cong [OF tabulates_replicate, where g = "?g 0"]
      by (simp add: num_codes_def)
  next
    fix k s
    assume k: "k < length ls" and inv: "?I k s"
    obtain nc codes where s: "s = (nc, codes)" by (cases s)
    with inv have nc: "tabulates nc 17 (?f k)" and codes: "tabulates codes (length ls) (?g k)" by auto
    let ?l = "ls ! k"
    have l: "?l < 17" "?l \<le> 15" using valid_lengths_nth [OF valid k] by simp_all
    show "\<exists>s'. (case s of (next_code, codes) \<Rightarrow> rd ls k \<bind> (\<lambda>l. if l \<noteq> 0
          then rd next_code l \<bind> (\<lambda>c. wr next_code l ((c + 1) mod 2 ^ 16) \<bind>
            (\<lambda>next_code. wr codes k c \<bind> (\<lambda>codes. Some (next_code, codes))))
          else wr codes k 0 \<bind> (\<lambda>codes. Some (next_code, codes)))) = Some s' \<and> ?I (Suc k) s'"
    proof (cases "?l = 0")
      case True
      from tabulates_wr [OF codes k, of 0] obtain ys where
        ys: "wr codes k 0 = Some ys" "tabulates ys (length ls) ((?g k)(k := 0))" by blast
      have "tabulates ys (length ls) (?g (Suc k))"
        by (rule tabulates_cong [OF ys(2)]) (auto simp: True less_Suc_eq)
      moreover have "tabulates nc 17 (?f (Suc k))"
        by (rule tabulates_cong [OF nc]) (use True in \<open>auto simp: num_codes_take_Suc k\<close>)
      ultimately show ?thesis using k True ys(1) by (simp add: s)
    next
      case False
      have c: "rd nc ?l = Some (code_of ls k)"
        using tabulates_rd [OF nc l(1)] l(2) code_of_eq [OF False] by simp
      have "code_of ls k < first_code ls ?l + num_codes ls ?l"
        by (rule code_of_bounds(2) [OF k False])
      also have "\<dots> \<le> 2 ^ ?l" by (rule valid_code_space [OF valid l(2)])
      also have "(2 :: nat) ^ ?l \<le> 2 ^ 15" using l by (intro power_increasing) auto
      finally have m: "Suc (code_of ls k) mod 65536 = Suc (code_of ls k)" by simp
      from tabulates_wr [OF nc l(1), of "code_of ls k + 1"] obtain xs where
        xs: "wr nc ?l (code_of ls k + 1) = Some xs" "tabulates xs 17 ((?f k)(?l := code_of ls k + 1))"
        by blast
      from tabulates_wr [OF codes k, of "code_of ls k"] obtain ys where
        ys: "wr codes k (code_of ls k) = Some ys"
          "tabulates ys (length ls) ((?g k)(k := code_of ls k))" by blast
      have "tabulates xs 17 (?f (Suc k))"
        by (rule tabulates_cong [OF xs(2)]) (use l False in \<open>auto simp: num_codes_take_Suc k code_of_eq\<close>)
      moreover have "tabulates ys (length ls) (?g (Suc k))"
        by (rule tabulates_cong [OF ys(2)]) (auto simp: False less_Suc_eq)
      ultimately show ?thesis using k False c xs(1) ys(1) by (simp add: s m)
    qed
  qed simp
  then show ?thesis by (auto elim!: tabulates_cong)
qed

lemma huff_assign_codes_ok:
  assumes "valid_lengths ls"
  shows "\<exists>codes. huff_assign_codes ls (length ls) = Some codes \<and>
    tabulates codes (length ls) (\<lambda>i. if ls ! i = 0 then 0 else code_of ls i)"
proof -
  from assms have "length ls \<le> 286" "\<forall>l \<in> set ls. l \<le> 15" by (auto simp: valid_lengths_def)
  from count_lengths_ok [OF this] obtain bl where
    bl: "count_lengths ls (length ls) = Some bl" "tabulates bl 16 (num_codes ls)" by blast
  from first_codes_ok [OF bl(2) valid_code_space [OF assms]] obtain c nc where
    nc: "first_codes bl = Some (c, nc)" "tabulates nc 17 (\<lambda>l. if l < 16 then first_code ls l else 0)"
    by blast
  from hand_out_codes_ok [OF nc(2) assms] bl(1) nc(1) show ?thesis
    by (auto simp: huff_assign_codes_def)
qed

section \<open>Properties\<close>

text \<open>
  On every table of lengths that is not over-subscribed \<open>huff_assign_codes\<close> assigns the codes
  of RFC 1951, 3.2.2: the first code of each length follows from the counts of the shorter ones,
  and symbols of one length get consecutive codes in symbol order, each within its length.
\<close>

theorem assign_codes_canonical:
  assumes "valid_lengths ls"
  shows "\<exists>codes. huff_assign_codes ls (length ls) = Some codes \<and> length codes = length ls \<and>
    (\<forall>i < length ls. ls ! i \<noteq> 0 \<longrightarrow>
       codes ! i = first_code ls (ls ! i) + count_list (take i ls) (ls ! i) \<and> codes ! i < 2 ^ (ls ! i))"
proof -
  from huff_assign_codes_ok [OF assms] obtain codes where
    codes: "huff_assign_codes ls (length ls) = Some codes" "length codes = length ls"
      "\<And>i. i < length ls \<Longrightarrow> codes ! i = (if ls ! i = 0 then 0 else code_of ls i)"
    by (auto simp: tabulates_def)
  have "code_of ls i < 2 ^ (ls ! i)" if "i < length ls" "ls ! i \<noteq> 0" for i
    using code_of_bounds(2) [OF that] valid_code_space [OF assms valid_lengths_nth [OF assms that(1)]]
    by linarith
  with codes show ?thesis by (auto simp: code_of_def)
qed

theorem assign_codes_canonical_witness:
  "\<exists>codes. huff_assign_codes [2, 1, 0, 2] (length [2, 1, 0, 2 :: nat]) = Some codes \<and> codes ! 3 = 3"
proof -
  have "valid_lengths [2, 1, 0, 2]" by (simp add: valid_lengths_def kraft_def)
  from assign_codes_canonical [OF this] obtain codes where
    "huff_assign_codes [2, 1, 0, 2] (length [2, 1, 0, 2 :: nat]) = Some codes"
    "\<forall>i < 4. ([2, 1, 0, 2] ! i :: nat) \<noteq> 0 \<longrightarrow>
       codes ! i = first_code [2, 1, 0, 2] ([2, 1, 0, 2] ! i) + count_list (take i [2, 1, 0, 2 :: nat]) ([2, 1, 0, 2] ! i)"
    by auto
  then show ?thesis by (auto simp: num_codes_def numeral_eq_Suc)
qed

text \<open>
  The fixed code of both programs is not the one of RFC 1951, 3.2.6: it is built from 286
  symbols instead of 288, so the 9-bit codes of the literals 144 to 255 start at 396 instead of 400.
\<close>

theorem fixed_code_differs_from_rfc:
  "code_of fixed_lit_lengths 144 = 396 \<and> code_of rfc_fixed_lit_lengths 144 = 400"
proof -
  have count: "count_list (replicate n x) y = (if x = y then n else 0)" for n and x y :: nat
    by (induction n) auto
  have step: "first_code ls (numeral k) = 2 * (first_code ls (pred_numeral k) + num_codes ls (pred_numeral k))"
    for ls k by (simp add: numeral_eq_Suc)
  show ?thesis
    by (simp add: code_of_def fixed_lit_lengths_def rfc_fixed_lit_lengths_def nth_append count step num_codes_def)
qed

end
