(* ===== verification/Stream_Spec.thy ===== *)
theory Stream_Spec
  imports Huffman_Code
begin

text \<open>
  What a stream of the two programs is, in the terms of RFC 1951: the items of a
  block with their bits and the bytes they stand for, the run-length coded header of a dynamic
  block, the three kinds of block, and a stream of blocks. The decoder is proved against this
  description in \<open>Inflate_Proof\<close>, the encoder in \<open>Deflate\<close>. Three things are the programs' own:
  the fixed code is that of \<^const>\<open>fixed_lit_lengths\<close>, 286 symbols, not the 288 of the RFC
  (see \<open>Format\<close>); a run of code lengths may be cut off by their end; and a header has at most 30 distance
  codes. The format of the RFC itself is in \<open>Rfc1951\<close>.
\<close>

section \<open>Items\<close>

text \<open>
  A literal, or a copy given by its length code and extra value and its distance code and extra
  value.
\<close>

datatype item = Literal u8 | Copy nat nat nat nat

definition copy_length :: "nat \<Rightarrow> nat \<Rightarrow> nat" where
  "copy_length lc lx = LENGTH_BASE ! lc + lx"

definition copy_distance :: "nat \<Rightarrow> nat \<Rightarrow> nat" where
  "copy_distance dc dx = DIST_BASE ! dc + dx"

text \<open>The bytes a copy appends, one at a time, so that it may overlap itself.\<close>

fun extend_copy :: "nat \<Rightarrow> nat \<Rightarrow> u8 list \<Rightarrow> u8 list" where
  "extend_copy d 0 h = h"
| "extend_copy d (Suc n) h = extend_copy d n (h @ [h ! (length h - d)])"

fun item_out :: "u8 list \<Rightarrow> item \<Rightarrow> u8 list" where
  "item_out h (Literal b) = h @ [b]"
| "item_out h (Copy lc lx dc dx) = extend_copy (copy_distance dc dx) (copy_length lc lx) h"

text \<open>A symbol that has a code.\<close>

definition has_code :: "nat list \<Rightarrow> nat \<Rightarrow> bool" where
  "has_code ls i \<longleftrightarrow> i < length ls \<and> ls ! i \<noteq> 0"

fun item_bits :: "nat list \<Rightarrow> nat list \<Rightarrow> item \<Rightarrow> bool list" where
  "item_bits lit dist (Literal b) = code_bits lit (unat b)"
| "item_bits lit dist (Copy lc lx dc dx) =
     code_bits lit (257 + lc) @ bits_lsb (LENGTH_EXTRA ! lc) lx @
     code_bits dist dc @ bits_lsb (DIST_EXTRA ! dc) dx"

fun item_ok :: "nat list \<Rightarrow> nat list \<Rightarrow> u8 list \<Rightarrow> item \<Rightarrow> bool" where
  "item_ok lit dist h (Literal b) \<longleftrightarrow> has_code lit (unat b)"
| "item_ok lit dist h (Copy lc lx dc dx) \<longleftrightarrow>
     lc < 29 \<and> has_code lit (257 + lc) \<and> lx < 2 ^ (LENGTH_EXTRA ! lc) \<and>
     dc < 30 \<and> has_code dist dc \<and> dx < 2 ^ (DIST_EXTRA ! dc) \<and>
     copy_distance dc dx \<le> length h"

fun items_out :: "u8 list \<Rightarrow> item list \<Rightarrow> u8 list" where
  "items_out h [] = h"
| "items_out h (x # xs) = items_out (item_out h x) xs"

fun items_ok :: "nat list \<Rightarrow> nat list \<Rightarrow> u8 list \<Rightarrow> item list \<Rightarrow> bool" where
  "items_ok lit dist h [] \<longleftrightarrow> has_code lit END_OF_BLOCK"
| "items_ok lit dist h (x # xs) \<longleftrightarrow> item_ok lit dist h x \<and> items_ok lit dist (item_out h x) xs"

text \<open>The items of a block end with the end-of-block symbol.\<close>

fun items_bits :: "nat list \<Rightarrow> nat list \<Rightarrow> item list \<Rightarrow> bool list" where
  "items_bits lit dist [] = code_bits lit END_OF_BLOCK"
| "items_bits lit dist (x # xs) = item_bits lit dist x @ items_bits lit dist xs"

section \<open>The header of a dynamic block\<close>

text \<open>
  The code lengths are sent as run-length symbols \<open>(s, x)\<close> with their extra value: a length
  below 16, a repeat of the last length (16), or a run of zeros (17 and 18). A run that reaches
  past the end of the lengths is cut off there, as the decoder does.
\<close>

definition cl_extra_bits :: "nat \<Rightarrow> nat" where
  "cl_extra_bits s = (if s < 16 then 0 else if s = 16 then 2 else if s = 17 then 3 else 7)"

definition cl_apply :: "nat \<Rightarrow> nat list \<Rightarrow> nat \<times> nat \<Rightarrow> nat list option" where
  "cl_apply lim ls c = (case c of (s, x) \<Rightarrow>
     if s < 16 then Some (ls @ [s])
     else if s = 16 then
       if ls = [] then None else Some (take lim (ls @ replicate (3 + x) (last ls)))
     else if s = 17 then Some (take lim (ls @ replicate (3 + x) 0))
     else Some (take lim (ls @ replicate (11 + x) 0)))"

fun cl_run :: "nat \<Rightarrow> nat list \<Rightarrow> (nat \<times> nat) list \<Rightarrow> nat list option" where
  "cl_run lim ls [] = (if lim \<le> length ls then Some ls else None)"
| "cl_run lim ls (c # cs) =
     (if length ls < lim then
        (case cl_apply lim ls c of None \<Rightarrow> None | Some ls \<Rightarrow> cl_run lim ls cs)
      else None)"

definition cl_ok :: "nat list \<Rightarrow> nat \<times> nat \<Rightarrow> bool" where
  "cl_ok cl c \<longleftrightarrow> has_code cl (fst c) \<and> snd c < 2 ^ cl_extra_bits (fst c)"

definition cl_bits :: "nat list \<Rightarrow> nat \<times> nat \<Rightarrow> bool list" where
  "cl_bits cl c = code_bits cl (fst c) @ bits_lsb (cl_extra_bits (fst c)) (snd c)"

text \<open>The lengths of the code-length code come in the order of \<^const>\<open>CODELEN_ORDER\<close>.\<close>

definition cl_lengths :: "nat list \<Rightarrow> nat list" where
  "cl_lengths xs = foldl (\<lambda>ls (k, v). ls[k := v]) (replicate NUM_CODELEN 0) (zip CODELEN_ORDER xs)"

record dyn_header =
  h_lit :: nat
  h_dist :: nat
  h_cl :: "nat list"
  h_syms :: "(nat \<times> nat) list"

definition header_lengths :: "dyn_header \<Rightarrow> nat list option" where
  "header_lengths h = cl_run (h_lit h + h_dist h) [] (h_syms h)"

definition header_bits :: "dyn_header \<Rightarrow> bool list" where
  "header_bits h = bits_lsb 5 (h_lit h - 257) @ bits_lsb 5 (h_dist h - 1) @
     bits_lsb 4 (length (h_cl h) - 4) @ concat (map (bits_lsb 3) (h_cl h)) @
     concat (map (cl_bits (cl_lengths (h_cl h))) (h_syms h))"

text \<open>The two codes of a legal header.\<close>

definition header_codes :: "dyn_header \<Rightarrow> (nat list \<times> nat list) option" where
  "header_codes h =
     (if 257 \<le> h_lit h \<and> h_lit h \<le> NUM_LITERALS \<and> 1 \<le> h_dist h \<and> h_dist h \<le> NUM_DISTANCES \<and>
         4 \<le> length (h_cl h) \<and> length (h_cl h) \<le> NUM_CODELEN \<and> (\<forall>l \<in> set (h_cl h). l < 8) \<and>
         valid_lengths (cl_lengths (h_cl h)) \<and> (\<forall>c \<in> set (h_syms h). cl_ok (cl_lengths (h_cl h)) c)
      then (case header_lengths h of
              None \<Rightarrow> None
            | Some ls \<Rightarrow>
                if valid_lengths (take (h_lit h) ls) \<and> valid_lengths (drop (h_lit h) ls)
                then Some (take (h_lit h) ls, drop (h_lit h) ls) else None)
      else None)"

section \<open>Blocks and streams\<close>

text \<open>A stored block carries the padding before its length field; its value is ignored.\<close>

datatype block =
    Stored "bool list" "u8 list"
  | Fixed "item list"
  | Dynamic dyn_header "item list"

fun block_bits :: "block \<Rightarrow> bool list" where
  "block_bits (Stored pad bs) = bits_lsb 2 (0 :: nat) @ pad @ bits_lsb 16 (length bs) @
     bits_lsb 16 (65535 - length bs) @ bytes_bits bs"
| "block_bits (Fixed xs) = bits_lsb 2 (1 :: nat) @ items_bits fixed_lit_lengths fixed_dist_lengths xs"
| "block_bits (Dynamic h xs) = bits_lsb 2 (2 :: nat) @ header_bits h @
     (case header_codes h of Some (lit, dist) \<Rightarrow> items_bits lit dist xs | None \<Rightarrow> [])"

text \<open>\<open>pos\<close> is the position in the stream of the block's type field.\<close>

fun block_ok :: "nat \<Rightarrow> u8 list \<Rightarrow> block \<Rightarrow> bool" where
  "block_ok pos h (Stored pad bs) \<longleftrightarrow> (pos + 2 + length pad) mod 8 = 0 \<and> length pad < 8 \<and> length bs < 65536"
| "block_ok pos h (Fixed xs) \<longleftrightarrow> items_ok fixed_lit_lengths fixed_dist_lengths h xs"
| "block_ok pos h (Dynamic hdr xs) \<longleftrightarrow>
     (case header_codes hdr of Some (lit, dist) \<Rightarrow> items_ok lit dist h xs | None \<Rightarrow> False)"

fun block_out :: "u8 list \<Rightarrow> block \<Rightarrow> u8 list" where
  "block_out h (Stored pad bs) = h @ bs"
| "block_out h (Fixed xs) = items_out h xs"
| "block_out h (Dynamic hdr xs) = items_out h xs"

text \<open>The final bit is set on the last block and on no other.\<close>

fun stream_bits :: "block list \<Rightarrow> bool list" where
  "stream_bits [] = []"
| "stream_bits (b # bs) = (bs = []) # block_bits b @ stream_bits bs"

fun stream_ok :: "nat \<Rightarrow> u8 list \<Rightarrow> block list \<Rightarrow> bool" where
  "stream_ok pos h [] \<longleftrightarrow> False"
| "stream_ok pos h (b # bs) \<longleftrightarrow> block_ok (Suc pos) h b \<and>
     (bs \<noteq> [] \<longrightarrow> stream_ok (Suc pos + length (block_bits b)) (block_out h b) bs)"

fun stream_out :: "u8 list \<Rightarrow> block list \<Rightarrow> u8 list" where
  "stream_out h [] = h"
| "stream_out h (b # bs) = stream_out (block_out h b) bs"

text \<open>
  The number of code lengths a symbol stands for; in a tight block the runs of the header end where the
  lengths do, so that none is cut off.
\<close>

definition cl_count :: "nat \<times> nat \<Rightarrow> nat" where
  "cl_count c = (case c of (s, x) \<Rightarrow> if s < 16 then 1 else if s < 18 then 3 + x else 11 + x)"

fun tight :: "block \<Rightarrow> bool" where
  "tight (Dynamic h xs) \<longleftrightarrow> (\<Sum>c\<leftarrow>h_syms h. cl_count c) = h_lit h + h_dist h"
| "tight _ \<longleftrightarrow> True"

text \<open>A bit string that is a stream for a byte string.\<close>

definition encodes :: "block list \<Rightarrow> bool list \<Rightarrow> u8 list \<Rightarrow> bool" where
  "encodes bs bits bytes \<longleftrightarrow> stream_ok 0 [] bs \<and> stream_out [] bs = bytes \<and>
     (\<exists>rest. bits = stream_bits bs @ rest)"

section \<open>Lengths\<close>

lemma length_extend_copy [simp]: "length (extend_copy d n h) = length h + n"
  by (induction n arbitrary: h) auto

lemma extend_copy_snoc:
  "extend_copy d (Suc n) h =
     extend_copy d n h @ [extend_copy d n h ! (length (extend_copy d n h) - d)]"
proof (induction n arbitrary: h)
  case (Suc n)
  from Suc.IH [of "h @ [h ! (length h - d)]"] show ?case by (simp only: extend_copy.simps)
qed simp

lemma length_item_out_le: "length h \<le> length (item_out h x)"
  by (cases x) auto

lemma length_items_out_le: "length h \<le> length (items_out h xs)"
  by (induction xs arbitrary: h) (auto intro: order.trans [OF length_item_out_le])

lemma length_block_out_le: "length h \<le> length (block_out h b)"
  by (cases b) (auto intro: length_items_out_le)

lemma length_stream_out_le: "length h \<le> length (stream_out h bs)"
  by (induction bs arbitrary: h) (auto intro: order.trans [OF length_block_out_le])

lemma length_cl_apply:
  "cl_apply lim ls c = Some ls' \<Longrightarrow> length ls < lim \<Longrightarrow> length ls < length ls' \<and> length ls' \<le> lim"
  by (auto simp: cl_apply_def split: prod.splits if_splits)

lemma length_cl_run: "cl_run lim ls cs = Some ls' \<Longrightarrow> length ls \<le> lim \<Longrightarrow> length ls' = lim"
proof (induction cs arbitrary: ls)
  case (Cons c cs)
  then show ?case by (auto split: if_splits option.splits dest: length_cl_apply)
qed (auto split: if_splits)

lemma length_cl_lengths [simp]: "length (cl_lengths xs) = 19"
proof -
  have "length (foldl (\<lambda>ls (k, v). ls[k := v]) l0 ps) = length l0" for l0 :: "nat list" and ps
    by (induction ps arbitrary: l0) auto
  then show ?thesis by (simp add: cl_lengths_def)
qed

lemma cl_lengths_Nil [simp]: "cl_lengths [] = replicate 19 0"
  by (simp add: cl_lengths_def)

lemma cl_lengths_snoc:
  "length xs < 19 \<Longrightarrow> cl_lengths (xs @ [v]) = (cl_lengths xs)[CODELEN_ORDER ! length xs := v]"
proof -
  assume l: "length xs < 19"
  then have "drop (length xs) CODELEN_ORDER =
      CODELEN_ORDER ! length xs # drop (Suc (length xs)) CODELEN_ORDER"
    by (intro Cons_nth_drop_Suc [symmetric]) simp
  moreover have "zip (take (length xs) CODELEN_ORDER) xs = zip CODELEN_ORDER xs"
    using take_zip [of "length xs" CODELEN_ORDER xs] by simp
  ultimately have "zip CODELEN_ORDER (xs @ [v]) = zip CODELEN_ORDER xs @ [(CODELEN_ORDER ! length xs, v)]"
    by (simp add: zip_append2)
  then show ?thesis by (simp add: cl_lengths_def)
qed

lemma CODELEN_ORDER_less: "i < 19 \<Longrightarrow> CODELEN_ORDER ! i < 19"
proof -
  assume "i < 19"
  then have "CODELEN_ORDER ! i \<in> set CODELEN_ORDER" by simp
  then show ?thesis by (auto simp: CODELEN_ORDER_def)
qed

section \<open>The fixed code\<close>

lemma kraft_replicate [simp]: "kraft m (replicate n l) = n * (if l = 0 then 0 else 2 ^ (m - l))"
  by (induction n) auto

lemma valid_fixed_lengths:
  "valid_lengths fixed_lit_lengths" "valid_lengths fixed_dist_lengths"
  by (auto simp: valid_lengths_def fixed_lit_lengths_def fixed_dist_lengths_def)

lemma length_fixed_lengths [simp]:
  "length fixed_lit_lengths = 286" "length fixed_dist_lengths = 30"
  by (simp_all add: fixed_lit_lengths_def fixed_dist_lengths_def)

end
