(* ===== verification/LZ77.thy ===== *)
theory LZ77
  imports Stream_Spec
begin

text \<open>
  The matcher of \<open>src/deflate.c\<close>: the hash chains, \<open>find_match\<close> and \<open>lz77_parse\<close>. The input is
  the list of its \<open>in_len\<close> bytes, so a read past its end is undefined. \<open>head\<close> holds \<open>int32\<close>
  values; a cell of \<open>prev\<close> is \<^const>\<open>None\<close> until it is written. The main loop is a partial
  function, so that its termination is part of what is proved.
\<close>

section \<open>Data\<close>

record token =
  tk_length :: nat
  tk_distance :: nat
  tk_literal :: u8

record level_config =
  lv_good_length :: nat
  lv_max_chain :: nat
  lv_lazy :: bool

definition LEVELS :: "level_config list" where
  "LEVELS = map (\<lambda>(g, c, l). \<lparr>lv_good_length = g, lv_max_chain = c, lv_lazy = l\<rparr>)
     [(0, 0, False), (4, 4, False), (4, 8, False), (4, 32, False), (4, 16, True),
      (8, 32, True), (8, 128, True), (8, 256, True), (32, 1024, True), (32, 4096, True)]"

definition hash3 :: "u8 list \<Rightarrow> nat \<Rightarrow> nat option" where
  "hash3 inp p = do {
     a \<leftarrow> rd inp p; b \<leftarrow> rd inp (p + 1); c \<leftarrow> rd inp (p + 2);
     Some (unat ((push_bit 10 (ucast a :: u32) XOR push_bit 5 (ucast b) XOR ucast c) AND 0x7FFF)) }"

text \<open>\<open>(int32_t)pos\<close>\<close>

definition to_int32 :: "nat \<Rightarrow> int" where
  "to_int32 pos = sint (of_nat pos :: u32)"

text \<open>Inserting a position at the head of its chain.\<close>

definition insert_pos ::
  "u8 list \<Rightarrow> nat \<Rightarrow> int list \<Rightarrow> int option list \<Rightarrow> (int list \<times> int option list) option" where
  "insert_pos inp pos head prev = do {
     h \<leftarrow> hash3 inp pos;
     v \<leftarrow> rd head h;
     prev \<leftarrow> wr prev (pos mod WINDOW_SIZE) (Some v);
     head \<leftarrow> wr head h (to_int32 pos);
     Some (head, prev) }"

text \<open>The insertion loops: positions from \<open>k\<close> below \<open>end\<close> that still start three bytes.\<close>

function insert_range ::
  "u8 list \<Rightarrow> nat \<Rightarrow> nat \<Rightarrow> int list \<Rightarrow> int option list \<Rightarrow> (int list \<times> int option list) option" where
  "insert_range inp k e head prev =
     (if k < e \<and> k + MIN_MATCH \<le> length inp then
        (case insert_pos inp k head prev of
           None \<Rightarrow> None
         | Some (head, prev) \<Rightarrow> insert_range inp (k + 1) e head prev)
      else Some (head, prev))"
  by pat_completeness auto
termination
  by (relation "measure (\<lambda>(inp, k, e, head, prev). e - k)") auto

declare insert_range.simps [simp del]

section \<open>Finding a match\<close>

text \<open>The inner loop: how far the bytes at \<open>a\<close> and \<open>b\<close> agree.\<close>

function match_run :: "u8 list \<Rightarrow> nat \<Rightarrow> nat \<Rightarrow> nat \<Rightarrow> nat \<Rightarrow> nat option" where
  "match_run inp a b max_len len =
     (if len < max_len then
        (case (rd inp (a + len), rd inp (b + len)) of
           (Some x, Some y) \<Rightarrow> if x = y then match_run inp a b max_len (len + 1) else Some len
         | _ \<Rightarrow> None)
      else Some len)"
  by pat_completeness auto
termination
  by (relation "measure (\<lambda>(inp, a, b, max_len, len). max_len - len)") auto

declare match_run.simps [simp del]

text \<open>\<open>candidate = prev[candidate & (WINDOW_SIZE - 1)]\<close>\<close>

definition next_candidate :: "int option list \<Rightarrow> int \<Rightarrow> int option" where
  "next_candidate prev candidate = do { c \<leftarrow> rd prev (nat candidate mod WINDOW_SIZE); c }"

text \<open>The walk down the chain; \<open>distance\<close> is computed in \<open>size_t\<close>.\<close>

function search_chain ::
  "u8 list \<Rightarrow> nat \<Rightarrow> nat \<Rightarrow> int option list \<Rightarrow> nat \<Rightarrow> int \<Rightarrow> nat \<Rightarrow> nat \<Rightarrow> nat \<Rightarrow> (nat \<times> nat) option"
where
  "search_chain inp pos max_len prev good candidate chain best_len best_dist =
     (if candidate \<ge> 0 \<and> chain > 0 then
        (let chain = chain - 1;
             distance = nat ((int pos - candidate) mod 2 ^ 64) in
         if best_len \<ge> max_len then Some (best_len, best_dist)
         else if distance = 0 \<or> distance > WINDOW_SIZE then Some (best_len, best_dist)
         else
           (case (if best_len > 0 then do {
                    x \<leftarrow> rd inp (pos + best_len);
                    y \<leftarrow> rd inp (nat candidate + best_len);
                    Some (x \<noteq> y) }
                  else Some False) of
              None \<Rightarrow> None
            | Some True \<Rightarrow>
                (case next_candidate prev candidate of
                   None \<Rightarrow> None
                 | Some c \<Rightarrow> search_chain inp pos max_len prev good c chain best_len best_dist)
            | Some False \<Rightarrow>
                (case match_run inp pos (nat candidate) max_len 0 of
                   None \<Rightarrow> None
                 | Some len \<Rightarrow>
                     (case next_candidate prev candidate of
                        None \<Rightarrow> None
                      | Some c \<Rightarrow>
                          if len > best_len
                          then search_chain inp pos max_len prev good c
                                 (if len \<ge> good then chain div 4 else chain) len distance
                          else search_chain inp pos max_len prev good c chain best_len best_dist))))
      else Some (best_len, best_dist))"
  by pat_completeness auto
termination
  by (relation "measure (\<lambda>(inp, pos, max_len, prev, good, c, chain, bl, bd). chain)") auto

declare search_chain.simps [simp del]

text \<open>The length found and its distance; the distance of no match is the caller's 0.\<close>

definition find_match ::
  "u8 list \<Rightarrow> nat \<Rightarrow> int list \<Rightarrow> int option list \<Rightarrow> level_config \<Rightarrow> (nat \<times> nat) option" where
  "find_match inp pos head prev cfg =
     (let max_len = min (length inp - pos) MAX_MATCH in
      if max_len < MIN_MATCH then Some (0, 0)
      else do {
        h \<leftarrow> hash3 inp pos;
        candidate \<leftarrow> rd head h;
        (best_len, best_dist) \<leftarrow>
          search_chain inp pos max_len prev (lv_good_length cfg) candidate (lv_max_chain cfg) 0 0;
        Some (if best_len \<ge> MIN_MATCH then (best_len, best_dist) else (0, 0)) })"

section \<open>The parse\<close>

record lz_state =
  lz_head :: "int list"
  lz_prev :: "int option list"
  lz_tokens :: "token list"
  lz_pos :: nat
  lz_have_prev :: bool
  lz_prev_len :: nat
  lz_prev_dist :: nat
  lz_prev_pos :: nat

text \<open>\<open>tokens[n++] = ...\<close> in an array of \<open>in_len + 1\<close> tokens.\<close>

definition push_token :: "u8 list \<Rightarrow> token \<Rightarrow> lz_state \<Rightarrow> lz_state option" where
  "push_token inp t st =
     (if length (lz_tokens st) < length inp + 1
      then Some (st\<lparr>lz_tokens := lz_tokens st @ [t]\<rparr>) else None)"

definition literal_token :: "u8 \<Rightarrow> token" where
  "literal_token b = \<lparr>tk_length = 0, tk_distance = 0, tk_literal = b\<rparr>"

definition match_token :: "nat \<Rightarrow> nat \<Rightarrow> token" where
  "match_token len dist =
     \<lparr>tk_length = len mod 2 ^ 16, tk_distance = dist mod 2 ^ 16, tk_literal = 0\<rparr>"

text \<open>The two policies: take the match at once, or hold it back for one byte.\<close>

definition greedy_step :: "u8 list \<Rightarrow> nat \<Rightarrow> nat \<Rightarrow> lz_state \<Rightarrow> lz_state option" where
  "greedy_step inp len dist st =
     (if len \<ge> MIN_MATCH then do {
        st \<leftarrow> push_token inp (match_token len dist) st;
        (head, prev) \<leftarrow> insert_range inp (lz_pos st + 1) (lz_pos st + len) (lz_head st) (lz_prev st);
        Some (st\<lparr>lz_head := head, lz_prev := prev, lz_pos := lz_pos st + len\<rparr>) }
      else do {
        b \<leftarrow> rd inp (lz_pos st);
        st \<leftarrow> push_token inp (literal_token b) st;
        Some (st\<lparr>lz_pos := lz_pos st + 1\<rparr>) })"

definition hold_match :: "nat \<Rightarrow> nat \<Rightarrow> lz_state \<Rightarrow> lz_state" where
  "hold_match len dist st = st\<lparr>lz_have_prev := True, lz_prev_len := len, lz_prev_dist := dist,
     lz_prev_pos := lz_pos st, lz_pos := lz_pos st + 1\<rparr>"

definition lazy_step :: "u8 list \<Rightarrow> nat \<Rightarrow> nat \<Rightarrow> lz_state \<Rightarrow> lz_state option" where
  "lazy_step inp len dist st =
     (if lz_have_prev st then
        if len > lz_prev_len st then do {
          b \<leftarrow> rd inp (lz_prev_pos st);
          st \<leftarrow> push_token inp (literal_token b) st;
          Some (hold_match len dist st) }
        else do {
          st \<leftarrow> push_token inp (match_token (lz_prev_len st) (lz_prev_dist st)) st;
          let e = lz_prev_pos st + lz_prev_len st;
          (head, prev) \<leftarrow> insert_range inp (lz_pos st + 1) e (lz_head st) (lz_prev st);
          Some (st\<lparr>lz_head := head, lz_prev := prev, lz_pos := e,
            lz_have_prev := False, lz_prev_len := 0\<rparr>) }
      else if len \<ge> MIN_MATCH then Some (hold_match len dist st)
      else do {
        b \<leftarrow> rd inp (lz_pos st);
        st \<leftarrow> push_token inp (literal_token b) st;
        Some (st\<lparr>lz_pos := lz_pos st + 1\<rparr>) })"

text \<open>One turn of the main loop: search, insert, decide.\<close>

definition lz77_step :: "u8 list \<Rightarrow> level_config \<Rightarrow> lz_state \<Rightarrow> lz_state option" where
  "lz77_step inp cfg st = do {
     (len, dist) \<leftarrow> (if lz_pos st + MIN_MATCH \<le> length inp
                     then find_match inp (lz_pos st) (lz_head st) (lz_prev st) cfg
                     else Some (0, 0));
     st \<leftarrow> (if lz_pos st + MIN_MATCH \<le> length inp
            then do {
              (head, prev) \<leftarrow> insert_pos inp (lz_pos st) (lz_head st) (lz_prev st);
              Some (st\<lparr>lz_head := head, lz_prev := prev\<rparr>) }
            else Some st);
     if lv_lazy cfg then lazy_step inp len dist st else greedy_step inp len dist st }"

partial_function (option) lz77_loop ::
  "u8 list \<Rightarrow> level_config \<Rightarrow> lz_state \<Rightarrow> lz_state option" where
  "lz77_loop inp cfg st =
     (if lz_pos st < length inp
      then do { st \<leftarrow> lz77_step inp cfg st; lz77_loop inp cfg st }
      else Some st)"

definition lz77_init :: lz_state where
  "lz77_init = \<lparr>lz_head = replicate 32768 (-1), lz_prev = replicate WINDOW_SIZE None,
     lz_tokens = [], lz_pos = 0, lz_have_prev = False, lz_prev_len = 0, lz_prev_dist = 0,
     lz_prev_pos = 0\<rparr>"

text \<open>
  \<open>head_ok\<close> and \<open>prev_ok\<close> are the outcomes of the two allocations. The result is \<^const>\<open>None\<close>
  inside the option when the C function returns \<open>-1\<close>, and the tokens otherwise.
\<close>

definition lz77_parse :: "bool \<Rightarrow> bool \<Rightarrow> u8 list \<Rightarrow> nat \<Rightarrow> token list option option" where
  "lz77_parse head_ok prev_ok inp level = do {
     cfg \<leftarrow> rd LEVELS level;
     if \<not> head_ok \<or> \<not> prev_ok then Some None
     else do {
       st \<leftarrow> lz77_loop inp cfg lz77_init;
       st \<leftarrow> (if lz_have_prev st
              then push_token inp (match_token (lz_prev_len st) (lz_prev_dist st)) st
              else Some st);
       Some (Some (lz_tokens st)) } }"

section \<open>The chains are safe to follow\<close>

text \<open>
  Every non-negative entry is a position before \<open>p\<close> whose cell of \<open>prev\<close> has been written.
\<close>

definition entry_ok :: "nat \<Rightarrow> int option list \<Rightarrow> int \<Rightarrow> bool" where
  "entry_ok p prev v \<longleftrightarrow> (v \<ge> 0 \<longrightarrow> nat v < p \<and> prev ! (nat v mod 32768) \<noteq> None)"

definition chains_ok :: "nat \<Rightarrow> int list \<Rightarrow> int option list \<Rightarrow> bool" where
  "chains_ok p head prev \<longleftrightarrow> length head = 32768 \<and> length prev = 32768 \<and>
     (\<forall>h < 32768. entry_ok p prev (head ! h)) \<and>
     (\<forall>i < 32768. \<forall>v. prev ! i = Some v \<longrightarrow> entry_ok p prev v)"

lemma hash3_ok:
  assumes "p + 3 \<le> length inp"
  obtains h where "hash3 inp p = Some h" "h < 32768"
proof -
  have "v AND 0x7FFF = take_bit 15 v" for v :: u32
    by (simp add: take_bit_eq_mask mask_eq_exp_minus_1)
  moreover have "unat (take_bit 15 (v :: u32)) < 32768" for v
    using take_bit_nat_less_exp [of 15 "unat v"] by (simp add: unsigned_take_bit_eq)
  ultimately have "unat (v AND 0x7FFF) < 32768" for v :: u32 by simp
  with assms that show thesis by (auto simp: hash3_def)
qed

lemma to_int32_nonneg:
  assumes "to_int32 pos \<ge> 0"
  shows "nat (to_int32 pos) \<le> pos" "nat (to_int32 pos) mod 32768 = pos mod 32768"
proof -
  have eq: "to_int32 pos = signed_take_bit 31 (int pos)" by (simp add: to_int32_def signed_of_nat)
  with assms have "\<not> bit (int pos) 31" by (metis not_less signed_take_bit_negative_iff)
  then have "to_int32 pos = take_bit 31 (int pos)" unfolding eq by (rule signed_take_bit_eq_if_positive)
  then have "nat (to_int32 pos) = pos mod 2 ^ 31" by (simp add: take_bit_eq_mod nat_mod_distrib)
  then show "nat (to_int32 pos) \<le> pos" "nat (to_int32 pos) mod 32768 = pos mod 32768"
    by (simp_all add: mod_mod_cancel)
qed

lemma entry_ok_mono: "entry_ok p prev v \<Longrightarrow> p \<le> q \<Longrightarrow> entry_ok q prev v"
  by (auto simp: entry_ok_def)

lemma chains_ok_mono: "chains_ok p head prev \<Longrightarrow> p \<le> q \<Longrightarrow> chains_ok q head prev"
  unfolding chains_ok_def by (meson entry_ok_mono)

lemma chains_ok_init: "chains_ok p (replicate 32768 (-1)) (replicate 32768 None)"
  by (simp add: chains_ok_def entry_ok_def)

lemma insert_pos_ok:
  assumes ok: "chains_ok p head prev" and p: "p \<le> pos" "pos + 3 \<le> length inp"
  shows "\<exists>head' prev'. insert_pos inp pos head prev = Some (head', prev') \<and>
    chains_ok (pos + 1) head' prev'"
proof -
  from hash3_ok [OF p(2)] obtain h where h: "hash3 inp pos = Some h" "h < 32768" .
  let ?i = "pos mod 32768"
  let ?prev = "prev[?i := Some (head ! h)]" and ?head = "head[h := to_int32 pos]"
  have len: "length head = 32768" "length prev = 32768" using ok by (simp_all add: chains_ok_def)
  have keep: "entry_ok (pos + 1) ?prev v" if "entry_ok p prev v" for v
    using that p(1) len by (auto simp: entry_ok_def nth_list_update)
  have new: "entry_ok (pos + 1) ?prev (to_int32 pos)"
    using to_int32_nonneg [of pos] len by (auto simp: entry_ok_def nth_list_update)
  have "chains_ok (pos + 1) ?head ?prev"
    unfolding chains_ok_def
  proof (intro conjI allI impI)
    fix k :: nat
    assume "k < 32768"
    then show "entry_ok (pos + 1) ?prev (?head ! k)"
      using ok keep new len by (cases "k = h") (auto simp: chains_ok_def)
  next
    fix k v
    assume k: "k < (32768 :: nat)" and v: "?prev ! k = Some v"
    show "entry_ok (pos + 1) ?prev v"
    proof (cases "k = ?i")
      case True
      with v len have "v = head ! h" by simp
      with ok h(2) keep show ?thesis by (auto simp: chains_ok_def)
    next
      case False
      with v have "prev ! k = Some v" by simp
      with ok k keep show ?thesis by (auto simp: chains_ok_def)
    qed
  qed (use len in simp_all)
  with h len show ?thesis by (simp add: insert_pos_def)
qed

lemma insert_range_ok:
  assumes "chains_ok k head prev"
  shows "\<exists>head' prev'. insert_range inp k e head prev = Some (head', prev') \<and>
    chains_ok (max k e) head' prev'"
  using assms
proof (induction "e - k" arbitrary: k head prev)
  case 0
  then show ?case by (subst insert_range.simps) (auto elim: chains_ok_mono)
next
  case (Suc m)
  then have k: "k < e" by simp
  show ?case
  proof (cases "k + 3 \<le> length inp")
    case False
    with Suc.prems show ?thesis by (subst insert_range.simps) (auto elim: chains_ok_mono)
  next
    case True
    from insert_pos_ok [OF Suc.prems order_refl True] obtain head1 prev1 where
      1: "insert_pos inp k head prev = Some (head1, prev1)" "chains_ok (k + 1) head1 prev1" by blast
    have "m = e - (k + 1)" using Suc.hyps(2) by simp
    from Suc.hyps(1) [OF this 1(2)] k obtain head' prev' where
      "insert_range inp (k + 1) e head1 prev1 = Some (head', prev')" "chains_ok e head' prev'"
      by (auto simp: max_def)
    with 1 True k show ?thesis by (subst insert_range.simps) (simp add: max_def)
  qed
qed

section \<open>A match is a repetition\<close>

definition agree :: "u8 list \<Rightarrow> nat \<Rightarrow> nat \<Rightarrow> nat \<Rightarrow> bool" where
  "agree inp a b n \<longleftrightarrow> (\<forall>i < n. inp ! (a + i) = inp ! (b + i))"

definition match_at :: "u8 list \<Rightarrow> nat \<Rightarrow> nat \<Rightarrow> nat \<Rightarrow> bool" where
  "match_at inp pos len dist \<longleftrightarrow> 3 \<le> len \<and> len \<le> 258 \<and> pos + len \<le> length inp \<and>
     1 \<le> dist \<and> dist \<le> 32768 \<and> dist \<le> pos \<and> agree inp pos (pos - dist) len"

lemma match_run_ok:
  assumes "len \<le> max_len" "a + max_len \<le> length inp" "b + max_len \<le> length inp" "agree inp a b len"
  shows "\<exists>n. match_run inp a b max_len len = Some n \<and> len \<le> n \<and> n \<le> max_len \<and> agree inp a b n"
  using assms
proof (induction "max_len - len" arbitrary: len)
  case 0
  then show ?case by (subst match_run.simps) auto
next
  case (Suc m)
  then have less: "len < max_len" by simp
  show ?case
  proof (cases "inp ! (a + len) = inp ! (b + len)")
    case True
    with Suc.prems have "agree inp a b (Suc len)" by (simp add: agree_def less_Suc_eq)
    have "m = max_len - Suc len" "Suc len \<le> max_len" using Suc.hyps(2) by simp_all
    from Suc.hyps(1) [OF this Suc.prems(2,3) \<open>agree inp a b (Suc len)\<close>] obtain n where
      "match_run inp a b max_len (Suc len) = Some n" "Suc len \<le> n" "n \<le> max_len" "agree inp a b n"
      by blast
    with True less Suc.prems show ?thesis by (subst match_run.simps) auto
  next
    case False
    with less Suc.prems show ?thesis by (subst match_run.simps) auto
  qed
qed

text \<open>The invariant of the walk down the chain: the best run so far.\<close>

definition best_ok :: "u8 list \<Rightarrow> nat \<Rightarrow> nat \<Rightarrow> nat \<Rightarrow> nat \<Rightarrow> bool" where
  "best_ok inp pos max_len len dist \<longleftrightarrow> len \<le> max_len \<and>
     (0 < len \<longrightarrow> 1 \<le> dist \<and> dist \<le> 32768 \<and> dist \<le> pos \<and> agree inp pos (pos - dist) len)"

lemma next_candidate_ok:
  assumes "chains_ok p head prev" "entry_ok p prev c" "c \<ge> 0"
  obtains c' where "next_candidate prev c = Some c'" "entry_ok p prev c'"
proof -
  have "length prev = 32768" using assms(1) by (simp add: chains_ok_def)
  moreover from assms(2,3) obtain c' where c': "prev ! (nat c mod 32768) = Some c'"
    by (auto simp: entry_ok_def)
  moreover have "nat c mod 32768 < 32768" by simp
  then have "entry_ok p prev c'" using assms(1) c' unfolding chains_ok_def by blast
  ultimately show thesis by (intro that [of c']) (simp_all add: next_candidate_def)
qed

lemma search_chain_ok:
  assumes ok: "chains_ok p head prev" and p: "p \<le> pos" "pos + max_len \<le> length inp"
    and size: "length inp < 2 ^ 64"
    and "entry_ok p prev c" "best_ok inp pos max_len bl bd"
  shows "\<exists>bl' bd'. search_chain inp pos max_len prev good c chain bl bd = Some (bl', bd') \<and>
    best_ok inp pos max_len bl' bd'"
  using assms(5,6)
proof (induction chain arbitrary: c bl bd rule: less_induct)
  case (less chain)
  note best = less.prems(2) [unfolded best_ok_def]
  show ?case
  proof (cases "c \<ge> 0 \<and> chain > 0")
    case False
    with less.prems show ?thesis by (subst search_chain.simps) auto
  next
    case True
    then have c: "c \<ge> 0" "nat c < p" using less.prems(1) by (auto simp: entry_ok_def)
    let ?d = "pos - nat c"
    have dist: "nat ((int pos - c) mod 2 ^ 64) = ?d"
    proof -
      have "int pos - c = int ?d" using c p(1) by simp
      moreover have "int ?d mod 2 ^ 64 = int (?d mod 2 ^ 64)"
        by (simp only: of_nat_mod of_nat_power of_nat_numeral)
      moreover have "?d < 2 ^ 64" using size p(2) by linarith
      ultimately show ?thesis by (simp only: mod_less nat_int)
    qed
    have d: "1 \<le> ?d" "?d \<le> pos" "pos - ?d = nat c" using c p(1) by auto
    note step = search_chain.simps [of inp pos max_len prev good c chain bl bd, unfolded Let_def dist]
    show ?thesis
    proof (cases "bl \<ge> max_len \<or> ?d > 32768")
      case True
      have "search_chain inp pos max_len prev good c chain bl bd = Some (bl, bd)"
      proof (cases "bl \<ge> max_len")
        case bl: True
        show ?thesis unfolding step if_P [OF \<open>c \<ge> 0 \<and> chain > 0\<close>] if_P [OF bl] ..
      next
        case False
        with True have far: "?d = 0 \<or> ?d > 32768" by blast
        show ?thesis
          unfolding step if_P [OF \<open>c \<ge> 0 \<and> chain > 0\<close>] if_not_P [OF False] if_P [OF far] ..
      qed
      with less.prems(2) show ?thesis by simp
    next
      case False
      then have go: "\<not> bl \<ge> max_len" "\<not> (?d = 0 \<or> ?d > 32768)" using d(1) by auto
      from next_candidate_ok [OF ok less.prems(1) c(1)] obtain c' where
        c': "next_candidate prev c = Some c'" "entry_ok p prev c'" .
      have room: "pos + max_len \<le> length inp" "nat c + max_len \<le> length inp" using p c by auto
      define skip where "skip \<longleftrightarrow> 0 < bl \<and> inp ! (pos + bl) \<noteq> inp ! (nat c + bl)"
      have test: "(if bl > 0 then rd inp (pos + bl) \<bind> (\<lambda>x. rd inp (nat c + bl) \<bind> (\<lambda>y. Some (x \<noteq> y)))
          else Some False) = Some skip"
        using room go(1) by (simp add: skip_def)
      show ?thesis
      proof (cases skip)
        case True
        have "search_chain inp pos max_len prev good c chain bl bd =
            search_chain inp pos max_len prev good c' (chain - 1) bl bd"
          unfolding step if_P [OF \<open>c \<ge> 0 \<and> chain > 0\<close>] if_not_P [OF go(1)] if_not_P [OF go(2)] test
          using True c'(1) by simp
        moreover have "chain - 1 < chain" using \<open>c \<ge> 0 \<and> chain > 0\<close> by simp
        ultimately show ?thesis using less.IH c'(2) less.prems(2) by simp
      next
        case no_skip: False
        have "agree inp pos (nat c) 0" by (simp add: agree_def)
        from match_run_ok [OF le0 room this] obtain n where
          n: "match_run inp pos (nat c) max_len 0 = Some n" "n \<le> max_len" "agree inp pos (nat c) n"
          by blast
        have run: "search_chain inp pos max_len prev good c chain bl bd =
            (if n > bl then search_chain inp pos max_len prev good c'
               (if n \<ge> good then (chain - 1) div 4 else chain - 1) n ?d
             else search_chain inp pos max_len prev good c' (chain - 1) bl bd)"
          unfolding step if_P [OF \<open>c \<ge> 0 \<and> chain > 0\<close>] if_not_P [OF go(1)] if_not_P [OF go(2)] test
          using no_skip c'(1) n(1) by simp
        show ?thesis
        proof (cases "n > bl")
          case True
          have "best_ok inp pos max_len n ?d" using n(2,3) d go(2) by (simp add: best_ok_def)
          moreover have "(if n \<ge> good then (chain - 1) div 4 else chain - 1) < chain"
            using \<open>c \<ge> 0 \<and> chain > 0\<close> by auto
          ultimately show ?thesis using run True less.IH c'(2) by simp
        next
          case False
          moreover have "chain - 1 < chain" using \<open>c \<ge> 0 \<and> chain > 0\<close> by simp
          ultimately show ?thesis using run less.IH c'(2) less.prems(2) by simp
        qed
      qed
    qed
  qed
qed

lemma find_match_ok:
  assumes ok: "chains_ok p head prev" and p: "p \<le> pos" "pos + 3 \<le> length inp"
    and size: "length inp < 2 ^ 64"
  shows "\<exists>len dist. find_match inp pos head prev cfg = Some (len, dist) \<and>
    (len = 0 \<and> dist = 0 \<or> match_at inp pos len dist)"
proof -
  let ?max = "min (length inp - pos) 258"
  from hash3_ok [OF p(2)] obtain h where h: "hash3 inp pos = Some h" "h < 32768" .
  have "entry_ok p prev (head ! h)" "length head = 32768" using ok h(2) by (auto simp: chains_ok_def)
  moreover have "pos + ?max \<le> length inp" using p(2) by simp
  moreover have "best_ok inp pos ?max 0 0" by (simp add: best_ok_def)
  ultimately obtain bl bd where
    "search_chain inp pos ?max prev (lv_good_length cfg) (head ! h) (lv_max_chain cfg) 0 0 = Some (bl, bd)"
    "best_ok inp pos ?max bl bd"
    using search_chain_ok [OF ok p(1) _ size] by blast
  with h p(2) \<open>length head = 32768\<close> show ?thesis
    by (auto simp: find_match_def Let_def best_ok_def match_at_def)
qed

section \<open>The tokens expand to the input\<close>

text \<open>The bytes a token stands for, and the tokens the format can express after \<open>h\<close>.\<close>

definition token_out :: "u8 list \<Rightarrow> token \<Rightarrow> u8 list" where
  "token_out h t = (if tk_length t = 0 then h @ [tk_literal t]
     else extend_copy (tk_distance t) (tk_length t) h)"

definition token_ok :: "u8 list \<Rightarrow> token \<Rightarrow> bool" where
  "token_ok h t \<longleftrightarrow> tk_length t \<noteq> 0 \<longrightarrow> 3 \<le> tk_length t \<and> tk_length t \<le> 258 \<and>
     1 \<le> tk_distance t \<and> tk_distance t \<le> 32768 \<and> tk_distance t \<le> length h"

fun tokens_ok :: "u8 list \<Rightarrow> token list \<Rightarrow> bool" where
  "tokens_ok h [] \<longleftrightarrow> True"
| "tokens_ok h (t # ts) \<longleftrightarrow> token_ok h t \<and> tokens_ok (token_out h t) ts"

definition expand :: "token list \<Rightarrow> u8 list" where
  "expand ts = foldl token_out [] ts"

lemma tokens_ok_snoc: "tokens_ok h (ts @ [t]) \<longleftrightarrow> tokens_ok h ts \<and> token_ok (foldl token_out h ts) t"
  by (induction ts arbitrary: h) auto

lemma expand_snoc [simp]: "expand (ts @ [t]) = token_out (expand ts) t"
  by (simp add: expand_def)

lemma extend_copy_match:
  assumes "1 \<le> d" "d \<le> p" "p + l \<le> length inp" "agree inp p (p - d) l"
  shows "extend_copy d l (take p inp) = take (p + l) inp"
  using assms(3,4)
proof (induction l)
  case (Suc l)
  then have IH: "extend_copy d l (take p inp) = take (p + l) inp" by (simp add: agree_def)
  have "take (p + l) inp ! (p + l - d) = inp ! (p - d + l)" using assms(1,2) Suc.prems(1) by simp
  also have "\<dots> = inp ! (p + l)" using Suc.prems(2) by (simp add: agree_def)
  finally show ?case
    using Suc.prems(1) IH by (simp add: extend_copy_snoc take_Suc_conv_app_nth del: extend_copy.simps)
qed simp

text \<open>Where the tokens pushed so far end: a match that is held back is not among them.\<close>

definition lz_done :: "lz_state \<Rightarrow> nat" where
  "lz_done st = (if lz_have_prev st then lz_prev_pos st else lz_pos st)"

definition lz_inv :: "u8 list \<Rightarrow> lz_state \<Rightarrow> bool" where
  "lz_inv inp st \<longleftrightarrow> chains_ok (lz_pos st) (lz_head st) (lz_prev st) \<and> lz_pos st \<le> length inp \<and>
     expand (lz_tokens st) = take (lz_done st) inp \<and> tokens_ok [] (lz_tokens st) \<and>
     length (lz_tokens st) \<le> lz_done st \<and>
     (lz_have_prev st \<longrightarrow> lz_pos st = lz_prev_pos st + 1 \<and>
        match_at inp (lz_prev_pos st) (lz_prev_len st) (lz_prev_dist st))"

text \<open>Pushing a token for the bytes that come next.\<close>

lemma push_token_ok:
  assumes "expand (lz_tokens st) = take q inp" "tokens_ok [] (lz_tokens st)" "length (lz_tokens st) \<le> q"
    and "q \<le> length inp" "token_ok (take q inp) t" "token_out (take q inp) t = take q' inp" "q < q'"
  shows "push_token inp t st = Some (st\<lparr>lz_tokens := lz_tokens st @ [t]\<rparr>)"
    and "expand (lz_tokens st @ [t]) = take q' inp" "tokens_ok [] (lz_tokens st @ [t])"
    and "length (lz_tokens st @ [t]) \<le> q'"
  using assms by (auto simp: push_token_def tokens_ok_snoc expand_def)

lemma literal_token_ok:
  assumes "q < length inp"
  shows "token_ok (take q inp) (literal_token (inp ! q))"
    "token_out (take q inp) (literal_token (inp ! q)) = take (Suc q) inp"
  using assms by (simp_all add: token_ok_def token_out_def literal_token_def take_Suc_conv_app_nth)

lemma match_token_ok:
  assumes "match_at inp q len dist"
  shows "token_ok (take q inp) (match_token len dist)"
    "token_out (take q inp) (match_token len dist) = take (q + len) inp"
  using assms extend_copy_match [of dist q len inp]
  by (auto simp: token_ok_def token_out_def match_token_def match_at_def)

lemma greedy_step_ok:
  assumes inv: "lz_inv inp st" "\<not> lz_have_prev st" and pos: "lz_pos st < length inp"
    and chains: "chains_ok (lz_pos st + 1) head prev"
    and found: "len = 0 \<or> match_at inp (lz_pos st) len dist"
  shows "\<exists>st'. greedy_step inp len dist (st\<lparr>lz_head := head, lz_prev := prev\<rparr>) = Some st' \<and>
    lz_inv inp st' \<and> \<not> lz_have_prev st' \<and> lz_pos st < lz_pos st'"
proof (cases "len = 0")
  case True
  let ?t = "literal_token (inp ! lz_pos st)" and ?st = "st\<lparr>lz_head := head, lz_prev := prev\<rparr>"
  have "expand (lz_tokens ?st) = take (lz_pos st) inp" "tokens_ok [] (lz_tokens ?st)"
    "length (lz_tokens ?st) \<le> lz_pos st" "lz_pos st \<le> length inp"
    using inv by (simp_all add: lz_inv_def lz_done_def)
  note push = push_token_ok [OF this literal_token_ok [OF pos] lessI]
  then show ?thesis
    using True pos chains inv(2)
    by (auto simp: greedy_step_def lz_inv_def lz_done_def)
next
  case False
  with found have m: "match_at inp (lz_pos st) len dist" by simp
  then have len: "3 \<le> len" "lz_pos st + len \<le> length inp" "lz_pos st < lz_pos st + len"
    by (simp_all add: match_at_def)
  let ?st = "st\<lparr>lz_head := head, lz_prev := prev\<rparr>"
  have "expand (lz_tokens ?st) = take (lz_pos st) inp" "tokens_ok [] (lz_tokens ?st)"
    "length (lz_tokens ?st) \<le> lz_pos st" "lz_pos st \<le> length inp"
    using inv by (simp_all add: lz_inv_def lz_done_def)
  note push = push_token_ok [OF this match_token_ok [OF m] len(3)]
  from insert_range_ok [OF chains, of inp "lz_pos st + len"] len obtain head' prev' where
    "insert_range inp (lz_pos st + 1) (lz_pos st + len) head prev = Some (head', prev')"
    "chains_ok (lz_pos st + len) head' prev'" by (auto simp: max_def)
  then show ?thesis
    using len push inv(2) by (simp add: greedy_step_def lz_inv_def lz_done_def)
qed

lemma lazy_step_ok:
  assumes inv: "lz_inv inp st" and pos: "lz_pos st < length inp"
    and chains: "chains_ok (lz_pos st + 1) head prev"
    and found: "len = 0 \<or> match_at inp (lz_pos st) len dist"
  shows "\<exists>st'. lazy_step inp len dist (st\<lparr>lz_head := head, lz_prev := prev\<rparr>) = Some st' \<and>
    lz_inv inp st' \<and> lz_pos st < lz_pos st'"
proof -
  let ?st = "st\<lparr>lz_head := head, lz_prev := prev\<rparr>"
  have base: "expand (lz_tokens ?st) = take (lz_done st) inp" "tokens_ok [] (lz_tokens ?st)"
    "length (lz_tokens ?st) \<le> lz_done st" "lz_done st \<le> length inp"
    using inv by (auto simp: lz_inv_def lz_done_def)
  show ?thesis
  proof (cases "lz_have_prev st")
    case True
    with inv have prev: "lz_pos st = lz_prev_pos st + 1"
      "match_at inp (lz_prev_pos st) (lz_prev_len st) (lz_prev_dist st)" by (auto simp: lz_inv_def)
    have q: "lz_done st = lz_prev_pos st" using True by (simp add: lz_done_def)
    show ?thesis
    proof (cases "len > lz_prev_len st")
      case longer: True
      with found have m: "match_at inp (lz_pos st) len dist" by auto
      have "lz_prev_pos st < length inp" using prev(1) pos by simp
      note push = push_token_ok [OF base [unfolded q] literal_token_ok [OF this] lessI]
      then show ?thesis
        using True longer m chains prev(1) pos
        by (simp add: lazy_step_def hold_match_def lz_inv_def lz_done_def)
    next
      case False
      let ?e = "lz_prev_pos st + lz_prev_len st"
      have e: "lz_pos st < ?e" "?e \<le> length inp" "lz_prev_pos st < ?e"
        using prev by (auto simp: match_at_def)
      note push = push_token_ok [OF base [unfolded q] match_token_ok [OF prev(2)] e(3)]
      from insert_range_ok [OF chains, of inp ?e] e obtain head' prev' where
        "insert_range inp (lz_pos st + 1) ?e head prev = Some (head', prev')"
        "chains_ok ?e head' prev'" by (auto simp: max_def)
      then show ?thesis
        using True False e push
        by (simp add: lazy_step_def Let_def lz_inv_def lz_done_def)
    qed
  next
    case False
    then have q: "lz_done st = lz_pos st" by (simp add: lz_done_def)
    show ?thesis
    proof (cases "len = 0")
      case True
      note push = push_token_ok [OF base [unfolded q] literal_token_ok [OF pos] lessI]
      then show ?thesis
        using True False pos chains by (simp add: lazy_step_def lz_inv_def lz_done_def)
    next
      case nz: False
      with found have m: "match_at inp (lz_pos st) len dist" by simp
      then have "3 \<le> len" by (simp add: match_at_def)
      then show ?thesis
        using False m base q chains pos
        by (simp add: lazy_step_def hold_match_def lz_inv_def lz_done_def)
    qed
  qed
qed

lemma lz77_step_ok:
  assumes inv: "lz_inv inp st" "lv_lazy cfg \<or> \<not> lz_have_prev st" and pos: "lz_pos st < length inp"
    and size: "length inp < 2 ^ 64"
  shows "\<exists>st'. lz77_step inp cfg st = Some st' \<and> lz_inv inp st' \<and>
    (lv_lazy cfg \<or> \<not> lz_have_prev st') \<and> lz_pos st < lz_pos st'"
proof -
  have chains: "chains_ok (lz_pos st) (lz_head st) (lz_prev st)" using inv by (simp add: lz_inv_def)
  obtain len dist where find: "(if lz_pos st + MIN_MATCH \<le> length inp
      then find_match inp (lz_pos st) (lz_head st) (lz_prev st) cfg else Some (0, 0)) = Some (len, dist)"
    "len = 0 \<or> match_at inp (lz_pos st) len dist"
    using find_match_ok [OF chains order_refl _ size, of cfg] by (cases "lz_pos st + 3 \<le> length inp") auto
  obtain head prev where ins: "(if lz_pos st + MIN_MATCH \<le> length inp
      then do { (head, prev) \<leftarrow> insert_pos inp (lz_pos st) (lz_head st) (lz_prev st);
        Some (st\<lparr>lz_head := head, lz_prev := prev\<rparr>) }
      else Some st) = Some (st\<lparr>lz_head := head, lz_prev := prev\<rparr>)"
    "chains_ok (lz_pos st + 1) head prev"
  proof (cases "lz_pos st + 3 \<le> length inp")
    case True
    from insert_pos_ok [OF chains order_refl True] that True show thesis by auto
  next
    case False
    have "chains_ok (lz_pos st + 1) (lz_head st) (lz_prev st)" using chains by (rule chains_ok_mono) simp
    with False that [where head = "lz_head st" and prev = "lz_prev st"] show thesis by simp
  qed
  have step: "lz77_step inp cfg st = (if lv_lazy cfg
      then lazy_step inp len dist (st\<lparr>lz_head := head, lz_prev := prev\<rparr>)
      else greedy_step inp len dist (st\<lparr>lz_head := head, lz_prev := prev\<rparr>))"
    unfolding lz77_step_def find(1) ins(1) by simp
  show ?thesis
  proof (cases "lv_lazy cfg")
    case True
    with step lazy_step_ok [OF inv(1) pos ins(2) find(2)] show ?thesis by simp
  next
    case False
    with step greedy_step_ok [OF inv(1) _ pos ins(2) find(2)] inv(2) show ?thesis by auto
  qed
qed

lemma lz77_loop_ok:
  assumes "lz_inv inp st" "lv_lazy cfg \<or> \<not> lz_have_prev st" "length inp < 2 ^ 64"
  shows "\<exists>st'. lz77_loop inp cfg st = Some st' \<and> lz_inv inp st' \<and> lz_pos st' = length inp"
  using assms
proof (induction "length inp - lz_pos st" arbitrary: st rule: less_induct)
  case less
  show ?case
  proof (cases "lz_pos st < length inp")
    case False
    with less.prems show ?thesis by (subst lz77_loop.simps) (auto simp: lz_inv_def)
  next
    case True
    from lz77_step_ok [OF less.prems(1,2) True less.prems(3)] obtain st1 where
      st1: "lz77_step inp cfg st = Some st1" "lz_inv inp st1" "lv_lazy cfg \<or> \<not> lz_have_prev st1"
        "lz_pos st < lz_pos st1" by blast
    have "length inp - lz_pos st1 < length inp - lz_pos st" using st1(4) True by simp
    from less.hyps [OF this st1(2,3) less.prems(3)] st1(1) True show ?thesis
      by (subst lz77_loop.simps) simp
  qed
qed

text \<open>A held match always ends inside the input, so none is left when the loop ends.\<close>

lemma lz_inv_end:
  assumes "lz_inv inp st" "lz_pos st = length inp"
  shows "\<not> lz_have_prev st"
  using assms by (auto simp: lz_inv_def match_at_def)

lemma lz77_parse_ok:
  assumes "level \<le> 9" "length inp < 2 ^ 64"
  shows "\<exists>ts. lz77_parse True True inp level = Some (Some ts) \<and> expand ts = inp \<and> tokens_ok [] ts \<and>
    length ts \<le> length inp"
proof -
  have "level < length LEVELS" using assms(1) by (simp add: LEVELS_def)
  then have cfg: "rd LEVELS level = Some (LEVELS ! level)" by simp
  have "lz_inv inp lz77_init" "\<not> lz_have_prev lz77_init"
    using chains_ok_init by (simp_all add: lz_inv_def lz77_init_def lz_done_def expand_def)
  with lz77_loop_ok [OF _ _ assms(2)] obtain st where
    st: "lz77_loop inp (LEVELS ! level) lz77_init = Some st" "lz_inv inp st" "lz_pos st = length inp"
    by blast
  note no_prev = lz_inv_end [OF st(2,3)]
  have "lz77_parse True True inp level = Some (Some (lz_tokens st))"
    using cfg st(1) no_prev by (simp add: lz77_parse_def)
  with st(2,3) no_prev show ?thesis by (auto simp: lz_inv_def lz_done_def)
qed

section \<open>Properties\<close>

text \<open>
  C27: At every level from 0 to 9 and for every input that fits in memory, \<open>lz77_parse\<close> returns: its
  tokens expand to exactly the input, copying byte by byte, every match has a length from 3 to 258 and
  a distance from 1 to 32768 that stays within the output so far, and there are no more tokens than
  input bytes, the size of the caller's array.
\<close>

theorem lz77_tokens_expand:
  assumes "level \<le> 9" "length inp < 2 ^ 64"
  shows "\<exists>ts. lz77_parse True True inp level = Some (Some ts) \<and> foldl token_out [] ts = inp \<and>
    tokens_ok [] ts \<and> length ts \<le> length inp"
  using lz77_parse_ok [OF assms] by (simp add: expand_def)

theorem lz77_tokens_expand_witness:
  "\<exists>ts. lz77_parse True True [1, 2, 1, 2, 1, 2, 1] 9 = Some (Some ts) \<and>
    foldl token_out [] ts = [1, 2, 1, 2, 1, 2, 1] \<and> length ts \<le> 7"
  using lz77_tokens_expand [of 9 "[1, 2, 1, 2, 1, 2, 1]"] by auto

text \<open>
  With hash chains built from positions before \<open>pos\<close>, \<open>find_match\<close> is defined under every
  configuration and returns no match or a real one: 3 to 258 bytes inside the input that agree with
  the bytes \<open>dist\<close> before them, \<open>dist\<close> being at most the window and at most \<open>pos\<close>.
\<close>

theorem find_match_is_real:
  assumes "chains_ok p head prev" "p \<le> pos" "pos + 3 \<le> length inp" "length inp < 2 ^ 64"
  shows "\<exists>len dist. find_match inp pos head prev cfg = Some (len, dist) \<and>
    (len = 0 \<and> dist = 0 \<or>
     3 \<le> len \<and> len \<le> 258 \<and> pos + len \<le> length inp \<and> 1 \<le> dist \<and> dist \<le> 32768 \<and> dist \<le> pos \<and>
     (\<forall>i < len. inp ! (pos + i) = inp ! (pos - dist + i)))"
  using find_match_ok [OF assms, of cfg] by (auto simp: match_at_def agree_def)

theorem find_match_is_real_witness:
  "\<exists>len dist. find_match [7, 7, 7] 0 (replicate 32768 (-1)) (replicate 32768 None)
     \<lparr>lv_good_length = 4, lv_max_chain = 4, lv_lazy = False\<rparr> = Some (len, dist)"
  using find_match_is_real [OF chains_ok_init [of 0], of 0 "[7, 7, 7]"
      "\<lparr>lv_good_length = 4, lv_max_chain = 4, lv_lazy = False\<rparr>"] by auto

end
