(* ===== verification/Huffman_Build.thy ===== *)
theory Huffman_Build
  imports Huffman_Code "HOL-Library.Multiset"
begin

text \<open>
  Building code lengths, \<open>build_once\<close> and \<open>huff_build_lengths\<close> of \<open>src/huffman.c\<close>. The node
  pool and the heap are the lists of their used cells, with the capacity of the C arrays
  checked at every push; the walk over the tree and the halving loop, whose ends are not
  syntactically evident, are partial functions, so that a loop that does not end is
  \<^const>\<open>None\<close> like every other undefined behaviour.
\<close>

section \<open>The tree\<close>

record tnode =
  t_freq :: nat
  t_left :: int
  t_right :: int

definition collect_leaves :: "nat list \<Rightarrow> nat \<Rightarrow> (tnode list \<times> nat list) option" where
  "collect_leaves freqs n =
     ofor (\<lambda>i (nodes, heap). do {
         f \<leftarrow> rd freqs i;
         if f = 0 then Some (nodes, heap)
         else if length nodes < 2 * NUM_LITERALS \<and> length heap < NUM_LITERALS + 1
         then Some (nodes @ [\<lparr>t_freq = f, t_left = -1, t_right = -1\<rparr>], heap @ [length nodes])
         else None })
       [0..<n] ([], [])"

text \<open>The index in the heap of a node of least frequency, the first of them.\<close>

definition min_index :: "tnode list \<Rightarrow> nat list \<Rightarrow> nat option" where
  "min_index nodes heap =
     ofor (\<lambda>i a. do {
         hi \<leftarrow> rd heap i; ni \<leftarrow> rd nodes hi;
         ha \<leftarrow> rd heap a; na \<leftarrow> rd nodes ha;
         Some (if t_freq ni < t_freq na then i else a) })
       [1..<length heap] 0"

text \<open>\<open>first = heap[a]; heap[a] = heap[--heap_len];\<close>\<close>

definition take_min :: "tnode list \<Rightarrow> nat list \<Rightarrow> (nat \<times> nat list) option" where
  "take_min nodes heap = do {
     a \<leftarrow> min_index nodes heap;
     first \<leftarrow> rd heap a;
     l \<leftarrow> rd heap (length heap - 1);
     heap \<leftarrow> wr heap a l;
     Some (first, butlast heap) }"

lemma take_min_length: "take_min nodes heap = Some (i, heap') \<Longrightarrow> length heap = Suc (length heap')"
  by (auto simp: take_min_def Option.bind_eq_Some_conv rd_eq_Some_iff wr_eq_Some_iff)

function merge_all :: "tnode list \<Rightarrow> nat list \<Rightarrow> (tnode list \<times> nat list) option" where
  "merge_all nodes heap =
     (if length heap > 1 then
        (case take_min nodes heap of
           None \<Rightarrow> None
         | Some (first, heap1) \<Rightarrow>
             (case take_min nodes heap1 of
                None \<Rightarrow> None
              | Some (second, heap2) \<Rightarrow>
                  (case (rd nodes first, rd nodes second) of
                     (Some nf, Some ns) \<Rightarrow>
                       if length nodes < 2 * NUM_LITERALS \<and> length heap2 < NUM_LITERALS + 1
                       then merge_all
                         (nodes @ [\<lparr>t_freq = (t_freq nf + t_freq ns) mod 2 ^ 32,
                            t_left = int first, t_right = int second\<rparr>])
                         (heap2 @ [length nodes])
                       else None
                   | _ \<Rightarrow> None)))
      else Some (nodes, heap))"
  by pat_completeness auto
termination
  by (relation "measure (\<lambda>(nodes, heap). length heap)") (auto dest!: take_min_length)

declare merge_all.simps [simp del]

text \<open>The walk with its explicit stack, the top of the stack first.\<close>

partial_function (option) walk ::
  "tnode list \<Rightarrow> (int \<times> nat) list \<Rightarrow> nat list \<Rightarrow> nat \<Rightarrow> (nat list \<times> nat) option" where
  "walk nodes stack lengths max_len =
     (case stack of
        [] \<Rightarrow> Some (lengths, max_len)
      | (idx, depth) # stack \<Rightarrow> do {
          nd \<leftarrow> rd_int nodes idx;
          if t_left nd < 0 then do {
            lengths \<leftarrow> wr lengths (nat idx) ((if depth = 0 then 1 else depth) mod 256);
            walk nodes stack lengths (if depth > max_len then depth else max_len) }
          else if length stack + 2 \<le> 2 * NUM_LITERALS then
            walk nodes ((t_right nd, depth + 1) # (t_left nd, depth + 1) # stack)
              lengths max_len
          else None })"

fun mark_first :: "nat list \<Rightarrow> nat list \<Rightarrow> nat list \<Rightarrow> nat list option" where
  "mark_first freqs [] lengths = Some lengths"
| "mark_first freqs (i # is) lengths =
     (case rd freqs i of
        None \<Rightarrow> None
      | Some f \<Rightarrow> if f \<noteq> 0 then wr lengths i 1 else mark_first freqs is lengths)"

definition build_once :: "nat list \<Rightarrow> nat \<Rightarrow> nat list \<Rightarrow> (nat list \<times> nat) option" where
  "build_once freqs n lengths = do {
     lengths \<leftarrow> ofor (\<lambda>i lengths. wr lengths i 0) [0..<n] lengths;
     (nodes, heap) \<leftarrow> collect_leaves freqs n;
     if length heap = 0 then Some (lengths, 0)
     else if length heap = 1 then do {
       lengths \<leftarrow> mark_first freqs [0..<n] lengths;
       Some (lengths, 1) }
     else do {
       (nodes, heap) \<leftarrow> merge_all nodes heap;
       root \<leftarrow> rd heap 0;
       (lengths, max_len) \<leftarrow> walk nodes [(int root, 0)] lengths 0;
       Some (lengths, if max_len \<noteq> 0 then max_len else 1) } }"

section \<open>The length limit\<close>

definition used_symbols :: "nat list \<Rightarrow> nat \<Rightarrow> nat list option" where
  "used_symbols scaled n =
     ofor (\<lambda>i used. do {
         f \<leftarrow> rd scaled i;
         if f = 0 then Some used
         else if length used < NUM_LITERALS then Some (used @ [i]) else None })
       [0..<n] []"

text \<open>Map the leaf lengths, in creation order, back onto the symbols.\<close>

definition spread_lengths :: "nat list \<Rightarrow> nat list \<Rightarrow> nat \<Rightarrow> nat list option" where
  "spread_lengths used leaf_len n =
     ofor (\<lambda>i lengths. do { u \<leftarrow> rd used i; l \<leftarrow> rd leaf_len i; wr lengths u l })
       [0..<length used] (replicate n 0)"

definition halve_freqs :: "nat list \<Rightarrow> nat \<Rightarrow> nat list option" where
  "halve_freqs scaled n =
     ofor (\<lambda>i scaled. do {
         f \<leftarrow> rd scaled i;
         if f \<noteq> 0 then wr scaled i (((f + 1) mod 2 ^ 32) div 2) else Some scaled })
       [0..<n] scaled"

partial_function (option) limit_loop ::
  "nat \<Rightarrow> nat \<Rightarrow> nat list \<Rightarrow> nat list \<Rightarrow> nat list option" where
  "limit_loop n limit scaled leaf_len = do {
     used \<leftarrow> used_symbols scaled n;
     (leaf_len, max_len) \<leftarrow> build_once scaled n leaf_len;
     lengths \<leftarrow> spread_lengths used leaf_len n;
     if max_len \<le> limit then Some lengths
     else do {
       scaled \<leftarrow> halve_freqs scaled n;
       limit_loop n limit scaled leaf_len } }"

text \<open>
  \<open>scaled\<close> is a copy of the frequencies. \<open>leaf_len\<close> starts uninitialised in C; \<open>build_once\<close>
  clears the first \<open>n\<close> cells, and no other is read.
\<close>

definition huff_build_lengths :: "nat list \<Rightarrow> nat \<Rightarrow> nat \<Rightarrow> nat list option" where
  "huff_build_lengths freqs n limit =
     (if n \<le> NUM_LITERALS \<and> n \<le> length freqs
      then limit_loop n limit (take n freqs) (replicate (2 * NUM_LITERALS) 0)
      else None)"

section \<open>The forest on the heap\<close>

text \<open>
  The abstract view of the node pool: a tree whose leaves are leaf numbers, and \<open>rep\<close>, which
  says that a node of the pool is the root of such a tree.
\<close>

datatype htree = HLeaf nat | HNode htree htree

fun leaves :: "htree \<Rightarrow> nat list" where
  "leaves (HLeaf j) = [j]"
| "leaves (HNode l r) = leaves l @ leaves r"

fun height :: "htree \<Rightarrow> nat" where
  "height (HLeaf j) = 0"
| "height (HNode l r) = Suc (max (height l) (height r))"

fun rep :: "tnode list \<Rightarrow> nat \<Rightarrow> htree \<Rightarrow> bool" where
  "rep nodes i (HLeaf j) \<longleftrightarrow> i = j \<and> i < length nodes \<and> t_left (nodes ! i) < 0"
| "rep nodes i (HNode l r) \<longleftrightarrow> i < length nodes \<and>
     0 \<le> t_left (nodes ! i) \<and> rep nodes (nat (t_left (nodes ! i))) l \<and>
     0 \<le> t_right (nodes ! i) \<and> rep nodes (nat (t_right (nodes ! i))) r"

lemma rep_less: "rep nodes i t \<Longrightarrow> i < length nodes"
  by (cases t) auto

lemma rep_append: "rep nodes i t \<Longrightarrow> rep (nodes @ xs) i t"
  by (induction t arbitrary: i) (auto simp: nth_append)

lemma leaves_not_Nil [simp]: "leaves t \<noteq> []"
  by (induction t) auto

lemma length_leaves_pos: "0 < length (leaves t)"
  by simp

text \<open>Removing a cell of the heap by moving the last one into it.\<close>

definition drop_at :: "nat \<Rightarrow> 'a list \<Rightarrow> 'a list" where
  "drop_at a xs = butlast (xs[a := last xs])"

lemma length_drop_at [simp]: "length (drop_at a xs) = length xs - 1"
  by (simp add: drop_at_def)

lemma mset_drop_at: "a < length xs \<Longrightarrow> mset xs = add_mset (xs ! a) (mset (drop_at a xs))"
proof -
  assume a: "a < length xs"
  then obtain ys z where xs: "xs = ys @ [z]" by (cases xs rule: rev_cases) auto
  show ?thesis
  proof (cases "a = length ys")
    case True
    then show ?thesis by (simp add: xs drop_at_def)
  next
    case False
    with a xs have "a < length ys" by simp
    then show ?thesis by (simp add: xs drop_at_def list_update_append mset_update nth_append)
  qed
qed

lemma list_all2_drop_at:
  assumes "list_all2 P xs ys" "a < length xs"
  shows "list_all2 P (drop_at a xs) (drop_at a ys)"
proof -
  from assms have "xs \<noteq> []" "ys \<noteq> []" by auto
  with assms have "P (last xs) (last ys)"
    by (simp add: last_conv_nth list_all2_conv_all_nth)
  with assms have "list_all2 P (xs[a := last xs]) (ys[a := last ys])"
    by (simp add: list_all2_update_cong)
  then show ?thesis
    unfolding drop_at_def by (simp add: list_all2_conv_all_nth nth_butlast)
qed

text \<open>The least frequency on the heap.\<close>

lemma min_index_ok:
  assumes "heap \<noteq> []" "\<forall>h \<in> set heap. h < length nodes"
  shows "\<exists>a. min_index nodes heap = Some a \<and> a < length heap \<and>
    (\<forall>h \<in> set heap. t_freq (nodes ! (heap ! a)) \<le> t_freq (nodes ! h))"
proof -
  let ?I = "\<lambda>k a. a < length heap \<and>
    (\<forall>i < k. t_freq (nodes ! (heap ! a)) \<le> t_freq (nodes ! (heap ! i)))"
  have "\<exists>a. min_index nodes heap = Some a \<and> ?I (length heap) a"
    unfolding min_index_def
  proof (rule ofor_upt_rule [where I = ?I])
    show "1 \<le> length heap" using assms(1) by (cases heap) auto
  next
    show "?I 1 0" using assms(1) by simp
  next
    fix k a
    assume k: "k < length heap" and a: "?I k a"
    have "heap ! k < length nodes" "heap ! a < length nodes" using k a assms(2) by auto
    then show "\<exists>s'. (rd heap k \<bind> (\<lambda>hi. rd nodes hi \<bind> (\<lambda>ni. rd heap a \<bind> (\<lambda>ha. rd nodes ha \<bind>
        (\<lambda>na. Some (if t_freq ni < t_freq na then k else a)))))) = Some s' \<and> ?I (Suc k) s'"
      using k a by (auto simp: less_Suc_eq intro: order.trans less_imp_le)
  qed
  then obtain a where "min_index nodes heap = Some a" "?I (length heap) a" by blast
  then show ?thesis by (intro exI [of _ a]) (auto simp: in_set_conv_nth)
qed

lemma take_min_ok:
  assumes "heap \<noteq> []" "\<forall>h \<in> set heap. h < length nodes"
  shows "\<exists>a. a < length heap \<and> take_min nodes heap = Some (heap ! a, drop_at a heap) \<and>
    (\<forall>h \<in> set heap. t_freq (nodes ! (heap ! a)) \<le> t_freq (nodes ! h))"
proof -
  from min_index_ok [OF assms] obtain a where a: "min_index nodes heap = Some a" "a < length heap"
    "\<forall>h \<in> set heap. t_freq (nodes ! (heap ! a)) \<le> t_freq (nodes ! h)" by blast
  then show ?thesis
    using assms(1) by (intro exI [of _ a]) (simp add: take_min_def drop_at_def last_conv_nth)
qed

section \<open>Merging\<close>

text \<open>
  Why the tree is not deep: a subtree of height \<open>h\<close> weighs at least the Fibonacci number
  \<open>fibo (h + 2)\<close>, because no tree of the forest is ever lighter than a child of another one.
\<close>

fun fibo :: "nat \<Rightarrow> nat" where
  "fibo 0 = 0"
| "fibo (Suc 0) = 1"
| "fibo (Suc (Suc n)) = fibo (Suc n) + fibo n"

lemma fibo_mono_Suc: "fibo n \<le> fibo (Suc n)"
  by (cases n) auto

lemma fibo_mono: "m \<le> n \<Longrightarrow> fibo m \<le> fibo n"
  by (rule lift_Suc_mono_le [of fibo]) (simp_all add: fibo_mono_Suc)

definition weight :: "(nat \<Rightarrow> nat) \<Rightarrow> htree \<Rightarrow> nat" where
  "weight w t = sum_list (map w (leaves t))"

lemma weight_HLeaf [simp]: "weight w (HLeaf j) = w j"
  by (simp add: weight_def)

lemma weight_HNode [simp]: "weight w (HNode l r) = weight w l + weight w r"
  by (simp add: weight_def)

fun child_le :: "(nat \<Rightarrow> nat) \<Rightarrow> htree \<Rightarrow> htree \<Rightarrow> bool" where
  "child_le w (HLeaf j) y \<longleftrightarrow> True"
| "child_le w (HNode l r) y \<longleftrightarrow> weight w l \<le> weight w y \<and> weight w r \<le> weight w y"

fun heavy :: "(nat \<Rightarrow> nat) \<Rightarrow> htree \<Rightarrow> bool" where
  "heavy w (HLeaf j) \<longleftrightarrow> 1 \<le> w j"
| "heavy w (HNode l r) \<longleftrightarrow> heavy w l \<and> heavy w r \<and>
     fibo (height (HNode l r) + 2) \<le> weight w l + weight w r"

lemma heavy_fibo: "heavy w t \<Longrightarrow> fibo (height t + 2) \<le> weight w t"
  by (cases t) auto

lemma child_le_fibo:
  assumes "heavy w x" "heavy w y" "child_le w x y"
  shows "fibo (height x + 1) \<le> weight w y"
proof (cases x)
  case (HLeaf j)
  have "fibo (height x + 1) \<le> fibo (height y + 2)" using HLeaf by (intro fibo_mono) simp
  also have "\<dots> \<le> weight w y" by (rule heavy_fibo [OF assms(2)])
  finally show ?thesis .
next
  case (HNode l r)
  from assms(1) HNode have "heavy w l" "heavy w r" by simp_all
  with heavy_fibo have "fibo (height l + 2) \<le> weight w l" "fibo (height r + 2) \<le> weight w r" by blast+
  moreover have "weight w l \<le> weight w y" "weight w r \<le> weight w y" using assms(3) HNode by simp_all
  ultimately show ?thesis using HNode by (simp add: max_def split: if_splits)
qed

lemma heavy_HNode:
  assumes "heavy w x" "heavy w y" "child_le w x y" "child_le w y x"
  shows "heavy w (HNode x y)"
proof -
  have "fibo (height x + 1) \<le> weight w y" "fibo (height y + 1) \<le> weight w x"
    using child_le_fibo assms by blast+
  moreover have "fibo (height x + 2) \<le> weight w x" "fibo (height y + 2) \<le> weight w y"
    using heavy_fibo assms(1,2) by blast+
  ultimately show ?thesis using assms(1,2) by (simp add: max_def)
qed

definition siblings :: "(nat \<Rightarrow> nat) \<Rightarrow> htree multiset \<Rightarrow> bool" where
  "siblings w F \<longleftrightarrow> (\<forall>x y R. F = add_mset x (add_mset y R) \<longrightarrow> child_le w x y)"

lemma siblingsD: "siblings w F \<Longrightarrow> F = add_mset x (add_mset y R) \<Longrightarrow> child_le w x y"
  by (simp add: siblings_def)

lemma child_le_mono: "child_le w x y \<Longrightarrow> weight w y \<le> weight w z \<Longrightarrow> child_le w x z"
  by (cases x) auto

lemma siblings_merge:
  assumes sib: "siblings w (add_mset x (add_mset y R))"
    and min: "\<forall>z \<in># R. weight w x \<le> weight w z \<and> weight w y \<le> weight w z"
  shows "siblings w (add_mset (HNode x y) R)"
  unfolding siblings_def
proof (intro allI impI)
  fix u v S
  assume eq: "add_mset (HNode x y) R = add_mset u (add_mset v S)"
  show "child_le w u v"
  proof (cases "u = HNode x y")
    case True
    with eq have "v \<in># R" by simp
    with min True show ?thesis by simp
  next
    case u: False
    with eq have "HNode x y \<in># add_mset v S" by (metis insert_noteq_member)
    show ?thesis
    proof (cases "v = HNode x y")
      case True
      with eq have "R = add_mset u S" by (simp add: add_mset_commute)
      then have "add_mset x (add_mset y R) = add_mset u (add_mset x (add_mset y S))"
        by (simp add: add_mset_commute)
      from siblingsD [OF sib this] have "child_le w u x" .
      with True show ?thesis by (auto elim: child_le_mono)
    next
      case False
      with \<open>HNode x y \<in># add_mset v S\<close> obtain T where S: "S = add_mset (HNode x y) T"
        by (auto dest: multi_member_split)
      with eq have "R = add_mset u (add_mset v T)" by (simp add: add_mset_commute)
      then have "add_mset x (add_mset y R) = add_mset u (add_mset v (add_mset x (add_mset y T)))"
        by (simp add: add_mset_commute)
      from siblingsD [OF sib this] show ?thesis .
    qed
  qed
qed

definition forest_inv ::
  "(nat \<Rightarrow> nat) \<Rightarrow> nat \<Rightarrow> tnode list \<Rightarrow> nat list \<Rightarrow> htree list \<Rightarrow> bool" where
  "forest_inv w m nodes heap ts \<longleftrightarrow>
     list_all2 (\<lambda>h t. rep nodes h t \<and> t_freq (nodes ! h) = weight w t) heap ts \<and>
     (\<Sum>t\<in>#mset ts. mset (leaves t)) = mset [0..<m] \<and>
     length nodes + length heap = 2 * m \<and> m \<le> length nodes \<and> siblings w (mset ts) \<and> (\<forall>t \<in> set ts. heavy w t)"

lemma forest_inv_sum:
  assumes "forest_inv w m nodes heap ts"
  shows "(\<Sum>t\<in>#mset ts. weight w t) = (\<Sum>j<m. w j)"
proof -
  have "(\<Sum>t\<in>#F. weight w t) = (\<Sum>j\<in>#(\<Sum>t\<in>#F. mset (leaves t)). w j)" for F
    by (induction F) (simp_all add: weight_def sum_mset_sum_list flip: mset_map)
  then have "(\<Sum>t\<in>#mset ts. weight w t) = (\<Sum>j\<in>#mset [0..<m]. w j)"
    using assms unfolding forest_inv_def by metis
  also have "\<dots> = (\<Sum>j<m. w j)" by (simp add: sum_unfold_sum_mset atLeast0LessThan)
  finally show ?thesis .
qed

lemma forest_take_min:
  assumes "list_all2 (\<lambda>h t. rep nodes h t \<and> t_freq (nodes ! h) = weight w t) heap ts" "heap \<noteq> []"
  shows "\<exists>i t heap' ts'. take_min nodes heap = Some (i, heap') \<and> mset ts = add_mset t (mset ts') \<and>
    rep nodes i t \<and> t_freq (nodes ! i) = weight w t \<and>
    list_all2 (\<lambda>h t. rep nodes h t \<and> t_freq (nodes ! h) = weight w t) heap' ts' \<and>
    (\<forall>u \<in> set ts. weight w t \<le> weight w u)"
proof -
  have len: "length heap = length ts" using assms(1) by (rule list_all2_lengthD)
  have "\<forall>h \<in> set heap. h < length nodes"
    using assms(1) rep_less by (fastforce simp: list_all2_conv_all_nth in_set_conv_nth)
  from take_min_ok [OF assms(2) this] obtain a where a: "a < length heap"
    "take_min nodes heap = Some (heap ! a, drop_at a heap)"
    "\<forall>h \<in> set heap. t_freq (nodes ! (heap ! a)) \<le> t_freq (nodes ! h)" by blast
  have "\<forall>u \<in> set ts. weight w (ts ! a) \<le> weight w u"
  proof
    fix u
    assume "u \<in> set ts"
    then obtain k where k: "k < length ts" "u = ts ! k" by (auto simp: in_set_conv_nth)
    with assms(1) a(1) len have "t_freq (nodes ! (heap ! k)) = weight w u"
      "t_freq (nodes ! (heap ! a)) = weight w (ts ! a)" by (auto simp: list_all2_conv_all_nth)
    moreover have "t_freq (nodes ! (heap ! a)) \<le> t_freq (nodes ! (heap ! k))"
      using a(3) k len by simp
    ultimately show "weight w (ts ! a) \<le> weight w u" by simp
  qed
  moreover have "rep nodes (heap ! a) (ts ! a)" "t_freq (nodes ! (heap ! a)) = weight w (ts ! a)"
    using assms(1) a(1) by (auto simp: list_all2_conv_all_nth)
  ultimately show ?thesis
    using a(1,2) mset_drop_at [of a ts] list_all2_drop_at [OF assms(1) a(1)] len
    by (intro exI [of _ "heap ! a"] exI [of _ "ts ! a"] exI [of _ "drop_at a heap"]
        exI [of _ "drop_at a ts"]) simp
qed

lemma merge_all_ok:
  assumes "forest_inv w m nodes heap ts" "heap \<noteq> []" "m \<le> 286" "(\<Sum>j<m. w j) < 2 ^ 32"
  shows "\<exists>nodes' h t. merge_all nodes heap = Some (nodes', [h]) \<and> rep nodes' h t \<and>
    mset (leaves t) = mset [0..<m] \<and> heavy w t"
  using assms(1,2)
proof (induction "length heap" arbitrary: nodes heap ts rule: less_induct)
  case less
  let ?R = "\<lambda>nodes h t. rep nodes h t \<and> t_freq (nodes ! h) = weight w t"
  note inv = less.prems(1) [unfolded forest_inv_def]
  show ?case
  proof (cases "length heap > 1")
    case False
    with less.prems(2) obtain h where h: "heap = [h]" by (cases heap) auto
    with inv obtain t where "ts = [t]" "rep nodes h t" by (auto simp: list_all2_Cons1)
    with inv h show ?thesis by (subst merge_all.simps) auto
  next
    case True
    from inv have R: "list_all2 (?R nodes) heap ts" by blast
    from forest_take_min [OF R less.prems(2)] obtain i t heap1 ts1 where
      t: "take_min nodes heap = Some (i, heap1)" "mset ts = add_mset t (mset ts1)" "?R nodes i t"
        "list_all2 (?R nodes) heap1 ts1" "\<forall>u \<in> set ts. weight w t \<le> weight w u" by blast
    have "heap1 \<noteq> []" using take_min_length [OF t(1)] True by auto
    from forest_take_min [OF t(4) this] obtain j u heap2 ts2 where
      u: "take_min nodes heap1 = Some (j, heap2)" "mset ts1 = add_mset u (mset ts2)" "?R nodes j u"
        "list_all2 (?R nodes) heap2 ts2" "\<forall>v \<in> set ts1. weight w u \<le> weight w v" by blast
    let ?n = "\<lparr>t_freq = (t_freq (nodes ! i) + t_freq (nodes ! j)) mod 2 ^ 32,
      t_left = int i, t_right = int j\<rparr>"
    let ?nodes = "nodes @ [?n]" and ?heap = "heap2 @ [length nodes]" and ?ts = "ts2 @ [HNode t u]"
    have F: "mset ts = add_mset t (add_mset u (mset ts2))" using t(2) u(2) by simp
    have len: "length heap = length heap2 + 2"
      using take_min_length [OF t(1)] take_min_length [OF u(1)] by simp
    have "weight w t + weight w u \<le> (\<Sum>j<m. w j)"
      using forest_inv_sum [OF less.prems(1)] by (simp add: F)
    then have no_wrap: "(weight w t + weight w u) mod 2 ^ 32 = weight w t + weight w u"
      using assms(4) by simp
    have "list_all2 (?R ?nodes) heap2 ts2"
      using u(4) rep_less by (fastforce simp: list_all2_conv_all_nth nth_append intro: rep_append)
    moreover have "?R ?nodes (length nodes) (HNode t u)"
      using t(3) u(3) no_wrap by (simp add: rep_append)
    ultimately have "list_all2 (?R ?nodes) ?heap ?ts" by (intro list_all2_appendI) auto
    moreover have "siblings w (mset ?ts)"
    proof -
      have "\<forall>z \<in># mset ts2. weight w t \<le> weight w z \<and> weight w u \<le> weight w z"
        using t(2,5) u(2,5) by (metis insert_iff set_mset_add_mset_insert set_mset_mset)
      moreover have "siblings w (add_mset t (add_mset u (mset ts2)))" using inv F by simp
      ultimately show ?thesis using siblings_merge by simp
    qed
    moreover have "\<forall>v \<in> set ?ts. heavy w v"
    proof -
      have set_ts: "set ts = insert t (insert u (set ts2))"
        using F by (metis set_mset_add_mset_insert set_mset_mset)
      have "siblings w (mset ts)" using inv by blast
      with F have "child_le w t u" by (auto dest: siblingsD)
      moreover from \<open>siblings w (mset ts)\<close> F have "child_le w u t"
        using siblingsD [of w "mset ts" u t "mset ts2"] by (simp add: add_mset_commute)
      ultimately have "heavy w (HNode t u)" using inv set_ts by (intro heavy_HNode) auto
      with inv set_ts show ?thesis by auto
    qed
    moreover have "(\<Sum>t\<in>#mset ?ts. mset (leaves t)) = mset [0..<m]" using inv F by (simp add: ac_simps)
    moreover have "length ?nodes + length ?heap = 2 * m" "m \<le> length ?nodes" using inv len by simp_all
    ultimately have inv': "forest_inv w m ?nodes ?heap ?ts" unfolding forest_inv_def by blast
    have cap: "length nodes < 572" "length heap2 < 287" using inv len assms(3) by simp_all
    have "rd nodes i = Some (nodes ! i)" "rd nodes j = Some (nodes ! j)"
      using t(3) u(3) rep_less by (blast intro: rd_Some)+
    then have "merge_all nodes heap = merge_all ?nodes ?heap"
      using True t(1) u(1) cap by (subst merge_all.simps) simp
    moreover have "length ?heap < length heap" using len by simp
    ultimately show ?thesis using less.hyps [OF _ inv'] by simp
  qed
qed

section \<open>Walking the tree\<close>

text \<open>The leaves with their depths, in the order of the walk.\<close>

fun depths :: "htree \<Rightarrow> nat \<Rightarrow> (nat \<times> nat) list" where
  "depths (HLeaf j) d = [(j, d)]"
| "depths (HNode l r) d = depths r (Suc d) @ depths l (Suc d)"

definition put_depths :: "(nat \<times> nat) list \<Rightarrow> nat list \<Rightarrow> nat list" where
  "put_depths ps lengths =
     foldl (\<lambda>ls (j, d). ls[j := (if d = 0 then 1 else d) mod 256]) lengths ps"

lemma length_put_depths [simp]: "length (put_depths ps ls) = length ls"
  by (induction ps arbitrary: ls) (auto simp: put_depths_def)

lemma mset_depths: "mset (map fst (depths t d)) = mset (leaves t)"
  by (induction t arbitrary: d) (auto simp: ac_simps)

lemma depth_height: "(j, e) \<in> set (depths t d) \<Longrightarrow> d \<le> e \<and> e \<le> d + height t"
proof (induction t arbitrary: d)
  case (HNode l r)
  then show ?case by fastforce
qed simp

lemma Max_depths: "foldl max m (map snd (depths t d)) = max m (d + height t)"
proof (induction t arbitrary: d m)
  case (HNode l r)
  then show ?case by (simp add: ac_simps max_def)
qed simp

text \<open>
  The walk over the trees on the stack visits each once: the stack never holds more trees than
  there are leaves below it.
\<close>

lemma walk_ok:
  assumes "list_all2 (\<lambda>(i, d) (t, d'). 0 \<le> i \<and> rep nodes (nat i) t \<and> d = d') stack ts"
    and "(\<Sum>(t, d)\<leftarrow>ts. length (leaves t)) \<le> 286"
    and "\<forall>(t, d) \<in> set ts. \<forall>j \<in> set (leaves t). j < length lengths"
  shows "walk nodes stack lengths mx =
    Some (put_depths (concat (map (\<lambda>(t, d). depths t d) ts)) lengths,
      foldl max mx (map snd (concat (map (\<lambda>(t, d). depths t d) ts))))"
  using assms
proof (induction "\<Sum>(t, d)\<leftarrow>ts. 2 * size t + 1" arbitrary: stack ts lengths mx rule: less_induct)
  case less
  show ?case
  proof (cases ts)
    case Nil
    with less.prems show ?thesis by (subst walk.simps) (simp add: put_depths_def)
  next
    case (Cons p rest)
    obtain t d where p: "p = (t, d)" by (cases p)
    from less.prems(1) Cons p obtain i stack' where st: "stack = (i, d) # stack'"
      "0 \<le> i" "rep nodes (nat i) t"
      "list_all2 (\<lambda>(i, d) (t, d'). 0 \<le> i \<and> rep nodes (nat i) t \<and> d = d') stack' rest"
      by (auto simp: list_all2_Cons2)
    have rd: "rd_int nodes i = Some (nodes ! nat i)" using st(2,3) rep_less by simp
    show ?thesis
    proof (cases t)
      case (HLeaf j)
      with st(3) have j: "nat i = j" "t_left (nodes ! j) < 0" by auto
      have "j < length lengths" using less.prems(3) Cons p HLeaf by simp
      then have wr: "wr lengths (nat i) x = Some (lengths[j := x])" for x using j(1) by simp
      let ?ls = "lengths[j := (if d = 0 then 1 else d) mod 256]"
      have "walk nodes stack' ?ls (max mx d) =
        Some (put_depths (concat (map (\<lambda>(t, d). depths t d) rest)) ?ls,
          foldl max (max mx d) (map snd (concat (map (\<lambda>(t, d). depths t d) rest))))"
        by (rule less.hyps) (use less.prems st(4) Cons p HLeaf in auto)
      moreover have "walk nodes stack lengths mx = walk nodes stack' ?ls (max mx d)"
        using st(1) rd j wr by (subst walk.simps) (simp add: max_def)
      ultimately show ?thesis using Cons p HLeaf by (simp add: put_depths_def)
    next
      case (HNode l r)
      let ?nd = "nodes ! nat i"
      let ?stack = "(t_right ?nd, Suc d) # (t_left ?nd, Suc d) # stack'"
      let ?ts = "(r, Suc d) # (l, Suc d) # rest"
      have "length rest \<le> (\<Sum>(t, d)\<leftarrow>rest. length (leaves t))"
      proof (induction rest)
        case (Cons q qs)
        obtain a b where q: "q = (a, b)" by (cases q)
        show ?case
          unfolding q list.map sum_list.Cons prod.case length_Cons
          using Cons.IH length_leaves_pos [of a] by linarith
      qed simp
      moreover have "length stack' = length rest" using st(4) by (rule list_all2_lengthD)
      moreover have "2 \<le> length (leaves t)"
        unfolding HNode leaves.simps length_append
        using length_leaves_pos [of l] length_leaves_pos [of r] by linarith
      ultimately have cap: "length stack' + 2 \<le> 572" using less.prems(2) Cons p by simp
      have "walk nodes ?stack lengths mx =
        Some (put_depths (concat (map (\<lambda>(t, d). depths t d) ?ts)) lengths,
          foldl max mx (map snd (concat (map (\<lambda>(t, d). depths t d) ?ts))))"
        by (rule less.hyps) (use less.prems st(3,4) Cons p HNode in auto)
      moreover have "walk nodes stack lengths mx = walk nodes ?stack lengths mx"
        using st(1,3) rd cap HNode by (subst walk.simps) simp
      ultimately show ?thesis using Cons p HNode by simp
    qed
  qed
qed

text \<open>Kraft's sum of the leaves of a tree.\<close>

lemma kraft_depths:
  "d + height t \<le> m \<Longrightarrow> (\<Sum>(j, e)\<leftarrow>depths t d. 2 ^ (m - e)) = (2 :: nat) ^ (m - d)"
proof (induction t arbitrary: d)
  case (HNode l r)
  then have "Suc d + height l \<le> m" "Suc d + height r \<le> m" by auto
  moreover have "(2 :: nat) ^ (m - d) = 2 * 2 ^ (m - Suc d)"
    using HNode.prems by (simp add: Suc_diff_Suc flip: power_Suc)
  ultimately show ?case using HNode.IH by simp
qed simp

section \<open>One round\<close>

text \<open>The used frequencies and the used symbols, in order.\<close>

definition used_freqs :: "nat list \<Rightarrow> nat list" where
  "used_freqs freqs = filter (\<lambda>f. f \<noteq> 0) freqs"

definition used_list :: "nat list \<Rightarrow> nat list" where
  "used_list freqs = filter (\<lambda>i. freqs ! i \<noteq> 0) [0..<length freqs]"

lemma used_freqs_snoc:
  "used_freqs (xs @ [x]) = used_freqs xs @ (if x = 0 then [] else [x])"
  by (simp add: used_freqs_def)

lemma used_list_snoc:
  "used_list (xs @ [x]) = used_list xs @ (if x = 0 then [] else [length xs])"
proof -
  have "filter (\<lambda>i. (xs @ [x]) ! i \<noteq> 0) [0..<length xs] = filter (\<lambda>i. xs ! i \<noteq> 0) [0..<length xs]"
    by (rule filter_cong) (auto simp: nth_append)
  then show ?thesis by (simp add: used_list_def)
qed

lemma used_freqs_map: "used_freqs freqs = map ((!) freqs) (used_list freqs)"
proof (induction freqs rule: rev_induct)
  case (snoc x xs)
  have "map ((!) (xs @ [x])) (used_list xs) = map ((!) xs) (used_list xs)"
    by (rule map_cong) (auto simp: used_list_def nth_append)
  with snoc show ?case by (simp add: used_freqs_snoc used_list_snoc)
qed (simp add: used_freqs_def used_list_def)

lemma length_used_list [simp]: "length (used_list freqs) = length (used_freqs freqs)"
  by (simp add: used_freqs_map)

lemma length_used_freqs_le: "length (used_freqs freqs) \<le> length freqs"
  by (simp add: used_freqs_def)

lemma distinct_used_list: "distinct (used_list freqs)"
  by (simp add: used_list_def)

lemma set_used_list: "set (used_list freqs) = {i. i < length freqs \<and> freqs ! i \<noteq> 0}"
  by (auto simp: used_list_def)

lemma collect_leaves_ok:
  assumes "length freqs \<le> 286"
  shows "collect_leaves freqs (length freqs) =
    Some (map (\<lambda>f. \<lparr>t_freq = f, t_left = -1, t_right = -1\<rparr>) (used_freqs freqs),
      [0..<length (used_freqs freqs)])"
proof -
  let ?leaf = "\<lambda>f. \<lparr>t_freq = f, t_left = -1, t_right = -1\<rparr> :: tnode"
  let ?I = "\<lambda>k s. s = (map ?leaf (used_freqs (take k freqs)), [0..<length (used_freqs (take k freqs))])"
  have "\<exists>s. collect_leaves freqs (length freqs) = Some s \<and> ?I (length freqs) s"
    unfolding collect_leaves_def
  proof (rule ofor_upt_rule [where I = ?I])
    fix k s
    assume k: "k < length freqs" and s: "?I k s"
    have "length (used_freqs (take k freqs)) < 286"
      using length_used_freqs_le [of "take k freqs"] k assms by simp
    then show "\<exists>s'. (case s of (nodes, heap) \<Rightarrow> rd freqs k \<bind> (\<lambda>f. if f = 0 then Some (nodes, heap)
        else if length nodes < 2 * NUM_LITERALS \<and> length heap < NUM_LITERALS + 1
        then Some (nodes @ [?leaf f], heap @ [length nodes]) else None)) = Some s' \<and> ?I (Suc k) s'"
      using k by (simp add: s take_Suc_conv_app_nth used_freqs_snoc)
  qed (simp_all add: used_freqs_def)
  then show ?thesis by simp
qed

lemma used_symbols_ok:
  assumes "length freqs \<le> 286"
  shows "used_symbols freqs (length freqs) = Some (used_list freqs)"
proof -
  let ?I = "\<lambda>k s. s = used_list (take k freqs)"
  have "\<exists>s. used_symbols freqs (length freqs) = Some s \<and> ?I (length freqs) s"
    unfolding used_symbols_def
  proof (rule ofor_upt_rule [where I = ?I])
    fix k s
    assume k: "k < length freqs" and s: "?I k s"
    have "length (used_freqs (take k freqs)) < 286"
      using length_used_freqs_le [of "take k freqs"] k assms by simp
    then show "\<exists>s'. (rd freqs k \<bind> (\<lambda>f. if f = 0 then Some s
        else if length s < NUM_LITERALS then Some (s @ [k]) else None)) = Some s' \<and> ?I (Suc k) s'"
      using k by (simp add: s take_Suc_conv_app_nth used_list_snoc)
  qed (simp_all add: used_list_def)
  then show ?thesis by simp
qed

lemma clear_ok:
  fixes ls :: "nat list"
  assumes "n \<le> length ls"
  shows "ofor (\<lambda>i ls. wr ls i 0) [0..<n] ls = Some (replicate n 0 @ drop n ls)"
proof -
  let ?I = "\<lambda>k s. s = replicate k 0 @ drop k ls"
  have "\<exists>s. ofor (\<lambda>i ls. wr ls i 0) [0..<n] ls = Some s \<and> ?I n s"
  proof (rule ofor_upt_rule [where I = ?I])
    fix k s
    assume k: "k < n" and s: "?I k s"
    have "drop k ls = ls ! k # drop (Suc k) ls" using k assms by (simp add: Cons_nth_drop_Suc)
    then have "s[k := 0] = replicate k 0 @ 0 # drop (Suc k) ls"
      using list_update_length [of "replicate k 0" "ls ! k"] by (simp add: s)
    then show "\<exists>s'. wr s k 0 = Some s' \<and> ?I (Suc k) s'"
      using k assms by (simp add: s wr_def replicate_app_Cons_same)
  qed simp_all
  then show ?thesis by simp
qed

lemma put_depths_nth:
  assumes "distinct (map fst ps)" "(j, d) \<in> set ps" "j < length ls"
  shows "put_depths ps ls ! j = (if d = 0 then 1 else d) mod 256"
  using assms
proof (induction ps arbitrary: ls)
  case (Cons p ps)
  obtain i e where p: "p = (i, e)" by (cases p)
  show ?case
  proof (cases "(j, d) \<in> set ps")
    case True
    with Cons p show ?thesis by (simp add: put_depths_def)
  next
    case False
    with Cons.prems p have jd: "i = j" "e = d" by auto
    have "j \<notin> fst ` set ps" using Cons.prems(1) p jd by auto
    then have "put_depths ps ls' ! j = ls' ! j" if "j < length ls'" for ls'
      using that
    proof (induction ps arbitrary: ls')
      case (Cons q qs)
      then show ?case by (cases q) (auto simp: put_depths_def)
    qed (simp add: put_depths_def)
    with Cons.prems(3) p jd show ?thesis by (simp add: put_depths_def)
  qed
qed simp

lemma rep_leaf: "j < length nodes \<Longrightarrow> t_left (nodes ! j) < 0 \<Longrightarrow> rep nodes j (HLeaf j)"
  by simp

lemma forest_inv_init:
  assumes "m = length us" "\<forall>f \<in> set us. f \<noteq> 0"
  shows "forest_inv ((!) us) m (map (\<lambda>f. \<lparr>t_freq = f, t_left = -1, t_right = -1\<rparr>) us) [0..<m]
    (map HLeaf [0..<m])"
proof -
  have "(\<Sum>t\<in>#mset (map HLeaf xs). mset (leaves t)) = mset xs" for xs
    by (induction xs) auto
  moreover have "siblings w (mset (map HLeaf xs))" for w xs
    unfolding siblings_def
  proof (intro allI impI)
    fix x y R
    assume "mset (map HLeaf xs) = add_mset x (add_mset y R)"
    then have "x \<in> set (map HLeaf xs)" by (metis set_mset_mset union_single_eq_member)
    then show "child_le w x y" by auto
  qed
  moreover have "\<forall>t \<in> set (map HLeaf [0..<m]). heavy ((!) us) t"
    using assms by (auto simp: Suc_le_eq)
  ultimately show ?thesis
    using assms(1) unfolding forest_inv_def
    by (intro conjI) (simp_all add: list_all2_conv_all_nth del: mset_map mset_upt)
qed

lemma build_once_ok:
  assumes len: "length freqs \<le> 286" "length freqs \<le> length ls"
    and used: "2 \<le> length (used_freqs freqs)" and sum: "sum_list freqs < 2 ^ 32"
  shows "\<exists>t. build_once freqs (length freqs) ls =
      Some (put_depths (depths t 0) (replicate (length freqs) 0 @ drop (length freqs) ls), height t) \<and>
    mset (leaves t) = mset [0..<length (used_freqs freqs)] \<and> 0 < height t \<and>
    fibo (height t + 2) \<le> sum_list freqs"
proof -
  let ?us = "used_freqs freqs"
  let ?m = "length ?us" and ?leaf = "\<lambda>f. \<lparr>t_freq = f, t_left = -1, t_right = -1\<rparr> :: tnode"
  let ?ls = "replicate (length freqs) 0 @ drop (length freqs) ls"
  have "sum_list (used_freqs freqs) = sum_list freqs"
    by (induction freqs) (auto simp: used_freqs_def)
  then have total: "(\<Sum>j<?m. ?us ! j) = sum_list freqs"
    by (simp add: sum_list_sum_nth atLeast0LessThan)
  have "forest_inv ((!) ?us) ?m (map ?leaf ?us) [0..<?m] (map HLeaf [0..<?m])"
    by (rule forest_inv_init) (simp_all add: used_freqs_def)
  moreover have ne: "[0..<?m] \<noteq> []" "?m \<le> 286" and "(\<Sum>j<?m. ?us ! j) < 2 ^ 32"
    using used length_used_freqs_le [of freqs] len(1) total sum by auto
  ultimately obtain nodes h t where t: "merge_all (map ?leaf ?us) [0..<?m] = Some (nodes, [h])"
    "rep nodes h t" "mset (leaves t) = mset [0..<?m]" "heavy ((!) ?us) t"
    using merge_all_ok by blast
  have set_leaves: "set (leaves t) = {0..<?m}" using t(3) by (metis set_mset_mset set_upt)
  have "length (leaves t) = ?m" using t(3) by (metis length_upt minus_nat.diff_0 size_mset)
  then have pos: "0 < height t" using used by (cases t) auto
  have "walk nodes [(int h, 0)] ?ls 0 =
      Some (put_depths (concat (map (\<lambda>(t, d). depths t d) [(t, 0)])) ?ls,
        foldl max 0 (map snd (concat (map (\<lambda>(t, d). depths t d) [(t, 0)]))))"
    by (rule walk_ok)
      (use t(2) \<open>length (leaves t) = ?m\<close> ne(2) set_leaves len length_used_freqs_le [of freqs] in auto)
  then have walk: "walk nodes [(int h, 0)] ?ls 0 = Some (put_depths (depths t 0) ?ls, height t)"
    by (simp add: Max_depths)
  have "build_once freqs (length freqs) ls = Some (put_depths (depths t 0) ?ls, height t)"
    using used pos t(1) walk clear_ok [OF len(2)] ne(1)
    by (simp add: build_once_def collect_leaves_ok [OF len(1)])
  moreover have "fibo (height t + 2) \<le> sum_list freqs"
  proof -
    have "weight ((!) ?us) t = (\<Sum>j\<in>#mset (leaves t). ?us ! j)"
      by (simp add: weight_def sum_mset_sum_list flip: mset_map)
    also have "\<dots> = (\<Sum>j<?m. ?us ! j)" by (simp add: t(3) sum_unfold_sum_mset atLeast0LessThan)
    finally show ?thesis using heavy_fibo [OF t(4)] total by simp
  qed
  ultimately show ?thesis using t(3) pos by blast
qed

section \<open>The lengths\<close>

lemma spread_lengths_ok:
  assumes "length (used_freqs freqs) \<le> length leaf"
  shows "\<exists>ls. spread_lengths (used_list freqs) leaf (length freqs) = Some ls \<and>
    length ls = length freqs \<and>
    (\<forall>k < length (used_freqs freqs). ls ! (used_list freqs ! k) = leaf ! k) \<and>
    (\<forall>i < length freqs. freqs ! i = 0 \<longrightarrow> ls ! i = 0)"
proof -
  let ?u = "used_list freqs"
  let ?I = "\<lambda>k ls. length ls = length freqs \<and> (\<forall>j < k. ls ! (?u ! j) = leaf ! j) \<and>
    (\<forall>i < length freqs. freqs ! i = 0 \<longrightarrow> ls ! i = 0)"
  have in_u: "?u ! k < length freqs \<and> freqs ! (?u ! k) \<noteq> 0" if "k < length ?u" for k
    using nth_mem [OF that] set_used_list by blast
  have "\<exists>ls. spread_lengths ?u leaf (length freqs) = Some ls \<and> ?I (length ?u) ls"
    unfolding spread_lengths_def
  proof (rule ofor_upt_rule [where I = ?I])
    fix k ls
    assume k: "k < length ?u" and ls: "?I k ls"
    have "?I (Suc k) (ls[?u ! k := leaf ! k])"
      using ls in_u [OF k] k distinct_used_list
      by (auto simp: nth_list_update less_Suc_eq nth_eq_iff_index_eq)
    then show "\<exists>s'. (rd ?u k \<bind> (\<lambda>u. rd leaf k \<bind> (\<lambda>l. wr ls u l))) = Some s' \<and> ?I (Suc k) s'"
      using k ls in_u [OF k] assms by (intro exI [of _ "ls[?u ! k := leaf ! k]"]) simp
  qed simp_all
  then show ?thesis by auto
qed

lemma halve_freqs_ok:
  assumes "\<forall>f \<in> set freqs. f < 2 ^ 32 - 1"
  shows "halve_freqs freqs (length freqs) = Some (map (\<lambda>f. (f + 1) div 2) freqs)"
proof -
  let ?h = "\<lambda>f :: nat. (f + 1) div 2"
  let ?I = "\<lambda>k s. s = map ?h (take k freqs) @ drop k freqs"
  have "\<exists>s. halve_freqs freqs (length freqs) = Some s \<and> ?I (length freqs) s"
    unfolding halve_freqs_def
  proof (rule ofor_upt_rule [where I = ?I])
    fix k s
    assume k: "k < length freqs" and s: "?I k s"
    have d: "drop k freqs = freqs ! k # drop (Suc k) freqs" using k by (simp add: Cons_nth_drop_Suc)
    have nth: "s ! k = freqs ! k" using k by (simp add: s nth_append)
    have len: "length s = length freqs" using k by (simp add: s)
    have upd: "s[k := ?h (freqs ! k)] = map ?h (take (Suc k) freqs) @ drop (Suc k) freqs"
      using k d list_update_length [of "map ?h (take k freqs)" "freqs ! k"]
      by (simp add: s take_Suc_conv_app_nth)
    have "freqs ! k < 2 ^ 32 - 1" using assms k by simp
    then have "(freqs ! k + 1) mod 2 ^ 32 = freqs ! k + 1" by simp
    moreover have "s = s[k := ?h (freqs ! k)]" if "freqs ! k = 0"
      using list_update_id [of s k] that nth by simp
    ultimately show "\<exists>s'. (rd s k \<bind> (\<lambda>f. if f \<noteq> 0
        then wr s k (((f + 1) mod 2 ^ 32) div 2) else Some s)) = Some s' \<and> ?I (Suc k) s'"
      using k nth len upd by (cases "freqs ! k = 0") simp_all
  qed simp_all
  then show ?thesis by simp
qed

text \<open>
  What the encoder needs of the lengths: exactly the used symbols have one, none exceeds the
  limit, and the code is complete.
\<close>

definition good_lengths :: "nat list \<Rightarrow> nat \<Rightarrow> nat list \<Rightarrow> bool" where
  "good_lengths freqs limit ls \<longleftrightarrow> length ls = length freqs \<and> (\<forall>l \<in> set ls. l \<le> limit) \<and>
     (\<forall>i < length freqs. ls ! i = 0 \<longleftrightarrow> freqs ! i = 0) \<and> kraft limit ls = 2 ^ limit"

lemma kraft_sum: "kraft m ls = (\<Sum>i<length ls. if ls ! i = 0 then 0 else 2 ^ (m - ls ! i))"
  by (simp add: kraft_def sum_list_sum_nth atLeast0LessThan)

lemma depth_lengths_good:
  assumes t: "mset (leaves t) = mset [0..<length (used_freqs freqs)]" "0 < height t" "height t \<le> limit"
      "limit < 256"
    and leaf: "leaf = put_depths (depths t 0) ls0" "length (used_freqs freqs) \<le> length ls0"
    and ls: "length ls = length freqs"
      "\<forall>k < length (used_freqs freqs). ls ! (used_list freqs ! k) = leaf ! k"
      "\<forall>i < length freqs. freqs ! i = 0 \<longrightarrow> ls ! i = 0"
  shows "good_lengths freqs limit ls"
proof -
  let ?u = "used_list freqs" and ?m = "length (used_freqs freqs)" and ?ps = "depths t 0"
  have fst_ps: "mset (map fst ?ps) = mset [0..<?m]" unfolding mset_depths by (rule t(1))
  then have dist: "distinct (map fst ?ps)" by (metis distinct_upt mset_eq_imp_distinct_iff)
  have depth_pos: "0 < e" if "(j, e) \<in> set ?ps" for j e
    using that t(2) by (cases t) (auto dest: depth_height)
  have leaf_nth: "leaf ! j = e" if "(j, e) \<in> set ?ps" for j e
  proof -
    have "j \<in> set (map fst ?ps)" using that by force
    then have "j < length ls0" using fst_ps leaf(2) by (metis atLeastLessThan_iff less_le_trans set_mset_mset set_upt)
    moreover have "e < 256" using depth_height [OF that] t(3,4) by simp
    ultimately show ?thesis
      using put_depths_nth [OF dist that] depth_pos [OF that] leaf(1) by simp
  qed
  have leaf_ok: "0 < leaf ! k \<and> leaf ! k \<le> limit" if "k < ?m" for k
  proof -
    have "k \<in> set (map fst ?ps)" using fst_ps that by (metis atLeastLessThan_iff le0 set_mset_mset set_upt)
    then obtain e where e: "(k, e) \<in> set ?ps" by auto
    with leaf_nth depth_pos depth_height [OF e] t(3) show ?thesis by fastforce
  qed
  have idx: "\<exists>k < ?m. ?u ! k = i" if "i < length freqs" "freqs ! i \<noteq> 0" for i
    using that set_used_list [of freqs] by (metis (mono_tags, lifting) in_set_conv_nth length_used_list mem_Collect_eq)
  have each: "(ls ! i = 0 \<longleftrightarrow> freqs ! i = 0) \<and> ls ! i \<le> limit" if "i < length freqs" for i
  proof (cases "freqs ! i = 0")
    case False
    from idx [OF that False] obtain k where "k < ?m" "?u ! k = i" by blast
    with ls(2) leaf_ok [of k] False show ?thesis by auto
  qed (use ls(3) that in simp)
  let ?g = "\<lambda>l :: nat. if l = 0 then 0 else 2 ^ (limit - l) :: nat"
  have "kraft limit ls = (\<Sum>i<length freqs. ?g (ls ! i))" by (simp add: kraft_sum ls(1))
  also have "\<dots> = (\<Sum>i\<in>set ?u. ?g (ls ! i))"
    by (rule sum.mono_neutral_right) (use ls(3) set_used_list in auto)
  also have "\<dots> = sum_list (map (\<lambda>i. ?g (ls ! i)) ?u)"
    by (simp add: sum_list_distinct_conv_sum_set distinct_used_list)
  also have "\<dots> = (\<Sum>k<?m. ?g (ls ! (?u ! k)))"
    by (simp add: sum_list_sum_nth atLeast0LessThan)
  also have "\<dots> = (\<Sum>k<?m. ?g (leaf ! k))" by (rule sum.cong) (use ls(2) in auto)
  also have "\<dots> = (\<Sum>k\<in>#mset [0..<?m]. ?g (leaf ! k))"
    by (simp add: sum_unfold_sum_mset atLeast0LessThan)
  also have "\<dots> = sum_list (map (\<lambda>k. ?g (leaf ! k)) (map fst ?ps))"
    by (simp only: fst_ps [symmetric] mset_map [symmetric] sum_mset_sum_list)
  also have "\<dots> = (\<Sum>(j, e)\<leftarrow>?ps. 2 ^ (limit - e))"
  proof -
    have "?g (leaf ! fst p) = (case p of (j, e) \<Rightarrow> 2 ^ (limit - e))" if "p \<in> set ?ps" for p
      using leaf_nth depth_pos that by (cases p) fastforce
    then show ?thesis by (simp add: o_def cong: map_cong)
  qed
  also have "\<dots> = 2 ^ limit" using kraft_depths [of 0 t limit] t(3) by simp
  finally have "kraft limit ls = 2 ^ limit" .
  with each ls(1) show ?thesis by (auto simp: good_lengths_def in_set_conv_nth)
qed

text \<open>
  The halving loop ends: a round that is not the last has a tree that is deeper than the
  limit, hence a frequency above 1, and halving makes the total smaller.
\<close>

lemma sum_list_halved:
  fixes fs :: "nat list"
  shows "sum_list (map (\<lambda>f. (f + 1) div 2) fs) \<le> sum_list fs"
    and "f \<in> set fs \<Longrightarrow> 2 \<le> f \<Longrightarrow> sum_list (map (\<lambda>f. (f + 1) div 2) fs) < sum_list fs"
proof -
  show le: "sum_list (map (\<lambda>f. (f + 1) div 2) fs) \<le> sum_list fs" for fs :: "nat list"
    by (induction fs) auto
  show "f \<in> set fs \<Longrightarrow> 2 \<le> f \<Longrightarrow> sum_list (map (\<lambda>f. (f + 1) div 2) fs) < sum_list fs"
  proof (induction fs)
    case (Cons x xs)
    show ?case
    proof (cases "f = x")
      case True
      have "(x + 1) div 2 < x" using Cons.prems(2) True by simp
      with le [of xs] show ?thesis by simp
    next
      case False
      with Cons have "sum_list (map (\<lambda>f. (f + 1) div 2) xs) < sum_list xs" by simp
      moreover have "(x + 1) div 2 \<le> x" by simp
      ultimately show ?thesis by simp
    qed
  qed simp
qed

lemma half_up_0: "Suc f div 2 = 0 \<longleftrightarrow> f = 0"
  by presburger

lemma used_freqs_halved: "length (used_freqs (map (\<lambda>f. (f + 1) div 2) fs)) = length (used_freqs fs)"
  by (induction fs) (auto simp: used_freqs_def)

lemma member_less_sum:
  fixes fs :: "nat list"
  assumes "f \<in> set fs" "2 \<le> length (used_freqs fs)"
  shows "f < sum_list fs"
proof -
  from assms(1) obtain xs ys where fs: "fs = xs @ f # ys" by (auto simp: in_set_conv_decomp)
  have "used_freqs (xs @ ys) \<noteq> []"
    using assms(2) by (auto simp: fs used_freqs_def split: if_splits)
  then obtain x where "x \<in> set (xs @ ys)" "0 < x" by (auto simp: used_freqs_def filter_empty_conv)
  then have "0 < sum_list (xs @ ys)" using member_le_sum_list [of x "xs @ ys"] by linarith
  then show ?thesis by (simp add: fs)
qed

lemma limit_loop_ok:
  assumes len: "length freqs \<le> 286" "length leaf = 572" and used: "2 \<le> length (used_freqs freqs)"
    and sum: "sum_list freqs < 2 ^ 32" and limit: "length freqs < fibo (limit + 3)" "limit < 256"
  shows "\<exists>ls. limit_loop (length freqs) limit freqs leaf = Some ls \<and> good_lengths freqs limit ls"
  using assms
proof (induction "sum_list freqs" arbitrary: freqs leaf rule: less_induct)
  case less
  let ?n = "length freqs"
  have "?n \<le> length leaf" using less.prems(1,2) by simp
  from build_once_ok [OF less.prems(1) this less.prems(3,4)] obtain t where
    t: "build_once freqs ?n leaf =
        Some (put_depths (depths t 0) (replicate ?n 0 @ drop ?n leaf), height t)"
      "mset (leaves t) = mset [0..<length (used_freqs freqs)]" "0 < height t"
      "fibo (height t + 2) \<le> sum_list freqs" by blast
  let ?ls0 = "replicate ?n 0 @ drop ?n leaf"
  let ?leaf = "put_depths (depths t 0) ?ls0"
  have leaf_len: "length ?leaf = 572" "length (used_freqs freqs) \<le> length ?ls0"
    using less.prems(1,2) length_used_freqs_le [of freqs] by simp_all
  then have "length (used_freqs freqs) \<le> length ?leaf" by simp
  from spread_lengths_ok [OF this] obtain ls where ls:
    "spread_lengths (used_list freqs) ?leaf ?n = Some ls" "length ls = ?n"
    "\<forall>k < length (used_freqs freqs). ls ! (used_list freqs ! k) = ?leaf ! k"
    "\<forall>i < ?n. freqs ! i = 0 \<longrightarrow> ls ! i = 0" by blast
  note run = used_symbols_ok [OF less.prems(1)] t(1) ls(1)
  show ?case
  proof (cases "height t \<le> limit")
    case True
    have "good_lengths freqs limit ls"
      by (rule depth_lengths_good [OF t(2,3) True less.prems(6) refl leaf_len(2) ls(2-)])
    with True run show ?thesis by (subst limit_loop.simps) simp
  next
    case False
    let ?h = "map (\<lambda>f. (f + 1) div 2) freqs"
    have "\<forall>f \<in> set freqs. f < 2 ^ 32 - 1"
    proof
      fix f
      assume "f \<in> set freqs"
      from member_less_sum [OF this less.prems(3)] less.prems(4) show "f < 2 ^ 32 - 1" by simp
    qed
    note halve = halve_freqs_ok [OF this]
    have "\<not> (\<forall>f \<in> set freqs. f \<le> 1)"
    proof
      assume "\<forall>f \<in> set freqs. f \<le> 1"
      then have "sum_list freqs \<le> ?n" by (induction freqs) auto
      moreover have "fibo (limit + 3) \<le> fibo (height t + 2)" using False by (intro fibo_mono) simp
      ultimately show False using t(4) less.prems(5) by simp
    qed
    then obtain f where "f \<in> set freqs" "2 \<le> f" by (auto simp: not_le)
    then have small: "sum_list ?h < sum_list freqs" by (rule sum_list_halved(2))
    have "\<exists>ls. limit_loop (length ?h) limit ?h ?leaf = Some ls \<and> good_lengths ?h limit ls"
      by (rule less.hyps [OF small])
        (use less.prems small leaf_len(1) used_freqs_halved [of freqs] in simp_all)
    then obtain ls' where "limit_loop ?n limit ?h ?leaf = Some ls'" "good_lengths ?h limit ls'" by auto
    moreover have "good_lengths freqs limit ls'"
      using \<open>good_lengths ?h limit ls'\<close> by (simp add: good_lengths_def half_up_0)
    moreover have "limit_loop ?n limit freqs leaf = limit_loop ?n limit ?h ?leaf"
      using run halve False by (subst limit_loop.simps) simp
    ultimately show ?thesis by simp
  qed
qed

lemma huff_build_lengths_ok:
  assumes "length freqs \<le> 286" "2 \<le> length (used_freqs freqs)" "sum_list freqs < 2 ^ 32"
    and "length freqs < fibo (limit + 3)" "limit < 256"
  shows "\<exists>ls. huff_build_lengths freqs (length freqs) limit = Some ls \<and> good_lengths freqs limit ls"
  using limit_loop_ok [OF assms(1) _ assms(2-5)] assms(1) by (simp add: huff_build_lengths_def)

text \<open>
  With a single used symbol \<open>build_once\<close> gives the 1-bit code to the symbol's own index, but
  the caller reads the lengths by creation order, from index 0: only symbol 0 gets its code.
\<close>

lemma mark_first_ok:
  assumes "i < length freqs" "freqs ! i \<noteq> 0" "\<forall>j < i. freqs ! j = 0" "i < length ls" "k \<le> i" "i < n"
  shows "mark_first freqs [k..<n] ls = Some (ls[i := 1])"
  using assms(5)
proof (induction "i - k" arbitrary: k)
  case 0
  then have "k = i" by simp
  with assms have "[k..<n] = i # [Suc i..<n]" by (simp add: upt_conv_Cons)
  with assms show ?case by simp
next
  case (Suc d)
  then have k: "k < i" by simp
  with assms(6) have "[k..<n] = k # [Suc k..<n]" by (simp add: upt_conv_Cons)
  moreover have "mark_first freqs [Suc k..<n] ls = Some (ls[i := 1])" by (rule Suc.hyps) (use Suc k in auto)
  ultimately show ?case using assms(1,3) k by simp
qed

lemma used_freqs_single:
  assumes "i < length freqs" "freqs ! i \<noteq> 0" "\<forall>j < length freqs. j \<noteq> i \<longrightarrow> freqs ! j = 0"
  shows "used_freqs freqs = [freqs ! i]" "used_list freqs = [i]"
proof -
  have "set (used_list freqs) = {i}" using assms by (auto simp: set_used_list)
  with distinct_used_list [of freqs] show "used_list freqs = [i]"
  proof (cases "used_list freqs")
    case (Cons y ys)
    with \<open>set (used_list freqs) = {i}\<close> distinct_used_list [of freqs]
    have "y = i" "set ys \<subseteq> {i}" "i \<notin> set ys" by auto
    then have "set ys = {}" using subset_singletonD [of "set ys" i] by (metis insertI1)
    with Cons \<open>y = i\<close> show ?thesis by simp
  qed simp
  then show "used_freqs freqs = [freqs ! i]" by (simp add: used_freqs_map)
qed

lemma huff_build_lengths_single:
  assumes n: "length freqs \<le> 286" and i: "i < length freqs" "freqs ! i \<noteq> 0"
    "\<forall>j < length freqs. j \<noteq> i \<longrightarrow> freqs ! j = 0" and limit: "1 \<le> limit"
  shows "huff_build_lengths freqs (length freqs) limit =
    Some (if i = 0 then (replicate (length freqs) 0)[0 := 1] else replicate (length freqs) 0)"
proof -
  let ?n = "length freqs" and ?ls0 = "replicate 572 (0 :: nat)"
  note used = used_freqs_single [OF i]
  have cl: "collect_leaves freqs ?n = Some ([\<lparr>t_freq = freqs ! i, t_left = -1, t_right = -1\<rparr>], [0])"
    using collect_leaves_ok [OF n] by (simp add: used)
  have "mark_first freqs [0..<?n] ?ls0 = Some (?ls0[i := 1])"
    by (rule mark_first_ok) (use i n in auto)
  moreover have "ofor (\<lambda>i ls. wr ls i 0) [0..<?n] ?ls0 = Some ?ls0"
    using clear_ok [of ?n ?ls0] n by (simp flip: replicate_add)
  ultimately have "build_once freqs ?n ?ls0 = Some (?ls0[i := 1], 1)"
    using cl by (simp add: build_once_def)
  moreover have "spread_lengths [i] (?ls0[i := 1]) ?n =
      Some (if i = 0 then (replicate ?n 0)[0 := 1] else replicate ?n 0)"
  proof -
    have "(replicate ?n (0 :: nat))[i := 0] = replicate ?n 0"
      using list_update_id [of "replicate ?n (0 :: nat)" i] i(1) by simp
    with i(1) show ?thesis by (simp add: spread_lengths_def)
  qed
  ultimately have "limit_loop ?n limit freqs ?ls0 =
      Some (if i = 0 then (replicate ?n 0)[0 := 1] else replicate ?n 0)"
    using used_symbols_ok [OF n] limit by (subst limit_loop.simps) (simp add: used)
  then show ?thesis using n by (simp add: huff_build_lengths_def)
qed

text \<open>No used symbol at all: every length is zero.\<close>

lemma huff_build_lengths_none:
  assumes n: "length freqs \<le> 286" and "\<forall>f \<in> set freqs. f = 0"
  shows "huff_build_lengths freqs (length freqs) limit = Some (replicate (length freqs) 0)"
proof -
  have used: "used_freqs freqs = []" using assms(2) by (simp add: used_freqs_def filter_empty_conv)
  then have "used_list freqs = []" by (metis length_0_conv length_used_list)
  with used n show ?thesis
    using collect_leaves_ok [OF n] used_symbols_ok [OF n] clear_ok [of "length freqs" "replicate 572 0"]
    by (simp add: huff_build_lengths_def limit_loop.simps build_once_def spread_lengths_def)
qed

section \<open>Properties\<close>

text \<open>
  C28: \<open>huff_build_lengths\<close> terminates without undefined behaviour, whatever the frequencies, as long
  as at least two symbols are used and the sum of the frequencies is below 2^32; then exactly the used symbols get a length, none
  exceeds the limit, and the code is complete (Kraft's sum is 1). This covers its three uses: 286 and
  30 symbols with limit 15, 19 symbols with limit 7. With one used symbol it does not hold (\<open>build_lengths_loses_single_symbol\<close>).
\<close>

theorem build_lengths_complete:
  assumes "(n, limit) \<in> {(286, 15), (30, 15), (19, 7)}" "length freqs = n"
    and "2 \<le> length (used_freqs freqs)" "sum_list freqs < 2 ^ 32"
  shows "\<exists>ls. huff_build_lengths freqs n limit = Some ls \<and> length ls = n \<and>
    (\<forall>i < n. ls ! i = 0 \<longleftrightarrow> freqs ! i = 0) \<and> (\<forall>l \<in> set ls. l \<le> limit) \<and>
    (\<Sum>l\<leftarrow>ls. if l = 0 then 0 else 2 ^ (limit - l)) = (2 :: nat) ^ limit"
proof -
  have "fibo 18 = 2584" "fibo 10 = 55" by (simp_all add: eval_nat_numeral)
  with assms(1,2) have "length freqs < fibo (limit + 3)" "limit < 256" "length freqs \<le> 286" by auto
  from huff_build_lengths_ok [OF this(3) assms(3,4) this(1,2)] assms(2) show ?thesis
    by (auto simp: good_lengths_def kraft_def)
qed

theorem build_lengths_complete_witness:
  "\<exists>ls. huff_build_lengths ([5, 0, 1, 2] @ replicate 15 0) 19 7 = Some ls \<and> ls ! 1 = 0 \<and> ls ! 2 \<noteq> 0"
proof -
  have "length ([5, 0, 1, 2] @ replicate 15 (0 :: nat)) = 19" by simp
  moreover have "2 \<le> length (used_freqs ([5, 0, 1, 2] @ replicate 15 0))" by (simp add: used_freqs_def)
  moreover have "sum_list ([5, 0, 1, 2] @ replicate 15 (0 :: nat)) < 2 ^ 32" by (simp add: sum_list_replicate)
  ultimately obtain ls where "huff_build_lengths ([5, 0, 1, 2] @ replicate 15 0) 19 7 = Some ls"
    "\<forall>i < 19. ls ! i = 0 \<longleftrightarrow> ([5, 0, 1, 2] @ replicate 15 0) ! i = (0 :: nat)"
    using build_lengths_complete [of 19 7] by blast
  then show ?thesis by (intro exI [of _ ls]) (simp add: nth_append)
qed

text \<open>
  With exactly one used symbol, and that not symbol 0, every length \<open>huff_build_lengths\<close>
  returns is zero: the used symbol gets no code. \<open>build_once\<close> writes the length at the symbol's own
  index where its caller reads it at index 0.
\<close>

theorem build_lengths_loses_single_symbol:
  assumes "length freqs \<le> 286" "i < length freqs" "freqs ! i \<noteq> 0" "i \<noteq> 0"
    and "\<forall>j < length freqs. j \<noteq> i \<longrightarrow> freqs ! j = 0" "1 \<le> limit"
  shows "huff_build_lengths freqs (length freqs) limit = Some (replicate (length freqs) 0)"
  using huff_build_lengths_single [OF assms(1-3,5,6)] assms(4) by simp

theorem build_lengths_loses_single_symbol_witness:
  "huff_build_lengths [0, 0, 9] (length [0, 0, 9 :: nat]) 15 = Some (replicate (length [0, 0, 9 :: nat]) 0)"
proof (rule build_lengths_loses_single_symbol [of _ 2])
  show "\<forall>j < length [0, 0, 9 :: nat]. j \<noteq> 2 \<longrightarrow> [0, 0, 9] ! j = (0 :: nat)"
    by (auto simp: less_Suc_eq numeral_eq_Suc)
qed simp_all

end
