(* ===== verification/Deflate.thy ===== *)
theory Deflate
  imports LZ77 Huffman_Build
begin

text \<open>
  The encoder of \<open>src/deflate.c\<close>: symbol counts, the run-length coded header, the cost of a
  block, the three ways to write it, and \<open>deflate_compress\<close>. Sizes in bits are \<open>nat\<close>: they are
  far below \<open>2 ^ 64\<close> for any input that fits in memory. The frequencies keep their 32 bits.
\<close>

section \<open>Counting symbols\<close>

definition bump :: "nat list \<Rightarrow> nat \<Rightarrow> nat list option" where
  "bump freqs i = do { f \<leftarrow> rd freqs i; wr freqs i ((f + 1) mod 2 ^ 32) }"

definition count_symbols :: "token list \<Rightarrow> (nat list \<times> nat list) option" where
  "count_symbols tokens = do {
     (lit, dist) \<leftarrow> ofor (\<lambda>t (lit, dist).
         if tk_length t = 0 then do { lit \<leftarrow> bump lit (unat (tk_literal t)); Some (lit, dist) }
         else do {
           lit \<leftarrow> bump lit (257 + length_to_code (tk_length t));
           dist \<leftarrow> bump dist (distance_to_code (tk_distance t));
           Some (lit, dist) })
       tokens (replicate NUM_LITERALS 0, replicate NUM_DISTANCES 0);
     lit \<leftarrow> bump lit END_OF_BLOCK;
     Some (lit, dist) }"

section \<open>The run-length coded header\<close>

text \<open>\<open>syms[out] = s; extra[out++] = x;\<close>: the two arrays as one list of pairs.\<close>

definition push_sym :: "nat \<Rightarrow> nat \<Rightarrow> (nat \<times> nat) list \<Rightarrow> (nat \<times> nat) list option" where
  "push_sym s x out =
     (if length out < NUM_LITERALS + NUM_DISTANCES then Some (out @ [(s mod 256, x mod 256)]) else None)"

function count_run :: "nat list \<Rightarrow> nat \<Rightarrow> nat \<Rightarrow> nat \<Rightarrow> nat \<Rightarrow> nat option" where
  "count_run lengths n i len run =
     (if i + run < n then
        (case rd lengths (i + run) of
           None \<Rightarrow> None
         | Some l \<Rightarrow> if l = len then count_run lengths n i len (run + 1) else Some run)
      else Some run)"
  by pat_completeness auto
termination
  by (relation "measure (\<lambda>(lengths, n, i, len, run). n - (i + run))") auto

declare count_run.simps [simp del]

text \<open>
  A loop \<open>while (run >= lo)\<close> that writes a repeat symbol \<open>s\<close> for up to \<open>hi\<close> entries; the extra
  value is the count above \<open>lo\<close>. It returns what is left of the run, and the position.
\<close>

function pack_repeat ::
  "nat \<Rightarrow> nat \<Rightarrow> nat \<Rightarrow> (nat \<times> nat) list \<Rightarrow> nat \<Rightarrow> nat \<Rightarrow> ((nat \<times> nat) list \<times> nat \<times> nat) option" where
  "pack_repeat s lo hi out run i =
     (if 0 < lo \<and> lo \<le> hi \<and> run \<ge> lo then
        (let k = (if run > hi then hi else run) in
         case push_sym s (k - lo) out of
           None \<Rightarrow> None
         | Some out \<Rightarrow> pack_repeat s lo hi out (run - k) (i + k))
      else Some (out, run, i))"
  by pat_completeness auto
termination
  by (relation "measure (\<lambda>(s, lo, hi, out, run, i). run)") auto

declare pack_repeat.simps [simp del]

text \<open>\<open>while (run-- > 0)\<close>: one symbol per entry.\<close>

fun pack_each ::
  "nat \<Rightarrow> (nat \<times> nat) list \<Rightarrow> nat \<Rightarrow> nat \<Rightarrow> ((nat \<times> nat) list \<times> nat) option" where
  "pack_each s out 0 i = Some (out, i)"
| "pack_each s out (Suc run) i =
     (case push_sym s 0 out of None \<Rightarrow> None | Some out \<Rightarrow> pack_each s out run (i + 1))"

text \<open>The body of the loop: one run of equal lengths, from \<open>i\<close>.\<close>

definition pack_run ::
  "nat \<Rightarrow> (nat \<times> nat) list \<Rightarrow> nat \<Rightarrow> nat \<Rightarrow> ((nat \<times> nat) list \<times> nat) option" where
  "pack_run len out run i =
     (if len = 0 then do {
        (out, run, i) \<leftarrow> pack_repeat 18 11 138 out run i;
        (out, run, i) \<leftarrow> pack_repeat 17 3 10 out run i;
        pack_each 0 out run i }
      else do {
        out \<leftarrow> push_sym len 0 out;
        (out, run, i) \<leftarrow> pack_repeat 16 3 6 out (run - 1) (i + 1);
        pack_each len out run i })"

partial_function (option) pack_loop ::
  "nat list \<Rightarrow> nat \<Rightarrow> nat \<Rightarrow> (nat \<times> nat) list \<Rightarrow> (nat \<times> nat) list option" where
  "pack_loop lengths n i out =
     (if i < n then do {
        len \<leftarrow> rd lengths i;
        run \<leftarrow> count_run lengths n i len 1;
        (out, i) \<leftarrow> pack_run len out run i;
        pack_loop lengths n i out }
      else Some out)"

definition pack_code_lengths :: "nat list \<Rightarrow> nat \<Rightarrow> (nat \<times> nat) list option" where
  "pack_code_lengths lengths n = pack_loop lengths n 0 []"

section \<open>Cost\<close>

definition token_bits :: "token list \<Rightarrow> nat list \<Rightarrow> nat list \<Rightarrow> nat option" where
  "token_bits tokens lit_len dist_len = do {
     bits \<leftarrow> ofor (\<lambda>t bits.
         if tk_length t = 0 then do { l \<leftarrow> rd lit_len (unat (tk_literal t)); Some (bits + l) }
         else do {
           let lc = length_to_code (tk_length t);
           let dc = distance_to_code (tk_distance t);
           l \<leftarrow> rd lit_len (257 + lc); x \<leftarrow> rd LENGTH_EXTRA lc;
           d \<leftarrow> rd dist_len dc; y \<leftarrow> rd DIST_EXTRA dc;
           Some (bits + (l + x) + (d + y)) })
       tokens 0;
     e \<leftarrow> rd lit_len END_OF_BLOCK;
     Some (bits + e) }"

section \<open>Emitting\<close>

text \<open>\<open>bw_code(w, code[i], len[i])\<close>\<close>

definition put_symbol :: "nat list \<Rightarrow> nat list \<Rightarrow> nat \<Rightarrow> bitwriter \<Rightarrow> bitwriter option" where
  "put_symbol codes lens i w = do {
     c \<leftarrow> rd codes i; l \<leftarrow> rd lens i; bw_code w (of_nat c) l }"

text \<open>\<open>if (extra) bw_bits(w, value - base, extra)\<close>\<close>

definition put_extra :: "nat \<Rightarrow> nat \<Rightarrow> nat \<Rightarrow> bitwriter \<Rightarrow> bitwriter option" where
  "put_extra extra base v w = (if extra \<noteq> 0 then bw_bits w (of_nat (v - base)) extra else Some w)"

definition emit_token ::
  "nat list \<Rightarrow> nat list \<Rightarrow> nat list \<Rightarrow> nat list \<Rightarrow> token \<Rightarrow> bitwriter \<Rightarrow> bitwriter option" where
  "emit_token lit_len lit_code dist_len dist_code t w =
     (if tk_length t = 0 then put_symbol lit_code lit_len (unat (tk_literal t)) w
      else do {
        let lc = length_to_code (tk_length t);
        w \<leftarrow> put_symbol lit_code lit_len (257 + lc) w;
        x \<leftarrow> rd LENGTH_EXTRA lc; b \<leftarrow> rd LENGTH_BASE lc;
        w \<leftarrow> put_extra x b (tk_length t) w;
        let dc = distance_to_code (tk_distance t);
        w \<leftarrow> put_symbol dist_code dist_len dc w;
        x \<leftarrow> rd DIST_EXTRA dc; b \<leftarrow> rd DIST_BASE dc;
        put_extra x b (tk_distance t) w })"

definition emit_tokens ::
  "token list \<Rightarrow> nat list \<Rightarrow> nat list \<Rightarrow> nat list \<Rightarrow> nat list \<Rightarrow> bitwriter \<Rightarrow> bitwriter option" where
  "emit_tokens tokens lit_len lit_code dist_len dist_code w = do {
     w \<leftarrow> ofor (emit_token lit_len lit_code dist_len dist_code) tokens w;
     put_symbol lit_code lit_len END_OF_BLOCK w }"

definition emit_stored :: "u8 list \<Rightarrow> bool \<Rightarrow> bitwriter \<Rightarrow> bitwriter option" where
  "emit_stored bytes final w = do {
     w \<leftarrow> bw_bits w (if final then 1 else 0) 1;
     w \<leftarrow> bw_bits w 0 2;
     w \<leftarrow> bw_align w;
     w \<leftarrow> bw_bits w (of_nat (length bytes) AND 0xFFFF) 16;
     w \<leftarrow> bw_bits w (NOT (of_nat (length bytes)) AND 0xFFFF) 16;
     ofor (\<lambda>b w. bw_bits w (ucast b) 8) bytes w }"

text \<open>The loop that writes the input as stored blocks of at most 65535 bytes.\<close>

function emit_stored_blocks :: "u8 list \<Rightarrow> nat \<Rightarrow> bitwriter \<Rightarrow> bitwriter option" where
  "emit_stored_blocks inp pos w =
     (if pos < length inp then
        (let chunk = (if length inp - pos > 65535 then 65535 else length inp - pos) in
         case emit_stored (take chunk (drop pos inp)) (pos + chunk \<ge> length inp) w of
           None \<Rightarrow> None
         | Some w \<Rightarrow> emit_stored_blocks inp (pos + chunk) w)
      else Some w)"
  by pat_completeness auto
termination
  by (relation "measure (\<lambda>(inp, pos, w). length inp - pos)") auto

declare emit_stored_blocks.simps [simp del]

definition deflate_bound :: "nat \<Rightarrow> nat" where
  "deflate_bound len = (len + (len div 65535 + 1) * 5 + 8) mod 2 ^ 64"

section \<open>The compressor\<close>

text \<open>Everything the dynamic candidate computes before its size is compared.\<close>

record dyn_plan =
  dp_lit_len :: "nat list"
  dp_lit_code :: "nat list"
  dp_dist_len :: "nat list"
  dp_dist_code :: "nat list"
  dp_hlit :: nat
  dp_hdist :: nat
  dp_cl :: "(nat \<times> nat) list"
  dp_cl_len :: "nat list"
  dp_cl_code :: "nat list"
  dp_hclen :: nat

text \<open>\<open>while (k > lo && len[k - 1] == 0) k--;\<close>\<close>

fun trim_zeros :: "(nat \<Rightarrow> nat option) \<Rightarrow> nat \<Rightarrow> nat \<Rightarrow> nat option" where
  "trim_zeros get lo 0 = Some 0"
| "trim_zeros get lo (Suc k) =
     (if Suc k > lo then
        (case get k of None \<Rightarrow> None | Some l \<Rightarrow> if l = 0 then trim_zeros get lo k else Some (Suc k))
      else Some (Suc k))"

text \<open>A code must exist even when no distance is used, as \<open>HDIST\<close> sends the count less one.\<close>

definition dist_lengths :: "nat list \<Rightarrow> nat list option" where
  "dist_lengths dist_freq = do {
     dist_len \<leftarrow> huff_build_lengths dist_freq NUM_DISTANCES MAX_CODE_BITS;
     let any_dist = list_ex (\<lambda>l. l \<noteq> 0) (take NUM_DISTANCES dist_len);
     if any_dist then Some dist_len else wr dist_len 0 1 }"

definition plan_header :: "nat list \<Rightarrow> nat list \<Rightarrow> dyn_plan option" where
  "plan_header lit_len dist_len = do {
     lit_code \<leftarrow> huff_assign_codes lit_len NUM_LITERALS;
     dist_code \<leftarrow> huff_assign_codes dist_len NUM_DISTANCES;
     hlit \<leftarrow> trim_zeros (rd lit_len) 257 NUM_LITERALS;
     hdist \<leftarrow> trim_zeros (rd dist_len) 1 NUM_DISTANCES;
     let combined = take hlit lit_len @ take hdist dist_len;
     cl \<leftarrow> pack_code_lengths combined (hlit + hdist);
     cl_freq \<leftarrow> ofor (\<lambda>(s, x) f. bump f s) cl (replicate NUM_CODELEN 0);
     cl_len \<leftarrow> huff_build_lengths cl_freq NUM_CODELEN MAX_CL_BITS;
     cl_code \<leftarrow> huff_assign_codes cl_len NUM_CODELEN;
     hclen \<leftarrow> trim_zeros (\<lambda>k. rd CODELEN_ORDER k \<bind> rd cl_len) 4 NUM_CODELEN;
     Some \<lparr>dp_lit_len = lit_len, dp_lit_code = lit_code, dp_dist_len = dist_len,
       dp_dist_code = dist_code, dp_hlit = hlit, dp_hdist = hdist, dp_cl = cl,
       dp_cl_len = cl_len, dp_cl_code = cl_code, dp_hclen = hclen\<rparr> }"

definition plan_dynamic :: "nat list \<Rightarrow> nat list \<Rightarrow> dyn_plan option" where
  "plan_dynamic lit_freq dist_freq = do {
     lit_len \<leftarrow> huff_build_lengths lit_freq NUM_LITERALS MAX_CODE_BITS;
     dist_len \<leftarrow> dist_lengths dist_freq;
     plan_header lit_len dist_len }"

definition header_cost :: "dyn_plan \<Rightarrow> nat option" where
  "header_cost p =
     ofor (\<lambda>(s, x) bits. do {
         l \<leftarrow> rd (dp_cl_len p) s;
         Some (bits + l + (if s = 16 then 2 else if s = 17 then 3 else if s = 18 then 7 else 0)) })
       (dp_cl p) (3 + 5 + 5 + 4 + dp_hclen p * 3)"

definition emit_dynamic_header :: "dyn_plan \<Rightarrow> bitwriter \<Rightarrow> bitwriter option" where
  "emit_dynamic_header p w = do {
     w \<leftarrow> bw_bits w (of_nat (dp_hlit p - 257)) 5;
     w \<leftarrow> bw_bits w (of_nat (dp_hdist p - 1)) 5;
     w \<leftarrow> bw_bits w (of_nat (dp_hclen p - 4)) 4;
     w \<leftarrow> ofor (\<lambda>i w. do {
         k \<leftarrow> rd CODELEN_ORDER i; l \<leftarrow> rd (dp_cl_len p) k; bw_bits w (of_nat l) 3 })
       [0..<dp_hclen p] w;
     ofor (\<lambda>(s, x) w. do {
         w \<leftarrow> put_symbol (dp_cl_code p) (dp_cl_len p) s w;
         if s = 16 then bw_bits w (of_nat x) 2
         else if s = 17 then bw_bits w (of_nat x) 3
         else if s = 18 then bw_bits w (of_nat x) 7
         else Some w })
       (dp_cl p) w }"

text \<open>\<open>size_t written = bw_finish(&w); return w.overflow ? DF_ERR_OUTPUT : (long)written;\<close>\<close>

definition finish :: "bitwriter \<Rightarrow> ((dferr + nat) \<times> u8 list) option" where
  "finish w = do {
     (written, w) \<leftarrow> bw_finish w;
     Some (if w_overflow w then Inl DF_ERR_OUTPUT else Inr written, w_out w) }"

text \<open>The candidates are measured and the smallest is written.\<close>

definition compress_tokens ::
  "u8 list \<Rightarrow> token list \<Rightarrow> bitwriter \<Rightarrow> ((dferr + nat) \<times> u8 list) option" where
  "compress_tokens inp tokens w = do {
     (lit_freq, dist_freq) \<leftarrow> count_symbols tokens;
     fix_lit_code \<leftarrow> huff_assign_codes fixed_lit_lengths NUM_LITERALS;
     fix_dist_code \<leftarrow> huff_assign_codes fixed_dist_lengths NUM_DISTANCES;
     fb \<leftarrow> token_bits tokens fixed_lit_lengths fixed_dist_lengths;
     let fixed_bits = 3 + fb;
     p \<leftarrow> plan_dynamic lit_freq dist_freq;
     header_bits \<leftarrow> header_cost p;
     db \<leftarrow> token_bits tokens (dp_lit_len p) (dp_dist_len p);
     let dynamic_bits = header_bits + db;
     let stored_bits = 3 + 32 + length inp * 8;
     if stored_bits \<le> fixed_bits \<and> stored_bits \<le> dynamic_bits then do {
       w \<leftarrow> emit_stored_blocks inp 0 w;
       finish w }
     else if fixed_bits \<le> dynamic_bits then do {
       w \<leftarrow> bw_bits w 1 1;
       w \<leftarrow> bw_bits w 1 2;
       w \<leftarrow> emit_tokens tokens fixed_lit_lengths fix_lit_code fixed_dist_lengths fix_dist_code w;
       finish w }
     else do {
       w \<leftarrow> bw_bits w 1 1;
       w \<leftarrow> bw_bits w 2 2;
       w \<leftarrow> emit_dynamic_header p w;
       w \<leftarrow> emit_tokens tokens (dp_lit_len p) (dp_lit_code p) (dp_dist_len p) (dp_dist_code p) w;
       finish w } }"

text \<open>
  The three allocations of the compressor (the tokens, then \<open>head\<close> and \<open>prev\<close> in the parser)
  may fail: their outcomes are arguments.
\<close>

record allocs =
  tokens_ok_alloc :: bool
  head_ok_alloc :: bool
  prev_ok_alloc :: bool

definition deflate_compress ::
  "allocs \<Rightarrow> u8 list \<Rightarrow> u8 list \<Rightarrow> nat \<Rightarrow> int \<Rightarrow> ((dferr + nat) \<times> u8 list) option" where
  "deflate_compress al inp out out_cap level =
     (let level = (if level < 0 \<or> level > 9 then 6 else level);
          w = bw_init out out_cap in
      if length inp = 0 then do { w \<leftarrow> emit_stored [] True w; finish w }
      else if level = 0 then do { w \<leftarrow> emit_stored_blocks inp 0 w; finish w }
      else if \<not> tokens_ok_alloc al then Some (Inl DF_ERR_MEMORY, out)
      else do {
        parsed \<leftarrow> lz77_parse (head_ok_alloc al) (prev_ok_alloc al) inp (nat level);
        (case parsed of
           None \<Rightarrow> Some (Inl DF_ERR_MEMORY, out)
         | Some tokens \<Rightarrow> compress_tokens inp tokens w) })"

end
