(* ===== verification/Gzip.thy ===== *)
theory Gzip
  imports Deflate
begin

text \<open>
  The CRC and the gzip container of \<open>src/inflate.c\<close>. The table is a static array filled at the
  first call: it and its flag are a state that \<open>deflate_crc32\<close> takes and returns.
\<close>

section \<open>CRC-32\<close>

record crc_static =
  crc_table :: "u32 list"
  crc_built :: bool

text \<open>What C gives static storage.\<close>

definition crc_static_init :: crc_static where
  "crc_static_init = \<lparr>crc_table = replicate 256 0, crc_built = False\<rparr>"

definition crc_shift :: "u32 \<Rightarrow> u32" where
  "crc_shift c = (if c AND 1 \<noteq> 0 then 0xEDB88320 XOR drop_bit 1 c else drop_bit 1 c)"

definition crc_build_table :: "u32 list \<Rightarrow> u32 list option" where
  "crc_build_table table =
     ofor (\<lambda>i table. let c = fold (\<lambda>k c. crc_shift c) [0..<8] (of_nat i) in wr table i c) [0..<256] table"

definition deflate_crc32 :: "crc_static \<Rightarrow> u8 list \<Rightarrow> (u32 \<times> crc_static) option" where
  "deflate_crc32 st data = do {
     st \<leftarrow> (if \<not> crc_built st
            then do { t \<leftarrow> crc_build_table (crc_table st); Some \<lparr>crc_table = t, crc_built = True\<rparr> }
            else Some st);
     crc \<leftarrow> ofor (\<lambda>d crc. do {
         t \<leftarrow> rd (crc_table st) (unat ((crc XOR ucast d) AND 0xFF));
         Some (t XOR drop_bit 8 crc) })
       data 0xFFFFFFFF;
     Some (crc XOR 0xFFFFFFFF, st) }"

section \<open>The gzip container\<close>

text \<open>A little-endian 32-bit field at \<open>pos\<close>.\<close>

definition put_le32 :: "u32 \<Rightarrow> u8 list \<Rightarrow> nat \<Rightarrow> (u8 list \<times> nat) option" where
  "put_le32 v out pos =
     ofor (\<lambda>i (out, pos). do {
         x \<leftarrow> shr32 v (8 * i);
         out \<leftarrow> wr out pos (ucast (x AND 0xFF));
         Some (out, pos + 1) })
       [0..<4] (out, pos)"

text \<open>The body is compressed into the buffer from index 10 on, eight bytes short of its end.\<close>

definition gzip_compress ::
  "crc_static \<Rightarrow> allocs \<Rightarrow> u8 list \<Rightarrow> u8 list \<Rightarrow> nat \<Rightarrow> int \<Rightarrow>
     ((dferr + nat) \<times> u8 list \<times> crc_static) option" where
  "gzip_compress st al inp out out_cap level =
     (if out_cap < 18 then Some (Inl DF_ERR_OUTPUT, out, st)
      else do {
        out \<leftarrow> ofor (\<lambda>(i, v) out. wr out i v)
          [(0, 0x1F), (1, 0x8B), (2, 8), (3, 0), (7, 0), (6, 0), (5, 0), (4, 0), (8, 0), (9, 255)] out;
        (body, rest) \<leftarrow> deflate_compress al inp (drop 10 out) (out_cap - 18) level;
        let out = take 10 out @ rest;
        (case body of
           Inl e \<Rightarrow> Some (Inl e, out, st)
         | Inr body \<Rightarrow> do {
             let pos = 10 + body;
             (crc, st) \<leftarrow> deflate_crc32 st inp;
             let isize = (of_nat (length inp) :: u32);
             (out, pos) \<leftarrow> put_le32 crc out pos;
             (out, pos) \<leftarrow> put_le32 isize out pos;
             Some (Inr pos, out, st) }) })"

section \<open>The CRC of a bit string\<close>

lemma xor_cancel_left: "c XOR a = c XOR b \<Longrightarrow> a = b" for a b c :: "'a::ring_bit_operations"
proof -
  assume "c XOR a = c XOR b"
  then have "c XOR (c XOR a) = c XOR (c XOR b)" by simp
  then show "a = b" by (simp flip: xor.assoc)
qed

lemma xor_cancel_right: "a XOR c = b XOR c \<Longrightarrow> a = b" for a b c :: "'a::ring_bit_operations"
  by (rule xor_cancel_left [of c]) (simp add: xor.commute)

text \<open>
  The reference: the register takes the message bit by bit, least significant bit of each byte
  first, which is the order of \<^const>\<open>bytes_bits\<close>.
\<close>

definition crc_step :: "u32 \<Rightarrow> bool \<Rightarrow> u32" where
  "crc_step c b = (if bit c 0 \<noteq> b then 0xEDB88320 XOR drop_bit 1 c else drop_bit 1 c)"

definition crc_bits :: "u32 \<Rightarrow> bool list \<Rightarrow> u32" where
  "crc_bits c bs = foldl crc_step c bs"

definition crc32 :: "u8 list \<Rightarrow> u32" where
  "crc32 data = NOT (crc_bits (NOT 0) (bytes_bits data))"

text \<open>Shifting is linear, and one step with a message bit is a shift after adding the bit in.\<close>

lemma crc_shift_alt: "crc_shift c = (if bit c 0 then 0xEDB88320 XOR drop_bit 1 c else drop_bit 1 c)"
  by (simp add: crc_shift_def and_one_eq odd_iff_mod_2_eq_one bit_0 flip: mod_2_eq_odd)

lemma crc_shift_xor: "crc_shift (a XOR b) = crc_shift a XOR crc_shift b"
proof -
  have cancel: "p XOR (p XOR z) = z" for p z :: u32 by (simp flip: xor.assoc)
  show ?thesis
    by (cases "bit a 0"; cases "bit b 0")
      (simp_all only: crc_shift_alt bit_xor_iff drop_bit_xor if_True if_False HOL.simp_thms
        xor.assoc xor.left_commute [of _ "0xEDB88320 :: u32"] cancel)
qed

lemma crc_step_shift: "crc_step c b = crc_shift (c XOR of_bool b)"
proof -
  have "drop_bit 1 (of_bool b :: u32) = 0" by (cases b) simp_all
  moreover have "bit (c XOR of_bool b) 0 \<longleftrightarrow> bit c 0 \<noteq> b" by (cases b) (simp_all add: bit_xor_iff bit_1_0)
  ultimately show ?thesis by (simp add: crc_step_def crc_shift_alt drop_bit_xor)
qed

text \<open>The generator has its top bit set, so no information is lost in a shift.\<close>

lemma crc_shift_inj: "crc_shift a = crc_shift b \<Longrightarrow> a = b"
proof -
  have zero: "c = 0" if "crc_shift c = 0" for c
  proof -
    have top: "bit (drop_bit 1 c) 31 = False" by (auto simp: bit_drop_bit_eq dest: bit_imp_le_length)
    have poly: "bit (0xEDB88320 :: u32) 31" by simp
    have "\<not> bit c 0"
    proof
      assume "bit c 0"
      with that have "0xEDB88320 XOR drop_bit 1 c = 0" by (simp add: crc_shift_alt)
      then have "bit (0xEDB88320 XOR drop_bit 1 c) 31 = False" by simp
      with top poly show False by (simp add: bit_xor_iff)
    qed
    with that have "drop_bit 1 c = 0" by (simp add: crc_shift_alt)
    have "\<not> bit c n" for n
    proof (cases n)
      case (Suc m)
      have "bit (drop_bit 1 c) m = False" using \<open>drop_bit 1 c = 0\<close> by simp
      with Suc show ?thesis by (simp add: bit_drop_bit_eq)
    qed (use \<open>\<not> bit c 0\<close> in simp)
    then show "c = 0" by (simp add: bit_eq_iff)
  qed
  assume "crc_shift a = crc_shift b"
  then have "crc_shift (a XOR b) = 0" by (simp add: crc_shift_xor)
  then have "a XOR b = b XOR b" using zero by simp
  then show "a = b" by (rule xor_cancel_right)
qed

section \<open>Blocks of up to 32 bits\<close>

definition word_of_bits :: "bool list \<Rightarrow> u32" where
  "word_of_bits bs = of_nat (nat_of_bits bs)"

lemma bit_word_of_bits: "length bs \<le> 32 \<Longrightarrow> bit (word_of_bits bs) i \<longleftrightarrow> i < length bs \<and> bs ! i"
  by (auto simp: word_of_bits_def bit_nat_of_bits bit_simps)

lemma crc_bits_word:
  "length bs \<le> 32 \<Longrightarrow> crc_bits c bs = (crc_shift ^^ length bs) (c XOR word_of_bits bs)"
proof (induction bs arbitrary: c)
  case Nil
  then show ?case by (simp add: crc_bits_def word_of_bits_def)
next
  case (Cons b bs)
  let ?w = "word_of_bits bs"
  have split: "word_of_bits (b # bs) = of_bool b XOR push_bit 1 ?w"
    by (rule bit_word_eqI) (use Cons.prems in \<open>auto simp: bit_word_of_bits bit_xor_iff bit_push_bit_iff
        nth_Cons' bit_simps gr0_conv_Suc simp del: push_bit_Suc\<close>)
  have "\<not> bit (push_bit 1 ?w) 0" by (simp add: bit_push_bit_iff del: push_bit_Suc)
  moreover have "drop_bit 1 (push_bit 1 ?w) = ?w"
    by (rule bit_word_eqI) (use Cons.prems in \<open>auto simp: bit_word_of_bits bit_drop_bit_eq bit_push_bit_iff simp del: push_bit_Suc drop_bit_Suc\<close>)
  ultimately have "crc_shift (push_bit 1 ?w) = ?w" by (simp add: crc_shift_alt)
  then have "crc_shift (c XOR word_of_bits (b # bs)) = crc_shift (c XOR of_bool b) XOR ?w"
    by (simp add: split crc_shift_xor xor.assoc)
  with Cons show ?case by (simp add: crc_bits_def crc_step_shift funpow_swap1)
qed

lemma crc_shifts_inj: "(crc_shift ^^ n) a = (crc_shift ^^ n) b \<Longrightarrow> a = b"
  by (induction n) (auto dest: crc_shift_inj)

lemma crc_shifts_xor: "(crc_shift ^^ n) (a XOR b) = (crc_shift ^^ n) a XOR (crc_shift ^^ n) b"
  by (induction n) (simp_all add: crc_shift_xor)

lemma crc_shifts_zero: "(\<forall>i < n. \<not> bit c i) \<Longrightarrow> (crc_shift ^^ n) c = drop_bit n c"
proof (induction n)
  case (Suc n)
  then have "crc_shift (drop_bit n c) = drop_bit 1 (drop_bit n c)" by (simp add: crc_shift_alt bit_drop_bit_eq)
  with Suc show ?case by simp
qed simp

lemma crc_step_inj: "crc_step a x = crc_step b x \<Longrightarrow> a = b"
proof -
  assume "crc_step a x = crc_step b x"
  then have "a XOR of_bool x = b XOR of_bool x" unfolding crc_step_shift by (rule crc_shift_inj)
  then show "a = b" by (rule xor_cancel_right)
qed

text \<open>
  A register that takes a message bit by bit and loses nothing: neither two states nor two
  message bits lead to the same next state. A single wrong bit is then always noticed.
\<close>

locale shift_register =
  fixes step :: "'s \<Rightarrow> bool \<Rightarrow> 's"
  assumes step_inj: "step a x = step b x \<Longrightarrow> a = b"
    and step_bit: "step a x = step a y \<Longrightarrow> x = y"
begin

lemma run_inj: "foldl step a xs = foldl step b xs \<Longrightarrow> a = b"
  by (induction xs arbitrary: a b) (auto dest: step_inj)

lemma single_error: "foldl step a (p @ x # s) = foldl step a (p @ y # s) \<Longrightarrow> x = y"
  by (auto dest!: run_inj step_bit)

end

lemma crc_step_bit: "crc_step a x = crc_step a y \<Longrightarrow> x = y"
proof -
  assume "crc_step a x = crc_step a y"
  then have "a XOR of_bool x = a XOR of_bool y" unfolding crc_step_shift by (rule crc_shift_inj)
  then have "of_bool x = (of_bool y :: u32)" by (rule xor_cancel_left)
  then show "x = y" by (cases x; cases y) simp_all
qed

interpretation crc: shift_register crc_step
  by unfold_locales (rule crc_step_inj, assumption, rule crc_step_bit, assumption)

lemma crc_bits_append: "crc_bits c (xs @ ys) = crc_bits (crc_bits c xs) ys"
  by (simp add: crc_bits_def)

lemma crc_bits_inj: "crc_bits a xs = crc_bits b xs \<Longrightarrow> a = b"
  unfolding crc_bits_def by (rule crc.run_inj)

lemma crc_bits_inj_msg:
  assumes "crc_bits c xs = crc_bits c ys" "length xs = length ys" "length xs \<le> 32"
  shows "xs = ys"
proof -
  have "(crc_shift ^^ length xs) (c XOR word_of_bits xs) = (crc_shift ^^ length xs) (c XOR word_of_bits ys)"
    using assms by (simp add: crc_bits_word)
  then have "c XOR word_of_bits xs = c XOR word_of_bits ys" by (rule crc_shifts_inj)
  then have "word_of_bits xs = word_of_bits ys" by (rule xor_cancel_left)
  then have "xs ! i \<longleftrightarrow> ys ! i" if "i < length xs" for i
    using that assms(2,3) by (metis bit_word_of_bits)
  with assms(2) show ?thesis by (simp add: list_eq_iff_nth_eq)
qed

section \<open>Error detection\<close>

text \<open>An error confined to four bytes changes the CRC.\<close>

lemma bytes_bits_inj: "bytes_bits xs = bytes_bits ys \<Longrightarrow> xs = ys"
proof (induction xs arbitrary: ys)
  case Nil
  then show ?case by (cases ys) (auto dest!: arg_cong [of _ _ length])
next
  case (Cons x xs)
  then obtain y ys' where ys: "ys = y # ys'" by (cases ys) (auto dest!: arg_cong [of _ _ length])
  with Cons.prems have eq: "bits_lsb 8 x = bits_lsb 8 y" "bytes_bits xs = bytes_bits ys'" by simp_all
  have "bit x i = bit y i" if "i < 8" for i using arg_cong [OF eq(1), of "\<lambda>bs. bs ! i"] that by simp
  then have "x = y" by (intro bit_word_eqI) simp
  with Cons.IH [OF eq(2)] ys show ?case by simp
qed

lemma crc32_burst:
  assumes "length a = length b" "length a \<le> 4" "crc32 (p @ a @ s) = crc32 (p @ b @ s)"
  shows "a = b"
proof -
  let ?c = "crc_bits (NOT 0) (bytes_bits p)"
  have "crc_bits (crc_bits ?c (bytes_bits a)) (bytes_bits s) = crc_bits (crc_bits ?c (bytes_bits b)) (bytes_bits s)"
    using assms(3) by (simp add: crc32_def crc_bits_append)
  then have "crc_bits ?c (bytes_bits a) = crc_bits ?c (bytes_bits b)" by (rule crc_bits_inj)
  then have "bytes_bits a = bytes_bits b" by (rule crc_bits_inj_msg) (use assms(1,2) in simp_all)
  then show ?thesis by (rule bytes_bits_inj)
qed

section \<open>The table\<close>

definition crc_inv :: "crc_static \<Rightarrow> bool" where
  "crc_inv st \<longleftrightarrow> length (crc_table st) = 256 \<and>
     (crc_built st \<longrightarrow> (\<forall>i < 256. crc_table st ! i = (crc_shift ^^ 8) (of_nat i)))"

lemma crc_inv_init: "crc_inv crc_static_init"
  by (simp add: crc_inv_def crc_static_init_def)

lemma fold_crc_shift: "fold (\<lambda>k c. crc_shift c) [0..<n] c = (crc_shift ^^ n) c"
  by (induction n) simp_all

lemma crc_build_table_ok:
  assumes "length table = 256"
  shows "\<exists>t. crc_build_table table = Some t \<and> length t = 256 \<and>
    (\<forall>i < 256. t ! i = (crc_shift ^^ 8) (of_nat i))"
proof -
  let ?I = "\<lambda>k t. length t = 256 \<and> (\<forall>i < k. t ! i = (crc_shift ^^ 8) (of_nat i))"
  have "\<exists>t. crc_build_table table = Some t \<and> ?I 256 t"
    unfolding crc_build_table_def
    by (rule ofor_upt_rule [where I = ?I])
      (use assms in \<open>auto simp: fold_crc_shift less_Suc_eq\<close>)
  then show ?thesis by blast
qed

lemma crc_byte:
  "(crc_shift ^^ 8) (of_nat (unat ((c XOR ucast d) AND 0xFF))) XOR drop_bit 8 c =
     crc_bits c (bits_lsb 8 (d :: u8))"
proof -
  let ?x = "c XOR ucast d :: u32"
  have low: "?x AND 0xFF = take_bit 8 ?x" by (simp add: take_bit_eq_mask mask_eq_exp_minus_1)
  have "?x = take_bit 8 ?x XOR push_bit 8 (drop_bit 8 ?x)"
  proof (rule bit_word_eqI)
    fix n assume "n < LENGTH(32)"
    then show "bit ?x n = bit (take_bit 8 ?x XOR push_bit 8 (drop_bit 8 ?x)) n"
      by (cases "n < 8") (auto simp: bit_simps)
  qed
  then have "(crc_shift ^^ 8) ?x = (crc_shift ^^ 8) (take_bit 8 ?x) XOR (crc_shift ^^ 8) (push_bit 8 (drop_bit 8 ?x))"
    using crc_shifts_xor by metis
  also have "(crc_shift ^^ 8) (push_bit 8 (drop_bit 8 ?x)) = drop_bit 8 (push_bit 8 (drop_bit 8 ?x))"
    by (rule crc_shifts_zero) (simp add: bit_push_bit_iff del: drop_bit_xor push_bit_xor)
  also have "drop_bit 8 (push_bit 8 (drop_bit 8 ?x)) = drop_bit 8 c"
    by (rule bit_word_eqI) (auto simp: bit_simps dest: bit_imp_le_length)
  finally have "(crc_shift ^^ 8) (take_bit 8 ?x) XOR drop_bit 8 c = (crc_shift ^^ 8) ?x" by simp
  moreover have "word_of_bits (bits_lsb 8 d) = ucast d"
  proof (rule bit_word_eqI)
    fix n assume "n < LENGTH(32)"
    then show "bit (word_of_bits (bits_lsb 8 d)) n = bit (ucast d :: u32) n"
      by (cases "n < 8") (auto simp: bit_word_of_bits bit_simps dest: bit_imp_le_length)
  qed
  then have "crc_bits c (bits_lsb 8 d) = (crc_shift ^^ 8) ?x" by (simp add: crc_bits_word)
  ultimately show ?thesis by (simp add: low)
qed

lemma deflate_crc32_ok:
  assumes "crc_inv st"
  shows "\<exists>st'. deflate_crc32 st data = Some (crc32 data, st') \<and> crc_inv st' \<and> crc_built st'"
proof -
  obtain st' where st': "(if \<not> crc_built st
      then do { t \<leftarrow> crc_build_table (crc_table st); Some \<lparr>crc_table = t, crc_built = True\<rparr> }
      else Some st) = Some st'" "crc_inv st'" "crc_built st'"
    using crc_build_table_ok [of "crc_table st"] assms by (cases "crc_built st") (auto simp: crc_inv_def)
  have table: "length (crc_table st') = 256" "\<And>i. i < 256 \<Longrightarrow> crc_table st' ! i = (crc_shift ^^ 8) (of_nat i)"
    using st'(2,3) by (simp_all add: crc_inv_def)
  have index: "unat (x AND 0xFF) < 256" for x :: u32
  proof -
    have "x AND 0xFF = take_bit 8 x" by (simp add: take_bit_eq_mask mask_eq_exp_minus_1)
    then have "unat (x AND 0xFF) = unat x mod 256" by (simp only: unsigned_take_bit_eq) (simp add: take_bit_eq_mod)
    then show ?thesis by simp
  qed
  have loop: "ofor (\<lambda>d crc. do {
      t \<leftarrow> rd (crc_table st') (unat ((crc XOR ucast d) AND 0xFF)); Some (t XOR drop_bit 8 crc) }) data c =
    Some (crc_bits c (bytes_bits data))" for c
  proof (induction data arbitrary: c)
    case (Cons d data)
    have "crc_table st' ! unat ((c XOR ucast d) AND 0xFF) XOR drop_bit 8 c = crc_bits c (bits_lsb 8 d)"
      unfolding table(2) [OF index] by (rule crc_byte)
    with Cons index table(1) show ?case by (simp add: crc_bits_append)
  qed (simp add: crc_bits_def)
  have "(0xFFFFFFFF :: u32) = NOT 0" by simp
  moreover have "crc XOR NOT 0 = NOT crc" for crc :: u32
    by (rule bit_word_eqI) (simp add: bit_xor_iff bit_not_iff)
  ultimately have "crc XOR 0xFFFFFFFF = NOT crc" for crc :: u32 by (simp only:)
  moreover have ones: "(0xFFFFFFFF :: u32) = - 1" by simp
  have "crc_bits 0xFFFFFFFF bs = crc_bits (- 1) bs" for bs by (simp only: ones)
  ultimately show ?thesis using loop [of "0xFFFFFFFF"] st' by (simp add: deflate_crc32_def crc32_def)
qed

section \<open>The container\<close>

lemma put_le32_ok:
  assumes "pos + 4 \<le> length out"
  shows "put_le32 v out pos = Some (take pos out @ map (\<lambda>i. ucast (drop_bit (8 * i) v)) [0..<4] @
    drop (pos + 4) out, pos + 4)"
proof -
  have low: "ucast (x AND 0xFF) = (ucast x :: u8)" for x :: u32
  proof -
    have "x AND 0xFF = take_bit 8 x" by (simp add: take_bit_eq_mask mask_eq_exp_minus_1)
    then show ?thesis by (simp only:) (rule bit_word_eqI, simp add: bit_simps)
  qed
  let ?b = "\<lambda>i. ucast (drop_bit (8 * i) v) :: u8"
  let ?I = "\<lambda>k (o', q). q = pos + k \<and> o' = take pos out @ map ?b [0..<k] @ drop (pos + k) out"
  have "\<exists>s. put_le32 v out pos = Some s \<and> ?I 4 s"
    unfolding put_le32_def
  proof (rule ofor_upt_rule [where I = ?I])
    fix k s assume k: "0 \<le> k" "k < (4 :: nat)" and I: "?I k s"
    obtain o' q where s: "s = (o', q)" by (cases s)
    have o': "o' = take pos out @ map ?b [0..<k] @ drop (pos + k) out" "q = pos + k" using I by (simp_all add: s)
    have len: "length o' = length out" "pos + k < length out" using assms k(2) by (simp_all add: o')
    have "drop (pos + k) out = out ! (pos + k) # drop (pos + Suc k) out"
      using len(2) Cons_nth_drop_Suc [of "pos + k" out] by simp
    then have "o'[pos + k := ?b k] = take pos out @ map ?b [0..<Suc k] @ drop (pos + Suc k) out"
      using len(2) unfolding o' by (simp add: list_update_append)
    moreover have "shr32 v (8 * k) = Some (drop_bit (8 * k) v)" using k(2) by simp
    ultimately show "\<exists>s'. (\<lambda>i (out, pos). do { x \<leftarrow> shr32 v (8 * i);
         out \<leftarrow> wr out pos (ucast (x AND 0xFF)); Some (out, pos + 1) }) k s = Some s' \<and> ?I (Suc k) s'"
      using len by (simp add: s low o'(2))
  qed simp_all
  then show ?thesis by fastforce
qed

section \<open>Properties\<close>

text \<open>
  C33: In every state of its static table, built or not, \<open>deflate_crc32\<close> is defined on every
  input and returns the CRC of the bit-serial register with the reflected polynomial 0xEDB88320,
  fed with the message least significant bit first; afterwards the table is built and correct.
\<close>

theorem crc32_table_is_register:
  assumes "crc_inv st"
  shows "\<exists>st'. deflate_crc32 st data = Some (crc32 data, st') \<and> crc_inv st' \<and> crc_built st'"
  by (rule deflate_crc32_ok [OF assms])

theorem crc32_table_is_register_witness:
  "\<exists>st'. deflate_crc32 crc_static_init [0x61, 0x62] = Some (crc32 [0x61, 0x62], st') \<and> crc_inv st' \<and> crc_built st'"
  by (rule crc32_table_is_register [OF crc_inv_init])

text \<open>
  An error confined to four consecutive bytes, a burst of at most 32 bits, is detected: two
  different inputs that differ only there get different values from \<open>deflate_crc32\<close>.
\<close>

theorem crc32_detects_bursts:
  assumes "crc_inv st" "length a = length b" "length a \<le> 4" "a \<noteq> b"
  shows "map_option fst (deflate_crc32 st (p @ a @ s)) \<noteq> map_option fst (deflate_crc32 st (p @ b @ s))"
  using deflate_crc32_ok [OF assms(1), of "p @ a @ s"] deflate_crc32_ok [OF assms(1), of "p @ b @ s"]
    crc32_burst [OF assms(2,3), of p s] assms(4) by auto

theorem crc32_detects_bursts_witness:
  "map_option fst (deflate_crc32 crc_static_init [7, 1, 2, 3, 4, 9]) \<noteq>
   map_option fst (deflate_crc32 crc_static_init [7, 1, 2, 9, 4, 9])"
  using crc32_detects_bursts [OF crc_inv_init, of "[1, 2, 3, 4]" "[1, 2, 9, 4]" "[7]" "[9]"] by simp

text \<open>
  One flipped bit anywhere in the message is detected by the register.
\<close>

theorem crc32_detects_flip:
  assumes "bytes_bits data = p @ b # s" "bytes_bits data' = p @ (\<not> b) # s" "crc_inv st"
  shows "map_option fst (deflate_crc32 st data) \<noteq> map_option fst (deflate_crc32 st data')"
proof
  assume "map_option fst (deflate_crc32 st data) = map_option fst (deflate_crc32 st data')"
  then have "crc32 data = crc32 data'"
    using deflate_crc32_ok [OF assms(3), of data] deflate_crc32_ok [OF assms(3), of data'] by auto
  then have "foldl crc_step (NOT 0) (p @ b # s) = foldl crc_step (NOT 0) (p @ (\<not> b) # s)"
    by (simp add: crc32_def crc_bits_def assms(1,2))
  then show False using crc.single_error by blast
qed

theorem crc32_detects_flip_witness:
  "map_option fst (deflate_crc32 crc_static_init [3, 0]) \<noteq> map_option fst (deflate_crc32 crc_static_init [1, 0])"
proof -
  have "bytes_bits [3, 0] = [True] @ True # replicate 14 False"
    "bytes_bits [1, 0] = [True] @ (\<not> True) # replicate 14 False"
    by (simp_all add: bits_lsb_def upt_eval bit_0 numeral_eq_Suc)
  then show ?thesis using crc_inv_init by (rule crc32_detects_flip)
qed

end
