(* ===== verification/Deflate_Emit.thy ===== *)
theory Deflate_Emit
  imports Deflate
begin

text \<open>
  What the emitting functions of \<open>Deflate\<close> write, in the vocabulary of \<open>Stream_Spec\<close>: a token
  is an item, a block of tokens is a block of items, its cost is the length of its bits, and
  the stored loop writes a stream of stored blocks.
\<close>

section \<open>Tokens are items\<close>

definition token_item :: "token \<Rightarrow> item" where
  "token_item t =
     (if tk_length t = 0 then Literal (tk_literal t)
      else (let lc = length_to_code (tk_length t); dc = distance_to_code (tk_distance t) in
        Copy lc (tk_length t - LENGTH_BASE ! lc) dc (tk_distance t - DIST_BASE ! dc)))"

text \<open>The symbols a token uses.\<close>

definition lit_symbol :: "token \<Rightarrow> nat" where
  "lit_symbol t = (if tk_length t = 0 then unat (tk_literal t) else 257 + length_to_code (tk_length t))"

definition dist_symbols :: "token list \<Rightarrow> nat set" where
  "dist_symbols ts = {distance_to_code (tk_distance t) | t. t \<in> set ts \<and> tk_length t \<noteq> 0}"

lemma token_item_out:
  assumes "token_ok h t"
  shows "item_out h (token_item t) = token_out h t"
proof (cases "tk_length t = 0")
  case False
  with assms have "LENGTH_BASE ! length_to_code (tk_length t) \<le> tk_length t"
    "DIST_BASE ! distance_to_code (tk_distance t) \<le> tk_distance t"
    by (simp_all add: token_ok_def length_to_code_base distance_to_code_base)
  with False show ?thesis
    by (simp add: token_item_def token_out_def Let_def copy_length_def copy_distance_def)
qed (simp add: token_item_def token_out_def)

lemma items_out_tokens:
  "tokens_ok h ts \<Longrightarrow> items_out h (map token_item ts) = foldl token_out h ts"
  by (induction ts arbitrary: h) (simp_all add: token_item_out)

lemma token_item_ok:
  assumes "token_ok h t" "has_code lit (lit_symbol t)"
    "tk_length t \<noteq> 0 \<Longrightarrow> has_code dist (distance_to_code (tk_distance t))"
  shows "item_ok lit dist h (token_item t)"
proof (cases "tk_length t = 0")
  case True
  with assms(2) show ?thesis by (simp add: token_item_def lit_symbol_def)
next
  case False
  with assms(1) have t: "3 \<le> tk_length t" "tk_length t \<le> 258" "1 \<le> tk_distance t"
    "tk_distance t \<le> 32768" "tk_distance t \<le> length h" by (simp_all add: token_ok_def)
  note length_to_code_extra [OF t(1,2)] distance_to_code_extra [OF t(3,4)]
    distance_to_code_base [OF t(3)]
  with False assms(2,3) t(5) show ?thesis
    by (simp add: token_item_def lit_symbol_def Let_def copy_distance_def)
qed

lemma items_ok_tokens:
  assumes "tokens_ok h ts" "has_code lit 256" "\<forall>t \<in> set ts. has_code lit (lit_symbol t)"
    "\<forall>d \<in> dist_symbols ts. has_code dist d"
  shows "items_ok lit dist h (map token_item ts)"
  using assms
proof (induction ts arbitrary: h)
  case (Cons t ts)
  have "dist_symbols ts \<subseteq> dist_symbols (t # ts)" by (auto simp: dist_symbols_def)
  with Cons.prems(4) have "\<forall>d \<in> dist_symbols ts. has_code dist d" by blast
  with Cons have "items_ok lit dist (token_out h t) (map token_item ts)" by simp
  moreover have "item_ok lit dist h (token_item t)"
    by (rule token_item_ok) (use Cons.prems in \<open>auto simp: dist_symbols_def\<close>)
  ultimately show ?case using Cons.prems(1) by (simp add: token_item_out)
qed simp

section \<open>Symbols and fields\<close>

text \<open>The table of codes that belongs to a table of lengths.\<close>

definition codes_for :: "nat list \<Rightarrow> nat list \<Rightarrow> bool" where
  "codes_for codes ls \<longleftrightarrow> valid_lengths ls \<and>
     tabulates codes (length ls) (\<lambda>i. if ls ! i = 0 then 0 else code_of ls i)"

lemma assign_codes_for:
  assumes "valid_lengths ls" "length ls = n"
  obtains codes where "huff_assign_codes ls n = Some codes" "codes_for codes ls"
  using huff_assign_codes_ok [OF assms(1)] assms by (auto simp: codes_for_def)

lemma bits_lsb_of_nat:
  assumes "n \<le> 32"
  shows "bits_lsb n (of_nat v :: u32) = bits_lsb n v"
  by (rule bits_lsb_cong) (use assms in \<open>simp add: bit_of_nat_iff_bit bit_simps\<close>)

lemma bits_msb_of_nat: "n \<le> 32 \<Longrightarrow> bits_msb n (of_nat v :: u32) = bits_msb n v"
  by (simp add: bits_msb_def bits_lsb_of_nat)

lemma put_symbol_emits:
  assumes "codes_for codes ls" "i < length ls"
  shows "emits (put_symbol codes ls i) (code_bits ls i)"
proof -
  have l: "ls ! i \<le> 15" using assms valid_lengths_nth by (simp add: codes_for_def)
  have "emits (\<lambda>w. bw_code w (of_nat (codes ! i)) (ls ! i)) (bits_msb (ls ! i) (of_nat (codes ! i) :: u32))"
    by (rule bw_code_emits) (use l in simp)
  moreover have "bits_msb (ls ! i) (of_nat (codes ! i) :: u32) = code_bits ls i"
  proof (cases "ls ! i = 0")
    case True
    then show ?thesis by (simp add: code_bits_def bits_msb_def)
  next
    case False
    then have "codes ! i = code_of ls i" using assms by (simp add: codes_for_def tabulates_def)
    with l show ?thesis by (simp add: code_bits_def bits_msb_of_nat)
  qed
  moreover have "put_symbol codes ls i = (\<lambda>w. bw_code w (of_nat (codes ! i)) (ls ! i))"
    using assms by (intro ext) (simp add: put_symbol_def codes_for_def tabulates_def)
  ultimately show ?thesis by simp
qed

lemma put_field_emits: "n \<le> 24 \<Longrightarrow> emits (\<lambda>w. bw_bits w (of_nat v) n) (bits_lsb n v)"
  using bw_bits_emits [of n "of_nat v"] by (simp add: bits_lsb_of_nat)

lemma put_extra_emits: "n \<le> 24 \<Longrightarrow> emits (put_extra n base v) (bits_lsb n (v - base))"
proof -
  assume n: "n \<le> 24"
  show ?thesis
  proof (cases "n = 0")
    case True
    have "put_extra n base v = Some" by (rule ext) (simp add: put_extra_def True)
    then show ?thesis using True emits_skip by simp
  next
    case False
    then have "put_extra n base v = (\<lambda>w. bw_bits w (of_nat (v - base)) n)"
      by (intro ext) (simp add: put_extra_def)
    then show ?thesis using put_field_emits [OF n] by simp
  qed
qed

lemma emit_token_emits:
  assumes lit: "codes_for lc lit" "length lit = 286" and dist: "codes_for dc dist" "length dist = 30"
  shows "emits (emit_token lit lc dist dc t) (item_bits lit dist (token_item t))"
proof (cases "tk_length t = 0")
  case True
  have "unat (tk_literal t) < 286" using unat_u8_less [of "tk_literal t"] by simp
  then have "emits (put_symbol lc lit (unat (tk_literal t))) (code_bits lit (unat (tk_literal t)))"
    using put_symbol_emits [OF lit(1)] lit(2) by simp
  moreover have "emit_token lit lc dist dc t = put_symbol lc lit (unat (tk_literal t))"
    by (rule ext) (simp add: emit_token_def True)
  ultimately show ?thesis by (simp add: token_item_def True)
next
  case False
  let ?l = "length_to_code (tk_length t)" and ?d = "distance_to_code (tk_distance t)"
  have less: "?l < 29" "?d < 30" by simp_all
  have "emits (put_symbol lc lit (257 + ?l)) (code_bits lit (257 + ?l))"
    "emits (put_symbol dc dist ?d) (code_bits dist ?d)"
    using put_symbol_emits [OF lit(1)] put_symbol_emits [OF dist(1)] lit(2) dist(2) less by simp_all
  moreover have "emits (put_extra (LENGTH_EXTRA ! ?l) (LENGTH_BASE ! ?l) (tk_length t))
      (bits_lsb (LENGTH_EXTRA ! ?l) (tk_length t - LENGTH_BASE ! ?l))"
    using length_extra_le [OF less(1)] by (intro put_extra_emits) simp
  moreover have "emits (put_extra (DIST_EXTRA ! ?d) (DIST_BASE ! ?d) (tk_distance t))
      (bits_lsb (DIST_EXTRA ! ?d) (tk_distance t - DIST_BASE ! ?d))"
    using dist_extra_le [OF less(2)] by (intro put_extra_emits) simp
  ultimately have "emits (\<lambda>w. put_symbol lc lit (257 + ?l) w \<bind> (\<lambda>w.
      put_extra (LENGTH_EXTRA ! ?l) (LENGTH_BASE ! ?l) (tk_length t) w \<bind> (\<lambda>w.
      put_symbol dc dist ?d w \<bind> put_extra (DIST_EXTRA ! ?d) (DIST_BASE ! ?d) (tk_distance t))))
      (item_bits lit dist (token_item t))"
    using False by (simp add: token_item_def Let_def emits_bind)
  moreover have "emit_token lit lc dist dc t = (\<lambda>w. put_symbol lc lit (257 + ?l) w \<bind> (\<lambda>w.
      put_extra (LENGTH_EXTRA ! ?l) (LENGTH_BASE ! ?l) (tk_length t) w \<bind> (\<lambda>w.
      put_symbol dc dist ?d w \<bind> put_extra (DIST_EXTRA ! ?d) (DIST_BASE ! ?d) (tk_distance t))))"
    using False less by (intro ext) (simp add: emit_token_def Let_def)
  ultimately show ?thesis by simp
qed

lemma items_bits_map:
  "items_bits lit dist (map token_item ts) =
     concat (map (\<lambda>t. item_bits lit dist (token_item t)) ts) @ code_bits lit 256"
  by (induction ts) simp_all

lemma emit_tokens_emits:
  assumes "codes_for lc lit" "length lit = 286" "codes_for dc dist" "length dist = 30"
  shows "emits (emit_tokens ts lit lc dist dc) (items_bits lit dist (map token_item ts))"
proof -
  have "emits (ofor (emit_token lit lc dist dc) ts)
      (concat (map (\<lambda>t. item_bits lit dist (token_item t)) ts))"
    by (rule emits_ofor) (rule emit_token_emits [OF assms])
  moreover have "emits (put_symbol lc lit 256) (code_bits lit 256)"
    by (rule put_symbol_emits [OF assms(1)]) (simp add: assms(2))
  ultimately have "emits (\<lambda>w. ofor (emit_token lit lc dist dc) ts w \<bind> put_symbol lc lit 256)
      (items_bits lit dist (map token_item ts))"
    unfolding items_bits_map by (rule emits_bind)
  moreover have "emit_tokens ts lit lc dist dc =
      (\<lambda>w. ofor (emit_token lit lc dist dc) ts w \<bind> put_symbol lc lit 256)"
    by (rule ext) (simp add: emit_tokens_def)
  ultimately show ?thesis by simp
qed

text \<open>The cost function is the number of bits.\<close>

lemma length_code_bits [simp]: "length (code_bits ls i) = ls ! i"
  by (simp add: code_bits_def)

lemma token_bits_ok:
  assumes "length lit = 286" "length dist = 30"
  shows "token_bits ts lit dist = Some (length (items_bits lit dist (map token_item ts)))"
proof -
  let ?f = "\<lambda>t bits. if tk_length t = 0
      then do { l \<leftarrow> rd lit (unat (tk_literal t)); Some (bits + l) }
      else do {
        let lc = length_to_code (tk_length t);
        let dc = distance_to_code (tk_distance t);
        l \<leftarrow> rd lit (257 + lc); x \<leftarrow> rd LENGTH_EXTRA lc;
        d \<leftarrow> rd dist dc; y \<leftarrow> rd DIST_EXTRA dc;
        Some (bits + (l + x) + (d + y)) }"
  have step: "?f t n = Some (n + length (item_bits lit dist (token_item t)))" for t n
  proof (cases "tk_length t = 0")
    case True
    have "unat (tk_literal t) < 286" using unat_u8_less [of "tk_literal t"] by simp
    with True assms show ?thesis by (simp add: token_item_def)
  next
    case False
    have "length_to_code (tk_length t) < 29" "distance_to_code (tk_distance t) < 30" by simp_all
    with False assms show ?thesis by (simp add: token_item_def Let_def)
  qed
  have "ofor ?f ts n = Some (n + length (concat (map (\<lambda>t. item_bits lit dist (token_item t)) ts)))" for n
    by (induction ts arbitrary: n) (simp_all add: step)
  then show ?thesis using assms(1) by (simp add: token_bits_def items_bits_map)
qed

section \<open>Stored blocks\<close>

lemma stored_len_field:
  assumes "n < 65536"
  shows "bits_lsb 16 (of_nat n AND 0xFFFF :: u32) = bits_lsb 16 n"
    and "bits_lsb 16 (NOT (of_nat n) AND 0xFFFF :: u32) = bits_lsb 16 (65535 - n)"
proof -
  have mask: "v AND 0xFFFF = take_bit 16 v" for v :: u32
    by (simp add: take_bit_eq_mask mask_eq_exp_minus_1)
  have self: "take_bit 16 (of_nat n :: u32) = of_nat n"
    using assms by (simp add: take_bit_eq_mod word_unat_eq_iff unat_mod unat_of_nat)
  then show "bits_lsb 16 (of_nat n AND 0xFFFF :: u32) = bits_lsb 16 n"
    by (simp add: mask bits_lsb_of_nat)
  have "take_bit 16 (NOT (of_nat n :: u32)) = mask 16 - take_bit 16 (of_nat n)"
    by (simp add: take_bit_not_eq_mask_diff)
  also have "\<dots> = of_nat (65535 - n)" using assms by (simp add: self mask_eq_exp_minus_1 of_nat_diff)
  finally show "bits_lsb 16 (NOT (of_nat n) AND 0xFFFF :: u32) = bits_lsb 16 (65535 - n)"
    by (simp add: mask bits_lsb_of_nat)
qed

lemma length_block_Stored:
  "length (block_bits (Stored pad bs)) = 34 + length pad + 8 * length bs"
  by simp

lemma emit_stored_ok:
  assumes ok: "bw_ok w" and bs: "length bs < 65536"
    and room: "length (w_stream w) + 35 + length (pad_bits (length (w_stream w) + 3)) + 8 * length bs
      \<le> 8 * w_cap w"
  shows "\<exists>w'. emit_stored bs final w = Some w' \<and> bw_ok w' \<and> same_buffer w w' \<and>
    w_stream w' = w_stream w @ final # block_bits (Stored (pad_bits (length (w_stream w) + 3)) bs)"
proof -
  let ?n = "length (w_stream w)"
  let ?hdr = "\<lambda>w. bw_bits w (if final then 1 else 0) 1 \<bind> (\<lambda>w. bw_bits w 0 2)"
  let ?body = "\<lambda>w. bw_bits w (of_nat (length bs) AND 0xFFFF) 16 \<bind> (\<lambda>w.
    bw_bits w (NOT (of_nat (length bs)) AND 0xFFFF) 16 \<bind> ofor (\<lambda>b w. bw_bits w (ucast b) 8) bs)"
  have final: "bits_lsb 1 (if final then 1 else 0 :: u32) = [final]" by (simp add: bits_lsb_def bit_0)
  have "emits (\<lambda>w. bw_bits w (if final then 1 else 0) 1) [final]"
    using bw_bits_emits [of 1 "if final then 1 else 0"] by (simp only: final)
  moreover have "emits (\<lambda>w. bw_bits w 0 2) (bits_lsb 2 (0 :: u32))" by (rule bw_bits_emits) simp
  ultimately have "emits ?hdr ([final] @ bits_lsb 2 (0 :: u32))" by (rule emits_bind)
  moreover have "?n + length ([final] @ bits_lsb 2 (0 :: u32)) \<le> 8 * w_cap w" using room by simp
  ultimately obtain w1 where w1: "?hdr w = Some w1" "bw_ok w1" "same_buffer w w1"
    "w_stream w1 = w_stream w @ [final] @ bits_lsb 2 (0 :: u32)" using ok by (blast elim: emitsD)
  have len1: "length (w_stream w1) = ?n + 3" using w1(4) by (simp only: length_append length_bits_lsb) simp
  have cap1: "w_cap w1 = w_cap w" using w1(3) by (simp add: same_buffer_def)
  from bw_align_ok [OF w1(2)] len1 cap1 room obtain w2 where w2: "bw_align w1 = Some w2" "bw_ok w2"
    "same_buffer w1 w2" "w_stream w2 = w_stream w1 @ pad_bits (?n + 3)" by auto
  have "bits_lsb 8 (ucast b :: u32) = bits_lsb 8 b" for b :: u8
    by (rule bits_lsb_cong) (simp add: bit_simps)
  then have "emits (\<lambda>w. bw_bits w (ucast b) 8) (bits_lsb 8 b)" for b :: u8
    using bw_bits_emits [of 8 "ucast b"] by simp
  then have "emits (ofor (\<lambda>b w. bw_bits w (ucast b) 8) bs) (bytes_bits bs)"
    unfolding bytes_bits_def by (intro emits_ofor)
  moreover have "emits (\<lambda>w. bw_bits w (of_nat (length bs) AND 0xFFFF) 16) (bits_lsb 16 (length bs))"
    "emits (\<lambda>w. bw_bits w (NOT (of_nat (length bs)) AND 0xFFFF) 16) (bits_lsb 16 (65535 - length bs))"
    using bw_bits_emits [of 16 "of_nat (length bs) AND 0xFFFF"]
      bw_bits_emits [of 16 "NOT (of_nat (length bs)) AND 0xFFFF"]
    by (simp_all add: stored_len_field [OF bs])
  ultimately have "emits ?body (bits_lsb 16 (length bs) @ bits_lsb 16 (65535 - length bs) @ bytes_bits bs)"
    by (intro emits_bind)
  moreover have "length (w_stream w2) + length (bits_lsb 16 (length bs) @
      bits_lsb 16 (65535 - length bs) @ bytes_bits bs) \<le> 8 * w_cap w2"
    using room len1 cap1 w2(3,4) by (simp add: same_buffer_def)
  ultimately obtain w3 where w3: "?body w2 = Some w3" "bw_ok w3" "same_buffer w2 w3"
    "w_stream w3 = w_stream w2 @ bits_lsb 16 (length bs) @ bits_lsb 16 (65535 - length bs) @ bytes_bits bs"
    using w2(2) by (blast elim: emitsD)
  have "emit_stored bs final w = Some w3"
    using w1(1) w2(1) w3(1) by (simp add: emit_stored_def bind_assoc [symmetric] del: bind_assoc)
  moreover have "bits_lsb 2 (0 :: u32) = bits_lsb 2 (0 :: nat)"
    by (rule bits_lsb_cong) simp
  then have "w_stream w3 = w_stream w @ final # block_bits (Stored (pad_bits (?n + 3)) bs)"
    unfolding w3(4) w2(4) w1(4) by simp
  moreover have "same_buffer w w3"
    using same_buffer_trans [OF same_buffer_trans [OF w1(3) w2(3)] w3(3)] .
  ultimately show ?thesis using w3(2) by blast
qed

text \<open>The number of stored blocks the loop writes for \<open>n\<close> bytes.\<close>

definition stored_blocks :: "nat \<Rightarrow> nat" where
  "stored_blocks n = (n + 65534) div 65535"

lemma stored_blocks_step:
  assumes "0 < n"
  shows "stored_blocks n = Suc (stored_blocks (n - min n 65535))"
proof (cases "n \<le> 65535")
  case True
  have "n + 65534 = 65535 + (n - 1)" using assms by simp
  then have "stored_blocks n = Suc ((n - 1) div 65535)" unfolding stored_blocks_def by (metis div_add_self1 add.commute plus_1_eq_Suc zero_neq_numeral)
  with True assms show ?thesis by (simp add: stored_blocks_def)
next
  case False
  then have "n + 65534 = 65535 + (n - 65535 + 65534)" by simp
  then have "stored_blocks n = Suc ((n - 65535 + 65534) div 65535)" unfolding stored_blocks_def
    by (metis div_add_self1 add.commute plus_1_eq_Suc zero_neq_numeral)
  with False show ?thesis by (simp add: stored_blocks_def)
qed

lemma pad_bits_mod: "n mod 8 = 0 \<Longrightarrow> length (pad_bits (n + 3)) = 5"
proof -
  assume "n mod 8 = 0"
  then have "(n + 3) mod 8 = 3" by presburger
  then show ?thesis by (simp add: pad_bits_def)
qed

lemma emit_stored_blocks_ok:
  assumes "bw_ok w" "length (w_stream w) mod 8 = 0" "pos < length inp"
    and "length (w_stream w) + 40 * stored_blocks (length inp - pos) + 8 * (length inp - pos) \<le> 8 * w_cap w"
  shows "\<exists>w' bs. emit_stored_blocks inp pos w = Some w' \<and> bw_ok w' \<and> same_buffer w w' \<and>
    w_stream w' = w_stream w @ stream_bits bs \<and> stream_ok (length (w_stream w)) h bs \<and>
    stream_out h bs = h @ drop pos inp \<and> list_all tight bs \<and>
    length (stream_bits bs) = 40 * stored_blocks (length inp - pos) + 8 * (length inp - pos)"
  using assms
proof (induction "length inp - pos" arbitrary: pos w h rule: less_induct)
  case less
  let ?n = "length (w_stream w)" and ?k = "min (length inp - pos) 65535"
  let ?chunk = "take ?k (drop pos inp)" and ?final = "pos + ?k \<ge> length inp"
  let ?b = "Stored (pad_bits (?n + 3)) ?chunk"
  have k: "(if length inp - pos > 65535 then 65535 else length inp - pos) = ?k" by simp
  have chunk: "length ?chunk = ?k" "?k < 65536" using less.prems(3) by auto
  have pad: "length (pad_bits (?n + 3)) = 5" by (rule pad_bits_mod [OF less.prems(2)])
  have blocks: "stored_blocks (length inp - pos) = Suc (stored_blocks (length inp - pos - ?k))"
    using less.prems(3) by (intro stored_blocks_step) simp
  have "?n + 35 + length (pad_bits (?n + 3)) + 8 * length ?chunk \<le> 8 * w_cap w"
  proof -
    have "?k \<le> length inp - pos" by simp
    then show ?thesis using less.prems(4) blocks unfolding chunk(1) pad by linarith
  qed
  from emit_stored_ok [OF less.prems(1) _ this, of ?final] chunk obtain w1 where
    w1: "emit_stored ?chunk ?final w = Some w1" "bw_ok w1" "same_buffer w w1"
      "w_stream w1 = w_stream w @ ?final # block_bits ?b" by auto
  have len_b: "Suc (length (block_bits ?b)) = 40 + 8 * ?k" using pad chunk(1) by simp
  have "(Suc ?n + 2 + length (pad_bits (?n + 3))) mod 8 = 0" using less.prems(2) pad by presburger
  then have ok_b: "block_ok (Suc ?n) h ?b" using pad chunk by simp
  show ?case
  proof (cases ?final)
    case True
    then have "pos + ?k = length inp" using less.prems(3) by simp
    moreover from this have "drop pos inp = ?chunk" by simp
    moreover have "emit_stored_blocks inp pos w = Some w1"
      using less.prems(3) w1(1) \<open>pos + ?k = length inp\<close> True
      by (subst emit_stored_blocks.simps) (simp only: k Let_def if_True option.case, simp add: emit_stored_blocks.simps)
    ultimately show ?thesis
      using w1 ok_b len_b blocks True
      by (intro exI [of _ w1] exI [of _ "[?b]"]) (auto simp: stored_blocks_def)
  next
    case False
    let ?h = "h @ ?chunk" and ?pos = "pos + ?k" and ?n1 = "length (w_stream w1)"
    have pos1: "?pos < length inp" using False by simp
    then have k_eq: "?k = 65535" by simp
    have n1: "?n1 = ?n + 40 + 8 * ?k" using w1(4) len_b by simp
    have aligned: "?n1 mod 8 = 0" using n1 less.prems(2) by presburger
    have rest: "length inp - ?pos = length inp - pos - ?k" by simp
    have small: "length inp - ?pos < length inp - pos" using pos1 k_eq by simp
    have "w_cap w1 = w_cap w" using w1(3) by (simp add: same_buffer_def)
    moreover have "?k \<le> length inp - pos" by simp
    ultimately have room: "?n1 + 40 * stored_blocks (length inp - ?pos) + 8 * (length inp - ?pos)
        \<le> 8 * w_cap w1"
      using less.prems(4) blocks n1 unfolding rest by linarith
    from less.hyps [OF small w1(2) aligned pos1 room, of ?h] obtain w2 bs where
      w2: "emit_stored_blocks inp ?pos w1 = Some w2" "bw_ok w2"
      "same_buffer w1 w2" "w_stream w2 = w_stream w1 @ stream_bits bs" "stream_ok ?n1 ?h bs"
      "stream_out ?h bs = ?h @ drop ?pos inp" "list_all tight bs"
      "length (stream_bits bs) = 40 * stored_blocks (length inp - ?pos) + 8 * (length inp - ?pos)"
      by blast
    have "bs \<noteq> []" using w2(5) by auto
    have "emit_stored_blocks inp pos w = Some w2"
      using less.prems(3) w1(1) w2(1)
      by (subst emit_stored_blocks.simps) (simp only: k Let_def if_True option.case)
    moreover have "same_buffer w w2" using w1(3) w2(3) by (rule same_buffer_trans)
    moreover have "w_stream w2 = w_stream w @ stream_bits (?b # bs)"
      using w1(4) w2(4) False \<open>bs \<noteq> []\<close> by simp
    moreover have "Suc ?n + length (block_bits ?b) = ?n1" using n1 len_b by simp
    then have "stream_ok ?n h (?b # bs)" using ok_b w2(5) by (simp del: block_bits.simps)
    moreover have "stream_out h (?b # bs) = h @ drop pos inp"
    proof -
      have "drop ?k (drop pos inp) = drop ?pos inp" by (simp only: drop_drop add.commute)
      then have "?chunk @ drop ?pos inp = drop pos inp"
        using append_take_drop_id [of ?k "drop pos inp"] by (simp only:)
      then have "h @ ?chunk @ drop ?pos inp = h @ drop pos inp" by (simp only:)
      then show ?thesis using w2(6) by (simp del: take_drop append_same_eq)
    qed
    moreover have "list_all tight (?b # bs)" using w2(7) by simp
    moreover have "length (stream_bits (?b # bs)) =
        40 * stored_blocks (length inp - pos) + 8 * (length inp - pos)"
      using w2(8) len_b blocks pos1 k_eq by simp
    ultimately show ?thesis using w2(2) by blast
  qed
qed

section \<open>Properties\<close>

text \<open>
  The cost the encoder compares is exact: for legal tables, \<open>token_bits\<close> is the number of bits
  \<open>emit_tokens\<close> appends to any writer with room for them, end-of-block symbol included.
\<close>

theorem token_bits_exact:
  assumes "codes_for lc lit" "length lit = 286" "codes_for dc dist" "length dist = 30"
  shows "\<exists>k. token_bits ts lit dist = Some k \<and>
    (\<forall>w. bw_ok w \<and> length (w_stream w) + k \<le> 8 * w_cap w \<longrightarrow>
      (\<exists>w'. emit_tokens ts lit lc dist dc w = Some w' \<and> bw_ok w' \<and>
        length (w_stream w') = length (w_stream w) + k))"
proof -
  let ?bits = "items_bits lit dist (map token_item ts)"
  have "\<exists>w'. emit_tokens ts lit lc dist dc w = Some w' \<and> bw_ok w' \<and>
      length (w_stream w') = length (w_stream w) + length ?bits"
    if "bw_ok w" "length (w_stream w) + length ?bits \<le> 8 * w_cap w" for w
  proof -
    from emitsD [OF emit_tokens_emits [OF assms] that] obtain w' where
      "emit_tokens ts lit lc dist dc w = Some w'" "bw_ok w'" "w_stream w' = w_stream w @ ?bits" by blast
    then show ?thesis by (auto simp del: length_w_stream)
  qed
  with token_bits_ok [OF assms(2,4)] show ?thesis by blast
qed

theorem token_bits_exact_witness:
  "\<exists>lc dc k. token_bits [\<lparr>tk_length = 0, tk_distance = 0, tk_literal = 65\<rparr>] fixed_lit_lengths fixed_dist_lengths = Some k \<and>
    (\<forall>w. bw_ok w \<and> length (w_stream w) + k \<le> 8 * w_cap w \<longrightarrow>
      (\<exists>w'. emit_tokens [\<lparr>tk_length = 0, tk_distance = 0, tk_literal = 65\<rparr>] fixed_lit_lengths lc fixed_dist_lengths dc w = Some w' \<and>
        bw_ok w' \<and> length (w_stream w') = length (w_stream w) + k))"
proof -
  obtain lc where lc: "codes_for lc fixed_lit_lengths"
    using assign_codes_for [OF valid_fixed_lengths(1) length_fixed_lengths(1)] .
  obtain dc where dc: "codes_for dc fixed_dist_lengths"
    using assign_codes_for [OF valid_fixed_lengths(2) length_fixed_lengths(2)] .
  from token_bits_exact [OF lc length_fixed_lengths(1) dc length_fixed_lengths(2)] show ?thesis by blast
qed

end
