(* ===== verification/Deflate_Count.thy ===== *)
theory Deflate_Count
  imports Deflate_Emit
begin

text \<open>
  The symbol counts of the encoder: a table that counts a list of symbols, what the Huffman
  construction needs to know of it, and \<open>count_symbols\<close> with the symbols the tokens use.
\<close>

section \<open>Tables that count\<close>

definition counts :: "nat \<Rightarrow> nat list \<Rightarrow> nat list \<Rightarrow> bool" where
  "counts k xs freqs \<longleftrightarrow> tabulates freqs k (count_list xs)"

lemma counts_init: "counts k [] (replicate k 0)"
  by (simp add: counts_def tabulates_def)

lemma bump_ok:
  assumes "counts k xs freqs" "i < k" "Suc (length xs) < 2 ^ 32"
  shows "\<exists>freqs'. bump freqs i = Some freqs' \<and> counts k (xs @ [i]) freqs'"
proof -
  have "count_list xs i \<le> length xs" by (rule count_le_length)
  with assms(3) have "count_list xs i + 1 < 2 ^ 32" by linarith
  then have "(count_list xs i + 1) mod 2 ^ 32 = count_list xs i + 1" by (rule mod_less)
  with assms show ?thesis
    by (auto simp: bump_def counts_def tabulates_def nth_list_update)
qed

lemma bump_all_ok:
  assumes "counts k xs freqs" "\<forall>c \<in> set cs. fst c < k" "length xs + length cs < 2 ^ 32"
  shows "\<exists>freqs'. ofor (\<lambda>(s, x) f. bump f s) cs freqs = Some freqs' \<and> counts k (xs @ map fst cs) freqs'"
  using assms
proof (induction cs arbitrary: xs freqs)
  case (Cons c cs)
  obtain s x where c: "c = (s, x)" by (cases c)
  have "s < k" "Suc (length xs) < 2 ^ 32" using Cons.prems(2,3) by (simp_all add: c)
  from bump_ok [OF Cons.prems(1) this] obtain f where
    f: "bump freqs s = Some f" "counts k (xs @ [s]) f" by blast
  from Cons.IH [OF f(2)] Cons.prems(2,3) obtain g where
    "ofor (\<lambda>(s, x) f. bump f s) cs f = Some g" "counts k ((xs @ [s]) @ map fst cs) g" by auto
  with f(1) show ?case by (simp add: c)
qed simp

lemma counts_length: "counts k xs freqs \<Longrightarrow> length freqs = k"
  by (simp add: counts_def tabulates_def)

lemma counts_used: "counts k xs freqs \<Longrightarrow> i < k \<Longrightarrow> freqs ! i \<noteq> 0 \<longleftrightarrow> i \<in> set xs"
  by (simp add: counts_def tabulates_def count_list_0_iff)

lemma counts_sum:
  assumes "counts k xs freqs" "\<forall>x \<in> set xs. x < k"
  shows "sum_list freqs = length xs"
proof -
  have "sum_list freqs = (\<Sum>i<k. count_list xs i)"
    using assms(1) by (simp add: counts_def tabulates_def sum_list_sum_nth atLeast0LessThan)
  also have "\<dots> = length xs" using assms(2)
  proof (induction xs)
    case (Cons x xs)
    have "(\<Sum>i<k. count_list (x # xs) i) = (\<Sum>i<k. (if i = x then 1 else 0) + count_list xs i)"
      by (rule sum.cong) auto
    also have "\<dots> = 1 + (\<Sum>i<k. count_list xs i)"
      using Cons.prems by (simp add: sum.distrib)
    finally show ?case using Cons by simp
  qed simp
  finally show ?thesis .
qed

lemma counts_card:
  assumes "counts k xs freqs" "\<forall>x \<in> set xs. x < k"
  shows "length (used_freqs freqs) = card (set xs)"
proof -
  have "set (used_list freqs) = set xs"
    using assms counts_used [OF assms(1)] counts_length [OF assms(1)] by (auto simp: set_used_list)
  then show ?thesis using distinct_card [OF distinct_used_list [of freqs]] by simp
qed

text \<open>Lengths built for such a table: a symbol has a code exactly if it occurs.\<close>

lemma fibo_15: "fibo 18 = 2584" and fibo_7: "fibo 10 = 55"
  by (simp_all add: eval_nat_numeral)

lemma counts_lengths_ok:
  assumes c: "counts k xs freqs" "\<forall>x \<in> set xs. x < k" and k: "k \<le> 286" "length xs < 2 ^ 32"
    and two: "2 \<le> card (set xs)" and limit: "k < fibo (limit + 3)" "limit \<le> 15"
  shows "\<exists>ls. huff_build_lengths freqs k limit = Some ls \<and> length ls = k \<and> valid_lengths ls \<and>
    kraft 15 ls = 2 ^ 15 \<and> (\<forall>l \<in> set ls. l \<le> limit) \<and> (\<forall>i. has_code ls i \<longleftrightarrow> i \<in> set xs)"
proof -
  have len: "length freqs = k" by (rule counts_length [OF c(1)])
  have "\<exists>ls. huff_build_lengths freqs (length freqs) limit = Some ls \<and> good_lengths freqs limit ls"
    by (rule huff_build_lengths_ok)
      (use len k two limit counts_sum [OF c] counts_card [OF c] in simp_all)
  then obtain ls where ls: "huff_build_lengths freqs k limit = Some ls" "good_lengths freqs limit ls"
    using len by auto
  then have good: "length ls = k" "\<forall>l \<in> set ls. l \<le> limit" "kraft limit ls = 2 ^ limit"
    "\<And>i. i < k \<Longrightarrow> ls ! i = 0 \<longleftrightarrow> freqs ! i = 0" using len by (auto simp: good_lengths_def)
  have "kraft 15 ls = 2 ^ (15 - limit) * 2 ^ limit"
    using kraft_scale [OF good(2) limit(2)] good(3) by simp
  also have "\<dots> = 2 ^ 15" using limit(2) by (simp flip: power_add)
  finally have "valid_lengths ls" using good(1,2) k(1) limit(2) by (auto simp: valid_lengths_def)
  moreover have "has_code ls i \<longleftrightarrow> i \<in> set xs" for i
  proof (cases "i < k")
    case True
    with good(4) [OF True] counts_used [OF c(1) True] good(1) show ?thesis by (simp add: has_code_def)
  qed (use c(2) good(1) in \<open>auto simp: has_code_def\<close>)
  moreover have "kraft 15 ls = 2 ^ 15" using \<open>kraft 15 ls = _ * _\<close> \<open>_ = 2 ^ 15\<close> by simp
  ultimately show ?thesis using ls(1) good(1,2) by blast
qed

section \<open>The symbols of the tokens\<close>

definition lit_symbols :: "token list \<Rightarrow> nat list" where
  "lit_symbols ts = map lit_symbol ts @ [256]"

definition dist_list :: "token list \<Rightarrow> nat list" where
  "dist_list ts = map (distance_to_code \<circ> tk_distance) (filter (\<lambda>t. tk_length t \<noteq> 0) ts)"

lemma set_dist_list: "set (dist_list ts) = dist_symbols ts"
  by (auto simp: dist_list_def dist_symbols_def)

lemma lit_symbol_less: "lit_symbol t < 286"
  using unat_u8_less [of "tk_literal t"] length_to_code_less [of "tk_length t"]
  by (simp add: lit_symbol_def)

lemma lit_symbols_less: "\<forall>x \<in> set (lit_symbols ts). x < 286"
  by (auto simp: lit_symbols_def lit_symbol_less)

lemma dist_list_less: "\<forall>x \<in> set (dist_list ts). x < 30"
  by (auto simp: dist_list_def)

lemma length_dist_list: "length (dist_list ts) \<le> length ts"
  by (simp add: dist_list_def)

lemma count_symbols_ok:
  assumes "Suc (length ts) < 2 ^ 32"
  shows "\<exists>lit dist. count_symbols ts = Some (lit, dist) \<and> counts 286 (lit_symbols ts) lit \<and>
    counts 30 (dist_list ts) dist"
proof -
  let ?f = "\<lambda>t (lit, dist).
    if tk_length t = 0 then do { lit \<leftarrow> bump lit (unat (tk_literal t)); Some (lit, dist) }
    else do {
      lit \<leftarrow> bump lit (257 + length_to_code (tk_length t));
      dist \<leftarrow> bump dist (distance_to_code (tk_distance t));
      Some (lit, dist) }"
  let ?I = "\<lambda>rest (lit, dist). \<exists>us. ts = us @ rest \<and> counts 286 (map lit_symbol us) lit \<and>
    counts 30 (dist_list us) dist"
  have "\<exists>s. ofor ?f ts (replicate 286 0, replicate 30 0) = Some s \<and> ?I [] s"
  proof (rule ofor_rule [where I = ?I])
    show "?I ts (replicate 286 0, replicate 30 0)" by (simp add: counts_init dist_list_def)
  next
    fix t rest and s :: "nat list \<times> nat list"
    obtain lit dist where s: "s = (lit, dist)" by (cases s)
    assume "?I (t # rest) s"
    then obtain us where us: "ts = us @ t # rest" "counts 286 (map lit_symbol us) lit"
      "counts 30 (dist_list us) dist" by (auto simp: s)
    then have small: "Suc (length us) < 2 ^ 32" using assms by simp
    have "Suc (length (map lit_symbol us)) < 2 ^ 32" using small by simp
    from bump_ok [OF us(2) lit_symbol_less this] obtain lit' where
      lit': "bump lit (lit_symbol t) = Some lit'" "counts 286 (map lit_symbol (us @ [t])) lit'" by fastforce
    show "\<exists>s'. ?f t s = Some s' \<and> ?I rest s'"
    proof (cases "tk_length t = 0")
      case True
      with us lit' show ?thesis
        by (intro exI [of _ "(lit', dist)"])
          (auto simp: s lit_symbol_def dist_list_def intro!: exI [of _ "us @ [t]"])
    next
      case False
      have "Suc (length (dist_list us)) < 2 ^ 32" using small length_dist_list [of us] by linarith
      from bump_ok [OF us(3) distance_to_code_less this] obtain dist' where
        "bump dist (distance_to_code (tk_distance t)) = Some dist'"
        "counts 30 (dist_list us @ [distance_to_code (tk_distance t)]) dist'" by blast
      with False us lit' show ?thesis
        by (intro exI [of _ "(lit', dist')"])
          (auto simp: s lit_symbol_def dist_list_def intro!: exI [of _ "us @ [t]"])
    qed
  qed
  then obtain lit dist where loop: "ofor ?f ts (replicate 286 0, replicate 30 0) = Some (lit, dist)"
    "counts 286 (map lit_symbol ts) lit" "counts 30 (dist_list ts) dist" by auto
  have "Suc (length (map lit_symbol ts)) < 2 ^ 32" using assms by simp
  from bump_ok [OF loop(2) _ this, of 256] obtain lit' where
    "bump lit 256 = Some lit'" "counts 286 (lit_symbols ts) lit'" by (auto simp: lit_symbols_def)
  with loop show ?thesis by (auto simp: count_symbols_def)
qed

text \<open>The first token is a literal, so two literal/length symbols are used.\<close>

lemma lit_symbols_two:
  assumes "tokens_ok [] ts" "ts \<noteq> []"
  shows "2 \<le> card (set (lit_symbols ts))"
proof -
  obtain t us where ts: "ts = t # us" using assms(2) by (cases ts) auto
  with assms(1) have "tk_length t = 0" by (auto simp: token_ok_def)
  then have "lit_symbol t < 256" using unat_u8_less by (simp add: lit_symbol_def)
  then have "card {lit_symbol t, 256} = 2" by simp
  moreover have "{lit_symbol t, 256} \<subseteq> set (lit_symbols ts)" by (simp add: ts lit_symbols_def)
  ultimately show ?thesis using card_mono [of "set (lit_symbols ts)"] by (metis List.finite_set)
qed

end
