(* ===== verification/Deflate_Pack.thy ===== *)
theory Deflate_Pack
  imports Deflate
begin

text \<open>
  The run-length coding of the code lengths: whatever \<open>pack_code_lengths\<close> writes, the reader
  of \<open>Stream_Spec\<close> turns back into the lengths.
\<close>

section \<open>Partial runs of the reader\<close>

fun cl_steps :: "nat \<Rightarrow> nat list \<Rightarrow> (nat \<times> nat) list \<Rightarrow> nat list option" where
  "cl_steps lim ls [] = Some ls"
| "cl_steps lim ls (c # cs) =
     (if length ls < lim then
        (case cl_apply lim ls c of None \<Rightarrow> None | Some ls \<Rightarrow> cl_steps lim ls cs)
      else None)"

lemma cl_steps_append:
  "cl_steps lim ls (cs @ ds) =
     (case cl_steps lim ls cs of None \<Rightarrow> None | Some ls' \<Rightarrow> cl_steps lim ls' ds)"
  by (induction cs arbitrary: ls) (auto split: option.splits)

lemma cl_run_steps: "cl_steps lim ls cs = Some ls' \<Longrightarrow> lim \<le> length ls' \<Longrightarrow> cl_run lim ls cs = Some ls'"
  by (induction cs arbitrary: ls) (auto split: if_splits option.splits)

text \<open>One symbol alone can only describe a constant list.\<close>

lemma cl_apply_same:
  assumes "cl_apply lim ls c = Some ls'" "fst c \<noteq> 16" "set ls \<subseteq> {if fst c < 16 then fst c else 0}"
  shows "set ls' \<subseteq> {if fst c < 16 then fst c else 0}"
proof -
  have "set (take lim xs) \<subseteq> set xs" for xs :: "nat list" by (rule set_take_subset)
  then have "set (take lim (ls @ replicate n 0)) \<subseteq> set ls \<union> {0}" for n
    by (metis set_append set_replicate_conv_if subset_trans Un_mono subset_refl empty_subsetI)
  with assms show ?thesis
    by (cases c) (fastforce simp: cl_apply_def simp del: take_append split: if_splits)
qed

lemma cl_steps_same:
  assumes "cl_steps lim ls cs = Some ls'" "\<forall>c \<in> set cs. fst c = s" "s \<noteq> 16"
    "set ls \<subseteq> {if s < 16 then s else 0}"
  shows "set ls' \<subseteq> {if s < 16 then s else 0}"
  using assms
proof (induction cs arbitrary: ls)
  case (Cons c cs)
  then obtain ls1 where ls1: "cl_apply lim ls c = Some ls1" "cl_steps lim ls1 cs = Some ls'"
    by (auto split: if_splits option.splits)
  have "set ls1 \<subseteq> {if s < 16 then s else 0}"
    using cl_apply_same [OF ls1(1)] Cons.prems(2-4) by (simp only: list.set ball_simps HOL.simp_thms)
  with Cons.IH [OF ls1(2)] Cons.prems(2,3) show ?case by simp
qed simp

lemma cl_steps_two_symbols:
  assumes "cl_steps lim [] cs = Some ls" "v \<in> set ls" "w \<in> set ls" "v \<noteq> w"
  shows "2 \<le> card (set (map fst cs))"
proof (rule ccontr)
  assume "\<not> 2 \<le> card (set (map fst cs))"
  moreover have "cs \<noteq> []" using assms(1,2) by auto
  then have "card (set (map fst cs)) \<noteq> 0" by simp
  ultimately have "card (set (map fst cs)) = 1" by linarith
  then obtain s where s: "set (map fst cs) = {s}" by (rule card_1_singletonE)
  then have all: "\<forall>c \<in> set cs. fst c = s" by auto
  show False
  proof (cases "s = 16")
    case True
    with all \<open>cs \<noteq> []\<close> assms(1) show False
      by (cases cs) (auto simp: cl_apply_def split: if_splits)
  next
    case False
    from cl_steps_same [OF assms(1) all this] assms(2-4) show False by auto
  qed
qed

section \<open>The packing loop\<close>

definition cl_sym_ok :: "nat \<times> nat \<Rightarrow> bool" where
  "cl_sym_ok c \<longleftrightarrow> fst c < 19 \<and> snd c < 2 ^ cl_extra_bits (fst c)"

text \<open>What has been written describes the first \<open>i\<close> lengths; each symbol stands for one at least.\<close>

definition packs :: "nat list \<Rightarrow> nat \<Rightarrow> (nat \<times> nat) list \<Rightarrow> bool" where
  "packs ls i out \<longleftrightarrow> i \<le> length ls \<and> cl_steps (length ls) [] out = Some (take i ls) \<and>
     length out \<le> i \<and> (\<Sum>c\<leftarrow>out. cl_count c) = i \<and> (\<forall>c \<in> set out. cl_sym_ok c)"

definition run_at :: "nat list \<Rightarrow> nat \<Rightarrow> nat \<Rightarrow> nat \<Rightarrow> bool" where
  "run_at ls v i k \<longleftrightarrow> i + k \<le> length ls \<and> (\<forall>j < k. ls ! (i + j) = v)"

lemma run_at_take: "run_at ls v i k \<Longrightarrow> take (i + k) ls = take i ls @ replicate k v"
  by (rule nth_equalityI) (auto simp: run_at_def nth_append, metis le_add_diff_inverse not_less nat_add_left_cancel_less)

lemma run_at_split: "run_at ls v i (k + m) \<longleftrightarrow> run_at ls v i k \<and> run_at ls v (i + k) m"
proof
  assume "run_at ls v i (k + m)"
  then show "run_at ls v i k \<and> run_at ls v (i + k) m"
    by (auto simp: run_at_def add.assoc)
next
  assume run: "run_at ls v i k \<and> run_at ls v (i + k) m"
  have "ls ! (i + j) = v" if "j < k + m" for j
  proof (cases "j < k")
    case False
    then have "i + k + (j - k) = i + j" "j - k < m" using that by simp_all
    then show ?thesis using run unfolding run_at_def by metis
  qed (use run in \<open>simp add: run_at_def\<close>)
  with run show "run_at ls v i (k + m)" by (simp add: run_at_def)
qed

lemma push_sym_packs:
  assumes "packs ls i out" "length ls \<le> 316" "cl_apply (length ls) (take i ls) (s, x) = Some (take (i + k) ls)"
    "0 < k" "i + k \<le> length ls" "cl_sym_ok (s, x)" "cl_count (s, x) = k"
  shows "\<exists>out'. push_sym s x out = Some out' \<and> packs ls (i + k) out'"
proof -
  have "cl_extra_bits s \<le> 7" by (simp add: cl_extra_bits_def)
  then have "(2 :: nat) ^ cl_extra_bits s \<le> 2 ^ 7" by (rule power_increasing) simp
  moreover have "x < 2 ^ cl_extra_bits s" "s < 19" using assms(6) by (simp_all add: cl_sym_ok_def)
  ultimately have "x < 256" "s < 256" by simp_all
  moreover have "length out < 316" using assms(1,2,4,5) by (simp add: packs_def)
  ultimately have "push_sym s x out = Some (out @ [(s, x)])" by (simp add: push_sym_def)
  moreover have "packs ls (i + k) (out @ [(s, x)])"
    using assms by (simp add: packs_def cl_steps_append)
  ultimately show ?thesis by simp
qed

lemma pack_each_ok:
  assumes "packs ls i out" "length ls \<le> 316" "run_at ls v i run" "v < 16"
  shows "\<exists>out'. pack_each v out run i = Some (out', i + run) \<and> packs ls (i + run) out'"
  using assms(1,3)
proof (induction run arbitrary: i out)
  case (Suc run)
  have run: "run_at ls v i 1" "run_at ls v (i + 1) run"
    using Suc.prems(2) run_at_split [of ls v i 1 run] by simp_all
  have "cl_apply (length ls) (take i ls) (v, 0) = Some (take (i + 1) ls)"
    using run_at_take [OF run(1)] assms(4) by (simp add: cl_apply_def)
  moreover have "i + 1 \<le> length ls" using run(1) by (simp add: run_at_def)
  moreover have "cl_sym_ok (v, 0)" "cl_count (v, 0) = 1" using assms(4) by (simp_all add: cl_sym_ok_def cl_count_def)
  ultimately obtain out1 where out1: "push_sym v 0 out = Some out1" "packs ls (i + 1) out1"
    using push_sym_packs [OF Suc.prems(1) assms(2), of v 0 1] by auto
  from Suc.IH [OF out1(2) run(2)] out1(1) show ?case by auto
qed simp

text \<open>
  A repeat loop: what one symbol with extra value \<open>k - lo\<close> stands for is a condition on the
  position.
\<close>

lemma pack_repeat_ok:
  assumes step: "\<And>i k. run_at ls v i k \<Longrightarrow> P i \<Longrightarrow> lo \<le> k \<Longrightarrow> k \<le> hi \<Longrightarrow>
      cl_apply (length ls) (take i ls) (s, k - lo) = Some (take (i + k) ls) \<and> P (i + k)"
    and count: "\<And>k. lo \<le> k \<Longrightarrow> cl_count (s, k - lo) = k"
    and ext: "s < 19" "hi - lo < 2 ^ cl_extra_bits s" and lo: "0 < lo" "lo \<le> hi" and n: "length ls \<le> 316"
    and start: "packs ls i out" "run_at ls v i run" "P i"
  shows "\<exists>out' rest. pack_repeat s lo hi out run i = Some (out', rest, i + (run - rest)) \<and>
    rest \<le> run \<and> rest < lo \<and> packs ls (i + (run - rest)) out' \<and> run_at ls v (i + (run - rest)) rest"
  using start
proof (induction run arbitrary: i out rule: less_induct)
  case (less run)
  show ?case
  proof (cases "lo \<le> run")
    case False
    then show ?thesis using less.prems by (subst pack_repeat.simps) simp
  next
    case True
    let ?k = "if run > hi then hi else run"
    have k: "lo \<le> ?k" "?k \<le> hi" "?k \<le> run" "0 < ?k" using True lo by auto
    have run: "run_at ls v i ?k" "run_at ls v (i + ?k) (run - ?k)"
      using less.prems(2) k(3) run_at_split [of ls v i ?k "run - ?k"] by simp_all
    note st = step [OF run(1) less.prems(3) k(1,2)]
    have "i + ?k \<le> length ls" using run(1) by (simp add: run_at_def)
    moreover have "cl_sym_ok (s, ?k - lo)"
      using ext k(2) diff_le_mono [OF k(2), of lo] by (simp add: cl_sym_ok_def)
    ultimately obtain out1 where
      out1: "push_sym s (?k - lo) out = Some out1" "packs ls (i + ?k) out1"
      using push_sym_packs [OF less.prems(1) n conjunct1 [OF st] k(4)] count [OF k(1)] by blast
    have "run - ?k < run" using k(3,4) by linarith
    from less.IH [OF this out1(2) run(2) conjunct2 [OF st]] obtain out' rest where
      ih: "pack_repeat s lo hi out1 (run - ?k) (i + ?k) = Some (out', rest, i + ?k + (run - ?k - rest))"
      "rest \<le> run - ?k" "rest < lo" "packs ls (i + ?k + (run - ?k - rest)) out'"
      "run_at ls v (i + ?k + (run - ?k - rest)) rest" by blast
    have pos: "i + ?k + (run - ?k - rest) = i + (run - rest)" using ih(2) k(3) by linarith
    have "pack_repeat s lo hi out run i = pack_repeat s lo hi out1 (run - ?k) (i + ?k)"
      using True lo out1(1) by (subst pack_repeat.simps) (simp add: Let_def)
    moreover have "rest \<le> run" using ih(2) by linarith
    ultimately show ?thesis using ih(1,3,4,5) unfolding pos
      by (intro exI [of _ out'] exI [of _ rest]) (simp only: HOL.simp_thms)
  qed
qed

lemma count_run_ok:
  assumes "run_at ls v i run"
  shows "\<exists>run'. count_run ls (length ls) i v run = Some run' \<and> run \<le> run' \<and> run_at ls v i run'"
  using assms
proof (induction "length ls - (i + run)" arbitrary: run rule: less_induct)
  case less
  show ?case
  proof (cases "i + run < length ls \<and> ls ! (i + run) = v")
    case True
    then have "run_at ls v i (run + 1)" using less.prems run_at_split [of ls v i run 1] by (simp add: run_at_def)
    moreover have "length ls - (i + (run + 1)) < length ls - (i + run)" using True by linarith
    ultimately obtain run' where "count_run ls (length ls) i v (run + 1) = Some run'"
      "run + 1 \<le> run'" "run_at ls v i run'" using less.hyps by blast
    then show ?thesis using True by (subst count_run.simps) auto
  next
    case False
    then show ?thesis using less.prems by (subst count_run.simps) auto
  qed
qed

lemma zero_run_step:
  assumes "run_at ls 0 i k" "lo \<le> k" "(s, lo) = (17, 3) \<or> (s, lo) = (18, 11)"
  shows "cl_apply (length ls) (take i ls) (s, k - lo) = Some (take (i + k) ls)"
proof -
  have "take (length ls) (take i ls @ replicate k 0) = take (i + k) ls"
    unfolding run_at_take [OF assms(1), symmetric] using assms(1) by (simp add: run_at_def min_absorb2)
  then show ?thesis using assms(2,3) by (auto simp: cl_apply_def)
qed

lemma repeat_run_step:
  assumes "run_at ls v i k" "3 \<le> k" "0 < i" "ls ! (i - 1) = v"
  shows "cl_apply (length ls) (take i ls) (16, k - 3) = Some (take (i + k) ls)"
proof -
  have i: "i \<le> length ls" using assms(1) by (simp add: run_at_def)
  with assms(3) have ne: "take i ls \<noteq> []" by auto
  have "last (take i ls) = v" using i assms(3,4) last_conv_nth [OF ne] by (simp add: min_absorb2)
  note this ne
  moreover have "take (length ls) (take i ls @ replicate k v) = take (i + k) ls"
    unfolding run_at_take [OF assms(1), symmetric] using assms(1) by (simp add: run_at_def min_absorb2)
  ultimately show ?thesis using assms(2) by (simp add: cl_apply_def)
qed

lemma pack_zero_run:
  assumes n: "length ls \<le> 316" and start: "packs ls i out" and run: "run_at ls 0 i run"
  shows "\<exists>out'. pack_run 0 out run i = Some (out', i + run) \<and> packs ls (i + run) out'"
proof -
  have "\<exists>out' rest. pack_repeat 18 11 138 out run i = Some (out', rest, i + (run - rest)) \<and>
    rest \<le> run \<and> rest < 11 \<and> packs ls (i + (run - rest)) out' \<and> run_at ls 0 (i + (run - rest)) rest"
    by (rule pack_repeat_ok [where P = "\<lambda>_. True"])
      (use start run n zero_run_step in \<open>auto simp: cl_extra_bits_def cl_count_def\<close>)
  then obtain out1 r1 where 1: "pack_repeat 18 11 138 out run i = Some (out1, r1, i + (run - r1))"
    "r1 \<le> run" "packs ls (i + (run - r1)) out1" "run_at ls 0 (i + (run - r1)) r1" by blast
  have "\<exists>out' rest. pack_repeat 17 3 10 out1 r1 (i + (run - r1)) =
      Some (out', rest, i + (run - r1) + (r1 - rest)) \<and>
    rest \<le> r1 \<and> rest < 3 \<and> packs ls (i + (run - r1) + (r1 - rest)) out' \<and>
    run_at ls 0 (i + (run - r1) + (r1 - rest)) rest"
    by (rule pack_repeat_ok [where P = "\<lambda>_. True"])
      (use 1 n zero_run_step in \<open>auto simp: cl_extra_bits_def cl_count_def\<close>)
  then obtain out2 r2 where 2: "pack_repeat 17 3 10 out1 r1 (i + (run - r1)) =
      Some (out2, r2, i + (run - r1) + (r1 - r2))" "r2 \<le> r1"
    "packs ls (i + (run - r1) + (r1 - r2)) out2"
    "run_at ls 0 (i + (run - r1) + (r1 - r2)) r2" by blast
  from pack_each_ok [OF 2(3) n 2(4)] obtain out3 where
    3: "pack_each 0 out2 r2 (i + (run - r1) + (r1 - r2)) = Some (out3, i + (run - r1) + (r1 - r2) + r2)"
    "packs ls (i + (run - r1) + (r1 - r2) + r2) out3" by auto
  have "i + (run - r1) + (r1 - r2) + r2 = i + run" using 1(2) 2(2) by linarith
  with 1(1) 2(1) 3 show ?thesis by (simp add: pack_run_def)
qed

lemma pack_value_run:
  assumes n: "length ls \<le> 316" and start: "packs ls i out" and run: "run_at ls v i run" "1 \<le> run"
    and v: "v \<noteq> 0" "v < 16"
  shows "\<exists>out'. pack_run v out run i = Some (out', i + run) \<and> packs ls (i + run) out'"
proof -
  have one: "run_at ls v i 1" "run_at ls v (i + 1) (run - 1)"
    using run run_at_split [of ls v i 1 "run - 1"] by simp_all
  from pack_each_ok [OF start n one(1) v(2)] obtain out1 where
    1: "push_sym v 0 out = Some out1" "packs ls (i + 1) out1" by (auto split: option.splits)
  let ?P = "\<lambda>j. 0 < j \<and> ls ! (j - 1) = v"
  have step: "cl_apply (length ls) (take j ls) (16, k - 3) = Some (take (j + k) ls) \<and> ?P (j + k)"
    if "run_at ls v j k" "?P j" "3 \<le> k" "k \<le> 6" for j k
  proof -
    have "k - 1 < k" using that(3) by simp
    then have "ls ! (j + (k - 1)) = v" using that(1) unfolding run_at_def by blast
    moreover have "j + k - 1 = j + (k - 1)" using that(3) by simp
    ultimately have "?P (j + k)" using that(2) by (simp only:) simp
    with repeat_run_step [OF that(1,3)] that(2) show ?thesis by blast
  qed
  have "\<exists>out' rest. pack_repeat 16 3 6 out1 (run - 1) (i + 1) =
      Some (out', rest, i + 1 + (run - 1 - rest)) \<and> rest \<le> run - 1 \<and> rest < 3 \<and>
    packs ls (i + 1 + (run - 1 - rest)) out' \<and> run_at ls v (i + 1 + (run - 1 - rest)) rest"
    by (rule pack_repeat_ok [where P = ?P, OF step])
      (use 1(2) one n in \<open>simp_all add: cl_extra_bits_def cl_count_def run_at_def\<close>)
  then obtain out2 r2 where 2: "pack_repeat 16 3 6 out1 (run - 1) (i + 1) =
      Some (out2, r2, i + 1 + (run - 1 - r2))" "r2 \<le> run - 1"
    "packs ls (i + 1 + (run - 1 - r2)) out2" "run_at ls v (i + 1 + (run - 1 - r2)) r2" by blast
  from pack_each_ok [OF 2(3) n 2(4) v(2)] obtain out3 where
    3: "pack_each v out2 r2 (i + 1 + (run - 1 - r2)) = Some (out3, i + 1 + (run - 1 - r2) + r2)"
    "packs ls (i + 1 + (run - 1 - r2) + r2) out3" by auto
  have "i + 1 + (run - 1 - r2) + r2 = i + run" using 2(2) run(2) by linarith
  with 1(1) 2(1) 3 v(1) show ?thesis by (simp add: pack_run_def)
qed

lemma pack_loop_ok:
  assumes n: "length ls \<le> 316" and small: "\<forall>l \<in> set ls. l < 16" and start: "packs ls i out"
  shows "\<exists>out'. pack_loop ls (length ls) i out = Some out' \<and> packs ls (length ls) out'"
  using start
proof (induction "length ls - i" arbitrary: i out rule: less_induct)
  case less
  show ?case
  proof (cases "i < length ls")
    case False
    with less.prems have "i = length ls" by (simp add: packs_def)
    with less.prems show ?thesis by (subst pack_loop.simps) simp
  next
    case True
    let ?v = "ls ! i"
    have "run_at ls ?v i 1" using True by (simp add: run_at_def)
    from count_run_ok [OF this] obtain run where run: "count_run ls (length ls) i ?v 1 = Some run"
      "1 \<le> run" "run_at ls ?v i run" by blast
    have next_smaller: "length ls - (i + run) < length ls - i" using run(2) True by linarith
    have v: "?v < 16" using small True by simp
    have "\<exists>out'. pack_run ?v out run i = Some (out', i + run) \<and> packs ls (i + run) out'"
      using pack_zero_run [OF n less.prems] pack_value_run [OF n less.prems run(3,2) _ v] run(3)
      by (cases "?v = 0") simp_all
    then obtain out' where out': "pack_run ?v out run i = Some (out', i + run)" "packs ls (i + run) out'" by blast
    have "pack_loop ls (length ls) i out = pack_loop ls (length ls) (i + run) out'"
      using True run(1) out'(1) by (subst pack_loop.simps) simp
    with less.hyps [OF next_smaller out'(2)] show ?thesis by simp
  qed
qed

lemma pack_code_lengths_ok:
  assumes "length ls \<le> 316" "\<forall>l \<in> set ls. l < 16"
  shows "\<exists>cl. pack_code_lengths ls (length ls) = Some cl \<and> cl_steps (length ls) [] cl = Some ls \<and>
    cl_run (length ls) [] cl = Some ls \<and> length cl \<le> length ls \<and> (\<forall>c \<in> set cl. cl_sym_ok c) \<and>
    (\<Sum>c\<leftarrow>cl. cl_count c) = length ls"
proof -
  have "packs ls 0 []" by (simp add: packs_def)
  from pack_loop_ok [OF assms this] obtain cl where
    "pack_code_lengths ls (length ls) = Some cl" "packs ls (length ls) cl"
    by (auto simp: pack_code_lengths_def)
  then show ?thesis by (auto simp: packs_def cl_run_steps)
qed

section \<open>Properties\<close>

text \<open>
  C32: The run-length coding of the code lengths loses nothing: for up to 316 lengths below 16,
  \<open>pack_code_lengths\<close> stays within its arrays, writes symbols below 19 with extra values that fit
  their extra bits, and reading them back by the rules of the format gives the lengths.
\<close>

theorem pack_code_lengths_roundtrip:
  assumes "length ls \<le> 316" "\<forall>l \<in> set ls. l < 16"
  shows "\<exists>cl. pack_code_lengths ls (length ls) = Some cl \<and> length cl \<le> length ls \<and>
    (\<forall>(s, x) \<in> set cl. s < 19 \<and> x < 2 ^ cl_extra_bits s) \<and> cl_run (length ls) [] cl = Some ls"
  using pack_code_lengths_ok [OF assms] by (fastforce simp: cl_sym_ok_def)

theorem pack_code_lengths_roundtrip_witness:
  "\<exists>cl. pack_code_lengths (replicate 20 0 @ replicate 9 5 @ [1, 0, 0, 0]) 33 = Some cl \<and>
     cl_run 33 [] cl = Some (replicate 20 0 @ replicate 9 5 @ [1, 0, 0, 0])"
proof -
  have "length (replicate 20 0 @ replicate 9 5 @ [1, 0, 0, 0 :: nat]) = 33" by simp
  moreover have "\<forall>l \<in> set (replicate 20 0 @ replicate 9 5 @ [1, 0, 0, 0 :: nat]). l < 16" by auto
  ultimately show ?thesis
    using pack_code_lengths_roundtrip [of "replicate 20 0 @ replicate 9 5 @ [1, 0, 0, 0]"] by simp blast
qed

end
