(* ===== verification/Deflate_Header.thy ===== *)
theory Deflate_Header
  imports Deflate_Count Deflate_Pack
begin

text \<open>
  The header of a dynamic block as the encoder plans it: trimming, the order of the code-length
  lengths, the codes of the trimmed tables, and the header in the sense of \<open>Stream_Spec\<close> whose
  bits \<open>emit_dynamic_header\<close> writes.
\<close>

section \<open>Trimming trailing zeros\<close>

lemma trim_zeros_ok:
  assumes "\<And>k. k < n \<Longrightarrow> get k = Some (f k)" "lo \<le> n"
  shows "\<exists>k. trim_zeros get lo n = Some k \<and> lo \<le> k \<and> k \<le> n \<and> (\<forall>j. k \<le> j \<and> j < n \<longrightarrow> f j = 0)"
  using assms
proof (induction n)
  case (Suc n)
  show ?case
  proof (cases "lo < Suc n \<and> f n = 0")
    case True
    with Suc obtain k where "trim_zeros get lo n = Some k" "lo \<le> k" "k \<le> n"
      "\<forall>j. k \<le> j \<and> j < n \<longrightarrow> f j = 0" by auto
    with True Suc.prems(1) [of n] show ?thesis by (auto simp: less_Suc_eq)
  next
    case False
    with Suc.prems show ?thesis by auto
  qed
qed simp

text \<open>A table that is zero from \<open>k\<close> on has the codes of its first \<open>k\<close> entries.\<close>

definition zero_from :: "nat \<Rightarrow> nat list \<Rightarrow> bool" where
  "zero_from k ls \<longleftrightarrow> k \<le> length ls \<and> (\<forall>j. k \<le> j \<and> j < length ls \<longrightarrow> ls ! j = 0)"

lemma zero_from_split: "zero_from k ls \<Longrightarrow> ls = take k ls @ replicate (length ls - k) 0"
  by (rule nth_equalityI) (auto simp: zero_from_def nth_append)

lemma num_codes_trim: "zero_from k ls \<Longrightarrow> num_codes (take k ls) l = num_codes ls l"
proof -
  assume "zero_from k ls"
  then have split: "ls = take k ls @ replicate (length ls - k) 0" by (rule zero_from_split)
  have zeros: "l \<noteq> 0 \<Longrightarrow> count_list (replicate n 0) l = 0" for n by (induction n) auto
  have "num_codes ls l = num_codes (take k ls @ replicate (length ls - k) 0) l" using split by simp
  also have "\<dots> = num_codes (take k ls) l" by (simp add: num_codes_def zeros)
  finally show ?thesis by simp
qed

lemma first_code_trim: "zero_from k ls \<Longrightarrow> first_code (take k ls) l = first_code ls l"
  by (induction l) (simp_all add: num_codes_trim)

lemma has_code_trim: "zero_from k ls \<Longrightarrow> has_code (take k ls) i \<longleftrightarrow> has_code ls i"
  by (cases "i < k") (auto simp: zero_from_def has_code_def)

lemma code_bits_trim:
  assumes "zero_from k ls" "has_code ls i"
  shows "code_bits (take k ls) i = code_bits ls i"
proof -
  have "i < k" using assms by (auto simp: zero_from_def has_code_def) (metis not_less neq0_conv)
  then have "take i (take k ls) = take i ls" "take k ls ! i = ls ! i" by (simp_all add: min_absorb1)
  then show ?thesis by (simp add: code_bits_def code_of_def first_code_trim [OF assms(1)])
qed

lemma kraft_trim: "zero_from k ls \<Longrightarrow> kraft m (take k ls) = kraft m ls"
  using zero_from_split [of k ls] by (metis kraft_append kraft_replicate add.right_neutral mult_0_right)

lemma valid_trim: "zero_from k ls \<Longrightarrow> valid_lengths ls \<Longrightarrow> valid_lengths (take k ls)"
  by (auto simp: valid_lengths_def kraft_trim dest: in_set_takeD)

lemma items_bits_trim:
  assumes "zero_from k lit" "zero_from m dist" "has_code lit 256" "\<forall>t \<in> set ts. has_code lit (lit_symbol t)"
    "\<forall>d \<in> dist_symbols ts. has_code dist d"
  shows "items_bits (take k lit) (take m dist) (map token_item ts) = items_bits lit dist (map token_item ts)"
proof -
  have "item_bits (take k lit) (take m dist) (token_item t) = item_bits lit dist (token_item t)"
    if t: "t \<in> set ts" for t
  proof (cases "tk_length t = 0")
    case True
    with assms(4) t have "has_code lit (unat (tk_literal t))" by (auto simp: lit_symbol_def)
    with True show ?thesis by (simp add: token_item_def code_bits_trim [OF assms(1)])
  next
    case False
    with t have "distance_to_code (tk_distance t) \<in> dist_symbols ts" by (auto simp: dist_symbols_def)
    then have "has_code dist (distance_to_code (tk_distance t))" using assms(5) by blast
    moreover have "has_code lit (257 + length_to_code (tk_length t))"
      using assms(4) t False by (auto simp: lit_symbol_def)
    ultimately show ?thesis using False
      by (simp add: token_item_def Let_def code_bits_trim [OF assms(1)] code_bits_trim [OF assms(2)])
  qed
  then have "concat (map (\<lambda>t. item_bits (take k lit) (take m dist) (token_item t)) ts) =
      concat (map (\<lambda>t. item_bits lit dist (token_item t)) ts)" by (metis (no_types, lifting) map_eq_conv)
  then show ?thesis by (simp add: items_bits_map code_bits_trim [OF assms(1,3)])
qed

section \<open>The order of the code-length lengths\<close>

lemma CODELEN_ORDER_inj: "i < 19 \<Longrightarrow> j < 19 \<Longrightarrow> CODELEN_ORDER ! i = CODELEN_ORDER ! j \<longleftrightarrow> i = j"
proof -
  assume "i < 19" "j < 19"
  moreover have "distinct CODELEN_ORDER" by (simp add: CODELEN_ORDER_def)
  ultimately show ?thesis by (simp add: nth_eq_iff_index_eq)
qed

lemma CODELEN_ORDER_onto: "k < 19 \<Longrightarrow> \<exists>j < 19. CODELEN_ORDER ! j = k"
proof -
  have "set [0..<19] \<subseteq> set CODELEN_ORDER" by (simp add: CODELEN_ORDER_def upt_eval)
  moreover assume "k < 19"
  ultimately have "k \<in> set CODELEN_ORDER" by auto
  then show ?thesis by (auto simp: in_set_conv_nth)
qed

lemma cl_lengths_nth:
  assumes "length xs \<le> 19" "j < 19"
  shows "cl_lengths xs ! (CODELEN_ORDER ! j) = (if j < length xs then xs ! j else 0)"
  using assms
proof (induction xs rule: rev_induct)
  case (snoc x xs)
  then have "length xs < 19" by simp
  with snoc show ?case
    by (auto simp: cl_lengths_snoc nth_list_update CODELEN_ORDER_less CODELEN_ORDER_inj nth_append)
qed (simp add: CODELEN_ORDER_less)

lemma cl_lengths_order:
  assumes "length ls = 19" "k \<le> 19" "\<And>j. k \<le> j \<Longrightarrow> j < 19 \<Longrightarrow> ls ! (CODELEN_ORDER ! j) = 0"
  shows "cl_lengths (map (\<lambda>i. ls ! (CODELEN_ORDER ! i)) [0..<k]) = ls"
proof (rule nth_equalityI)
  fix i assume "i < length (cl_lengths (map (\<lambda>i. ls ! (CODELEN_ORDER ! i)) [0..<k]))"
  then have "i < 19" by simp
  with CODELEN_ORDER_onto obtain j where j: "j < 19" "CODELEN_ORDER ! j = i" by blast
  have "cl_lengths (map (\<lambda>i. ls ! (CODELEN_ORDER ! i)) [0..<k]) ! (CODELEN_ORDER ! j) =
      (if j < k then ls ! (CODELEN_ORDER ! j) else 0)"
    using cl_lengths_nth [of "map (\<lambda>i. ls ! (CODELEN_ORDER ! i)) [0..<k]" j] j(1) assms(2) by simp
  then show "cl_lengths (map (\<lambda>i. ls ! (CODELEN_ORDER ! i)) [0..<k]) ! i = ls ! i"
    using j assms(3) by (auto split: if_splits)
qed (simp add: assms(1))

section \<open>The distance code\<close>

text \<open>
  The distance symbols that get a code: those used if there are at least two of them, and
  symbol 0 alone otherwise, also when the only symbol used is another one.
\<close>

definition coded_dists :: "nat set \<Rightarrow> nat set" where
  "coded_dists ds = (if 2 \<le> card ds then ds else {0})"

lemma valid_single: "valid_lengths ((replicate 30 0)[0 := 1])"
proof -
  have "(replicate 30 (0 :: nat))[0 := 1] = 1 # replicate 29 0"
    by (simp add: numeral_eq_Suc)
  then show ?thesis by (simp add: valid_lengths_def)
qed

lemma has_code_single: "has_code ((replicate 30 0)[0 := 1]) d \<longleftrightarrow> d = 0"
  by (auto simp: has_code_def nth_list_update split: if_splits)

lemma dist_lengths_ok:
  assumes "counts 30 (dist_list ts) freqs" "length ts < 2 ^ 32"
  shows "\<exists>ls. dist_lengths freqs = Some ls \<and> length ls = 30 \<and> valid_lengths ls \<and>
    (\<forall>d. has_code ls d \<longleftrightarrow> d \<in> coded_dists (dist_symbols ts))"
proof (cases "2 \<le> card (dist_symbols ts)")
  case True
  have "length (dist_list ts) < 2 ^ 32" using assms(2) length_dist_list [of ts] by linarith
  with True have "\<exists>ls. huff_build_lengths freqs 30 15 = Some ls \<and> length ls = 30 \<and> valid_lengths ls \<and>
    kraft 15 ls = 2 ^ 15 \<and> (\<forall>l \<in> set ls. l \<le> 15) \<and> (\<forall>i. has_code ls i \<longleftrightarrow> i \<in> set (dist_list ts))"
    by (intro counts_lengths_ok [OF assms(1) dist_list_less]) (simp_all add: set_dist_list fibo_15)
  then obtain ls where ls: "huff_build_lengths freqs 30 15 = Some ls" "length ls = 30"
    "valid_lengths ls" "\<And>i. has_code ls i \<longleftrightarrow> i \<in> dist_symbols ts" by (auto simp: set_dist_list)
  from True obtain d where "d \<in> dist_symbols ts" by fastforce
  then have "d < 30" "ls ! d \<noteq> 0" using ls(2) ls(4) [of d] by (simp_all add: has_code_def)
  then have "ls ! d \<in> set ls \<and> ls ! d \<noteq> 0" using ls(2) by simp
  then have "list_ex (\<lambda>l. l \<noteq> 0) (take 30 ls)" using ls(2) unfolding list_ex_iff by auto
  with True ls show ?thesis by (simp add: dist_lengths_def coded_dists_def)
next
  case False
  have len: "length freqs = 30" by (rule counts_length [OF assms(1)])
  have fin: "finite (dist_symbols ts)" by (simp flip: set_dist_list)
  have used: "\<And>i. i < 30 \<Longrightarrow> freqs ! i \<noteq> 0 \<longleftrightarrow> i \<in> dist_symbols ts"
    using counts_used [OF assms(1)] by (simp add: set_dist_list)
  have "huff_build_lengths freqs 30 15 \<in> {Some (replicate 30 0), Some ((replicate 30 0)[0 := 1])}"
  proof (cases "dist_symbols ts = {}")
    case True
    with used len have "\<forall>f \<in> set freqs. f = 0" by (auto simp: in_set_conv_nth)
    then show ?thesis using huff_build_lengths_none [of freqs 15] len by simp
  next
    case nonempty: False
    with False fin have "card (dist_symbols ts) = 1"
      using card_0_eq [OF fin] by linarith
    then obtain d where d: "dist_symbols ts = {d}" by (rule card_1_singletonE)
    with dist_list_less [of ts] have "d < 30" by (auto simp: set_dist_list)
    then have "freqs ! d \<noteq> 0" "\<forall>j < length freqs. j \<noteq> d \<longrightarrow> freqs ! j = 0"
      using d used len by auto
    with \<open>d < 30\<close> len show ?thesis using huff_build_lengths_single [of freqs d 15]
      by (cases "d = 0") simp_all
  qed
  then have "dist_lengths freqs = Some ((replicate 30 0)[0 := 1])"
  proof
    assume "huff_build_lengths freqs 30 15 = Some (replicate 30 0)"
    then show ?thesis by (simp add: dist_lengths_def list_ex_iff)
  next
    assume one: "huff_build_lengths freqs 30 15 \<in> {Some ((replicate 30 0)[0 := 1])}"
    have "(replicate 30 (0 :: nat))[0 := 1] = 1 # replicate 29 0" by (simp add: numeral_eq_Suc)
    with one show ?thesis by (simp add: dist_lengths_def list_ex_iff)
  qed
  moreover have "coded_dists (dist_symbols ts) = {0}" using False by (simp add: coded_dists_def)
  ultimately show ?thesis using valid_single has_code_single by (metis length_list_update length_replicate singleton_iff)
qed

section \<open>The plan\<close>

definition plan_order :: "dyn_plan \<Rightarrow> nat list" where
  "plan_order p = map (\<lambda>i. dp_cl_len p ! (CODELEN_ORDER ! i)) [0..<dp_hclen p]"

definition plan_hdr :: "dyn_plan \<Rightarrow> dyn_header" where
  "plan_hdr p = \<lparr>h_lit = dp_hlit p, h_dist = dp_hdist p, h_cl = plan_order p, h_syms = dp_cl p\<rparr>"

text \<open>A sound plan: its tables belong together and its header is a legal one for them.\<close>

definition plan_ok :: "dyn_plan \<Rightarrow> bool" where
  "plan_ok p \<longleftrightarrow> codes_for (dp_lit_code p) (dp_lit_len p) \<and> length (dp_lit_len p) = 286 \<and>
     codes_for (dp_dist_code p) (dp_dist_len p) \<and> length (dp_dist_len p) = 30 \<and>
     codes_for (dp_cl_code p) (dp_cl_len p) \<and> length (dp_cl_len p) = 19 \<and>
     257 \<le> dp_hlit p \<and> dp_hlit p \<le> 286 \<and> 1 \<le> dp_hdist p \<and> dp_hdist p \<le> 30 \<and>
     4 \<le> dp_hclen p \<and> dp_hclen p \<le> 19 \<and> (\<forall>l \<in> set (dp_cl_len p). l < 8) \<and>
     zero_from (dp_hlit p) (dp_lit_len p) \<and> zero_from (dp_hdist p) (dp_dist_len p) \<and>
     cl_lengths (plan_order p) = dp_cl_len p \<and> (\<forall>c \<in> set (dp_cl p). cl_ok (dp_cl_len p) c) \<and>
     cl_run (dp_hlit p + dp_hdist p) [] (dp_cl p) =
       Some (take (dp_hlit p) (dp_lit_len p) @ take (dp_hdist p) (dp_dist_len p)) \<and>
     (\<Sum>c\<leftarrow>dp_cl p. cl_count c) = dp_hlit p + dp_hdist p"

lemma header_codes_plan:
  assumes "plan_ok p"
  shows "header_codes (plan_hdr p) =
    Some (take (dp_hlit p) (dp_lit_len p), take (dp_hdist p) (dp_dist_len p))"
proof -
  have "CODELEN_ORDER ! i < 19" if "i < dp_hclen p" for i
    using that assms CODELEN_ORDER_less [of i] by (simp add: plan_ok_def)
  then have small: "\<forall>l \<in> set (plan_order p). l < 8" using assms by (auto simp: plan_ok_def plan_order_def)
  have valid: "valid_lengths (take (dp_hlit p) (dp_lit_len p))" "valid_lengths (take (dp_hdist p) (dp_dist_len p))"
    using assms by (simp_all add: plan_ok_def codes_for_def valid_trim)
  show ?thesis using assms small valid
    by (simp add: header_codes_def header_lengths_def plan_hdr_def plan_ok_def codes_for_def)
      (simp add: plan_order_def)
qed

text \<open>A complete code on 257 to 286 symbols, the last of them used, has two different lengths.\<close>

lemma two_lengths:
  assumes ls: "zero_from k ls" "257 \<le> k" "length ls = 286" "has_code ls 256"
    and kraft: "kraft 15 ls = 2 ^ 15" "\<forall>l \<in> set ls. l \<le> 15"
  shows "\<exists>v \<in> set (take k ls). \<exists>w \<in> set (take k ls). v \<noteq> w"
proof (rule ccontr)
  assume neg: "\<not> ?thesis"
  let ?v = "ls ! 256"
  have k: "k \<le> 286" using ls(1,3) by (simp add: zero_from_def)
  have "?v \<in> set (take k ls)" using ls(2,3) by (auto simp: in_set_conv_nth intro: exI [of _ 256])
  with neg have "\<forall>x \<in> set (take k ls). x = ?v" by blast
  then have const: "take k ls = replicate k ?v"
    using k ls(3) by (intro replicate_eqI) (auto simp: min_absorb2)
  have v: "?v \<noteq> 0" "?v \<le> 15" using ls(3,4) kraft(2) by (auto simp: has_code_def)
  have "k * 2 ^ (15 - ?v) = 2 ^ 15"
    using kraft_trim [OF ls(1), of 15] kraft(1) v(1) unfolding const by simp
  moreover have "(2 :: nat) ^ 15 = 2 ^ ?v * 2 ^ (15 - ?v)" using v(2) by (simp flip: power_add)
  ultimately have eq: "k = 2 ^ ?v" by (metis mult_right_cancel power_eq_0_iff zero_neq_numeral)
  show False
  proof (cases "?v \<le> 8")
    case True
    then have "(2 :: nat) ^ ?v \<le> 2 ^ 8" by (rule power_increasing) simp
    with eq ls(2) show False by simp
  next
    case False
    then have "(2 :: nat) ^ 9 \<le> 2 ^ ?v" by (intro power_increasing) simp_all
    with eq k show False by simp
  qed
qed

lemma trim_rd_ok:
  assumes "length ls = n" "lo \<le> n"
  shows "\<exists>k. trim_zeros (rd ls) lo n = Some k \<and> lo \<le> k \<and> k \<le> n \<and> zero_from k ls"
proof -
  have "rd ls k = Some (ls ! k)" if "k < n" for k using that assms(1) by simp
  from trim_zeros_ok [OF this assms(2)] assms(1) show ?thesis by (auto simp: zero_from_def)
qed

text \<open>The code-length code: two symbols at least, and a header that lists them in order.\<close>

lemma cl_code_ok:
  assumes two: "2 \<le> card (set (map fst cl))" and cl: "\<forall>c \<in> set cl. cl_sym_ok c" "length cl \<le> 316"
  shows "\<exists>freqs ls codes k. ofor (\<lambda>(s, x) f. bump f s) cl (replicate 19 0) = Some freqs \<and>
    huff_build_lengths freqs 19 7 = Some ls \<and> huff_assign_codes ls 19 = Some codes \<and>
    trim_zeros (\<lambda>k. rd CODELEN_ORDER k \<bind> rd ls) 4 19 = Some k \<and> codes_for codes ls \<and>
    length ls = 19 \<and> 4 \<le> k \<and> k \<le> 19 \<and> (\<forall>l \<in> set ls. l < 8) \<and>
    cl_lengths (map (\<lambda>i. ls ! (CODELEN_ORDER ! i)) [0..<k]) = ls \<and> (\<forall>c \<in> set cl. cl_ok ls c)"
proof -
  have less: "\<forall>c \<in> set cl. fst c < 19" using cl(1) by (auto simp: cl_sym_ok_def)
  have n: "length ([] :: nat list) + length cl < 2 ^ 32" using cl(2) by simp
  from bump_all_ok [OF counts_init less n] obtain freqs where
    freqs: "ofor (\<lambda>(s, x) f. bump f s) cl (replicate 19 0) = Some freqs" "counts 19 (map fst cl) freqs"
    by auto
  have less': "\<forall>x \<in> set (map fst cl). x < 19" using less by simp
  have "\<exists>ls. huff_build_lengths freqs 19 7 = Some ls \<and> length ls = 19 \<and> valid_lengths ls \<and>
    kraft 15 ls = 2 ^ 15 \<and> (\<forall>l \<in> set ls. l \<le> 7) \<and> (\<forall>i. has_code ls i \<longleftrightarrow> i \<in> set (map fst cl))"
    by (rule counts_lengths_ok [OF freqs(2) less']) (use two n in \<open>simp_all add: fibo_7\<close>)
  then obtain ls where ls: "huff_build_lengths freqs 19 7 = Some ls" "length ls = 19"
    "valid_lengths ls" "\<forall>l \<in> set ls. l \<le> 7" "\<And>i. has_code ls i \<longleftrightarrow> i \<in> set (map fst cl)" by blast
  obtain codes where codes: "huff_assign_codes ls 19 = Some codes" "codes_for codes ls"
    using assign_codes_for [OF ls(3,2)] .
  have "(rd CODELEN_ORDER k \<bind> rd ls) = Some (ls ! (CODELEN_ORDER ! k))" if "k < 19" for k
    using that ls(2) CODELEN_ORDER_less [of k] by simp
  then have "\<exists>k. trim_zeros (\<lambda>k. rd CODELEN_ORDER k \<bind> rd ls) 4 19 = Some k \<and> 4 \<le> k \<and> k \<le> 19 \<and>
    (\<forall>j. k \<le> j \<and> j < 19 \<longrightarrow> ls ! (CODELEN_ORDER ! j) = 0)"
    by (intro trim_zeros_ok) simp_all
  then obtain k where k: "trim_zeros (\<lambda>k. rd CODELEN_ORDER k \<bind> rd ls) 4 19 = Some k" "4 \<le> k" "k \<le> 19"
    "\<And>j. k \<le> j \<Longrightarrow> j < 19 \<Longrightarrow> ls ! (CODELEN_ORDER ! j) = 0" by blast
  have order: "cl_lengths (map (\<lambda>i. ls ! (CODELEN_ORDER ! i)) [0..<k]) = ls"
    by (rule cl_lengths_order [OF ls(2) k(3,4)])
  have "\<forall>l \<in> set ls. l < 8" using ls(4) by fastforce
  moreover have "\<forall>c \<in> set cl. cl_ok ls c" using cl(1) ls(5) by (auto simp: cl_ok_def cl_sym_ok_def)
  ultimately show ?thesis using freqs(1) ls(1,2) codes k(1-3) order by blast
qed

lemma plan_header_ok:
  assumes lit: "valid_lengths lit" "length lit = 286" "kraft 15 lit = 2 ^ 15" "has_code lit 256"
    and dist: "valid_lengths dist" "length dist = 30"
  shows "\<exists>p. plan_header lit dist = Some p \<and> plan_ok p \<and> dp_lit_len p = lit \<and> dp_dist_len p = dist"
proof -
  obtain lc where lc: "huff_assign_codes lit 286 = Some lc" "codes_for lc lit"
    using assign_codes_for [OF lit(1,2)] .
  obtain dc where dc: "huff_assign_codes dist 30 = Some dc" "codes_for dc dist"
    using assign_codes_for [OF dist] .
  from trim_rd_ok [OF lit(2), of 257] obtain hl where
    hl: "trim_zeros (rd lit) 257 286 = Some hl" "257 \<le> hl" "hl \<le> 286" "zero_from hl lit" by auto
  from trim_rd_ok [OF dist(2), of 1] obtain hd where
    hd: "trim_zeros (rd dist) 1 30 = Some hd" "1 \<le> hd" "hd \<le> 30" "zero_from hd dist" by auto
  let ?c = "take hl lit @ take hd dist"
  have len: "length ?c = hl + hd" using hl(3) hd(3) lit(2) dist(2) by simp
  have small: "\<forall>l \<in> set lit. l \<le> 15" "\<forall>l \<in> set dist. l \<le> 15" using lit(1) dist(1) by (simp_all add: valid_lengths_def)
  then have "\<forall>l \<in> set ?c. l < 16" by (fastforce dest: in_set_takeD)
  from pack_code_lengths_ok [OF _ this] len hl(3) hd(3) obtain cl where
    cl: "pack_code_lengths ?c (hl + hd) = Some cl" "cl_steps (hl + hd) [] cl = Some ?c"
    "cl_run (hl + hd) [] cl = Some ?c" "length cl \<le> hl + hd" "\<forall>c \<in> set cl. cl_sym_ok c"
    "(\<Sum>c\<leftarrow>cl. cl_count c) = hl + hd" by auto
  from two_lengths [OF hl(4,2) lit(2,4,3) small(1)] obtain v w where
    "v \<in> set ?c" "w \<in> set ?c" "v \<noteq> w" by auto
  from cl_steps_two_symbols [OF cl(2) this] have two: "2 \<le> card (set (map fst cl))" .
  have n: "length cl \<le> 316" using cl(4) hl(3) hd(3) by linarith
  from cl_code_ok [OF two cl(5) n] obtain freqs ls codes k where
    ls: "ofor (\<lambda>(s, x) f. bump f s) cl (replicate 19 0) = Some freqs"
      "huff_build_lengths freqs 19 7 = Some ls" "huff_assign_codes ls 19 = Some codes"
      "trim_zeros (\<lambda>k. rd CODELEN_ORDER k \<bind> rd ls) 4 19 = Some k" "codes_for codes ls"
      "length ls = 19" "4 \<le> k" "k \<le> 19" "\<forall>l \<in> set ls. l < 8"
      "cl_lengths (map (\<lambda>i. ls ! (CODELEN_ORDER ! i)) [0..<k]) = ls" "\<forall>c \<in> set cl. cl_ok ls c" by blast
  let ?p = "\<lparr>dp_lit_len = lit, dp_lit_code = lc, dp_dist_len = dist, dp_dist_code = dc,
    dp_hlit = hl, dp_hdist = hd, dp_cl = cl, dp_cl_len = ls, dp_cl_code = codes, dp_hclen = k\<rparr>"
  have "plan_header lit dist = Some ?p"
    unfolding plan_header_def Let_def lc(1) dc(1) hl(1) hd(1) bind.bind_lunit cl(1) ls(1-4) ..
  moreover have "plan_ok ?p"
    unfolding plan_ok_def plan_order_def using lc(2) dc(2) hl(2-4) hd(2-4) lit(2) dist(2) cl(3,6) ls(5-11) by simp
  ultimately show ?thesis by simp
qed

lemma plan_dynamic_ok:
  assumes ts: "tokens_ok [] ts" "ts \<noteq> []" "Suc (length ts) < 2 ^ 32"
    and counted: "counts 286 (lit_symbols ts) lf" "counts 30 (dist_list ts) df"
  shows "\<exists>p. plan_dynamic lf df = Some p \<and> plan_ok p \<and>
    (\<forall>i. has_code (dp_lit_len p) i \<longleftrightarrow> i \<in> set (lit_symbols ts)) \<and>
    (\<forall>d. has_code (dp_dist_len p) d \<longleftrightarrow> d \<in> coded_dists (dist_symbols ts))"
proof -
  have "length (lit_symbols ts) < 2 ^ 32" using ts(3) by (simp add: lit_symbols_def)
  then have "\<exists>ls. huff_build_lengths lf 286 15 = Some ls \<and> length ls = 286 \<and> valid_lengths ls \<and>
    kraft 15 ls = 2 ^ 15 \<and> (\<forall>l \<in> set ls. l \<le> 15) \<and> (\<forall>i. has_code ls i \<longleftrightarrow> i \<in> set (lit_symbols ts))"
    by (intro counts_lengths_ok [OF counted(1) lit_symbols_less])
      (use lit_symbols_two [OF ts(1,2)] in \<open>simp_all add: fibo_15\<close>)
  then obtain lit where lit: "huff_build_lengths lf 286 15 = Some lit" "length lit = 286"
    "valid_lengths lit" "kraft 15 lit = 2 ^ 15" "\<forall>i. has_code lit i \<longleftrightarrow> i \<in> set (lit_symbols ts)" by blast
  have "length ts < 2 ^ 32" using ts(3) by linarith
  from dist_lengths_ok [OF counted(2) this] obtain dist where
    dist: "dist_lengths df = Some dist" "length dist = 30" "valid_lengths dist"
    "\<forall>d. has_code dist d \<longleftrightarrow> d \<in> coded_dists (dist_symbols ts)" by blast
  have "has_code lit 256" using lit(5) by (simp add: lit_symbols_def)
  from plan_header_ok [OF lit(3,2,4) this dist(3,2)] obtain p where
    "plan_header lit dist = Some p" "plan_ok p" "dp_lit_len p = lit" "dp_dist_len p = dist" by blast
  with lit(1,5) dist(1,4) show ?thesis by (simp add: plan_dynamic_def)
qed

end
