(* ===== verification/Huffman_Decode.thy ===== *)
theory Huffman_Decode
  imports Huffman_Code
begin

text \<open>
  The decoding side of \<open>src/huffman.c\<close>: the table (\<open>huff_build_decoder\<close>) and the decoding of
  one symbol (\<open>huff_decode\<close>). The lemmas say which lengths are accepted, that a symbol is
  decoded from exactly the bits of its code, and that no input makes the decoder read outside
  its tables or a cell that was not written.
\<close>

section \<open>The decoder\<close>

text \<open>
  The symbol table starts uninitialised: a cell that has not been written is \<^const>\<open>None\<close>,
  and reading it is undefined.
\<close>

record huff_dec =
  hd_counts :: "nat list"
  hd_symbols :: "nat option list"

text \<open>The first loop counts the lengths and refuses one above 15.\<close>

fun tally :: "nat list \<Rightarrow> nat list \<Rightarrow> nat list \<Rightarrow> (dferr + nat list) option" where
  "tally lengths [] counts = Some (Inr counts)"
| "tally lengths (i # is) counts =
     (case rd lengths i of
        None \<Rightarrow> None
      | Some l \<Rightarrow>
          if l > MAX_CODE_BITS then Some (Inl DF_ERR_CORRUPT)
          else case rd counts l of
                 None \<Rightarrow> None
               | Some c \<Rightarrow>
                   (case wr counts l ((c + 1) mod 2 ^ 16) of
                      None \<Rightarrow> None
                    | Some counts \<Rightarrow> tally lengths is counts))"

text \<open>The second refuses an over-subscribed code.\<close>

fun check_left :: "nat list \<Rightarrow> nat list \<Rightarrow> int \<Rightarrow> (dferr + unit) option" where
  "check_left counts [] left = Some (Inr ())"
| "check_left counts (bits # bs) left =
     (case rd counts bits of
        None \<Rightarrow> None
      | Some c \<Rightarrow>
          (let left = left * 2 - int c in
           if left < 0 then Some (Inl DF_ERR_CORRUPT) else check_left counts bs left))"

definition symbol_offsets :: "nat list \<Rightarrow> nat list option" where
  "symbol_offsets counts =
     ofor (\<lambda>bits offsets. do {
         o' \<leftarrow> rd offsets bits;
         c \<leftarrow> rd counts bits;
         wr offsets (bits + 1) ((o' + c) mod 2 ^ 16) })
       [1..<16] (replicate 17 0)"

definition place_symbols ::
  "nat list \<Rightarrow> nat \<Rightarrow> nat list \<Rightarrow> (nat list \<times> nat option list) option" where
  "place_symbols lengths n offsets =
     ofor (\<lambda>i (offsets, symbols). do {
         l \<leftarrow> rd lengths i;
         if l \<noteq> 0 then do {
           k \<leftarrow> rd offsets l;
           offsets \<leftarrow> wr offsets l ((k + 1) mod 2 ^ 16);
           symbols \<leftarrow> wr symbols k (Some (i mod 2 ^ 16));
           Some (offsets, symbols) }
         else Some (offsets, symbols) })
       [0..<n] (offsets, replicate NUM_LITERALS None)"

definition huff_build_decoder :: "nat list \<Rightarrow> nat \<Rightarrow> (dferr + huff_dec) option" where
  "huff_build_decoder lengths n =
     (case tally lengths [0..<n] (replicate 16 0) of
        None \<Rightarrow> None
      | Some (Inl e) \<Rightarrow> Some (Inl e)
      | Some (Inr counts) \<Rightarrow>
          (let counts = counts[0 := 0] in
           case check_left counts [1..<16] 1 of
             None \<Rightarrow> None
           | Some (Inl e) \<Rightarrow> Some (Inl e)
           | Some (Inr _) \<Rightarrow> do {
               offsets \<leftarrow> symbol_offsets counts;
               (_, symbols) \<leftarrow> place_symbols lengths n offsets;
               Some (Inr \<lparr>hd_counts = counts, hd_symbols = symbols\<rparr>) }))"

fun decode_from ::
  "huff_dec \<Rightarrow> nat list \<Rightarrow> int \<Rightarrow> int \<Rightarrow> int \<Rightarrow> bitreader \<Rightarrow> ((dferr + nat) \<times> bitreader) option"
where
  "decode_from d [] code first index r = Some (Inl DF_ERR_CORRUPT, r)"
| "decode_from d (len # lens) code first index r =
     (case br_bits r 1 of
        None \<Rightarrow> None
      | Some (b, r) \<Rightarrow>
          (let code = code OR int (unat b) in
           case rd (hd_counts d) len of
             None \<Rightarrow> None
           | Some count \<Rightarrow>
               if code - first < int count then
                 (case rd_int (hd_symbols d) (index + (code - first)) of
                    Some (Some s) \<Rightarrow> Some (Inr s, r)
                  | _ \<Rightarrow> None)
               else decode_from d lens (code * 2) ((first + int count) * 2) (index + int count) r))"

definition huff_decode :: "huff_dec \<Rightarrow> bitreader \<Rightarrow> ((dferr + nat) \<times> bitreader) option" where
  "huff_decode d r = decode_from d [1..<16] 0 0 0 r"

section \<open>Building the table\<close>

lemma tally_ok:
  assumes "n \<le> length ls" "n \<le> 286" "k \<le> n" "\<forall>i < k. ls ! i \<le> 15"
    and "tabulates counts 16 (count_list (take k ls))"
  shows "if \<forall>i < n. ls ! i \<le> 15
    then \<exists>c. tally ls [k..<n] counts = Some (Inr c) \<and> tabulates c 16 (count_list (take n ls))
    else tally ls [k..<n] counts = Some (Inl DF_ERR_CORRUPT)"
  using assms(3-5)
proof (induction "n - k" arbitrary: k counts)
  case 0
  then show ?case by auto
next
  case (Suc m)
  then have k: "k < n" by simp
  then have up: "[k..<n] = k # [Suc k..<n]" by (rule upt_conv_Cons)
  have rdk: "rd ls k = Some (ls ! k)" using k assms(1) by simp
  show ?case
  proof (cases "ls ! k \<le> 15")
    case False
    then show ?thesis using k rdk by (auto simp: up)
  next
    case True
    then have l: "ls ! k < 16" by simp
    let ?c = "count_list (take k ls) (ls ! k)"
    have "?c \<le> 286" using count_le_length [of "take k ls" "ls ! k"] k assms(2) by simp
    then have m: "(?c + 1) mod 2 ^ 16 = ?c + 1" by simp
    from tabulates_wr [OF Suc.prems(3) l, of "?c + 1"] obtain ys where
      ys: "wr counts (ls ! k) (?c + 1) = Some ys"
        "tabulates ys 16 ((count_list (take k ls))(ls ! k := ?c + 1))" by blast
    have "tabulates ys 16 (count_list (take (Suc k) ls))"
      using k assms(1) by (intro tabulates_cong [OF ys(2)]) (simp add: take_Suc_conv_app_nth)
    moreover have "\<forall>i < Suc k. ls ! i \<le> 15" using Suc.prems(2) True by (simp add: less_Suc_eq)
    ultimately have "if \<forall>i < n. ls ! i \<le> 15
      then \<exists>c. tally ls [Suc k..<n] ys = Some (Inr c) \<and> tabulates c 16 (count_list (take n ls))
      else tally ls [Suc k..<n] ys = Some (Inl DF_ERR_CORRUPT)"
      using k Suc.hyps(2) by (intro Suc.hyps(1)) auto
    moreover have "tally ls [k..<n] counts = tally ls [Suc k..<n] ys"
      using True rdk tabulates_rd [OF Suc.prems(3) l] ys(1) m by (simp add: up)
    ultimately show ?thesis by simp
  qed
qed

lemma check_left_ok:
  assumes counts: "tabulates counts 16 (num_codes ls)"
    and "1 \<le> k" "k \<le> 16" "\<forall>l < k. first_code ls l + num_codes ls l \<le> 2 ^ l"
  shows "check_left counts [k..<16] (2 ^ (k - 1) - int (first_code ls (k - 1) + num_codes ls (k - 1))) =
    Some (if \<forall>l < 16. first_code ls l + num_codes ls l \<le> 2 ^ l then Inr () else Inl DF_ERR_CORRUPT)"
  using assms(2-4)
proof (induction "16 - k" arbitrary: k)
  case 0
  then show ?case by simp
next
  case (Suc m)
  then have k: "k < 16" by simp
  then have up: "[k..<16] = k # [Suc k..<16]" by (rule upt_conv_Cons)
  from Suc.prems(1) obtain j where j: "k = Suc j" by (cases k) auto
  let ?left = "2 ^ k - int (first_code ls k + num_codes ls k)"
  have left: "(2 ^ (k - 1) - int (first_code ls (k - 1) + num_codes ls (k - 1))) * 2
      - int (num_codes ls k) = ?left"
    by (simp add: j)
  have c: "rd counts k = Some (num_codes ls k)" by (rule tabulates_rd [OF counts k])
  show ?case
  proof (cases "first_code ls k + num_codes ls k \<le> 2 ^ k")
    case True
    then have "int (first_code ls k + num_codes ls k) \<le> int (2 ^ k)" by (subst of_nat_le_iff)
    then have nonneg: "\<not> ?left < 0" by simp
    have "\<forall>l < Suc k. first_code ls l + num_codes ls l \<le> 2 ^ l"
      using Suc.prems(3) True by (simp add: less_Suc_eq)
    with Suc.hyps(2) k have "check_left counts [Suc k..<16]
        (2 ^ (Suc k - 1) - int (first_code ls (Suc k - 1) + num_codes ls (Suc k - 1))) =
      Some (if \<forall>l < 16. first_code ls l + num_codes ls l \<le> 2 ^ l then Inr () else Inl DF_ERR_CORRUPT)"
      by (intro Suc.hyps(1)) auto
    moreover have "check_left counts [k..<16]
        (2 ^ (k - 1) - int (first_code ls (k - 1) + num_codes ls (k - 1))) =
        check_left counts [Suc k..<16] ?left"
      unfolding up check_left.simps c option.case Let_def left by (simp only: nonneg if_False)
    ultimately show ?thesis by simp
  next
    case False
    then have "int (2 ^ k) < int (first_code ls k + num_codes ls k)" by (subst of_nat_less_iff) simp
    then have neg: "?left < 0" by simp
    have "check_left counts [k..<16]
        (2 ^ (k - 1) - int (first_code ls (k - 1) + num_codes ls (k - 1))) = Some (Inl DF_ERR_CORRUPT)"
      unfolding up check_left.simps c option.case Let_def left by (simp only: neg if_True)
    moreover have "\<not> (\<forall>l < 16. first_code ls l + num_codes ls l \<le> 2 ^ l)" using False k by blast
    ultimately show ?thesis by simp
  qed
qed

lemma kraft_space_iff:
  assumes "\<forall>l \<in> set ls. l \<le> 15"
  shows "(\<forall>l < 16. first_code ls l + num_codes ls l \<le> 2 ^ l) \<longleftrightarrow> kraft 15 ls \<le> 2 ^ 15"
proof
  assume space: "\<forall>l < 16. first_code ls l + num_codes ls l \<le> 2 ^ l"
  have "first_code ls 15 + num_codes ls 15 \<le> 2 ^ 15" by (rule space [rule_format]) simp
  moreover have "filter (\<lambda>x. x \<le> 15) ls = ls" using assms by simp
  ultimately show "kraft 15 ls \<le> 2 ^ 15" using used_space [of ls 15] by simp
next
  assume k: "kraft 15 ls \<le> 2 ^ 15"
  show "\<forall>l < 16. first_code ls l + num_codes ls l \<le> 2 ^ l"
    by (intro allI impI code_space [OF k]) simp
qed

text \<open>The place of a symbol in the table.\<close>

definition symbol_pos :: "nat list \<Rightarrow> nat \<Rightarrow> nat" where
  "symbol_pos ls i = first_index ls (ls ! i) + num_codes (take i ls) (ls ! i)"

lemma first_index_eq: "first_index ls l = length (filter (\<lambda>x. x \<noteq> 0 \<and> x < l) ls)"
proof (induction l)
  case (Suc l)
  have "length (filter (\<lambda>x. x \<noteq> 0 \<and> x < Suc l) ls) =
      length (filter (\<lambda>x. x \<noteq> 0 \<and> x < l) ls) + num_codes ls l"
    by (induction ls) (auto simp: num_codes_def less_Suc_eq)
  with Suc show ?case by simp
qed simp

lemma first_index_le: "first_index ls l \<le> length ls"
  by (simp add: first_index_eq)

lemma first_index_mono: "l \<le> l' \<Longrightarrow> first_index ls l \<le> first_index ls l'"
  by (rule lift_Suc_mono_le [of "first_index ls"]) simp_all

lemma symbol_pos_bounds:
  assumes "i < length ls" "ls ! i \<noteq> 0"
  shows "first_index ls (ls ! i) \<le> symbol_pos ls i" "symbol_pos ls i < first_index ls (Suc (ls ! i))"
  using assms count_list_take_less [of i ls] by (simp_all add: symbol_pos_def num_codes_def)

lemma symbol_pos_less: "i < length ls \<Longrightarrow> ls ! i \<noteq> 0 \<Longrightarrow> symbol_pos ls i < length ls"
  using symbol_pos_bounds(2) first_index_le less_le_trans by blast

lemma symbol_pos_inj:
  assumes "i < j" "j < length ls" "ls ! i \<noteq> 0" "ls ! j \<noteq> 0"
  shows "symbol_pos ls i \<noteq> symbol_pos ls j"
proof (cases "ls ! i = ls ! j")
  case True
  have "take j ls = take i ls @ ls ! i # drop (Suc i) (take j ls)"
    using id_take_nth_drop [of i "take j ls"] assms by (simp add: min_def)
  then have "count_list (take j ls) (ls ! i) =
      count_list (take i ls @ ls ! i # drop (Suc i) (take j ls)) (ls ! i)" by simp
  then have "count_list (take i ls) (ls ! i) < count_list (take j ls) (ls ! i)" by simp
  with True assms show ?thesis by (simp add: symbol_pos_def num_codes_def)
next
  case False
  have i: "i < length ls" using assms by simp
  note bi = symbol_pos_bounds [OF i assms(3)] and bj = symbol_pos_bounds [OF assms(2,4)]
  from False consider "Suc (ls ! i) \<le> ls ! j" | "Suc (ls ! j) \<le> ls ! i" by linarith
  then show ?thesis
  proof cases
    case 1
    from first_index_mono [OF this, of ls] bi bj show ?thesis by linarith
  next
    case 2
    from first_index_mono [OF this, of ls] bi bj show ?thesis by linarith
  qed
qed

text \<open>Every slot of a length's range belongs to a symbol of that length.\<close>

lemma occurrence:
  "j < count_list ls x \<Longrightarrow> \<exists>i < length ls. ls ! i = x \<and> count_list (take i ls) x = j"
proof (induction ls rule: rev_induct)
  case (snoc y ys)
  show ?case
  proof (cases "j < count_list ys x")
    case True
    with snoc.IH obtain i where "i < length ys" "ys ! i = x" "count_list (take i ys) x = j" by blast
    then show ?thesis by (intro exI [of _ i]) (simp add: nth_append)
  next
    case False
    with snoc.prems have "y = x" "j = count_list ys x" by (auto split: if_splits)
    then show ?thesis by (intro exI [of _ "length ys"]) simp
  qed
qed simp

lemma symbol_offsets_ok:
  assumes counts: "tabulates counts 16 (num_codes ls)" and len: "length ls \<le> 286"
  shows "\<exists>os. symbol_offsets counts = Some os \<and> tabulates os 17 (first_index ls)"
proof -
  let ?f = "\<lambda>b l. if l \<le> b then first_index ls l else 0"
  let ?I = "\<lambda>b os. tabulates os 17 (?f b)"
  have "\<exists>os. symbol_offsets counts = Some os \<and> ?I 16 os"
    unfolding symbol_offsets_def
  proof (rule ofor_upt_rule [where I = ?I])
    show "?I 1 (replicate 17 0)"
      by (rule tabulates_cong [OF tabulates_replicate]) (auto simp: le_Suc_eq num_codes_def)
  next
    fix b os
    assume b: "1 \<le> b" "b < 16" and os: "?I b os"
    have "first_index ls (Suc b) \<le> 286" using first_index_le len le_trans by blast
    then have m: "(first_index ls b + num_codes ls b) mod 65536 = first_index ls (Suc b)" by simp
    from b have b': "b < 17" "b + 1 < 17" by simp_all
    from tabulates_wr [OF os b'(2), of "first_index ls (Suc b)"] obtain ys where
      ys: "wr os (b + 1) (first_index ls (Suc b)) = Some ys"
        "tabulates ys 17 ((?f b)(b + 1 := first_index ls (Suc b)))" by blast
    have "?I (Suc b) ys" by (rule tabulates_cong [OF ys(2)]) auto
    then show "\<exists>os'. (rd os b \<bind> (\<lambda>o'. rd counts b \<bind> (\<lambda>c. wr os (b + 1) ((o' + c) mod 2 ^ 16)))) =
        Some os' \<and> ?I (Suc b) os'"
      using tabulates_rd [OF os b'(1)] tabulates_rd [OF counts b(2)] ys(1) by (simp add: m)
  qed simp
  then show ?thesis by (auto elim!: tabulates_cong)
qed

lemma place_symbols_ok:
  assumes os: "tabulates os 17 (first_index (take n ls))"
    and n: "n \<le> length ls" "n \<le> 286" and le15: "\<forall>l \<in> set (take n ls). l \<le> 15"
  shows "\<exists>os' symbols. place_symbols ls n os = Some (os', symbols) \<and>
    (\<forall>i < n. ls ! i \<noteq> 0 \<longrightarrow> symbol_pos (take n ls) i < length symbols \<and>
       symbols ! symbol_pos (take n ls) i = Some i)"
proof -
  let ?ls = "take n ls"
  let ?f = "\<lambda>k l. first_index ?ls l + num_codes (take k ?ls) l"
  let ?I = "\<lambda>k (os, symbols). tabulates os 17 (?f k) \<and> length symbols = 286 \<and>
    (\<forall>i < k. ls ! i \<noteq> 0 \<longrightarrow> symbols ! symbol_pos ?ls i = Some i)"
  have "\<exists>s. place_symbols ls n os = Some s \<and> ?I n s"
    unfolding place_symbols_def
  proof (rule ofor_upt_rule [where I = ?I])
    show "?I 0 (os, replicate NUM_LITERALS None)"
      using os by simp
  next
    fix k s
    assume k: "k < n" and inv: "?I k s"
    obtain os symbols where s: "s = (os, symbols)" by (cases s)
    with inv have os: "tabulates os 17 (?f k)" and len: "length symbols = 286"
      and placed: "\<forall>i < k. ls ! i \<noteq> 0 \<longrightarrow> symbols ! symbol_pos ?ls i = Some i" by auto
    have kl: "k < length ls" "k < length ?ls" "?ls ! k = ls ! k" using k n(1) by simp_all
    have "ls ! k \<in> set ?ls" using kl(2,3) by (metis nth_mem)
    with le15 have l: "ls ! k < 17" by auto
    show "\<exists>s'. (case s of (offsets, symbols) \<Rightarrow> rd ls k \<bind> (\<lambda>l. if l \<noteq> 0
          then rd offsets l \<bind> (\<lambda>j. wr offsets l ((j + 1) mod 2 ^ 16) \<bind>
            (\<lambda>offsets. wr symbols j (Some (k mod 2 ^ 16)) \<bind> (\<lambda>symbols. Some (offsets, symbols))))
          else Some (offsets, symbols))) = Some s' \<and> ?I (Suc k) s'"
    proof (cases "ls ! k = 0")
      case True
      have "tabulates os 17 (?f (Suc k))"
        by (rule tabulates_cong [OF os]) (use True kl in \<open>auto simp: num_codes_take_Suc\<close>)
      with True kl placed len show ?thesis by (simp add: s less_Suc_eq)
    next
      case False
      let ?p = "symbol_pos ?ls k"
      have p: "?f k (ls ! k) = ?p" by (simp add: symbol_pos_def kl)
      have p_less: "?p < length ?ls" by (rule symbol_pos_less) (use kl False in auto)
      then have m: "Suc ?p mod 65536 = Suc ?p" and p286: "?p < length symbols" using n(2) len by simp_all
      from tabulates_wr [OF os l, of "Suc ?p"] obtain xs where
        xs: "wr os (ls ! k) (Suc ?p) = Some xs" "tabulates xs 17 ((?f k)(ls ! k := Suc ?p))" by blast
      have "tabulates xs 17 (?f (Suc k))"
        by (rule tabulates_cong [OF xs(2)]) (use kl p False in \<open>auto simp: num_codes_take_Suc\<close>)
      moreover have "\<forall>i < Suc k. ls ! i \<noteq> 0 \<longrightarrow>
          symbols[?p := Some k] ! symbol_pos ?ls i = Some i"
      proof (intro allI impI)
        fix i
        assume i: "i < Suc k" "ls ! i \<noteq> 0"
        show "symbols[?p := Some k] ! symbol_pos ?ls i = Some i"
        proof (cases "i = k")
          case True
          with p286 show ?thesis by simp
        next
          case neq: False
          with i have "i < k" by simp
          with symbol_pos_inj [of i k ?ls] i kl False have "?p \<noteq> symbol_pos ?ls i" by simp
          with placed \<open>i < k\<close> i show ?thesis by simp
        qed
      qed
      ultimately show ?thesis
        using kl False xs(1) p286 len tabulates_rd [OF os l] p m k n(2) by (simp add: s)
    qed
  qed simp
  then obtain os' symbols where "place_symbols ls n os = Some (os', symbols)"
    and len: "length symbols = 286"
    and placed: "\<forall>i < n. ls ! i \<noteq> 0 \<longrightarrow> symbols ! symbol_pos ?ls i = Some i" by auto
  moreover have "symbol_pos ?ls i < length symbols" if "i < n" "ls ! i \<noteq> 0" for i
    using symbol_pos_less [of i ?ls] that n len by simp
  ultimately show ?thesis by auto
qed

text \<open>A table \<open>d\<close> that decodes the code with lengths \<open>ls\<close>.\<close>

definition decoder_of :: "huff_dec \<Rightarrow> nat list \<Rightarrow> bool" where
  "decoder_of d ls \<longleftrightarrow> tabulates (hd_counts d) 16 (num_codes ls) \<and>
     (\<forall>i < length ls. ls ! i \<noteq> 0 \<longrightarrow>
        symbol_pos ls i < length (hd_symbols d) \<and> hd_symbols d ! symbol_pos ls i = Some i)"

text \<open>Exactly the lengths that are not over-subscribed are accepted, and none is undefined.\<close>

lemma huff_build_decoder_ok:
  assumes n: "n \<le> length ls" "n \<le> 286"
  shows "if valid_lengths (take n ls)
    then \<exists>d. huff_build_decoder ls n = Some (Inr d) \<and> decoder_of d (take n ls)
    else huff_build_decoder ls n = Some (Inl DF_ERR_CORRUPT)"
proof -
  let ?ls = "take n ls"
  have set_iff: "(\<forall>i < n. ls ! i \<le> 15) \<longleftrightarrow> (\<forall>l \<in> set ?ls. l \<le> 15)"
    using n(1) by (auto simp: all_set_conv_all_nth)
  have tally: "if \<forall>i < n. ls ! i \<le> 15
    then \<exists>c. tally ls [0..<n] (replicate 16 0) = Some (Inr c) \<and> tabulates c 16 (count_list ?ls)
    else tally ls [0..<n] (replicate 16 0) = Some (Inl DF_ERR_CORRUPT)"
    by (rule tally_ok [OF n]) (auto intro: tabulates_cong [OF tabulates_replicate])
  show ?thesis
  proof (cases "\<forall>l \<in> set ?ls. l \<le> 15")
    case False
    with tally set_iff show ?thesis by (simp add: huff_build_decoder_def valid_lengths_def)
  next
    case True
    with tally set_iff obtain c where c: "tally ls [0..<n] (replicate 16 0) = Some (Inr c)"
      "tabulates c 16 (count_list ?ls)" by auto
    have c0: "tabulates (c[0 := 0]) 16 (num_codes ?ls)"
      using c(2) by (auto simp: tabulates_def num_codes_def nth_list_update)
    have "check_left (c[0 := 0]) [1..<16] 1 =
        Some (if kraft 15 ?ls \<le> 2 ^ 15 then Inr () else Inl DF_ERR_CORRUPT)"
      using check_left_ok [OF c0, of 1] by (simp add: kraft_space_iff [OF True])
    moreover have "valid_lengths ?ls \<longleftrightarrow> kraft 15 ?ls \<le> 2 ^ 15"
      using True n by (simp add: valid_lengths_def)
    ultimately have left: "check_left (c[0 := 0]) [1..<16] 1 =
        Some (if valid_lengths ?ls then Inr () else Inl DF_ERR_CORRUPT)" by simp
    show ?thesis
    proof (cases "valid_lengths ?ls")
      case False
      with left c(1) show ?thesis by (simp add: huff_build_decoder_def)
    next
      case valid: True
      have "length ?ls \<le> 286" using n by simp
      from symbol_offsets_ok [OF c0 this] obtain os where
        os: "symbol_offsets (c[0 := 0]) = Some os" "tabulates os 17 (first_index ?ls)" by blast
      from place_symbols_ok [OF os(2) n True] obtain os' symbols where
        ps: "place_symbols ls n os = Some (os', symbols)"
          "\<forall>i < n. ls ! i \<noteq> 0 \<longrightarrow> symbol_pos ?ls i < length symbols \<and>
             symbols ! symbol_pos ?ls i = Some i" by blast
      from left c(1) os(1) ps(1) valid
      have "huff_build_decoder ls n = Some (Inr \<lparr>hd_counts = c[0 := 0], hd_symbols = symbols\<rparr>)"
        by (simp add: huff_build_decoder_def)
      with c0 ps(2) n valid show ?thesis by (auto simp: decoder_of_def)
    qed
  qed
qed

section \<open>Decoding a symbol\<close>

lemma or_bit:
  assumes "even (c :: int)"
  shows "c OR of_bool b = c + of_bool b"
  using assms by (cases b) (simp_all add: or_one_eq)

lemma unat_of_bool: "int (unat (of_bool b :: u32)) = of_bool b"
  by (cases b) simp_all

lemma shift_step:
  fixes c :: nat
  assumes "k < l"
  shows "2 * (c div 2 ^ (l - k)) + of_bool (bit c (l - Suc k)) = c div 2 ^ (l - Suc k)"
proof -
  have "c div 2 ^ (l - k) = c div 2 ^ (l - Suc k) div 2"
    using assms by (metis Suc_diff_Suc div_mult2_eq power_Suc2)
  then show ?thesis by (simp add: bit_iff_odd)
qed

text \<open>
  Decoding a symbol's code from the bit after the first \<open>k\<close>: the accumulated code is the
  prefix read so far, beyond every code of a shorter length.
\<close>

lemma decode_from_code:
  assumes d: "decoder_of d ls" and i: "i < length ls" "ls ! i \<noteq> 0" "ls ! i \<le> 15"
    and fits: "code_of ls i < 2 ^ (ls ! i)"
    and "k < ls ! i" "br_ok r"
    and "r_stream r = drop k (code_bits ls i) @ rest"
  shows "\<exists>r'. decode_from d [Suc k..<16] (2 * int (code_of ls i div 2 ^ (ls ! i - k)))
      (int (first_code ls (Suc k))) (int (first_index ls (Suc k))) r = Some (Inr i, r') \<and>
    br_ok r' \<and> same_input r r' \<and> r_underflow r' = r_underflow r \<and> r_stream r' = rest"
  using assms(6-8)
proof (induction "ls ! i - k" arbitrary: k r)
  case 0
  then show ?case by simp
next
  case (Suc m)
  let ?l = "ls ! i" and ?c = "code_of ls i"
  let ?b = "bit ?c (?l - Suc k)"
  let ?v = "?c div 2 ^ (?l - Suc k)"
  have up: "[Suc k..<16] = Suc k # [Suc (Suc k)..<16]"
    using Suc.prems(1) i(3) by (intro upt_conv_Cons) simp
  have "drop k (code_bits ls i) = code_bits ls i ! k # drop (Suc k) (code_bits ls i)"
    by (rule Cons_nth_drop_Suc [symmetric]) (simp add: code_bits_def Suc.prems(1))
  then have st: "r_stream r = [?b] @ (drop (Suc k) (code_bits ls i) @ rest)"
    using Suc.prems(1,3) by (simp add: code_bits_def)
  from reads_bit Suc.prems(2) st obtain s where s: "br_bits r 1 = Some (of_bool ?b, s)" "br_ok s"
    "same_input r s" "r_underflow s = r_underflow r"
    "r_stream s = drop (Suc k) (code_bits ls i) @ rest" by (rule readsD)
  have code: "(2 * int (?c div 2 ^ (?l - k))) OR int (unat (of_bool ?b :: u32)) = int ?v"
  proof -
    have "(2 * int (?c div 2 ^ (?l - k))) OR of_bool ?b = 2 * int (?c div 2 ^ (?l - k)) + of_bool ?b"
      by (rule or_bit) simp
    also have "\<dots> = int ?v"
      unfolding shift_step [OF Suc.prems(1), of ?c, symmetric] by simp
    finally show ?thesis by (simp only: unat_of_bool)
  qed
  have count: "rd (hd_counts d) (Suc k) = Some (num_codes ls (Suc k))"
    using d Suc.prems(1) i(3) by (auto simp: decoder_of_def intro: tabulates_rd)
  let ?F = "int (first_code ls (Suc k))" and ?I = "int (first_index ls (Suc k))"
    and ?N = "int (num_codes ls (Suc k))"
  have step: "decode_from d [Suc k..<16] (2 * int (?c div 2 ^ (?l - k))) ?F ?I r =
      (if int ?v - ?F < ?N then
         (case rd_int (hd_symbols d) (?I + (int ?v - ?F)) of Some (Some s') \<Rightarrow> Some (Inr s', s) | _ \<Rightarrow> None)
       else decode_from d [Suc (Suc k)..<16] (int ?v * 2) ((?F + ?N) * 2) (?I + ?N) s)"
    unfolding up decode_from.simps s(1) option.case prod.case Let_def code count ..
  note bounds = code_of_bounds [OF i(1,2)]
  show ?case
  proof (cases "Suc k = ?l")
    case True
    then have v: "?v = ?c" by simp
    have "rd_int (hd_symbols d) (?I + (int ?c - ?F)) = Some (Some i)"
    proof -
      have "?I + (int ?c - ?F) = int (symbol_pos ls i)"
        using bounds(1) code_of_eq [of ls i] i(2) unfolding True by (simp add: symbol_pos_def)
      then show ?thesis using d i(1,2) by (simp add: rd_int_def decoder_of_def)
    qed
    moreover have "int ?c - ?F < ?N" using bounds(2) unfolding True by linarith
    ultimately show ?thesis using s True unfolding step v by (simp add: code_bits_def)
  next
    case False
    with Suc.prems(1) have k': "Suc k < ?l" by simp
    have ge: "first_code ls (Suc k) + num_codes ls (Suc k) \<le> ?v"
    proof -
      have "2 ^ (?l - Suc k) * (first_code ls (Suc k) + num_codes ls (Suc k)) \<le> first_code ls ?l"
        by (rule first_code_mono [OF k'])
      also have "\<dots> \<le> ?c" by (rule bounds(1))
      finally show ?thesis by (simp add: less_eq_div_iff_mult_less_eq mult.commute)
    qed
    have "\<exists>r'. decode_from d [Suc (Suc k)..<16] (2 * int ?v) (int (first_code ls (Suc (Suc k))))
        (int (first_index ls (Suc (Suc k)))) s = Some (Inr i, r') \<and>
      br_ok r' \<and> same_input s r' \<and> r_underflow r' = r_underflow s \<and> r_stream r' = rest"
      using Suc.hyps(2) k' s by (intro Suc.hyps(1)) auto
    moreover have "int (first_code ls (Suc (Suc k))) = (?F + ?N) * 2"
      "int (first_index ls (Suc (Suc k))) = ?I + ?N" by simp_all
    moreover have "\<not> int ?v - ?F < ?N" using ge by linarith
    ultimately show ?thesis
      using s(3,4) unfolding step by (auto simp: mult.commute intro: same_input_trans)
  qed
qed

text \<open>A symbol's code is decoded to the symbol, and nothing after it is consumed.\<close>

lemma huff_decode_code:
  assumes "decoder_of d ls" "valid_lengths ls" "i < length ls" "ls ! i \<noteq> 0"
  shows "reads (huff_decode d) (code_bits ls i) (Inr i)"
  unfolding reads_def
proof (intro allI impI, elim conjE)
  fix r rest
  assume ok: "br_ok r" and st: "r_stream r = code_bits ls i @ rest"
  have l: "ls ! i \<le> 15" by (rule valid_lengths_nth [OF assms(2,3)])
  have fits: "code_of ls i < 2 ^ (ls ! i)"
    using code_of_bounds(2) [OF assms(3,4)] valid_code_space [OF assms(2) l] by linarith
  from st have st': "r_stream r = drop 0 (code_bits ls i) @ rest" by simp
  from decode_from_code [OF assms(1,3,4) l fits _ ok st'] assms(4) fits
  show "\<exists>r'. huff_decode d r = Some (Inr i, r') \<and> br_ok r' \<and> same_input r r' \<and>
      r_underflow r' = r_underflow r \<and> r_stream r' = rest"
    by (simp add: huff_decode_def)
qed

text \<open>
  On any input the loop stays inside its tables: it fails, or it returns a symbol that has a
  code, and then it has consumed exactly that code unless the input ran out.
\<close>

lemma bits_msb_snoc: "bits_msb (Suc k) (2 * v + of_bool b :: nat) = bits_msb k v @ [b]"
proof -
  have "bits_lsb (Suc k) (2 * v + of_bool b :: nat) = b # bits_lsb k v"
    by (rule nth_equalityI) (auto simp: nth_Cons bit_Suc bit_0 split: nat.splits)
  then show ?thesis by (simp add: bits_msb_def)
qed

lemma one_bit_word:
  assumes "take_bit 1 (v :: u32) = v"
  shows "v = of_bool (bit v 0)" "bits_lsb 1 v = [bit v 0]"
proof -
  have "take_bit 1 v = v mod 2" by (simp add: take_bit_eq_mod)
  then show "v = of_bool (bit v 0)"
    using assms by (cases "odd v") (auto simp: bit_0 mod2_eq_if)
qed (simp add: bits_lsb_def)

definition decode_result :: "nat list \<Rightarrow> bool list \<Rightarrow> bitreader \<Rightarrow> dferr + nat \<Rightarrow> bitreader \<Rightarrow> bool" where
  "decode_result ls p r res r' \<longleftrightarrow> br_ok r' \<and> same_input r r' \<and> br_left r' \<le> br_left r \<and>
     (case res of
        Inl e \<Rightarrow> e = DF_ERR_CORRUPT
      | Inr s \<Rightarrow> s < length ls \<and> ls ! s \<noteq> 0 \<and> (\<not> r_underflow r' \<longrightarrow>
          br_left r' < br_left r \<and> p @ r_stream r = code_bits ls s @ r_stream r'))"

lemma decode_from_total:
  assumes d: "decoder_of d ls" and "k \<le> 15" "br_ok r" "first_code ls (Suc k) \<le> 2 * v"
  shows "\<exists>res r'. decode_from d [Suc k..<16] (2 * int v) (int (first_code ls (Suc k)))
      (int (first_index ls (Suc k))) r = Some (res, r') \<and> decode_result ls (bits_msb k v) r res r'"
  using assms(2-4)
proof (induction "15 - k" arbitrary: k r v)
  case 0
  then have "[Suc k..<16] = []" by simp
  with 0 show ?case by (simp add: decode_result_def)
next
  case (Suc m)
  then have k: "Suc k < 16" by simp
  have up: "[Suc k..<16] = Suc k # [Suc (Suc k)..<16]" using k by (rule upt_conv_Cons)
  obtain w s where s: "br_bits r 1 = Some (w, s)" "br_ok s" "same_input r s" "take_bit 1 w = w"
    "br_left s \<le> br_left r" "\<not> r_underflow s \<Longrightarrow> br_left s + 1 = br_left r"
    "\<not> r_underflow s \<Longrightarrow> r_stream r = bits_lsb 1 w @ r_stream s"
    by (rule br_bits_left [OF Suc.prems(2), of 1]) auto
  let ?b = "bit w 0" and ?F = "int (first_code ls (Suc k))" and ?I = "int (first_index ls (Suc k))"
    and ?N = "int (num_codes ls (Suc k))"
  let ?v = "2 * v + of_bool ?b"
  have code: "(2 * int v) OR int (unat w) = int ?v"
    by (subst one_bit_word(1) [OF s(4)]) (simp only: unat_of_bool or_bit dvd_triv_left, simp)
  have count: "rd (hd_counts d) (Suc k) = Some (num_codes ls (Suc k))"
    using d k by (auto simp: decoder_of_def intro: tabulates_rd)
  have step: "decode_from d [Suc k..<16] (2 * int v) ?F ?I r =
      (if int ?v - ?F < ?N then
         (case rd_int (hd_symbols d) (?I + (int ?v - ?F)) of Some (Some s') \<Rightarrow> Some (Inr s', s) | _ \<Rightarrow> None)
       else decode_from d [Suc (Suc k)..<16] (int ?v * 2) ((?F + ?N) * 2) (?I + ?N) s)"
    unfolding up decode_from.simps s(1) option.case prod.case Let_def code count ..
  have bits: "\<not> r_underflow s \<Longrightarrow> bits_msb k v @ r_stream r = bits_msb (Suc k) ?v @ r_stream s"
    using s(7) one_bit_word(2) [OF s(4)] by (simp add: bits_msb_snoc)
  have ge: "first_code ls (Suc k) \<le> ?v" using Suc.prems(3) by simp
  show ?case
  proof (cases "?v < first_code ls (Suc k) + num_codes ls (Suc k)")
    case True
    then have "?v - first_code ls (Suc k) < count_list ls (Suc k)" using ge by (simp add: num_codes_def)
    from occurrence [OF this] obtain i where i: "i < length ls" "ls ! i = Suc k"
      "count_list (take i ls) (Suc k) = ?v - first_code ls (Suc k)" by blast
    have pos: "?I + (int ?v - ?F) = int (symbol_pos ls i)"
      using i ge by (simp add: symbol_pos_def num_codes_def)
    have "code_of ls i = ?v" using i ge by (simp add: code_of_def)
    then have "code_bits ls i = bits_msb (Suc k) ?v" by (simp add: code_bits_def i)
    moreover have "rd_int (hd_symbols d) (int (symbol_pos ls i)) = Some (Some i)"
      using d i by (simp add: rd_int_def decoder_of_def)
    moreover have "int ?v - ?F < ?N" using True by linarith
    ultimately show ?thesis
      using s(2,3,5,6) bits i unfolding step pos by (auto simp: decode_result_def)
  next
    case False
    then have "first_code ls (Suc (Suc k)) \<le> 2 * ?v" by simp
    moreover have "m = 15 - Suc k" "Suc k \<le> 15" using Suc.hyps(2) k by simp_all
    ultimately obtain res r' where
      r': "decode_from d [Suc (Suc k)..<16] (2 * int ?v) (int (first_code ls (Suc (Suc k))))
        (int (first_index ls (Suc (Suc k)))) s = Some (res, r')"
        "decode_result ls (bits_msb (Suc k) ?v) s res r'"
      using Suc.hyps(1) s(2) by blast
    have "\<not> int ?v - ?F < ?N" using False by linarith
    moreover have "int (first_code ls (Suc (Suc k))) = (?F + ?N) * 2"
      "int (first_index ls (Suc (Suc k))) = ?I + ?N" by simp_all
    ultimately have "decode_from d [Suc k..<16] (2 * int v) ?F ?I r = Some (res, r')"
      using r'(1) unfolding step by (simp add: mult.commute)
    moreover have "decode_result ls (bits_msb k v) r res r'"
    proof -
      have "\<not> r_underflow r' \<Longrightarrow> \<not> r_underflow s"
        using r'(2) by (auto simp: decode_result_def simp flip: br_left_0_iff)
      with r'(2) s(3,5) bits show ?thesis
        by (auto simp: decode_result_def intro: same_input_trans split: sum.splits)
    qed
    ultimately show ?thesis by blast
  qed
qed

lemma huff_decode_total:
  assumes "decoder_of d ls" "br_ok r"
  obtains res r' where "huff_decode d r = Some (res, r')" "decode_result ls [] r res r'"
proof -
  have "first_code ls (Suc 0) \<le> 2 * 0" by simp
  from decode_from_total [OF assms(1) _ assms(2) this]
  have "\<exists>res r'. huff_decode d r = Some (res, r') \<and> decode_result ls [] r res r'"
    by (simp add: huff_decode_def bits_msb_def)
  with that show thesis by blast
qed

text \<open>For the termination of the loops that decode symbols: a decoded symbol costs a bit.\<close>

lemma decode_from_decr:
  "decode_from d lens code first index r = Some (res, r') \<Longrightarrow>
     br_left r' \<le> br_left r \<and> (lens \<noteq> [] \<longrightarrow> \<not> r_underflow r' \<longrightarrow> br_left r' < br_left r)"
proof (induction lens arbitrary: code first index r)
  case (Cons len lens)
  from Cons.prems obtain w s where s: "br_bits r 1 = Some (w, s)" by (auto split: option.splits)
  from Cons.prems s consider "r' = s"
    | code' first' index' where "decode_from d lens code' first' index' s = Some (res, r')"
    by (auto simp: Let_def split: option.splits if_splits)
  then show ?case
  proof cases
    case 1
    with br_bits_decr [OF s] show ?thesis by auto
  next
    case 2
    from Cons.IH [OF this] br_bits_decr [OF s] show ?thesis
      by (auto simp flip: br_left_0_iff)
  qed
qed simp

lemma huff_decode_decr:
  assumes "huff_decode d r = Some (res, r')"
  shows "br_left r' \<le> br_left r" "\<not> r_underflow r' \<Longrightarrow> br_left r' < br_left r"
  using decode_from_decr [OF assms [unfolded huff_decode_def]] by auto

section \<open>Properties\<close>

text \<open>
  C38: \<open>huff_build_decoder\<close> is defined on every table of at most 286 lengths, whatever they are; it
  reports \<open>DF_ERR_CORRUPT\<close> exactly when a length exceeds 15 or the code is over-subscribed.
\<close>

theorem build_decoder_rejects_oversubscribed:
  assumes "length ls \<le> 286"
  shows "if (\<exists>l \<in> set ls. l > 15) \<or> kraft 15 ls > 2 ^ 15
    then huff_build_decoder ls (length ls) = Some (Inl DF_ERR_CORRUPT)
    else \<exists>d. huff_build_decoder ls (length ls) = Some (Inr d)"
  using huff_build_decoder_ok [of "length ls" ls] assms
  by (auto simp: valid_lengths_def not_le not_less split: if_splits)

theorem build_decoder_rejects_oversubscribed_witness:
  "huff_build_decoder [1, 1, 1] (length [1, 1, 1 :: nat]) = Some (Inl DF_ERR_CORRUPT) \<and>
   (\<exists>d. huff_build_decoder [1, 2] (length [1, 2 :: nat]) = Some (Inr d))"
  using build_decoder_rejects_oversubscribed [of "[1, 1, 1]"] build_decoder_rejects_oversubscribed [of "[1, 2]"]
  by (simp add: kraft_def)

end
