(* ===== verification/Inflate.thy ===== *)
theory Inflate
  imports Huffman_Decode Stream_Spec
begin

text \<open>
  The decoder of \<open>src/inflate.c\<close>: the header of a dynamic block, the fixed tables, the loop
  that decodes the symbols of a block, the stored block and the loop over the blocks. A
  result is \<open>Inr\<close> of the value or \<open>Inl\<close> of the error code the C function returns; undefined
  behaviour is \<^const>\<open>None\<close>. The loops are total: each turn consumes a bit of the input or
  stops because the input has run out.
\<close>

section \<open>The header of a dynamic block\<close>

text \<open>\<open>while (repeat-- > 0 && n < lim) lengths[n++] = v;\<close>\<close>

fun fill_lengths ::
  "nat \<Rightarrow> nat \<Rightarrow> nat \<Rightarrow> nat list \<Rightarrow> nat \<Rightarrow> (nat list \<times> nat) option" where
  "fill_lengths 0 lim v lengths n = Some (lengths, n)"
| "fill_lengths (Suc repeat) lim v lengths n =
     (if n < lim then
        (case wr lengths n v of
           None \<Rightarrow> None
         | Some lengths \<Rightarrow> fill_lengths repeat lim v lengths (n + 1))
      else Some (lengths, n))"

text \<open>The body of the loop for one code-length symbol.\<close>

definition apply_cl_symbol ::
  "nat \<Rightarrow> nat \<Rightarrow> bitreader \<Rightarrow> nat list \<Rightarrow> nat \<Rightarrow> ((dferr + nat list \<times> nat) \<times> bitreader) option"
where
  "apply_cl_symbol s lim r lengths n =
     (if s < 16 then do { lengths \<leftarrow> wr lengths n (s mod 256); Some (Inr (lengths, n + 1), r) }
      else if s = 16 then
        if n = 0 then Some (Inl DF_ERR_CORRUPT, r)
        else do {
          (v, r) \<leftarrow> br_bits r 2;
          prev \<leftarrow> rd lengths (n - 1);
          res \<leftarrow> fill_lengths (3 + unat v) lim prev lengths n;
          Some (Inr res, r) }
      else if s = 17 then do {
        (v, r) \<leftarrow> br_bits r 3;
        res \<leftarrow> fill_lengths (3 + unat v) lim 0 lengths n;
        Some (Inr res, r) }
      else do {
        (v, r) \<leftarrow> br_bits r 7;
        res \<leftarrow> fill_lengths (11 + unat v) lim 0 lengths n;
        Some (Inr res, r) })"

lemma fill_lengths_progress:
  "fill_lengths k lim v lengths n = Some (l', n') \<Longrightarrow> n \<le> n' \<and> (0 < k \<longrightarrow> n < lim \<longrightarrow> n < n')"
proof (induction k arbitrary: lengths n)
  case (Suc k)
  then show ?case by (fastforce split: if_splits option.splits)
qed simp

lemma apply_cl_symbol_progress:
  "apply_cl_symbol s lim r lengths n = Some (Inr (l', n'), r') \<Longrightarrow> n < lim \<Longrightarrow> n < n'"
  by (auto simp: apply_cl_symbol_def Option.bind_eq_Some_conv dest!: fill_lengths_progress
      split: if_splits)

function read_lengths ::
  "huff_dec \<Rightarrow> nat \<Rightarrow> bitreader \<Rightarrow> nat list \<Rightarrow> nat \<Rightarrow> ((dferr + nat list) \<times> bitreader) option"
where
  "read_lengths cl_dec lim r lengths n =
     (if n < lim then
        (case huff_decode cl_dec r of
           None \<Rightarrow> None
         | Some (Inl _, r) \<Rightarrow> Some (Inl DF_ERR_CORRUPT, r)
         | Some (Inr s, r) \<Rightarrow>
             (case apply_cl_symbol s lim r lengths n of
                None \<Rightarrow> None
              | Some (Inl e, r) \<Rightarrow> Some (Inl e, r)
              | Some (Inr (lengths', n'), r) \<Rightarrow>
                  if r_underflow r then Some (Inl DF_ERR_INPUT, r)
                  else read_lengths cl_dec lim r lengths' n'))
      else Some (Inr lengths, r))"
  by pat_completeness auto
termination
  by (relation "measure (\<lambda>(cl_dec, lim, r, lengths, n). lim - n)")
    (auto dest: apply_cl_symbol_progress)

declare read_lengths.simps [simp del]

definition read_cl_lengths :: "nat \<Rightarrow> bitreader \<Rightarrow> (nat list \<times> bitreader) option" where
  "read_cl_lengths hclen r =
     ofor (\<lambda>i (cl_len, r). do {
         (v, r) \<leftarrow> br_bits r 3;
         k \<leftarrow> rd CODELEN_ORDER i;
         cl_len \<leftarrow> wr cl_len k (unat v mod 256);
         Some (cl_len, r) })
       [0..<hclen] (replicate NUM_CODELEN 0, r)"

text \<open>The two tables are built from one array: the second from its tail.\<close>

definition build_tables :: "nat list \<Rightarrow> nat \<Rightarrow> nat \<Rightarrow> (dferr + huff_dec \<times> huff_dec) option" where
  "build_tables lengths hlit hdist = do {
     rc \<leftarrow> huff_build_decoder lengths hlit;
     (case rc of
        Inl e \<Rightarrow> Some (Inl e)
      | Inr lit \<Rightarrow> do {
          rc \<leftarrow> huff_build_decoder (drop hlit lengths) hdist;
          (case rc of Inl e \<Rightarrow> Some (Inl e) | Inr dist \<Rightarrow> Some (Inr (lit, dist))) }) }"

definition read_dynamic_header ::
  "bitreader \<Rightarrow> ((dferr + huff_dec \<times> huff_dec) \<times> bitreader) option" where
  "read_dynamic_header r = do {
     (v, r) \<leftarrow> br_bits r 5;
     let hlit = unat v + 257;
     (v, r) \<leftarrow> br_bits r 5;
     let hdist = unat v + 1;
     (v, r) \<leftarrow> br_bits r 4;
     let hclen = unat v + 4;
     if hlit > NUM_LITERALS \<or> hdist > NUM_DISTANCES then Some (Inl DF_ERR_CORRUPT, r)
     else do {
       (cl_len, r) \<leftarrow> read_cl_lengths hclen r;
       rc \<leftarrow> huff_build_decoder cl_len NUM_CODELEN;
       (case rc of
          Inl e \<Rightarrow> Some (Inl e, r)
        | Inr cl_dec \<Rightarrow> do {
            (res, r) \<leftarrow> read_lengths cl_dec (hlit + hdist) r
                         (replicate (NUM_LITERALS + NUM_DISTANCES) 0) 0;
            (case res of
               Inl e \<Rightarrow> Some (Inl e, r)
             | Inr lengths \<Rightarrow> do { rc \<leftarrow> build_tables lengths hlit hdist; Some (rc, r) }) }) } }"

section \<open>The fixed tables\<close>

text \<open>The C code ignores the return codes; a table that failed to build would be undefined.\<close>

definition fixed_decoders :: "(huff_dec \<times> huff_dec) option" where
  "fixed_decoders = do {
     rc \<leftarrow> huff_build_decoder fixed_lit_lengths NUM_LITERALS;
     rc' \<leftarrow> huff_build_decoder fixed_dist_lengths NUM_DISTANCES;
     (case (rc, rc') of (Inr lit, Inr dist) \<Rightarrow> Some (lit, dist) | _ \<Rightarrow> None) }"

section \<open>The symbols of a block\<close>

text \<open>The byte-at-a-time copy, which may read bytes it has just written.\<close>

definition copy_match :: "nat \<Rightarrow> nat \<Rightarrow> nat \<Rightarrow> u8 list \<Rightarrow> u8 list option" where
  "copy_match written from len out =
     ofor (\<lambda>i out. do { b \<leftarrow> rd out (from + i); wr out (written + i) b }) [0..<len] out"

definition inflate_match ::
  "huff_dec \<Rightarrow> nat \<Rightarrow> nat \<Rightarrow> bitreader \<Rightarrow> u8 list \<Rightarrow> nat \<Rightarrow>
     ((dferr + nat) \<times> u8 list \<times> bitreader) option" where
  "inflate_match dist out_cap lc r out written =
     (if lc \<ge> 29 then Some (Inl DF_ERR_CORRUPT, out, r)
      else do {
        base \<leftarrow> rd LENGTH_BASE lc;
        extra \<leftarrow> rd LENGTH_EXTRA lc;
        (v, r) \<leftarrow> br_bits r extra;
        let len = base + unat v;
        (dc, r) \<leftarrow> huff_decode dist r;
        (case dc of
           Inl _ \<Rightarrow> Some (Inl DF_ERR_CORRUPT, out, r)
         | Inr dc \<Rightarrow>
             if dc \<ge> NUM_DISTANCES then Some (Inl DF_ERR_CORRUPT, out, r)
             else do {
               base \<leftarrow> rd DIST_BASE dc;
               extra \<leftarrow> rd DIST_EXTRA dc;
               (v, r) \<leftarrow> br_bits r extra;
               let distance = base + unat v;
               if distance > written then Some (Inl DF_ERR_CORRUPT, out, r)
               else if written + len > out_cap then Some (Inl DF_ERR_OUTPUT, out, r)
               else do {
                 out \<leftarrow> copy_match written (written - distance) len out;
                 Some (Inr (written + len), out, r) } }) })"

lemma inflate_match_left:
  assumes "inflate_match dist out_cap lc r out written = Some (res, out', r')"
  shows "br_left r' \<le> br_left r"
proof (cases "lc \<ge> 29")
  case True
  with assms show ?thesis by (auto simp: inflate_match_def)
next
  case False
  with assms obtain v r1 dc r2 where r1: "br_bits r (LENGTH_EXTRA ! lc) = Some (v, r1)"
    and r2: "huff_decode dist r1 = Some (dc, r2)"
    by (auto simp: inflate_match_def Let_def Option.bind_eq_Some_conv)
  with assms False have rest: "r' = r2 \<or> (\<exists>n v. br_bits r2 n = Some (v, r'))"
    by (cases dc) (auto simp: inflate_match_def Let_def Option.bind_eq_Some_conv split: if_splits)
  from rest have "br_left r' \<le> br_left r2" by (auto dest: br_bits_decr(1))
  with br_bits_decr(1) [OF r1] huff_decode_decr(1) [OF r2] show ?thesis by linarith
qed

function inflate_codes ::
  "huff_dec \<Rightarrow> huff_dec \<Rightarrow> nat \<Rightarrow> bitreader \<Rightarrow> u8 list \<Rightarrow> nat \<Rightarrow>
     ((dferr + nat) \<times> u8 list \<times> bitreader) option" where
  "inflate_codes lit dist out_cap r out written =
     (case huff_decode lit r of
        None \<Rightarrow> None
      | Some (Inl _, r) \<Rightarrow> Some (Inl DF_ERR_CORRUPT, out, r)
      | Some (Inr s, r) \<Rightarrow>
          if r_underflow r then Some (Inl DF_ERR_INPUT, out, r)
          else if s = END_OF_BLOCK then Some (Inr written, out, r)
          else if s < 256 then
            if written \<ge> out_cap then Some (Inl DF_ERR_OUTPUT, out, r)
            else (case wr out written (of_nat s) of
                    None \<Rightarrow> None
                  | Some out \<Rightarrow> inflate_codes lit dist out_cap r out (written + 1))
          else (case inflate_match dist out_cap (s - 257) r out written of
                  None \<Rightarrow> None
                | Some (Inl e, out, r) \<Rightarrow> Some (Inl e, out, r)
                | Some (Inr written, out, r) \<Rightarrow> inflate_codes lit dist out_cap r out written))"
  by pat_completeness auto
termination
  by (relation "measure (\<lambda>(lit, dist, out_cap, r, out, written). br_left r)")
    (auto dest!: huff_decode_decr(2) inflate_match_left)

declare inflate_codes.simps [simp del]

section \<open>Blocks\<close>

fun stored_bytes ::
  "nat \<Rightarrow> bitreader \<Rightarrow> u8 list \<Rightarrow> nat \<Rightarrow> ((dferr + nat) \<times> u8 list \<times> bitreader) option" where
  "stored_bytes 0 r out written = Some (Inr written, out, r)"
| "stored_bytes (Suc len) r out written =
     (case br_bits r 8 of
        None \<Rightarrow> None
      | Some (byte, r) \<Rightarrow>
          if r_underflow r then Some (Inl DF_ERR_INPUT, out, r)
          else (case wr out written (ucast byte) of
                  None \<Rightarrow> None
                | Some out \<Rightarrow> stored_bytes len r out (written + 1)))"

definition inflate_stored ::
  "nat \<Rightarrow> bitreader \<Rightarrow> u8 list \<Rightarrow> nat \<Rightarrow> ((dferr + nat) \<times> u8 list \<times> bitreader) option" where
  "inflate_stored out_cap r out written = do {
     r \<leftarrow> br_align r;
     (len, r) \<leftarrow> br_bits r 16;
     (nlen, r) \<leftarrow> br_bits r 16;
     if r_underflow r then Some (Inl DF_ERR_INPUT, out, r)
     else if len AND 0xFFFF \<noteq> NOT nlen AND 0xFFFF then Some (Inl DF_ERR_CORRUPT, out, r)
     else if written + unat len > out_cap then Some (Inl DF_ERR_OUTPUT, out, r)
     else stored_bytes (unat len) r out written }"

definition inflate_block ::
  "nat \<Rightarrow> nat \<Rightarrow> bitreader \<Rightarrow> u8 list \<Rightarrow> nat \<Rightarrow> ((dferr + nat) \<times> u8 list \<times> bitreader) option" where
  "inflate_block type out_cap r out written =
     (if type = 0 then inflate_stored out_cap r out written
      else if type = 3 then Some (Inl DF_ERR_CORRUPT, out, r)
      else if type = 1 then do {
        (lit, dist) \<leftarrow> fixed_decoders;
        inflate_codes lit dist out_cap r out written }
      else do {
        (rc, r) \<leftarrow> read_dynamic_header r;
        (case rc of
           Inl e \<Rightarrow> Some (Inl e, out, r)
         | Inr (lit, dist) \<Rightarrow> inflate_codes lit dist out_cap r out written) })"


text \<open>For the termination of the loop over the blocks: no step gives a consumed bit back.\<close>

lemma br_align_left: "br_align r = Some r' \<Longrightarrow> br_left r' \<le> br_left r"
  by (auto simp: br_align_def Let_def Option.bind_eq_Some_conv dest!: br_bits_decr(1)
      split: if_splits)

lemma inflate_codes_left:
  "inflate_codes lit dist out_cap r out written = Some (res, out', r') \<Longrightarrow> br_left r' \<le> br_left r"
proof (induction lit dist out_cap r out written rule: inflate_codes.induct)
  case (1 lit dist out_cap r out written)
  from "1.prems" obtain dec s where s: "huff_decode lit r = Some (dec, s)"
    by (subst (asm) inflate_codes.simps) (auto split: option.splits)
  note less = huff_decode_decr(1) [OF s]
  show ?case
  proof (cases dec)
    case (Inl e)
    with "1.prems" s less show ?thesis by (subst (asm) inflate_codes.simps) auto
  next
    case (Inr k)
    note IH = "1.IH" [OF s refl Inr]
    from "1.prems" s Inr consider "r' = s"
      | out1 where "\<not> r_underflow s" "k \<noteq> 256" "k < 256" "\<not> out_cap \<le> written"
          "wr out written (of_nat k) = Some out1"
          "inflate_codes lit dist out_cap s out1 (written + 1) = Some (res, out', r')"
      | m out1 r1 where "\<not> r_underflow s" "k \<noteq> 256" "\<not> k < 256"
          "inflate_match dist out_cap (k - 257) s out written = Some (m, out1, r1)"
          "(\<exists>w. m = Inr w \<and> inflate_codes lit dist out_cap r1 out1 w = Some (res, out', r')) \<or> r' = r1"
      by (subst (asm) inflate_codes.simps) (auto split: if_splits option.splits sum.splits)
    then show ?thesis
    proof cases
      case 1
      with less show ?thesis by simp
    next
      case 2
      from IH(1) [OF this] less show ?thesis by linarith
    next
      case (3 m out1 r1)
      note m = inflate_match_left [OF 3(4)]
      from 3(5) show ?thesis
      proof
        assume "\<exists>w. m = Inr w \<and> inflate_codes lit dist out_cap r1 out1 w = Some (res, out', r')"
        then obtain w where "m = Inr w" "inflate_codes lit dist out_cap r1 out1 w = Some (res, out', r')"
          by blast
        from IH(2) [OF 3(1-4) refl this(1) refl this(2)] m less show ?thesis by linarith
      next
        assume "r' = r1"
        with m less show ?thesis by simp
      qed
    qed
  qed
qed

lemma stored_bytes_left:
  "stored_bytes len r out written = Some (res, out', r') \<Longrightarrow> br_left r' \<le> br_left r"
proof (induction len arbitrary: r out written)
  case (Suc len)
  then obtain b s where s: "br_bits r 8 = Some (b, s)" by (auto split: option.splits)
  with Suc.prems have "r' = s \<or>
      (\<exists>out1. stored_bytes len s out1 (written + 1) = Some (res, out', r'))"
    by (auto split: if_splits option.splits)
  with br_bits_decr(1) [OF s] Suc.IH show ?case by (auto intro: order.trans)
qed simp

lemma inflate_stored_left:
  "inflate_stored out_cap r out written = Some (res, out', r') \<Longrightarrow> br_left r' \<le> br_left r"
proof -
  assume *: "inflate_stored out_cap r out written = Some (res, out', r')"
  then obtain a l b n c where s: "br_align r = Some a" "br_bits a 16 = Some (l, b)"
    "br_bits b 16 = Some (n, c)"
    by (auto simp: inflate_stored_def Option.bind_eq_Some_conv)
  with * have "r' = c \<or> (\<exists>k. stored_bytes k c out written = Some (res, out', r'))"
    by (auto simp: inflate_stored_def split: if_splits)
  then have "br_left r' \<le> br_left c" by (auto dest: stored_bytes_left)
  with br_align_left [OF s(1)] br_bits_decr(1) [OF s(2)] br_bits_decr(1) [OF s(3)]
  show ?thesis by linarith
qed

lemma apply_cl_symbol_left:
  "apply_cl_symbol s lim r lengths n = Some (res, r') \<Longrightarrow> br_left r' \<le> br_left r"
  by (auto simp: apply_cl_symbol_def Option.bind_eq_Some_conv dest!: br_bits_decr(1) split: if_splits)

lemma read_lengths_left:
  "read_lengths cl_dec lim r lengths n = Some (res, r') \<Longrightarrow> br_left r' \<le> br_left r"
proof (induction cl_dec lim r lengths n rule: read_lengths.induct)
  case (1 cl_dec lim r lengths n)
  show ?case
  proof (cases "n < lim")
    case False
    with "1.prems" show ?thesis by (subst (asm) read_lengths.simps) simp
  next
    case True
    with "1.prems" obtain dec s where s: "huff_decode cl_dec r = Some (dec, s)"
      by (subst (asm) read_lengths.simps) (auto split: option.splits)
    note less = huff_decode_decr(1) [OF s]
    show ?thesis
    proof (cases dec)
      case (Inl e)
      with "1.prems" s less True show ?thesis by (subst (asm) read_lengths.simps) simp
    next
      case (Inr k)
      with "1.prems" s True obtain a t where t: "apply_cl_symbol k lim s lengths n = Some (a, t)"
        by (subst (asm) read_lengths.simps) (auto split: option.splits)
      note less = less apply_cl_symbol_left [OF t]
      from "1.prems" s True Inr t consider "r' = t"
        | l1 n1 where "a = Inr (l1, n1)" "\<not> r_underflow t"
            "read_lengths cl_dec lim t l1 n1 = Some (res, r')"
        by (subst (asm) read_lengths.simps) (auto split: if_splits sum.splits)
      then show ?thesis
      proof cases
        case 1
        with less show ?thesis by simp
      next
        case (2 l1 n1)
        from "1.IH" [OF True s refl Inr t refl 2(1) refl 2(2,3)] less show ?thesis by linarith
      qed
    qed
  qed
qed

lemma ofor_mono_measure:
  fixes m :: "'s \<Rightarrow> nat"
  assumes "ofor f xs s = Some s'" "\<And>x s s'. f x s = Some s' \<Longrightarrow> m s' \<le> m s"
  shows "m s' \<le> m s"
  using assms(1)
proof (induction xs arbitrary: s)
  case (Cons x xs)
  then obtain t where "f x s = Some t" "ofor f xs t = Some s'" by (auto split: option.splits)
  with Cons.IH assms(2) show ?case by (meson order.trans)
qed simp

lemma read_cl_lengths_left:
  assumes "read_cl_lengths hclen r = Some (cl_len, r')"
  shows "br_left r' \<le> br_left r"
  using ofor_mono_measure [OF assms [unfolded read_cl_lengths_def], of "br_left \<circ> snd"]
  by (force simp: Option.bind_eq_Some_conv dest!: br_bits_decr(1))

lemma read_dynamic_header_left:
  assumes "read_dynamic_header r = Some (res, r')"
  shows "br_left r' \<le> br_left r"
proof -
  from assms obtain v1 r1 v2 r2 v3 r3 where s: "br_bits r 5 = Some (v1, r1)"
    "br_bits r1 5 = Some (v2, r2)" "br_bits r2 4 = Some (v3, r3)"
    by (auto simp: read_dynamic_header_def Let_def Option.bind_eq_Some_conv)
  have "br_left r' \<le> br_left r3"
  proof (cases "286 < unat v1 + 257 \<or> 30 < unat v2 + 1")
    case True
    with assms s show ?thesis by (auto simp: read_dynamic_header_def)
  next
    case False
    with assms s obtain cl r4 rc where cl: "read_cl_lengths (unat v3 + 4) r3 = Some (cl, r4)"
      and rc: "huff_build_decoder cl 19 = Some rc"
      by (auto simp: read_dynamic_header_def Let_def Option.bind_eq_Some_conv)
    note less = read_cl_lengths_left [OF cl]
    show ?thesis
    proof (cases rc)
      case (Inl e)
      with assms s False cl rc less show ?thesis by (auto simp: read_dynamic_header_def Let_def)
    next
      case (Inr d)
      with assms s False cl rc obtain res1 r5 where
        r5: "read_lengths d (unat v1 + 257 + (unat v2 + 1)) r4 (replicate 316 0) 0 = Some (res1, r5)"
        by (auto simp: read_dynamic_header_def Let_def Option.bind_eq_Some_conv)
      with assms s False cl rc Inr have "r' = r5"
        by (cases res1) (auto simp: read_dynamic_header_def Let_def Option.bind_eq_Some_conv)
      with read_lengths_left [OF r5] less show ?thesis by simp
    qed
  qed
  with br_bits_decr(1) [OF s(1)] br_bits_decr(1) [OF s(2)] br_bits_decr(1) [OF s(3)]
  show ?thesis by linarith
qed

lemma inflate_block_left:
  assumes "inflate_block type out_cap r out written = Some (res, out', r')"
  shows "br_left r' \<le> br_left r"
proof -
  consider "type = 0" | "type = 3" | "type = 1" | "type \<notin> {0, 1, 3}" by blast
  then show ?thesis
  proof cases
    case 1
    with assms show ?thesis by (auto simp: inflate_block_def intro: inflate_stored_left)
  next
    case 2
    with assms show ?thesis by (simp add: inflate_block_def)
  next
    case 3
    with assms show ?thesis
      by (auto simp: inflate_block_def Option.bind_eq_Some_conv dest: inflate_codes_left)
  next
    case 4
    with assms obtain rc s where s: "read_dynamic_header r = Some (rc, s)"
      by (auto simp: inflate_block_def Option.bind_eq_Some_conv)
    have "br_left r' \<le> br_left s"
      using assms s 4 by (cases rc) (auto simp: inflate_block_def dest: inflate_codes_left)
    with read_dynamic_header_left [OF s] show ?thesis by simp
  qed
qed

text \<open>The loop over the blocks, and the entry point.\<close>

function inflate_blocks ::
  "nat \<Rightarrow> bitreader \<Rightarrow> u8 list \<Rightarrow> nat \<Rightarrow> ((dferr + nat) \<times> u8 list) option" where
  "inflate_blocks out_cap r out written =
     (case br_bits r 1 of
        None \<Rightarrow> None
      | Some (final, r1) \<Rightarrow>
          (case br_bits r1 2 of
             None \<Rightarrow> None
           | Some (type, r2) \<Rightarrow>
               if r_underflow r2 then Some (Inl DF_ERR_INPUT, out)
               else (case inflate_block (unat type) out_cap r2 out written of
                       None \<Rightarrow> None
                     | Some (Inl e, out, r3) \<Rightarrow> Some (Inl e, out)
                     | Some (Inr written, out, r3) \<Rightarrow>
                         if final \<noteq> 0 then Some (Inr written, out)
                         else inflate_blocks out_cap r3 out written)))"
  by pat_completeness auto
termination
proof (relation "measure (\<lambda>(out_cap, r, out, written). br_left r)", goal_cases)
  case (2 out_cap r out written x2 final r1 x2a type r2 x2b res y written1 out1 r3)
  then have s: "br_bits r 1 = Some (final, r1)" "br_bits r1 2 = Some (type, r2)"
    "inflate_block (unat type) out_cap r2 out written = Some (Inr written1, out1, r3)" by auto
  from 2 have "\<not> r_underflow r2" by simp
  with br_bits_decr(1) [OF s(1)] br_bits_decr(2) [OF s(2)] inflate_block_left [OF s(3)]
  show ?case by simp
qed simp

declare inflate_blocks.simps [simp del]

definition deflate_decompress ::
  "u8 list \<Rightarrow> nat \<Rightarrow> u8 list \<Rightarrow> nat \<Rightarrow> ((dferr + nat) \<times> u8 list) option" where
  "deflate_decompress inp in_len out out_cap = inflate_blocks out_cap (br_init inp in_len) out 0"

end
