(* ===== verification/Inflate_Proof.thy ===== *)
theory Inflate_Proof
  imports Inflate
begin

text \<open>
  The decoder of \<open>Inflate\<close> against the streams of \<open>Stream_Spec\<close>. For every function: it is
  defined on every input and stays inside its buffers, what it accepts is a legal piece of a
  stream (soundness), and it accepts every legal piece (completeness).
\<close>

section \<open>The output buffer\<close>

text \<open>
  \<open>buf h out\<close> is the buffer \<open>out\<close> after the bytes \<open>h\<close> have been written to it from the start.
\<close>

definition buf :: "u8 list \<Rightarrow> u8 list \<Rightarrow> u8 list" where
  "buf h out = h @ drop (length h) out"

lemma buf_Nil [simp]: "buf [] out = out"
  by (simp add: buf_def)

lemma length_buf [simp]: "length h \<le> length out \<Longrightarrow> length (buf h out) = length out"
  by (simp add: buf_def)

lemma take_buf [simp]: "take (length h) (buf h out) = h"
  by (simp add: buf_def)

lemma drop_buf [simp]: "length h \<le> n \<Longrightarrow> drop n (buf h out) = drop n out"
  by (simp add: buf_def)

lemma update_buf [simp]: "length h < length out \<Longrightarrow> (buf h out)[length h := b] = buf (h @ [b]) out"
  by (simp add: buf_def Cons_nth_drop_Suc [symmetric])

lemma wr_buf: "length h < length out \<Longrightarrow> wr (buf h out) (length h) b = Some (buf (h @ [b]) out)"
  by (simp add: wr_def)

lemma rd_buf: "i < length h \<Longrightarrow> rd (buf h out) i = Some (h ! i)"
  by (simp add: rd_def buf_def nth_append)

lemma copy_match_buf:
  assumes "1 \<le> d" "d \<le> length h" "length h + len \<le> length out"
  shows "copy_match (length h) (length h - d) len (buf h out) = Some (buf (extend_copy d len h) out)"
proof -
  let ?I = "\<lambda>k out'. out' = buf (extend_copy d k h) out"
  have "\<exists>out'. copy_match (length h) (length h - d) len (buf h out) = Some out' \<and> ?I len out'"
    unfolding copy_match_def
  proof (rule ofor_upt_rule [where I = ?I])
    fix k out'
    assume k: "k < len" and out': "?I k out'"
    let ?g = "extend_copy d k h"
    have g: "length ?g = length h + k" by simp
    have "rd out' (length h - d + k) = Some (?g ! (length ?g - d))"
      using assms k rd_buf [of "length h + k - d" ?g out] by (simp add: out')
    moreover have "wr out' (length h + k) b = Some (buf (?g @ [b]) out)" for b
      unfolding out' g [symmetric] by (rule wr_buf) (use assms k in simp)
    ultimately show "\<exists>s. (rd out' (length h - d + k) \<bind> wr out' (length h + k)) = Some s \<and> ?I (Suc k) s"
      by (simp only: bind.bind_lunit extend_copy_snoc) simp
  qed simp_all
  then show ?thesis by simp
qed

section \<open>Literals and copies\<close>

lemma copy_distance_pos: "dc < 30 \<Longrightarrow> 1 \<le> copy_distance dc dx"
proof -
  assume "dc < 30"
  then have "DIST_BASE ! dc \<in> set DIST_BASE" by simp
  then have "1 \<le> DIST_BASE ! dc" by (auto simp: DIST_BASE_def)
  then show ?thesis by (simp add: copy_distance_def)
qed

text \<open>A field read by \<open>br_bits\<close> is a number below the power of two of its width.\<close>

lemma field_value:
  assumes "take_bit c (v :: u32) = v" "c < 32"
  shows "unat v < 2 ^ c" "bits_lsb c v = bits_lsb c (unat v)"
proof -
  have "take_bit c (unat v) = unat v" using assms(1) by (metis unsigned_take_bit_eq)
  then show "unat v < 2 ^ c" by (simp add: take_bit_nat_eq_self_iff)
  show "bits_lsb c v = bits_lsb c (unat v)"
    by (rule bits_lsb_cong) (use assms(2) in \<open>simp add: bit_unsigned_iff\<close>)
qed

text \<open>Reading a field and decoding a symbol, in the form the proofs below use.\<close>

lemma field_step:
  assumes "br_ok r" "c \<le> 24"
  obtains v r' where "br_bits r c = Some (v, r')" "br_ok r'" "same_input r r'"
    "unat v < 2 ^ c" "r_underflow r \<Longrightarrow> r_underflow r'"
    "\<not> r_underflow r' \<Longrightarrow> r_stream r = bits_lsb c (unat v) @ r_stream r'"
proof -
  from assms obtain v r' where v: "br_bits r c = Some (v, r')" "br_ok r'" "same_input r r'"
    "take_bit c v = v" "br_left r' \<le> br_left r"
    "\<not> r_underflow r' \<Longrightarrow> br_left r' + c = br_left r"
    "\<not> r_underflow r' \<Longrightarrow> r_stream r = bits_lsb c v @ r_stream r'" by (rule br_bits_left) auto
  have "c < 32" using assms(2) by simp
  note f = field_value [OF v(4) this]
  show thesis
    by (rule that [OF v(1-3) f(1)]) (use v(5,7) f(2) in \<open>auto simp flip: br_left_0_iff\<close>)
qed

lemma symbol_step:
  assumes "decoder_of d ls" "br_ok r"
  obtains res r' where "huff_decode d r = Some (res, r')" "br_ok r'" "same_input r r'"
    "r_underflow r \<Longrightarrow> r_underflow r'"
    "case res of Inl e \<Rightarrow> e = DF_ERR_CORRUPT
      | Inr s \<Rightarrow> has_code ls s \<and> (\<not> r_underflow r' \<longrightarrow> r_stream r = code_bits ls s @ r_stream r')"
proof -
  from huff_decode_total [OF assms] obtain res r' where r': "huff_decode d r = Some (res, r')"
    "decode_result ls [] r res r'" by blast
  show thesis
    by (rule that [OF r'(1)])
      (use r'(2) in \<open>auto simp: decode_result_def has_code_def simp flip: br_left_0_iff split: sum.splits\<close>)
qed

text \<open>
  The outcome of a step that writes to the buffer: the reader stays well formed, the buffer has
  changed only below \<open>cap\<close> and holds \<open>h'\<close>, an error is one of the decoder's, and a result is
  the number of bytes written, with \<open>Q\<close> relating them to the bits consumed when the input has
  not run out.
\<close>

definition delivers ::
  "nat \<Rightarrow> u8 list \<Rightarrow> bitreader \<Rightarrow> (dferr + nat) \<times> u8 list \<times> bitreader \<Rightarrow>
     (u8 list \<Rightarrow> bool list \<Rightarrow> bool) \<Rightarrow> bool" where
  "delivers cap out r outcome Q \<longleftrightarrow> (case outcome of (res, out', r') \<Rightarrow>
     br_ok r' \<and> same_input r r' \<and> (r_underflow r \<longrightarrow> r_underflow r') \<and>
     (\<exists>h'. out' = buf h' out \<and> length h' \<le> cap \<and>
        (case res of
           Inl e \<Rightarrow> e \<noteq> DF_ERR_MEMORY
         | Inr n \<Rightarrow> n = length h' \<and> (\<not> r_underflow r' \<longrightarrow> Q h' (r_stream r')))))"

lemma delivers_error:
  "br_ok r' \<Longrightarrow> same_input r r' \<Longrightarrow> (r_underflow r \<Longrightarrow> r_underflow r') \<Longrightarrow> length h \<le> cap \<Longrightarrow>
     e \<noteq> DF_ERR_MEMORY \<Longrightarrow> delivers cap out r (Inl e, buf h out, r') Q"
  by (auto simp: delivers_def)

lemma delivers_result:
  "br_ok r' \<Longrightarrow> same_input r r' \<Longrightarrow> (r_underflow r \<Longrightarrow> r_underflow r') \<Longrightarrow> length h \<le> cap \<Longrightarrow>
     (\<not> r_underflow r' \<Longrightarrow> Q h (r_stream r')) \<Longrightarrow>
     delivers cap out r (Inr (length h), buf h out, r') Q"
  by (auto simp: delivers_def)

text \<open>A step after a read of \<open>bs\<close> delivers what the two deliver together.\<close>

lemma delivers_after:
  assumes "delivers cap out s outcome Q" "same_input r s" "r_underflow r \<Longrightarrow> r_underflow s"
    and "\<And>h' rest. \<not> r_underflow s \<Longrightarrow> Q h' rest \<Longrightarrow> Q' h' rest"
  shows "delivers cap out r outcome Q'"
  using assms unfolding delivers_def
  by (auto intro: same_input_trans split: sum.splits)

lemma inflate_match_sound:
  assumes d: "decoder_of d dist" "length dist \<le> 30" and ok: "br_ok r"
    and h: "length h \<le> cap" "cap \<le> length out"
  shows "\<exists>outcome. inflate_match d cap lc r (buf h out) (length h) = Some outcome \<and>
    delivers cap out r outcome (\<lambda>h' rest. \<exists>lx dc dx. lc < 29 \<and> lx < 2 ^ (LENGTH_EXTRA ! lc) \<and>
      dc < 30 \<and> has_code dist dc \<and> dx < 2 ^ (DIST_EXTRA ! dc) \<and> copy_distance dc dx \<le> length h \<and>
      h' = item_out h (Copy lc lx dc dx) \<and>
      r_stream r = bits_lsb (LENGTH_EXTRA ! lc) lx @ code_bits dist dc @
        bits_lsb (DIST_EXTRA ! dc) dx @ rest)"
    (is "\<exists>outcome. _ \<and> delivers cap out r outcome ?Q")
proof (cases "lc \<ge> 29")
  case True
  have "delivers cap out r (Inl DF_ERR_CORRUPT, buf h out, r) ?Q"
    by (rule delivers_error) (use ok h in auto)
  with True show ?thesis by (simp add: inflate_match_def)
next
  case False
  then have lc: "lc < 29" by simp
  have "LENGTH_EXTRA ! lc \<le> 24" using length_extra_le [OF lc] by simp
  from ok this obtain v r1 where r1: "br_bits r (LENGTH_EXTRA ! lc) = Some (v, r1)" "br_ok r1"
    "same_input r r1" "unat v < 2 ^ (LENGTH_EXTRA ! lc)" "r_underflow r \<Longrightarrow> r_underflow r1"
    "\<not> r_underflow r1 \<Longrightarrow> r_stream r = bits_lsb (LENGTH_EXTRA ! lc) (unat v) @ r_stream r1"
    by (rule field_step) auto
  let ?len = "LENGTH_BASE ! lc + unat v"
  from d(1) r1(2) obtain dec r2 where r2: "huff_decode d r1 = Some (dec, r2)" "br_ok r2"
    "same_input r1 r2" "r_underflow r1 \<Longrightarrow> r_underflow r2"
    "case dec of Inl e \<Rightarrow> e = DF_ERR_CORRUPT
      | Inr s \<Rightarrow> has_code dist s \<and> (\<not> r_underflow r2 \<longrightarrow> r_stream r1 = code_bits dist s @ r_stream r2)"
    by (rule symbol_step) auto
  note same2 = same_input_trans [OF r1(3) r2(3)]
  show ?thesis
  proof (cases dec)
    case (Inl e)
    have "delivers cap out r (Inl DF_ERR_CORRUPT, buf h out, r2) ?Q"
      by (rule delivers_error) (use r1 r2 same2 h in auto)
    with lc r1(1) r2(1) Inl show ?thesis by (simp add: inflate_match_def)
  next
    case (Inr dc)
    with r2(5) have code: "has_code dist dc"
      "\<not> r_underflow r2 \<Longrightarrow> r_stream r1 = code_bits dist dc @ r_stream r2" by auto
    have dc: "dc < 30" using code(1) d(2) by (simp add: has_code_def)
    have "DIST_EXTRA ! dc \<le> 24" using dist_extra_le [OF dc] by simp
    from r2(2) this obtain x r3 where r3: "br_bits r2 (DIST_EXTRA ! dc) = Some (x, r3)" "br_ok r3"
      "same_input r2 r3" "unat x < 2 ^ (DIST_EXTRA ! dc)" "r_underflow r2 \<Longrightarrow> r_underflow r3"
      "\<not> r_underflow r3 \<Longrightarrow> r_stream r2 = bits_lsb (DIST_EXTRA ! dc) (unat x) @ r_stream r3"
      by (rule field_step) auto
    note same3 = same_input_trans [OF same2 r3(3)]
    let ?d = "copy_distance dc (unat x)"
    let ?h = "item_out h (Copy lc (unat v) dc (unat x))"
    have run: "inflate_match d cap lc r (buf h out) (length h) =
        (if length h < ?d then Some (Inl DF_ERR_CORRUPT, buf h out, r3)
         else if cap < length h + ?len then Some (Inl DF_ERR_OUTPUT, buf h out, r3)
         else Some (Inr (length ?h), buf ?h out, r3))"
      using lc dc r1(1) r2(1) r3(1) Inr h copy_distance_pos [OF dc, of "unat x"]
        copy_match_buf [of ?d h ?len out]
      by (simp add: inflate_match_def copy_length_def copy_distance_def Let_def)
    have err: "e \<noteq> DF_ERR_MEMORY \<Longrightarrow> delivers cap out r (Inl e, buf h out, r3) ?Q" for e
      by (rule delivers_error) (use r1 r2 r3 same3 h in auto)
    consider "length h < ?d" | "\<not> length h < ?d" "cap < length h + ?len"
      | "\<not> length h < ?d" "\<not> cap < length h + ?len" by blast
    then show ?thesis
    proof cases
      case 3
      have "delivers cap out r (Inr (length ?h), buf ?h out, r3) ?Q"
      proof (rule delivers_result)
        assume u: "\<not> r_underflow r3"
        have "r_stream r = bits_lsb (LENGTH_EXTRA ! lc) (unat v) @ code_bits dist dc @
            bits_lsb (DIST_EXTRA ! dc) (unat x) @ r_stream r3"
        proof -
          have "\<not> r_underflow r2" using u r3(5) by blast
          moreover from this have "\<not> r_underflow r1" using r2(4) by blast
          ultimately show ?thesis using u r1(6) code(2) r3(6) by simp
        qed
        with r1(4) r3(4) lc dc code(1) 3 show "?Q ?h (r_stream r3)"
          by (intro exI [of _ "unat v"] exI [of _ dc] exI [of _ "unat x"]) simp
      qed (use r1 r2 r3 same3 3 in \<open>auto simp: copy_length_def\<close>)
      with 3 show ?thesis unfolding run by simp
    qed (use run err in auto)
  qed
qed

text \<open>The symbols of a block, by induction on the loop of the decoder.\<close>

lemma inflate_codes_sound:
  assumes d: "decoder_of dl lit" "decoder_of dd dist" "length lit \<le> 286" "length dist \<le> 30"
    and "br_ok r" "length h \<le> cap" "cap \<le> length out"
  shows "\<exists>outcome. inflate_codes dl dd cap r (buf h out) (length h) = Some outcome \<and>
    delivers cap out r outcome (\<lambda>h' rest. \<exists>xs. items_ok lit dist h xs \<and> h' = items_out h xs \<and>
      r_stream r = items_bits lit dist xs @ rest)"
  using assms(5-7)
proof (induction "br_left r" arbitrary: r h rule: less_induct)
  case less
  let ?Q = "\<lambda>r h h' rest. \<exists>xs. items_ok lit dist h xs \<and> h' = items_out h xs \<and>
      r_stream r = items_bits lit dist xs @ rest"
  note h = less.prems(2,3)
  from d(1) less.prems(1) obtain dec r1 where r1: "huff_decode dl r = Some (dec, r1)" "br_ok r1"
    "same_input r r1" "r_underflow r \<Longrightarrow> r_underflow r1"
    "case dec of Inl e \<Rightarrow> e = DF_ERR_CORRUPT
      | Inr s \<Rightarrow> has_code lit s \<and> (\<not> r_underflow r1 \<longrightarrow> r_stream r = code_bits lit s @ r_stream r1)"
    by (rule symbol_step) auto
  have err: "e \<noteq> DF_ERR_MEMORY \<Longrightarrow> delivers cap out r (Inl e, buf h out, r1) (?Q r h)" for e
    by (rule delivers_error) (use r1 h in auto)
  note smaller = huff_decode_decr(2) [OF r1(1)]
  show ?case
  proof (cases dec)
    case (Inl e)
    with r1(1) err show ?thesis by (subst inflate_codes.simps) simp
  next
    case (Inr s)
    show ?thesis
    proof (cases "r_underflow r1")
      case True
      with Inr r1(1) err show ?thesis by (subst inflate_codes.simps) simp
    next
      case False
      with r1(5) Inr have code: "has_code lit s" "r_stream r = code_bits lit s @ r_stream r1" by auto
      have u: "\<not> r_underflow r" using False r1(4) by blast
      consider "s = 256" | "s < 256" "cap \<le> length h" | "s < 256" "\<not> cap \<le> length h" | "256 < s"
        by linarith
      then show ?thesis
      proof cases
        case 1
        have "?Q r h h (r_stream r1)" by (rule exI [of _ "[]"]) (use code 1 in simp)
        then have "delivers cap out r (Inr (length h), buf h out, r1) (?Q r h)"
          using r1 h by (intro delivers_result) auto
        with 1 Inr False r1(1) show ?thesis by (subst inflate_codes.simps) simp
      next
        case 2
        with Inr False r1(1) err show ?thesis by (subst inflate_codes.simps) simp
      next
        case 3
        let ?h = "h @ [of_nat s]"
        have s: "unat (of_nat s :: u8) = s" using 3 by (simp add: unat_of_nat)
        from less.hyps [OF smaller [OF False] r1(2), of ?h] 3 h obtain outcome where
          o1: "inflate_codes dl dd cap r1 (buf ?h out) (length ?h) = Some outcome"
          "delivers cap out r1 outcome (?Q r1 ?h)" by auto
        from o1(2) have "delivers cap out r outcome (?Q r h)"
        proof (rule delivers_after [OF _ r1(3,4)])
          fix h' rest
          assume "?Q r1 ?h h' rest"
          then obtain xs where "items_ok lit dist ?h xs" "h' = items_out ?h xs"
            "r_stream r1 = items_bits lit dist xs @ rest" by blast
          then show "?Q r h h' rest"
            using code s by (intro exI [of _ "Literal (of_nat s) # xs"]) simp
        qed
        with o1(1) 3 h Inr False r1(1) show ?thesis by (subst inflate_codes.simps) simp
      next
        case 4
        let ?c = "s - 257"
        let ?M = "\<lambda>h' rest. \<exists>lx dc dx. ?c < 29 \<and> lx < 2 ^ (LENGTH_EXTRA ! ?c) \<and>
            dc < 30 \<and> has_code dist dc \<and> dx < 2 ^ (DIST_EXTRA ! dc) \<and>
            copy_distance dc dx \<le> length h \<and> h' = item_out h (Copy ?c lx dc dx) \<and>
            r_stream r1 = bits_lsb (LENGTH_EXTRA ! ?c) lx @ code_bits dist dc @
              bits_lsb (DIST_EXTRA ! dc) dx @ rest"
        from inflate_match_sound [OF d(2,4) r1(2) h, of ?c] obtain res out1 r2 where
          m: "inflate_match dd cap ?c r1 (buf h out) (length h) = Some (res, out1, r2)"
          and post: "delivers cap out r1 (res, out1, r2) ?M" by auto
        show ?thesis
        proof (cases res)
          case (Inl e)
          then have "delivers cap out r1 (res, out1, r2) (?Q r h)"
            using post by (auto simp: delivers_def)
          from delivers_after [OF this r1(3,4)] have "delivers cap out r (res, out1, r2) (?Q r h)" by auto
          with m Inl 4 Inr False r1(1) show ?thesis by (subst inflate_codes.simps) simp
        next
          case res: (Inr n)
          from post res obtain h1 where h1: "br_ok r2" "same_input r1 r2"
            "r_underflow r1 \<longrightarrow> r_underflow r2" "out1 = buf h1 out" "length h1 \<le> cap" "n = length h1"
            "\<not> r_underflow r2 \<longrightarrow> ?M h1 (r_stream r2)"
            by (auto simp: delivers_def)
          have "br_left r2 < br_left r"
            using inflate_match_left [OF m] smaller [OF False] by linarith
          from less.hyps [OF this h1(1,5) h(2)] obtain outcome where
            o1: "inflate_codes dl dd cap r2 (buf h1 out) (length h1) = Some outcome"
            "delivers cap out r2 outcome (?Q r2 h1)" by blast
          from o1(2) have "delivers cap out r outcome (?Q r h)"
          proof (rule delivers_after)
            fix h' rest
            assume "\<not> r_underflow r2" and "?Q r2 h1 h' rest"
            then obtain xs where xs: "items_ok lit dist h1 xs" "h' = items_out h1 xs"
              "r_stream r2 = items_bits lit dist xs @ rest" by blast
            from h1(7) \<open>\<not> r_underflow r2\<close> obtain lx dc dx where c: "?c < 29"
              "lx < 2 ^ (LENGTH_EXTRA ! ?c)" "dc < 30" "has_code dist dc"
              "dx < 2 ^ (DIST_EXTRA ! dc)" "copy_distance dc dx \<le> length h"
              "h1 = item_out h (Copy ?c lx dc dx)"
              "r_stream r1 = bits_lsb (LENGTH_EXTRA ! ?c) lx @ code_bits dist dc @
                bits_lsb (DIST_EXTRA ! dc) dx @ r_stream r2"
              by blast
            have "257 + ?c = s" using 4 by simp
            with code c xs show "?Q r h h' rest"
              by (intro exI [of _ "Copy ?c lx dc dx # xs"]) simp
          qed (use r1 h1 in \<open>auto intro: same_input_trans\<close>)
          with o1(1) m res h1 4 Inr False r1(1) show ?thesis by (subst inflate_codes.simps) simp
        qed
      qed
    qed
  qed
qed

section \<open>The header of a dynamic block\<close>

text \<open>The lengths read so far are the front of the array, the rest is still zero.\<close>

definition arr :: "nat list \<Rightarrow> nat list" where
  "arr ls = ls @ replicate (316 - length ls) 0"

lemma length_arr [simp]: "length ls \<le> 316 \<Longrightarrow> length (arr ls) = 316"
  by (simp add: arr_def)

lemma take_arr [simp]: "length ls = n \<Longrightarrow> take n (arr ls) = ls"
  by (simp add: arr_def)

lemma update_arr [simp]: "length ls < 316 \<Longrightarrow> (arr ls)[length ls := v] = arr (ls @ [v])"
proof -
  assume "length ls < 316"
  then have "316 - length ls = Suc (316 - Suc (length ls))" by simp
  with \<open>length ls < 316\<close> show ?thesis by (simp add: arr_def)
qed

lemma nth_arr [simp]: "i < length ls \<Longrightarrow> arr ls ! i = ls ! i"
  by (simp add: arr_def nth_append)

lemma fill_lengths_arr:
  assumes "lim \<le> 316" "length ls \<le> lim"
  shows "fill_lengths k lim v (arr ls) (length ls) =
    Some (arr (take lim (ls @ replicate k v)), length (take lim (ls @ replicate k v)))"
  using assms(2)
proof (induction k arbitrary: ls)
  case (Suc k)
  show ?case
  proof (cases "length ls < lim")
    case True
    with assms(1) Suc.IH [of "ls @ [v]"] show ?thesis by simp
  next
    case False
    with Suc.prems show ?thesis by simp
  qed
qed simp

lemma apply_cl_symbol_sound:
  assumes ok: "br_ok r" and lim: "lim \<le> 316" and ls: "length ls < lim" and s: "s < 19"
  shows "\<exists>res r'. apply_cl_symbol s lim r (arr ls) (length ls) = Some (res, r') \<and> br_ok r' \<and>
    same_input r r' \<and> (r_underflow r \<longrightarrow> r_underflow r') \<and>
    (case res of
       Inl e \<Rightarrow> e = DF_ERR_CORRUPT
     | Inr (a, n) \<Rightarrow> \<exists>x ls'. x < 2 ^ cl_extra_bits s \<and> cl_apply lim ls (s, x) = Some ls' \<and>
         a = arr ls' \<and> n = length ls' \<and>
         (\<not> r_underflow r' \<longrightarrow> r_stream r = bits_lsb (cl_extra_bits s) x @ r_stream r'))"
proof -
  have run: ?thesis if s16: "16 \<le> s" and last: "s = 16 \<Longrightarrow> ls \<noteq> []"
  proof -
    have "cl_extra_bits s \<le> 24" by (simp add: cl_extra_bits_def)
    with ok obtain v r' where r': "br_bits r (cl_extra_bits s) = Some (v, r')" "br_ok r'"
      "same_input r r'" "unat v < 2 ^ cl_extra_bits s" "r_underflow r \<Longrightarrow> r_underflow r'"
      "\<not> r_underflow r' \<Longrightarrow> r_stream r = bits_lsb (cl_extra_bits s) (unat v) @ r_stream r'"
      by (rule field_step) auto
    have fill: "fill_lengths k lim x (arr ls) (length ls) =
        Some (arr (take lim (ls @ replicate k x)), length (take lim (ls @ replicate k x)))" for k x
      using fill_lengths_arr lim ls by simp
    have prev: "rd (arr ls) (length ls - 1) = Some (last ls)" if "ls \<noteq> []"
      using that lim ls by (simp add: last_conv_nth)
    from s16 s consider "s = 16" | "s = 17" | "s = 18" by linarith
    then obtain ls' where "cl_apply lim ls (s, unat v) = Some ls'"
      "apply_cl_symbol s lim r (arr ls) (length ls) = Some (Inr (arr ls', length ls'), r')"
      using r'(1) fill prev last
      by cases (auto simp: cl_apply_def apply_cl_symbol_def cl_extra_bits_def simp del: length_take)
    with r' show ?thesis by auto
  qed
  consider "s < 16" | "s = 16" "ls = []" | "16 \<le> s" "s = 16 \<Longrightarrow> ls \<noteq> []" by linarith
  then show ?thesis
  proof cases
    case 1
    then show ?thesis
      using ok lim ls by (simp add: apply_cl_symbol_def cl_apply_def cl_extra_bits_def)
  next
    case 2
    then show ?thesis using ok by (simp add: apply_cl_symbol_def)
  next
    case 3
    then show ?thesis by (rule run)
  qed
qed

lemma read_lengths_sound:
  assumes d: "decoder_of cld cl" "length cl \<le> 19" and lim: "lim \<le> 316"
    and "br_ok r" "length ls \<le> lim"
  shows "\<exists>res r'. read_lengths cld lim r (arr ls) (length ls) = Some (res, r') \<and> br_ok r' \<and>
    same_input r r' \<and> (r_underflow r \<longrightarrow> r_underflow r') \<and>
    (case res of
       Inl e \<Rightarrow> e \<noteq> DF_ERR_MEMORY
     | Inr a \<Rightarrow> \<exists>cs ls'. (\<forall>c \<in> set cs. cl_ok cl c) \<and> cl_run lim ls cs = Some ls' \<and> a = arr ls' \<and>
         (\<not> r_underflow r' \<longrightarrow> r_stream r = concat (map (cl_bits cl) cs) @ r_stream r'))"
  using assms(4,5)
proof (induction "lim - length ls" arbitrary: r ls rule: less_induct)
  case less
  show ?case
  proof (cases "length ls < lim")
    case False
    with less.prems show ?thesis
      by (subst read_lengths.simps) (auto intro!: exI [of _ ls] exI [of _ "[] :: (nat \<times> nat) list"])
  next
    case True
    from d(1) less.prems(1) obtain dec r1 where r1: "huff_decode cld r = Some (dec, r1)" "br_ok r1"
      "same_input r r1" "r_underflow r \<Longrightarrow> r_underflow r1"
      "case dec of Inl e \<Rightarrow> e = DF_ERR_CORRUPT
        | Inr s \<Rightarrow> has_code cl s \<and> (\<not> r_underflow r1 \<longrightarrow> r_stream r = code_bits cl s @ r_stream r1)"
      by (rule symbol_step) auto
    show ?thesis
    proof (cases dec)
      case (Inl e)
      with r1 True show ?thesis by (subst read_lengths.simps) auto
    next
      case (Inr s)
      with r1(5) have code: "has_code cl s"
        "\<not> r_underflow r1 \<Longrightarrow> r_stream r = code_bits cl s @ r_stream r1" by auto
      then have "s < 19" using d(2) by (simp add: has_code_def)
      from apply_cl_symbol_sound [OF r1(2) lim True this] obtain res r2 where
        r2: "apply_cl_symbol s lim r1 (arr ls) (length ls) = Some (res, r2)" "br_ok r2"
          "same_input r1 r2" "r_underflow r1 \<Longrightarrow> r_underflow r2"
        and res: "case res of
            Inl e \<Rightarrow> e = DF_ERR_CORRUPT
          | Inr (a, n) \<Rightarrow> \<exists>x ls'. x < 2 ^ cl_extra_bits s \<and> cl_apply lim ls (s, x) = Some ls' \<and>
              a = arr ls' \<and> n = length ls' \<and>
              (\<not> r_underflow r2 \<longrightarrow> r_stream r1 = bits_lsb (cl_extra_bits s) x @ r_stream r2)"
        by auto
      note same2 = same_input_trans [OF r1(3) r2(3)]
      show ?thesis
      proof (cases res)
        case (Inl e)
        with r1 r2 res Inr True same2 show ?thesis by (subst read_lengths.simps) auto
      next
        case (Inr p)
        with res obtain x ls' where x: "x < 2 ^ cl_extra_bits s" "cl_apply lim ls (s, x) = Some ls'"
          "p = (arr ls', length ls')"
          "\<not> r_underflow r2 \<Longrightarrow> r_stream r1 = bits_lsb (cl_extra_bits s) x @ r_stream r2" by auto
        note len = length_cl_apply [OF x(2) True]
        show ?thesis
        proof (cases "r_underflow r2")
          case True
          with r1 r2 Inr x same2 \<open>dec = Inr s\<close> \<open>length ls < lim\<close> show ?thesis
            by (subst read_lengths.simps) auto
        next
          case False
          have "lim - length ls' < lim - length ls" "length ls' \<le> lim" using len True by auto
          from less.hyps [OF this(1) r2(2) this(2)] obtain res' r' where
            r': "read_lengths cld lim r2 (arr ls') (length ls') = Some (res', r')" "br_ok r'"
              "same_input r2 r'" "r_underflow r2 \<Longrightarrow> r_underflow r'"
            and res': "case res' of
              Inl e \<Rightarrow> e \<noteq> DF_ERR_MEMORY
            | Inr a \<Rightarrow> \<exists>cs ls''. (\<forall>c \<in> set cs. cl_ok cl c) \<and> cl_run lim ls' cs = Some ls'' \<and>
                a = arr ls'' \<and>
                (\<not> r_underflow r' \<longrightarrow> r_stream r2 = concat (map (cl_bits cl) cs) @ r_stream r')"
            by auto
          have run: "read_lengths cld lim r (arr ls) (length ls) = Some (res', r')"
            using r1(1) r2(1) r'(1) Inr x(3) \<open>dec = Inr s\<close> True False
            by (subst read_lengths.simps) simp
          have post: "\<exists>cs ls'. (\<forall>c \<in> set cs. cl_ok cl c) \<and> cl_run lim ls cs = Some ls' \<and> a = arr ls' \<and>
              (\<not> r_underflow r' \<longrightarrow> r_stream r = concat (map (cl_bits cl) cs) @ r_stream r')"
            if a: "res' = Inr a" for a
          proof -
            from res' a obtain cs ls'' where cs: "\<forall>c \<in> set cs. cl_ok cl c" "cl_run lim ls' cs = Some ls''"
              "a = arr ls''"
              "\<not> r_underflow r' \<Longrightarrow> r_stream r2 = concat (map (cl_bits cl) cs) @ r_stream r'" by auto
            have "\<not> r_underflow r1" using False r2(4) by blast
            with cs x code True False show ?thesis
              by (intro exI [of _ "(s, x) # cs"] exI [of _ ls'']) (auto simp: cl_ok_def cl_bits_def)
          qed
          have "same_input r r'" "r_underflow r \<Longrightarrow> r_underflow r'"
            using same_input_trans [OF same2 r'(3)] r1(4) r2(4) r'(4) by auto
          with run r'(2) res' post show ?thesis by (cases res') auto
        qed
      qed
    qed
  qed
qed

lemma read_cl_lengths_sound:
  assumes "hclen \<le> 19" "br_ok r"
  shows "\<exists>xs r'. read_cl_lengths hclen r = Some (cl_lengths xs, r') \<and> length xs = hclen \<and>
    (\<forall>x \<in> set xs. x < 8) \<and> br_ok r' \<and> same_input r r' \<and> (r_underflow r \<longrightarrow> r_underflow r') \<and>
    (\<not> r_underflow r' \<longrightarrow> r_stream r = concat (map (bits_lsb 3) xs) @ r_stream r')"
proof -
  let ?P = "\<lambda>xs k (cl, s). cl = cl_lengths xs \<and> length xs = k \<and> (\<forall>x \<in> set xs. x < 8) \<and> br_ok s \<and>
    same_input r s \<and> (r_underflow r \<longrightarrow> r_underflow s) \<and>
    (\<not> r_underflow s \<longrightarrow> r_stream r = concat (map (bits_lsb 3) xs) @ r_stream s)"
  let ?I = "\<lambda>k s. \<exists>xs. ?P xs k s"
  have "\<exists>s. read_cl_lengths hclen r = Some s \<and> ?I hclen s"
    unfolding read_cl_lengths_def
  proof (rule ofor_upt_rule [where I = ?I])
    show "?I 0 (replicate NUM_CODELEN 0, r)" using assms(2) by (auto intro: exI [of _ "[]"])
  next
    fix k st
    assume k: "k < hclen" and "?I k st"
    then obtain xs s where st: "st = (cl_lengths xs, s)" and inv: "?P xs k (cl_lengths xs, s)"
      by auto
    from inv obtain v t where t: "br_bits s 3 = Some (v, t)" "br_ok t" "same_input s t"
      "unat v < 2 ^ 3" "r_underflow s \<Longrightarrow> r_underflow t"
      "\<not> r_underflow t \<Longrightarrow> r_stream s = bits_lsb 3 (unat v) @ r_stream t"
      by - (rule field_step [of s 3], auto)
    have k19: "k < 19" "length xs = k" using k assms(1) inv by auto
    have "unat v mod 256 = unat v" using t(4) by simp
    moreover have "?P (xs @ [unat v]) (Suc k) (cl_lengths (xs @ [unat v]), t)"
      using inv t by (auto intro: same_input_trans)
    then have "?I (Suc k) (cl_lengths (xs @ [unat v]), t)" by blast
    ultimately show "\<exists>s'. (case st of (cl_len, r) \<Rightarrow> br_bits r 3 \<bind> (\<lambda>(v, r).
        rd CODELEN_ORDER k \<bind> (\<lambda>k. wr cl_len k (unat v mod 256) \<bind> (\<lambda>cl_len. Some (cl_len, r))))) =
        Some s' \<and> ?I (Suc k) s'"
      using k19 t(1) CODELEN_ORDER_less [OF k19(1)]
      by (intro exI [of _ "(cl_lengths (xs @ [unat v]), t)"] conjI) (simp_all add: st cl_lengths_snoc)
  qed simp
  then show ?thesis by fastforce
qed

lemma fixed_decoders_ok:
  obtains dl dd where "fixed_decoders = Some (dl, dd)" "decoder_of dl fixed_lit_lengths"
    "decoder_of dd fixed_dist_lengths"
proof -
  from huff_build_decoder_ok [of 286 fixed_lit_lengths] valid_fixed_lengths(1) obtain dl where
    "huff_build_decoder fixed_lit_lengths 286 = Some (Inr dl)" "decoder_of dl fixed_lit_lengths" by auto
  moreover from huff_build_decoder_ok [of 30 fixed_dist_lengths] valid_fixed_lengths(2) obtain dd where
    "huff_build_decoder fixed_dist_lengths 30 = Some (Inr dd)" "decoder_of dd fixed_dist_lengths" by auto
  ultimately show thesis by (intro that [of dl dd]) (simp_all add: fixed_decoders_def)
qed

lemma build_tables_ok:
  assumes "length ls = hlit + hdist" "hlit \<le> 286" "hdist \<le> 30"
  shows "if valid_lengths (take hlit ls) \<and> valid_lengths (drop hlit ls)
    then \<exists>dl dd. build_tables (arr ls) hlit hdist = Some (Inr (dl, dd)) \<and>
      decoder_of dl (take hlit ls) \<and> decoder_of dd (drop hlit ls)
    else build_tables (arr ls) hlit hdist = Some (Inl DF_ERR_CORRUPT)"
proof -
  have take: "take hlit (arr ls) = take hlit ls" "take hdist (drop hlit (arr ls)) = drop hlit ls"
    using assms by (simp_all add: arr_def)
  have "hlit \<le> length (arr ls)" "hdist \<le> length (drop hlit (arr ls))" "hdist \<le> 286"
    using assms by simp_all
  with assms huff_build_decoder_ok [of hlit "arr ls"] huff_build_decoder_ok [of hdist "drop hlit (arr ls)"]
  show ?thesis
    unfolding take
    by (cases "valid_lengths (take hlit ls)"; cases "valid_lengths (drop hlit ls)")
      (auto simp: build_tables_def)
qed

text \<open>The part of the header after the code-length code, with the two tables.\<close>

lemma read_codes_sound:
  assumes d: "decoder_of d cl" "length cl \<le> 19" and hl: "hlit \<le> 286" "hdist \<le> 30" and ok: "br_ok r"
  shows "\<exists>res r'. (do {
      (res, r) \<leftarrow> read_lengths d (hlit + hdist) r (replicate (NUM_LITERALS + NUM_DISTANCES) 0) 0;
      (case res of
         Inl e \<Rightarrow> Some (Inl e, r)
       | Inr lengths \<Rightarrow> do { rc \<leftarrow> build_tables lengths hlit hdist; Some (rc, r) }) }) = Some (res, r') \<and>
    br_ok r' \<and> same_input r r' \<and> (r_underflow r \<longrightarrow> r_underflow r') \<and>
    (case res of
       Inl e \<Rightarrow> e \<noteq> DF_ERR_MEMORY
     | Inr (dl, dd) \<Rightarrow> \<exists>cs ls. (\<forall>c \<in> set cs. cl_ok cl c) \<and> cl_run (hlit + hdist) [] cs = Some ls \<and>
         valid_lengths (take hlit ls) \<and> valid_lengths (drop hlit ls) \<and>
         decoder_of dl (take hlit ls) \<and> decoder_of dd (drop hlit ls) \<and>
         (\<not> r_underflow r' \<longrightarrow> r_stream r = concat (map (cl_bits cl) cs) @ r_stream r'))"
proof -
  have "hlit + hdist \<le> 316" using hl by simp
  from read_lengths_sound [OF d this ok, of "[]"] obtain res r5 where
    r5: "read_lengths d (hlit + hdist) r (arr []) 0 = Some (res, r5)" "br_ok r5"
      "same_input r r5" "r_underflow r \<longrightarrow> r_underflow r5"
    and res: "case res of
        Inl e \<Rightarrow> e \<noteq> DF_ERR_MEMORY
      | Inr a \<Rightarrow> \<exists>cs ls. (\<forall>c \<in> set cs. cl_ok cl c) \<and> cl_run (hlit + hdist) [] cs = Some ls \<and>
          a = arr ls \<and> (\<not> r_underflow r5 \<longrightarrow> r_stream r = concat (map (cl_bits cl) cs) @ r_stream r5)"
    by auto
  show ?thesis
  proof (cases res)
    case (Inl e)
    with r5 res show ?thesis by (simp add: arr_def)
  next
    case (Inr a)
    with res obtain cs ls where cs: "\<forall>c \<in> set cs. cl_ok cl c" "cl_run (hlit + hdist) [] cs = Some ls"
      "a = arr ls" "\<not> r_underflow r5 \<longrightarrow> r_stream r = concat (map (cl_bits cl) cs) @ r_stream r5" by auto
    have "length ls = hlit + hdist" using length_cl_run [OF cs(2)] by simp
    note bt = build_tables_ok [OF this hl]
    show ?thesis
    proof (cases "valid_lengths (take hlit ls) \<and> valid_lengths (drop hlit ls)")
      case False
      with bt r5 Inr cs(3) show ?thesis by (auto simp: arr_def)
    next
      case True
      with bt obtain dl dd where "build_tables (arr ls) hlit hdist = Some (Inr (dl, dd))"
        "decoder_of dl (take hlit ls)" "decoder_of dd (drop hlit ls)" by auto
      with r5 Inr cs True show ?thesis
        by (intro exI [of _ "Inr (dl, dd)"] exI [of _ r5]) (auto simp: arr_def)
    qed
  qed
qed

lemma read_dynamic_header_sound:
  assumes ok: "br_ok r"
  shows "\<exists>res r'. read_dynamic_header r = Some (res, r') \<and> br_ok r' \<and> same_input r r' \<and>
    (r_underflow r \<longrightarrow> r_underflow r') \<and>
    (case res of
       Inl e \<Rightarrow> e \<noteq> DF_ERR_MEMORY
     | Inr (dl, dd) \<Rightarrow> \<exists>h lit dist. header_codes h = Some (lit, dist) \<and>
         decoder_of dl lit \<and> decoder_of dd dist \<and>
         (\<not> r_underflow r' \<longrightarrow> r_stream r = header_bits h @ r_stream r'))"
proof -
  from ok obtain v1 r1 where r1: "br_bits r 5 = Some (v1, r1)" "br_ok r1" "same_input r r1"
    "unat v1 < 2 ^ 5" "r_underflow r \<Longrightarrow> r_underflow r1"
    "\<not> r_underflow r1 \<Longrightarrow> r_stream r = bits_lsb 5 (unat v1) @ r_stream r1"
    by - (rule field_step [of r 5], auto)
  from r1(2) obtain v2 r2 where r2: "br_bits r1 5 = Some (v2, r2)" "br_ok r2" "same_input r1 r2"
    "unat v2 < 2 ^ 5" "r_underflow r1 \<Longrightarrow> r_underflow r2"
    "\<not> r_underflow r2 \<Longrightarrow> r_stream r1 = bits_lsb 5 (unat v2) @ r_stream r2"
    by - (rule field_step [of r1 5], auto)
  from r2(2) obtain v3 r3 where r3: "br_bits r2 4 = Some (v3, r3)" "br_ok r3" "same_input r2 r3"
    "unat v3 < 2 ^ 4" "r_underflow r2 \<Longrightarrow> r_underflow r3"
    "\<not> r_underflow r3 \<Longrightarrow> r_stream r2 = bits_lsb 4 (unat v3) @ r_stream r3"
    by - (rule field_step [of r2 4], auto)
  let ?hlit = "unat v1 + 257" and ?hdist = "unat v2 + 1" and ?hclen = "unat v3 + 4"
  note same3 = same_input_trans [OF same_input_trans [OF r1(3) r2(3)] r3(3)]
  have u3: "r_underflow r \<Longrightarrow> r_underflow r3" using r1(5) r2(5) r3(5) by blast
  note step1 = r1(1) r2(1) r3(1)
  show ?thesis
  proof (cases "?hlit > 286 \<or> ?hdist > 30")
    case True
    then have "read_dynamic_header r = Some (Inl DF_ERR_CORRUPT, r3)"
      using step1 by (auto simp: read_dynamic_header_def)
    with r3(2) same3 u3 show ?thesis by auto
  next
    case False
    then have hl: "?hlit \<le> 286" "?hdist \<le> 30" by auto
    have "?hclen \<le> 19" using r3(4) by simp
    from read_cl_lengths_sound [OF this r3(2)] obtain xs r4 where
      r4: "read_cl_lengths ?hclen r3 = Some (cl_lengths xs, r4)" "length xs = ?hclen"
        "\<forall>x \<in> set xs. x < 8" "br_ok r4" "same_input r3 r4" "r_underflow r3 \<Longrightarrow> r_underflow r4"
        "\<not> r_underflow r4 \<Longrightarrow> r_stream r3 = concat (map (bits_lsb 3) xs) @ r_stream r4" by blast
    note same4 = same_input_trans [OF same3 r4(5)]
    have build: "if valid_lengths (cl_lengths xs)
      then \<exists>d. huff_build_decoder (cl_lengths xs) 19 = Some (Inr d) \<and> decoder_of d (cl_lengths xs)
      else huff_build_decoder (cl_lengths xs) 19 = Some (Inl DF_ERR_CORRUPT)"
      using huff_build_decoder_ok [of 19 "cl_lengths xs"] take_all [of "cl_lengths xs" 19]
      by (simp only: length_cl_lengths) simp
    show ?thesis
    proof (cases "valid_lengths (cl_lengths xs)")
      case False
      with build step1 r4(1) hl have "read_dynamic_header r = Some (Inl DF_ERR_CORRUPT, r4)"
        by (simp add: read_dynamic_header_def)
      with r4(4,6) same4 u3 show ?thesis by auto
    next
      case True
      with build obtain d where d: "huff_build_decoder (cl_lengths xs) 19 = Some (Inr d)"
        "decoder_of d (cl_lengths xs)" by auto
      have "length (cl_lengths xs) \<le> 19" by simp
      from read_codes_sound [OF d(2) this hl r4(4)] obtain res r5 where tail: "(do {
          (res, r) \<leftarrow> read_lengths d (?hlit + ?hdist) r4 (replicate (NUM_LITERALS + NUM_DISTANCES) 0) 0;
          (case res of
             Inl e \<Rightarrow> Some (Inl e, r)
           | Inr lengths \<Rightarrow> do { rc \<leftarrow> build_tables lengths ?hlit ?hdist; Some (rc, r) }) }) = Some (res, r5)"
        and r5: "br_ok r5" "same_input r4 r5" "r_underflow r4 \<longrightarrow> r_underflow r5"
        and res: "case res of
            Inl e \<Rightarrow> e \<noteq> DF_ERR_MEMORY
          | Inr (dl, dd) \<Rightarrow> \<exists>cs ls. (\<forall>c \<in> set cs. cl_ok (cl_lengths xs) c) \<and>
              cl_run (?hlit + ?hdist) [] cs = Some ls \<and>
              valid_lengths (take ?hlit ls) \<and> valid_lengths (drop ?hlit ls) \<and>
              decoder_of dl (take ?hlit ls) \<and> decoder_of dd (drop ?hlit ls) \<and>
              (\<not> r_underflow r5 \<longrightarrow>
                 r_stream r4 = concat (map (cl_bits (cl_lengths xs)) cs) @ r_stream r5)" by blast
      have run: "read_dynamic_header r = Some (res, r5)"
        using step1 r4(1) d(1) hl tail by (simp add: read_dynamic_header_def del: One_nat_def)
      have same5: "same_input r r5" and u5: "r_underflow r \<Longrightarrow> r_underflow r5"
        using same_input_trans [OF same4 r5(2)] u3 r4(6) r5(3) by auto
      have "\<exists>h lit dist. header_codes h = Some (lit, dist) \<and> decoder_of dl lit \<and> decoder_of dd dist \<and>
          (\<not> r_underflow r5 \<longrightarrow> r_stream r = header_bits h @ r_stream r5)" if "res = Inr (dl, dd)" for dl dd
      proof -
        from res that obtain cs ls where cs: "\<forall>c \<in> set cs. cl_ok (cl_lengths xs) c"
          "cl_run (?hlit + ?hdist) [] cs = Some ls"
          "valid_lengths (take ?hlit ls)" "valid_lengths (drop ?hlit ls)"
          "decoder_of dl (take ?hlit ls)" "decoder_of dd (drop ?hlit ls)"
          "\<not> r_underflow r5 \<Longrightarrow>
             r_stream r4 = concat (map (cl_bits (cl_lengths xs)) cs) @ r_stream r5" by auto
        let ?h = "\<lparr>h_lit = ?hlit, h_dist = ?hdist, h_cl = xs, h_syms = cs\<rparr>"
        have "header_codes ?h = Some (take ?hlit ls, drop ?hlit ls)"
          using hl r4(2,3) \<open>?hclen \<le> 19\<close> True cs(1-4)
          by (simp add: header_codes_def header_lengths_def)
        moreover have "r_stream r = header_bits ?h @ r_stream r5" if u: "\<not> r_underflow r5"
          using r1(5,6) r2(5,6) r3(5,6) r4(2,6,7) r5(3) cs(7) u
          by (cases "r_underflow r4"; cases "r_underflow r3"; cases "r_underflow r2"; cases "r_underflow r1")
            (auto simp: header_bits_def)
        ultimately show ?thesis using cs(5,6) by blast
      qed
      with run r5(1) same5 u5 res show ?thesis by (auto split: sum.splits)
    qed
  qed
qed

section \<open>Blocks\<close>

lemma stored_bytes_sound:
  assumes "br_ok r" "length h + n \<le> cap" "cap \<le> length out"
  shows "\<exists>outcome. stored_bytes n r (buf h out) (length h) = Some outcome \<and>
    delivers cap out r outcome (\<lambda>h' rest. \<exists>bs. length bs = n \<and> h' = h @ bs \<and>
      r_stream r = bytes_bits bs @ rest)"
  using assms
proof (induction n arbitrary: r h)
  case 0
  then show ?case by (auto intro: delivers_result)
next
  case (Suc n)
  let ?Q = "\<lambda>n r h h' rest. \<exists>bs. length bs = n \<and> h' = h @ bs \<and> r_stream r = bytes_bits bs @ rest"
  from Suc.prems(1) obtain v r1 where r1: "br_bits r 8 = Some (v, r1)" "br_ok r1" "same_input r r1"
    "unat v < 2 ^ 8" "r_underflow r \<Longrightarrow> r_underflow r1"
    "\<not> r_underflow r1 \<Longrightarrow> r_stream r = bits_lsb 8 (unat v) @ r_stream r1"
    by - (rule field_step [of r 8], auto)
  show ?case
  proof (cases "r_underflow r1")
    case True
    have "delivers cap out r (Inl DF_ERR_INPUT, buf h out, r1) (?Q (Suc n) r h)"
      by (rule delivers_error) (use r1 Suc.prems in auto)
    with True r1(1) show ?thesis by simp
  next
    case False
    let ?b = "ucast v :: u8"
    from Suc.IH [OF r1(2), of "h @ [?b]"] Suc.prems obtain outcome where
      o1: "stored_bytes n r1 (buf (h @ [?b]) out) (Suc (length h)) = Some outcome"
      "delivers cap out r1 outcome (?Q n r1 (h @ [?b]))" by auto
    have "bits_lsb 8 ?b = bits_lsb 8 v" by (rule bits_lsb_cong) (simp add: bit_simps)
    moreover have "bits_lsb 8 (unat v) = bits_lsb 8 v"
      by (rule bits_lsb_cong) (simp add: bit_unsigned_iff)
    ultimately have b: "r_stream r = bits_lsb 8 ?b @ r_stream r1" using r1(6) False by simp
    from o1(2) have "delivers cap out r outcome (?Q (Suc n) r h)"
    proof (rule delivers_after [OF _ r1(3,5)])
      fix h' rest
      assume "?Q n r1 (h @ [?b]) h' rest"
      then show "?Q (Suc n) r h h' rest" using b by (auto intro: exI [of _ "?b # _"])
    qed
    with o1(1) r1(1) False Suc.prems show ?thesis by simp
  qed
qed

text \<open>The length field and its complement.\<close>

lemma nlen_check:
  assumes "unat (l :: u32) < 2 ^ 16" "unat (n :: u32) < 2 ^ 16"
  shows "l AND 0xFFFF = NOT n AND 0xFFFF \<longleftrightarrow> unat n = 65535 - unat l"
proof -
  have mask: "v AND 0xFFFF = take_bit 16 v" for v :: u32
    by (simp add: take_bit_eq_mask mask_eq_exp_minus_1)
  have self: "take_bit 16 v = v" if "unat v < 2 ^ 16" for v :: u32
    using that by (metis take_bit_nat_eq_self_iff unsigned_take_bit_eq word_unat_eq_iff)
  have not: "take_bit 16 (NOT n) = 65535 - n"
  proof -
    have "take_bit 16 (NOT n) = mask 16 - take_bit 16 n" by (simp add: take_bit_not_eq_mask_diff)
    then show ?thesis using self [OF assms(2)] by (simp add: mask_eq_exp_minus_1)
  qed
  have "n \<le> 65535" using assms(2) by (simp add: word_le_nat_alt)
  then have "unat (65535 - n) = 65535 - unat n" by (simp add: unat_sub)
  then have "l = 65535 - n \<longleftrightarrow> unat l = 65535 - unat n" by (simp add: word_unat_eq_iff)
  also have "\<dots> \<longleftrightarrow> unat n = 65535 - unat l" using assms by auto
  finally show ?thesis unfolding mask not self [OF assms(1)] .
qed

lemma inflate_stored_sound:
  assumes ok: "br_ok r" and h: "length h \<le> cap" "cap \<le> length out"
  shows "\<exists>outcome. inflate_stored cap r (buf h out) (length h) = Some outcome \<and>
    delivers cap out r outcome (\<lambda>h' rest. \<exists>pad bs. length pad = length (r_stream r) mod 8 \<and>
      length bs < 65536 \<and> h' = h @ bs \<and>
      r_stream r = pad @ bits_lsb 16 (length bs) @ bits_lsb 16 (65535 - length bs) @ bytes_bits bs @ rest)"
    (is "\<exists>outcome. _ \<and> delivers cap out r outcome ?Q")
proof -
  from br_align_ok [OF ok] obtain r1 where r1: "br_align r = Some r1" "br_ok r1" "same_input r r1"
    "r_underflow r1 = r_underflow r"
    "r_stream r1 = drop (length (r_stream r) mod 8) (r_stream r)" by blast
  from r1(2) obtain l r2 where r2: "br_bits r1 16 = Some (l, r2)" "br_ok r2" "same_input r1 r2"
    "unat l < 2 ^ 16" "r_underflow r1 \<Longrightarrow> r_underflow r2"
    "\<not> r_underflow r2 \<Longrightarrow> r_stream r1 = bits_lsb 16 (unat l) @ r_stream r2"
    by - (rule field_step [of r1 16], auto)
  from r2(2) obtain n r3 where r3: "br_bits r2 16 = Some (n, r3)" "br_ok r3" "same_input r2 r3"
    "unat n < 2 ^ 16" "r_underflow r2 \<Longrightarrow> r_underflow r3"
    "\<not> r_underflow r3 \<Longrightarrow> r_stream r2 = bits_lsb 16 (unat n) @ r_stream r3"
    by - (rule field_step [of r2 16], auto)
  note same3 = same_input_trans [OF same_input_trans [OF r1(3) r2(3)] r3(3)]
  have u3: "r_underflow r \<Longrightarrow> r_underflow r3" using r1(4) r2(5) r3(5) by blast
  have err: "e \<noteq> DF_ERR_MEMORY \<Longrightarrow> delivers cap out r (Inl e, buf h out, r3) ?Q" for e
    by (rule delivers_error) (use r3 same3 u3 h in auto)
  note run = r1(1) r2(1) r3(1) inflate_stored_def
  consider "r_underflow r3" | "\<not> r_underflow r3" "unat n \<noteq> 65535 - unat l"
    | "\<not> r_underflow r3" "unat n = 65535 - unat l" "cap < length h + unat l"
    | "\<not> r_underflow r3" "unat n = 65535 - unat l" "length h + unat l \<le> cap" by linarith
  then show ?thesis
  proof cases
    case 4
    from stored_bytes_sound [OF r3(2) 4(3) h(2)] obtain outcome where
      o1: "stored_bytes (unat l) r3 (buf h out) (length h) = Some outcome"
      "delivers cap out r3 outcome (\<lambda>h' rest. \<exists>bs. length bs = unat l \<and> h' = h @ bs \<and>
         r_stream r3 = bytes_bits bs @ rest)" by blast
    from o1(2) have "delivers cap out r outcome ?Q"
    proof (rule delivers_after [OF _ same3 u3])
      fix h' rest
      assume "\<exists>bs. length bs = unat l \<and> h' = h @ bs \<and> r_stream r3 = bytes_bits bs @ rest"
      then obtain bs where bs: "length bs = unat l" "h' = h @ bs" "r_stream r3 = bytes_bits bs @ rest"
        by blast
      let ?k = "length (r_stream r) mod 8"
      have "\<not> r_underflow r2" using 4(1) r3(5) by blast
      then have "drop ?k (r_stream r) =
          bits_lsb 16 (length bs) @ bits_lsb 16 (65535 - length bs) @ bytes_bits bs @ rest"
        using r1(5) r2(6) r3(6) 4(1,2) bs by simp
      moreover have "r_stream r = take ?k (r_stream r) @ drop ?k (r_stream r)" by simp
      ultimately show "?Q h' rest" using bs r2(4) by (intro exI [of _ "take ?k (r_stream r)"] exI [of _ bs]) auto
    qed
    with o1(1) 4 r2(4) r3(4) show ?thesis by (simp add: run nlen_check)
  qed (use err r2(4) r3(4) in \<open>auto simp: run nlen_check\<close>)
qed

text \<open>A block is only accepted while the input lasts.\<close>

lemma inflate_codes_no_underflow:
  "inflate_codes dl dd cap r out n = Some (Inr n', out', r') \<Longrightarrow> \<not> r_underflow r'"
proof (induction dl dd cap r out n rule: inflate_codes.induct)
  case (1 dl dd cap r out n)
  from "1.prems" obtain s r1 where s: "huff_decode dl r = Some (Inr s, r1)" and u: "\<not> r_underflow r1"
    by (subst (asm) inflate_codes.simps) (auto split: option.splits sum.splits if_splits)
  note IH = "1.IH" [OF s refl refl u]
  consider "s = 256" | "s \<noteq> 256" "s < 256" | "s \<noteq> 256" "\<not> s < 256" by blast
  then show ?case
  proof cases
    case 1
    with "1.prems" s u show ?thesis by (subst (asm) inflate_codes.simps) auto
  next
    case 2
    with "1.prems" s u IH(1) [OF 2] show ?thesis
      by (subst (asm) inflate_codes.simps) (auto split: if_splits option.splits)
  next
    case 3
    with "1.prems" s u obtain w out1 r2 where m: "inflate_match dd cap (s - 257) r1 out n = Some (Inr w, out1, r2)"
      and rec: "inflate_codes dl dd cap r2 out1 w = Some (Inr n', out', r')"
      by (subst (asm) inflate_codes.simps) (auto split: option.splits sum.splits)
    from IH(2) [OF 3 m refl refl refl rec] show ?thesis .
  qed
qed

lemma stored_bytes_no_underflow:
  "stored_bytes k r out n = Some (Inr n', out', r') \<Longrightarrow> \<not> r_underflow r \<Longrightarrow> \<not> r_underflow r'"
  by (induction k arbitrary: r out n) (auto split: option.splits if_splits)

lemma inflate_block_no_underflow:
  assumes "inflate_block t cap r out n = Some (Inr n', out', r')"
  shows "\<not> r_underflow r'"
proof -
  consider "t = 0" | "t = 3" | "t = 1" | "t \<notin> {0, 1, 3}" by blast
  then show ?thesis
  proof cases
    case 4
    with assms obtain rc s where "read_dynamic_header r = Some (rc, s)"
      by (auto simp: inflate_block_def Option.bind_eq_Some_conv)
    with assms 4 show ?thesis
      by (cases rc) (auto simp: inflate_block_def dest: inflate_codes_no_underflow)
  qed (use assms in \<open>auto simp: inflate_block_def inflate_stored_def Option.bind_eq_Some_conv
      dest: inflate_codes_no_underflow stored_bytes_no_underflow split: if_splits\<close>)
qed

lemma header_codes_length:
  assumes "header_codes h = Some (lit, dist)"
  shows "length lit \<le> 286" "length dist \<le> 30"
  using assms length_cl_run
  by (auto simp: header_codes_def header_lengths_def split: if_splits option.splits)

lemma inflate_block_sound:
  assumes ok: "br_ok r" and h: "length h \<le> cap" "cap \<le> length out"
    and pos: "(pos + 2 + length (r_stream r)) mod 8 = 0" and t: "t < 4"
  shows "\<exists>outcome. inflate_block t cap r (buf h out) (length h) = Some outcome \<and>
    delivers cap out r outcome (\<lambda>h' rest. \<exists>b. block_ok pos h b \<and> h' = block_out h b \<and>
      bits_lsb 2 t @ r_stream r = block_bits b @ rest)"
    (is "\<exists>outcome. _ \<and> delivers cap out r outcome ?Q")
proof -
  from t consider "t = 0" | "t = 1" | "t = 2" | "t = 3" by linarith
  then show ?thesis
  proof cases
    case 1
    from inflate_stored_sound [OF ok h] obtain outcome where
      o1: "inflate_stored cap r (buf h out) (length h) = Some outcome" and
      o2: "delivers cap out r outcome (\<lambda>h' rest. \<exists>pad bs. length pad = length (r_stream r) mod 8 \<and>
        length bs < 65536 \<and> h' = h @ bs \<and> r_stream r = pad @ bits_lsb 16 (length bs) @
          bits_lsb 16 (65535 - length bs) @ bytes_bits bs @ rest)" by blast
    from o2 have "delivers cap out r outcome ?Q"
    proof (rule delivers_after)
      fix h' rest
      assume "\<exists>pad bs. length pad = length (r_stream r) mod 8 \<and> length bs < 65536 \<and> h' = h @ bs \<and>
        r_stream r = pad @ bits_lsb 16 (length bs) @ bits_lsb 16 (65535 - length bs) @ bytes_bits bs @ rest"
      then obtain pad bs where pb: "length pad = length (r_stream r) mod 8" "length bs < 65536" "h' = h @ bs"
        "r_stream r = pad @ bits_lsb 16 (length bs) @ bits_lsb 16 (65535 - length bs) @ bytes_bits bs @ rest"
        by blast
      have "(pos + 2 + length pad) mod 8 = 0" using pos unfolding pb(1) by presburger
      moreover have "length pad < 8" unfolding pb(1) by simp
      ultimately show "?Q h' rest" using pb(2-4) 1 by (intro exI [of _ "Stored pad bs"]) (simp del: bits_lsb_0)
    qed simp_all
    with o1 1 show ?thesis by (simp add: inflate_block_def)
  next
    case 2
    obtain dl dd where dd: "fixed_decoders = Some (dl, dd)" "decoder_of dl fixed_lit_lengths"
      "decoder_of dd fixed_dist_lengths" by (rule fixed_decoders_ok)
    from inflate_codes_sound [OF dd(2,3) _ _ ok h] obtain outcome where
      o1: "inflate_codes dl dd cap r (buf h out) (length h) = Some outcome" and
      o2: "delivers cap out r outcome (\<lambda>h' rest. \<exists>xs. items_ok fixed_lit_lengths fixed_dist_lengths h xs \<and>
        h' = items_out h xs \<and> r_stream r = items_bits fixed_lit_lengths fixed_dist_lengths xs @ rest)"
      by auto
    from o2 have "delivers cap out r outcome ?Q"
      by (rule delivers_after) (use 2 in \<open>auto intro: exI [of _ "Fixed _"]\<close>)
    moreover have "inflate_block t cap r (buf h out) (length h) = Some outcome"
      using o1 by (simp add: inflate_block_def 2 dd(1))
    ultimately show ?thesis by blast
  next
    case 3
    from read_dynamic_header_sound [OF ok] obtain res r1 where
      r1: "read_dynamic_header r = Some (res, r1)" "br_ok r1" "same_input r r1"
        "r_underflow r \<Longrightarrow> r_underflow r1"
      and res: "case res of Inl e \<Rightarrow> e \<noteq> DF_ERR_MEMORY
        | Inr (dl, dd) \<Rightarrow> \<exists>hd lit dist. header_codes hd = Some (lit, dist) \<and>
            decoder_of dl lit \<and> decoder_of dd dist \<and>
            (\<not> r_underflow r1 \<longrightarrow> r_stream r = header_bits hd @ r_stream r1)" by auto
    show ?thesis
    proof (cases res)
      case (Inl e)
      have "delivers cap out r (Inl e, buf h out, r1) ?Q"
        by (rule delivers_error) (use r1 res Inl h in auto)
      with r1(1) Inl 3 show ?thesis by (simp add: inflate_block_def)
    next
      case (Inr p)
      obtain dl dd where p: "p = (dl, dd)" by (cases p)
      from res Inr p obtain hd lit dist where hd: "header_codes hd = Some (lit, dist)"
        "decoder_of dl lit" "decoder_of dd dist"
        "\<not> r_underflow r1 \<Longrightarrow> r_stream r = header_bits hd @ r_stream r1" by auto
      from inflate_codes_sound [OF hd(2,3) header_codes_length [OF hd(1)] r1(2) h] obtain outcome where
        o1: "inflate_codes dl dd cap r1 (buf h out) (length h) = Some outcome" and
        o2: "delivers cap out r1 outcome (\<lambda>h' rest. \<exists>xs. items_ok lit dist h xs \<and>
          h' = items_out h xs \<and> r_stream r1 = items_bits lit dist xs @ rest)" by blast
      from o2 have "delivers cap out r outcome ?Q"
      proof (rule delivers_after [OF _ r1(3,4)])
        fix h' rest
        assume "\<not> r_underflow r1" and "\<exists>xs. items_ok lit dist h xs \<and> h' = items_out h xs \<and>
          r_stream r1 = items_bits lit dist xs @ rest"
        then obtain xs where "items_ok lit dist h xs" "h' = items_out h xs"
          "r_stream r = header_bits hd @ items_bits lit dist xs @ rest" using hd(4) by auto
        then show "?Q h' rest" using 3 hd(1) by (intro exI [of _ "Dynamic hd xs"]) simp
      qed
      with o1 r1(1) Inr p 3 show ?thesis by (simp add: inflate_block_def)
    qed
  next
    case 4
    have "delivers cap out r (Inl DF_ERR_CORRUPT, buf h out, r) ?Q"
      by (rule delivers_error) (use ok h in auto)
    with 4 show ?thesis by (simp add: inflate_block_def)
  qed
qed

lemma bit_field: "unat (v :: u32) < 2 \<Longrightarrow> bits_lsb 1 (unat v) = [v \<noteq> 0]"
proof -
  assume "unat v < 2"
  then have "unat v = 0 \<or> unat v = 1" by linarith
  then show ?thesis by (auto simp: bits_lsb_def bit_0 unat_eq_zero)
qed

lemma inflate_blocks_sound:
  assumes "br_ok r" "length h \<le> cap" "cap \<le> length out" "(pos + length (r_stream r)) mod 8 = 0"
  shows "\<exists>res h'. inflate_blocks cap r (buf h out) (length h) = Some (res, buf h' out) \<and>
    length h' \<le> cap \<and>
    (case res of
       Inl e \<Rightarrow> e \<noteq> DF_ERR_MEMORY
     | Inr n \<Rightarrow> n = length h' \<and> (\<exists>bs rest. stream_ok pos h bs \<and> h' = stream_out h bs \<and>
         r_stream r = stream_bits bs @ rest))"
  using assms
proof (induction "br_left r" arbitrary: r h pos rule: less_induct)
  case less
  note h = less.prems(2,3)
  from less.prems(1) obtain final r1 where r1: "br_bits r 1 = Some (final, r1)" "br_ok r1"
    "same_input r r1" "unat final < 2 ^ 1" "r_underflow r \<Longrightarrow> r_underflow r1"
    "\<not> r_underflow r1 \<Longrightarrow> r_stream r = bits_lsb 1 (unat final) @ r_stream r1"
    by - (rule field_step [of r 1], auto)
  from r1(2) obtain t r2 where r2: "br_bits r1 2 = Some (t, r2)" "br_ok r2" "same_input r1 r2"
    "unat t < 2 ^ 2" "r_underflow r1 \<Longrightarrow> r_underflow r2"
    "\<not> r_underflow r2 \<Longrightarrow> r_stream r1 = bits_lsb 2 (unat t) @ r_stream r2"
    by - (rule field_step [of r1 2], auto)
  show ?case
  proof (cases "r_underflow r2")
    case True
    with r1(1) r2(1) h show ?thesis by (subst inflate_blocks.simps) auto
  next
    case False
    then have nu: "\<not> r_underflow r1" using r2(5) by blast
    have bits: "r_stream r = (final \<noteq> 0) # bits_lsb 2 (unat t) @ r_stream r2"
      using r1(4,6) r2(6) nu False bit_field [of final] by simp
    have "(Suc pos + 2 + length (r_stream r2)) mod 8 = 0" using less.prems(4) bits by simp
    from inflate_block_sound [OF r2(2) h this, of "unat t"] r2(4) obtain res out1 r3 where
      blk: "inflate_block (unat t) cap r2 (buf h out) (length h) = Some (res, out1, r3)" and
      post: "delivers cap out r2 (res, out1, r3) (\<lambda>h' rest. \<exists>b. block_ok (Suc pos) h b \<and>
        h' = block_out h b \<and> bits_lsb 2 (unat t) @ r_stream r2 = block_bits b @ rest)" by auto
    from post obtain h1 where h1: "br_ok r3" "same_input r2 r3" "out1 = buf h1 out" "length h1 \<le> cap"
      and res: "case res of Inl e \<Rightarrow> e \<noteq> DF_ERR_MEMORY
        | Inr n \<Rightarrow> n = length h1 \<and> (\<not> r_underflow r3 \<longrightarrow> (\<exists>b. block_ok (Suc pos) h b \<and>
            h1 = block_out h b \<and> bits_lsb 2 (unat t) @ r_stream r2 = block_bits b @ r_stream r3))"
      by (auto simp: delivers_def)
    show ?thesis
    proof (cases res)
      case (Inl e)
      with r1(1) r2(1) blk False h1 res show ?thesis by (subst inflate_blocks.simps) auto
    next
      case (Inr n)
      with blk have u3: "\<not> r_underflow r3" using inflate_block_no_underflow by blast
      with res Inr obtain b where b: "n = length h1" "block_ok (Suc pos) h b" "h1 = block_out h b"
        "bits_lsb 2 (unat t) @ r_stream r2 = block_bits b @ r_stream r3" by auto
      show ?thesis
      proof (cases "final = 0")
        case False
        then have "r_stream r = stream_bits [b] @ r_stream r3" "stream_ok pos h [b]"
          using bits b by simp_all
        with False r1(1) r2(1) blk \<open>\<not> r_underflow r2\<close> Inr h1 b show ?thesis
          by (subst inflate_blocks.simps) (auto intro!: exI [of _ h1] exI [of _ "[b]"])
      next
        case True
        have small: "br_left r3 < br_left r"
          using br_bits_decr(1) [OF r1(1)] br_bits_decr(2) [OF r2(1) False] inflate_block_left [OF blk]
          by linarith
        have aligned: "(Suc pos + length (block_bits b) + length (r_stream r3)) mod 8 = 0"
        proof -
          have "length (r_stream r) = Suc (length (bits_lsb 2 (unat t) @ r_stream r2))"
            by (simp only: bits) simp
          then show ?thesis using less.prems(4) by (simp add: b(4) add.assoc)
        qed
        from less.hyps [OF small h1(1,4) h(2) aligned] obtain res' h' where
          run: "inflate_blocks cap r3 (buf h1 out) (length h1) = Some (res', buf h' out)" "length h' \<le> cap"
          and post: "case res' of
             Inl e \<Rightarrow> e \<noteq> DF_ERR_MEMORY
           | Inr n \<Rightarrow> n = length h' \<and> (\<exists>bs rest. stream_ok (Suc pos + length (block_bits b)) h1 bs \<and>
               h' = stream_out h1 bs \<and> r_stream r3 = stream_bits bs @ rest)"
          by blast
        have "inflate_blocks cap r (buf h out) (length h) = Some (res', buf h' out)"
          using r1(1) r2(1) blk False Inr True h1(3) b(1) run by (subst inflate_blocks.simps) simp
        moreover have "\<exists>bs rest. stream_ok pos h bs \<and> h' = stream_out h bs \<and> r_stream r = stream_bits bs @ rest"
          if "res' = Inr m" for m
        proof -
          from post that obtain bs rest where bs: "stream_ok (Suc pos + length (block_bits b)) h1 bs"
            "h' = stream_out h1 bs" "r_stream r3 = stream_bits bs @ rest" by auto
          then have "bs \<noteq> []" by auto
          with bs b bits True show ?thesis by (intro exI [of _ "b # bs"] exI [of _ rest]) auto
        qed
        ultimately show ?thesis using run(2) post by (auto split: sum.splits)
      qed
    qed
  qed
qed

text \<open>
  Every input: the decoder returns, it has written to the buffer below \<open>cap\<close> only, and what it
  accepts is a stream for the bytes it has written.
\<close>

lemma deflate_decompress_sound:
  assumes "in_len \<le> length inp" "cap \<le> length out"
  shows "\<exists>res h. deflate_decompress inp in_len out cap = Some (res, buf h out) \<and> length h \<le> cap \<and>
    (case res of
       Inl e \<Rightarrow> e \<noteq> DF_ERR_MEMORY
     | Inr n \<Rightarrow> n = length h \<and> (\<exists>bs. encodes bs (bytes_bits (take in_len inp)) h))"
proof -
  have "(0 + length (r_stream (br_init inp in_len))) mod 8 = 0"
    using assms(1) by (simp add: br_init_ok)
  from inflate_blocks_sound [OF br_init_ok(1) [OF assms(1)] _ assms(2) this, of "[]"] obtain res h where
    "inflate_blocks cap (br_init inp in_len) out 0 = Some (res, buf h out)" "length h \<le> cap"
    "case res of Inl e \<Rightarrow> e \<noteq> DF_ERR_MEMORY
     | Inr n \<Rightarrow> n = length h \<and> (\<exists>bs rest. stream_ok 0 [] bs \<and> h = stream_out [] bs \<and>
         r_stream (br_init inp in_len) = stream_bits bs @ rest)" by auto
  then show ?thesis
    using assms(1) by (auto simp: deflate_decompress_def encodes_def br_init_ok split: sum.splits)
qed

end
