(* ===== verification/Rfc1951.thy ===== *)
theory Rfc1951
  imports Stream_Spec
begin

text \<open>
  A DEFLATE stream as RFC 1951 defines it, where \<open>Stream_Spec\<close> follows the two programs. The items, the
  tables and the layout of the blocks are shared. Different are the fixed code, which has 288 symbols
  (and 32 for distances) here; the number of distance codes of a header, up to 32; and the runs of
  code lengths, which must end where the lengths do. The RFC does not say that a code must use up all
  bit strings, so here, too, a code may be incomplete. On the blocks that \<open>common\<close> selects both agree.
\<close>

section \<open>The format\<close>

definition rfc_fixed_dist_lengths :: "nat list" where
  "rfc_fixed_dist_lengths = replicate 32 5"

fun rfc_lengths :: "nat list \<Rightarrow> (nat \<times> nat) list \<Rightarrow> nat list option" where
  "rfc_lengths ls [] = Some ls"
| "rfc_lengths ls ((s, x) # cs) =
     (if s < 16 then rfc_lengths (ls @ [s]) cs
      else if s = 16 then (if ls = [] then None else rfc_lengths (ls @ replicate (3 + x) (last ls)) cs)
      else if s = 17 then rfc_lengths (ls @ replicate (3 + x) 0) cs
      else rfc_lengths (ls @ replicate (11 + x) 0) cs)"

definition rfc_header_codes :: "dyn_header \<Rightarrow> (nat list \<times> nat list) option" where
  "rfc_header_codes h =
     (if 257 \<le> h_lit h \<and> h_lit h \<le> 286 \<and> 1 \<le> h_dist h \<and> h_dist h \<le> 32 \<and>
         4 \<le> length (h_cl h) \<and> length (h_cl h) \<le> 19 \<and> (\<forall>l \<in> set (h_cl h). l < 8) \<and>
         valid_lengths (cl_lengths (h_cl h)) \<and> (\<forall>c \<in> set (h_syms h). cl_ok (cl_lengths (h_cl h)) c)
      then (case rfc_lengths [] (h_syms h) of
              None \<Rightarrow> None
            | Some ls \<Rightarrow>
                if length ls = h_lit h + h_dist h \<and> valid_lengths (take (h_lit h) ls) \<and> valid_lengths (drop (h_lit h) ls)
                then Some (take (h_lit h) ls, drop (h_lit h) ls) else None)
      else None)"

fun rfc_block_bits :: "block \<Rightarrow> bool list" where
  "rfc_block_bits (Stored pad bs) = bits_lsb 2 (0 :: nat) @ pad @ bits_lsb 16 (length bs) @
     bits_lsb 16 (65535 - length bs) @ bytes_bits bs"
| "rfc_block_bits (Fixed xs) = bits_lsb 2 (1 :: nat) @ items_bits rfc_fixed_lit_lengths rfc_fixed_dist_lengths xs"
| "rfc_block_bits (Dynamic h xs) = bits_lsb 2 (2 :: nat) @ header_bits h @
     (case rfc_header_codes h of Some (lit, dist) \<Rightarrow> items_bits lit dist xs | None \<Rightarrow> [])"

fun rfc_block_ok :: "nat \<Rightarrow> u8 list \<Rightarrow> block \<Rightarrow> bool" where
  "rfc_block_ok pos h (Stored pad bs) \<longleftrightarrow> (pos + 2 + length pad) mod 8 = 0 \<and> length pad < 8 \<and> length bs < 65536"
| "rfc_block_ok pos h (Fixed xs) \<longleftrightarrow> items_ok rfc_fixed_lit_lengths rfc_fixed_dist_lengths h xs"
| "rfc_block_ok pos h (Dynamic hdr xs) \<longleftrightarrow>
     (case rfc_header_codes hdr of Some (lit, dist) \<Rightarrow> items_ok lit dist h xs | None \<Rightarrow> False)"

fun rfc_stream_bits :: "block list \<Rightarrow> bool list" where
  "rfc_stream_bits [] = []"
| "rfc_stream_bits (b # bs) = (bs = []) # rfc_block_bits b @ rfc_stream_bits bs"

fun rfc_stream_ok :: "nat \<Rightarrow> u8 list \<Rightarrow> block list \<Rightarrow> bool" where
  "rfc_stream_ok pos h [] \<longleftrightarrow> False"
| "rfc_stream_ok pos h (b # bs) \<longleftrightarrow> rfc_block_ok (Suc pos) h b \<and>
     (bs \<noteq> [] \<longrightarrow> rfc_stream_ok (Suc pos + length (rfc_block_bits b)) (block_out h b) bs)"

definition rfc_encodes :: "block list \<Rightarrow> bool list \<Rightarrow> u8 list \<Rightarrow> bool" where
  "rfc_encodes bs bits bytes \<longleftrightarrow> rfc_stream_ok 0 [] bs \<and> stream_out [] bs = bytes \<and>
     (\<exists>rest. bits = rfc_stream_bits bs @ rest)"

text \<open>
  The blocks on which the programs keep to the RFC: no literal from 144 on in a fixed block, and at most 30
  distance codes (there are no more distance symbols).
\<close>

fun common :: "block \<Rightarrow> bool" where
  "common (Stored pad bs) \<longleftrightarrow> True"
| "common (Fixed xs) \<longleftrightarrow> (\<forall>b. Literal b \<in> set xs \<longrightarrow> unat b < 144)"
| "common (Dynamic h xs) \<longleftrightarrow> h_dist h \<le> 30"

section \<open>The fixed codes\<close>

lemma count_replicate: "count_list (replicate n x) y = (if x = y then n else 0)"
  by (induction n) auto

lemma first_code_numeral:
  "first_code ls (numeral k) = 2 * (first_code ls (pred_numeral k) + num_codes ls (pred_numeral k))"
  by (simp add: numeral_eq_Suc)

lemma fixed_first_codes:
  "first_code fixed_lit_lengths 7 = 0" "first_code fixed_lit_lengths 8 = 48"
  "first_code rfc_fixed_lit_lengths 7 = 0" "first_code rfc_fixed_lit_lengths 8 = 48"
  "first_code fixed_dist_lengths 5 = 0" "first_code rfc_fixed_dist_lengths 5 = 0"
  by (simp_all add: fixed_lit_lengths_def rfc_fixed_lit_lengths_def fixed_dist_lengths_def rfc_fixed_dist_lengths_def
    first_code_numeral num_codes_def count_replicate)

lemma fixed_prefix: "rfc_fixed_lit_lengths = fixed_lit_lengths @ [8, 8]"
  "rfc_fixed_dist_lengths = fixed_dist_lengths @ [5, 5]"
  by (simp_all add: rfc_fixed_lit_lengths_def fixed_lit_lengths_def rfc_fixed_dist_lengths_def fixed_dist_lengths_def
    numeral_eq_Suc replicate_append_same)

text \<open>The two codes differ on the literals from 144 on only.\<close>

lemma fixed_code_bits:
  assumes "i < 144 \<or> 256 \<le> i" "i < 286"
  shows "code_bits rfc_fixed_lit_lengths i = code_bits fixed_lit_lengths i"
proof -
  have "fixed_lit_lengths ! i = 7 \<or> fixed_lit_lengths ! i = 8"
    using assms by (auto simp: fixed_lit_lengths_def nth_append)
  then show ?thesis using assms(2) fixed_first_codes
    by (auto simp: code_bits_def code_of_def fixed_prefix nth_append)
qed

lemma fixed_dist_bits:
  assumes "d < 30"
  shows "code_bits rfc_fixed_dist_lengths d = code_bits fixed_dist_lengths d"
proof -
  have "fixed_dist_lengths ! d = 5" using assms by (simp add: fixed_dist_lengths_def)
  then show ?thesis using assms fixed_first_codes
    by (simp add: code_bits_def code_of_def fixed_prefix nth_append)
qed

lemma has_code_fixed_rfc:
  "i < 286 \<Longrightarrow> has_code rfc_fixed_lit_lengths i = has_code fixed_lit_lengths i"
  "d < 30 \<Longrightarrow> has_code rfc_fixed_dist_lengths d = has_code fixed_dist_lengths d"
  by (auto simp: has_code_def fixed_prefix nth_append)

lemma fixed_items_ok:
  "items_ok rfc_fixed_lit_lengths rfc_fixed_dist_lengths h xs = items_ok fixed_lit_lengths fixed_dist_lengths h xs"
proof (induction xs arbitrary: h)
  case (Cons x xs)
  have "item_ok rfc_fixed_lit_lengths rfc_fixed_dist_lengths h x = item_ok fixed_lit_lengths fixed_dist_lengths h x"
  proof (cases x)
    case (Literal b)
    then show ?thesis using unat_u8_less [of b] by (simp add: has_code_fixed_rfc)
  next
    case (Copy lc lx dc dx)
    then show ?thesis by (auto simp: has_code_fixed_rfc)
  qed
  then show ?case using Cons by simp
qed (simp add: has_code_fixed_rfc)

lemma fixed_items_bits:
  assumes "items_ok fixed_lit_lengths fixed_dist_lengths h xs" "\<forall>b. Literal b \<in> set xs \<longrightarrow> unat b < 144"
  shows "items_bits rfc_fixed_lit_lengths rfc_fixed_dist_lengths xs = items_bits fixed_lit_lengths fixed_dist_lengths xs"
  using assms
proof (induction xs arbitrary: h)
  case (Cons x xs)
  have "item_bits rfc_fixed_lit_lengths rfc_fixed_dist_lengths x = item_bits fixed_lit_lengths fixed_dist_lengths x"
    using Cons.prems by (cases x) (auto simp: fixed_code_bits fixed_dist_bits)
  then show ?case using Cons.IH [of "item_out h x"] Cons.prems by simp
qed (simp add: fixed_code_bits)

section \<open>The headers\<close>

lemma length_rfc_lengths: "rfc_lengths ls cs = Some r \<Longrightarrow> length r = length ls + (\<Sum>c\<leftarrow>cs. cl_count c)"
proof (induction ls cs rule: rfc_lengths.induct)
  case (2 ls s x cs)
  then show ?case by (auto simp: cl_count_def split: if_splits)
qed simp

lemma cl_count_pos: "0 < cl_count c"
  by (simp add: cl_count_def split: prod.splits)

text \<open>Nothing is cut off where the counts of the symbols add up to the number of lengths.\<close>

lemma cl_apply_whole:
  "length ls + cl_count (s, x) \<le> lim \<Longrightarrow> cl_apply lim ls (s, x) =
     (if s < 16 then Some (ls @ [s])
      else if s = 16 then (if ls = [] then None else Some (ls @ replicate (3 + x) (last ls)))
      else if s = 17 then Some (ls @ replicate (3 + x) 0)
      else Some (ls @ replicate (11 + x) 0))"
  by (auto simp: cl_apply_def cl_count_def min_absorb2 le_diff_conv2)

lemma rfc_lengths_run:
  "length ls + (\<Sum>c\<leftarrow>cs. cl_count c) = lim \<Longrightarrow> rfc_lengths ls cs = cl_run lim ls cs"
proof (induction ls cs rule: rfc_lengths.induct)
  case (2 ls s x cs)
  have "length ls < lim" "length ls + cl_count (s, x) \<le> lim" using 2(5) cl_count_pos [of "(s, x)"] by simp_all
  note step = this(1) cl_apply_whole [OF this(2)]
  have sum: "length ls + cl_count (s, x) + (\<Sum>c\<leftarrow>cs. cl_count c) = lim" using 2(5) by simp
  consider "s < 16" | "s = 16" | "s = 17" | "17 < s" by linarith
  then show ?case
  proof cases
    case 1
    then show ?thesis using step 2(1) sum by (simp add: cl_count_def)
  next
    case c: 2
    then show ?thesis using step 2(2) sum by (cases "ls = []") (simp_all add: cl_count_def)
  next
    case 3
    then show ?thesis using step 2(3) sum by (simp add: cl_count_def)
  next
    case 4
    then show ?thesis using step 2(4) sum by (simp add: cl_count_def)
  qed
qed simp

lemma rfc_header_codes_eq:
  assumes "h_dist h \<le> 30" "(\<Sum>c\<leftarrow>h_syms h. cl_count c) = h_lit h + h_dist h"
  shows "rfc_header_codes h = header_codes h"
proof -
  have run: "rfc_lengths [] (h_syms h) = cl_run (h_lit h + h_dist h) [] (h_syms h)"
    by (rule rfc_lengths_run) (simp add: assms(2))
  show ?thesis
  proof (cases "rfc_lengths [] (h_syms h)")
    case None
    then show ?thesis using run by (simp add: rfc_header_codes_def header_codes_def header_lengths_def)
  next
    case (Some ls)
    then have "length ls = h_lit h + h_dist h" using length_rfc_lengths [OF Some] assms(2) by simp
    then show ?thesis using Some run assms(1) by (simp add: rfc_header_codes_def header_codes_def header_lengths_def)
  qed
qed

lemma rfc_header_tight:
  "rfc_header_codes h = Some c \<Longrightarrow> (\<Sum>c\<leftarrow>h_syms h. cl_count c) = h_lit h + h_dist h"
  by (auto simp: rfc_header_codes_def split: if_splits option.splits dest: length_rfc_lengths)

section \<open>Blocks and streams\<close>

lemma rfc_block_agrees:
  assumes "common b"
  shows "rfc_block_ok pos h b \<longleftrightarrow> block_ok pos h b \<and> tight b"
    and "block_ok pos h b \<Longrightarrow> tight b \<Longrightarrow> rfc_block_bits b = block_bits b"
proof -
  show "rfc_block_ok pos h b \<longleftrightarrow> block_ok pos h b \<and> tight b"
    using assms rfc_header_codes_eq rfc_header_tight
    by (cases b) (fastforce simp: fixed_items_ok split: option.splits)+
  show "rfc_block_bits b = block_bits b" if "block_ok pos h b" "tight b"
    using assms that fixed_items_bits rfc_header_codes_eq
    by (cases b) auto
qed

lemma rfc_stream_agrees:
  "list_all common bs \<Longrightarrow> (rfc_stream_ok pos h bs \<longleftrightarrow> stream_ok pos h bs \<and> list_all tight bs) \<and>
     (stream_ok pos h bs \<and> list_all tight bs \<longrightarrow> rfc_stream_bits bs = stream_bits bs)"
proof (induction bs arbitrary: pos h)
  case (Cons b bs)
  have c: "common b" "list_all common bs" using Cons.prems by simp_all
  note b = rfc_block_agrees [OF c(1), of "Suc pos" h]
  show ?case
  proof (cases "block_ok (Suc pos) h b \<and> tight b")
    case True
    then have "rfc_block_bits b = block_bits b" "rfc_block_ok (Suc pos) h b" using b by blast+
    then show ?thesis using True Cons.IH [OF c(2), of "Suc pos + length (block_bits b)" "block_out h b"]
      by (cases "bs = []") simp_all
  next
    case False
    then show ?thesis using b(1) by auto
  qed
qed simp

theorem rfc_encodes_iff:
  "list_all common bs \<Longrightarrow> rfc_encodes bs bits bytes \<longleftrightarrow> encodes bs bits bytes \<and> list_all tight bs"
  using rfc_stream_agrees [of bs 0 "[]"] by (auto simp: rfc_encodes_def encodes_def)

section \<open>Streams of small bytes\<close>

lemma item_out_prefix: "set h \<subseteq> set (item_out h x)"
proof (cases x)
  case (Copy lc lx dc dx)
  have "set h \<subseteq> set (extend_copy d n h)" for d n by (induction n arbitrary: h) fastforce+
  then show ?thesis using Copy by simp
qed auto

lemma items_out_prefix: "set h \<subseteq> set (items_out h xs)"
  by (induction xs arbitrary: h) (use item_out_prefix in fastforce)+

lemma items_out_literals: "Literal b \<in> set xs \<Longrightarrow> b \<in> set (items_out h xs)"
proof (induction xs arbitrary: h)
  case (Cons x xs)
  then show ?case
  proof (cases "x = Literal b")
    case True
    then show ?thesis using items_out_prefix [of "h @ [b]" xs] by auto
  qed auto
qed simp

lemma stream_out_prefix: "set h \<subseteq> set (stream_out h bs)"
proof (induction bs arbitrary: h)
  case (Cons b bs)
  have "set h \<subseteq> set (block_out h b)" using items_out_prefix by (cases b) auto
  then show ?case using Cons [of "block_out h b"] by auto
qed simp

text \<open>A stream for bytes below 144 has no other literals, so it is one of the RFC.\<close>

lemma small_bytes_common:
  "stream_ok pos h bs \<Longrightarrow> \<forall>b\<in>set (stream_out h bs). b < 144 \<Longrightarrow> list_all common bs"
proof (induction bs arbitrary: pos h)
  case (Cons b bs)
  have "set (block_out h b) \<subseteq> set (stream_out h (b # bs))" using stream_out_prefix by simp
  then have small: "\<forall>c\<in>set (block_out h b). c < 144" using Cons.prems(2) by blast
  have "common b"
  proof (cases b)
    case (Fixed xs)
    then have "c < 144" if "Literal c \<in> set xs" for c using small items_out_literals [OF that, of h] by simp
    then show ?thesis using Fixed by (auto simp: word_less_nat_alt)
  next
    case (Dynamic hdr xs)
    then show ?thesis using Cons.prems(1) by (auto simp: header_codes_def split: option.splits if_splits)
  qed simp
  moreover have "list_all common bs"
    using Cons.IH [of "Suc pos + length (block_bits b)" "block_out h b"] Cons.prems by (cases "bs = []") auto
  ultimately show ?case by simp
qed simp

lemma encodes_rfc:
  assumes "encodes bs bits bytes" "list_all tight bs" "list_all common bs \<or> (\<forall>b\<in>set bytes. b < 144)"
  shows "rfc_encodes bs bits bytes"
proof -
  have "list_all common bs" if "\<forall>b\<in>set bytes. b < 144"
    using assms(1) that by (intro small_bytes_common [of 0 "[]"]) (auto simp: encodes_def)
  with assms(3) have "list_all common bs" by blast
  then show ?thesis using assms(1,2) by (simp add: rfc_encodes_iff)
qed

end
