(* ===== verification/Inflate_Complete.thy ===== *)
theory Inflate_Complete
  imports Inflate_Proof Rfc1951
begin

text \<open>
  The converse of \<open>Inflate_Proof\<close>: the decoder accepts every stream of \<open>Stream_Spec\<close> whose
  bytes fit in the buffer, and returns those bytes. With soundness this makes the decoder's
  acceptance equivalent to the description of the format.
\<close>

text \<open>The reader after a piece of the stream has been consumed.\<close>

definition resumes :: "bitreader \<Rightarrow> bitreader \<Rightarrow> bool list \<Rightarrow> bool" where
  "resumes r r' rest \<longleftrightarrow> br_ok r' \<and> same_input r r' \<and> r_underflow r' = r_underflow r \<and>
     r_stream r' = rest"

lemma resumes_trans: "resumes r s bs \<Longrightarrow> resumes s t cs \<Longrightarrow> resumes r t cs"
  by (auto simp: resumes_def intro: same_input_trans)

lemma field_read:
  assumes "br_ok r" "r_stream r = bits_lsb c v @ rest" "v < 2 ^ c" "c \<le> 24"
  obtains w r' where "br_bits r c = Some (w, r')" "unat w = v" "resumes r r' rest"
proof -
  have "(2 :: nat) ^ c \<le> 2 ^ 24" using assms(4) by (intro power_increasing) auto
  then have v: "unat (of_nat v :: u32) = v" using assms(3) by (simp add: unat_of_nat)
  then have self: "take_bit c (of_nat v :: u32) = of_nat v"
    using assms(3) by (metis take_bit_nat_eq_self unsigned_take_bit_eq word_unat_eq_iff)
  have "bits_lsb c (of_nat v :: u32) = bits_lsb c v"
    using field_value(2) [OF self] assms(4) v by simp
  with assms(2) have "r_stream r = bits_lsb c (of_nat v :: u32) @ rest" by simp
  from readsD [OF reads_bits [OF assms(4)] assms(1) this] obtain r' where
    "br_bits r c = Some (take_bit c (of_nat v), r')" "br_ok r'" "same_input r r'"
    "r_underflow r' = r_underflow r" "r_stream r' = rest" by blast
  with self v show thesis by (intro that [of "of_nat v" r']) (auto simp: resumes_def)
qed

lemma symbol_read:
  assumes "decoder_of d ls" "valid_lengths ls" "has_code ls i"
    and "br_ok r" "r_stream r = code_bits ls i @ rest"
  obtains r' where "huff_decode d r = Some (Inr i, r')" "resumes r r' rest"
proof -
  from assms(3) have "i < length ls" "ls ! i \<noteq> 0" by (simp_all add: has_code_def)
  from readsD [OF huff_decode_code [OF assms(1,2) this] assms(4,5)] that show thesis
    by (auto simp: resumes_def)
qed

section \<open>Literals and copies\<close>

lemma inflate_match_complete:
  assumes d: "decoder_of dd dist" "valid_lengths dist"
    and c: "lc < 29" "lx < 2 ^ (LENGTH_EXTRA ! lc)" "dc < 30" "has_code dist dc"
      "dx < 2 ^ (DIST_EXTRA ! dc)" "copy_distance dc dx \<le> length h"
    and room: "length h + copy_length lc lx \<le> cap" "cap \<le> length out"
    and r: "br_ok r" "r_stream r = bits_lsb (LENGTH_EXTRA ! lc) lx @ code_bits dist dc @
      bits_lsb (DIST_EXTRA ! dc) dx @ rest"
  shows "\<exists>r'. inflate_match dd cap lc r (buf h out) (length h) =
      Some (Inr (length h + copy_length lc lx), buf (item_out h (Copy lc lx dc dx)) out, r') \<and>
    resumes r r' rest"
proof -
  have "LENGTH_EXTRA ! lc \<le> 24" using length_extra_le [OF c(1)] by simp
  from field_read [OF r c(2) this] obtain v r1 where
    r1: "br_bits r (LENGTH_EXTRA ! lc) = Some (v, r1)" "unat v = lx"
      "resumes r r1 (code_bits dist dc @ bits_lsb (DIST_EXTRA ! dc) dx @ rest)" .
  from r1(3) have ok1: "br_ok r1" "r_stream r1 = code_bits dist dc @ bits_lsb (DIST_EXTRA ! dc) dx @ rest"
    by (simp_all add: resumes_def)
  from symbol_read [OF d c(4) ok1] obtain r2 where r2: "huff_decode dd r1 = Some (Inr dc, r2)"
    "resumes r1 r2 (bits_lsb (DIST_EXTRA ! dc) dx @ rest)" .
  from r2(2) have ok2: "br_ok r2" "r_stream r2 = bits_lsb (DIST_EXTRA ! dc) dx @ rest"
    by (simp_all add: resumes_def)
  have "DIST_EXTRA ! dc \<le> 24" using dist_extra_le [OF c(3)] by simp
  from field_read [OF ok2 c(5) this] obtain w r3 where
    r3: "br_bits r2 (DIST_EXTRA ! dc) = Some (w, r3)" "unat w = dx" "resumes r2 r3 rest" .
  have "copy_match (length h) (length h - copy_distance dc dx) (copy_length lc lx) (buf h out) =
      Some (buf (extend_copy (copy_distance dc dx) (copy_length lc lx) h) out)"
    by (rule copy_match_buf) (use copy_distance_pos [OF c(3)] c(6) room in auto)
  with r1(1,2) r2(1) r3(1,2) c(1,3,6) room(1)
  have "inflate_match dd cap lc r (buf h out) (length h) =
      Some (Inr (length h + copy_length lc lx), buf (item_out h (Copy lc lx dc dx)) out, r3)"
    by (simp add: inflate_match_def copy_length_def copy_distance_def Let_def)
  moreover have "resumes r r3 rest" using resumes_trans [OF resumes_trans [OF r1(3) r2(2)] r3(3)] .
  ultimately show ?thesis by blast
qed

lemma inflate_codes_complete:
  assumes d: "decoder_of dl lit" "decoder_of dd dist" "valid_lengths lit" "valid_lengths dist"
    and "items_ok lit dist h xs" "length (items_out h xs) \<le> cap" "cap \<le> length out"
    and "br_ok r" "\<not> r_underflow r" "r_stream r = items_bits lit dist xs @ rest"
  shows "\<exists>r'. inflate_codes dl dd cap r (buf h out) (length h) =
      Some (Inr (length (items_out h xs)), buf (items_out h xs) out, r') \<and> resumes r r' rest"
  using assms(5-)
proof (induction xs arbitrary: h r)
  case Nil
  then have code: "has_code lit 256" and st: "r_stream r = code_bits lit 256 @ rest" by simp_all
  from symbol_read [OF d(1,3) code Nil.prems(4) st] obtain r1 where
    "huff_decode dl r = Some (Inr 256, r1)" "resumes r r1 rest" .
  with Nil.prems show ?case by (subst inflate_codes.simps) (auto simp: resumes_def)
next
  case (Cons x xs)
  have len: "length (item_out h x) \<le> cap"
    using Cons.prems(2) length_items_out_le [of "item_out h x" xs] by simp
  show ?case
  proof (cases x)
    case (Literal b)
    with Cons.prems have code: "has_code lit (unat b)"
      and st: "r_stream r = code_bits lit (unat b) @ items_bits lit dist xs @ rest" by simp_all
    from symbol_read [OF d(1,3) code Cons.prems(4) st] obtain r1 where
      r1: "huff_decode dl r = Some (Inr (unat b), r1)" "resumes r r1 (items_bits lit dist xs @ rest)" .
    have "\<exists>r'. inflate_codes dl dd cap r1 (buf (h @ [b]) out) (length (h @ [b])) =
        Some (Inr (length (items_out (h @ [b]) xs)), buf (items_out (h @ [b]) xs) out, r') \<and>
        resumes r1 r' rest"
      by (rule Cons.IH) (use Cons.prems r1(2) Literal in \<open>auto simp: resumes_def\<close>)
    then obtain r' where r': "inflate_codes dl dd cap r1 (buf (h @ [b]) out) (Suc (length h)) =
        Some (Inr (length (items_out (h @ [b]) xs)), buf (items_out (h @ [b]) xs) out, r')"
        "resumes r1 r' rest" by auto
    have "unat b < 256" using unsigned_less [of b] by simp
    then have "inflate_codes dl dd cap r (buf h out) (length h) =
        inflate_codes dl dd cap r1 (buf (h @ [b]) out) (Suc (length h))"
      using r1 len Cons.prems(3,5) Literal
      by (subst inflate_codes.simps) (simp add: resumes_def)
    with r' resumes_trans [OF r1(2) r'(2)] Literal show ?thesis by simp
  next
    case (Copy lc lx dc dx)
    let ?rest = "items_bits lit dist xs @ rest"
    let ?tail = "bits_lsb (LENGTH_EXTRA ! lc) lx @ code_bits dist dc @ bits_lsb (DIST_EXTRA ! dc) dx @ ?rest"
    let ?h = "item_out h x"
    from Copy Cons.prems have code: "has_code lit (257 + lc)"
      and st: "r_stream r = code_bits lit (257 + lc) @ ?tail" by simp_all
    from symbol_read [OF d(1,3) code Cons.prems(4) st] obtain r1 where
      r1: "huff_decode dl r = Some (Inr (257 + lc), r1)" "resumes r r1 ?tail" .
    have "\<exists>r2. inflate_match dd cap lc r1 (buf h out) (length h) =
        Some (Inr (length h + copy_length lc lx), buf (item_out h (Copy lc lx dc dx)) out, r2) \<and>
        resumes r1 r2 ?rest"
      by (rule inflate_match_complete [OF d(2,4)])
        (use Cons.prems len Copy r1(2) in \<open>simp_all add: resumes_def\<close>)
    then obtain r2 where r2: "inflate_match dd cap lc r1 (buf h out) (length h) =
        Some (Inr (length ?h), buf ?h out, r2)" "resumes r1 r2 ?rest" using Copy by auto
    have "\<exists>r'. inflate_codes dl dd cap r2 (buf ?h out) (length ?h) =
        Some (Inr (length (items_out ?h xs)), buf (items_out ?h xs) out, r') \<and> resumes r2 r' rest"
      by (rule Cons.IH) (use Cons.prems r1(2) r2(2) in \<open>auto simp: resumes_def\<close>)
    then obtain r' where r': "inflate_codes dl dd cap r2 (buf ?h out) (length ?h) =
        Some (Inr (length (items_out ?h xs)), buf (items_out ?h xs) out, r')" "resumes r2 r' rest"
      by blast
    have "inflate_codes dl dd cap r (buf h out) (length h) =
        inflate_codes dl dd cap r2 (buf ?h out) (length ?h)"
      using r1 r2(1) Cons.prems(5) by (subst inflate_codes.simps) (simp add: resumes_def)
    with r' resumes_trans [OF resumes_trans [OF r1(2) r2(2)] r'(2)] show ?thesis by simp
  qed
qed

section \<open>The header of a dynamic block\<close>

lemma apply_cl_symbol_complete:
  assumes c: "cl_apply lim ls (s, x) = Some ls'" "x < 2 ^ cl_extra_bits s" "s < 19"
    and lim: "lim \<le> 316" "length ls < lim"
    and r: "br_ok r" "r_stream r = bits_lsb (cl_extra_bits s) x @ rest"
  shows "\<exists>r'. apply_cl_symbol s lim r (arr ls) (length ls) = Some (Inr (arr ls', length ls'), r') \<and>
    resumes r r' rest"
proof (cases "s < 16")
  case True
  then show ?thesis
    using c lim r by (auto simp: apply_cl_symbol_def cl_apply_def cl_extra_bits_def resumes_def)
next
  case False
  have "cl_extra_bits s \<le> 24" by (simp add: cl_extra_bits_def)
  from field_read [OF r c(2) this] obtain v r' where
    r': "br_bits r (cl_extra_bits s) = Some (v, r')" "unat v = x" "resumes r r' rest" .
  have fill: "fill_lengths k lim y (arr ls) (length ls) =
      Some (arr (take lim (ls @ replicate k y)), length (take lim (ls @ replicate k y)))" for k y
    using fill_lengths_arr lim by simp
  have prev: "rd (arr ls) (length ls - 1) = Some (last ls)" if "ls \<noteq> []"
    using that lim by (simp add: last_conv_nth)
  from False c(3) consider "s = 16" | "s = 17" | "s = 18" by linarith
  then have "apply_cl_symbol s lim r (arr ls) (length ls) = Some (Inr (arr ls', length ls'), r')"
    using c(1) r'(1,2) fill prev
    by cases (auto simp: cl_apply_def apply_cl_symbol_def cl_extra_bits_def simp del: length_take
        split: if_splits)
  with r'(3) show ?thesis by blast
qed

lemma read_lengths_complete:
  assumes d: "decoder_of cld cl" "valid_lengths cl" "length cl \<le> 19" and lim: "lim \<le> 316"
    and "\<forall>c \<in> set cs. cl_ok cl c" "cl_run lim ls cs = Some ls'" "length ls \<le> lim"
    and "br_ok r" "\<not> r_underflow r" "r_stream r = concat (map (cl_bits cl) cs) @ rest"
  shows "\<exists>r'. read_lengths cld lim r (arr ls) (length ls) = Some (Inr (arr ls'), r') \<and> resumes r r' rest"
  using assms(5-)
proof (induction cs arbitrary: ls r)
  case Nil
  then show ?case by (subst read_lengths.simps) (auto simp: resumes_def split: if_splits)
next
  case (Cons c cs)
  obtain s x where c: "c = (s, x)" by (cases c)
  from Cons.prems(2) c obtain ls1 where ls1: "length ls < lim" "cl_apply lim ls (s, x) = Some ls1"
    "cl_run lim ls1 cs = Some ls'" by (auto split: if_splits option.splits)
  let ?rest = "concat (map (cl_bits cl) cs) @ rest"
  from Cons.prems(1) c have code: "has_code cl s" "x < 2 ^ cl_extra_bits s" by (auto simp: cl_ok_def)
  have s19: "s < 19" using code(1) d(3) by (simp add: has_code_def)
  have st: "r_stream r = code_bits cl s @ bits_lsb (cl_extra_bits s) x @ ?rest"
    using Cons.prems(6) cl_bits_def [of cl c] by (simp add: c)
  from symbol_read [OF d(1,2) code(1) Cons.prems(4) st] obtain r1 where
    r1: "huff_decode cld r = Some (Inr s, r1)"
      "resumes r r1 (bits_lsb (cl_extra_bits s) x @ ?rest)" .
  from r1(2) have "br_ok r1" "r_stream r1 = bits_lsb (cl_extra_bits s) x @ ?rest"
    by (simp_all add: resumes_def)
  from apply_cl_symbol_complete [OF ls1(2) code(2) s19 lim ls1(1) this] obtain r2 where
    r2: "apply_cl_symbol s lim r1 (arr ls) (length ls) = Some (Inr (arr ls1, length ls1), r2)"
      "resumes r1 r2 ?rest" by blast
  have "\<exists>r'. read_lengths cld lim r2 (arr ls1) (length ls1) = Some (Inr (arr ls'), r') \<and> resumes r2 r' rest"
    by (rule Cons.IH)
      (use Cons.prems ls1 length_cl_apply [OF ls1(2,1)] r1(2) r2(2) in \<open>auto simp: resumes_def\<close>)
  then obtain r' where r': "read_lengths cld lim r2 (arr ls1) (length ls1) = Some (Inr (arr ls'), r')"
    "resumes r2 r' rest" by blast
  have "read_lengths cld lim r (arr ls) (length ls) = read_lengths cld lim r2 (arr ls1) (length ls1)"
    using r1 r2 ls1(1) Cons.prems(5) by (subst read_lengths.simps) (simp add: resumes_def)
  with r' resumes_trans [OF resumes_trans [OF r1(2) r2(2)] r'(2)] show ?case by simp
qed

lemma read_cl_lengths_complete:
  assumes xs: "length xs \<le> 19" "\<forall>x \<in> set xs. x < 8"
    and r: "br_ok r" "r_stream r = concat (map (bits_lsb 3) xs) @ rest"
  shows "\<exists>r'. read_cl_lengths (length xs) r = Some (cl_lengths xs, r') \<and> resumes r r' rest"
proof -
  let ?I = "\<lambda>k (cl, s). cl = cl_lengths (take k xs) \<and>
    resumes r s (concat (map (bits_lsb 3) (drop k xs)) @ rest)"
  have "\<exists>s. read_cl_lengths (length xs) r = Some s \<and> ?I (length xs) s"
    unfolding read_cl_lengths_def
  proof (rule ofor_upt_rule [where I = ?I])
    show "?I 0 (replicate NUM_CODELEN 0, r)" using r by (simp add: resumes_def)
  next
    fix k st
    assume k: "k < length xs" and "?I k st"
    then obtain s where st: "st = (cl_lengths (take k xs), s)"
      and s: "resumes r s (concat (map (bits_lsb 3) (drop k xs)) @ rest)" by auto
    from s have ok: "br_ok s" by (simp add: resumes_def)
    have bits: "r_stream s = bits_lsb 3 (xs ! k) @ concat (map (bits_lsb 3) (drop (Suc k) xs)) @ rest"
      using s by (simp add: resumes_def Cons_nth_drop_Suc [OF k, symmetric])
    have v: "xs ! k < 2 ^ 3" using xs(2) k by simp
    from field_read [OF ok bits v] obtain w t where
      t: "br_bits s 3 = Some (w, t)" "unat w = xs ! k"
        "resumes s t (concat (map (bits_lsb 3) (drop (Suc k) xs)) @ rest)" by auto
    have "xs ! k mod 256 = xs ! k" using v by simp
    with t(1,2) k xs(1) CODELEN_ORDER_less [of k] resumes_trans [OF s t(3)]
    show "\<exists>s'. (case st of (cl_len, r) \<Rightarrow> br_bits r 3 \<bind> (\<lambda>(v, r).
        rd CODELEN_ORDER k \<bind> (\<lambda>k. wr cl_len k (unat v mod 256) \<bind> (\<lambda>cl_len. Some (cl_len, r))))) =
        Some s' \<and> ?I (Suc k) s'"
      by (simp add: st take_Suc_conv_app_nth cl_lengths_snoc)
  qed simp
  then show ?thesis by auto
qed

lemma read_dynamic_header_complete:
  assumes h: "header_codes h = Some (lit, dist)"
    and r: "br_ok r" "\<not> r_underflow r" "r_stream r = header_bits h @ rest"
  shows "\<exists>dl dd r'. read_dynamic_header r = Some (Inr (dl, dd), r') \<and> decoder_of dl lit \<and>
    decoder_of dd dist \<and> resumes r r' rest"
proof -
  let ?cl = "cl_lengths (h_cl h)" and ?hl = "h_lit h" and ?hd = "h_dist h"
  from h obtain ls where bounds: "257 \<le> ?hl" "?hl \<le> 286" "1 \<le> ?hd" "?hd \<le> 30"
      "4 \<le> length (h_cl h)" "length (h_cl h) \<le> 19" "\<forall>l \<in> set (h_cl h). l < 8"
    and cl: "valid_lengths ?cl" "\<forall>c \<in> set (h_syms h). cl_ok ?cl c"
    and ls: "cl_run (?hl + ?hd) [] (h_syms h) = Some ls"
      "valid_lengths (take ?hl ls)" "valid_lengths (drop ?hl ls)"
      "lit = take ?hl ls" "dist = drop ?hl ls"
    by (auto simp: header_codes_def header_lengths_def split: if_splits option.splits)
  let ?s4 = "concat (map (cl_bits ?cl) (h_syms h)) @ rest"
  let ?s3 = "concat (map (bits_lsb 3) (h_cl h)) @ ?s4"
  let ?s2 = "bits_lsb 4 (length (h_cl h) - 4) @ ?s3"
  let ?s1 = "bits_lsb 5 (?hd - 1) @ ?s2"
  have small: "?hl - 257 < 2 ^ 5" "?hd - 1 < 2 ^ 5" "length (h_cl h) - 4 < 2 ^ 4"
    "(5 :: nat) \<le> 24" "(4 :: nat) \<le> 24" using bounds by simp_all
  have "r_stream r = bits_lsb 5 (?hl - 257) @ ?s1" using r(3) by (simp add: header_bits_def)
  from field_read [OF r(1) this small(1,4)] obtain v1 r1 where
    r1: "br_bits r 5 = Some (v1, r1)" "unat v1 = ?hl - 257" "resumes r r1 ?s1" .
  then have "br_ok r1" "r_stream r1 = bits_lsb 5 (?hd - 1) @ ?s2" by (simp_all add: resumes_def)
  from field_read [OF this small(2,4)] obtain v2 r2 where
    r2: "br_bits r1 5 = Some (v2, r2)" "unat v2 = ?hd - 1" "resumes r1 r2 ?s2" .
  then have "br_ok r2" "r_stream r2 = bits_lsb 4 (length (h_cl h) - 4) @ ?s3"
    by (simp_all add: resumes_def)
  from field_read [OF this small(3,5)] obtain v3 r3 where
    r3: "br_bits r2 4 = Some (v3, r3)" "unat v3 = length (h_cl h) - 4" "resumes r2 r3 ?s3" .
  then have "br_ok r3" "r_stream r3 = ?s3" by (simp_all add: resumes_def)
  from read_cl_lengths_complete [OF bounds(6,7) this] obtain r4 where
    r4: "read_cl_lengths (length (h_cl h)) r3 = Some (?cl, r4)" "resumes r3 r4 ?s4" by blast
  have "take 19 ?cl = ?cl" by simp
  with huff_build_decoder_ok [of 19 ?cl] cl(1) obtain d where
    d: "huff_build_decoder ?cl 19 = Some (Inr d)" "decoder_of d ?cl" by auto
  note upto4 = resumes_trans [OF resumes_trans [OF resumes_trans [OF r1(3) r2(3)] r3(3)] r4(2)]
  from upto4 have ok4: "br_ok r4" "\<not> r_underflow r4" "r_stream r4 = ?s4"
    using r(2) by (simp_all add: resumes_def)
  have "?hl + ?hd \<le> 316" using bounds by simp
  from read_lengths_complete [OF d(2) cl(1) _ this cl(2) ls(1) _ ok4] obtain r5 where
    r5: "read_lengths d (?hl + ?hd) r4 (replicate 316 0) 0 = Some (Inr (arr ls), r5)"
      "resumes r4 r5 rest" by (auto simp: arr_def)
  have "length ls = ?hl + ?hd" using length_cl_run [OF ls(1)] by simp
  from build_tables_ok [OF this bounds(2,4)] ls(2-) obtain dl dd where
    dd: "build_tables (arr ls) ?hl ?hd = Some (Inr (dl, dd))" "decoder_of dl lit" "decoder_of dd dist"
    by auto
  have "unat v1 + 257 = ?hl" "unat v2 + 1 = ?hd" "unat v3 + 4 = length (h_cl h)"
    using r1(2) r2(2) r3(2) bounds by simp_all
  with r1(1) r2(1) r3(1) r4(1) d(1) r5(1) dd(1) bounds
  have "read_dynamic_header r = Some (Inr (dl, dd), r5)"
    by (simp add: read_dynamic_header_def del: One_nat_def)
  with dd(2,3) resumes_trans [OF upto4 r5(2)] show ?thesis by blast
qed

section \<open>Blocks\<close>

lemma stored_bytes_complete:
  assumes "br_ok r" "\<not> r_underflow r" "r_stream r = bytes_bits bs @ rest"
    and "length h + length bs \<le> cap" "cap \<le> length out"
  shows "\<exists>r'. stored_bytes (length bs) r (buf h out) (length h) =
    Some (Inr (length h + length bs), buf (h @ bs) out, r') \<and> resumes r r' rest"
  using assms
proof (induction bs arbitrary: r h)
  case Nil
  then show ?case by (simp add: resumes_def)
next
  case (Cons b bs)
  have "unat b < 2 ^ 8" using unsigned_less [of b] by simp
  moreover have "bits_lsb 8 b = bits_lsb 8 (unat b)"
    by (rule bits_lsb_cong) (simp add: bit_unsigned_iff)
  then have "r_stream r = bits_lsb 8 (unat b) @ bytes_bits bs @ rest" using Cons.prems(3) by simp
  ultimately obtain w r1 where r1: "br_bits r 8 = Some (w, r1)" "unat w = unat b"
    "resumes r r1 (bytes_bits bs @ rest)"
    using field_read [OF Cons.prems(1), of 8 "unat b" "bytes_bits bs @ rest"] by auto
  have "ucast w = (of_nat (unat w) :: u8)" by (simp add: unsigned_ucast_eq)
  then have w: "ucast w = b" using r1(2) by simp
  have "\<exists>r'. stored_bytes (length bs) r1 (buf (h @ [b]) out) (length (h @ [b])) =
      Some (Inr (length (h @ [b]) + length bs), buf ((h @ [b]) @ bs) out, r') \<and> resumes r1 r' rest"
    by (rule Cons.IH) (use Cons.prems r1(3) in \<open>auto simp: resumes_def\<close>)
  then obtain r' where "stored_bytes (length bs) r1 (buf (h @ [b]) out) (Suc (length h)) =
      Some (Inr (Suc (length h + length bs)), buf (h @ b # bs) out, r')" "resumes r1 r' rest" by auto
  with r1(1,3) w Cons.prems resumes_trans show ?case by (auto simp: resumes_def intro: same_input_trans)
qed

lemma inflate_stored_complete:
  assumes r: "br_ok r" "\<not> r_underflow r" "r_stream r = pad @ bits_lsb 16 (length bs) @
      bits_lsb 16 (65535 - length bs) @ bytes_bits bs @ rest"
    and pad: "length pad = length (r_stream r) mod 8" and bs: "length bs < 65536"
    and room: "length h + length bs \<le> cap" "cap \<le> length out"
  shows "\<exists>r'. inflate_stored cap r (buf h out) (length h) =
    Some (Inr (length h + length bs), buf (h @ bs) out, r') \<and> resumes r r' rest"
proof -
  let ?s2 = "bytes_bits bs @ rest"
  let ?s1 = "bits_lsb 16 (65535 - length bs) @ ?s2"
  have "drop (length pad) (r_stream r) = bits_lsb 16 (length bs) @ ?s1" unfolding r(3) by simp
  with br_align_ok [OF r(1)] obtain r1 where
    r1: "br_align r = Some r1" "resumes r r1 (bits_lsb 16 (length bs) @ ?s1)"
    unfolding pad [symmetric] by (auto simp: resumes_def)
  have small: "length bs < 2 ^ 16" "65535 - length bs < 2 ^ 16" "(16 :: nat) \<le> 24"
    using bs by simp_all
  from r1(2) have "br_ok r1" "r_stream r1 = bits_lsb 16 (length bs) @ ?s1" by (simp_all add: resumes_def)
  from field_read [OF this small(1,3)] obtain l r2 where
    r2: "br_bits r1 16 = Some (l, r2)" "unat l = length bs" "resumes r1 r2 ?s1" .
  from r2(3) have "br_ok r2" "r_stream r2 = ?s1" by (simp_all add: resumes_def)
  from field_read [OF this small(2,3)] obtain n r3 where
    r3: "br_bits r2 16 = Some (n, r3)" "unat n = 65535 - length bs" "resumes r2 r3 ?s2" .
  note upto = resumes_trans [OF resumes_trans [OF r1(2) r2(3)] r3(3)]
  from upto have "br_ok r3" "\<not> r_underflow r3" "r_stream r3 = ?s2"
    using r(2) by (simp_all add: resumes_def)
  from stored_bytes_complete [OF this room] obtain r' where
    r': "stored_bytes (length bs) r3 (buf h out) (length h) =
      Some (Inr (length h + length bs), buf (h @ bs) out, r')" "resumes r3 r' rest" by blast
  have "l AND 0xFFFF = NOT n AND 0xFFFF" using nlen_check [of l n] r2(2) r3(2) small by simp
  with r1(1) r2(1,2) r3(1) r'(1) \<open>\<not> r_underflow r3\<close> room(1)
  have "inflate_stored cap r (buf h out) (length h) =
      Some (Inr (length h + length bs), buf (h @ bs) out, r')"
    by (simp add: inflate_stored_def)
  with resumes_trans [OF upto r'(2)] show ?thesis by blast
qed

text \<open>The type field of a block and the bits after it.\<close>

fun block_type :: "block \<Rightarrow> nat" where
  "block_type (Stored pad bs) = 0"
| "block_type (Fixed xs) = 1"
| "block_type (Dynamic hdr xs) = 2"

fun block_body :: "block \<Rightarrow> bool list" where
  "block_body (Stored pad bs) = pad @ bits_lsb 16 (length bs) @
     bits_lsb 16 (65535 - length bs) @ bytes_bits bs"
| "block_body (Fixed xs) = items_bits fixed_lit_lengths fixed_dist_lengths xs"
| "block_body (Dynamic hdr xs) = header_bits hdr @
     (case header_codes hdr of Some (lit, dist) \<Rightarrow> items_bits lit dist xs | None \<Rightarrow> [])"

lemma block_bits_split: "block_bits b = bits_lsb 2 (block_type b) @ block_body b"
  by (cases b) auto

lemma header_codes_valid:
  "header_codes h = Some (lit, dist) \<Longrightarrow> valid_lengths lit \<and> valid_lengths dist"
  by (auto simp: header_codes_def split: if_splits option.splits)

lemma aligned_rest:
  fixes p n k :: nat
  assumes "(p + n) mod 8 = 0" "(p + k) mod 8 = 0" "k < 8"
  shows "k = n mod 8"
proof -
  from assms(1,2) obtain a b where "p + n = 8 * a" "p + k = 8 * b"
    by (auto simp: mod_eq_0_iff_dvd elim!: dvdE)
  then have "n + 8 * b = k + 8 * a" by linarith
  then have "(n + 8 * b) mod 8 = (k + 8 * a) mod 8" by simp
  with assms(3) show ?thesis by simp
qed

lemma inflate_block_complete:
  assumes r: "br_ok r" "\<not> r_underflow r" "r_stream r = block_body b @ rest"
    and pos: "(pos + 2 + length (r_stream r)) mod 8 = 0" and b: "block_ok pos h b"
    and room: "length (block_out h b) \<le> cap" "cap \<le> length out"
  shows "\<exists>r'. inflate_block (block_type b) cap r (buf h out) (length h) =
    Some (Inr (length (block_out h b)), buf (block_out h b) out, r') \<and> resumes r r' rest"
proof (cases b)
  case (Stored pad bs)
  with b have pad: "(pos + 2 + length pad) mod 8 = 0" "length pad < 8" and bs: "length bs < 65536"
    by simp_all
  from pos pad have len: "length pad = length (r_stream r) mod 8" by (rule aligned_rest)
  have st: "r_stream r = pad @ bits_lsb 16 (length bs) @ bits_lsb 16 (65535 - length bs) @
      bytes_bits bs @ rest" using r(3) Stored by simp
  have "length h + length bs \<le> cap" using room(1) Stored by simp
  note inflate_stored_complete [OF r(1,2) st len bs this room(2)]
  with Stored show ?thesis by (simp add: inflate_block_def)
next
  case (Fixed xs)
  obtain dl dd where dd: "fixed_decoders = Some (dl, dd)" "decoder_of dl fixed_lit_lengths"
    "decoder_of dd fixed_dist_lengths" by (rule fixed_decoders_ok)
  have "\<exists>r'. inflate_codes dl dd cap r (buf h out) (length h) =
      Some (Inr (length (items_out h xs)), buf (items_out h xs) out, r') \<and> resumes r r' rest"
    by (rule inflate_codes_complete [OF dd(2,3) valid_fixed_lengths])
      (use r b room Fixed in simp_all)
  with Fixed show ?thesis by (simp add: inflate_block_def dd(1))
next
  case (Dynamic hdr xs)
  with b obtain lit dist where hdr: "header_codes hdr = Some (lit, dist)" "items_ok lit dist h xs"
    by (auto split: option.splits)
  have "r_stream r = header_bits hdr @ items_bits lit dist xs @ rest" using r(3) Dynamic hdr(1) by simp
  from read_dynamic_header_complete [OF hdr(1) r(1,2) this] obtain dl dd r1 where
    r1: "read_dynamic_header r = Some (Inr (dl, dd), r1)" "decoder_of dl lit" "decoder_of dd dist"
      "resumes r r1 (items_bits lit dist xs @ rest)" by blast
  have "\<exists>r'. inflate_codes dl dd cap r1 (buf h out) (length h) =
      Some (Inr (length (items_out h xs)), buf (items_out h xs) out, r') \<and> resumes r1 r' rest"
    by (rule inflate_codes_complete [OF r1(2,3)])
      (use r r1(4) hdr room Dynamic header_codes_valid [OF hdr(1)] in \<open>auto simp: resumes_def\<close>)
  with r1(1,4) Dynamic resumes_trans show ?thesis by (auto simp: inflate_block_def)
qed

lemma block_type_less: "block_type b < 2 ^ 2"
  by (cases b) auto

lemma inflate_blocks_complete:
  assumes "br_ok r" "\<not> r_underflow r" "r_stream r = stream_bits bs @ rest"
    and "(pos + length (r_stream r)) mod 8 = 0" "stream_ok pos h bs"
    and "length (stream_out h bs) \<le> cap" "cap \<le> length out"
  shows "inflate_blocks cap r (buf h out) (length h) =
    Some (Inr (length (stream_out h bs)), buf (stream_out h bs) out)"
  using assms
proof (induction bs arbitrary: r h pos)
  case (Cons b bs)
  let ?s2 = "stream_bits bs @ rest"
  let ?s1 = "block_body b @ ?s2"
  have "bits_lsb 1 (of_bool (bs = []) :: nat) = [bs = []]" by (simp add: bits_lsb_def bit_0)
  then have st: "r_stream r = bits_lsb 1 (of_bool (bs = []) :: nat) @ bits_lsb 2 (block_type b) @ ?s1"
    unfolding Cons.prems(3) \<open>bits_lsb 1 _ = _\<close> stream_bits.simps block_bits_split
    by (simp only: append.simps append_assoc)
  have small: "of_bool (bs = []) < (2 :: nat) ^ 1" "(1 :: nat) \<le> 24" "(2 :: nat) \<le> 24" by simp_all
  from field_read [OF Cons.prems(1) st small(1,2)] obtain f r1 where
    r1: "br_bits r 1 = Some (f, r1)" "unat f = of_bool (bs = [])"
      "resumes r r1 (bits_lsb 2 (block_type b) @ ?s1)" .
  from r1(3) have "br_ok r1" "r_stream r1 = bits_lsb 2 (block_type b) @ ?s1"
    by (simp_all add: resumes_def)
  from field_read [OF this block_type_less small(3)] obtain t r2 where
    r2: "br_bits r1 2 = Some (t, r2)" "unat t = block_type b" "resumes r1 r2 ?s1" .
  note upto = resumes_trans [OF r1(3) r2(3)]
  from upto have ok2: "br_ok r2" "\<not> r_underflow r2" "r_stream r2 = ?s1"
    using Cons.prems(2) by (simp_all add: resumes_def)
  have pos: "(Suc pos + 2 + length (r_stream r2)) mod 8 = 0"
    using Cons.prems(4) st ok2(3) by simp
  have room: "length (block_out h b) \<le> cap"
    using Cons.prems(6) length_stream_out_le [of "block_out h b" bs] by simp
  from Cons.prems(5) have "block_ok (Suc pos) h b" by simp
  from inflate_block_complete [OF ok2 pos this room Cons.prems(7)] obtain r3 where
    r3: "inflate_block (unat t) cap r2 (buf h out) (length h) =
      Some (Inr (length (block_out h b)), buf (block_out h b) out, r3)" "resumes r2 r3 ?s2"
    unfolding r2(2) by blast
  have f: "f \<noteq> 0 \<longleftrightarrow> bs = []" using r1(2) by (cases "bs = []") (auto simp: unat_eq_zero)
  have run: "inflate_blocks cap r (buf h out) (length h) =
      (if bs = [] then Some (Inr (length (block_out h b)), buf (block_out h b) out)
       else inflate_blocks cap r3 (buf (block_out h b) out) (length (block_out h b)))"
    using r1(1) r2(1) r3(1) ok2(2) f by (subst inflate_blocks.simps) simp
  show ?case
  proof (cases "bs = []")
    case True
    with run show ?thesis by simp
  next
    case False
    have "inflate_blocks cap r3 (buf (block_out h b) out) (length (block_out h b)) =
        Some (Inr (length (stream_out (block_out h b) bs)), buf (stream_out (block_out h b) bs) out)"
    proof (rule Cons.IH)
      show "(Suc pos + length (block_bits b) + length (r_stream r3)) mod 8 = 0"
        using pos ok2(3) r3(2) by (simp add: resumes_def block_bits_split add.assoc)
    qed (use Cons.prems False r3(2) ok2 in \<open>auto simp: resumes_def\<close>)
    with run False show ?thesis by simp
  qed
qed simp

lemma deflate_decompress_complete:
  assumes len: "in_len \<le> length inp" and cap: "cap \<le> length out" "length bytes \<le> cap"
    and enc: "encodes bs (bytes_bits (take in_len inp)) bytes"
  shows "deflate_decompress inp in_len out cap = Some (Inr (length bytes), buf bytes out)"
proof -
  from enc obtain rest where bs: "stream_ok 0 [] bs" "stream_out [] bs = bytes"
    "bytes_bits (take in_len inp) = stream_bits bs @ rest" by (auto simp: encodes_def)
  have "r_stream (br_init inp in_len) = stream_bits bs @ rest"
    using len bs(3) by (simp add: br_init_ok(2))
  from inflate_blocks_complete [OF br_init_ok(1) [OF len] _ this _ bs(1) _ cap(1)] cap(2) bs(2) len
  show ?thesis by (simp add: deflate_decompress_def br_init_ok) (simp add: br_init_def)
qed

text \<open>Acceptance is being a stream for the bytes written.\<close>

lemma deflate_decompress_iff:
  assumes len: "in_len \<le> length inp" and cap: "cap \<le> length out"
  shows "deflate_decompress inp in_len out cap = Some (Inr n, out') \<longleftrightarrow>
    (\<exists>bs bytes. encodes bs (bytes_bits (take in_len inp)) bytes \<and> length bytes \<le> cap \<and>
       n = length bytes \<and> out' = buf bytes out)"
proof
  assume run: "deflate_decompress inp in_len out cap = Some (Inr n, out')"
  with deflate_decompress_sound [OF assms] show "\<exists>bs bytes. encodes bs (bytes_bits (take in_len inp)) bytes \<and>
      length bytes \<le> cap \<and> n = length bytes \<and> out' = buf bytes out"
    by fastforce
next
  assume "\<exists>bs bytes. encodes bs (bytes_bits (take in_len inp)) bytes \<and> length bytes \<le> cap \<and>
       n = length bytes \<and> out' = buf bytes out"
  then show "deflate_decompress inp in_len out cap = Some (Inr n, out')"
    using deflate_decompress_complete [OF len cap] by blast
qed

section \<open>Properties\<close>

text \<open>
  C3: whatever the bytes of the input, \<open>deflate_decompress\<close> is defined: it returns, it reads
  only inside the input and its tables, it writes only below \<open>out_cap\<close> in a buffer that keeps
  its length, the count it returns is at most \<open>out_cap\<close>, and an error is one of the decoder's
  three (never the allocation error).
\<close>

theorem decompress_total_and_safe:
  assumes "in_len \<le> length inp" "out_cap \<le> length out"
  shows "\<exists>res out'. deflate_decompress inp in_len out out_cap = Some (res, out') \<and>
    length out' = length out \<and> drop out_cap out' = drop out_cap out \<and>
    (case res of Inl e \<Rightarrow> e \<in> {DF_ERR_OUTPUT, DF_ERR_INPUT, DF_ERR_CORRUPT} | Inr n \<Rightarrow> n \<le> out_cap)"
proof -
  have mem: "e \<noteq> DF_ERR_MEMORY \<Longrightarrow> e \<in> {DF_ERR_OUTPUT, DF_ERR_INPUT, DF_ERR_CORRUPT}" for e
    by (cases e) auto
  from deflate_decompress_sound [OF assms] mem assms(2) show ?thesis
    by (fastforce split: sum.splits)
qed

text \<open>
  C2: \<open>deflate_decompress\<close> accepts an input exactly when its bits begin with a stream of blocks
  in the sense of \<open>Stream_Spec\<close> whose bytes fit in the buffer, and then it returns their number
  and leaves them at the start of the buffer, the rest of which is unchanged. That format is the
  program's own variant of RFC 1951: its fixed code has 286 symbols instead of 288, and a run of code
  lengths may reach past their end. From the streams of the RFC itself (\<open>Rfc1951\<close>) the decoder returns the right bytes
  if no fixed block has a literal from 144 on and no header has more than 30 distance codes.
\<close>

theorem decompress_accepts_streams:
  assumes "in_len \<le> length inp" "out_cap \<le> length out"
  shows "(deflate_decompress inp in_len out out_cap = Some (Inr n, out') \<longleftrightarrow>
    (\<exists>bs bytes. encodes bs (bytes_bits (take in_len inp)) bytes \<and> length bytes \<le> out_cap \<and>
       n = length bytes \<and> out' = bytes @ drop (length bytes) out)) \<and>
    (\<forall>bs bytes. rfc_encodes bs (bytes_bits (take in_len inp)) bytes \<and> list_all common bs \<and> length bytes \<le> out_cap \<longrightarrow>
       deflate_decompress inp in_len out out_cap = Some (Inr (length bytes), bytes @ drop (length bytes) out))"
  using deflate_decompress_iff [OF assms] deflate_decompress_complete [OF assms] by (auto simp: buf_def rfc_encodes_iff)

text \<open>Both at a stored block of one byte.\<close>

theorem decompress_total_and_safe_witness:
  "\<exists>res out'. deflate_decompress [1, 1, 0, 254, 255, 65] 6 [0, 0] 2 = Some (res, out') \<and>
    length out' = 2"
  using decompress_total_and_safe [of 6 "[1, 1, 0, 254, 255, 65]" 2 "[0, 0]"] by auto

theorem decompress_accepts_streams_witness:
  "deflate_decompress [1, 1, 0, 254, 255, 65] 6 [0, 0] 2 = Some (Inr 1, [65, 0]) \<and>
    (\<exists>bs. rfc_encodes bs (bytes_bits (take 6 [1, 1, 0, 254, 255, 65])) [65] \<and> list_all common bs)"
proof -
  let ?b = "Stored [False, False, False, False, False] [65]"
  have "encodes [?b] (bytes_bits (take 6 [1, 1, 0, 254, 255, 65])) [65]"
    by (simp add: encodes_def bits_lsb_def upt_eval bit_0)
  then have rfc: "rfc_encodes [?b] (bytes_bits (take 6 [1, 1, 0, 254, 255, 65])) [65]" "list_all common [?b]"
    by (simp_all only: rfc_encodes_iff list.pred_inject common.simps tight.simps HOL.simp_thms)
  moreover have l: "6 \<le> length [1, 1, 0, 254, 255, 65 :: u8]" "2 \<le> length [0, 0 :: u8]" by simp_all
  have "length [65 :: u8] \<le> 2" by simp
  ultimately have "deflate_decompress [1, 1, 0, 254, 255, 65] 6 [0, 0] 2 =
      Some (Inr (length [65 :: u8]), [65] @ drop (length [65 :: u8]) [0, 0])"
    using conjunct2 [OF decompress_accepts_streams [OF l]] by blast
  then show ?thesis using rfc by auto
qed

text \<open>
  The format is unambiguous for the decoder: a bit string is a stream for at most one byte string,
  however the blocks are cut.
\<close>

theorem stream_determines_bytes:
  assumes "encodes bs (bytes_bits inp) x" "encodes bs' (bytes_bits inp) y"
  shows "x = y"
proof -
  let ?cap = "max (length x) (length y)" and ?out = "replicate (max (length x) (length y)) (0 :: u8)"
  have a: "deflate_decompress inp (length inp) ?out ?cap = Some (Inr (length x), buf x ?out)"
    and b: "deflate_decompress inp (length inp) ?out ?cap = Some (Inr (length y), buf y ?out)"
    using assms by (auto intro!: deflate_decompress_complete)
  have "length x = length y \<and> buf x ?out = buf y ?out"
  proof -
    have "n = m \<and> u = v" if "Some (Inr n :: dferr + nat, u) = Some (Inr m, v)" for n m :: nat and u v :: "u8 list"
      using that by simp
    from this [OF b [unfolded a]] show ?thesis .
  qed
  then show ?thesis unfolding buf_def by (metis append_eq_append_conv)
qed

theorem stream_determines_bytes_witness:
  "\<not> (\<exists>bs. encodes bs (bytes_bits [1, 1, 0, 254, 255, 65]) [66])"
proof
  assume "\<exists>bs. encodes bs (bytes_bits [1, 1, 0, 254, 255, 65]) [66]"
  then obtain bs where y: "encodes bs (bytes_bits [1, 1, 0, 254, 255, 65]) [66]" ..
  have "encodes [Stored [False, False, False, False, False] [65]] (bytes_bits [1, 1, 0, 254, 255, 65]) [65]"
    by (simp add: encodes_def bits_lsb_def upt_eval bit_0)
  from stream_determines_bytes [OF y this] show False by simp
qed

text \<open>
  The decoder stops at the end of the final block: bytes after a stream it accepts change neither
  its answer nor its output.
\<close>

theorem decompress_ignores_trailing:
  assumes "deflate_decompress inp (length inp) out out_cap = Some (Inr n, out')" "out_cap \<le> length out"
  shows "deflate_decompress (inp @ tail) (length inp + length tail) out out_cap = Some (Inr n, out')"
proof -
  have "\<exists>bs bytes. encodes bs (bytes_bits (take (length inp) inp)) bytes \<and> length bytes \<le> out_cap \<and>
      n = length bytes \<and> out' = buf bytes out"
    using assms deflate_decompress_iff [of "length inp" inp out_cap out n out'] by simp
  then obtain bs bytes where b: "encodes bs (bytes_bits inp) bytes" "length bytes \<le> out_cap"
    "n = length bytes" "out' = buf bytes out" by auto
  then have "encodes bs (bytes_bits (take (length inp + length tail) (inp @ tail))) bytes"
    by (auto simp: encodes_def)
  from deflate_decompress_complete [OF _ assms(2) b(2) this] b(3,4) show ?thesis by simp
qed

theorem decompress_ignores_trailing_witness:
  "deflate_decompress ([1, 1, 0, 254, 255, 65] @ [9, 9]) (6 + 2) [0, 0] 2 = Some (Inr 1, [65, 0])"
proof -
  let ?i = "[1, 1, 0, 254, 255, 65] :: u8 list"
  have "encodes [Stored [False, False, False, False, False] [65]] (bytes_bits (take (length ?i) ?i)) [65]"
    by (simp add: encodes_def bits_lsb_def upt_eval bit_0)
  then have "deflate_decompress ?i (length ?i) [0, 0] 2 = Some (Inr (length [65 :: u8]), buf [65] [0, 0])"
    by (rule deflate_decompress_complete [rotated 3]) simp_all
  from decompress_ignores_trailing [OF this, of "[9, 9]"] show ?thesis by (simp add: buf_def numeral_eq_Suc)
qed

end
