(* ===== verification/Deflate_Proof.thy ===== *)
theory Deflate_Proof
  imports Deflate_Header Inflate_Complete
begin

text \<open>
  The compressor: it never runs into undefined behaviour, what it writes fits in
  \<open>deflate_bound\<close> bytes, and it is a stream for the input. The last part has one exception, a
  dynamic block all of whose matches share one distance symbol other than 0.
\<close>

section \<open>The header of a dynamic block\<close>

lemma emits_cong: "emits f bs \<Longrightarrow> (\<And>w. g w = f w) \<Longrightarrow> emits g bs"
  by (simp add: emits_def)

lemma bits_lsb_small: "emits (\<lambda>w. bw_bits w (of_nat v) n) (bits_lsb n v)" if "n \<le> 24"
  using put_field_emits [OF that] .

lemma emit_cl_sym_emits:
  assumes "codes_for codes ls" "length ls = 19" "cl_ok ls (s, x)"
  shows "emits (\<lambda>w. put_symbol codes ls s w \<bind> (\<lambda>w.
      if s = 16 then bw_bits w (of_nat x) 2
      else if s = 17 then bw_bits w (of_nat x) 3
      else if s = 18 then bw_bits w (of_nat x) 7
      else Some w)) (cl_bits ls (s, x))"
proof -
  have s: "s < 19" using assms(2,3) by (simp add: cl_ok_def has_code_def)
  then have "emits (put_symbol codes ls s) (code_bits ls s)"
    using put_symbol_emits [OF assms(1)] assms(2) by simp
  moreover have "emits (\<lambda>w. if s = 16 then bw_bits w (of_nat x) 2
      else if s = 17 then bw_bits w (of_nat x) 3
      else if s = 18 then bw_bits w (of_nat x) 7
      else Some w) (bits_lsb (cl_extra_bits s) x)"
  proof -
    consider "s = 16" | "s = 17" | "s = 18" | "s < 16" using s by linarith
    then show ?thesis
    proof cases
      case 4
      then have "s \<noteq> 16" "s \<noteq> 17" "s \<noteq> 18" by simp_all
      with 4 show ?thesis by (simp add: cl_extra_bits_def) (rule emits_cong [OF emits_skip], simp)
    qed (simp_all add: cl_extra_bits_def put_field_emits)
  qed
  ultimately show ?thesis unfolding cl_bits_def fst_conv snd_conv by (rule emits_bind)
qed

lemma emit_dynamic_header_emits:
  assumes "plan_ok p"
  shows "emits (emit_dynamic_header p) (header_bits (plan_hdr p))"
proof -
  let ?len = "\<lambda>w. ofor (\<lambda>i w. do {
      k \<leftarrow> rd CODELEN_ORDER i; l \<leftarrow> rd (dp_cl_len p) k; bw_bits w (of_nat l) 3 }) [0..<dp_hclen p] w"
  let ?sym = "\<lambda>w. ofor (\<lambda>(s, x) w. put_symbol (dp_cl_code p) (dp_cl_len p) s w \<bind> (\<lambda>w.
      if s = 16 then bw_bits w (of_nat x) 2
      else if s = 17 then bw_bits w (of_nat x) 3
      else if s = 18 then bw_bits w (of_nat x) 7
      else Some w)) (dp_cl p) w"
  have p: "codes_for (dp_cl_code p) (dp_cl_len p)" "length (dp_cl_len p) = 19" "dp_hclen p \<le> 19"
    "\<forall>c \<in> set (dp_cl p). cl_ok (dp_cl_len p) c" "cl_lengths (plan_order p) = dp_cl_len p"
    using assms by (simp_all add: plan_ok_def)
  have "emits ?len (concat (map (\<lambda>i. bits_lsb 3 (dp_cl_len p ! (CODELEN_ORDER ! i))) [0..<dp_hclen p]))"
  proof (rule emits_ofor)
    fix i assume "i \<in> set [0..<dp_hclen p]"
    then have i: "i < 19" using p(3) by simp
    show "emits (\<lambda>w. do { k \<leftarrow> rd CODELEN_ORDER i; l \<leftarrow> rd (dp_cl_len p) k; bw_bits w (of_nat l) 3 })
        (bits_lsb 3 (dp_cl_len p ! (CODELEN_ORDER ! i)))"
      by (rule emits_cong [OF put_field_emits]) (use i CODELEN_ORDER_less [OF i] p(2) in simp_all)
  qed
  then have len: "emits ?len (concat (map (bits_lsb 3) (plan_order p)))"
    by (simp add: plan_order_def comp_def)
  have "emits ?sym (concat (map (cl_bits (dp_cl_len p)) (dp_cl p)))"
  proof (rule emits_ofor)
    fix c assume "c \<in> set (dp_cl p)"
    with p(4) have "cl_ok (dp_cl_len p) c" by blast
    then show "emits ((\<lambda>(s, x) w. put_symbol (dp_cl_code p) (dp_cl_len p) s w \<bind> (\<lambda>w.
        if s = 16 then bw_bits w (of_nat x) 2
        else if s = 17 then bw_bits w (of_nat x) 3
        else if s = 18 then bw_bits w (of_nat x) 7
        else Some w)) c) (cl_bits (dp_cl_len p) c)"
      using emit_cl_sym_emits [OF p(1,2)] by (cases c) simp
  qed
  with len have "emits (\<lambda>w. bw_bits w (of_nat (dp_hlit p - 257)) 5 \<bind> (\<lambda>w.
      bw_bits w (of_nat (dp_hdist p - 1)) 5 \<bind> (\<lambda>w.
      bw_bits w (of_nat (dp_hclen p - 4)) 4 \<bind> (\<lambda>w. ?len w \<bind> ?sym))))
      (bits_lsb 5 (dp_hlit p - 257) @ bits_lsb 5 (dp_hdist p - 1) @ bits_lsb 4 (dp_hclen p - 4) @
       concat (map (bits_lsb 3) (plan_order p)) @ concat (map (cl_bits (dp_cl_len p)) (dp_cl p)))"
    by (intro emits_bind put_field_emits) simp_all
  moreover have "length (plan_order p) = dp_hclen p" by (simp add: plan_order_def)
  ultimately show ?thesis
    using p(5) unfolding header_bits_def plan_hdr_def dyn_header.simps
    by (simp only:) (rule emits_cong, assumption, simp add: emit_dynamic_header_def)
qed

lemma header_cost_ok:
  assumes "plan_ok p"
  shows "header_cost p = Some (3 + length (header_bits (plan_hdr p)))"
proof -
  have p: "length (dp_cl_len p) = 19" "\<forall>c \<in> set (dp_cl p). cl_ok (dp_cl_len p) c"
    "cl_lengths (plan_order p) = dp_cl_len p"
    using assms by (simp_all add: plan_ok_def)
  have "ofor (\<lambda>(s, x) bits. do { l \<leftarrow> rd (dp_cl_len p) s;
         Some (bits + l + (if s = 16 then 2 else if s = 17 then 3 else if s = 18 then 7 else 0)) }) cs n =
      Some (n + length (concat (map (cl_bits (dp_cl_len p)) cs)))"
    if "\<forall>c \<in> set cs. cl_ok (dp_cl_len p) c" for cs n
    using that
  proof (induction cs arbitrary: n)
    case (Cons c cs)
    obtain s x where c: "c = (s, x)" by (cases c)
    with Cons.prems p(1) have s: "s < 19" by (simp add: cl_ok_def has_code_def)
    have "length (cl_bits (dp_cl_len p) c) =
        dp_cl_len p ! s + (if s = 16 then 2 else if s = 17 then 3 else if s = 18 then 7 else 0)"
      using s by (auto simp: cl_bits_def c cl_extra_bits_def)
    with Cons s p(1) show ?case by (simp add: c add.assoc)
  qed simp
  note syms = this [OF p(2)]
  have "length (concat (map (bits_lsb 3) xs)) = 3 * length xs" for xs :: "nat list"
    by (induction xs) simp_all
  moreover have "length (plan_order p) = dp_hclen p" by (simp add: plan_order_def)
  ultimately show ?thesis
    using p(3) by (simp add: header_cost_def header_bits_def plan_hdr_def syms)
qed

section \<open>Bounds\<close>

lemma deflate_bound_eq: "n < 2 ^ 62 \<Longrightarrow> deflate_bound n = n + (n div 65535 + 1) * 5 + 8"
proof -
  assume n: "n < 2 ^ 62"
  have "n div 65535 * 65535 \<le> n" by simp
  then have "n div 65535 * 5 \<le> n" by linarith
  then have "n + (n div 65535 + 1) * 5 + 8 \<le> 2 * n + 13" by simp
  also have "\<dots> < 2 * 2 ^ 62 + 13" using n by linarith
  also have "\<dots> < (2 :: nat) ^ 64" by simp
  finally show ?thesis unfolding deflate_bound_def by (rule mod_less)
qed

lemma stored_room:
  assumes "n < 2 ^ 62"
  shows "40 * stored_blocks n + 8 * n \<le> 8 * deflate_bound n"
proof -
  have "(n + 65534) div 65535 \<le> (n + 65535) div 65535" by (rule div_le_mono) simp
  then have "stored_blocks n \<le> n div 65535 + 1" by (simp add: stored_blocks_def)
  moreover have "40 * s + 8 * m \<le> 8 * (m + (q + 1) * 5 + 8)" if "s \<le> q + 1" for s q m :: nat
    using that by simp
  ultimately show ?thesis unfolding deflate_bound_eq [OF assms] by blast
qed

section \<open>One run of the compressor\<close>

text \<open>
  What a successful run leaves: the number of bytes is within the bound, nothing beyond them is
  touched past the capacity, and under the condition \<open>good\<close> the bytes are a stream for the input.
\<close>

definition compressed ::
  "bool \<Rightarrow> u8 list \<Rightarrow> u8 list \<Rightarrow> nat \<Rightarrow> ((dferr + nat) \<times> u8 list) option \<Rightarrow> bool" where
  "compressed good inp out cap r \<longleftrightarrow> (\<exists>n out'. r = Some (Inr n, out') \<and> n \<le> cap \<and>
     n \<le> deflate_bound (length inp) \<and> length out' = length out \<and> drop cap out' = drop cap out \<and>
     (good \<longrightarrow> (\<exists>bs. encodes bs (bytes_bits (take n out')) inp \<and> list_all tight bs)))"

lemma finish_compressed:
  assumes w: "bw_ok w" "same_buffer (bw_init out cap) w" "length (w_stream w) \<le> 8 * deflate_bound (length inp)"
    and cap: "deflate_bound (length inp) \<le> cap"
    and good: "good \<Longrightarrow> \<exists>bs. w_stream w = stream_bits bs \<and> stream_ok 0 [] bs \<and> stream_out [] bs = inp \<and> list_all tight bs"
  shows "compressed good inp out cap (finish w)"
proof -
  have buf: "w_cap w = cap" "length (w_out w) = length out" "drop cap (w_out w) = drop cap out"
    using w(2) by (simp_all add: same_buffer_def bw_init_def)
  have "length (w_stream w) \<le> 8 * w_cap w" using w(3) cap buf(1) by linarith
  from bw_finish_ok [OF w(1) this] obtain w' n where
    w': "bw_finish w = Some (n, w')" "same_buffer w w'" "\<not> w_overflow w'" "n \<le> w_cap w"
      "8 * n = length (w_stream w) + length (pad_bits (length (w_stream w)))"
      "bytes_bits (take n (w_out w')) = w_stream w @ pad_bits (length (w_stream w))" by blast
  have "length (pad_bits (length (w_stream w))) < 8" by (simp add: pad_bits_def)
  with w'(5) w(3) have "n \<le> deflate_bound (length inp)" by linarith
  moreover have "\<exists>bs. encodes bs (bytes_bits (take n (w_out w'))) inp \<and> list_all tight bs" if good
    using good [OF that] w'(6) by (auto simp: encodes_def)
  ultimately show ?thesis
    using w'(1-4) buf by (simp add: compressed_def finish_def same_buffer_def)
qed

lemma stored_compressed:
  assumes inp: "0 < length inp" "length inp < 2 ^ 62"
    and cap: "cap \<le> length out" "deflate_bound (length inp) \<le> cap"
  shows "compressed True inp out cap (emit_stored_blocks inp 0 (bw_init out cap) \<bind> finish)"
proof -
  let ?w = "bw_init out cap"
  note ok = bw_init_ok [OF cap(1)]
  have room: "40 * stored_blocks (length inp) + 8 * length inp \<le> 8 * deflate_bound (length inp)"
    by (rule stored_room [OF inp(2)])
  moreover have "w_cap ?w = cap" by (simp add: bw_init_def)
  ultimately have fits: "length (w_stream ?w) + 40 * stored_blocks (length inp - 0) + 8 * (length inp - 0)
      \<le> 8 * w_cap ?w"
    unfolding ok(2) using cap(2) by simp
  have "length (w_stream ?w) mod 8 = 0" by (simp add: ok(2))
  from emit_stored_blocks_ok [OF ok(1) this inp(1) fits, of "[]"] obtain w' bs where
    w': "emit_stored_blocks inp 0 ?w = Some w'" "bw_ok w'" "same_buffer ?w w'"
      "w_stream w' = stream_bits bs" "stream_ok 0 [] bs" "stream_out [] bs = inp" "list_all tight bs"
      "length (stream_bits bs) = 40 * stored_blocks (length inp) + 8 * length inp"
    by (auto simp: ok(2))
  have "compressed True inp out cap (finish w')"
    by (rule finish_compressed [OF w'(2,3) _ cap(2)]) (use w'(4-8) room in auto)
  with w'(1) show ?thesis by simp
qed

lemma empty_compressed:
  assumes cap: "cap \<le> length out" "deflate_bound 0 \<le> cap"
  shows "compressed True [] out cap (emit_stored [] True (bw_init out cap) \<bind> finish)"
proof -
  let ?w = "bw_init out cap" and ?b = "Stored (pad_bits 3) []"
  note ok = bw_init_ok [OF cap(1)]
  have bound: "deflate_bound 0 = 13" by (simp add: deflate_bound_def)
  have pad: "length (pad_bits 3) = 5" by (simp add: pad_bits_def)
  have "w_cap ?w = cap" by (simp add: bw_init_def)
  then have fits: "length (w_stream ?w) + 35 + length (pad_bits (length (w_stream ?w) + 3)) + 8 * length ([] :: u8 list)
      \<le> 8 * w_cap ?w" using cap(2) pad bound by (simp add: ok(2))
  from emit_stored_ok [OF ok(1) _ fits, of True] obtain w' where
    w': "emit_stored [] True ?w = Some w'" "bw_ok w'" "same_buffer ?w w'" "w_stream w' = stream_bits [?b]"
    by (auto simp: ok(2))
  have "stream_ok 0 [] [?b] \<and> stream_out [] [?b] = [] \<and> list_all tight [?b]" using pad by simp
  moreover have "length (w_stream w') \<le> 8 * deflate_bound (length ([] :: u8 list))"
    using w'(4) pad bound by simp
  ultimately have "compressed True [] out cap (finish w')"
    using w'(4) cap(2) by (intro finish_compressed [OF w'(2,3)]) (auto intro!: exI [of _ "[?b]"])
  with w'(1) show ?thesis by simp
qed

end
