(* ===== verification/Deflate_Main.thy ===== *)
theory Deflate_Main
  imports Deflate_Proof Rfc1951
begin

text \<open>
  The measured choice between the three candidates, \<open>deflate_compress\<close> as a whole, and the
  round trip with \<open>deflate_decompress\<close>.
\<close>

section \<open>One block of tokens\<close>

lemma emit_compressed:
  assumes f: "emits f bits" and size: "length bits \<le> 8 * deflate_bound (length inp)"
    and cap: "cap \<le> length out" "deflate_bound (length inp) \<le> cap"
    and good: "good \<Longrightarrow> \<exists>bs. bits = stream_bits bs \<and> stream_ok 0 [] bs \<and> stream_out [] bs = inp \<and> list_all tight bs"
  shows "compressed good inp out cap (f (bw_init out cap) \<bind> finish)"
proof -
  let ?w = "bw_init out cap"
  note ok = bw_init_ok [OF cap(1)]
  have "length (w_stream ?w) + length bits \<le> 8 * w_cap ?w"
    using size cap(2) by (simp add: ok(2) bw_init_def w_stream_def)
  with f ok(1) obtain w' where w': "f ?w = Some w'" "bw_ok w'" "same_buffer ?w w'"
    "w_stream w' = bits" by (auto simp: ok(2) elim: emitsD)
  have "compressed good inp out cap (finish w')"
    by (rule finish_compressed [OF w'(2,3) _ cap(2)]) (use w'(4) size good in auto)
  with w'(1) show ?thesis by simp
qed

text \<open>The two bits and the type field before a block of items.\<close>

lemma block_start_emits:
  assumes "emits f bits" "k < 4"
  shows "emits (\<lambda>w. bw_bits w 1 1 \<bind> (\<lambda>w. bw_bits w (of_nat k) 2 \<bind> f)) (True # bits_lsb 2 k @ bits)"
proof -
  have "bits_lsb 1 (1 :: u32) = [True]" by (simp add: bits_lsb_def bit_0)
  then have "emits (\<lambda>w. bw_bits w 1 1) [True]" using bw_bits_emits [of 1 1] by simp
  moreover have "emits (\<lambda>w. bw_bits w (of_nat k) 2 \<bind> f) (bits_lsb 2 k @ bits)"
    by (intro emits_bind put_field_emits assms(1)) simp
  ultimately show ?thesis using emits_bind [of "\<lambda>w. bw_bits w 1 1" "[True]"] by simp
qed

lemma has_code_fixed: "has_code fixed_lit_lengths i \<longleftrightarrow> i < 286" "has_code fixed_dist_lengths d \<longleftrightarrow> d < 30"
  by (auto simp: has_code_def fixed_lit_lengths_def fixed_dist_lengths_def nth_append)

lemma dist_symbols_less: "d \<in> dist_symbols ts \<Longrightarrow> d < 30"
  by (auto simp: dist_symbols_def)

lemma fixed_stream:
  assumes "tokens_ok [] ts"
  shows "stream_ok 0 [] [Fixed (map token_item ts)]"
    and "stream_out [] [Fixed (map token_item ts)] = expand ts"
proof -
  have "items_ok fixed_lit_lengths fixed_dist_lengths [] (map token_item ts)"
    by (rule items_ok_tokens [OF assms]) (auto simp: has_code_fixed lit_symbol_less dist_symbols_less)
  then show "stream_ok 0 [] [Fixed (map token_item ts)]" by simp
qed (simp add: items_out_tokens [OF assms] expand_def)

text \<open>
  The code of a dynamic block lacks a distance symbol in one case: all matches use the same
  symbol, and it is not symbol 0.
\<close>

definition lone_distance :: "token list \<Rightarrow> bool" where
  "lone_distance ts \<longleftrightarrow> (\<exists>d. d \<noteq> 0 \<and> dist_symbols ts = {d})"

lemma coded_dists_cover: "\<not> lone_distance ts \<Longrightarrow> d \<in> dist_symbols ts \<Longrightarrow> d \<in> coded_dists (dist_symbols ts)"
proof (cases "2 \<le> card (dist_symbols ts)")
  case False
  assume d: "\<not> lone_distance ts" "d \<in> dist_symbols ts"
  have "finite (dist_symbols ts)" by (simp flip: set_dist_list)
  with d(2) have "card (dist_symbols ts) \<noteq> 0" by auto
  with False have "card (dist_symbols ts) = 1" by linarith
  then obtain e where e: "dist_symbols ts = {e}" by (rule card_1_singletonE)
  with d have "e = 0" by (auto simp: lone_distance_def)
  with e d(2) show ?thesis by (simp add: coded_dists_def)
qed (simp add: coded_dists_def)

lemma dynamic_stream:
  assumes ts: "tokens_ok [] ts" "\<not> lone_distance ts" and p: "plan_ok p"
    and lit: "\<forall>i. has_code (dp_lit_len p) i \<longleftrightarrow> i \<in> set (lit_symbols ts)"
    and dist: "\<forall>d. has_code (dp_dist_len p) d \<longleftrightarrow> d \<in> coded_dists (dist_symbols ts)"
  shows "stream_bits [Dynamic (plan_hdr p) (map token_item ts)] =
      True # bits_lsb 2 (2 :: nat) @ header_bits (plan_hdr p) @
        items_bits (dp_lit_len p) (dp_dist_len p) (map token_item ts)"
    and "stream_ok 0 [] [Dynamic (plan_hdr p) (map token_item ts)]"
    and "list_all tight [Dynamic (plan_hdr p) (map token_item ts)]"
    and "stream_out [] [Dynamic (plan_hdr p) (map token_item ts)] = expand ts"
proof -
  have zeros: "zero_from (dp_hlit p) (dp_lit_len p)" "zero_from (dp_hdist p) (dp_dist_len p)"
    using p by (simp_all add: plan_ok_def)
  have used: "has_code (dp_lit_len p) 256" "\<forall>t \<in> set ts. has_code (dp_lit_len p) (lit_symbol t)"
    "\<forall>d \<in> dist_symbols ts. has_code (dp_dist_len p) d"
    using lit dist coded_dists_cover [OF ts(2)] by (auto simp: lit_symbols_def)
  note codes = header_codes_plan [OF p]
  show "stream_bits [Dynamic (plan_hdr p) (map token_item ts)] =
      True # bits_lsb 2 (2 :: nat) @ header_bits (plan_hdr p) @
        items_bits (dp_lit_len p) (dp_dist_len p) (map token_item ts)"
    by (simp add: codes items_bits_trim [OF zeros used])
  have "items_ok (take (dp_hlit p) (dp_lit_len p)) (take (dp_hdist p) (dp_dist_len p)) [] (map token_item ts)"
    by (rule items_ok_tokens [OF ts(1)]) (use used zeros in \<open>simp_all add: has_code_trim\<close>)
  then show "stream_ok 0 [] [Dynamic (plan_hdr p) (map token_item ts)]" by (simp add: codes)
  show "list_all tight [Dynamic (plan_hdr p) (map token_item ts)]" using p by (simp add: plan_hdr_def plan_ok_def)
qed (simp add: items_out_tokens [OF ts(1)] expand_def)

lemma compress_tokens_ok:
  assumes inp: "0 < length inp" "Suc (length inp) < 2 ^ 32"
    and ts: "tokens_ok [] ts" "expand ts = inp" "length ts \<le> length inp"
    and cap: "cap \<le> length out" "deflate_bound (length inp) \<le> cap"
  shows "compressed (\<not> lone_distance ts) inp out cap (compress_tokens inp ts (bw_init out cap))"
proof -
  let ?w = "bw_init out cap" and ?xs = "map token_item ts"
  have small: "Suc (length ts) < 2 ^ 32" "length inp < 2 ^ 62" using inp(2) ts(3) by simp_all
  have "ts \<noteq> []" using ts(2) inp(1) by (auto simp: expand_def)
  from count_symbols_ok [OF small(1)] obtain lf df where
    freqs: "count_symbols ts = Some (lf, df)" "counts 286 (lit_symbols ts) lf" "counts 30 (dist_list ts) df" by blast
  from plan_dynamic_ok [OF ts(1) \<open>ts \<noteq> []\<close> small(1) freqs(2,3)] obtain p where
    p: "plan_dynamic lf df = Some p" "plan_ok p"
      "\<forall>i. has_code (dp_lit_len p) i \<longleftrightarrow> i \<in> set (lit_symbols ts)"
      "\<forall>d. has_code (dp_dist_len p) d \<longleftrightarrow> d \<in> coded_dists (dist_symbols ts)" by blast
  have tables: "codes_for (dp_lit_code p) (dp_lit_len p)" "length (dp_lit_len p) = 286"
    "codes_for (dp_dist_code p) (dp_dist_len p)" "length (dp_dist_len p) = 30"
    using p(2) by (simp_all add: plan_ok_def)
  obtain flc where flc: "huff_assign_codes fixed_lit_lengths 286 = Some flc" "codes_for flc fixed_lit_lengths"
    using assign_codes_for [OF valid_fixed_lengths(1) length_fixed_lengths(1)] .
  obtain fdc where fdc: "huff_assign_codes fixed_dist_lengths 30 = Some fdc" "codes_for fdc fixed_dist_lengths"
    using assign_codes_for [OF valid_fixed_lengths(2) length_fixed_lengths(2)] .
  let ?fixed = "items_bits fixed_lit_lengths fixed_dist_lengths ?xs"
  let ?dyn = "items_bits (dp_lit_len p) (dp_dist_len p) ?xs" and ?hdr = "header_bits (plan_hdr p)"
  let ?fb = "3 + length ?fixed" and ?db = "3 + length ?hdr + length ?dyn" and ?sb = "3 + 32 + length inp * 8"
  define fixed_block where "fixed_block = (\<lambda>w. bw_bits w 1 1 \<bind> (\<lambda>w. bw_bits w 1 2 \<bind>
    emit_tokens ts fixed_lit_lengths flc fixed_dist_lengths fdc))"
  define dyn_block where "dyn_block = (\<lambda>w. bw_bits w 1 1 \<bind> (\<lambda>w. bw_bits w 2 2 \<bind> (\<lambda>w.
    emit_dynamic_header p w \<bind> emit_tokens ts (dp_lit_len p) (dp_lit_code p) (dp_dist_len p) (dp_dist_code p))))"
  have run: "compress_tokens inp ts ?w =
     (if ?sb \<le> ?fb \<and> ?sb \<le> ?db then emit_stored_blocks inp 0 ?w \<bind> finish
      else if ?fb \<le> ?db then fixed_block ?w \<bind> finish else dyn_block ?w \<bind> finish)"
    unfolding compress_tokens_def freqs(1) flc(1) fdc(1) p(1) header_cost_ok [OF p(2)]
      token_bits_ok [OF tables(2,4)] token_bits_ok [OF length_fixed_lengths] bind.bind_lunit Let_def prod.case
      fixed_block_def dyn_block_def bind_assoc ..
  have bound: "?sb \<le> 8 * deflate_bound (length inp)"
    by (simp add: deflate_bound_eq [OF small(2)])
  consider (stored) "?sb \<le> ?fb \<and> ?sb \<le> ?db" | (fixed) "\<not> (?sb \<le> ?fb \<and> ?sb \<le> ?db)" "?fb \<le> ?db"
    | (dynamic) "\<not> (?sb \<le> ?fb \<and> ?sb \<le> ?db)" "\<not> ?fb \<le> ?db" by blast
  then show ?thesis
  proof cases
    case stored
    have "compressed True inp out cap (compress_tokens inp ts ?w)"
      using stored_compressed [OF inp(1) small(2) cap] stored by (simp only: run if_P)
    then show ?thesis by (auto simp: compressed_def)
  next
    case fixed
    have "emits fixed_block (True # bits_lsb 2 (1 :: nat) @ ?fixed)"
      unfolding fixed_block_def using block_start_emits [OF emit_tokens_emits [OF flc(2) _ fdc(2)], of 1] by simp
    then have "compressed (\<not> lone_distance ts) inp out cap (fixed_block ?w \<bind> finish)"
    proof (rule emit_compressed [OF _ _ cap])
      show "length (True # bits_lsb 2 (1 :: nat) @ ?fixed) \<le> 8 * deflate_bound (length inp)"
        using fixed bound by simp
      show "\<exists>bs. True # bits_lsb 2 (1 :: nat) @ ?fixed = stream_bits bs \<and> stream_ok 0 [] bs \<and> stream_out [] bs = inp \<and> list_all tight bs"
        using fixed_stream [OF ts(1)] ts(2) by (intro exI [of _ "[Fixed ?xs]"]) simp
    qed
    with fixed show ?thesis by (simp only: run if_not_P if_P if_False)
  next
    case dynamic
    have "emits dyn_block (True # bits_lsb 2 (2 :: nat) @ ?hdr @ ?dyn)"
      unfolding dyn_block_def
      using block_start_emits [OF emits_bind [OF emit_dynamic_header_emits [OF p(2)] emit_tokens_emits [OF tables]], of 2]
      by simp
    then have "compressed (\<not> lone_distance ts) inp out cap (dyn_block ?w \<bind> finish)"
    proof (rule emit_compressed [OF _ _ cap])
      show "length (True # bits_lsb 2 (2 :: nat) @ ?hdr @ ?dyn) \<le> 8 * deflate_bound (length inp)"
      proof -
        have "\<not> ?sb \<le> ?db"
        proof
          assume "?sb \<le> ?db"
          moreover from this dynamic(2) have "?sb \<le> ?fb" by linarith
          ultimately show False using dynamic(1) by blast
        qed
        moreover have "length (True # bits_lsb 2 (2 :: nat) @ ?hdr @ ?dyn) = ?db" by simp
        ultimately show ?thesis using bound by linarith
      qed
      show "\<exists>bs. True # bits_lsb 2 (2 :: nat) @ ?hdr @ ?dyn = stream_bits bs \<and> stream_ok 0 [] bs \<and> stream_out [] bs = inp \<and> list_all tight bs"
        if "\<not> lone_distance ts"
        using dynamic_stream [OF ts(1) that p(2-4)] ts(2)
        by (intro exI [of _ "[Dynamic (plan_hdr p) ?xs]"]) (simp only: HOL.simp_thms)
    qed
    with dynamic show ?thesis by (simp only: run if_not_P if_False)
  qed
qed

text \<open>A match needs four bytes: one to copy from and three to make.\<close>

lemma length_token_out: "token_ok h t \<Longrightarrow> tk_length t \<noteq> 0 \<Longrightarrow> length h + 3 \<le> length (token_out h t)"
  by (simp add: token_ok_def token_out_def)

lemma length_foldl_token_out: "length h \<le> length (foldl token_out h ts)"
proof (induction ts arbitrary: h)
  case (Cons t ts)
  have "length h \<le> length (token_out h t)" by (simp add: token_out_def)
  also have "\<dots> \<le> length (foldl token_out (token_out h t) ts)" by (rule Cons.IH)
  finally show ?case by simp
qed simp

lemma match_needs_four:
  assumes "tokens_ok h ts" "t \<in> set ts" "tk_length t \<noteq> 0"
  shows "4 \<le> length (foldl token_out h ts)"
  using assms
proof (induction ts arbitrary: h)
  case (Cons u ts)
  show ?case
  proof (cases "t = u")
    case True
    with Cons.prems have "1 \<le> length h" by (auto simp: token_ok_def)
    moreover have "length h + 3 \<le> length (token_out h u)"
      using Cons.prems True by (intro length_token_out) simp_all
    ultimately show ?thesis using length_foldl_token_out [of "token_out h u" ts] by simp
  next
    case False
    with Cons show ?thesis by simp
  qed
qed simp

section \<open>The contract between the parser and the encoder\<close>

text \<open>
  All the encoder needs of a parser: its tokens are legal, expand to the input and are not more
  than its bytes.
\<close>

locale tokenizer =
  fixes parse :: "u8 list \<Rightarrow> token list option option"
  assumes parse_ok: "length inp < 2 ^ 64 \<Longrightarrow> \<exists>ts. parse inp = Some (Some ts) \<and> expand ts = inp \<and>
    tokens_ok [] ts \<and> length ts \<le> length inp"
begin

lemma encode_ok:
  assumes "0 < length inp" "Suc (length inp) < 2 ^ 32" "cap \<le> length out" "deflate_bound (length inp) \<le> cap"
  shows "\<exists>ts. parse inp = Some (Some ts) \<and>
    compressed (\<not> lone_distance ts) inp out cap (compress_tokens inp ts (bw_init out cap))"
proof -
  have "length inp < 2 ^ 64" using assms(2) by simp
  then obtain ts where "parse inp = Some (Some ts)" "expand ts = inp" "tokens_ok [] ts"
    "length ts \<le> length inp" using parse_ok by blast
  with compress_tokens_ok [OF assms(1,2) _ _ _ assms(3,4)] show ?thesis by blast
qed

lemma match_length:
  assumes "parse inp = Some (Some ts)" "length inp < 4" "t \<in> set ts"
  shows "tk_length t = 0"
proof (rule ccontr)
  assume "tk_length t \<noteq> 0"
  moreover have "expand ts = inp" "tokens_ok [] ts" using parse_ok [of inp] assms(1,2) by auto
  ultimately show False using match_needs_four [of "[]" ts t] assms(2,3) by (simp add: expand_def)
qed

end

interpretation lz: tokenizer "\<lambda>inp. lz77_parse True True inp (min level 9)" for level
  by unfold_locales (rule lz77_parse_ok, simp_all)

section \<open>The compressor as a whole\<close>

definition comp_level :: "int \<Rightarrow> int" where
  "comp_level level = (if level < 0 \<or> level > 9 then 6 else level)"

definition all_allocs :: allocs where
  "all_allocs = \<lparr>tokens_ok_alloc = True, head_ok_alloc = True, prev_ok_alloc = True\<rparr>"

text \<open>The inputs for which the tokens of the parser share one distance symbol, not 0.\<close>

definition lone_input :: "u8 list \<Rightarrow> int \<Rightarrow> bool" where
  "lone_input inp level \<longleftrightarrow> comp_level level \<noteq> 0 \<and>
     (\<exists>ts. lz77_parse True True inp (nat (comp_level level)) = Some (Some ts) \<and> lone_distance ts)"

lemma comp_level_range: "0 \<le> comp_level level" "comp_level level \<le> 9"
  by (simp_all add: comp_level_def)

lemma lz77_parse_memory:
  "level \<le> 9 \<Longrightarrow> \<not> h \<or> \<not> p \<Longrightarrow> lz77_parse h p inp level = Some None"
  by (auto simp: lz77_parse_def LEVELS_def)

lemma deflate_compress_ok:
  assumes inp: "Suc (length inp) < 2 ^ 32" and cap: "cap \<le> length out" "deflate_bound (length inp) \<le> cap"
  shows "compressed (\<not> lone_input inp level) inp out cap (deflate_compress al inp out cap level) \<or>
    (inp \<noteq> [] \<and> comp_level level \<noteq> 0 \<and> al \<noteq> all_allocs \<and>
     deflate_compress al inp out cap level = Some (Inl DF_ERR_MEMORY, out))"
proof -
  let ?l = "comp_level level" and ?w = "bw_init out cap"
  have small: "length inp < 2 ^ 62" "length inp < 2 ^ 64" using inp by simp_all
  have weaken: "compressed True inp out cap r \<Longrightarrow> compressed good inp out cap r" for good r
    by (auto simp: compressed_def)
  consider "inp = []" | "inp \<noteq> []" "?l = 0" | "inp \<noteq> []" "?l \<noteq> 0" "al \<noteq> all_allocs"
    | "inp \<noteq> []" "?l \<noteq> 0" "al = all_allocs" by blast
  then show ?thesis
  proof cases
    case 1
    with cap empty_compressed [of cap out] weaken show ?thesis by (simp add: deflate_compress_def Let_def)
  next
    case 2
    then have "deflate_compress al inp out cap level = emit_stored_blocks inp 0 ?w \<bind> finish"
      by (simp add: deflate_compress_def Let_def flip: comp_level_def)
    with 2 stored_compressed [OF _ small(1) cap] weaken show ?thesis by simp
  next
    case 3
    have "nat ?l \<le> 9" using comp_level_range [of level] by simp
    with 3 have "deflate_compress al inp out cap level = Some (Inl DF_ERR_MEMORY, out)"
      by (cases al) (auto simp: deflate_compress_def Let_def all_allocs_def lz77_parse_memory simp flip: comp_level_def)
    with 3 show ?thesis by simp
  next
    case 4
    have "min (nat ?l) 9 = nat ?l" using comp_level_range [of level] by simp
    moreover have "0 < length inp" using 4 by simp
    ultimately obtain ts where ts: "lz77_parse True True inp (nat ?l) = Some (Some ts)"
      "compressed (\<not> lone_distance ts) inp out cap (compress_tokens inp ts ?w)"
      using lz.encode_ok [OF _ inp cap, of "nat ?l"] by auto
    have "deflate_compress al inp out cap level = compress_tokens inp ts ?w"
      using 4 ts(1) by (simp add: deflate_compress_def Let_def all_allocs_def flip: comp_level_def)
    moreover have "lone_input inp level \<longleftrightarrow> lone_distance ts" using ts(1) 4 by (simp add: lone_input_def)
    ultimately show ?thesis using ts(2) by simp
  qed
qed

lemma short_not_lone:
  assumes "length inp < 4"
  shows "\<not> lone_input inp level"
proof
  assume "lone_input inp level"
  then obtain ts where ts: "lz77_parse True True inp (min (nat (comp_level level)) 9) = Some (Some ts)"
    "lone_distance ts" using comp_level_range [of level] by (auto simp: lone_input_def)
  from ts(2) obtain t where t: "t \<in> set ts" "tk_length t \<noteq> 0"
    by (auto simp: lone_distance_def dist_symbols_def)
  from lz.match_length [OF ts(1) assms t(1)] t(2) show False by simp
qed

section \<open>Properties\<close>

text \<open>
  C5: Given a buffer of \<open>deflate_bound\<close> bytes, \<open>deflate_compress\<close> is defined at every level, with
  any outcome of its allocations, for every input shorter than 4 GiB: it writes at most
  \<open>deflate_bound\<close> bytes, none past the capacity, and the only error it can return is
  \<open>DF_ERR_MEMORY\<close>, when an allocation failed.
\<close>

theorem compress_total_and_bounded:
  assumes "Suc (length inp) < 2 ^ 32" "out_cap \<le> length out" "deflate_bound (length inp) \<le> out_cap"
  shows "\<exists>res out'. deflate_compress al inp out out_cap level = Some (res, out') \<and>
    length out' = length out \<and> drop out_cap out' = drop out_cap out \<and>
    (case res of Inl e \<Rightarrow> e = DF_ERR_MEMORY \<and> al \<noteq> all_allocs
     | Inr n \<Rightarrow> n \<le> length inp + (length inp div 65535 + 1) * 5 + 8)"
proof -
  have "length inp < 2 ^ 62" using assms(1) by simp
  note bound = deflate_bound_eq [OF this]
  from deflate_compress_ok [OF assms, of level al] show ?thesis
    by (auto simp: compressed_def bound)
qed

theorem compress_total_and_bounded_witness:
  "\<exists>res out'. deflate_compress all_allocs [65, 66] (replicate 15 0) 15 6 = Some (res, out') \<and>
    length out' = 15 \<and> (case res of Inl e \<Rightarrow> False | Inr n \<Rightarrow> n \<le> 15)"
  using compress_total_and_bounded [of "[65, 66]" 15 "replicate 15 0" all_allocs 6]
  by (fastforce simp: deflate_bound_def split: sum.splits)

text \<open>
  C4: With a buffer of \<open>deflate_bound\<close> bytes and for an input below 2^32 - 1 bytes, what
  \<open>deflate_compress\<close> writes is a stream for the input in the sense of \<open>Stream_Spec\<close>, the variant of
  RFC 1951 with a fixed code of 286 symbols: the bytes it reports are blocks, the last one final, whose
  items and stored bytes expand to the input. It is a stream as RFC 1951 itself defines it (\<open>Rfc1951\<close>) if no fixed
  block has a literal from 144 on, in particular if all bytes of the input are below 144; otherwise it may
  not be one. Excepted are the inputs whose matches all use one distance symbol other than 0.
\<close>

theorem compress_writes_stream:
  assumes "Suc (length inp) < 2 ^ 32" "out_cap \<le> length out" "deflate_bound (length inp) \<le> out_cap"
    and "\<not> lone_input inp level"
  shows "\<exists>n out' bs. deflate_compress all_allocs inp out out_cap level = Some (Inr n, out') \<and>
    encodes bs (bytes_bits (take n out')) inp \<and>
    (list_all common bs \<or> (\<forall>b\<in>set inp. b < 144) \<longrightarrow> rfc_encodes bs (bytes_bits (take n out')) inp)"
proof -
  have "compressed True inp out out_cap (deflate_compress all_allocs inp out out_cap level)"
    using deflate_compress_ok [OF assms(1-3), of level all_allocs] assms(4) by auto
  then obtain n out' bs where "deflate_compress all_allocs inp out out_cap level = Some (Inr n, out')"
    "encodes bs (bytes_bits (take n out')) inp" "list_all tight bs" by (auto simp: compressed_def)
  with encodes_rfc [OF this(2,3)] show ?thesis by blast
qed

theorem compress_writes_stream_witness:
  "\<exists>n out' bs. deflate_compress all_allocs [20, 20] (replicate 15 0) 15 9 = Some (Inr n, out') \<and>
    encodes bs (bytes_bits (take n out')) [20, 20] \<and> rfc_encodes bs (bytes_bits (take n out')) [20, 20]"
  using compress_writes_stream [of "[20, 20]" 15 "replicate 15 0" 9] short_not_lone [of "[20, 20]" 9]
  by (auto simp: deflate_bound_def)

text \<open>
  When an allocation fails, an input that needs one (not empty, at a level other than 0, after
  a level outside 0 to 9 has become 6) gets \<open>DF_ERR_MEMORY\<close> and an untouched buffer, whatever
  the buffer's size.
\<close>

theorem compress_memory_error:
  assumes "inp \<noteq> []" "comp_level level \<noteq> 0" "al \<noteq> all_allocs"
  shows "deflate_compress al inp out out_cap level = Some (Inl DF_ERR_MEMORY, out)"
proof -
  have "nat (comp_level level) \<le> 9" using comp_level_range [of level] by simp
  with assms show ?thesis
    by (cases al) (auto simp: deflate_compress_def Let_def all_allocs_def lz77_parse_memory simp flip: comp_level_def)
qed

theorem compress_memory_error_witness:
  "deflate_compress \<lparr>tokens_ok_alloc = True, head_ok_alloc = False, prev_ok_alloc = True\<rparr> [1] [0] 1 (-5) =
     Some (Inl DF_ERR_MEMORY, [0])"
  by (rule compress_memory_error) (simp_all add: comp_level_def all_allocs_def)

text \<open>
  A buffer that is too small is not always reported: storing one byte into a buffer of capacity
  0 shifts a 32-bit value by 40, undefined behaviour, instead of returning \<open>DF_ERR_OUTPUT\<close>,
  because \<open>bw_bits\<close> keeps counting bits it can no longer flush.
\<close>

theorem compress_overflow_undefined:
  "deflate_compress all_allocs [65] [] 0 0 = None"
proof -
  have idle: "w_bit_count w < 8 \<Longrightarrow> bw_drain w = Some w" for w by (subst bw_drain.simps) simp
  have full: "\<exists>b. bw_bits w x c = Some (w\<lparr>w_bit_buf := b, w_bit_count := w_bit_count w + c, w_overflow := True\<rparr>)"
    if "w_cap w \<le> w_pos w" "w_bit_count w < 32" "c < 32" "8 \<le> w_bit_count w + c" for w x c
    using that by (simp add: bw_bits_def) (subst bw_drain.simps, auto)
  have undefined: "bw_bits w x c = None" if "32 \<le> w_bit_count w" for w x c
    using that by (simp add: bw_bits_def shl32_def)
  let ?w = "\<lambda>b n f. \<lparr>w_out = [], w_cap = 0, w_pos = 0, w_bit_buf = b, w_bit_count = n, w_overflow = f\<rparr>"
  have "bw_bits (bw_init [] 0) 1 1 = Some (?w 1 1 False)" by (simp add: bw_bits_def bw_init_def idle)
  moreover have "bw_bits (?w 1 1 False) 0 2 = Some (?w 1 3 False)" by (simp add: bw_bits_def idle)
  moreover obtain b1 where "bw_align (?w 1 3 False) = Some (?w b1 8 True)"
    using full [of "?w 1 3 False" 5 0] by (auto simp: bw_align_def)
  moreover obtain b2 where "bw_bits (?w b1 8 True) (of_nat (length [65 :: u8]) AND 0xFFFF) 16 = Some (?w b2 24 True)"
    using full [of "?w b1 8 True" 16] by auto
  moreover obtain b3 where "bw_bits (?w b2 24 True) (NOT (of_nat (length [65 :: u8])) AND 0xFFFF) 16 = Some (?w b3 40 True)"
    using full [of "?w b2 24 True" 16] by auto
  moreover have "bw_bits (?w b3 40 True) x 8 = None" for x by (rule undefined) simp
  ultimately have "emit_stored [65] True (bw_init [] 0) = None"
    unfolding emit_stored_def by (simp only: if_True bind.bind_lunit ofor.simps option.case)
  then have "emit_stored_blocks [65] 0 (bw_init [] 0) = None"
    by (subst emit_stored_blocks.simps) simp
  then show ?thesis by (simp add: deflate_compress_def)
qed

text \<open>
  C39: If all matches of a legal token sequence share one distance symbol and it is not 0, the
  dynamic code has no code for that symbol: its length is 0 and its bits are empty, so the matches
  of a dynamic block are written without their distance symbol.
\<close>

theorem lone_distance_uncoded:
  assumes "tokens_ok [] ts" "Suc (length ts) < 2 ^ 32" "dist_symbols ts = {d}" "d \<noteq> 0"
  shows "\<exists>lit_freq dist_freq p. count_symbols ts = Some (lit_freq, dist_freq) \<and> dist_freq ! d \<noteq> 0 \<and>
    plan_dynamic lit_freq dist_freq = Some p \<and> dp_dist_len p ! d = 0"
proof -
  have "ts \<noteq> []" using assms(3) by (auto simp: dist_symbols_def)
  from count_symbols_ok [OF assms(2)] obtain lf df where
    freqs: "count_symbols ts = Some (lf, df)" "counts 286 (lit_symbols ts) lf" "counts 30 (dist_list ts) df" by blast
  from plan_dynamic_ok [OF assms(1) \<open>ts \<noteq> []\<close> assms(2) freqs(2,3)] obtain p where
    p: "plan_dynamic lf df = Some p" "plan_ok p"
      "\<forall>e. has_code (dp_dist_len p) e \<longleftrightarrow> e \<in> coded_dists (dist_symbols ts)" by blast
  have d: "d < 30" using dist_symbols_less [of d ts] assms(3) by simp
  have "\<not> has_code (dp_dist_len p) d" using p(3) assms(3,4) by (simp add: coded_dists_def)
  then have "dp_dist_len p ! d = 0" using p(2) d by (simp add: has_code_def plan_ok_def)
  moreover have "df ! d \<noteq> 0" using counts_used [OF freqs(3) d] assms(3) by (simp add: set_dist_list)
  ultimately show ?thesis using freqs(1) p(1) by blast
qed

theorem lone_distance_uncoded_witness:
  "\<exists>lit_freq dist_freq p.
    count_symbols [literal_token 2, literal_token 0, match_token 3 2] = Some (lit_freq, dist_freq) \<and>
    dist_freq ! 1 \<noteq> 0 \<and> plan_dynamic lit_freq dist_freq = Some p \<and> dp_dist_len p ! 1 = 0"
proof -
  have "scan_down base v (numeral k) = (if v \<ge> base ! pred_numeral k then pred_numeral k
      else scan_down base v (pred_numeral k))" for base v k
    by (simp add: numeral_eq_Suc)
  then have "distance_to_code 2 = 1" by (simp add: distance_to_code_def DIST_BASE_def)
  then have "dist_symbols [literal_token 2, literal_token 0, match_token 3 2] = {1}"
    by (simp add: dist_list_def literal_token_def match_token_def flip: set_dist_list)
  moreover have "tokens_ok [] [literal_token 2, literal_token 0, match_token 3 2]"
    by (simp add: token_ok_def token_out_def literal_token_def match_token_def)
  ultimately show ?thesis by (intro lone_distance_uncoded) simp_all
qed

end
