(* ===== verification/Gzip_Proof.thy ===== *)
theory Gzip_Proof
  imports Gzip Deflate_Main
begin

text \<open>
  \<open>gzip_compress\<close> writes a gzip member: ten header bytes, the stream, the CRC and the length,
  both little-endian.
\<close>

definition le32 :: "u32 \<Rightarrow> u8 list" where
  "le32 v = map (\<lambda>i. ucast (drop_bit (8 * i) v)) [0..<4]"

definition GZIP_HEADER :: "u8 list" where
  "GZIP_HEADER = [0x1F, 0x8B, 8, 0, 0, 0, 0, 0, 0, 255]"

definition gzip_member :: "u8 list \<Rightarrow> u8 list \<Rightarrow> u8 list" where
  "gzip_member body data = GZIP_HEADER @ body @ le32 (crc32 data) @ le32 (of_nat (length data))"

lemma length_le32 [simp]: "length (le32 v) = 4"
  by (simp add: le32_def)

lemma gzip_header_ok:
  assumes "10 \<le> length out"
  shows "ofor (\<lambda>(i, v) out. wr out i v)
    [(0, 0x1F), (1, 0x8B), (2, 8), (3, 0), (7, 0), (6, 0), (5, 0), (4, 0), (8, 0), (9, 255)] out =
    Some (GZIP_HEADER @ drop 10 out)"
proof -
  obtain hs rest where out: "out = hs @ rest" "length hs = 10"
    using assms append_take_drop_id [of 10 out] by (metis length_take min_absorb2)
  then have "length hs = Suc (Suc (Suc (Suc (Suc (Suc (Suc (Suc (Suc (Suc 0)))))))))" by simp
  then obtain a b c d e f g h i j where "hs = [a, b, c, d, e, f, g, h, i, j]"
    unfolding length_Suc_conv by auto
  with out show ?thesis by (simp add: wr_def GZIP_HEADER_def)
qed

lemma put_trailer_ok:
  assumes "length pre = pos" "8 \<le> length rest"
  shows "do { (out, pos) \<leftarrow> put_le32 v (pre @ rest) pos; put_le32 w out pos } =
    Some (pre @ le32 v @ le32 w @ drop 8 rest, pos + 8)"
proof -
  have "put_le32 v (pre @ rest) pos = Some (pre @ le32 v @ drop 4 rest, pos + 4)"
    using put_le32_ok [of pos "pre @ rest" v] assms by (simp add: le32_def)
  moreover have "put_le32 w ((pre @ le32 v) @ drop 4 rest) (pos + 4) =
      Some ((pre @ le32 v) @ le32 w @ drop 8 rest, pos + 8)"
    using put_le32_ok [of "pos + 4" "(pre @ le32 v) @ drop 4 rest" w] assms by (simp add: le32_def)
  ultimately show ?thesis by simp
qed

lemma gzip_compress_ok:
  assumes st: "crc_inv st" and inp: "Suc (length inp) < 2 ^ 32"
    and cap: "cap \<le> length out" "deflate_bound (length inp) + 18 \<le> cap"
  shows "\<exists>res out' st'. gzip_compress st al inp out cap level = Some (res, out', st') \<and> crc_inv st' \<and>
    length out' = length out \<and> drop cap out' = drop cap out \<and>
    (case res of
       Inl e \<Rightarrow> e = DF_ERR_MEMORY \<and> al \<noteq> all_allocs \<and> inp \<noteq> [] \<and> comp_level level \<noteq> 0
     | Inr n \<Rightarrow> n \<le> deflate_bound (length inp) + 18 \<and>
         (\<exists>body. take n out' = gzip_member body inp \<and>
            (\<not> lone_input inp level \<longrightarrow> (\<exists>bs. encodes bs (bytes_bits body) inp \<and> list_all tight bs))))"
proof -
  let ?rest = "drop 10 out" and ?cap = "cap - 18"
  have len: "10 \<le> length out" "?cap \<le> length ?rest" "deflate_bound (length inp) \<le> ?cap" "\<not> cap < 18"
    using cap by simp_all
  note hdr = gzip_header_ok [OF len(1)]
  have ten: "length GZIP_HEADER = 10" by (simp add: GZIP_HEADER_def)
  from deflate_compress_ok [OF inp len(2,3), of level al] show ?thesis
  proof
    assume "compressed (\<not> lone_input inp level) inp ?rest ?cap (deflate_compress al inp ?rest ?cap level)"
    then obtain n out1 where c: "deflate_compress al inp ?rest ?cap level = Some (Inr n, out1)"
      "n \<le> ?cap" "n \<le> deflate_bound (length inp)" "length out1 = length ?rest" "drop ?cap out1 = drop ?cap ?rest"
      "\<not> lone_input inp level \<longrightarrow> (\<exists>bs. encodes bs (bytes_bits (take n out1)) inp \<and> list_all tight bs)"
      by (auto simp: compressed_def)
    obtain st' where crc: "deflate_crc32 st inp = Some (crc32 inp, st')" "crc_inv st'"
      using deflate_crc32_ok [OF st] by blast
    let ?pre = "GZIP_HEADER @ take n out1"
    let ?out = "?pre @ le32 (crc32 inp) @ le32 (of_nat (length inp)) @ drop 8 (drop n out1)"
    have n: "length ?pre = 10 + n" "8 \<le> length (drop n out1)" using ten c(2,4) cap(1) len(4) by simp_all
    have "do { (out, pos) \<leftarrow> put_le32 (crc32 inp) (GZIP_HEADER @ out1) (10 + n);
        put_le32 (of_nat (length inp)) out pos } = Some (?out, 10 + n + 8)"
      using put_trailer_ok [OF n] by simp
    then have run: "gzip_compress st al inp out cap level = Some (Inr (10 + n + 8), ?out, st')"
      unfolding gzip_compress_def if_not_P [OF len(4)] hdr bind.bind_lunit
      by (auto simp: ten crc(1) c(1) split: bind_splits)
    have "length ?out = length out" using n c(4) ten len(1) by simp
    moreover have "drop cap ?out = drop cap out"
    proof -
      have "drop cap ?out = drop (cap - (10 + n + 8)) (drop 8 (drop n out1))"
        using n(1) c(2) len(4) by (simp add: ten)
      also have "\<dots> = drop 8 (drop ?cap out1)" using c(2) len(4) by (simp add: add.commute)
      also have "\<dots> = drop cap out" using len(4) by (simp add: c(5))
      finally show ?thesis .
    qed
    moreover have "take (10 + n + 8) ?out = gzip_member (take n out1) inp"
      using c(2,4) cap(1) len(4) by (simp add: gzip_member_def ten min_absorb2)
    moreover have "10 + n + 8 \<le> deflate_bound (length inp) + 18" using c(3) by simp
    ultimately show ?thesis using run crc(2) c(6)
      by (intro exI [of _ "Inr (10 + n + 8)"] exI [of _ ?out] exI [of _ st']) auto
  next
    assume m: "inp \<noteq> [] \<and> comp_level level \<noteq> 0 \<and> al \<noteq> all_allocs \<and>
      deflate_compress al inp ?rest ?cap level = Some (Inl DF_ERR_MEMORY, ?rest)"
    have "gzip_compress st al inp out cap level = Some (Inl DF_ERR_MEMORY, GZIP_HEADER @ ?rest, st)"
      unfolding gzip_compress_def if_not_P [OF len(4)] hdr bind.bind_lunit using m ten by simp
    moreover have "drop cap (GZIP_HEADER @ ?rest) = drop cap out" using len(4) ten by simp
    ultimately show ?thesis using m st ten len(1) by simp
  qed
qed

section \<open>Properties\<close>

text \<open>
  C30: With 18 bytes more than \<open>deflate_bound\<close> and for an input below 2^32 - 1 bytes, \<open>gzip_compress\<close>
  writes the fixed header, a body, the CRC of the input and its length modulo
  2^32, both little-endian; it returns the number of bytes and leaves what lies past the capacity
  alone. The body is a stream for the input in the sense of \<open>Stream_Spec\<close>, with the program's own fixed code of 286 symbols;
  it is one of RFC 1951, which other programs read, if no fixed block has a literal from 144 on, in
  particular if all bytes of the input are below 144. Excepted are the inputs whose matches all use one
  distance symbol other than 0.
\<close>

theorem gzip_writes_member:
  assumes "crc_inv st" "Suc (length inp) < 2 ^ 32" "out_cap \<le> length out"
    and "deflate_bound (length inp) + 18 \<le> out_cap" "\<not> lone_input inp level"
  shows "\<exists>n out' st' body bs. gzip_compress st all_allocs inp out out_cap level = Some (Inr n, out', st') \<and>
    crc_inv st' \<and> drop out_cap out' = drop out_cap out \<and>
    take n out' = [0x1F, 0x8B, 8, 0, 0, 0, 0, 0, 0, 255] @ body @ le32 (crc32 inp) @ le32 (of_nat (length inp)) \<and>
    encodes bs (bytes_bits body) inp \<and>
    (list_all common bs \<or> (\<forall>b\<in>set inp. b < 144) \<longrightarrow> rfc_encodes bs (bytes_bits body) inp)"
proof -
  from gzip_compress_ok [OF assms(1-4), of all_allocs level] obtain res out' st' where
    run: "gzip_compress st all_allocs inp out out_cap level = Some (res, out', st')" "crc_inv st'"
      "drop out_cap out' = drop out_cap out"
    and res: "case res of Inl e \<Rightarrow> False
     | Inr n \<Rightarrow> (\<exists>body. take n out' = gzip_member body inp \<and> (\<exists>bs. encodes bs (bytes_bits body) inp \<and> list_all tight bs))"
    using assms(5) by (fastforce split: sum.splits)
  from res obtain n body bs where "res = Inr n" "take n out' = gzip_member body inp"
    "encodes bs (bytes_bits body) inp" "list_all tight bs" by (cases res) auto
  with run encodes_rfc [OF this(3,4)] show ?thesis
    by (intro exI [of _ n] exI [of _ out'] exI [of _ st'] exI [of _ body] exI [of _ bs]) (simp add: gzip_member_def GZIP_HEADER_def)
qed

theorem gzip_writes_member_witness:
  "\<exists>n out' st' body bs. gzip_compress crc_static_init all_allocs [5] (replicate 40 1) 40 1 = Some (Inr n, out', st') \<and>
    take n out' = [0x1F, 0x8B, 8, 0, 0, 0, 0, 0, 0, 255] @ body @ le32 (crc32 [5]) @ le32 (of_nat (length [5 :: u8])) \<and>
    rfc_encodes bs (bytes_bits body) [5]"
proof -
  have "\<not> lone_input [5] 1" by (rule short_not_lone) simp
  moreover have "deflate_bound (length [5 :: u8]) + 18 \<le> 40" by (simp add: deflate_bound_def)
  moreover have "Suc (length [5 :: u8]) < 2 ^ 32" "40 \<le> length (replicate 40 (1 :: u8))" by simp_all
  ultimately have "\<exists>n out' st' body bs. gzip_compress crc_static_init all_allocs [5] (replicate 40 1) 40 1 = Some (Inr n, out', st') \<and>
    crc_inv st' \<and> drop 40 out' = drop 40 (replicate 40 1) \<and>
    take n out' = [0x1F, 0x8B, 8, 0, 0, 0, 0, 0, 0, 255] @ body @ le32 (crc32 [5]) @ le32 (of_nat (length [5 :: u8])) \<and>
    encodes bs (bytes_bits body) [5] \<and>
    (list_all common bs \<or> (\<forall>b\<in>set [5 :: u8]. b < 144) \<longrightarrow> rfc_encodes bs (bytes_bits body) [5])"
    by (intro gzip_writes_member [OF crc_inv_init])
  then obtain n out' st' body bs where run:
    "gzip_compress crc_static_init all_allocs [5] (replicate 40 1) 40 1 = Some (Inr n, out', st')"
    "take n out' = [0x1F, 0x8B, 8, 0, 0, 0, 0, 0, 0, 255] @ body @ le32 (crc32 [5]) @ le32 (of_nat (length [5 :: u8]))"
    "list_all common bs \<or> (\<forall>b\<in>set [5 :: u8]. b < 144) \<longrightarrow> rfc_encodes bs (bytes_bits body) [5]"
    by blast
  then have "rfc_encodes bs (bytes_bits body) [5]" by simp
  with run(1,2) show ?thesis by blast
qed

text \<open>
  A buffer of less than 18 bytes gets \<open>DF_ERR_OUTPUT\<close> and is not touched; when the compressor
  reports an error, \<open>gzip_compress\<close> returns that error.
\<close>

theorem gzip_errors:
  assumes "10 \<le> length out"
  shows "if out_cap < 18 then gzip_compress st al inp out out_cap level = Some (Inl DF_ERR_OUTPUT, out, st)
    else \<forall>e rest. deflate_compress al inp (drop 10 out) (out_cap - 18) level = Some (Inl e, rest) \<longrightarrow>
      gzip_compress st al inp out out_cap level = Some (Inl e, GZIP_HEADER @ rest, st)"
proof (cases "out_cap < 18")
  case False
  have "length GZIP_HEADER = 10" by (simp add: GZIP_HEADER_def)
  with False show ?thesis
    unfolding gzip_compress_def if_not_P [OF False] gzip_header_ok [OF assms] bind.bind_lunit by simp
qed (simp add: gzip_compress_def)

theorem gzip_errors_witness:
  "gzip_compress crc_static_init all_allocs [1] (replicate 10 0) 17 6 = Some (Inl DF_ERR_OUTPUT, replicate 10 0, crc_static_init)"
  using gzip_errors [of "replicate 10 0" 17 crc_static_init all_allocs "[1]" 6] by simp

end
