(* ===== verification/Codec.thy ===== *)
theory Codec
  imports Deflate_Emit Huffman_Decode
begin

text \<open>
  The interface between the two ends of a bit stream: a way to write a value under a key and a
  way to read it back under the same key. What is written field by field is read back, whatever
  the fields are. The model's fields are the fixed-width integers of \<open>bw_bits\<close> and \<open>br_bits\<close>,
  with the width as key, and the symbols of a Huffman code, with its tables as key.
\<close>

section \<open>The interface\<close>

fun read_all :: "('k \<Rightarrow> bitreader \<Rightarrow> ('b \<times> bitreader) option) \<Rightarrow> 'k list \<Rightarrow> bitreader \<Rightarrow>
    ('b list \<times> bitreader) option" where
  "read_all get [] r = Some ([], r)"
| "read_all get (k # ks) r = do {
     (x, r) \<leftarrow> get k r;
     (xs, r) \<leftarrow> read_all get ks r;
     Some (x # xs, r) }"

definition write_all :: "('k \<Rightarrow> 'a \<Rightarrow> bitwriter \<Rightarrow> bitwriter option) \<Rightarrow> ('k \<times> 'a) list \<Rightarrow>
    bitwriter \<Rightarrow> bitwriter option" where
  "write_all put kvs = ofor (\<lambda>(k, v). put k v) kvs"

locale codec =
  fixes ok :: "'k \<Rightarrow> 'a \<Rightarrow> bool"
    and put :: "'k \<Rightarrow> 'a \<Rightarrow> bitwriter \<Rightarrow> bitwriter option"
    and get :: "'k \<Rightarrow> bitreader \<Rightarrow> ('b \<times> bitreader) option"
    and enc :: "'k \<Rightarrow> 'a \<Rightarrow> bool list"
    and val :: "'k \<Rightarrow> 'a \<Rightarrow> 'b"
  assumes put_emits: "ok k v \<Longrightarrow> emits (put k v) (enc k v)"
    and get_reads: "ok k v \<Longrightarrow> reads (get k) (enc k v) (val k v)"
begin

lemma write_all_emits:
  assumes "\<forall>(k, v) \<in> set kvs. ok k v"
  shows "emits (write_all put kvs) (concat (map (\<lambda>(k, v). enc k v) kvs))"
  unfolding write_all_def
proof (rule emits_ofor)
  fix kv assume "kv \<in> set kvs"
  with assms show "emits ((\<lambda>(k, v). put k v) kv) ((\<lambda>(k, v). enc k v) kv)"
    by (cases kv) (auto intro: put_emits)
qed

lemma read_all_reads:
  assumes "\<forall>(k, v) \<in> set kvs. ok k v" "br_ok r" "\<not> r_underflow r"
    and "r_stream r = concat (map (\<lambda>(k, v). enc k v) kvs) @ rest"
  shows "\<exists>r'. read_all get (map fst kvs) r = Some (map (\<lambda>(k, v). val k v) kvs, r') \<and>
    \<not> r_underflow r' \<and> r_stream r' = rest"
  using assms
proof (induction kvs arbitrary: r)
  case (Cons kv kvs)
  obtain k v where kv: "kv = (k, v)" by (cases kv)
  have "ok k v" using Cons.prems(1) by (simp add: kv)
  have "r_stream r = enc k v @ concat (map (\<lambda>(k, v). enc k v) kvs) @ rest"
    using Cons.prems(4) by (simp add: kv)
  from readsD [OF get_reads [OF \<open>ok k v\<close>] Cons.prems(2) this] obtain r1 where
    r1: "get k r = Some (val k v, r1)" "br_ok r1"
    "r_underflow r1 = r_underflow r" "r_stream r1 = concat (map (\<lambda>(k, v). enc k v) kvs) @ rest"
    by blast
  then have "\<not> r_underflow r1" using Cons.prems(3) by simp
  with Cons.IH [OF _ r1(2) _ r1(4)] Cons.prems(1) r1(1) show ?case by (auto simp: kv)
qed simp

text \<open>Everything written to a large enough buffer is read back from the bytes reported.\<close>

lemma round_trip:
  assumes kvs: "\<forall>(k, v) \<in> set kvs. ok k v" and cap: "cap \<le> length out"
    and room: "length (concat (map (\<lambda>(k, v). enc k v) kvs)) \<le> 8 * cap"
  shows "\<exists>w n w' r. write_all put kvs (bw_init out cap) = Some w \<and> bw_finish w = Some (n, w') \<and>
    \<not> w_overflow w' \<and> n \<le> cap \<and>
    read_all get (map fst kvs) (br_init (w_out w') n) = Some (map (\<lambda>(k, v). val k v) kvs, r) \<and>
    \<not> r_underflow r"
proof -
  let ?bits = "concat (map (\<lambda>(k, v). enc k v) kvs)"
  note init = bw_init_ok [OF cap]
  have c: "w_cap (bw_init out cap) = cap" by (simp add: bw_init_def)
  have "length (w_stream (bw_init out cap)) + length ?bits \<le> 8 * w_cap (bw_init out cap)"
    using room unfolding init(2) c by simp
  with write_all_emits [OF kvs] init(1) obtain w where
    w: "write_all put kvs (bw_init out cap) = Some w" "bw_ok w" "same_buffer (bw_init out cap) w"
      "w_stream w = ?bits" by (auto simp: init(2) elim: emitsD)
  have cw: "w_cap w = cap" "length (w_out w) = length out" using w(3) c by (simp_all add: same_buffer_def bw_init_def)
  have "length (w_stream w) \<le> 8 * w_cap w" using w(4) room cw by simp
  from bw_finish_ok [OF w(2) this] obtain w' n where
    fin: "bw_finish w = Some (n, w')" "same_buffer w w'" "\<not> w_overflow w'" "n \<le> w_cap w"
      "bytes_bits (take n (w_out w')) = w_stream w @ pad_bits (length (w_stream w))" by blast
  have "n \<le> length (w_out w')" using fin(2,4) cw cap by (simp add: same_buffer_def)
  note br = br_init_ok(1) [OF this]
  have "r_stream (br_init (w_out w') n) = ?bits @ pad_bits (length ?bits)"
    unfolding br_init_ok(2) fin(5) w(4) ..
  from read_all_reads [OF kvs br _ this] obtain r where
    "read_all get (map fst kvs) (br_init (w_out w') n) = Some (map (\<lambda>(k, v). val k v) kvs, r)"
    "\<not> r_underflow r" by (auto simp: br_init_def)
  with w(1) fin(1,3,4) cw(1) show ?thesis by blast
qed

end

section \<open>Fixed-width fields\<close>

interpretation field: codec "\<lambda>n v. n \<le> 24" "\<lambda>n v w. bw_bits w v n" "\<lambda>n r. br_bits r n"
  "\<lambda>n v. bits_lsb n v" "\<lambda>n v. take_bit n v"
  by unfold_locales (simp_all add: bw_bits_emits reads_bits)

text \<open>
  Every sequence of values written with \<open>bw_bits\<close>, each in a field of at most 24 bits, to a
  buffer that has room for them is read back by \<open>br_bits\<close> with the same widths, each value cut to
  its width, from exactly the bytes \<open>bw_finish\<close> reports; neither side overflows or underflows.
\<close>

theorem bit_fields_roundtrip:
  assumes "\<forall>(n, v) \<in> set fs. n \<le> 24" "cap \<le> length out"
    and "length (concat (map (\<lambda>(n, v). bits_lsb n v) fs)) \<le> 8 * cap"
  shows "\<exists>w k w' r. write_all (\<lambda>n v w. bw_bits w v n) fs (bw_init out cap) = Some w \<and>
    bw_finish w = Some (k, w') \<and> \<not> w_overflow w' \<and> k \<le> cap \<and>
    read_all (\<lambda>n r. br_bits r n) (map fst fs) (br_init (w_out w') k) =
      Some (map (\<lambda>(n, v). take_bit n v) fs, r) \<and> \<not> r_underflow r"
  by (rule field.round_trip [OF assms])

theorem bit_fields_roundtrip_witness:
  "\<exists>w k w' r. write_all (\<lambda>n v w. bw_bits w v n) [(3, 5), (12, 0xABC), (24, 0x123456)] (bw_init [0, 0, 0, 0, 0] 5) = Some w \<and>
    bw_finish w = Some (k, w') \<and> \<not> w_overflow w' \<and> k \<le> 5 \<and>
    read_all (\<lambda>n r. br_bits r n) [3, 12, 24] (br_init (w_out w') k) = Some ([5, 0xABC, 0x123456], r) \<and>
    \<not> r_underflow r"
proof -
  have "take_bit 3 (5 :: u32) = 5" "take_bit 12 (0xABC :: u32) = 0xABC" "take_bit 24 (0x123456 :: u32) = 0x123456"
    by simp_all
  then show ?thesis
    using bit_fields_roundtrip [of "[(3, 5), (12, 0xABC), (24, 0x123456)]" 5 "[0, 0, 0, 0, 0]"] by simp
qed

section \<open>Huffman symbols\<close>

interpretation symbol: codec
  "\<lambda>(codes, ls, d) i. codes_for codes ls \<and> decoder_of d ls \<and> has_code ls i"
  "\<lambda>(codes, ls, d) i. put_symbol codes ls i" "\<lambda>(codes, ls, d). huff_decode d"
  "\<lambda>(codes, ls, d) i. code_bits ls i" "\<lambda>_ i. Inr i"
  by unfold_locales
    (auto simp: has_code_def codes_for_def intro: put_symbol_emits huff_decode_code)

text \<open>
  C29: For every table of code lengths that is not over-subscribed, \<open>huff_assign_codes\<close> and
  \<open>huff_build_decoder\<close> succeed and belong together: any sequence of symbols that have a code,
  written with \<open>bw_code\<close> to a buffer with room for it, is decoded by \<open>huff_decode\<close> to the same
  sequence.
\<close>

theorem huffman_symbols_roundtrip:
  assumes ls: "valid_lengths ls" and syms: "\<forall>i \<in> set syms. has_code ls i" and cap: "cap \<le> length out"
    and room: "length (concat (map (code_bits ls) syms)) \<le> 8 * cap"
  shows "\<exists>codes d. huff_assign_codes ls (length ls) = Some codes \<and>
    huff_build_decoder ls (length ls) = Some (Inr d) \<and>
    (\<exists>w n w' r. ofor (put_symbol codes ls) syms (bw_init out cap) = Some w \<and>
       bw_finish w = Some (n, w') \<and> \<not> w_overflow w' \<and>
       read_all (\<lambda>_. huff_decode d) (replicate (length syms) ()) (br_init (w_out w') n) = Some (map Inr syms, r) \<and>
       \<not> r_underflow r)"
proof -
  obtain codes where codes: "huff_assign_codes ls (length ls) = Some codes" "codes_for codes ls"
    using assign_codes_for [OF ls refl] .
  have "length ls \<le> 286" using ls by (rule valid_lengths_length)
  with huff_build_decoder_ok [of "length ls" ls] ls obtain d where
    d: "huff_build_decoder ls (length ls) = Some (Inr d)" "decoder_of d ls" by auto
  let ?kvs = "map (\<lambda>i. ((codes, ls, d), i)) syms"
  have enc: "map (\<lambda>((codes, ls, d), i). code_bits ls i) ?kvs = map (code_bits ls) syms" by simp
  have w: "write_all (\<lambda>(codes, ls, d) i. put_symbol codes ls i) ?kvs = ofor (put_symbol codes ls) syms"
  proof
    fix s show "write_all (\<lambda>(codes, ls, d) i. put_symbol codes ls i) ?kvs s = ofor (put_symbol codes ls) syms s"
      unfolding write_all_def by (induction syms arbitrary: s) (auto split: option.split)
  qed
  have r: "read_all (\<lambda>(codes, ls, d). huff_decode d) (map fst ?kvs) r = read_all (\<lambda>_. huff_decode d) (replicate (length syms) ()) r" for r
    by (induction syms arbitrary: r) simp_all
  have "\<exists>w n w' r. write_all (\<lambda>(codes, ls, d) i. put_symbol codes ls i) ?kvs (bw_init out cap) = Some w \<and>
      bw_finish w = Some (n, w') \<and> \<not> w_overflow w' \<and> n \<le> cap \<and>
      read_all (\<lambda>(codes, ls, d). huff_decode d) (map fst ?kvs) (br_init (w_out w') n) =
        Some (map (\<lambda>(k, i). Inr i) ?kvs, r) \<and> \<not> r_underflow r"
    by (rule symbol.round_trip) (use codes(2) d(2) syms cap room in \<open>auto simp: case_prod_beta comp_def\<close>)
  then show ?thesis unfolding w r using codes(1) d(1) by (simp add: comp_def) blast
qed

theorem huffman_symbols_roundtrip_witness:
  "\<exists>codes d. huff_assign_codes [1, 2, 0, 2] 4 = Some codes \<and>
    huff_build_decoder [1, 2, 0, 2] 4 = Some (Inr d) \<and>
    (\<exists>w n w' r. ofor (put_symbol codes [1, 2, 0, 2]) [3, 0, 1, 1, 0, 3] (bw_init [0, 0] 2) = Some w \<and>
       bw_finish w = Some (n, w') \<and> \<not> w_overflow w' \<and>
       read_all (\<lambda>_. huff_decode d) (replicate 6 ()) (br_init (w_out w') n) = Some (map Inr [3, 0, 1, 1, 0, 3], r) \<and>
       \<not> r_underflow r)"
proof -
  have "valid_lengths [1, 2, 0, 2]" by (simp add: valid_lengths_def kraft_def)
  moreover have "\<forall>i \<in> set [3, 0, 1, 1, 0, 3]. has_code [1, 2, 0, 2] i" by (simp add: has_code_def)
  moreover have "2 \<le> length ([0, 0] :: u8 list)" by simp
  moreover have "length (concat (map (code_bits [1, 2, 0, 2]) [3, 0, 1, 1, 0, 3])) \<le> 8 * 2" by simp
  ultimately have "\<exists>codes d. huff_assign_codes [1, 2, 0, 2] (length [1, 2, 0, 2 :: nat]) = Some codes \<and>
    huff_build_decoder [1, 2, 0, 2] (length [1, 2, 0, 2 :: nat]) = Some (Inr d) \<and>
    (\<exists>w n w' r. ofor (put_symbol codes [1, 2, 0, 2]) [3, 0, 1, 1, 0, 3] (bw_init [0, 0] 2) = Some w \<and>
       bw_finish w = Some (n, w') \<and> \<not> w_overflow w' \<and>
       read_all (\<lambda>_. huff_decode d) (replicate (length [3, 0, 1, 1, 0, 3 :: nat]) ()) (br_init (w_out w') n) = Some (map Inr [3, 0, 1, 1, 0, 3], r) \<and>
       \<not> r_underflow r)"
    by (rule huffman_symbols_roundtrip)
  moreover have "length [1, 2, 0, 2 :: nat] = 4" "length [3, 0, 1, 1, 0, 3 :: nat] = 6" by simp_all
  ultimately show ?thesis by (simp only:)
qed

section \<open>Prefix-freeness\<close>

lemma bytes_for_bits: "length bs mod 8 = 0 \<Longrightarrow> \<exists>bytes. bytes_bits bytes = bs"
proof (induction "length bs div 8" arbitrary: bs)
  case 0
  then have "bs = []" by (metis div_mult_mod_eq add_0_right length_0_conv mult_0)
  then show ?case by (intro exI [of _ "[]"]) simp
next
  case (Suc n)
  then have len: "8 \<le> length bs" by (cases "8 \<le> length bs") auto
  have "length (drop 8 bs) div 8 = n" "length (drop 8 bs) mod 8 = 0"
    using Suc.hyps(2) Suc.prems len le_div_geq [of 8 "length bs"] le_mod_geq [of 8 "length bs"] by simp_all
  with Suc.hyps(1) [of "drop 8 bs"] obtain bytes where bytes: "bytes_bits bytes = drop 8 bs" by auto
  let ?b = "of_nat (nat_of_bits (take 8 bs)) :: u8"
  have "bits_lsb 8 ?b = take 8 bs"
    by (rule nth_equalityI) (use len in \<open>auto simp: bit_simps bit_nat_of_bits min_absorb2\<close>)
  with bytes have "bytes_bits (?b # bytes) = bs" by simp
  then show ?case by blast
qed

text \<open>
  C31: The codes \<open>huff_assign_codes\<close> gives to a table that is not over-subscribed are prefix-free: of
  two different symbols with codes, neither's bits begin with the other's.
\<close>

theorem codes_prefix_free:
  assumes ls: "valid_lengths ls" "huff_assign_codes ls (length ls) = Some codes"
    and i: "has_code ls i" and j: "has_code ls j" and "i \<noteq> j"
  shows "bits_msb (ls ! j) (codes ! j) \<noteq> bits_msb (ls ! i) (codes ! i) @ rest"
proof
  assume prefix: "bits_msb (ls ! j) (codes ! j) = bits_msb (ls ! i) (codes ! i) @ rest"
  have codes: "codes ! k = code_of ls k" if "has_code ls k" for k
    using huff_assign_codes_ok [OF ls(1)] ls(2) that by (auto simp: tabulates_def has_code_def)
  with prefix i j have eq: "code_bits ls j = code_bits ls i @ rest" by (simp add: code_bits_def)
  have "length ls \<le> 286" using ls(1) by (rule valid_lengths_length)
  with huff_build_decoder_ok [of "length ls" ls] ls(1) obtain d where d: "decoder_of d ls" by auto
  let ?pad = "replicate (7 * length (code_bits ls j)) False"
  have "length (code_bits ls j @ ?pad) mod 8 = 0" by simp
  from bytes_for_bits [OF this] obtain bytes where bytes: "bytes_bits bytes = code_bits ls j @ ?pad" by blast
  let ?r = "br_init bytes (length bytes)"
  have r: "br_ok ?r" "r_stream ?r = code_bits ls j @ ?pad" by (simp_all add: br_init_ok bytes)
  from r(2) have r': "r_stream ?r = code_bits ls i @ rest @ ?pad" using eq by simp
  have "reads (huff_decode d) (code_bits ls j) (Inr j)" "reads (huff_decode d) (code_bits ls i) (Inr i)"
    using i j by (auto simp: has_code_def intro: huff_decode_code [OF d ls(1)])
  from readsD [OF this(1) r(1) r(2)] readsD [OF this(2) r(1) r'] \<open>i \<noteq> j\<close> show False
    by (metis option.inject prod.inject sum.inject(2))
qed

theorem codes_prefix_free_witness:
  "\<exists>codes. huff_assign_codes [1, 2, 2] (length [1, 2, 2 :: nat]) = Some codes \<and>
     (\<forall>rest. bits_msb 2 (codes ! 2) \<noteq> bits_msb 1 (codes ! 0) @ rest)"
proof -
  have v: "valid_lengths [1, 2, 2]" by (simp add: valid_lengths_def kraft_def)
  then obtain codes where codes: "huff_assign_codes [1, 2, 2] (length [1, 2, 2 :: nat]) = Some codes"
    using huff_assign_codes_ok by blast
  have "has_code [1, 2, 2] 0" "has_code [1, 2, 2] 2" by (simp_all add: has_code_def)
  with codes_prefix_free [OF v codes this] codes show ?thesis by auto
qed

end
