(* ===== verification/Balloc.thy ===== *)
theory Balloc
  imports Prelude
begin

text \<open>
  The allocator, \<open>C-Allocator/src/balloc.c\<close>. The memory the allocator owns is a map from
  addresses to 64-bit words: every access of the code is to a word (\<open>GET\<close>, \<open>PUT\<close>, the two links
  of an \<open>fnode\<close>, the two fields of a \<open>chunk\<close>), at an address that is a multiple of 8. An address
  that is not mapped has no word, and reading or writing it is undefined: the operation has no
  result. Addresses are natural numbers, so that pointer arithmetic that leaves the address space
  stays outside the mapped memory; sizes and counters are 64-bit words, which wrap.

  \<open>mmap\<close> is a parameter, the answer of the operating system to a request of a length: the address
  of a fresh region, or \<^const>\<open>None\<close> for \<open>MAP_FAILED\<close>. The null pointer is the address 0.
\<close>


section \<open>State\<close>

record balloc_stats =
  bytes_in_use :: u64
  bytes_free :: u64
  heap_bytes :: u64
  blocks_in_use :: u64
  blocks_free :: u64
  chunks :: u64

record balloc_heap =
  mem :: "nat \<Rightarrow> u64 option"
  g_class :: "nat list"
  g_chunks :: nat
  g_stats :: balloc_stats

section \<open>Layout macros\<close>

definition WSIZE :: nat where "WSIZE = 8"
definition DSIZE :: nat where "DSIZE = 16"
definition MIN_BLOCK :: u64 where "MIN_BLOCK = 32"
definition CHUNK :: u64 where "CHUNK = push_bit 20 1"
definition NCLASS :: nat where "NCLASS = 16"
definition sizeof_chunk :: nat where "sizeof_chunk = 16"

definition align_up :: "u64 \<Rightarrow> u64 \<Rightarrow> u64" where
  "align_up n a = (n + a - 1) AND NOT (a - 1)"

definition pack :: "u64 \<Rightarrow> u64 \<Rightarrow> u64" where
  "pack sz alloc = sz OR alloc"

definition get_word :: "balloc_heap \<Rightarrow> nat \<Rightarrow> u64 option" where
  "get_word h p = mem h p"

definition put_word :: "nat \<Rightarrow> u64 \<Rightarrow> balloc_heap \<Rightarrow> balloc_heap option" where
  "put_word p v h = (if mem h p = None then None else Some (h\<lparr>mem := (mem h)(p \<mapsto> v)\<rparr>))"

definition blk_size :: "balloc_heap \<Rightarrow> nat \<Rightarrow> u64 option" where
  "blk_size h p = do { w \<leftarrow> get_word h p; Some (w AND NOT 7) }"

definition blk_alloc :: "balloc_heap \<Rightarrow> nat \<Rightarrow> u64 option" where
  "blk_alloc h p = do { w \<leftarrow> get_word h p; Some (w AND 1) }"

definition hdrp :: "nat \<Rightarrow> nat" where
  "hdrp bp = bp - WSIZE"

definition ftrp :: "balloc_heap \<Rightarrow> nat \<Rightarrow> nat option" where
  "ftrp h bp = do { s \<leftarrow> blk_size h (hdrp bp); Some (bp + unat s - DSIZE) }"

definition next_blkp :: "balloc_heap \<Rightarrow> nat \<Rightarrow> nat option" where
  "next_blkp h bp = do { s \<leftarrow> blk_size h (hdrp bp); Some (bp + unat s) }"

definition prev_blkp :: "balloc_heap \<Rightarrow> nat \<Rightarrow> nat option" where
  "prev_blkp h bp = do { s \<leftarrow> blk_size h (bp - DSIZE); Some (bp - unat s) }"

section \<open>Size classes and free lists\<close>

function size_class_loop :: "u64 \<Rightarrow> nat \<Rightarrow> nat" where
  "size_class_loop sz c =
     (if sz \<noteq> 0 \<and> c < NCLASS - 1 then size_class_loop (drop_bit 1 sz) (c + 1) else c)"
  by pat_completeness auto
termination by (relation "measure (\<lambda>(sz, c). NCLASS - c)") auto

declare size_class_loop.simps [simp del]

definition size_class :: "u64 \<Rightarrow> nat" where
  "size_class sz = size_class_loop (drop_bit 5 sz) 0"

text \<open>The links of a node: \<open>next\<close> is the first word of the payload, \<open>prev\<close> the second.\<close>

definition node_next :: "balloc_heap \<Rightarrow> nat \<Rightarrow> nat option" where
  "node_next h n = do { w \<leftarrow> get_word h n; Some (unat w) }"

definition node_prev :: "balloc_heap \<Rightarrow> nat \<Rightarrow> nat option" where
  "node_prev h n = do { w \<leftarrow> get_word h (n + 8); Some (unat w) }"

definition set_next :: "nat \<Rightarrow> nat \<Rightarrow> balloc_heap \<Rightarrow> balloc_heap option" where
  "set_next n q h = put_word n (word_of_nat q) h"

definition set_prev :: "nat \<Rightarrow> nat \<Rightarrow> balloc_heap \<Rightarrow> balloc_heap option" where
  "set_prev n q h = put_word (n + 8) (word_of_nat q) h"

definition set_class :: "nat \<Rightarrow> nat \<Rightarrow> balloc_heap \<Rightarrow> balloc_heap option" where
  "set_class c n h = do { cs \<leftarrow> wr (g_class h) c n; Some (h\<lparr>g_class := cs\<rparr>) }"

definition list_insert :: "nat \<Rightarrow> u64 \<Rightarrow> balloc_heap \<Rightarrow> balloc_heap option" where
  "list_insert n sz h = do {
     let c = size_class sz;
     h \<leftarrow> set_prev n 0 h;
     g \<leftarrow> rd (g_class h) c;
     h \<leftarrow> set_next n g h;
     h \<leftarrow> (if g \<noteq> 0 then set_prev g n h else Some h);
     set_class c n h }"

definition list_remove :: "nat \<Rightarrow> u64 \<Rightarrow> balloc_heap \<Rightarrow> balloc_heap option" where
  "list_remove n sz h = do {
     let c = size_class sz;
     p \<leftarrow> node_prev h n;
     q \<leftarrow> node_next h n;
     h \<leftarrow> (if p \<noteq> 0 then set_next p q h else set_class c q h);
     q \<leftarrow> node_next h n;
     if q \<noteq> 0 then do { p \<leftarrow> node_prev h n; set_prev q p h } else Some h }"

section \<open>Coalescing\<close>

definition add_free :: "u64 \<Rightarrow> balloc_heap \<Rightarrow> balloc_heap" where
  "add_free sz h = h\<lparr>g_stats := (g_stats h)
     \<lparr>bytes_free := bytes_free (g_stats h) + (sz - of_nat DSIZE),
      blocks_free := blocks_free (g_stats h) + 1\<rparr>\<rparr>"

definition sub_free :: "u64 \<Rightarrow> balloc_heap \<Rightarrow> balloc_heap" where
  "sub_free sz h = h\<lparr>g_stats := (g_stats h)
     \<lparr>bytes_free := bytes_free (g_stats h) - (sz - of_nat DSIZE),
      blocks_free := blocks_free (g_stats h) - 1\<rparr>\<rparr>"

definition add_used :: "u64 \<Rightarrow> balloc_heap \<Rightarrow> balloc_heap" where
  "add_used sz h = h\<lparr>g_stats := (g_stats h)
     \<lparr>bytes_in_use := bytes_in_use (g_stats h) + (sz - of_nat DSIZE),
      blocks_in_use := blocks_in_use (g_stats h) + 1\<rparr>\<rparr>"

definition sub_used :: "u64 \<Rightarrow> balloc_heap \<Rightarrow> balloc_heap" where
  "sub_used sz h = h\<lparr>g_stats := (g_stats h)
     \<lparr>bytes_in_use := bytes_in_use (g_stats h) - (sz - of_nat DSIZE),
      blocks_in_use := blocks_in_use (g_stats h) - 1\<rparr>\<rparr>"

definition absorb :: "nat \<Rightarrow> balloc_heap \<Rightarrow> balloc_heap option" where
  "absorb nb h = do {
     nsize \<leftarrow> blk_size h (hdrp nb);
     h \<leftarrow> list_remove nb nsize h;
     Some (sub_free nsize h) }"

definition coalesce :: "nat \<Rightarrow> balloc_heap \<Rightarrow> (nat \<times> balloc_heap) option" where
  "coalesce bp h = do {
     pb \<leftarrow> prev_blkp h bp;
     pf \<leftarrow> ftrp h pb;
     prev_alloc \<leftarrow> blk_alloc h pf;
     nb \<leftarrow> next_blkp h bp;
     next_alloc \<leftarrow> blk_alloc h (hdrp nb);
     sz \<leftarrow> blk_size h (hdrp bp);
     if prev_alloc \<noteq> 0 \<and> next_alloc \<noteq> 0 then Some (bp, h)
     else if prev_alloc \<noteq> 0 \<and> next_alloc = 0 then do {
       h \<leftarrow> absorb nb h;
       nsize \<leftarrow> blk_size h (hdrp nb);
       h \<leftarrow> put_word (hdrp bp) (pack (sz + nsize) 0) h;
       f \<leftarrow> ftrp h bp;
       h \<leftarrow> put_word f (pack (sz + nsize) 0) h;
       Some (bp, h) }
     else if prev_alloc = 0 \<and> next_alloc \<noteq> 0 then do {
       h \<leftarrow> absorb pb h;
       psize \<leftarrow> blk_size h (hdrp pb);
       f \<leftarrow> ftrp h bp;
       h \<leftarrow> put_word f (pack (sz + psize) 0) h;
       h \<leftarrow> put_word (hdrp pb) (pack (sz + psize) 0) h;
       Some (pb, h) }
     else do {
       h \<leftarrow> absorb pb h;
       h \<leftarrow> absorb nb h;
       psize \<leftarrow> blk_size h (hdrp pb);
       nsize \<leftarrow> blk_size h (hdrp nb);
       h \<leftarrow> put_word (hdrp pb) (pack (sz + (psize + nsize)) 0) h;
       f \<leftarrow> ftrp h nb;
       h \<leftarrow> put_word f (pack (sz + (psize + nsize)) 0) h;
       Some (pb, h) } }"


section \<open>Growing the heap\<close>

text \<open>What a successful \<open>mmap\<close> does to the memory: the region appears, filled with zeros.\<close>

definition os_map :: "nat \<Rightarrow> nat \<Rightarrow> balloc_heap \<Rightarrow> balloc_heap" where
  "os_map r len h =
     h\<lparr>mem := (\<lambda>a. if r \<le> a \<and> a < r + len \<and> 8 dvd a then Some 0 else mem h a)\<rparr>"

definition os_unmap :: "nat \<Rightarrow> nat \<Rightarrow> balloc_heap \<Rightarrow> balloc_heap" where
  "os_unmap r len h = h\<lparr>mem := (\<lambda>a. if r \<le> a \<and> a < r + len then None else mem h a)\<rparr>"

definition first_payload_of :: "nat \<Rightarrow> nat" where
  "first_payload_of r =
     unat (align_up (word_of_nat (r + sizeof_chunk + WSIZE + WSIZE)) (of_nat DSIZE))"

definition grow_total :: "u64 \<Rightarrow> u64" where
  "grow_total need =
     align_up (need + of_nat sizeof_chunk + 3 * of_nat WSIZE + of_nat DSIZE)
       (if CHUNK > need then CHUNK else align_up need 4096)"

text \<open>The chunk header and the counters, then the block between the two fences.\<close>

definition link_chunk :: "nat \<Rightarrow> u64 \<Rightarrow> balloc_heap \<Rightarrow> balloc_heap option" where
  "link_chunk r len h = do {
     h \<leftarrow> put_word (r + 8) len h;
     h \<leftarrow> put_word r (word_of_nat (g_chunks h)) h;
     Some (h\<lparr>g_chunks := r, g_stats := (g_stats h)
       \<lparr>chunks := chunks (g_stats h) + 1, heap_bytes := heap_bytes (g_stats h) + len\<rparr>\<rparr>) }"

definition frame_chunk :: "nat \<Rightarrow> u64 \<Rightarrow> balloc_heap \<Rightarrow> (nat \<times> balloc_heap) option" where
  "frame_chunk r len h = do {
     let fp = first_payload_of r;
     h \<leftarrow> put_word (fp - WSIZE - WSIZE) (pack (of_nat WSIZE) 1) h;
     let fh = fp - WSIZE;
     let epilogue = r + unat len - WSIZE;
     let bsize = word_of_int (int epilogue - int fh) AND NOT 7;
     h \<leftarrow> put_word fh (pack bsize 0) h;
     h \<leftarrow> put_word (fh + unat bsize - WSIZE) (pack bsize 0) h;
     h \<leftarrow> put_word epilogue (pack 0 1) h;
     let bp = fh + WSIZE;
     h \<leftarrow> list_insert bp bsize h;
     Some (bp, add_free bsize h) }"

definition grow :: "(u64 \<Rightarrow> nat option) \<Rightarrow> u64 \<Rightarrow> balloc_heap \<Rightarrow> (nat \<times> balloc_heap) option" where
  "grow mmap need h = (let total = grow_total need in
     case mmap total of
       None \<Rightarrow> Some (0, h)
     | Some r \<Rightarrow> do {
         h \<leftarrow> link_chunk r total (os_map r (unat total) h);
         frame_chunk r total h })"

section \<open>Finding and placing\<close>

partial_function (option) scan_list :: "balloc_heap \<Rightarrow> u64 \<Rightarrow> nat \<Rightarrow> nat option" where
  "scan_list h asize n = (if n = 0 then Some 0 else do {
     s \<leftarrow> blk_size h (hdrp n);
     if asize \<le> s then Some n else do { q \<leftarrow> node_next h n; scan_list h asize q } })"

fun find_in :: "balloc_heap \<Rightarrow> u64 \<Rightarrow> nat list \<Rightarrow> nat option" where
  "find_in h asize [] = Some 0"
| "find_in h asize (c # cs) = do {
     g \<leftarrow> rd (g_class h) c;
     n \<leftarrow> scan_list h asize g;
     if n \<noteq> 0 then Some n else find_in h asize cs }"

definition find_fit :: "balloc_heap \<Rightarrow> u64 \<Rightarrow> nat option" where
  "find_fit h asize = find_in h asize [size_class asize..<NCLASS]"

definition split_block :: "nat \<Rightarrow> u64 \<Rightarrow> u64 \<Rightarrow> balloc_heap \<Rightarrow> balloc_heap option" where
  "split_block bp csize asize h = do {
     h \<leftarrow> put_word (hdrp bp) (pack asize 1) h;
     f \<leftarrow> ftrp h bp;
     h \<leftarrow> put_word f (pack asize 1) h;
     rest \<leftarrow> next_blkp h bp;
     let rsize = csize - asize;
     h \<leftarrow> put_word (hdrp rest) (pack rsize 0) h;
     f \<leftarrow> ftrp h rest;
     h \<leftarrow> put_word f (pack rsize 0) h;
     h \<leftarrow> list_insert rest rsize h;
     Some (add_free rsize h) }"

definition place :: "nat \<Rightarrow> u64 \<Rightarrow> balloc_heap \<Rightarrow> (nat \<times> balloc_heap) option" where
  "place bp asize h = do {
     csize \<leftarrow> blk_size h (hdrp bp);
     h \<leftarrow> list_remove bp csize h;
     let h = sub_free csize h;
     h \<leftarrow> (if csize - asize \<ge> MIN_BLOCK then split_block bp csize asize h
           else do {
             h \<leftarrow> put_word (hdrp bp) (pack csize 1) h;
             f \<leftarrow> ftrp h bp;
             put_word f (pack csize 1) h });
     s \<leftarrow> blk_size h (hdrp bp);
     Some (bp, add_used s h) }"

section \<open>The interface\<close>

definition request_size :: "u64 \<Rightarrow> u64" where
  "request_size sz = (let asize = align_up (sz + of_nat DSIZE) (of_nat DSIZE)
     in if asize < MIN_BLOCK then MIN_BLOCK else asize)"

definition balloc :: "(u64 \<Rightarrow> nat option) \<Rightarrow> u64 \<Rightarrow> balloc_heap \<Rightarrow> (nat \<times> balloc_heap) option" where
  "balloc mmap sz h = (if sz = 0 then Some (0, h) else do {
     let asize = request_size sz;
     bp \<leftarrow> find_fit h asize;
     (bp, h) \<leftarrow> (if bp = 0 then grow mmap asize h else Some (bp, h));
     if bp = 0 then Some (0, h) else place bp asize h })"

definition bfree :: "nat \<Rightarrow> balloc_heap \<Rightarrow> balloc_heap option" where
  "bfree p h = (if p = 0 then Some h else do {
     s \<leftarrow> blk_size h (hdrp p);
     let h = sub_used s h;
     h \<leftarrow> put_word (hdrp p) (pack s 0) h;
     f \<leftarrow> ftrp h p;
     h \<leftarrow> put_word f (pack s 0) h;
     (bp, h) \<leftarrow> coalesce p h;
     s \<leftarrow> blk_size h (hdrp bp);
     h \<leftarrow> list_insert bp s h;
     s \<leftarrow> blk_size h (hdrp bp);
     Some (add_free s h) })"

text \<open>
  \<open>memset (p, 0, n)\<close>: whole words, then the low-order bytes of the last one (the machine is
  little-endian). \<open>memcpy\<close> is used with a length that is a multiple of 8.
\<close>

definition mem_zero :: "nat \<Rightarrow> nat \<Rightarrow> balloc_heap \<Rightarrow> balloc_heap option" where
  "mem_zero p n h = do {
     h \<leftarrow> ofor (\<lambda>i. put_word (p + 8 * i) 0) [0..<n div 8] h;
     if n mod 8 = 0 then Some h else do {
       w \<leftarrow> get_word h (p + 8 * (n div 8));
       put_word (p + 8 * (n div 8)) (w AND NOT (mask (8 * (n mod 8)))) h } }"

definition mem_copy :: "nat \<Rightarrow> nat \<Rightarrow> nat \<Rightarrow> balloc_heap \<Rightarrow> balloc_heap option" where
  "mem_copy d p n h = ofor (\<lambda>i h. do { w \<leftarrow> get_word h (p + 8 * i); put_word (d + 8 * i) w h })
     [0..<n div 8] h"

definition bcalloc ::
  "(u64 \<Rightarrow> nat option) \<Rightarrow> u64 \<Rightarrow> u64 \<Rightarrow> balloc_heap \<Rightarrow> (nat \<times> balloc_heap) option" where
  "bcalloc mmap nmemb sz h = (if nmemb \<noteq> 0 \<and> sz > - 1 div nmemb then Some (0, h) else do {
     let total = nmemb * sz;
     (p, h) \<leftarrow> balloc mmap total h;
     h \<leftarrow> (if p \<noteq> 0 then mem_zero p (unat total) h else Some h);
     Some (p, h) })"

definition brealloc ::
  "(u64 \<Rightarrow> nat option) \<Rightarrow> nat \<Rightarrow> u64 \<Rightarrow> balloc_heap \<Rightarrow> (nat \<times> balloc_heap) option" where
  "brealloc mmap p sz h = (if p = 0 then balloc mmap sz h
     else if sz = 0 then do { h \<leftarrow> bfree p h; Some (0, h) }
     else do {
       s \<leftarrow> blk_size h (hdrp p);
       let old_payload = s - of_nat DSIZE;
       if sz \<le> old_payload then Some (p, h) else do {
         (np, h) \<leftarrow> balloc mmap sz h;
         if np = 0 then Some (0, h) else do {
           h \<leftarrow> mem_copy np p (unat old_payload) h;
           h \<leftarrow> bfree p h;
           Some (np, h) } } })"

definition balloc_stats_get :: "balloc_heap \<Rightarrow> balloc_stats" where
  "balloc_stats_get h = g_stats h"

definition no_stats :: balloc_stats where
  "no_stats = \<lparr>bytes_in_use = 0, bytes_free = 0, heap_bytes = 0, blocks_in_use = 0,
     blocks_free = 0, chunks = 0\<rparr>"

partial_function (option) unmap_chunks :: "nat \<Rightarrow> balloc_heap \<Rightarrow> balloc_heap option" where
  "unmap_chunks c h = (if c = 0 then Some h else do {
     n \<leftarrow> get_word h c;
     sz \<leftarrow> get_word h (c + 8);
     unmap_chunks (unat n) (os_unmap c (unat sz) h) })"

definition balloc_reset :: "balloc_heap \<Rightarrow> balloc_heap option" where
  "balloc_reset h = do {
     h \<leftarrow> unmap_chunks (g_chunks h) h;
     Some (h\<lparr>g_chunks := 0, g_class := replicate NCLASS 0, g_stats := no_stats\<rparr>) }"

section \<open>The checker\<close>

partial_function (option) node_in :: "balloc_heap \<Rightarrow> nat \<Rightarrow> nat \<Rightarrow> bool option" where
  "node_in h bp n = (if n = 0 then Some False else if n = bp then Some True
     else do { q \<leftarrow> node_next h n; node_in h bp q })"

fun in_classes :: "balloc_heap \<Rightarrow> nat \<Rightarrow> nat list \<Rightarrow> bool option" where
  "in_classes h bp [] = Some False"
| "in_classes h bp (c # cs) = do {
     g \<leftarrow> rd (g_class h) c;
     b \<leftarrow> node_in h bp g;
     if b then Some True else in_classes h bp cs }"

definition on_free_list :: "balloc_heap \<Rightarrow> nat \<Rightarrow> bool option" where
  "on_free_list h bp = in_classes h bp [0..<NCLASS]"

definition check_block :: "balloc_heap \<Rightarrow> nat \<Rightarrow> nat \<Rightarrow> int option" where
  "check_block h bp prev = (if bp mod DSIZE \<noteq> 0 then Some (-1) else do {
     a \<leftarrow> get_word h (hdrp bp);
     f \<leftarrow> ftrp h bp;
     b \<leftarrow> get_word h f;
     if a \<noteq> b then Some (-2) else do {
       s \<leftarrow> blk_size h (hdrp bp);
       if s < MIN_BLOCK then Some (-3) else do {
         al \<leftarrow> blk_alloc h (hdrp bp);
         if al \<noteq> 0 then Some 0 else do {
           l \<leftarrow> on_free_list h bp;
           if \<not> l then Some (-4)
           else if prev = 0 then Some 0 else do {
             pa \<leftarrow> blk_alloc h (hdrp prev);
             Some (if pa = 0 then -5 else 0) } } } } })"

partial_function (option) check_blocks :: "balloc_heap \<Rightarrow> nat \<Rightarrow> nat \<Rightarrow> int option" where
  "check_blocks h bp prev = do {
     s \<leftarrow> blk_size h (hdrp bp);
     if s = 0 then Some 0 else do {
       r \<leftarrow> check_block h bp prev;
       if r \<noteq> 0 then Some r else do { nb \<leftarrow> next_blkp h bp; check_blocks h nb bp } } }"

partial_function (option) check_chunks :: "balloc_heap \<Rightarrow> nat \<Rightarrow> int option" where
  "check_chunks h c = (if c = 0 then Some 0 else do {
     r \<leftarrow> check_blocks h (first_payload_of c) 0;
     if r \<noteq> 0 then Some r else do { n \<leftarrow> get_word h c; check_chunks h (unat n) } })"

partial_function (option) check_nodes :: "balloc_heap \<Rightarrow> nat \<Rightarrow> int option" where
  "check_nodes h n = (if n = 0 then Some 0 else do {
     al \<leftarrow> blk_alloc h (hdrp n);
     if al \<noteq> 0 then Some (-6) else do { q \<leftarrow> node_next h n; check_nodes h q } })"

fun check_classes :: "balloc_heap \<Rightarrow> nat list \<Rightarrow> int option" where
  "check_classes h [] = Some 0"
| "check_classes h (c # cs) = do {
     g \<leftarrow> rd (g_class h) c;
     r \<leftarrow> check_nodes h g;
     if r \<noteq> 0 then Some r else check_classes h cs }"

definition balloc_check :: "balloc_heap \<Rightarrow> int option" where
  "balloc_check h = do {
     r \<leftarrow> check_chunks h (g_chunks h);
     if r \<noteq> 0 then Some r else check_classes h [0..<NCLASS] }"

text \<open>The state a program starts with.\<close>

definition no_heap :: balloc_heap where
  "no_heap = \<lparr>mem = Map.empty, g_class = replicate NCLASS 0, g_chunks = 0, g_stats = no_stats\<rparr>"

end
