(* ===== verification/Balloc_Layout.thy ===== *)
theory Balloc_Layout
  imports Balloc
begin

text \<open>
  The abstract heap of the allocator and the invariant that ties it to the memory. A layout lists
  the chunks in the order of \<open>g_chunks\<close>, each with its blocks in address order; a block is in use,
  on a free list, or loose: tagged free and on no list, as it is in the middle of an operation.
  The second part of the state gives the nodes of every size class in list order.
\<close>

datatype status = Used | Listed | Loose

type_synonym blocks = "(nat \<times> status) list"
type_synonym layout = "(nat \<times> blocks) list"

section \<open>Blocks and chunks\<close>

definition span :: "blocks \<Rightarrow> nat" where
  "span bs = sum_list (map fst bs)"

lemma span_simps [simp]: "span [] = 0" "span (b # bs) = fst b + span bs"
  "span (xs @ ys) = span xs + span ys"
  by (auto simp: span_def)

text \<open>The blocks of a list whose first payload is at \<open>p\<close>: address, size and status.\<close>

fun blocks_at :: "nat \<Rightarrow> blocks \<Rightarrow> (nat \<times> nat \<times> status) set" where
  "blocks_at p [] = {}"
| "blocks_at p ((s, t) # bs) = insert (p, s, t) (blocks_at (p + s) bs)"

lemma blocks_at_append [simp]: "blocks_at p (xs @ ys) = blocks_at p xs \<union> blocks_at (p + span xs) ys"
  by (induction xs arbitrary: p) (auto simp: add.assoc)

lemma blocks_at_bounds: "(q, s, t) \<in> blocks_at p bs \<Longrightarrow> p \<le> q \<and> q + s \<le> p + span bs \<and> (s, t) \<in> set bs"
  by (induction bs arbitrary: p) fastforce+

definition chunk_size :: "nat \<times> blocks \<Rightarrow> nat" where
  "chunk_size c = span (snd c) + 32"

definition chunk_blocks :: "nat \<times> blocks \<Rightarrow> (nat \<times> nat \<times> status) set" where
  "chunk_blocks c = blocks_at (fst c + 32) (snd c)"

definition layout_blocks :: "layout \<Rightarrow> (nat \<times> nat \<times> status) set" where
  "layout_blocks L = (\<Union>c\<in>set L. chunk_blocks c)"

lemma layout_blocks_simps [simp]: "layout_blocks [] = {}"
  "layout_blocks (c # L) = chunk_blocks c \<union> layout_blocks L"
  "layout_blocks (K @ L) = layout_blocks K \<union> layout_blocks L"
  by (auto simp: layout_blocks_def)

definition block_ok :: "nat \<times> status \<Rightarrow> bool" where
  "block_ok b \<longleftrightarrow> 16 dvd fst b \<and> 32 \<le> fst b"

definition chunk_ok :: "nat \<times> blocks \<Rightarrow> bool" where
  "chunk_ok c \<longleftrightarrow> 0 < fst c \<and> 16 dvd fst c \<and> fst c + chunk_size c \<le> 2 ^ 64 \<and>
     64 \<le> chunk_size c \<and> (\<forall>b\<in>set (snd c). block_ok b)"

definition apart :: "nat \<times> blocks \<Rightarrow> nat \<times> blocks \<Rightarrow> bool" where
  "apart c d \<longleftrightarrow> fst c + chunk_size c \<le> fst d \<or> fst d + chunk_size d \<le> fst c"

definition wf_layout :: "layout \<Rightarrow> bool" where
  "wf_layout L \<longleftrightarrow> (\<forall>c\<in>set L. chunk_ok c) \<and> sorted_wrt apart L"

lemma dvd_span: "\<forall>b\<in>set bs. block_ok b \<Longrightarrow> 16 dvd span bs"
  by (induction bs) (auto simp: block_ok_def)

lemma blocks_at_ok:
  assumes "(q, s, t) \<in> blocks_at p bs" "16 dvd p" "\<forall>b\<in>set bs. block_ok b"
  shows "16 dvd q \<and> 16 dvd s \<and> 32 \<le> s"
  using assms by (induction bs arbitrary: p) (auto simp: block_ok_def)

lemma blocks_at_disjoint:
  assumes "(q, s, t) \<in> blocks_at p bs" "(q', s', t') \<in> blocks_at p bs" "\<forall>b\<in>set bs. block_ok b"
  shows "(q, s, t) = (q', s', t') \<or> q + s \<le> q' \<or> q' + s' \<le> q"
  using assms
proof (induction bs arbitrary: p)
  case (Cons b bs)
  obtain s0 t0 where b: "b = (s0, t0)" by fastforce
  consider "(q, s, t) = (p, s0, t0)" | "(q', s', t') = (p, s0, t0)"
    | "(q, s, t) \<in> blocks_at (p + s0) bs" "(q', s', t') \<in> blocks_at (p + s0) bs"
    using Cons.prems b by auto
  then show ?case
  proof cases
    case 1
    then show ?thesis using Cons.prems(2) b blocks_at_bounds [of q' s' t' "p + s0" bs] by auto
  next
    case 2
    then show ?thesis using Cons.prems(1) b blocks_at_bounds [of q s t "p + s0" bs] by auto
  next
    case 3
    then show ?thesis using Cons.IH [of "p + s0"] Cons.prems(3) by auto
  qed
qed simp

text \<open>Where the blocks of a chunk lie.\<close>

lemma chunk_blocks_bounds:
  "(p, s, t) \<in> chunk_blocks c \<Longrightarrow> fst c + 32 \<le> p \<and> p + s \<le> fst c + chunk_size c"
  by (auto simp: chunk_blocks_def chunk_size_def dest: blocks_at_bounds)

lemma wf_chunkD: "wf_layout L \<Longrightarrow> c \<in> set L \<Longrightarrow> chunk_ok c"
  by (simp add: wf_layout_def)

lemma chunk_blocks_ok:
  assumes "(p, s, t) \<in> chunk_blocks c" "chunk_ok c"
  shows "16 dvd p \<and> 16 dvd s \<and> 32 \<le> s \<and> 32 < p \<and> p + s \<le> 2 ^ 64"
proof -
  from assms have "16 dvd p \<and> 16 dvd s \<and> 32 \<le> s"
    unfolding chunk_blocks_def chunk_ok_def by (auto dest!: blocks_at_ok)
  moreover from chunk_blocks_bounds [OF assms(1)] assms(2) have "32 < p \<and> p + s \<le> 2 ^ 64"
    by (auto simp: chunk_ok_def)
  ultimately show ?thesis by blast
qed

lemma layout_block_ok:
  assumes "wf_layout L" "(p, s, t) \<in> layout_blocks L"
  shows "16 dvd p \<and> 16 dvd s \<and> 32 \<le> s \<and> 32 < p \<and> p + s \<le> 2 ^ 64"
  using assms chunk_blocks_ok by (auto simp: layout_blocks_def wf_layout_def)

lemma wf_apart:
  assumes "wf_layout L" "c \<in> set L" "d \<in> set L"
  shows "c = d \<or> apart c d"
proof -
  obtain i j where "i < length L" "j < length L" "c = L ! i" "d = L ! j"
    using assms by (auto simp: in_set_conv_nth)
  then show ?thesis using assms(1)
    by (cases i j rule: linorder_cases) (auto simp: wf_layout_def sorted_wrt_iff_nth_less apart_def)
qed

lemma layout_blocks_disjoint:
  assumes "wf_layout L" "(q, s, t) \<in> layout_blocks L" "(q', s', t') \<in> layout_blocks L"
  shows "(q, s, t) = (q', s', t') \<or> q + s \<le> q' \<or> q' + s' \<le> q"
proof -
  obtain c d where c: "c \<in> set L" "(q, s, t) \<in> chunk_blocks c"
    and d: "d \<in> set L" "(q', s', t') \<in> chunk_blocks d"
    using assms(2,3) by (auto simp: layout_blocks_def)
  from wf_apart [OF assms(1) c(1) d(1)] show ?thesis
  proof
    assume "c = d"
    then show ?thesis using c d wf_chunkD [OF assms(1) c(1)] blocks_at_disjoint
      by (auto simp: chunk_blocks_def chunk_ok_def)
  next
    assume "apart c d"
    then show ?thesis using chunk_blocks_bounds [OF c(2)] chunk_blocks_bounds [OF d(2)]
      by (auto simp: apart_def)
  qed
qed

section \<open>The invariant\<close>

text \<open>The memory of a block: equal tags at both ends, and mapped words in between.\<close>

definition tag_of :: "nat \<Rightarrow> status \<Rightarrow> u64" where
  "tag_of s t = pack (word_of_nat s) (if t = Used then 1 else 0)"

definition mapped :: "(nat \<Rightarrow> u64 option) \<Rightarrow> nat \<Rightarrow> nat \<Rightarrow> bool" where
  "mapped m a b \<longleftrightarrow> (\<forall>x. a \<le> x \<longrightarrow> x < b \<longrightarrow> 8 dvd x \<longrightarrow> m x \<noteq> None)"

definition tagged :: "(nat \<Rightarrow> u64 option) \<Rightarrow> nat \<times> nat \<times> status \<Rightarrow> bool" where
  "tagged m b = (case b of (p, s, t) \<Rightarrow>
     m (p - 8) = Some (tag_of s t) \<and> m (p + s - 16) = Some (tag_of s t) \<and> mapped m p (p + s - 16))"

text \<open>The fences of a chunk (the prologue footer and the epilogue header) and its recorded size.\<close>

definition fenced :: "(nat \<Rightarrow> u64 option) \<Rightarrow> nat \<times> blocks \<Rightarrow> bool" where
  "fenced m c \<longleftrightarrow> m (fst c + 8) = Some (word_of_nat (chunk_size c)) \<and> m (fst c + 16) = Some (pack 8 1) \<and>
     m (fst c + chunk_size c - 8) = Some (pack 0 1)"

fun chunk_list :: "(nat \<Rightarrow> u64 option) \<Rightarrow> nat \<Rightarrow> layout \<Rightarrow> bool" where
  "chunk_list m p [] \<longleftrightarrow> p = 0"
| "chunk_list m p (c # L) \<longleftrightarrow> p = fst c \<and> (\<exists>w. m p = Some w \<and> chunk_list m (unat w) L)"

definition mem_inv :: "layout \<Rightarrow> (nat \<Rightarrow> u64 option) \<Rightarrow> nat \<Rightarrow> bool" where
  "mem_inv L m p \<longleftrightarrow> (\<forall>b\<in>layout_blocks L. tagged m b) \<and> (\<forall>c\<in>set L. fenced m c) \<and> chunk_list m p L"

text \<open>A doubly linked list segment from \<open>p\<close>, entered from \<open>q\<close>, that leads to \<open>e\<close>.\<close>

fun dseg :: "(nat \<Rightarrow> u64 option) \<Rightarrow> nat \<Rightarrow> nat \<Rightarrow> nat list \<Rightarrow> nat \<Rightarrow> bool" where
  "dseg m q p [] e \<longleftrightarrow> p = e"
| "dseg m q p (x # xs) e \<longleftrightarrow> p = x \<and> x \<noteq> 0 \<and> m (x + 8) = Some (word_of_nat q) \<and>
     (\<exists>w. m x = Some w \<and> dseg m x (unat w) xs e)"

definition listed :: "layout \<Rightarrow> nat \<Rightarrow> nat set" where
  "listed L c = {p. \<exists>s. (p, s, Listed) \<in> layout_blocks L \<and> size_class (word_of_nat s) = c}"

definition class_inv ::
  "layout \<Rightarrow> (nat \<Rightarrow> nat list) \<Rightarrow> (nat \<Rightarrow> u64 option) \<Rightarrow> nat list \<Rightarrow> bool" where
  "class_inv L F m cs \<longleftrightarrow> length cs = NCLASS \<and>
     (\<forall>c<NCLASS. dseg m 0 (cs ! c) (F c) 0 \<and> distinct (F c) \<and> set (F c) = listed L c)"

text \<open>The counters: a sum over the blocks.\<close>

definition payload_sum :: "status \<Rightarrow> layout \<Rightarrow> nat" where
  "payload_sum t L = sum_list (map (\<lambda>b. if snd b = t then fst b - 16 else 0) (concat (map snd L)))"

definition block_count :: "status \<Rightarrow> layout \<Rightarrow> nat" where
  "block_count t L = length (filter (\<lambda>b. snd b = t) (concat (map snd L)))"

definition stats_of :: "layout \<Rightarrow> balloc_stats" where
  "stats_of L = \<lparr>bytes_in_use = word_of_nat (payload_sum Used L),
     bytes_free = word_of_nat (payload_sum Listed L),
     heap_bytes = word_of_nat (sum_list (map chunk_size L)),
     blocks_in_use = word_of_nat (block_count Used L),
     blocks_free = word_of_nat (block_count Listed L), chunks = word_of_nat (length L)\<rparr>"

definition heap_inv :: "layout \<Rightarrow> (nat \<Rightarrow> nat list) \<Rightarrow> balloc_heap \<Rightarrow> bool" where
  "heap_inv L F h \<longleftrightarrow> wf_layout L \<and> mem_inv L (mem h) (g_chunks h) \<and>
     class_inv L F (mem h) (g_class h) \<and> g_stats h = stats_of L"

text \<open>Between operations no block is loose, and no two neighbours are both free.\<close>

fun merged :: "blocks \<Rightarrow> bool" where
  "merged [] \<longleftrightarrow> True"
| "merged [b] \<longleftrightarrow> snd b \<noteq> Loose"
| "merged (b # c # bs) \<longleftrightarrow> snd b \<noteq> Loose \<and> (snd b = Used \<or> snd c = Used) \<and> merged (c # bs)"

definition settled :: "layout \<Rightarrow> bool" where
  "settled L \<longleftrightarrow> (\<forall>c\<in>set L. merged (snd c))"

text \<open>The payloads handed out, and that an operation leaves them alone.\<close>

definition payloads :: "(nat \<times> nat \<times> status) set \<Rightarrow> (nat \<times> nat) set" where
  "payloads B = {(p, n). \<exists>s. (p, s, Used) \<in> B \<and> n = s - 16}"

definition live :: "layout \<Rightarrow> (nat \<times> nat) set" where
  "live L = payloads (layout_blocks L)"

lemma payloads_simps [simp]: "payloads {} = {}" "payloads (A \<union> B) = payloads A \<union> payloads B"
  "payloads (insert (p, s, t) B) = (if t = Used then insert (p, s - 16) (payloads B) else payloads B)"
  by (auto simp: payloads_def)

definition keeps :: "(nat \<times> nat) set \<Rightarrow> balloc_heap \<Rightarrow> balloc_heap \<Rightarrow> bool" where
  "keeps V h h' \<longleftrightarrow> (\<forall>p n a. (p, n) \<in> V \<longrightarrow> p \<le> a \<longrightarrow> a < p + n \<longrightarrow> mem h' a = mem h a)"

section \<open>Tags\<close>

lemma low_bits_clear:
  assumes "8 dvd s" "i < 3"
  shows "\<not> bit (s :: nat) i"
proof -
  obtain k where "s = push_bit 3 k" using assms(1) by (auto simp: push_bit_eq_mult)
  then show ?thesis using assms(2) by (simp add: bit_push_bit_iff)
qed

lemma bit_not_7: "bit (NOT 7 :: u64) i \<longleftrightarrow> i < 64 \<and> 3 \<le> i"
proof -
  have "(7 :: u64) = mask 3" by (simp add: mask_eq_exp_minus_1)
  then show ?thesis by (simp only: bit_not_iff bit_mask_iff possible_bit_word) auto
qed

lemma tag_size:
  assumes "8 dvd s"
  shows "tag_of s t AND NOT 7 = word_of_nat s"
proof (rule bit_eqI)
  fix i
  have "bit (tag_of s t AND NOT 7) i \<longleftrightarrow> bit (tag_of s t) i \<and> i < 64 \<and> 3 \<le> i"
    by (simp only: bit_and_iff bit_not_7)
  also have "\<dots> \<longleftrightarrow> bit (word_of_nat s :: u64) i"
    using low_bits_clear [OF assms, of i]
    by (cases "i < 3") (auto simp: tag_of_def pack_def bit_or_iff bit_1_iff bit_of_nat_iff)
  finally show "bit (tag_of s t AND NOT 7) i \<longleftrightarrow> bit (word_of_nat s :: u64) i" .
qed

lemma tag_alloc:
  assumes "8 dvd s"
  shows "tag_of s t AND 1 = (if t = Used then 1 else 0)"
proof (rule bit_eqI)
  fix i
  show "bit (tag_of s t AND 1) i \<longleftrightarrow> bit (if t = Used then 1 else 0 :: u64) i"
    using low_bits_clear [OF assms, of 0]
    by (auto simp: tag_of_def pack_def bit_and_iff bit_or_iff bit_1_iff bit_of_nat_iff intro: Suc_leI)
      (metis bit_0 gr0I)
qed

lemma fence_tags: "pack 8 1 = tag_of 8 Used" "pack 0 1 = tag_of 0 Used"
  by (simp_all add: tag_of_def)

lemma unat_of_nat_small [simp]: "s < 2 ^ 64 \<Longrightarrow> unat (word_of_nat s :: u64) = s"
  by (simp add: unat_of_nat)

lemma blk_size_tag: "mem h a = Some (tag_of s t) \<Longrightarrow> 8 dvd s \<Longrightarrow> blk_size h a = Some (word_of_nat s)"
  by (simp only: blk_size_def get_word_def tag_size option.simps bind.simps)

lemma blk_alloc_tag:
  "mem h a = Some (tag_of s t) \<Longrightarrow> 8 dvd s \<Longrightarrow> blk_alloc h a = Some (if t = Used then 1 else 0)"
  by (simp only: blk_alloc_def get_word_def tag_alloc option.simps bind.simps)

lemma put_word_Some [simp]:
  "mem h a \<noteq> None \<Longrightarrow> put_word a v h = Some (h\<lparr>mem := (mem h)(a \<mapsto> v)\<rparr>)"
  by (simp add: put_word_def)

lemma dvd_16_8: "16 dvd (a :: nat) \<Longrightarrow> 8 dvd a"
  by (rule dvd_trans [of 8 16]) simp_all

text \<open>A block of the invariant, as its operations read it.\<close>

lemma mem_invD: "mem_inv L m g \<Longrightarrow> (p, s, t) \<in> layout_blocks L \<Longrightarrow> tagged m (p, s, t)"
  by (simp add: mem_inv_def)

lemma block_reads:
  assumes "wf_layout L" "mem_inv L (mem h) g" "(p, s, t) \<in> layout_blocks L"
  shows "blk_size h (hdrp p) = Some (word_of_nat s)"
    "blk_alloc h (hdrp p) = Some (if t = Used then 1 else 0)"
    "ftrp h p = Some (p + s - 16)" "next_blkp h p = Some (p + s)"
    "blk_size h (p + s - 16) = Some (word_of_nat s)"
    "blk_alloc h (p + s - 16) = Some (if t = Used then 1 else 0)"
proof -
  note ok = layout_block_ok [OF assms(1,3)]
  have "8 dvd s" "s < 2 ^ 64" using ok dvd_16_8 by auto
  moreover have "mem h (p - 8) = Some (tag_of s t)" "mem h (p + s - 16) = Some (tag_of s t)"
    using mem_invD [OF assms(2,3)] by (simp_all add: tagged_def)
  ultimately show "blk_size h (hdrp p) = Some (word_of_nat s)"
    "blk_alloc h (hdrp p) = Some (if t = Used then 1 else 0)"
    "ftrp h p = Some (p + s - 16)" "next_blkp h p = Some (p + s)"
    "blk_size h (p + s - 16) = Some (word_of_nat s)"
    "blk_alloc h (p + s - 16) = Some (if t = Used then 1 else 0)"
    by (simp_all add: hdrp_def WSIZE_def DSIZE_def ftrp_def next_blkp_def blk_size_tag blk_alloc_tag)
qed

section \<open>Focus on a part of the heap\<close>

text \<open>The heap around a run of blocks of one chunk.\<close>

record hole =
  before :: layout
  base :: nat
  left :: blocks
  right :: blocks
  after :: layout

definition fill :: "hole \<Rightarrow> blocks \<Rightarrow> layout" where
  "fill C bs = before C @ (base C, left C @ bs @ right C) # after C"

definition hole_at :: "hole \<Rightarrow> nat" where
  "hole_at C = base C + 32 + span (left C)"

definition outside :: "hole \<Rightarrow> nat \<Rightarrow> (nat \<times> nat \<times> status) set" where
  "outside C k = layout_blocks (before C) \<union> layout_blocks (after C) \<union> blocks_at (base C + 32) (left C) \<union>
     blocks_at (hole_at C + k) (right C)"

lemma layout_blocks_fill:
  "layout_blocks (fill C bs) = outside C (span bs) \<union> blocks_at (hole_at C) bs"
  by (auto simp: fill_def outside_def chunk_blocks_def hole_at_def)

lemma blocks_at_split:
  "(p, s, t) \<in> blocks_at q bs \<Longrightarrow> \<exists>xs ys. bs = xs @ (s, t) # ys \<and> p = q + span xs"
proof (induction bs arbitrary: q)
  case (Cons b bs)
  obtain s0 t0 where b: "b = (s0, t0)" by fastforce
  show ?case
  proof (cases "(p, s, t) = (q, s0, t0)")
    case True
    then have "b # bs = [] @ (s, t) # bs \<and> p = q + span []" using b by simp
    then show ?thesis by blast
  next
    case False
    then obtain xs ys where "bs = xs @ (s, t) # ys" "p = q + s0 + span xs"
      using Cons.IH [of "q + s0"] Cons.prems b by auto
    then have "b # bs = (b # xs) @ (s, t) # ys \<and> p = q + span (b # xs)" using b by simp
    then show ?thesis by blast
  qed
qed simp

lemma block_focus:
  assumes "(p, s, t) \<in> layout_blocks L"
  shows "\<exists>C. L = fill C [(s, t)] \<and> hole_at C = p"
proof -
  obtain r bs where c: "(r, bs) \<in> set L" and b: "(p, s, t) \<in> blocks_at (r + 32) bs"
    using assms by (auto simp: layout_blocks_def chunk_blocks_def)
  obtain K M where "L = K @ (r, bs) # M" using split_list [OF c] by blast
  moreover obtain xs ys where "bs = xs @ (s, t) # ys" "p = r + 32 + span xs"
    using blocks_at_split [OF b] by blast
  ultimately show ?thesis
    by (intro exI [of _ "\<lparr>before = K, base = r, left = xs, right = ys, after = M\<rparr>"])
      (simp add: fill_def hole_at_def)
qed

lemma wf_fill:
  assumes "wf_layout (fill C bs)" "span bs' = span bs" "\<forall>b\<in>set bs'. block_ok b"
  shows "wf_layout (fill C bs')"
proof -
  have "chunk_size (base C, left C @ bs' @ right C) = chunk_size (base C, left C @ bs @ right C)"
    using assms(2) by (simp add: chunk_size_def)
  then have "apart c (base C, left C @ bs' @ right C) = apart c (base C, left C @ bs @ right C)"
    "apart (base C, left C @ bs' @ right C) c = apart (base C, left C @ bs @ right C) c"
    "chunk_ok (base C, left C @ bs @ right C) \<Longrightarrow> chunk_ok (base C, left C @ bs' @ right C)" for c
    using assms(3) by (auto simp: apart_def chunk_ok_def)
  then show ?thesis using assms(1)
    by (auto simp: wf_layout_def fill_def sorted_wrt_append)
qed

text \<open>What is outside the hole keeps clear of it.\<close>

lemma outside_clear:
  assumes "wf_layout (fill C bs)" "(p, s, t) \<in> outside C (span bs)"
  shows "p + s \<le> hole_at C \<or> hole_at C + span bs \<le> p"
proof -
  let ?c = "(base C, left C @ bs @ right C)"
  consider "(p, s, t) \<in> layout_blocks (before C @ after C)" | "(p, s, t) \<in> blocks_at (base C + 32) (left C)"
    | "(p, s, t) \<in> blocks_at (hole_at C + span bs) (right C)"
    using assms(2) by (auto simp: outside_def)
  then show ?thesis
  proof cases
    case 1
    then obtain d where "d \<in> set (before C @ after C)" "(p, s, t) \<in> chunk_blocks d"
      by (auto simp: layout_blocks_def)
    moreover then have "apart d ?c \<or> apart ?c d"
      using assms(1) by (auto simp: wf_layout_def fill_def sorted_wrt_append)
    ultimately show ?thesis using chunk_blocks_bounds [of p s t d]
      by (auto simp: apart_def chunk_size_def hole_at_def)
  qed (use blocks_at_bounds in \<open>auto simp: hole_at_def\<close>)
qed

lemma chunks_fill: "set (fill C bs) = set (before C @ after C) \<union> {(base C, left C @ bs @ right C)}"
  by (auto simp: fill_def)

lemma other_chunk_clear:
  assumes "wf_layout (fill C bs)" "c \<in> set (before C @ after C)"
  shows "fst c + chunk_size c \<le> base C \<or> hole_at C + span bs \<le> fst c"
proof -
  let ?c = "(base C, left C @ bs @ right C)"
  have "apart c ?c \<or> apart ?c c"
    using assms by (auto simp: wf_layout_def fill_def sorted_wrt_append)
  then show ?thesis by (auto simp: apart_def chunk_size_def hole_at_def)
qed

text \<open>The counters of a heap with a hole.\<close>

definition run_sum :: "status \<Rightarrow> blocks \<Rightarrow> nat" where
  "run_sum t bs = sum_list (map (\<lambda>b. if snd b = t then fst b - 16 else 0) bs)"

definition run_count :: "status \<Rightarrow> blocks \<Rightarrow> nat" where
  "run_count t bs = length (filter (\<lambda>b. snd b = t) bs)"

lemma run_simps [simp]:
  "run_sum t [] = 0" "run_sum t (b # bs) = (if snd b = t then fst b - 16 else 0) + run_sum t bs"
  "run_count t [] = 0" "run_count t (b # bs) = (if snd b = t then 1 else 0) + run_count t bs"
  by (auto simp: run_sum_def run_count_def)

lemma payload_sum_fill: "payload_sum t (fill C bs) = payload_sum t (fill C []) + run_sum t bs"
  by (simp add: payload_sum_def fill_def run_sum_def)

lemma block_count_fill: "block_count t (fill C bs) = block_count t (fill C []) + run_count t bs"
  by (simp add: block_count_def fill_def run_count_def)

lemma heap_bytes_fill:
  "span bs' = span bs \<Longrightarrow> sum_list (map chunk_size (fill C bs')) = sum_list (map chunk_size (fill C bs))"
  by (simp add: fill_def chunk_size_def)

lemma length_fill: "length (fill C bs) = length (before C) + length (after C) + 1"
  by (simp add: fill_def)

lemma stats_fill:
  assumes "span bs' = span bs"
  shows "stats_of (fill C bs') = \<lparr>
     bytes_in_use = bytes_in_use (stats_of (fill C bs)) - of_nat (run_sum Used bs) + of_nat (run_sum Used bs'),
     bytes_free = bytes_free (stats_of (fill C bs)) - of_nat (run_sum Listed bs) + of_nat (run_sum Listed bs'),
     heap_bytes = heap_bytes (stats_of (fill C bs)),
     blocks_in_use = blocks_in_use (stats_of (fill C bs)) - of_nat (run_count Used bs) + of_nat (run_count Used bs'),
     blocks_free = blocks_free (stats_of (fill C bs)) - of_nat (run_count Listed bs) + of_nat (run_count Listed bs'),
     chunks = chunks (stats_of (fill C bs))\<rparr>"
  unfolding stats_of_def payload_sum_fill [of _ C bs] payload_sum_fill [of _ C bs']
    block_count_fill [of _ C bs] block_count_fill [of _ C bs'] heap_bytes_fill [OF assms] length_fill
  by simp

end
