(* ===== verification/Balloc_Lists.thy ===== *)
theory Balloc_Lists
  imports Balloc_Layout
begin

text \<open>
  The free lists: \<open>list_insert\<close> and \<open>list_remove\<close> on the doubly linked lists that run through the
  payloads of the free blocks, and the frame of their writes.
\<close>

section \<open>Writes to links\<close>

text \<open>The second memory differs from the first in the links of the nodes of a set at most.\<close>

definition only_links :: "nat set \<Rightarrow> (nat \<Rightarrow> u64 option) \<Rightarrow> (nat \<Rightarrow> u64 option) \<Rightarrow> bool" where
  "only_links V m m' \<longleftrightarrow> (\<forall>a. m' a \<noteq> m a \<longrightarrow> a \<in> V \<or> a \<in> (\<lambda>y. y + 8) ` V) \<and> dom m \<subseteq> dom m'"

lemma only_links_refl [simp]: "only_links V m m"
  by (simp add: only_links_def)

lemma only_links_upd:
  "only_links V m m' \<Longrightarrow> y \<in> V \<Longrightarrow> a = y \<or> a = y + 8 \<Longrightarrow> only_links V m (m'(a \<mapsto> v))"
  unfolding only_links_def by auto

lemma only_linksD:
  assumes "only_links V m m'" "\<And>y. y \<in> V \<Longrightarrow> a = y \<or> a = y + 8 \<Longrightarrow> False"
  shows "m' a = m a"
  using assms unfolding only_links_def by blast

lemma only_links_mapped: "only_links V m m' \<Longrightarrow> mapped m a b \<Longrightarrow> mapped m' a b"
  unfolding only_links_def mapped_def by blast

text \<open>The links of a block are no words of the framework: no tag, no fence, no chunk header.\<close>

lemma link_clear_of_block:
  assumes "wf_layout L" "(y, s, t) \<in> layout_blocks L" "(p, s', t') \<in> layout_blocks L" "a = y \<or> a = y + 8"
  shows "a \<noteq> p - 8 \<and> a \<noteq> p + s' - 16" "t \<noteq> t' \<Longrightarrow> p \<le> a \<Longrightarrow> p + (s' - 16) \<le> a"
  using layout_blocks_disjoint [OF assms(1-3)] layout_block_ok [OF assms(1,2)]
    layout_block_ok [OF assms(1,3)] assms(4) by auto

lemma link_clear_of_chunk:
  assumes "wf_layout L" "(y, s, t) \<in> layout_blocks L" "c \<in> set L"
  shows "a = y \<or> a = y + 8 \<Longrightarrow> a \<noteq> fst c \<and> a \<noteq> fst c + 8 \<and> a \<noteq> fst c + 16 \<and> a \<noteq> fst c + chunk_size c - 8"
proof -
  obtain d where d: "d \<in> set L" "(y, s, t) \<in> chunk_blocks d"
    using assms(2) by (auto simp: layout_blocks_def)
  note chunk_blocks_bounds [OF d(2)] layout_block_ok [OF assms(1,2)] wf_apart [OF assms(1) d(1) assms(3)]
  moreover have "32 \<le> chunk_size c" by (simp add: chunk_size_def)
  ultimately show "a = y \<or> a = y + 8 \<Longrightarrow> a \<noteq> fst c \<and> a \<noteq> fst c + 8 \<and> a \<noteq> fst c + 16 \<and> a \<noteq> fst c + chunk_size c - 8"
    by (auto simp: apart_def)
qed

lemma chunk_list_cong:
  "(\<And>c. c \<in> set L \<Longrightarrow> m' (fst c) = m (fst c)) \<Longrightarrow> chunk_list m' p L = chunk_list m p L"
proof (induction L arbitrary: p)
  case (Cons c L)
  then have "m' (fst c) = m (fst c)" "chunk_list m' q L = chunk_list m q L" for q by simp_all
  then show ?case by (cases "p = fst c") simp_all
qed simp

lemma mem_inv_links:
  assumes wf: "wf_layout L" and inv: "mem_inv L m g" and links: "only_links V m m'"
    and V: "\<And>y. y \<in> V \<Longrightarrow> \<exists>s t. (y, s, t) \<in> layout_blocks L"
  shows "mem_inv L m' g"
proof -
  have tags: "tagged m' (p, s, t)" if b: "(p, s, t) \<in> layout_blocks L" for p s t
  proof -
    have "m' a = m a" if "a = p - 8 \<or> a = p + s - 16" for a
      using that V link_clear_of_block(1) [OF wf _ b] by (intro only_linksD [OF links]) metis
    then show ?thesis using mem_invD [OF inv b] only_links_mapped [OF links]
      by (simp add: tagged_def)
  qed
  have meta: "m' (fst c) = m (fst c) \<and> m' (fst c + 8) = m (fst c + 8) \<and> m' (fst c + 16) = m (fst c + 16) \<and>
      m' (fst c + chunk_size c - 8) = m (fst c + chunk_size c - 8)" if c: "c \<in> set L" for c
  proof -
    have "m' a = m a"
      if "a = fst c \<or> a = fst c + 8 \<or> a = fst c + 16 \<or> a = fst c + chunk_size c - 8" for a
      using that V link_clear_of_chunk [OF wf _ c] by (intro only_linksD [OF links]) metis
    then show ?thesis by simp
  qed
  have "chunk_list m' g L" using inv chunk_list_cong [of L m' m g] meta by (simp add: mem_inv_def)
  moreover have "fenced m' c" if "c \<in> set L" for c
    using inv meta [OF that] that by (simp add: mem_inv_def fenced_def)
  ultimately show ?thesis using tags by (auto simp: mem_inv_def)
qed

lemma keeps_links:
  assumes wf: "wf_layout L" and links: "only_links V (mem h) (mem h')"
    and V: "\<And>y. y \<in> V \<Longrightarrow> \<exists>s t. t \<noteq> Used \<and> (y, s, t) \<in> layout_blocks L"
  shows "keeps (live L) h h'"
proof -
  have "mem h' a = mem h a"
    if b: "(p, s, Used) \<in> layout_blocks L" and a: "p \<le> a" "a < p + (s - 16)" for p s a
    using a V link_clear_of_block(2) [OF wf _ b] by (intro only_linksD [OF links]) (metis not_le)
  then show ?thesis by (auto simp: keeps_def live_def payloads_def)
qed

section \<open>List segments\<close>

lemma dseg_cong:
  "(\<And>x. x \<in> set ps \<Longrightarrow> m' x = m x \<and> m' (x + 8) = m (x + 8)) \<Longrightarrow> dseg m' q p ps e = dseg m q p ps e"
  by (induction ps arbitrary: q p) auto

lemma dseg_append:
  "dseg m q p (xs @ ys) e \<longleftrightarrow> (\<exists>x. dseg m q p xs x \<and> dseg m (last (q # xs)) x ys e)"
  by (induction xs arbitrary: q p) auto

lemma dseg_hd: "dseg m q p ps 0 \<Longrightarrow> p = (if ps = [] then 0 else hd ps)"
  by (cases ps) auto

lemma dseg_null_iff: "dseg m q p ps 0 \<Longrightarrow> p = 0 \<longleftrightarrow> ps = []"
  by (cases ps) auto

lemma dseg_pos: "dseg m q p ps e \<Longrightarrow> x \<in> set ps \<Longrightarrow> x \<noteq> 0 \<and> m x \<noteq> None \<and> m (x + 8) \<noteq> None"
  by (induction ps arbitrary: q p) auto

text \<open>Changing the back pointer of the first node, and the forward pointer of the last one.\<close>

lemma dseg_set_prev:
  assumes "dseg m q p ps e" "p = 0 \<Longrightarrow> ps = []" "ps = [] \<Longrightarrow> p = 0"
    and "\<And>x y. x \<in> set ps \<Longrightarrow> y \<in> set ps \<Longrightarrow> x \<noteq> y + 8"
    and "distinct ps" "m' = (if p = 0 then m else m(p + 8 \<mapsto> word_of_nat q'))"
  shows "dseg m' q' p ps e"
proof (cases ps)
  case Nil
  with assms show ?thesis by simp
next
  case (Cons x xs)
  then have p: "p = x" "x \<noteq> 0" using assms(1) by auto
  then obtain w where w: "m x = Some w" "dseg m x (unat w) xs e" using assms(1) Cons by auto
  have m': "m' = m(x + 8 \<mapsto> word_of_nat q')" using assms(6) p by simp
  have "dseg m' x (unat w) xs e = dseg m x (unat w) xs e"
  proof (rule dseg_cong)
    fix y
    assume y: "y \<in> set xs"
    then have "y \<noteq> x" "y \<noteq> x + 8" using assms(4,5) Cons by auto
    then show "m' y = m y \<and> m' (y + 8) = m (y + 8)" using m' by simp
  qed
  then show ?thesis using p w m' Cons by simp
qed

section \<open>Changing the status of a block\<close>

lemma chunk_list_same: "map fst L = map fst L' \<Longrightarrow> chunk_list m p L = chunk_list m p L'"
proof (induction L arbitrary: p L')
  case (Cons c L)
  then obtain d K where "L' = d # K" "fst c = fst d" "map fst L = map fst K" by (cases L') auto
  then show ?case using Cons.IH [of K] by simp
qed simp

lemma mem_inv_fill:
  "mem_inv (fill C bs) m g \<longleftrightarrow> (\<forall>b\<in>outside C (span bs). tagged m b) \<and> (\<forall>b\<in>blocks_at (hole_at C) bs. tagged m b) \<and>
     (\<forall>c\<in>set (before C @ after C). fenced m c) \<and> fenced m (base C, left C @ bs @ right C) \<and>
     chunk_list m g (fill C [])"
proof -
  have "chunk_list m g (fill C bs) = chunk_list m g (fill C [])"
    by (rule chunk_list_same) (simp add: fill_def)
  then show ?thesis by (simp only: mem_inv_def layout_blocks_fill chunks_fill ball_Un ball_simps conj_assoc) simp
qed

lemma fenced_same: "span bs' = span bs \<Longrightarrow> fenced m (r, xs @ bs' @ ys) = fenced m (r, xs @ bs @ ys)"
  by (simp add: fenced_def chunk_size_def)

lemma mem_inv_relabel:
  assumes "(t = Used) = (t' = Used)"
  shows "mem_inv (fill C [(s, t)]) m g = mem_inv (fill C [(s, t')]) m g"
  using assms fenced_same [of "[(s, t)]" "[(s, t')]"]
  by (simp add: mem_inv_fill tagged_def tag_of_def)

lemma hole_block [simp]: "(hole_at C, s, t) \<in> layout_blocks (fill C [(s, t)])"
  by (simp add: layout_blocks_fill)

lemma block_unique:
  assumes "wf_layout L" "(p, s, t) \<in> layout_blocks L" "(p, s', t') \<in> layout_blocks L"
  shows "s = s' \<and> t = t'"
  using layout_blocks_disjoint [OF assms] layout_block_ok [OF assms(1,2)] layout_block_ok [OF assms(1,3)]
  by auto

lemma outside_not_hole:
  assumes "wf_layout (fill C [(s, t)])" "(p, s', t') \<in> outside C s"
  shows "p \<noteq> hole_at C"
proof
  assume "p = hole_at C"
  moreover have "(p, s', t') \<in> layout_blocks (fill C [(s, t)])" using assms(2) by (simp add: layout_blocks_fill)
  moreover have "0 < s'" "0 < s" using layout_block_ok [OF assms(1)] calculation(2) hole_block by fastforce+
  ultimately show False using outside_clear [OF assms(1), of p s' t'] assms(2) by auto
qed

lemma listed_fill:
  "listed (fill C [(s, t)]) c = {p. \<exists>s'. (p, s', Listed) \<in> outside C s \<and> size_class (word_of_nat s') = c} \<union>
     (if t = Listed \<and> size_class (word_of_nat s) = c then {hole_at C} else {})"
  by (auto simp: listed_def layout_blocks_fill)

lemma stats_relabel:
  "stats_of (fill C [(s, Listed)]) = (stats_of (fill C [(s, Loose)]))
     \<lparr>bytes_free := bytes_free (stats_of (fill C [(s, Loose)])) + of_nat (s - 16),
      blocks_free := blocks_free (stats_of (fill C [(s, Loose)])) + 1\<rparr>"
  "stats_of (fill C [(s, Loose)]) = (stats_of (fill C [(s, Listed)]))
     \<lparr>bytes_free := bytes_free (stats_of (fill C [(s, Listed)])) - of_nat (s - 16),
      blocks_free := blocks_free (stats_of (fill C [(s, Listed)])) - 1\<rparr>"
  "stats_of (fill C [(s, Loose)]) = (stats_of (fill C [(s, Used)]))
     \<lparr>bytes_in_use := bytes_in_use (stats_of (fill C [(s, Used)])) - of_nat (s - 16),
      blocks_in_use := blocks_in_use (stats_of (fill C [(s, Used)])) - 1\<rparr>"
  "stats_of (fill C [(s, Used)]) = (stats_of (fill C [(s, Loose)]))
     \<lparr>bytes_in_use := bytes_in_use (stats_of (fill C [(s, Loose)])) + of_nat (s - 16),
      blocks_in_use := blocks_in_use (stats_of (fill C [(s, Loose)])) + 1\<rparr>"
  by (simp add: stats_fill [of "[(s, Listed)]" "[(s, Loose)]" C])
    (simp add: stats_fill [of "[(s, Loose)]" "[(s, Listed)]" C],
     simp add: stats_fill [of "[(s, Loose)]" "[(s, Used)]" C],
     simp add: stats_fill [of "[(s, Used)]" "[(s, Loose)]" C])

lemma size_class_less: "size_class sz < NCLASS"
proof -
  have "c < NCLASS \<Longrightarrow> size_class_loop sz c < NCLASS" for sz c
    by (induction sz c rule: size_class_loop.induct) (subst size_class_loop.simps, auto simp: NCLASS_def)
  then show ?thesis by (simp add: size_class_def NCLASS_def)
qed

section \<open>Insertion\<close>

definition insert_mem :: "nat \<Rightarrow> nat \<Rightarrow> (nat \<Rightarrow> u64 option) \<Rightarrow> nat \<Rightarrow> u64 option" where
  "insert_mem n g m = (let m' = m(n + 8 \<mapsto> 0, n \<mapsto> word_of_nat g)
     in if g = 0 then m' else m'(g + 8 \<mapsto> word_of_nat n))"

lemma list_insert_run:
  assumes "length (g_class h) = NCLASS" "mem h n \<noteq> None" "mem h (n + 8) \<noteq> None"
    and "g = g_class h ! size_class sz" "g \<noteq> 0 \<Longrightarrow> mem h (g + 8) \<noteq> None"
  shows "list_insert n sz h =
    Some (h\<lparr>mem := insert_mem n g (mem h), g_class := (g_class h)[size_class sz := n]\<rparr>)"
proof -
  have "mem h n = Some (the (mem h n))" "g \<noteq> 0 \<Longrightarrow> mem h (g + 8) = Some (the (mem h (g + 8)))"
    using assms(2,5) by auto
  then show ?thesis using assms(1,3,4) size_class_less [of sz]
    by (auto simp: list_insert_def set_prev_def set_next_def set_class_def Let_def insert_mem_def put_word_def)
qed

lemma aligned_links: "16 dvd (x :: nat) \<Longrightarrow> 16 dvd y \<Longrightarrow> x \<noteq> y + 8"
  by presburger

lemma only_links_insert:
  "n \<in> V \<Longrightarrow> (g \<noteq> 0 \<Longrightarrow> g \<in> V) \<Longrightarrow> only_links V m (insert_mem n g m)"
  unfolding only_links_def insert_mem_def Let_def by (auto split: if_splits)

lemma class_node:
  assumes "class_inv L F m cs" "c < NCLASS" "x \<in> set (F c)"
  shows "\<exists>s. (x, s, Listed) \<in> layout_blocks L \<and> size_class (word_of_nat s) = c"
  using assms by (auto simp: class_inv_def listed_def)

lemma node_other:
  assumes wf: "wf_layout L" and "class_inv L F m cs" "c < NCLASS" "x \<in> set (F c)"
    and y: "(y, s, t) \<in> layout_blocks L" "t = Listed \<Longrightarrow> size_class (word_of_nat s) \<noteq> c"
  shows "x \<noteq> y" "x \<noteq> y + 8" "x + 8 \<noteq> y" "x + 8 \<noteq> y + 8"
proof -
  obtain s' where x: "(x, s', Listed) \<in> layout_blocks L" "size_class (word_of_nat s') = c"
    using class_node assms(2-4) by blast
  show "x \<noteq> y" using block_unique [OF wf _ y(1), of s' Listed] x y(2) by auto
  then show "x \<noteq> y + 8" "x + 8 \<noteq> y" "x + 8 \<noteq> y + 8"
    using aligned_links [of x y] aligned_links [of y x] layout_block_ok [OF wf x(1)] layout_block_ok [OF wf y(1)]
    by auto
qed

lemma node_apart:
  assumes wf: "wf_layout L" and "class_inv L F m cs" "c < NCLASS" "x \<in> set (F c)" "y \<in> set (F c)"
  shows "x \<noteq> y + 8"
proof -
  obtain s where x: "(x, s, Listed) \<in> layout_blocks L" using class_node [OF assms(2-4)] by blast
  obtain s' where y: "(y, s', Listed) \<in> layout_blocks L" using class_node [OF assms(2,3,5)] by blast
  from layout_block_ok [OF wf x] layout_block_ok [OF wf y] show ?thesis by (simp add: aligned_links)
qed

lemma class_headD:
  assumes "class_inv L F m cs" "c < NCLASS" "cs ! c \<noteq> 0"
  shows "cs ! c \<in> set (F c)"
proof -
  have "dseg m 0 (cs ! c) (F c) 0" using assms by (simp add: class_inv_def)
  from dseg_hd [OF this] assms(3) show ?thesis by (cases "F c") auto
qed

lemma class_insert:
  assumes wf: "wf_layout (fill C [(s, Loose)])" and inv: "class_inv (fill C [(s, Loose)]) F m cs"
    and c: "c = size_class (word_of_nat s)" and n: "n = hole_at C" and g: "g = cs ! c"
  shows "class_inv (fill C [(s, Listed)]) (F(c := n # F c)) (insert_mem n g m) (cs[c := n])"
proof -
  let ?L = "fill C [(s, Loose)]" and ?m = "insert_mem n g m"
  have c16: "c < NCLASS" using c size_class_less by simp
  have nb: "(n, s, Loose) \<in> layout_blocks ?L" using n by simp
  have ok: "dseg m 0 (cs ! k) (F k) 0" "distinct (F k)" "set (F k) = listed ?L k" if "k < NCLASS" for k
    using inv that by (auto simp: class_inv_def)
  have gF: "g \<noteq> 0 \<Longrightarrow> g \<in> set (F c)" using class_headD [OF inv c16] g by simp
  have same: "?m x = m x \<and> ?m (x + 8) = m (x + 8)" if k: "k < NCLASS" "k \<noteq> c" "x \<in> set (F k)" for k x
  proof -
    have "x \<noteq> g \<and> x \<noteq> g + 8 \<and> x + 8 \<noteq> g \<and> x + 8 \<noteq> g + 8" if g0: "g \<noteq> 0"
    proof -
      obtain s' where "(g, s', Listed) \<in> layout_blocks ?L" "size_class (word_of_nat s') = c"
        using class_node [OF inv c16 gF [OF g0]] by blast
      with node_other [OF wf inv k(1,3) this(1)] k(2) show ?thesis by simp
    qed
    then show ?thesis using node_other [OF wf inv k(1,3) nb] by (simp add: insert_mem_def Let_def)
  qed
  have "dseg ?m 0 n (n # F c) 0"
  proof -
    let ?m2 = "if g = 0 then m else m(g + 8 \<mapsto> word_of_nat n)"
    have seg: "dseg m 0 g (F c) 0" using ok(1) [OF c16] g by simp
    have "dseg ?m2 n g (F c) 0"
      by (rule dseg_set_prev [OF seg _ _ _ ok(2) [OF c16] refl])
        (use dseg_null_iff [OF seg] node_apart [OF wf inv c16] in auto)
    moreover have "?m x = ?m2 x \<and> ?m (x + 8) = ?m2 (x + 8)" if "x \<in> set (F c)" for x
      using node_other [OF wf inv c16 that nb] by (simp add: insert_mem_def Let_def)
    ultimately have "dseg ?m n g (F c) 0" using dseg_cong [of "F c" ?m ?m2] by blast
    moreover have "g \<noteq> 0 \<Longrightarrow> g \<noteq> n \<and> g + 8 \<noteq> n" using node_other [OF wf inv c16 gF nb] by simp
    then have "?m n = Some (word_of_nat g)" "?m (n + 8) = Some 0"
      by (auto simp: insert_mem_def Let_def)
    moreover have "n \<noteq> 0" "g < 2 ^ 64"
      using layout_block_ok [OF wf nb] class_node [OF inv c16 gF] layout_block_ok [OF wf] by fastforce+
    ultimately show ?thesis by simp
  qed
  moreover have "distinct (n # F c)"
    using ok(2) [OF c16] node_other(1) [OF wf inv c16 _ nb] by auto
  moreover have "set ((F(c := n # F c)) k) = listed (fill C [(s, Listed)]) k" if "k < NCLASS" for k
    using ok(3) [OF that] ok(3) [OF c16] n c by (auto simp: listed_fill)
  moreover have "dseg ?m 0 (cs ! k) (F k) 0" if "k < NCLASS" "k \<noteq> c" for k
    using ok(1) [OF that(1)] dseg_cong [of "F k" ?m m] same [OF that] by blast
  ultimately show ?thesis using inv ok(2) c16 by (auto simp: class_inv_def nth_list_update)
qed

text \<open>A loose block goes on the list of its class.\<close>

lemma list_insert_ok:
  assumes inv: "heap_inv (fill C [(s, Loose)]) F h"
  defines "c \<equiv> size_class (word_of_nat s)" and "n \<equiv> hole_at C"
  shows "\<exists>h'. list_insert n (word_of_nat s) h = Some h' \<and> keeps (live (fill C [(s, Loose)])) h h' \<and>
    heap_inv (fill C [(s, Listed)]) (F(c := n # F c)) (add_free (word_of_nat s) h')"
proof -
  let ?L = "fill C [(s, Loose)]" and ?g = "g_class h ! c"
  let ?h = "h\<lparr>mem := insert_mem n ?g (mem h), g_class := (g_class h)[c := n]\<rparr>"
  have wf: "wf_layout ?L" and mi: "mem_inv ?L (mem h) (g_chunks h)"
    and ci: "class_inv ?L F (mem h) (g_class h)" and st: "g_stats h = stats_of ?L"
    using inv by (auto simp: heap_inv_def)
  have nb: "(n, s, Loose) \<in> layout_blocks ?L" by (simp add: n_def)
  note nok = layout_block_ok [OF wf nb]
  have c16: "c < NCLASS" by (simp add: c_def size_class_less)
  have gF: "?g \<noteq> 0 \<Longrightarrow> ?g \<in> set (F c)" using class_headD [OF ci c16] by simp
  have seg: "dseg (mem h) 0 ?g (F c) 0" using ci c16 by (simp add: class_inv_def)
  have "mapped (mem h) n (n + s - 16)" using mem_invD [OF mi nb] by (simp add: tagged_def)
  then have "mem h n \<noteq> None" "mem h (n + 8) \<noteq> None"
    using nok dvd_16_8 [of n] by (auto simp: mapped_def)
  then have run: "list_insert n (word_of_nat s) h = Some ?h"
    using list_insert_run [of h n ?g "word_of_nat s"] ci dseg_pos [OF seg] gF
    by (auto simp: c_def class_inv_def)
  define V where "V = (if ?g = 0 then {n} else {n, ?g})"
  have links: "only_links V (mem h) (mem ?h)"
    by (simp add: V_def only_links_insert)
  have V: "\<exists>s t. t \<noteq> Used \<and> (y, s, t) \<in> layout_blocks ?L" if "y \<in> V" for y
  proof -
    have "y = n \<or> y = ?g \<and> ?g \<noteq> 0" using that by (auto simp: V_def split: if_splits)
    then show ?thesis
    proof
      assume "y = n"
      then show ?thesis using nb by blast
    next
      assume "y = ?g \<and> ?g \<noteq> 0"
      then show ?thesis using class_node [OF ci c16 gF] by blast
    qed
  qed
  have "mem_inv (fill C [(s, Listed)]) (mem ?h) (g_chunks ?h)"
  proof -
    have "mem_inv ?L (mem ?h) (g_chunks h)" by (rule mem_inv_links [OF wf mi links]) (use V in blast)
    then show ?thesis using mem_inv_relabel [of Loose Listed C s] by simp
  qed
  moreover have "class_inv (fill C [(s, Listed)]) (F(c := n # F c)) (mem ?h) (g_class ?h)"
    using class_insert [OF wf ci] by (simp add: c_def n_def)
  moreover have "wf_layout (fill C [(s, Listed)])"
    by (rule wf_fill [OF wf]) (use nok in \<open>auto simp: block_ok_def\<close>)
  moreover have "g_stats (add_free (word_of_nat s) ?h) = stats_of (fill C [(s, Listed)])"
    using nok by (simp add: add_free_def st stats_relabel(1) of_nat_diff DSIZE_def)
  moreover have "keeps (live ?L) h ?h" by (rule keeps_links [OF wf links V])
  ultimately show ?thesis using run by (auto simp: heap_inv_def add_free_def)
qed

section \<open>Removal\<close>

definition remove_mem :: "nat \<Rightarrow> nat \<Rightarrow> (nat \<Rightarrow> u64 option) \<Rightarrow> nat \<Rightarrow> u64 option" where
  "remove_mem p q m = (let m' = (if p = 0 then m else m(p \<mapsto> word_of_nat q))
     in if q = 0 then m' else m'(q + 8 \<mapsto> word_of_nat p))"

definition prev_node :: "nat list \<Rightarrow> nat" where
  "prev_node us = last (0 # us)"

definition next_node :: "nat list \<Rightarrow> nat" where
  "next_node vs = (if vs = [] then 0 else hd vs)"

lemma dseg_middle:
  assumes "dseg m 0 g (us @ n # vs) 0" "\<forall>x\<in>set (us @ n # vs). x < 2 ^ 64"
  shows "m (n + 8) = Some (word_of_nat (prev_node us))" "\<exists>w. m n = Some w \<and> unat w = next_node vs"
    "dseg m 0 g us n" "dseg m n (next_node vs) vs 0"
proof -
  from assms(1) obtain w where w: "dseg m 0 g us n" "m (n + 8) = Some (word_of_nat (last (0 # us)))"
    "m n = Some w" "dseg m n (unat w) vs 0"
    by (auto simp: dseg_append)
  from dseg_hd [OF w(4)] have "unat w = next_node vs" by (simp add: next_node_def)
  with w show "m (n + 8) = Some (word_of_nat (prev_node us))" "\<exists>w. m n = Some w \<and> unat w = next_node vs"
    "dseg m 0 g us n" "dseg m n (next_node vs) vs 0"
    by (simp_all add: prev_node_def)
qed

lemma dseg_remove:
  assumes seg: "dseg m 0 g (us @ n # vs) 0" and small: "\<forall>x\<in>set (us @ n # vs). x < 2 ^ 64"
    and dist: "distinct (us @ n # vs)"
    and apart: "\<And>x y. x \<in> set (us @ n # vs) \<Longrightarrow> y \<in> set (us @ n # vs) \<Longrightarrow> x \<noteq> y + 8"
  defines "p \<equiv> prev_node us" and "q \<equiv> next_node vs"
  shows "dseg (remove_mem p q m) 0 (if p = 0 then q else g) (us @ vs) 0"
proof -
  let ?m = "remove_mem p q m" and ?mq = "if q = 0 then m else m(q + 8 \<mapsto> word_of_nat p)"
  note mid = dseg_middle [OF seg small]
  have q: "q = 0 \<longleftrightarrow> vs = []" "vs \<noteq> [] \<Longrightarrow> q \<in> set vs"
    using dseg_null_iff [OF mid(4)] by (auto simp: q_def next_node_def)
  have "dseg ?mq p q vs 0"
    by (rule dseg_set_prev [of m n]) (use mid(4) q dist apart in \<open>auto simp: q_def\<close>)
  moreover have p: "p = 0 \<longleftrightarrow> us = []" "us \<noteq> [] \<Longrightarrow> p \<in> set us"
    using dseg_pos [OF seg] by (auto simp: p_def prev_node_def)
  then have "?m x = ?mq x \<and> ?m (x + 8) = ?mq (x + 8)" if "x \<in> set vs" for x
  proof -
    have "p \<noteq> 0 \<Longrightarrow> x \<noteq> p \<and> p \<noteq> x + 8" using that p dist apart [of p x] by auto
    then show ?thesis by (auto simp: remove_mem_def Let_def)
  qed
  ultimately have vs: "dseg ?m p q vs 0" using dseg_cong [of vs ?m ?mq] by blast
  show ?thesis
  proof (cases us rule: rev_cases)
    case Nil
    then show ?thesis using vs p by simp
  next
    case (snoc us' u)
    then have pu: "p = u" "p \<noteq> 0" using p by (auto simp: p_def prev_node_def)
    from mid(3) snoc obtain w where u: "dseg m 0 g us' u" "m (u + 8) = Some (word_of_nat (last (0 # us')))"
      by (auto simp: dseg_append)
    have "?m x = m x \<and> ?m (x + 8) = m (x + 8)" if "x \<in> set us'" for x
    proof -
      have "x \<noteq> u" "u \<noteq> x + 8" "q \<noteq> 0 \<Longrightarrow> x \<noteq> q \<and> x \<noteq> q + 8"
        using that snoc dist apart [of u x] apart [of x q] q by auto
      then show ?thesis using pu by (auto simp: remove_mem_def Let_def)
    qed
    then have "dseg ?m 0 g us' u" using u dseg_cong [of us' ?m m] by blast
    moreover have uq: "q \<noteq> 0 \<Longrightarrow> u \<noteq> q \<and> u \<noteq> q + 8" using snoc dist apart [of u q] q by auto
    then have "?m (u + 8) = Some (word_of_nat (last (0 # us')))" "?m u = Some (word_of_nat q)"
      using u(2) pu by (auto simp: remove_mem_def Let_def)
    moreover have "q < 2 ^ 64" using q small by (cases "vs = []") auto
    ultimately have "dseg ?m 0 g us q" using snoc pu by (auto simp: dseg_append)
    then show ?thesis using vs pu snoc by (auto simp: dseg_append p_def prev_node_def)
  qed
qed

lemma list_remove_run:
  assumes "length (g_class h) = NCLASS" "mem h (n + 8) = Some (word_of_nat p)" "p < 2 ^ 64"
    and "mem h n = Some w" "unat w = q" "q < 2 ^ 64"
    and "p \<noteq> 0 \<Longrightarrow> mem h p \<noteq> None \<and> p \<noteq> n \<and> p \<noteq> n + 8" "q \<noteq> 0 \<Longrightarrow> mem h (q + 8) \<noteq> None"
  shows "list_remove n sz h = Some (h\<lparr>mem := remove_mem p q (mem h),
    g_class := (if p = 0 then (g_class h)[size_class sz := q] else g_class h)\<rparr>)"
proof (cases "p = 0")
  case True
  have "q = 0 \<or> (\<exists>v. mem h (q + 8) = Some v)" using assms(8) by auto
  then show ?thesis using True assms(1-6) size_class_less [of sz]
    by (auto simp: list_remove_def node_prev_def node_next_def set_prev_def set_class_def
        Let_def remove_mem_def put_word_def get_word_def)
next
  case False
  then obtain v where "mem h p = Some v" "p \<noteq> n" "p \<noteq> n + 8" using assms(7) by auto
  moreover have "q = 0 \<or> (\<exists>v. mem h (q + 8) = Some v)" using assms(8) by auto
  ultimately show ?thesis using False assms(1-6)
    by (auto simp: list_remove_def node_prev_def node_next_def set_prev_def set_next_def
        Let_def remove_mem_def put_word_def get_word_def)
qed

lemma class_remove:
  assumes wf: "wf_layout (fill C [(s, Listed)])" and inv: "class_inv (fill C [(s, Listed)]) F m cs"
    and c: "c = size_class (word_of_nat s)" and F: "F c = us @ hole_at C # vs"
  defines "p \<equiv> prev_node us" and "q \<equiv> next_node vs"
  shows "class_inv (fill C [(s, Loose)]) (F(c := us @ vs)) (remove_mem p q m)
    (if p = 0 then cs[c := q] else cs)"
proof -
  let ?L = "fill C [(s, Listed)]" and ?n = "hole_at C" and ?m = "remove_mem p q m"
  let ?cs = "if p = 0 then cs[c := q] else cs"
  have c16: "c < NCLASS" using c size_class_less by simp
  have ok: "dseg m 0 (cs ! k) (F k) 0" "distinct (F k)" "set (F k) = listed ?L k" if "k < NCLASS" for k
    using inv that by (auto simp: class_inv_def)
  have seg: "dseg m 0 (cs ! c) (us @ ?n # vs) 0" and dist: "distinct (us @ ?n # vs)"
    using ok(1,2) [OF c16] F by auto
  have small: "\<forall>x\<in>set (us @ ?n # vs). x < 2 ^ 64"
    using class_node [OF inv c16] layout_block_ok [OF wf] F by fastforce
  have apart: "x \<noteq> y + 8" if "x \<in> set (us @ ?n # vs)" "y \<in> set (us @ ?n # vs)" for x y
    using node_apart [OF wf inv c16] that F by metis
  have "dseg ?m 0 (if p = 0 then q else cs ! c) (us @ vs) 0"
    unfolding p_def q_def by (rule dseg_remove [OF seg small dist apart])
  then have "dseg ?m 0 (?cs ! c) (us @ vs) 0"
    using c16 inv by (cases "p = 0") (simp_all add: class_inv_def)
  moreover have pq: "p \<noteq> 0 \<Longrightarrow> p \<in> set (F c)" "q \<noteq> 0 \<Longrightarrow> q \<in> set (F c)"
    by (auto simp: p_def q_def prev_node_def next_node_def F)
  have "?m x = m x \<and> ?m (x + 8) = m (x + 8)" if k: "k < NCLASS" "k \<noteq> c" "x \<in> set (F k)" for k x
  proof -
    have "x \<noteq> y \<and> x \<noteq> y + 8 \<and> x + 8 \<noteq> y \<and> x + 8 \<noteq> y + 8" if y: "y \<in> set (F c)" for y
    proof -
      obtain s' where "(y, s', Listed) \<in> layout_blocks ?L" "size_class (word_of_nat s') = c"
        using class_node [OF inv c16 y] by blast
      with node_other [OF wf inv k(1,3) this(1)] k(2) show ?thesis by simp
    qed
    then show ?thesis using pq by (auto simp: remove_mem_def Let_def)
  qed
  then have "dseg ?m 0 (cs ! k) (F k) 0" if "k < NCLASS" "k \<noteq> c" for k
    using ok(1) [OF that(1)] dseg_cong [of "F k" ?m m] that by blast
  moreover have "set ((F(c := us @ vs)) k) = listed (fill C [(s, Loose)]) k" if "k < NCLASS" for k
  proof -
    let ?O = "{p. \<exists>s'. (p, s', Listed) \<in> outside C s \<and> size_class (word_of_nat s') = c}"
    have "?n \<notin> ?O" using outside_not_hole [OF wf] by blast
    moreover have "insert ?n (set (us @ vs)) = insert ?n ?O"
      using ok(3) [OF c16] F c by (simp add: listed_fill)
    ultimately have "set (us @ vs) = ?O" using dist insert_ident [of ?n "set (us @ vs)" ?O] by simp
    then show ?thesis using ok(3) [OF that] c by (simp add: listed_fill)
  qed
  ultimately show ?thesis using inv ok(2) c16 dist by (auto simp: class_inv_def nth_list_update)
qed

lemma only_links_remove:
  "(p \<noteq> 0 \<Longrightarrow> p \<in> V) \<Longrightarrow> (q \<noteq> 0 \<Longrightarrow> q \<in> V) \<Longrightarrow> only_links V m (remove_mem p q m)"
  unfolding only_links_def remove_mem_def Let_def by (auto split: if_splits)

text \<open>A listed block leaves its list and becomes loose.\<close>

lemma list_remove_ok:
  assumes inv: "heap_inv (fill C [(s, Listed)]) F h"
  defines "c \<equiv> size_class (word_of_nat s)" and "n \<equiv> hole_at C"
  shows "\<exists>h' ps. list_remove n (word_of_nat s) h = Some h' \<and> keeps (live (fill C [(s, Listed)])) h h' \<and>
    heap_inv (fill C [(s, Loose)]) (F(c := ps)) (sub_free (word_of_nat s) h')"
proof -
  let ?L = "fill C [(s, Listed)]"
  have wf: "wf_layout ?L" and mi: "mem_inv ?L (mem h) (g_chunks h)"
    and ci: "class_inv ?L F (mem h) (g_class h)" and st: "g_stats h = stats_of ?L"
    using inv by (auto simp: heap_inv_def)
  have nb: "(n, s, Listed) \<in> layout_blocks ?L" by (simp add: n_def)
  note nok = layout_block_ok [OF wf nb]
  have c16: "c < NCLASS" by (simp add: c_def size_class_less)
  have "n \<in> set (F c)" using ci c16 nb by (auto simp: class_inv_def listed_def c_def)
  then obtain us vs where F: "F c = us @ n # vs" using split_list by metis
  define p q where "p = prev_node us" and "q = next_node vs"
  have seg: "dseg (mem h) 0 (g_class h ! c) (us @ n # vs) 0" and dist: "distinct (us @ n # vs)"
    using ci c16 F by (metis class_inv_def)+
  have blk: "\<exists>s. (x, s, Listed) \<in> layout_blocks ?L" if "x \<in> set (F c)" for x
    using class_node [OF ci c16 that] by blast
  have small: "\<forall>x\<in>set (us @ n # vs). x < 2 ^ 64"
    using blk layout_block_ok [OF wf] F by fastforce
  have pq: "p \<noteq> 0 \<Longrightarrow> p \<in> set us" "q \<noteq> 0 \<Longrightarrow> q \<in> set vs"
    by (auto simp: p_def q_def prev_node_def next_node_def split: if_splits)
  note mid = dseg_middle [OF seg small, folded p_def q_def]
  let ?h = "h\<lparr>mem := remove_mem p q (mem h), g_class := (if p = 0 then (g_class h)[c := q] else g_class h)\<rparr>"
  obtain w where w: "mem h n = Some w" "unat w = q" using mid(2) by blast
  have run: "list_remove n (word_of_nat s) h = Some ?h" unfolding c_def
  proof (rule list_remove_run [OF _ mid(1) _ w])
    show "length (g_class h) = NCLASS" using ci by (simp add: class_inv_def)
    show "p < 2 ^ 64" using pq(1) small by (cases "p = 0") auto
    show "q < 2 ^ 64" using pq(2) small by (cases "q = 0") auto
    show "mem h (q + 8) \<noteq> None" if "q \<noteq> 0" using dseg_pos [OF seg] pq(2) [OF that] by auto
    show "mem h p \<noteq> None \<and> p \<noteq> n \<and> p \<noteq> n + 8" if "p \<noteq> 0"
      using dseg_pos [OF seg] pq(1) [OF that] dist node_apart [OF wf ci c16, of p n] F by auto
  qed
  define V where "V = (if p = 0 then {} else {p}) \<union> (if q = 0 then {} else {q})"
  have links: "only_links V (mem h) (mem ?h)" by (simp add: V_def only_links_remove)
  have V: "\<exists>s t. t \<noteq> Used \<and> (y, s, t) \<in> layout_blocks ?L" if "y \<in> V" for y
  proof -
    have "y \<in> set (F c)" using that pq F by (auto simp: V_def split: if_splits)
    then show ?thesis using blk by blast
  qed
  have "mem_inv (fill C [(s, Loose)]) (mem ?h) (g_chunks ?h)"
  proof -
    have "mem_inv ?L (mem ?h) (g_chunks h)" by (rule mem_inv_links [OF wf mi links]) (use V in blast)
    then show ?thesis using mem_inv_relabel [of Loose Listed C s] by simp
  qed
  moreover have "class_inv (fill C [(s, Loose)]) (F(c := us @ vs)) (mem ?h) (g_class ?h)"
  proof -
    have "class_inv (fill C [(s, Loose)]) (F(c := us @ vs)) (remove_mem p q (mem h))
        (if p = 0 then (g_class h)[c := q] else g_class h)"
      unfolding p_def q_def by (rule class_remove [OF wf ci]) (use F in \<open>simp_all add: c_def n_def\<close>)
    then show ?thesis by simp
  qed
  moreover have "wf_layout (fill C [(s, Loose)])"
    by (rule wf_fill [OF wf]) (use nok in \<open>auto simp: block_ok_def\<close>)
  moreover have "g_stats (sub_free (word_of_nat s) ?h) = stats_of (fill C [(s, Loose)])"
    using nok by (simp add: sub_free_def st stats_relabel(2) of_nat_diff DSIZE_def)
  moreover have "keeps (live ?L) h ?h" by (rule keeps_links [OF wf links V])
  ultimately show ?thesis using run by (auto simp: heap_inv_def sub_free_def)
qed

end
