(* ===== verification/Balloc_Free.thy ===== *)
theory Balloc_Free
  imports Balloc_Lists
begin

text \<open>
  Freeing: rewriting the tags of a run of blocks, absorbing the free neighbours of a block, and
  \<open>coalesce\<close> and \<open>bfree\<close> on the invariant.
\<close>

definition heap_ok :: "layout \<Rightarrow> balloc_heap \<Rightarrow> bool" where
  "heap_ok L h \<longleftrightarrow> (\<exists>F. heap_inv L F h)"

lemma heap_okD:
  assumes "heap_ok L h"
  shows "wf_layout L" "mem_inv L (mem h) (g_chunks h)" "g_stats h = stats_of L"
    "length (g_class h) = NCLASS"
  using assms by (auto simp: heap_ok_def heap_inv_def class_inv_def)

lemma keeps_refl [simp]: "keeps V h h"
  by (auto simp: keeps_def)

lemma keeps_trans: "keeps V h h' \<Longrightarrow> keeps V h' h'' \<Longrightarrow> keeps V h h''"
  unfolding keeps_def by simp

lemma keeps_mono: "keeps V h h' \<Longrightarrow> W \<subseteq> V \<Longrightarrow> keeps W h h'"
  unfolding keeps_def by blast

lemma keeps_mem [simp]: "keeps V h (h'\<lparr>g_stats := st\<rparr>) = keeps V h h'"
  "keeps V (h\<lparr>g_stats := st\<rparr>) h' = keeps V h h'"
  by (simp_all add: keeps_def)

lemma live_fill: "live (fill C bs) = payloads (outside C (span bs)) \<union> payloads (blocks_at (hole_at C) bs)"
  by (simp add: live_def layout_blocks_fill)

section \<open>The words of a run of blocks\<close>

lemma mapped_append: "mapped m a b \<Longrightarrow> mapped m b c \<Longrightarrow> mapped m a c"
  unfolding mapped_def by (meson le_less_linear)

lemma tagged_mapped:
  assumes "tagged m (p, s, t)" "16 dvd p" "16 dvd s" "32 \<le> s" "16 \<le> p"
  shows "mapped m (p - 8) (p + s - 8)"
proof -
  have "x = p - 8 \<or> p \<le> x \<and> x < p + s - 16 \<or> x = p + s - 16"
    if x: "p - 8 \<le> x" "x < p + s - 8" "8 dvd x" for x
  proof -
    obtain i j k where "x = 8 * i" "p = 16 * j" "s = 16 * k" using x(3) assms(2,3) by (auto elim!: dvdE)
    then have i: "2 * j - 1 \<le> i" "i < 2 * j + 2 * k - 1" "1 \<le> j" "2 \<le> k" using x(1,2) assms(4,5) by auto
    consider "i = 2 * j - 1" | "2 * j \<le> i" "i < 2 * j + 2 * k - 2" | "i = 2 * j + 2 * k - 2"
      using i by linarith
    then show ?thesis using \<open>x = 8 * i\<close> \<open>p = 16 * j\<close> \<open>s = 16 * k\<close> i(3,4) by cases auto
  qed
  then show ?thesis using assms(1) by (fastforce simp: mapped_def tagged_def)
qed

lemma run_mapped:
  assumes "\<forall>b\<in>blocks_at p bs. tagged m b" "\<forall>b\<in>set bs. block_ok b" "16 dvd p" "16 \<le> p"
  shows "mapped m (p - 8) (p + span bs - 8)"
  using assms
proof (induction bs arbitrary: p)
  case Nil
  then show ?case by (auto simp: mapped_def)
next
  case (Cons b bs)
  obtain s t where b: "b = (s, t)" by fastforce
  have "mapped m (p - 8) (p + s - 8)"
    by (rule tagged_mapped [of m p s t]) (use Cons.prems b in \<open>auto simp: block_ok_def\<close>)
  moreover have "mapped m (p + s - 8) (p + s + span bs - 8)"
    using Cons.IH [of "p + s"] Cons.prems b by (auto simp: block_ok_def)
  ultimately show ?case using b mapped_append by (simp add: add.assoc)
qed

lemma hole_ok:
  assumes "wf_layout (fill C bs)"
  shows "16 dvd hole_at C" "32 < hole_at C" "\<forall>b\<in>set bs. block_ok b" "hole_at C + span bs \<le> 2 ^ 64"
proof -
  have "chunk_ok (base C, left C @ bs @ right C)" using assms by (simp add: wf_layout_def fill_def)
  then show "16 dvd hole_at C" "32 < hole_at C" "\<forall>b\<in>set bs. block_ok b" "hole_at C + span bs \<le> 2 ^ 64"
    using dvd_span [of "left C"] by (auto simp: chunk_ok_def hole_at_def chunk_size_def)
qed

lemma hole_mapped:
  assumes "heap_ok (fill C bs) h"
  shows "mapped (mem h) (hole_at C - 8) (hole_at C + span bs - 8)"
  using heap_okD [OF assms] hole_ok [of C bs]
  by (intro run_mapped) (auto simp: mem_inv_def layout_blocks_fill)

lemma mapped_word: "mapped m a b \<Longrightarrow> a \<le> x \<Longrightarrow> x < b \<Longrightarrow> 8 dvd x \<Longrightarrow> m x \<noteq> None"
  by (simp add: mapped_def)

section \<open>Rewriting tags\<close>

text \<open>
  Blocks that are on no free list can be cut differently: the memory changes only between the ends
  of the run, and carries the tags of the new blocks.
\<close>

lemma retag:
  assumes inv: "heap_ok (fill C bs) h" and span: "span bs' = span bs" and ok: "\<forall>b\<in>set bs'. block_ok b"
    and unlisted: "\<forall>b\<in>set bs \<union> set bs'. snd b \<noteq> Listed"
    and agree: "\<And>x. x < hole_at C - 8 \<or> hole_at C + span bs - 8 \<le> x \<Longrightarrow> m' x = mem h x"
    and tags: "\<forall>b\<in>blocks_at (hole_at C) bs'. tagged m' b"
  shows "heap_ok (fill C bs') (h\<lparr>mem := m', g_stats := stats_of (fill C bs')\<rparr>)"
    "keeps (payloads (outside C (span bs))) h (h\<lparr>mem := m'\<rparr>)"
proof -
  obtain F where F: "heap_inv (fill C bs) F h" using inv by (auto simp: heap_ok_def)
  note h = heap_okD [OF inv]
  note hole = hole_ok [OF h(1)]
  have same: "m' x = mem h x" if b: "(p, s, t) \<in> outside C (span bs)" and x: "p - 8 \<le> x" "x < p + s - 8" for p s t x
  proof (rule agree)
    have "16 dvd p \<and> 32 < p \<and> 32 \<le> s"
      using layout_block_ok [OF h(1), of p s t] b by (simp add: layout_blocks_fill)
    then show "x < hole_at C - 8 \<or> hole_at C + span bs - 8 \<le> x"
      using outside_clear [OF h(1) b] x by auto
  qed
  have keep: "tagged m' (p, s, t) \<and> 32 < p \<and> 32 \<le> s \<and> m' p = mem h p \<and> m' (p + 8) = mem h (p + 8)"
    if b: "(p, s, t) \<in> outside C (span bs)" for p s t
  proof -
    have p: "32 < p \<and> 32 \<le> s"
      using layout_block_ok [OF h(1), of p s t] b by (simp add: layout_blocks_fill)
    moreover have "tagged (mem h) (p, s, t)"
      by (rule mem_invD [OF h(2)]) (simp add: layout_blocks_fill b)
    ultimately show ?thesis using same [OF b] by (auto simp: tagged_def mapped_def)
  qed
  have wf': "wf_layout (fill C bs')" by (rule wf_fill [OF h(1) span ok])
  have out: "m' x = mem h x" if "c \<in> set (before C @ after C)" "fst c \<le> x" "x < fst c + chunk_size c" for c x
    by (rule agree) (use other_chunk_clear [OF h(1) that(1)] that in \<open>auto simp: hole_at_def\<close>)
  have base: "m' x = mem h x" if "x < base C + 24 \<or> x = base C + chunk_size (base C, left C @ bs @ right C) - 8" for x
    by (rule agree) (use that in \<open>auto simp: hole_at_def chunk_size_def\<close>)
  have "mem_inv (fill C bs') m' (g_chunks h)"
  proof -
    have "chunk_list m' (g_chunks h) (fill C []) = chunk_list (mem h) (g_chunks h) (fill C [])"
    proof (rule chunk_list_cong)
      fix c
      assume "c \<in> set (fill C [])"
      then consider "c \<in> set (before C @ after C)" | "fst c = base C" by (auto simp: fill_def)
      then show "m' (fst c) = mem h (fst c)"
        by cases (use out [of c "fst c"] base in \<open>auto simp: chunk_size_def\<close>)
    qed
    moreover have "fenced m' c" if "c \<in> set (before C @ after C)" "fenced (mem h) c" for c
      using that(2) out [OF that(1)] by (auto simp: fenced_def chunk_size_def)
    moreover have "fenced m' (base C, left C @ bs @ right C)" if "fenced (mem h) (base C, left C @ bs @ right C)"
      using that base by (auto simp: fenced_def)
    then have "fenced m' (base C, left C @ bs' @ right C)" if "fenced (mem h) (base C, left C @ bs @ right C)"
      using that fenced_same [OF span] by blast
    ultimately show ?thesis using h(2) tags keep span by (auto simp: mem_inv_fill)
  qed
  moreover have "class_inv (fill C bs') F m' (g_class h)"
  proof -
    have ci: "class_inv (fill C bs) F (mem h) (g_class h)" using F by (simp add: heap_inv_def)
    have no: "(p, s, Listed) \<notin> blocks_at (hole_at C) bs \<and> (p, s, Listed) \<notin> blocks_at (hole_at C) bs'" for p s
    proof -
      have "(s, Listed) \<notin> set bs" "(s, Listed) \<notin> set bs'" using unlisted by force+
      then show ?thesis by (auto dest!: blocks_at_bounds)
    qed
    then have "listed (fill C bs') c = listed (fill C bs) c" for c
      by (simp add: listed_def layout_blocks_fill span)
    moreover have "dseg m' 0 (g_class h ! c) (F c) 0 = dseg (mem h) 0 (g_class h ! c) (F c) 0"
      if c: "c < NCLASS" for c
    proof (rule dseg_cong)
      fix x
      assume "x \<in> set (F c)"
      then obtain s where "(x, s, Listed) \<in> layout_blocks (fill C bs)" using class_node [OF ci c] by blast
      then have "(x, s, Listed) \<in> outside C (span bs)" using no by (simp add: layout_blocks_fill)
      from keep [OF this] show "m' x = mem h x \<and> m' (x + 8) = mem h (x + 8)" by blast
    qed
    ultimately show ?thesis using ci by (simp add: class_inv_def)
  qed
  ultimately show "heap_ok (fill C bs') (h\<lparr>mem := m', g_stats := stats_of (fill C bs')\<rparr>)"
    using wf' unfolding heap_ok_def by (intro exI [of _ F]) (simp add: heap_inv_def)
  show "keeps (payloads (outside C (span bs))) h (h\<lparr>mem := m'\<rparr>)"
    using same by (auto simp: keeps_def payloads_def)
qed

text \<open>A run that becomes one block: two words change.\<close>

lemma retag_one:
  assumes inv: "heap_ok (fill C bs) h" and bs: "bs \<noteq> []" "\<forall>b\<in>set bs. snd b \<noteq> Listed" and t: "t \<noteq> Listed"
    and agree: "\<And>x. x \<noteq> hole_at C - 8 \<Longrightarrow> x \<noteq> hole_at C + span bs - 16 \<Longrightarrow> m' x = mem h x"
    and tags: "m' (hole_at C - 8) = Some (tag_of (span bs) t)"
      "m' (hole_at C + span bs - 16) = Some (tag_of (span bs) t)"
  shows "heap_ok (fill C [(span bs, t)]) (h\<lparr>mem := m', g_stats := stats_of (fill C [(span bs, t)])\<rparr>)"
    "keeps (payloads (outside C (span bs))) h (h\<lparr>mem := m'\<rparr>)"
proof -
  note h = heap_okD [OF inv]
  note hole = hole_ok [OF h(1)]
  obtain b bs' where "bs = b # bs'" using bs(1) by (cases bs) auto
  then have S: "32 \<le> span bs" using hole(3) by (auto simp: block_ok_def)
  have m: "mapped (mem h) (hole_at C - 8) (hole_at C + span bs - 8)" by (rule hole_mapped [OF inv])
  have "m' x \<noteq> None" if "hole_at C \<le> x" "x < hole_at C + span bs - 16" "8 dvd x" for x
    using agree [of x] mapped_word [OF m, of x] that tags by (cases "x = hole_at C - 8") auto
  then have "tagged m' (hole_at C, span bs, t)" using tags by (simp add: tagged_def mapped_def)
  moreover have "m' x = mem h x" if "x < hole_at C - 8 \<or> hole_at C + span bs - 8 \<le> x" for x
    by (rule agree) (use that S hole(2) in auto)
  moreover have "block_ok (span bs, t)" using S dvd_span [OF hole(3)] by (simp add: block_ok_def)
  ultimately show "heap_ok (fill C [(span bs, t)]) (h\<lparr>mem := m', g_stats := stats_of (fill C [(span bs, t)])\<rparr>)"
    "keeps (payloads (outside C (span bs))) h (h\<lparr>mem := m'\<rparr>)"
    using bs(2) t retag [OF inv, of "[(span bs, t)]" m'] by simp_all
qed

lemma stats_loose:
  assumes "span bs' = span bs" "\<forall>b\<in>set bs \<union> set bs'. snd b = Loose"
  shows "stats_of (fill C bs') = stats_of (fill C bs)"
proof -
  have zero: "\<forall>b\<in>set cs. snd b = Loose \<Longrightarrow> t \<noteq> Loose \<Longrightarrow> run_sum t cs = 0 \<and> run_count t cs = 0" for cs t
    by (induction cs) auto
  show ?thesis using assms(2) by (simp add: stats_fill [OF assms(1)] zero)
qed

section \<open>The neighbours of a block\<close>

text \<open>Narrowing the focus to a part of the run.\<close>

definition inner :: "hole \<Rightarrow> blocks \<Rightarrow> blocks \<Rightarrow> hole" where
  "inner C xs ys = C\<lparr>left := left C @ xs, right := ys @ right C\<rparr>"

lemma fill_inner: "fill (inner C xs ys) bs = fill C (xs @ bs @ ys)"
  by (simp add: inner_def fill_def)

lemma inner_simps [simp]: "hole_at (inner C xs ys) = hole_at C + span xs"
  "left (inner C xs ys) = left C @ xs" "right (inner C xs ys) = ys @ right C" "base (inner C xs ys) = base C"
  by (simp_all add: inner_def hole_at_def)

lemma payloads_inner:
  "payloads (outside (inner C xs ys) k) = payloads (outside C (span xs + k + span ys)) \<union>
     payloads (blocks_at (hole_at C) xs) \<union> payloads (blocks_at (hole_at C + span xs + k) ys)"
  by (auto simp: outside_def inner_def hole_at_def algebra_simps)

definition prev_used :: "hole \<Rightarrow> bool" where
  "prev_used C \<longleftrightarrow> left C = [] \<or> snd (last (left C)) = Used"

definition next_used :: "hole \<Rightarrow> bool" where
  "next_used C \<longleftrightarrow> right C = [] \<or> snd (hd (right C)) = Used"

definition prev_addr :: "hole \<Rightarrow> nat" where
  "prev_addr C = hole_at C - (if left C = [] then 8 else fst (last (left C)))"

lemma prev_reads:
  assumes inv: "heap_ok (fill C bs) h"
  shows "prev_blkp h (hole_at C) = Some (prev_addr C)" "ftrp h (prev_addr C) = Some (hole_at C - 16)"
    "blk_alloc h (hole_at C - 16) = Some (if prev_used C then 1 else 0)"
proof -
  note h = heap_okD [OF inv]
  note hole = hole_ok [OF h(1)]
  have "prev_blkp h (hole_at C) = Some (prev_addr C) \<and> ftrp h (prev_addr C) = Some (hole_at C - 16) \<and>
    blk_alloc h (hole_at C - 16) = Some (if prev_used C then 1 else 0)"
  proof (cases "left C" rule: rev_cases)
    case Nil
    then have "hole_at C - 16 = base C + 16" by (simp add: hole_at_def)
    then have "mem h (hole_at C - 16) = Some (tag_of 8 Used)"
      using h(2) by (simp only: mem_inv_fill fenced_def fence_tags fst_conv)
    then show ?thesis using Nil hole(2)
      by (simp add: prev_blkp_def ftrp_def hdrp_def WSIZE_def DSIZE_def blk_size_tag blk_alloc_tag prev_addr_def prev_used_def)
  next
    case (snoc xs b)
    obtain s t where b: "b = (s, t)" by fastforce
    have "(hole_at C - s, s, t) \<in> layout_blocks (fill C bs)"
      using snoc b by (simp add: layout_blocks_fill outside_def hole_at_def)
    note r = block_reads [OF h(1,2) this] and ok = layout_block_ok [OF h(1) this]
    have "hole_at C - s + s = hole_at C" using ok by linarith
    then show ?thesis using r snoc b ok
      by (simp add: prev_blkp_def DSIZE_def prev_addr_def prev_used_def)
  qed
  then show "prev_blkp h (hole_at C) = Some (prev_addr C)" "ftrp h (prev_addr C) = Some (hole_at C - 16)"
    "blk_alloc h (hole_at C - 16) = Some (if prev_used C then 1 else 0)" by auto
qed

lemma next_reads:
  assumes inv: "heap_ok (fill C bs) h"
  shows "blk_alloc h (hdrp (hole_at C + span bs)) = Some (if next_used C then 1 else 0)"
proof -
  note h = heap_okD [OF inv]
  show ?thesis
  proof (cases "right C")
    case Nil
    then have "mem h (hole_at C + span bs - 8) = Some (tag_of 0 Used)"
      using h(2) by (simp add: mem_inv_fill fenced_def hole_at_def chunk_size_def fence_tags algebra_simps)
    then show ?thesis using Nil by (simp add: hdrp_def WSIZE_def blk_alloc_tag next_used_def)
  next
    case (Cons b ys)
    obtain s t where b: "b = (s, t)" by fastforce
    have "(hole_at C + span bs, s, t) \<in> layout_blocks (fill C bs)"
      using Cons b by (simp add: layout_blocks_fill outside_def)
    from block_reads(2) [OF h(1,2) this] show ?thesis using Cons b by (simp add: next_used_def)
  qed
qed

lemma absorb_ok:
  assumes inv: "heap_ok (fill C [(s, Listed)]) h"
  shows "\<exists>h'. absorb (hole_at C) h = Some h' \<and> heap_ok (fill C [(s, Loose)]) h' \<and>
    keeps (live (fill C [(s, Listed)])) h h'"
proof -
  obtain F where F: "heap_inv (fill C [(s, Listed)]) F h" using inv by (auto simp: heap_ok_def)
  have "blk_size h (hdrp (hole_at C)) = Some (word_of_nat s)"
    by (rule block_reads(1) [OF heap_okD(1,2) [OF inv] hole_block])
  with list_remove_ok [OF F] show ?thesis
    by (fastforce simp: absorb_def heap_ok_def sub_free_def)
qed

end
