(* ===== verification/Balloc_Coalesce.thy ===== *)
theory Balloc_Coalesce
  imports Balloc_Free
begin

text \<open>
  \<open>coalesce\<close>: the four cases of the free neighbours of a block that has just been freed, and
  \<open>bfree\<close> on the invariant.
\<close>

section \<open>The four cases\<close>

lemma pack_sizes: "pack (word_of_nat a + word_of_nat b) 0 = tag_of (a + b) Loose"
  "pack (word_of_nat a) 0 = tag_of a Loose" "pack (word_of_nat a) 1 = tag_of a Used"
  by (simp_all add: tag_of_def)

lemma blocks_fill2:
  "(hole_at D, s, t) \<in> layout_blocks (fill D ((s, t) # bs))"
  "(hole_at D + s, s', t') \<in> layout_blocks (fill D ((s, t) # (s', t') # bs))"
  "(hole_at D + s + s', s'', t'') \<in> layout_blocks (fill D ((s, t) # (s', t') # (s'', t'') # bs))"
  by (simp_all add: layout_blocks_fill)

lemma block_tags:
  assumes "heap_ok L h" "(p, s, t) \<in> layout_blocks L"
  shows "mem h (p - 8) = Some (tag_of s t)" "mem h (p + s - 16) = Some (tag_of s t)"
  using mem_invD [OF heap_okD(2) [OF assms(1)] assms(2)] by (simp_all add: tagged_def)

lemmas heap_reads = block_reads [OF heap_okD(1,2)]

lemma heap_block_ok:
  "heap_ok L h \<Longrightarrow> (p, s, t) \<in> layout_blocks L \<Longrightarrow> 16 dvd p \<and> 16 dvd s \<and> 32 \<le> s \<and> 32 < p \<and> p + s \<le> 2 ^ 64"
  using layout_block_ok heap_okD(1) by blast

text \<open>Writing the tags of a merged block, in either order.\<close>

lemma merge_tags:
  assumes inv: "heap_ok (fill D bs) h" and bs: "bs \<noteq> []" "\<forall>b\<in>set bs. snd b = Loose"
  defines "v \<equiv> tag_of (span bs) Loose" and "a \<equiv> hole_at D - 8" and "b \<equiv> hole_at D + span bs - 16"
  shows "put_word a v h = Some (h\<lparr>mem := (mem h)(a \<mapsto> v)\<rparr>)"
    "put_word b v h = Some (h\<lparr>mem := (mem h)(b \<mapsto> v)\<rparr>)"
    "put_word b v (h\<lparr>mem := (mem h)(a \<mapsto> v)\<rparr>) = Some (h\<lparr>mem := (mem h)(a \<mapsto> v, b \<mapsto> v)\<rparr>)"
    "put_word a v (h\<lparr>mem := (mem h)(b \<mapsto> v)\<rparr>) = Some (h\<lparr>mem := (mem h)(a \<mapsto> v, b \<mapsto> v)\<rparr>)"
    "heap_ok (fill D [(span bs, Loose)]) (h\<lparr>mem := (mem h)(a \<mapsto> v, b \<mapsto> v)\<rparr>)"
    "keeps (payloads (outside D (span bs))) h (h\<lparr>mem := (mem h)(a \<mapsto> v, b \<mapsto> v)\<rparr>)"
proof -
  let ?m = "(mem h)(a \<mapsto> v, b \<mapsto> v)"
  note h = heap_okD [OF inv]
  note hole = hole_ok [OF h(1)]
  obtain b0 bs' where "bs = b0 # bs'" using bs(1) by (cases bs) auto
  then have S: "32 \<le> span bs" using hole(3) by (auto simp: block_ok_def)
  have dvd: "8 dvd hole_at D" "8 dvd span bs" using hole(1) dvd_span [OF hole(3)] dvd_16_8 by auto
  then have ab: "8 dvd a" "8 dvd b" "a \<noteq> b" using hole(2) S by (auto simp: a_def b_def intro!: dvd_diff_nat dvd_add)
  have "mem h a \<noteq> None" "mem h b \<noteq> None"
    by (rule mapped_word [OF hole_mapped [OF inv]]; use ab S hole(2) in \<open>auto simp: a_def b_def\<close>)+
  then show "put_word a v h = Some (h\<lparr>mem := (mem h)(a \<mapsto> v)\<rparr>)"
    "put_word b v h = Some (h\<lparr>mem := (mem h)(b \<mapsto> v)\<rparr>)"
    "put_word b v (h\<lparr>mem := (mem h)(a \<mapsto> v)\<rparr>) = Some (h\<lparr>mem := ?m\<rparr>)"
    "put_word a v (h\<lparr>mem := (mem h)(b \<mapsto> v)\<rparr>) = Some (h\<lparr>mem := ?m\<rparr>)"
    using ab(3) by (simp_all add: fun_upd_twist)
  have unlisted: "\<forall>x\<in>set bs. snd x \<noteq> Listed" using bs(2) by auto
  have r: "heap_ok (fill D [(span bs, Loose)]) (h\<lparr>mem := ?m, g_stats := stats_of (fill D [(span bs, Loose)])\<rparr>)"
    "keeps (payloads (outside D (span bs))) h (h\<lparr>mem := ?m\<rparr>)"
    by (rule retag_one [OF inv bs(1) unlisted]; simp add: a_def b_def v_def)+
  show "keeps (payloads (outside D (span bs))) h (h\<lparr>mem := ?m\<rparr>)" by (rule r(2))
  have "stats_of (fill D [(span bs, Loose)]) = g_stats h"
    unfolding h(3) by (rule stats_loose) (use bs(2) in auto)
  then show "heap_ok (fill D [(span bs, Loose)]) (h\<lparr>mem := ?m\<rparr>)" using r(1) by simp
qed

lemma coalesce_none:
  assumes inv: "heap_ok (fill D [(s, Loose)]) h" and used: "prev_used D" "next_used D"
  shows "coalesce (hole_at D) h = Some (hole_at D, h)"
  using prev_reads [OF inv] next_reads [OF inv] heap_reads [OF inv inv hole_block] used
  by (simp add: coalesce_def)

lemma coalesce_next:
  assumes inv: "heap_ok (fill D [(s, Loose), (s2, Listed)]) h" and used: "prev_used D"
  shows "\<exists>h'. coalesce (hole_at D) h = Some (hole_at D, h') \<and> heap_ok (fill D [(s + s2, Loose)]) h' \<and>
    keeps (payloads (outside D (s + s2))) h h'"
proof -
  let ?p = "hole_at D" and ?n = "hole_at D + s"
  note b = blocks_fill2(1) [of D s Loose "[(s2, Listed)]"] blocks_fill2(2) [of D s s2 Listed Loose "[]"]
  obtain h1 where h1: "absorb ?n h = Some h1" "heap_ok (fill D [(s, Loose), (s2, Loose)]) h1"
    "keeps (payloads (outside D (s + s2))) h h1"
    using absorb_ok [of "inner D [(s, Loose)] []" s2 h] inv
    by (auto simp: fill_inner live_fill payloads_inner keeps_def)
  let ?v = "tag_of (s + s2) Loose" and ?m = "(mem h1)(?p - 8 \<mapsto> tag_of (s + s2) Loose)"
  note put = merge_tags [OF h1(2), simplified]
  have n1: "blk_size h1 (hdrp ?n) = Some (word_of_nat s2)"
    by (rule heap_reads(1) [OF h1(2) h1(2)]) (rule blocks_fill2(2))
  have ok: "16 dvd s" "16 dvd s2" "?p + s + s2 \<le> 2 ^ 64" "32 < ?p"
    using heap_block_ok [OF inv b(1)] heap_block_ok [OF inv b(2)] by auto
  have "unat (word_of_nat s + word_of_nat s2 :: u64) = s + s2"
    using ok unat_of_nat_small [of "s + s2"] by simp
  then have f: "ftrp (h1\<lparr>mem := ?m\<rparr>) ?p = Some (?p + (s + s2) - 16)"
    using ok blk_size_tag [of "h1\<lparr>mem := ?m\<rparr>" "?p - 8" "s + s2" Loose] dvd_16_8 [of "s + s2"]
    by (simp add: ftrp_def hdrp_def WSIZE_def DSIZE_def)
  have "coalesce ?p h = Some (?p, h1\<lparr>mem := ?m(?p + (s + s2) - 16 \<mapsto> ?v)\<rparr>)"
    using prev_reads [OF inv] used heap_reads [OF inv inv b(1)] heap_reads [OF inv inv b(2)] h1(1) n1 put f
    by (simp add: coalesce_def pack_sizes hdrp_def WSIZE_def)
  then show ?thesis using put keeps_trans [OF h1(3)] by auto
qed

lemma coalesce_prev:
  assumes inv: "heap_ok (fill D [(s1, Listed), (s, Loose)]) h" and used: "next_used D"
  shows "\<exists>h'. coalesce (hole_at D + s1) h = Some (hole_at D, h') \<and> heap_ok (fill D [(s1 + s, Loose)]) h' \<and>
    keeps (payloads (outside D (s1 + s))) h h'"
proof -
  let ?q = "hole_at D" and ?p = "hole_at D + s1" and ?C = "inner D [(s1, Listed)] []"
  note b = blocks_fill2(1) [of D s1 Listed "[(s, Loose)]"] blocks_fill2(2) [of D s1 s Loose Listed "[]"]
  obtain h1 where h1: "absorb ?q h = Some h1" "heap_ok (fill D [(s1, Loose), (s, Loose)]) h1"
    "keeps (payloads (outside D (s1 + s))) h h1"
    using absorb_ok [of "inner D [] [(s, Loose)]" s1 h] inv
    by (auto simp: fill_inner live_fill payloads_inner keeps_def)
  let ?v = "tag_of (s1 + s) Loose"
  note put = merge_tags [OF h1(2), simplified]
  have r: "blk_size h1 (hdrp ?q) = Some (word_of_nat s1)" "ftrp h1 ?p = Some (?q + (s1 + s) - 16)"
    using heap_reads(1) [OF h1(2) h1(2) blocks_fill2(1)] heap_reads(3) [OF h1(2) h1(2) blocks_fill2(2)]
    by (simp_all add: add.assoc)
  have "heap_ok (fill ?C [(s, Loose)]) h" using inv by (simp add: fill_inner)
  moreover have "prev_addr ?C = ?q" "\<not> prev_used ?C" "next_used ?C"
    using used by (simp_all add: prev_addr_def prev_used_def next_used_def)
  ultimately have "prev_blkp h ?p = Some ?q" "ftrp h ?q = Some (?p - 16)" "blk_alloc h (?p - 16) = Some 0"
    "blk_alloc h (hdrp (?p + s)) = Some 1"
    using prev_reads [of ?C "[(s, Loose)]" h] next_reads [of ?C "[(s, Loose)]" h] by simp_all
  then have "coalesce ?p h = Some (?q, h1\<lparr>mem := (mem h1)(?q - 8 \<mapsto> ?v, ?q + (s1 + s) - 16 \<mapsto> ?v)\<rparr>)"
    using heap_reads(1,4) [OF inv inv b(2)] h1(1) r put
    by (simp add: coalesce_def pack_sizes(1) [of s s1] add.commute [of s s1] hdrp_def [of ?q] WSIZE_def)
  then show ?thesis using put keeps_trans [OF h1(3)] by auto
qed

lemma coalesce_both:
  assumes inv: "heap_ok (fill D [(s1, Listed), (s, Loose), (s2, Listed)]) h"
  shows "\<exists>h'. coalesce (hole_at D + s1) h = Some (hole_at D, h') \<and> heap_ok (fill D [(s1 + s + s2, Loose)]) h' \<and>
    keeps (payloads (outside D (s1 + s + s2))) h h'"
proof -
  let ?q = "hole_at D" and ?p = "hole_at D + s1" and ?n = "hole_at D + s1 + s"
  let ?C = "inner D [(s1, Listed)] [(s2, Listed)]"
  note b = blocks_fill2(2) [of D s1 s Loose Listed "[(s2, Listed)]"]
    blocks_fill2(3) [of D s1 s s2 Listed Listed Loose "[]"]
  obtain h1 where h1: "absorb ?q h = Some h1" "heap_ok (fill D [(s1, Loose), (s, Loose), (s2, Listed)]) h1"
    "keeps (payloads (outside D (s1 + s + s2))) h h1"
    using absorb_ok [of "inner D [] [(s, Loose), (s2, Listed)]" s1 h] inv
    by (auto simp: fill_inner live_fill payloads_inner keeps_def add.assoc)
  obtain h2 where h2: "absorb ?n h1 = Some h2" "heap_ok (fill D [(s1, Loose), (s, Loose), (s2, Loose)]) h2"
    "keeps (payloads (outside D (s1 + s + s2))) h1 h2"
    using absorb_ok [of "inner D [(s1, Loose), (s, Loose)] []" s2 h1] h1(2)
    by (auto simp: fill_inner live_fill payloads_inner keeps_def add.assoc)
  let ?S = "s1 + s + s2"
  let ?v = "tag_of ?S Loose" and ?m = "(mem h2)(?q - 8 \<mapsto> tag_of (s1 + s + s2) Loose)"
  note put = merge_tags [OF h2(2), simplified, folded add.assoc]
  note ok = heap_block_ok [OF h2(2) blocks_fill2(1)] heap_block_ok [OF h2(2) blocks_fill2(2)]
    heap_block_ok [OF h2(2) blocks_fill2(3)]
  have r: "blk_size h2 (hdrp ?q) = Some (word_of_nat s1)" "blk_size h2 (hdrp ?n) = Some (word_of_nat s2)"
    using heap_reads(1) [OF h2(2) h2(2) blocks_fill2(1)] heap_reads(1) [OF h2(2) h2(2) blocks_fill2(3)] by simp_all
  have "?n - 8 \<noteq> ?q - 8" using ok by linarith
  then have "blk_size (h2\<lparr>mem := ?m\<rparr>) (hdrp ?n) = blk_size h2 (hdrp ?n)"
    by (simp add: blk_size_def get_word_def hdrp_def WSIZE_def)
  then have f: "ftrp (h2\<lparr>mem := ?m\<rparr>) ?n = Some (?q + s1 + s + s2 - 16)"
    using r(2) ok by (simp add: ftrp_def DSIZE_def)
  have "heap_ok (fill ?C [(s, Loose)]) h" using inv by (simp add: fill_inner)
  moreover have "prev_addr ?C = ?q" "\<not> prev_used ?C" "\<not> next_used ?C"
    by (simp_all add: prev_addr_def prev_used_def next_used_def)
  ultimately have "prev_blkp h ?p = Some ?q" "ftrp h ?q = Some (?p - 16)" "blk_alloc h (?p - 16) = Some 0"
    "blk_alloc h (hdrp ?n) = Some 0"
    using prev_reads [of ?C "[(s, Loose)]" h] next_reads [of ?C "[(s, Loose)]" h] by simp_all
  moreover have "pack (word_of_nat s + (word_of_nat s1 + word_of_nat s2)) 0 = ?v"
    by (simp add: tag_of_def algebra_simps)
  ultimately have "coalesce ?p h = Some (?q, h2\<lparr>mem := ?m(?q + s1 + s + s2 - 16 \<mapsto> ?v)\<rparr>)"
    using heap_reads(1,4) [OF inv inv b(1)] h1(1) h2(1) r put f
    by (simp add: coalesce_def hdrp_def [of ?q] WSIZE_def)
  then show ?thesis using put keeps_trans [OF keeps_trans [OF h1(3) h2(3)]] by auto
qed

section \<open>Freeing a block\<close>

lemma merged_append:
  "merged (xs @ ys) \<longleftrightarrow> merged xs \<and> merged ys \<and>
     (xs = [] \<or> ys = [] \<or> snd (last xs) = Used \<or> snd (hd ys) = Used)"
proof (induction xs rule: merged.induct)
  case (2 b)
  then show ?case by (cases ys) auto
qed auto

lemma merged_Cons:
  "merged (b # bs) \<longleftrightarrow> snd b \<noteq> Loose \<and> merged bs \<and> (bs = [] \<or> snd b = Used \<or> snd (hd bs) = Used)"
  by (cases bs) auto

lemma settled_fill: "settled (fill C bs) \<longleftrightarrow> settled (before C @ after C) \<and> merged (left C @ bs @ right C)"
  by (auto simp: settled_def fill_def)

lemma merged_status: "merged xs \<Longrightarrow> b \<in> set xs \<Longrightarrow> snd b \<noteq> Loose"
  by (induction xs rule: merged.induct) auto

lemma settled_used:
  "settled (fill C [(s, Used)]) \<longleftrightarrow> settled (before C @ after C) \<and> merged (left C) \<and> merged (right C)"
  by (auto simp: settled_fill merged_append merged_Cons)

lemma settled_listed:
  "settled (fill C [(s, Listed)]) \<longleftrightarrow> settled (fill C [(s, Used)]) \<and> prev_used C \<and> next_used C"
  by (auto simp: settled_fill merged_append merged_Cons prev_used_def next_used_def)

text \<open>The free neighbours of a block, and the focus without them.\<close>

definition free_run :: "blocks \<Rightarrow> bool" where
  "free_run bs \<longleftrightarrow> bs = [] \<or> (\<exists>s. bs = [(s, Listed)])"

lemma not_used_split:
  assumes "merged bs" "bs \<noteq> []" "snd (last bs) \<noteq> Used"
  shows "\<exists>xs s. bs = xs @ [(s, Listed)] \<and> merged xs \<and> (xs = [] \<or> snd (last xs) = Used)"
proof -
  obtain xs b where bs: "bs = xs @ [b]" using assms(2) by (cases bs rule: rev_cases) auto
  moreover from bs have "snd b = Listed" using assms merged_status [of bs b] by (cases "snd b") auto
  ultimately show ?thesis using assms(1) by (cases b) (auto simp: merged_append)
qed

lemma not_used_split':
  assumes "merged bs" "bs \<noteq> []" "snd (hd bs) \<noteq> Used"
  shows "\<exists>xs s. bs = (s, Listed) # xs \<and> merged xs \<and> (xs = [] \<or> snd (hd xs) = Used)"
proof -
  obtain xs b where bs: "bs = [b] @ xs" using assms(2) by (cases bs) auto
  moreover from bs have "snd b = Listed" using assms merged_status [of bs b] by (cases "snd b") auto
  ultimately show ?thesis using assms(1) merged_append [of "[b]" xs] by (cases b) auto
qed

lemma settled_split:
  assumes "settled (fill C [(s, Used)])"
  shows "\<exists>D pre post. C = inner D pre post \<and> free_run pre \<and> free_run post \<and> prev_used D \<and> next_used D \<and>
    (\<forall>k. settled (fill D [(k, Used)]))"
proof -
  have m: "merged (left C)" "merged (right C)" "settled (before C @ after C)" using assms by (simp_all add: settled_used)
  have "\<exists>xs pre. left C = xs @ pre \<and> free_run pre \<and> merged xs \<and> (xs = [] \<or> snd (last xs) = Used)"
  proof (cases "prev_used C")
    case True
    then show ?thesis using m(1) by (intro exI [of _ "left C"] exI [of _ "[]"]) (auto simp: prev_used_def free_run_def)
  next
    case False
    then obtain xs s where "left C = xs @ [(s, Listed)]" "merged xs" "xs = [] \<or> snd (last xs) = Used"
      using not_used_split [OF m(1)] by (auto simp: prev_used_def)
    then show ?thesis by (intro exI [of _ xs] exI [of _ "[(s, Listed)]"]) (auto simp: free_run_def)
  qed
  then obtain xs pre where l: "left C = xs @ pre" "free_run pre" "merged xs" "xs = [] \<or> snd (last xs) = Used" by blast
  have "\<exists>post ys. right C = post @ ys \<and> free_run post \<and> merged ys \<and> (ys = [] \<or> snd (hd ys) = Used)"
  proof (cases "next_used C")
    case True
    then show ?thesis using m(2) by (intro exI [of _ "[]"] exI [of _ "right C"]) (auto simp: next_used_def free_run_def)
  next
    case False
    then obtain ys s where "right C = (s, Listed) # ys" "merged ys" "ys = [] \<or> snd (hd ys) = Used"
      using not_used_split' [OF m(2)] by (auto simp: next_used_def)
    then show ?thesis by (intro exI [of _ "[(s, Listed)]"] exI [of _ ys]) (auto simp: free_run_def)
  qed
  then obtain post ys where r: "right C = post @ ys" "free_run post" "merged ys" "ys = [] \<or> snd (hd ys) = Used" by blast
  have "C = inner (C\<lparr>left := xs, right := ys\<rparr>) pre post" using l(1) r(1) by (simp add: inner_def)
  then show ?thesis using l r m(3)
    by (intro exI [of _ "C\<lparr>left := xs, right := ys\<rparr>"] exI [of _ pre] exI [of _ post])
      (simp add: settled_used prev_used_def next_used_def)
qed

lemma coalesce_ok:
  assumes inv: "heap_ok (fill C [(s, Loose)]) h" and settled: "settled (fill C [(s, Used)])"
  shows "\<exists>D k h'. coalesce (hole_at C) h = Some (hole_at D, h') \<and> heap_ok (fill D [(k, Loose)]) h' \<and>
    settled (fill D [(k, Listed)]) \<and> payloads (outside D k) = payloads (outside C s) \<and>
    keeps (payloads (outside C s)) h h' \<and> hole_at D \<le> hole_at C \<and> hole_at C + s \<le> hole_at D + k"
proof -
  obtain D pre post where C: "C = inner D pre post" and runs: "free_run pre" "free_run post"
    and used: "prev_used D" "next_used D" and set: "settled (fill D [(k, Used)])" for k
    using settled_split [OF settled] by blast
  have inv': "heap_ok (fill D (pre @ [(s, Loose)] @ post)) h" using inv C by (simp add: fill_inner)
  let ?k = "span pre + s + span post"
  have pay: "payloads (outside C s) = payloads (outside D ?k)"
    using runs C by (auto simp: payloads_inner free_run_def)
  have "\<exists>h'. coalesce (hole_at D + span pre) h = Some (hole_at D, h') \<and> heap_ok (fill D [(?k, Loose)]) h' \<and>
      keeps (payloads (outside D ?k)) h h'"
  proof -
    consider "pre = []" "post = []" | s2 where "pre = []" "post = [(s2, Listed)]"
      | s1 where "pre = [(s1, Listed)]" "post = []" | s1 s2 where "pre = [(s1, Listed)]" "post = [(s2, Listed)]"
      using runs by (auto simp: free_run_def)
    then show ?thesis
    proof cases
      case 1
      then show ?thesis using inv' coalesce_none [OF _ used, of s h] by simp
    next
      case 2
      then show ?thesis using inv' coalesce_next [OF _ used(1), of s s2 h] by simp
    next
      case 3
      then show ?thesis using inv' coalesce_prev [OF _ used(2), of s1 s h] by simp
    next
      case 4
      then show ?thesis using inv' coalesce_both [of D s1 s s2 h] by simp
    qed
  qed
  then obtain h' where "coalesce (hole_at C) h = Some (hole_at D, h')" "heap_ok (fill D [(?k, Loose)]) h'"
    "keeps (payloads (outside C s)) h h'"
    using C pay by auto
  moreover have "settled (fill D [(?k, Listed)])" using set used by (simp add: settled_listed)
  moreover have "hole_at D \<le> hole_at C" "hole_at C + s \<le> hole_at D + ?k" using C by auto
  ultimately show ?thesis using pay by metis
qed

text \<open>Listing a loose block, with the counters.\<close>

lemma list_insert_heap:
  assumes "heap_ok (fill C [(s, Loose)]) h"
  shows "\<exists>h'. list_insert (hole_at C) (word_of_nat s) h = Some h' \<and>
    heap_ok (fill C [(s, Listed)]) (add_free (word_of_nat s) h') \<and> keeps (live (fill C [(s, Loose)])) h h'"
  using assms list_insert_ok [of C s] unfolding heap_ok_def by metis

lemma keeps_stats [simp]: "keeps V h (add_free v h') = keeps V h h'" "keeps V h (sub_free v h') = keeps V h h'"
  "keeps V h (add_used v h') = keeps V h h'" "keeps V (sub_used v h) h' = keeps V h h'"
  "keeps V (sub_free v h) h' = keeps V h h'"
  by (simp_all add: add_free_def sub_free_def add_used_def sub_used_def)

lemma blk_size_stats [simp]: "blk_size (add_free v h) = blk_size h" "blk_size (sub_free v h) = blk_size h"
  "blk_size (add_used v h) = blk_size h" "blk_size (sub_used v h) = blk_size h"
  by (simp_all add: fun_eq_iff blk_size_def get_word_def add_free_def sub_free_def add_used_def sub_used_def)

text \<open>Writing both tags of a block that is on no list, when its status changes.\<close>

lemma put_tags:
  assumes inv: "heap_ok (fill C [(s, t)]) h" and t: "t \<noteq> Listed" "t' \<noteq> Listed" and mem: "mem h' = mem h"
  defines "p \<equiv> hole_at C" and "v \<equiv> tag_of s t'"
  defines "m \<equiv> (mem h)(p - 8 \<mapsto> v, p + s - 16 \<mapsto> v)"
  shows "do { h \<leftarrow> put_word (hdrp p) v h'; f \<leftarrow> ftrp h p; put_word f v h } = Some (h'\<lparr>mem := m\<rparr>)"
    "heap_ok (fill C [(s, t')]) (h\<lparr>mem := m, g_stats := stats_of (fill C [(s, t')])\<rparr>)"
    "keeps (payloads (outside C s)) h (h'\<lparr>mem := m\<rparr>)"
proof -
  note ok = heap_block_ok [OF inv hole_block] and tags = block_tags [OF inv hole_block]
  have m1: "mem h' (hole_at C - 8) \<noteq> None" using tags mem by simp
  have f: "ftrp (h'\<lparr>mem := (mem h)(p - 8 \<mapsto> v)\<rparr>) p = Some (p + s - 16)"
    using ok blk_size_tag [of "h'\<lparr>mem := (mem h)(p - 8 \<mapsto> v)\<rparr>" "p - 8" s t'] dvd_16_8 [of s]
    by (simp add: ftrp_def hdrp_def WSIZE_def DSIZE_def v_def)
  show "do { h \<leftarrow> put_word (hdrp p) v h'; f \<leftarrow> ftrp h p; put_word f v h } = Some (h'\<lparr>mem := m\<rparr>)"
    using m1 tags mem f by (simp add: hdrp_def WSIZE_def p_def m_def)
  have r: "heap_ok (fill C [(s, t')]) (h\<lparr>mem := m, g_stats := stats_of (fill C [(s, t')])\<rparr>)"
    "keeps (payloads (outside C s)) h (h\<lparr>mem := m\<rparr>)"
    using retag_one [OF inv, of t' m] t by (simp_all add: p_def v_def m_def)
  then show "heap_ok (fill C [(s, t')]) (h\<lparr>mem := m, g_stats := stats_of (fill C [(s, t')])\<rparr>)" by simp
  from r(2) show "keeps (payloads (outside C s)) h (h'\<lparr>mem := m\<rparr>)" by (simp add: keeps_def)
qed

lemma mark_free:
  assumes inv: "heap_ok (fill C [(s, Used)]) h"
  defines "p \<equiv> hole_at C" and "v \<equiv> pack (word_of_nat s) 0"
  shows "\<exists>h'. do { h \<leftarrow> put_word (hdrp p) v (sub_used (word_of_nat s) h); f \<leftarrow> ftrp h p; put_word f v h } = Some h' \<and>
    heap_ok (fill C [(s, Loose)]) h' \<and> keeps (payloads (outside C s)) h h'"
proof -
  let ?h = "sub_used (word_of_nat s) h" and ?v = "tag_of s Loose"
  let ?m = "(mem h)(p - 8 \<mapsto> ?v, p + s - 16 \<mapsto> ?v)"
  note ok = heap_block_ok [OF inv hole_block]
  have v: "v = ?v" by (simp add: v_def tag_of_def)
  have mem: "mem ?h = mem h" by (simp add: sub_used_def)
  note r = put_tags [OF inv _ _ mem, of Loose, simplified, folded p_def]
  have "?h\<lparr>mem := ?m\<rparr> = h\<lparr>mem := ?m, g_stats := stats_of (fill C [(s, Loose)])\<rparr>"
    using ok by (simp add: sub_used_def stats_relabel(3) heap_okD(3) [OF inv] of_nat_diff DSIZE_def)
  then have "heap_ok (fill C [(s, Loose)]) (?h\<lparr>mem := ?m\<rparr>)" using r(2) by (simp only:)
  then show ?thesis using r(1,3) v by auto
qed

lemma bfree_ok:
  assumes inv: "heap_ok L h" "settled L" and b: "(p, s, Used) \<in> layout_blocks L"
  shows "\<exists>L' h'. bfree p h = Some h' \<and> heap_ok L' h' \<and> settled L' \<and> live L' = live L - {(p, s - 16)} \<and>
    keeps (live L') h h' \<and> (\<exists>q k. (q, k, Listed) \<in> layout_blocks L' \<and> q \<le> p \<and> p + s \<le> q + k)"
proof -
  obtain C where C: "L = fill C [(s, Used)]" "hole_at C = p" using block_focus [OF b] by blast
  note ok = heap_block_ok [OF inv(1) b]
  have size: "blk_size h (hdrp p) = Some (word_of_nat s)" by (rule heap_reads(1) [OF inv(1) inv(1) b])
  have inv': "heap_ok (fill C [(s, Used)]) h" using inv(1) C by simp
  obtain h1 where h1: "do { h \<leftarrow> put_word (hdrp p) (pack (word_of_nat s) 0) (sub_used (word_of_nat s) h);
      f \<leftarrow> ftrp h p; put_word f (pack (word_of_nat s) 0) h } = Some h1"
    "heap_ok (fill C [(s, Loose)]) h1" "keeps (payloads (outside C s)) h h1"
    using mark_free [OF inv'] C(2) by auto
  obtain D k h2 where h2: "coalesce p h1 = Some (hole_at D, h2)" "heap_ok (fill D [(k, Loose)]) h2"
    "settled (fill D [(k, Listed)])" "payloads (outside D k) = payloads (outside C s)"
    "keeps (payloads (outside C s)) h1 h2" "hole_at D \<le> p" "p + s \<le> hole_at D + k"
    using coalesce_ok [OF h1(2)] inv(2) C by auto
  have size2: "blk_size h2 (hdrp (hole_at D)) = Some (word_of_nat k)"
    by (rule heap_reads(1) [OF h2(2) h2(2) hole_block])
  obtain h3 where h3: "list_insert (hole_at D) (word_of_nat k) h2 = Some h3"
    "heap_ok (fill D [(k, Listed)]) (add_free (word_of_nat k) h3)" "keeps (live (fill D [(k, Loose)])) h2 h3"
    using list_insert_heap [OF h2(2)] by blast
  have size3: "blk_size h3 (hdrp (hole_at D)) = Some (word_of_nat k)"
    using heap_reads(1) [OF h3(2) h3(2) hole_block] by simp
  have "bfree p h = Some (add_free (word_of_nat k) h3)"
    using size h1(1) h2(1) size2 h3(1) size3 ok
    by (auto simp: bfree_def Let_def bind_eq_Some_conv)
  moreover have live: "live (fill D [(k, Listed)]) = live L - {(p, s - 16)}"
  proof -
    have "(p, n) \<notin> payloads (outside C s)" for n
      using outside_not_hole [OF heap_okD(1) [OF inv']] C(2) by (auto simp: payloads_def)
    then show ?thesis using h2(4) C by (simp add: live_fill)
  qed
  moreover have "keeps (live (fill D [(k, Listed)])) h (add_free (word_of_nat k) h3)"
    using keeps_trans [OF keeps_trans [OF h1(3) h2(5)]] h3(3) h2(4) by (simp add: live_fill)
  ultimately show ?thesis using h3(2) h2(3,6,7) by (metis hole_block)
qed

end
