(* ===== verification/Words.thy ===== *)
theory Words
  imports Prelude
begin

text \<open>
  Rounding of 64-bit words to a multiple of a power of two, as the allocator and the coroutines do it,
  and the addition and subtraction of offsets.
\<close>

section \<open>Offsets\<close>

lemma unat_word_of_nat: "n < 2 ^ 64 \<Longrightarrow> unat (word_of_nat n :: u64) = n"
  by (simp add: unsigned_of_nat take_bit_nat_eq_self)

lemma unat_sub_num:
  fixes s :: u64
  assumes "n \<le> unat s" "n < 2 ^ 64"
  shows "unat (s - word_of_nat n) = unat s - n"
  using assms by (simp add: unat_sub word_le_nat_alt unsigned_of_nat take_bit_nat_eq_self)

lemma unat_add_num:
  fixes s :: u64
  assumes "unat s + n < 2 ^ 64"
  shows "unat (s + word_of_nat n) = unat s + n"
proof -
  have "unat (word_of_nat n :: u64) = n" using assms by (simp add: unsigned_of_nat take_bit_nat_eq_self)
  then show ?thesis using assms by (simp add: unat_plus_if')
qed

lemma unat_sub_8: "8 \<le> unat s \<Longrightarrow> unat (s - 8) = unat s - 8" for s :: u64
  using unat_sub_num [of 8 s] by simp

lemma unat_add_8: "unat s + 8 < 2 ^ 64 \<Longrightarrow> unat (s + 8) = unat s + 8" for s :: u64
  using unat_add_num [of s 8] by simp

lemma unat_sub_steps:
  fixes s :: u64
  assumes "56 \<le> unat s"
  shows "unat (s - 8) = unat s - 8" "unat (s - 16) = unat s - 16" "unat (s - 24) = unat s - 24"
    "unat (s - 32) = unat s - 32" "unat (s - 40) = unat s - 40" "unat (s - 48) = unat s - 48"
    "unat (s - 56) = unat s - 56"
  using assms unat_sub_num [of 8 s] unat_sub_num [of 16 s] unat_sub_num [of 24 s] unat_sub_num [of 32 s]
    unat_sub_num [of 40 s] unat_sub_num [of 48 s] unat_sub_num [of 56 s] by simp_all

section \<open>Rounding up\<close>

lemma and_not_sub: "(x :: u64) AND NOT m = x - (x AND m)"
proof -
  have "x - (x AND m) = x AND NOT (x AND m)"
    by (rule disjunctive_diff) (simp add: bit_and_iff)
  also have "\<dots> = x AND NOT m"
    by (rule bit_eqI) (auto simp: bit_and_iff bit_or_iff bit_not_iff)
  finally show ?thesis by simp
qed

lemma unat_and_not: "unat ((x :: u64) AND NOT m) = unat x - unat (x AND m)" "unat (x AND m) \<le> unat m"
  "unat (x AND m) \<le> unat x"
proof -
  show "unat (x AND m) \<le> unat m" "unat (x AND m) \<le> unat x"
    by (simp_all flip: word_le_nat_alt add: word_and_le1 word_and_le2)
  then show "unat (x AND NOT m) = unat x - unat (x AND m)"
    by (simp only: and_not_sub) (simp add: unat_sub word_le_nat_alt)
qed

lemma ones_below:
  assumes "2 ^ k dvd (a :: nat)" "0 < a" "i < k"
  shows "bit (a - 1) i"
proof -
  obtain q where q: "a = 2 ^ k * q" "0 < q" using assms(1,2) by (auto elim!: dvdE)
  have "a - 1 = 2 ^ k * (q - 1) + (2 ^ k - 1)"
    using q by (simp add: algebra_simps)
  moreover have "(2 ^ k * (q - 1) + (2 ^ k - 1)) mod 2 ^ k = (2 ^ k - 1 :: nat)"
    by (simp only: mod_mult_self4) simp
  ultimately have "(a - 1) mod 2 ^ k = 2 ^ k - 1" by (simp only:)
  then have "take_bit k (a - 1) = mask k" by (simp add: take_bit_eq_mod mask_eq_exp_minus_1)
  moreover have "bit (take_bit k (a - 1)) i = bit (a - 1) i" using assms(3) by (simp add: bit_take_bit_iff)
  ultimately show ?thesis using assms(3) by (simp add: bit_mask_iff)
qed

lemma round_up_nat:
  fixes n a :: u64
  assumes "unat n + unat a < 2 ^ 64" "0 < unat a"
  shows "unat n \<le> unat ((n + a - 1) AND NOT (a - 1))" "unat ((n + a - 1) AND NOT (a - 1)) < unat n + unat a"
    "2 ^ k dvd unat a \<Longrightarrow> 2 ^ k dvd unat ((n + a - 1) AND NOT (a - 1))"
proof -
  have sum: "unat (n + a) = unat n + unat a" using assms(1) by (simp add: unat_plus_if')
  have "1 \<le> a" using assms(2) by (simp add: word_le_nat_alt)
  then have m: "unat (a - 1) = unat a - 1" by (simp add: unat_sub word_le_nat_alt)
  have "1 \<le> n + a" using assms(2) sum by (simp add: word_le_nat_alt)
  then have x: "unat (n + a - 1) = unat n + unat a - 1" using sum by (simp add: unat_sub word_le_nat_alt)
  have u: "unat ((n + a - 1) AND NOT (a - 1)) = unat n + unat a - 1 - unat ((n + a - 1) AND (a - 1))"
    "unat ((n + a - 1) AND (a - 1)) \<le> unat a - 1"
    using unat_and_not [of "n + a - 1" "a - 1"] x m by simp_all
  then show "unat n \<le> unat ((n + a - 1) AND NOT (a - 1))" "unat ((n + a - 1) AND NOT (a - 1)) < unat n + unat a"
    using assms(2) by auto
  show "2 ^ k dvd unat ((n + a - 1) AND NOT (a - 1))" if k: "2 ^ k dvd unat a"
  proof -
    have "bit (a - 1) i" if "i < k" for i
      using ones_below [OF k assms(2) that] m by (metis bit_unsigned_iff)
    then have "\<not> bit (unat ((n + a - 1) AND NOT (a - 1))) i" if "i < k" for i
      using that by (auto simp: bit_unsigned_iff bit_and_iff bit_not_iff)
    then have "take_bit k (unat ((n + a - 1) AND NOT (a - 1))) = 0"
      by (intro bit_eqI) (auto simp: bit_take_bit_iff)
    then show ?thesis by (simp add: take_bit_eq_mod dvd_eq_mod_eq_0)
  qed
qed

end
