(* ===== verification/Balloc_Size.thy ===== *)
theory Balloc_Size
  imports Balloc Words
begin

text \<open>
  The arithmetic of the allocator: \<open>ALIGN_UP\<close>, the block size of a request, the length of a chunk
  and the size classes, with the ranges in which nothing wraps.
\<close>

section \<open>Rounding up\<close>

lemma align_up_nat:
  assumes "unat n + unat a < 2 ^ 64" "0 < unat a"
  shows "unat n \<le> unat (align_up n a)" "unat (align_up n a) < unat n + unat a"
    "2 ^ k dvd unat a \<Longrightarrow> 2 ^ k dvd unat (align_up n a)"
  unfolding align_up_def using round_up_nat [OF assms] by blast+

section \<open>Requests\<close>

lemma request_size_ok:
  assumes "unat sz \<le> 2 ^ 62"
  shows "16 dvd unat (request_size sz)" "32 \<le> unat (request_size sz)" "unat sz + 16 \<le> unat (request_size sz)"
    "unat (request_size sz) \<le> max 32 (unat sz + 31)" "unat (request_size sz) \<le> 2 ^ 62 + 32"
proof -
  let ?a = "align_up (sz + 16) 16"
  have n: "unat (sz + 16) = unat sz + 16" using assms by (simp add: unat_plus_if')
  have a: "unat sz + 16 \<le> unat ?a" "unat ?a \<le> unat sz + 31" "16 dvd unat ?a"
    using align_up_nat [of "sz + 16" 16] align_up_nat(3) [of "sz + 16" 16 4] n assms by auto
  have "request_size sz = (if ?a < 32 then 32 else ?a)"
    by (simp add: request_size_def DSIZE_def MIN_BLOCK_def Let_def)
  moreover have "?a < 32 \<longleftrightarrow> unat ?a < 32" by (simp add: word_less_nat_alt)
  ultimately show "16 dvd unat (request_size sz)" "32 \<le> unat (request_size sz)" "unat sz + 16 \<le> unat (request_size sz)"
    "unat (request_size sz) \<le> max 32 (unat sz + 31)" "unat (request_size sz) \<le> 2 ^ 62 + 32"
    using a assms by auto
qed

section \<open>Chunks\<close>

lemma grow_total_ok:
  assumes "unat need \<le> 2 ^ 62 + 32"
  shows "4096 dvd unat (grow_total need)" "unat need + 56 \<le> unat (grow_total need)"
proof -
  let ?n = "need + 16 + 3 * 8 + 16" and ?a = "if CHUNK > need then CHUNK else align_up need 4096"
  have n: "unat ?n = unat need + 56" using assms by (simp add: unat_plus_if')
  have chunk: "CHUNK = 1048576" by (simp add: CHUNK_def push_bit_eq_mult)
  have al: "unat need \<le> unat (align_up need 4096)" "unat (align_up need 4096) < unat need + 4096"
    "4096 dvd unat (align_up need 4096)"
    using align_up_nat [of need 4096] align_up_nat(3) [of need 4096 12] assms by auto
  have "unat ?a \<le> 2 ^ 62 + 2 ^ 21 \<and> 0 < unat ?a \<and> 2 ^ 12 dvd unat ?a"
  proof (cases "CHUNK > need")
    case True
    then show ?thesis by (simp add: chunk)
  next
    case False
    then have "1048576 \<le> unat need" by (simp add: chunk word_less_nat_alt)
    then show ?thesis using False al assms by simp
  qed
  then have a: "unat ?n + unat ?a < 2 ^ 64" "0 < unat ?a" "2 ^ 12 dvd unat ?a" using n assms by auto
  have g: "grow_total need = align_up ?n ?a"
    by (simp add: grow_total_def sizeof_chunk_def WSIZE_def DSIZE_def)
  show "4096 dvd unat (grow_total need)" using align_up_nat(3) [OF a(1,2), of 12] a(3) by (simp only: g) simp
  show "unat need + 56 \<le> unat (grow_total need)" using align_up_nat(1) [OF a(1,2)] n by (simp only: g)
qed

lemma first_payload_ok:
  assumes "16 dvd r" "r + 48 < 2 ^ 64"
  shows "first_payload_of r = r + 32"
proof -
  let ?w = "word_of_nat (r + 32) :: u64"
  have w: "unat ?w = r + 32" by (simp only: unat_of_nat) (use assms(2) in simp)
  have "r + 32 \<le> unat (align_up ?w 16)" "unat (align_up ?w 16) < r + 48" "16 dvd unat (align_up ?w 16)"
    using align_up_nat [of ?w 16] align_up_nat(3) [of ?w 16 4] w assms(2) by auto
  then have "unat (align_up ?w 16) = r + 32" using assms(1) by presburger
  then show ?thesis by (simp add: first_payload_of_def sizeof_chunk_def WSIZE_def DSIZE_def add.assoc)
qed

section \<open>Size classes\<close>

lemma drop_bit_mono: "v \<le> w \<Longrightarrow> drop_bit n v \<le> drop_bit n (w :: u64)"
  by (simp only: word_le_nat_alt unat_drop_bit_eq) (simp only: drop_bit_eq_div div_le_mono)

lemma size_class_loop_mono: "v \<le> w \<Longrightarrow> size_class_loop v c \<le> size_class_loop w c"
proof (induction v c arbitrary: w rule: size_class_loop.induct)
  case (1 v c)
  have half: "drop_bit 1 v \<le> drop_bit 1 w"
    using 1(2) by (rule drop_bit_mono)
  have up: "c \<le> size_class_loop u c" for u :: u64 and c
  proof (induction u c rule: size_class_loop.induct)
    case (1 u c)
    then show ?case by (subst size_class_loop.simps) auto
  qed
  show ?case
  proof (cases "v \<noteq> 0 \<and> c < NCLASS - 1")
    case True
    then have "w \<noteq> 0" using 1(2) by auto
    then show ?thesis using 1(1) [OF True half] True
      by (subst (1 2) size_class_loop.simps) simp
  next
    case False
    then show ?thesis using up [of c w] by (subst size_class_loop.simps) auto
  qed
qed

lemma size_class_mono: "v \<le> w \<Longrightarrow> size_class v \<le> size_class w"
  unfolding size_class_def by (intro size_class_loop_mono drop_bit_mono)

end
