(* ===== verification/Balloc_Grow.thy ===== *)
theory Balloc_Grow
  imports Balloc_Coalesce Balloc_Size
begin

text \<open>
  Growing the heap: a fresh region becomes a chunk with one free block between its two fences.
\<close>

text \<open>What the code relies on when \<open>mmap\<close> succeeds: a fresh region of whole pages.\<close>

definition mmap_ok :: "(u64 \<Rightarrow> nat option) \<Rightarrow> balloc_heap \<Rightarrow> bool" where
  "mmap_ok mmap h \<longleftrightarrow> (\<forall>len r. mmap len = Some r \<longrightarrow> 0 < len \<and> 0 < r \<and> 4096 dvd r \<and>
     r + unat len \<le> 2 ^ 64 \<and> (\<forall>a. r \<le> a \<longrightarrow> a < r + unat len \<longrightarrow> mem h a = None))"

lemma mmap_okD:
  assumes "mmap_ok mmap h" "mmap len = Some r"
  shows "0 < len" "0 < r" "4096 dvd r" "r + unat len \<le> 2 ^ 64" "r \<le> a \<Longrightarrow> a < r + unat len \<Longrightarrow> mem h a = None"
  using assms by (auto simp: mmap_ok_def)

section \<open>Old chunks and the fresh region\<close>

lemma chunk_heads: "chunk_list m p L \<Longrightarrow> c \<in> set L \<Longrightarrow> m (fst c) \<noteq> None"
  by (induction L arbitrary: p) auto

lemma chunk_mapped:
  assumes inv: "heap_ok L h" and c: "c \<in> set L"
  shows "mapped (mem h) (fst c) (fst c + chunk_size c)"
proof -
  note h = heap_okD [OF inv]
  have ok: "chunk_ok c" by (rule wf_chunkD [OF h(1) c])
  then have dvd: "16 dvd fst c" "16 dvd span (snd c)" using dvd_span by (auto simp: chunk_ok_def)
  have f: "fenced (mem h) c" using h(2) c by (simp add: mem_inv_def)
  have head: "mem h (fst c) \<noteq> None" using h(2) chunk_heads [OF _ c, of "mem h" "g_chunks h"] by (simp add: mem_inv_def)
  have "mapped (mem h) (fst c + 32 - 8) (fst c + 32 + span (snd c) - 8)"
  proof (rule run_mapped)
    show "\<forall>b\<in>blocks_at (fst c + 32) (snd c). tagged (mem h) b"
      using h(2) c by (auto simp: mem_inv_def layout_blocks_def chunk_blocks_def)
  qed (use ok in \<open>auto simp: chunk_ok_def\<close>)
  then have body: "mapped (mem h) (fst c + 24) (fst c + chunk_size c - 8)" by (simp add: chunk_size_def add.commute add.left_commute)
  show ?thesis unfolding mapped_def
  proof (intro allI impI)
    fix x
    assume x: "fst c \<le> x" "x < fst c + chunk_size c" "8 dvd x"
    obtain i j k where ijk: "x = 8 * i" "fst c = 16 * j" "span (snd c) = 16 * k" using x(3) dvd by (auto elim!: dvdE)
    then have "2 * j \<le> i" "i < 2 * j + 2 * k + 4" using x(1,2) by (auto simp: chunk_size_def)
    then consider "i = 2 * j" | "i = 2 * j + 1" | "i = 2 * j + 2" | "2 * j + 3 \<le> i" "i < 2 * j + 2 * k + 3" | "i = 2 * j + 2 * k + 3"
      by linarith
    then show "mem h x \<noteq> None"
    proof cases
      case 4
      then show ?thesis using mapped_word [OF body, of x] x(3) ijk by (simp add: chunk_size_def)
    next
      case 5
      then have "x = fst c + chunk_size c - 8" using ijk by (simp add: chunk_size_def)
      then show ?thesis using f by (simp add: fenced_def)
    next
      case 2
      then have "x = fst c + 8" using ijk by simp
      then show ?thesis using f by (simp add: fenced_def)
    next
      case 3
      then have "x = fst c + 16" using ijk by simp
      then show ?thesis using f by (simp add: fenced_def)
    qed (use head ijk in auto)
  qed
qed

lemma fresh_apart:
  assumes inv: "heap_ok L h" and c: "c \<in> set L" and r: "8 dvd r" "0 < len"
    and fresh: "\<And>a. r \<le> a \<Longrightarrow> a < r + len \<Longrightarrow> mem h a = None"
  shows "r + len \<le> fst c \<or> fst c + chunk_size c \<le> r"
proof (rule ccontr)
  assume "\<not> ?thesis"
  then have o: "fst c < r + len" "r < fst c + chunk_size c" by auto
  let ?x = "max r (fst c)"
  have "16 dvd fst c" using wf_chunkD [OF heap_okD(1) [OF inv] c] by (simp add: chunk_ok_def)
  then have "8 dvd ?x" using r(1) dvd_16_8 by (auto simp: max_def)
  moreover have "fst c \<le> ?x" "?x < fst c + chunk_size c" using o by (auto simp: chunk_size_def)
  ultimately have "mem h ?x \<noteq> None" using mapped_word [OF chunk_mapped [OF inv c]] by blast
  moreover have "mem h ?x = None" by (rule fresh) (use o r(2) in auto)
  ultimately show False by simp
qed

section \<open>More memory\<close>

text \<open>The invariant of the old chunks survives when memory is added.\<close>

lemma mapped_mono: "m \<subseteq>\<^sub>m m' \<Longrightarrow> mapped m a b \<Longrightarrow> mapped m' a b"
  unfolding mapped_def map_le_def by (metis domIff)

lemma map_leD: "m \<subseteq>\<^sub>m m' \<Longrightarrow> m a = Some v \<Longrightarrow> m' a = Some v"
  unfolding map_le_def by (metis domI)

lemma chunk_list_mono: "m \<subseteq>\<^sub>m m' \<Longrightarrow> chunk_list m p L \<Longrightarrow> chunk_list m' p L"
  by (induction L arbitrary: p) (auto dest: map_leD)

lemma dseg_mono: "m \<subseteq>\<^sub>m m' \<Longrightarrow> dseg m q p ps e \<Longrightarrow> dseg m' q p ps e"
  by (induction ps arbitrary: q p) (auto dest: map_leD)

lemma tagged_mono: "m \<subseteq>\<^sub>m m' \<Longrightarrow> tagged m b \<Longrightarrow> tagged m' b"
  by (cases b) (auto simp: tagged_def dest: map_leD mapped_mono)

lemma fenced_mono: "m \<subseteq>\<^sub>m m' \<Longrightarrow> fenced m c \<Longrightarrow> fenced m' c"
  by (auto simp: fenced_def dest: map_leD)

lemma add_chunk:
  assumes inv: "heap_ok L h" and le: "mem h \<subseteq>\<^sub>m m'"
    and c: "chunk_ok (r, [(k, Loose)])" "\<And>c. c \<in> set L \<Longrightarrow> apart (r, [(k, Loose)]) c"
    and mem: "m' r = Some (word_of_nat (g_chunks h))" "fenced m' (r, [(k, Loose)])" "tagged m' (r + 32, k, Loose)"
  shows "heap_ok ((r, [(k, Loose)]) # L)
    (h\<lparr>mem := m', g_chunks := r, g_stats := stats_of ((r, [(k, Loose)]) # L)\<rparr>)"
proof -
  let ?L = "(r, [(k, Loose)]) # L"
  obtain F where F: "heap_inv L F h" using inv by (auto simp: heap_ok_def)
  then have wf: "wf_layout L" and mi: "mem_inv L (mem h) (g_chunks h)" and ci: "class_inv L F (mem h) (g_class h)"
    by (auto simp: heap_inv_def)
  have "wf_layout ?L" using wf c by (auto simp: wf_layout_def)
  moreover have "mem_inv ?L m' r"
  proof -
    have "g_chunks h < 2 ^ 64"
    proof (cases L)
      case Nil
      then show ?thesis using mi by (simp add: mem_inv_def)
    next
      case (Cons d M)
      then have "g_chunks h = fst d" "chunk_ok d" using mi wf by (auto simp: mem_inv_def wf_layout_def)
      then show ?thesis by (auto simp: chunk_ok_def chunk_size_def)
    qed
    then have "chunk_list m' r ?L" using mem(1) mi chunk_list_mono [OF le] by (simp add: mem_inv_def)
    then show ?thesis using mi mem(2,3) tagged_mono [OF le] fenced_mono [OF le]
      by (auto simp: mem_inv_def chunk_blocks_def)
  qed
  moreover have "class_inv ?L F m' (g_class h)"
  proof -
    have "listed ?L i = listed L i" for i by (simp add: listed_def chunk_blocks_def)
    then show ?thesis using ci dseg_mono [OF le] by (simp add: class_inv_def)
  qed
  ultimately show ?thesis unfolding heap_ok_def by (intro exI [of _ F]) (simp add: heap_inv_def)
qed

lemma stats_add_chunk:
  "stats_of ((r, [(k, Loose)]) # L) = (stats_of L)\<lparr>chunks := chunks (stats_of L) + 1,
     heap_bytes := heap_bytes (stats_of L) + word_of_nat (k + 32)\<rparr>"
  by (simp add: stats_of_def payload_sum_def block_count_def chunk_size_def algebra_simps)

section \<open>The chunk that \<open>grow\<close> lays out\<close>

lemma frame_words:
  assumes r: "4096 dvd r" "0 < r" and t: "4096 dvd t" "56 + 32 \<le> t" "r + t \<le> 2 ^ 64" and rr: "r + 48 < 2 ^ 64"
  shows "word_of_int (int (r + t - WSIZE) - int (first_payload_of r - WSIZE)) AND NOT 7 = (word_of_nat (t - 32) :: u64)"
proof -
  have fp: "first_payload_of r = r + 32"
    by (rule first_payload_ok) (use r(1) rr in \<open>auto intro: dvd_trans [of 16 4096]\<close>)
  have "int (r + t - WSIZE) - int (first_payload_of r - WSIZE) = int (t - 32)"
    using t(2) by (simp add: fp WSIZE_def of_nat_diff)
  then have w: "(word_of_int (int (r + t - WSIZE) - int (first_payload_of r - WSIZE)) :: u64) = tag_of (t - 32) Loose"
    by (simp add: tag_of_def pack_def)
  have "8 dvd t" using t(1) by (rule dvd_trans [rotated]) simp
  then have "8 dvd t - 32" by (intro dvd_diff_nat) simp_all
  from tag_size [OF this] show ?thesis by (simp only: w)
qed

lemma grow_ok:
  assumes inv: "heap_ok L h" and settled: "settled L" and os: "mmap_ok mmap h"
    and need: "unat need \<le> 2 ^ 62 + 32"
  shows "(mmap (grow_total need) = None \<and> grow mmap need h = Some (0, h)) \<or>
    (\<exists>r k h'. mmap (grow_total need) = Some r \<and> grow mmap need h = Some (r + 32, h') \<and>
      heap_ok ((r, [(k, Listed)]) # L) h' \<and> settled ((r, [(k, Listed)]) # L) \<and> keeps (live L) h h' \<and>
      unat need \<le> k \<and> 0 < r)"
proof (cases "mmap (grow_total need)")
  case None
  then show ?thesis by (simp add: grow_def Let_def)
next
  case (Some r)
  let ?t = "unat (grow_total need)" and ?w = "grow_total need"
  let ?k = "?t - 32"
  note m = mmap_okD [OF os Some]
  note t = grow_total_ok [OF need]
  have r16: "16 dvd r" "8 dvd r" using m(3) by (auto intro: dvd_trans [of _ 4096])
  have t16: "16 dvd ?t" "8 dvd ?t" using t(1) by (auto intro: dvd_trans [of _ 4096])
  have big: "4096 \<le> ?t" using t by (auto dest: dvd_imp_le)
  have rr: "r + 48 < 2 ^ 64" using m(4) big by linarith
  have k16: "16 dvd ?k" using t16(1) by (intro dvd_diff_nat) simp_all
  have tk: "tag_of ?k Loose = pack (word_of_nat ?k) 0" by (simp add: tag_of_def)
  have wk: "word_of_nat (?k + 32) = ?w" using big by simp
  have fp: "first_payload_of r = r + 32" by (rule first_payload_ok) (use r16 rr in auto)
  define m0 where "m0 = (\<lambda>a. if r \<le> a \<and> a < r + ?t \<and> 8 dvd a then Some 0 else mem h a)"
  define m' where "m' = m0(r + 8 \<mapsto> ?w, r \<mapsto> word_of_nat (g_chunks h), r + 16 \<mapsto> pack 8 1, r + 24 \<mapsto> tag_of ?k Loose,
    r + ?t - 16 \<mapsto> tag_of ?k Loose, r + ?t - 8 \<mapsto> pack 0 1)"
  define st where "st = (g_stats h)\<lparr>chunks := chunks (g_stats h) + 1, heap_bytes := heap_bytes (g_stats h) + ?w\<rparr>"
  let ?X = "h\<lparr>mem := m', g_chunks := r, g_stats := st\<rparr>"
  have m0: "m0 a \<noteq> None" if "r \<le> a" "a < r + ?t" "8 dvd a" for a using that by (simp add: m0_def)
  have words: "m0 (r + 8) \<noteq> None" "m0 r \<noteq> None" "m0 (r + 16) \<noteq> None" "m0 (r + 24) \<noteq> None"
    "m0 (r + ?t - 16) \<noteq> None" "m0 (r + ?t - 8) \<noteq> None"
    by (rule m0; use big r16 t16 in \<open>auto intro!: dvd_diff_nat\<close>)+
  have ne: "r + ?t - 16 \<notin> {r, r + 8, r + 16, r + 24}" "r + ?t - 8 \<notin> {r, r + 8, r + 16, r + 24, r + ?t - 16}"
    using big by auto
  have size: "chunk_size (r, [(?k, Loose)]) = ?t" using big by (simp add: chunk_size_def)
  have "stats_of ((r, [(?k, Loose)]) # L) = st"
    by (simp only: stats_add_chunk wk st_def heap_okD(3) [OF inv])
  moreover have "heap_ok ((r, [(?k, Loose)]) # L) (h\<lparr>mem := m', g_chunks := r, g_stats := stats_of ((r, [(?k, Loose)]) # L)\<rparr>)"
  proof (rule add_chunk [OF inv])
    show "mem h \<subseteq>\<^sub>m m'"
      unfolding map_le_def
    proof
      fix a
      assume "a \<in> dom (mem h)"
      then have "\<not> (r \<le> a \<and> a < r + ?t)" using m(5) by auto
      then have "a \<noteq> r" "a \<noteq> r + 8" "a \<noteq> r + 16" "a \<noteq> r + 24" "a \<noteq> r + ?t - 16" "a \<noteq> r + ?t - 8" "m0 a = mem h a"
        using big by (auto simp: m0_def)
      then show "mem h a = m' a" by (simp add: m'_def)
    qed
    show "chunk_ok (r, [(?k, Loose)])"
      using m(2,4) r16 k16 big by (simp add: chunk_ok_def block_ok_def size)
    show "apart (r, [(?k, Loose)]) c" if "c \<in> set L" for c
      using fresh_apart [OF inv that r16(2) _ m(5)] m(1) big by (simp add: apart_def size)
    show "m' r = Some (word_of_nat (g_chunks h))" using ne by (simp add: m'_def)
    have "m' (r + 8) = Some ?w" "m' (r + 16) = Some (pack 8 1)" "m' (r + ?t - 8) = Some (pack 0 1)"
      using ne by (simp_all only: m'_def fun_upd_apply insert_iff) simp_all
    then show "fenced m' (r, [(?k, Loose)])" by (simp only: fenced_def size fst_conv) simp
    show "tagged m' (r + 32, ?k, Loose)"
    proof -
      have "m' a \<noteq> None" if "r \<le> a" "a < r + ?t" "8 dvd a" for a using m0 [OF that] by (simp add: m'_def)
      then have "mapped m' (r + 32) (r + 32 + ?k - 16)" using big by (simp add: mapped_def)
      moreover have "r + 32 - 8 = r + 24" "r + 32 + ?k - 16 = r + ?t - 16" using big by simp_all
      ultimately show ?thesis using ne by (simp add: tagged_def m'_def)
    qed
  qed
  ultimately have X: "heap_ok ((r, [(?k, Loose)]) # L) ?X" by simp
  have link: "link_chunk r ?w (os_map r ?t h) =
      Some (h\<lparr>mem := m0(r + 8 \<mapsto> ?w, r \<mapsto> word_of_nat (g_chunks h)), g_chunks := r, g_stats := st\<rparr>)"
    using words(1,2) by (simp add: link_chunk_def os_map_def put_word_def st_def m0_def)
  have bsize: "word_of_int (int (r + ?t - 8) - int (r + 24)) AND NOT 7 = (word_of_nat ?k :: u64)"
    using frame_words [OF m(3,2) t(1) _ m(4) rr] big by (simp only: fp WSIZE_def) simp
  have uk: "unat (word_of_nat ?k :: u64) = ?k" using m(2,4) by (intro unat_of_nat_small) linarith
  have fr: "frame_chunk r ?w (h\<lparr>mem := m0(r + 8 \<mapsto> ?w, r \<mapsto> word_of_nat (g_chunks h)), g_chunks := r, g_stats := st\<rparr>) =
      do { h \<leftarrow> list_insert (r + 32) (word_of_nat ?k) ?X; Some (r + 32, add_free (word_of_nat ?k) h) }"
  proof -
    have a: "r + 24 - WSIZE = r + 16" "r + 32 - WSIZE = r + 24" "r + 24 + ?k - WSIZE = r + ?t - 16"
      "r + 24 + WSIZE = r + 32" "r + ?t - WSIZE = r + ?t - 8"
      using big by (simp_all add: WSIZE_def)
    define B where "B = h\<lparr>g_chunks := r, g_stats := st\<rparr>"
    define m1 where "m1 = m0(r + 8 \<mapsto> ?w, r \<mapsto> word_of_nat (g_chunks h))"
    define m2 where "m2 = m1(r + 16 \<mapsto> pack 8 1)"
    define m3 where "m3 = m2(r + 24 \<mapsto> tag_of ?k Loose)"
    define m4 where "m4 = m3(r + ?t - 16 \<mapsto> tag_of ?k Loose)"
    have m': "m' = m4(r + ?t - 8 \<mapsto> pack 0 1)" by (simp only: m'_def m4_def m3_def m2_def m1_def)
    have puts: "put_word (r + 16) (pack 8 1) (B\<lparr>mem := m1\<rparr>) = Some (B\<lparr>mem := m2\<rparr>)"
      "put_word (r + 24) (tag_of ?k Loose) (B\<lparr>mem := m2\<rparr>) = Some (B\<lparr>mem := m3\<rparr>)"
      "put_word (r + ?t - 16) (tag_of ?k Loose) (B\<lparr>mem := m3\<rparr>) = Some (B\<lparr>mem := m4\<rparr>)"
      "put_word (r + ?t - 8) (pack 0 1) (B\<lparr>mem := m4\<rparr>) = Some (B\<lparr>mem := m'\<rparr>)"
      using words(3-6) unfolding m' m4_def m3_def m2_def m1_def by (simp_all add: put_word_def)
    have X: "?X = B\<lparr>mem := m'\<rparr>" and X1: "h\<lparr>mem := m1, g_chunks := r, g_stats := st\<rparr> = B\<lparr>mem := m1\<rparr>"
      by (simp_all add: B_def)
    have w8: "pack (of_nat WSIZE) 1 = pack 8 1" by (simp add: WSIZE_def)
    show ?thesis
      unfolding frame_chunk_def Let_def fp a bsize uk m1_def [symmetric] X1 X w8 tk [symmetric]
      by (simp only: puts bind.bind_lunit)
  qed
  let ?C = "\<lparr>before = [], base = r, left = [], right = [], after = L\<rparr>"
  have C: "fill ?C [(?k, b)] = (r, [(?k, b)]) # L" "hole_at ?C = r + 32" for b
    by (simp_all add: fill_def hole_at_def)
  obtain h' where h': "list_insert (r + 32) (word_of_nat ?k) ?X = Some h'"
    "heap_ok ((r, [(?k, Listed)]) # L) (add_free (word_of_nat ?k) h')" "keeps (live ((r, [(?k, Loose)]) # L)) ?X h'"
    using list_insert_heap [of ?C ?k ?X] X C by auto
  have "grow mmap need h = Some (r + 32, add_free (word_of_nat ?k) h')"
    using Some link fr h'(1) by (simp add: grow_def Let_def)
  moreover have "settled ((r, [(?k, Listed)]) # L)" using settled by (simp add: settled_def)
  moreover have "keeps (live L) h (add_free (word_of_nat ?k) h')"
  proof -
    have "keeps (live L) h ?X"
    proof -
      have "mem ?X a = mem h a" if b: "(p, s, Used) \<in> layout_blocks L" and a: "p \<le> a" "a < p + (s - 16)" for p s a
      proof -
        obtain c where c: "c \<in> set L" "(p, s, Used) \<in> chunk_blocks c" using b by (auto simp: layout_blocks_def)
        then have "fst c \<le> a" "a < fst c + chunk_size c" using chunk_blocks_bounds [OF c(2)] a by auto
        moreover have "r + ?t \<le> fst c \<or> fst c + chunk_size c \<le> r"
          by (rule fresh_apart [OF inv c(1) r16(2) _ m(5)]) (use big in auto)
        ultimately have "\<not> (r \<le> a \<and> a < r + ?t)" by auto
        then have "a \<noteq> r" "a \<noteq> r + 8" "a \<noteq> r + 16" "a \<noteq> r + 24" "a \<noteq> r + ?t - 16" "a \<noteq> r + ?t - 8" "m0 a = mem h a"
          using big by (auto simp: m0_def)
        then show ?thesis by (simp add: m'_def)
      qed
      then show ?thesis by (auto simp: keeps_def live_def payloads_def)
    qed
    moreover have "live ((r, [(?k, Loose)]) # L) = live L" by (simp add: live_def chunk_blocks_def)
    ultimately show ?thesis using keeps_trans h'(3) by auto
  qed
  moreover have "unat need \<le> ?k" using t(2) by linarith
  ultimately show ?thesis using Some h'(2) m(2) by blast
qed

end
