(* ===== verification/Balloc_Alloc.thy ===== *)
theory Balloc_Alloc
  imports Balloc_Grow
begin

text \<open>
  Allocation: the search of the free lists, the placement of a block with its split, and \<open>balloc\<close>,
  on the invariant.
\<close>

section \<open>The search\<close>

definition found :: "nat option \<Rightarrow> nat" where
  "found r = (case r of None \<Rightarrow> 0 | Some n \<Rightarrow> n)"

lemma scan_list_find:
  assumes "dseg (mem h) q n ps 0" "\<And>x. x \<in> set ps \<Longrightarrow> blk_size h (hdrp x) = Some (sz x)"
  shows "scan_list h a n = Some (found (find (\<lambda>x. a \<le> sz x) ps))"
  using assms
proof (induction ps arbitrary: q n)
  case Nil
  then show ?case by (subst scan_list.simps) (simp add: found_def)
next
  case (Cons x ps)
  then obtain w where "n = x" "x \<noteq> 0" "mem h x = Some w" "dseg (mem h) x (unat w) ps 0" by auto
  with Cons show ?case
    by (subst scan_list.simps) (auto simp: node_next_def get_word_def found_def)
qed

definition fits :: "layout \<Rightarrow> u64 \<Rightarrow> nat \<Rightarrow> bool" where
  "fits L a n \<longleftrightarrow> (\<exists>s. (n, s, Listed) \<in> layout_blocks L \<and> unat a \<le> s)"

lemma scan_class:
  assumes wf: "wf_layout L" and mi: "mem_inv L (mem h) g" and ci: "class_inv L F (mem h) (g_class h)"
    and c: "c < NCLASS"
  shows "\<exists>n. scan_list h a (g_class h ! c) = Some n \<and> (n \<noteq> 0 \<longrightarrow> fits L a n) \<and>
    (n = 0 \<longrightarrow> (\<forall>x\<in>set (F c). \<not> fits L a x))"
proof -
  have blk: "\<exists>s. (x, s, Listed) \<in> layout_blocks L \<and> blk_size h (hdrp x) = Some (word_of_nat s) \<and> s < 2 ^ 64 \<and> x \<noteq> 0"
    if "x \<in> set (F c)" for x
    using class_node [OF ci c that] block_reads(1) [OF wf mi] layout_block_ok [OF wf] by fastforce
  define sz where "sz x = the (blk_size h (hdrp x))" for x
  have sz: "blk_size h (hdrp x) = Some (sz x) \<and> x \<noteq> 0 \<and> (a \<le> sz x \<longleftrightarrow> fits L a x)"
    if x: "x \<in> set (F c)" for x
  proof -
    obtain s where s: "(x, s, Listed) \<in> layout_blocks L" "blk_size h (hdrp x) = Some (word_of_nat s)" "s < 2 ^ 64" "x \<noteq> 0"
      using blk [OF x] by blast
    have "s' = s" if "(x, s', Listed) \<in> layout_blocks L" for s'
      using block_unique [OF wf that s(1)] by simp
    then have "fits L a x \<longleftrightarrow> unat a \<le> s" unfolding fits_def using s(1) by blast
    then show ?thesis using s by (simp add: sz_def word_le_nat_alt)
  qed
  define r where "r = found (find (\<lambda>x. a \<le> sz x) (F c))"
  have "dseg (mem h) 0 (g_class h ! c) (F c) 0" using ci c by (simp add: class_inv_def)
  then have run: "scan_list h a (g_class h ! c) = Some r"
    unfolding r_def by (rule scan_list_find) (use sz in blast)
  have "(r \<noteq> 0 \<longrightarrow> fits L a r) \<and>
    (r = 0 \<longrightarrow> (\<forall>x\<in>set (F c). \<not> fits L a x))"
  proof (cases "find (\<lambda>x. a \<le> sz x) (F c)")
    case None
    then have "\<forall>x\<in>set (F c). \<not> a \<le> sz x" by (metis find_None_iff)
    moreover have "r = 0" using None by (simp add: r_def found_def)
    ultimately show ?thesis using sz by metis
  next
    case (Some x)
    then have "x \<in> set (F c)" "a \<le> sz x" by (auto simp: find_Some_iff)
    then have "fits L a x" "x \<noteq> 0" using sz by auto
    moreover have "r = x" using Some by (simp add: r_def found_def)
    ultimately show ?thesis by simp
  qed
  with run show ?thesis by (intro exI [of _ r]) simp
qed

lemma find_in_ok:
  assumes "wf_layout L" "mem_inv L (mem h) g" "class_inv L F (mem h) (g_class h)" "\<forall>c\<in>set cs. c < NCLASS"
  shows "\<exists>n. find_in h a cs = Some n \<and> (n \<noteq> 0 \<longrightarrow> fits L a n) \<and>
    (n = 0 \<longrightarrow> (\<forall>c\<in>set cs. \<forall>x\<in>set (F c). \<not> fits L a x))"
  using assms(4)
proof (induction cs)
  case (Cons c cs)
  then obtain n where "scan_list h a (g_class h ! c) = Some n" "n \<noteq> 0 \<longrightarrow> fits L a n"
    "n = 0 \<longrightarrow> (\<forall>x\<in>set (F c). \<not> fits L a x)"
    using scan_class [OF assms(1-3), of c a] by auto
  moreover have "rd (g_class h) c = Some (g_class h ! c)" using assms(3) Cons.prems by (simp add: class_inv_def)
  ultimately show ?case using Cons by (cases "n = 0") auto
qed simp

text \<open>The search finds a block whenever one fits: the classes below the first one hold smaller blocks.\<close>

lemma find_fit_ok:
  assumes "heap_ok L h"
  shows "\<exists>n. find_fit h a = Some n \<and> (n \<noteq> 0 \<longrightarrow> fits L a n) \<and> (n = 0 \<longrightarrow> (\<forall>x. \<not> fits L a x))"
proof -
  obtain F where F: "heap_inv L F h" using assms by (auto simp: heap_ok_def)
  then have wf: "wf_layout L" and mi: "mem_inv L (mem h) (g_chunks h)" and ci: "class_inv L F (mem h) (g_class h)"
    by (auto simp: heap_inv_def)
  obtain n where n: "find_fit h a = Some n" "n \<noteq> 0 \<longrightarrow> fits L a n"
    "n = 0 \<longrightarrow> (\<forall>c\<in>set [size_class a..<NCLASS]. \<forall>x\<in>set (F c). \<not> fits L a x)"
    using find_in_ok [OF wf mi ci, of "[size_class a..<NCLASS]" a] by (auto simp: find_fit_def)
  have "\<not> fits L a x" if n0: "n = 0" for x
  proof
    assume "fits L a x"
    then obtain s where s: "(x, s, Listed) \<in> layout_blocks L" "unat a \<le> s" by (auto simp: fits_def)
    let ?c = "size_class (word_of_nat s)"
    have "s < 2 ^ 64" using layout_block_ok [OF wf s(1)] by auto
    then have "a \<le> word_of_nat s" using s(2) by (simp add: word_le_nat_alt)
    then have "size_class a \<le> ?c" by (rule size_class_mono)
    moreover have "x \<in> set (F ?c)" using ci s(1) size_class_less by (auto simp: class_inv_def listed_def)
    ultimately show False using n(3) n0 \<open>fits L a x\<close> size_class_less [of "word_of_nat s"] by auto
  qed
  then show ?thesis using n by blast
qed

section \<open>Placing a block\<close>

text \<open>The list operations do not look at the counters.\<close>

lemma list_insert_stats:
  "list_insert n v (h\<lparr>g_stats := st\<rparr>) = map_option (\<lambda>h. h\<lparr>g_stats := st\<rparr>) (list_insert n v h)"
  by (simp add: list_insert_def set_prev_def set_next_def set_class_def put_word_def Let_def rd_def wr_def)

lemma list_insert_g_stats: "list_insert n v h = Some h' \<Longrightarrow> g_stats h' = g_stats h"
  by (auto simp: list_insert_def set_prev_def set_next_def set_class_def put_word_def Let_def bind_eq_Some_conv
      split: if_splits)

lemma split_block_ok:
  assumes inv: "heap_ok (fill C [(s, Loose)]) h" and a: "16 dvd a" "32 \<le> a" "a + 32 \<le> s"
  shows "\<exists>h'. split_block (hole_at C) (word_of_nat s) (word_of_nat a) h = Some h' \<and>
    heap_ok (fill C [(a, Used), (s - a, Listed)]) (add_used (word_of_nat a) h') \<and>
    keeps (payloads (outside C s)) h h' \<and> blk_size h' (hdrp (hole_at C)) = Some (word_of_nat a)"
proof -
  let ?p = "hole_at C" and ?k = "s - a" and ?q = "hole_at C + a"
  let ?va = "tag_of a Used" and ?vk = "tag_of (s - a) Loose"
  note ok = heap_block_ok [OF inv hole_block] and tags = block_tags [OF inv hole_block]
  have dvd: "8 dvd ?p" "8 dvd s" "8 dvd a" "16 dvd ?k" "8 dvd ?k"
    using ok a(1) dvd_16_8 dvd_diff_nat [of 16 s a] by auto
  have k: "word_of_nat s - word_of_nat a = (word_of_nat ?k :: u64)" using a by (simp add: of_nat_diff)
  have small: "a < 2 ^ 64" "?k < 2 ^ 64" using ok a by auto
  have ku: "unat (word_of_nat s - word_of_nat a :: u64) = ?k" by (simp only: k unat_of_nat_small [OF small(2)])
  have word: "mem h x \<noteq> None" if "?p - 8 \<le> x" "x < ?p + s - 8" "8 dvd x" for x
    using mapped_word [OF hole_mapped [OF inv], of x] that by simp
  have w: "mem h (?p - 8) \<noteq> None" "mem h (?p + a - 16) \<noteq> None" "mem h (?p + a - 8) \<noteq> None" "mem h (?p + s - 16) \<noteq> None"
    by (rule word; use ok a dvd in \<open>auto intro!: dvd_diff_nat dvd_add\<close>)+
  define m1 where "m1 = (mem h)(?p - 8 \<mapsto> ?va)"
  define m2 where "m2 = m1(?p + a - 16 \<mapsto> ?va)"
  define m3 where "m3 = m2(?q - 8 \<mapsto> ?vk)"
  define m where "m = m3(?p + s - 16 \<mapsto> ?vk)"
  have f1: "ftrp (h\<lparr>mem := m1\<rparr>) ?p = Some (?p + a - 16)"
    using small(1) blk_size_tag [of "h\<lparr>mem := m1\<rparr>" "?p - 8" a Used] dvd
    by (simp add: ftrp_def hdrp_def WSIZE_def DSIZE_def m1_def)
  have n2: "next_blkp (h\<lparr>mem := m2\<rparr>) ?p = Some ?q"
    using small(1) blk_size_tag [of "h\<lparr>mem := m2\<rparr>" "?p - 8" a Used] dvd a
    by (simp add: next_blkp_def hdrp_def WSIZE_def DSIZE_def m1_def m2_def)
  have f3: "ftrp (h\<lparr>mem := m3\<rparr>) ?q = Some (?p + s - 16)"
    using ku blk_size_tag [of "h\<lparr>mem := m3\<rparr>" "?q - 8" ?k Loose] dvd a
    by (simp add: ftrp_def hdrp_def WSIZE_def DSIZE_def m3_def)
  have puts: "put_word (?p - 8) ?va h = Some (h\<lparr>mem := m1\<rparr>)"
    "put_word (?p + a - 16) ?va (h\<lparr>mem := m1\<rparr>) = Some (h\<lparr>mem := m2\<rparr>)"
    "put_word (?q - 8) ?vk (h\<lparr>mem := m2\<rparr>) = Some (h\<lparr>mem := m3\<rparr>)"
    "put_word (?p + s - 16) ?vk (h\<lparr>mem := m3\<rparr>) = Some (h\<lparr>mem := m\<rparr>)"
    using w by (simp_all add: m1_def m2_def m3_def m_def)
  let ?bs = "[(a, Used), (?k, Loose)]"
  have mval: "m (?p - 8) = Some ?va" "m (?p + a - 16) = Some ?va" "m (?q - 8) = Some ?vk" "m (?q + ?k - 16) = Some ?vk"
  proof -
    have "?p + a - 16 \<noteq> ?p - 8" "?q - 8 \<noteq> ?p - 8" "?p + s - 16 \<noteq> ?p - 8" "?q - 8 \<noteq> ?p + a - 16"
      "?p + s - 16 \<noteq> ?p + a - 16" "?p + s - 16 \<noteq> ?q - 8" "?q + ?k - 16 = ?p + s - 16"
      using ok a by linarith+
    then show "m (?p - 8) = Some ?va" "m (?p + a - 16) = Some ?va" "m (?q - 8) = Some ?vk" "m (?q + ?k - 16) = Some ?vk"
      by (simp_all add: m_def m3_def m2_def m1_def)
  qed
  have dom: "m x \<noteq> None" if "mem h x \<noteq> None" for x using that by (simp add: m_def m3_def m2_def m1_def)
  have t: "heap_ok (fill C ?bs) (h\<lparr>mem := m, g_stats := stats_of (fill C ?bs)\<rparr>)" "keeps (payloads (outside C s)) h (h\<lparr>mem := m\<rparr>)"
  proof -
    have bs: "span ?bs = span [(s, Loose)]" "\<forall>b\<in>set ?bs. block_ok b" "\<forall>b\<in>set [(s, Loose)] \<union> set ?bs. snd b \<noteq> Listed"
      using a dvd by (simp_all add: block_ok_def)
    have agree: "m x = mem h x" if "x < ?p - 8 \<or> ?p + span [(s, Loose)] - 8 \<le> x" for x
    proof -
      have "x \<noteq> ?p - 8" "x \<noteq> ?p + a - 16" "x \<noteq> ?q - 8" "x \<noteq> ?p + s - 16" using that ok a by auto
      then show ?thesis by (simp add: m_def m3_def m2_def m1_def)
    qed
    have "mapped m ?p (?p + a - 16)" "mapped m ?q (?q + ?k - 16)"
      unfolding mapped_def using dom word a ok by auto
    then have tg: "\<forall>b\<in>blocks_at ?p ?bs. tagged m b" using mval by (simp add: tagged_def)
    show "heap_ok (fill C ?bs) (h\<lparr>mem := m, g_stats := stats_of (fill C ?bs)\<rparr>)" "keeps (payloads (outside C s)) h (h\<lparr>mem := m\<rparr>)"
      using retag [OF inv bs agree tg] by simp_all
  qed
  let ?h = "h\<lparr>mem := m\<rparr>"
  have st: "?h\<lparr>g_stats := stats_of (fill C ?bs)\<rparr> = add_used (word_of_nat a) ?h"
    using a ok by (simp add: add_used_def heap_okD(3) [OF inv] stats_fill [of ?bs "[(s, Loose)]" C] of_nat_diff DSIZE_def)
  then have t1: "heap_ok (fill (inner C [(a, Used)] []) [(?k, Loose)]) (add_used (word_of_nat a) ?h)"
    using t(1) by (simp add: fill_inner)
  obtain Y where Y: "list_insert ?q (word_of_nat ?k) (add_used (word_of_nat a) ?h) = Some Y"
    "heap_ok (fill C [(a, Used), (?k, Listed)]) (add_free (word_of_nat ?k) Y)"
    "keeps (live (fill C ?bs)) (add_used (word_of_nat a) ?h) Y"
    using list_insert_heap [OF t1] by (auto simp: fill_inner)
  obtain h' where h': "list_insert ?q (word_of_nat ?k) ?h = Some h'" "Y = h'\<lparr>g_stats := g_stats (add_used (word_of_nat a) ?h)\<rparr>"
    using Y(1) by (auto simp: add_used_def list_insert_stats)
  have gs: "g_stats h' = g_stats ?h" by (rule list_insert_g_stats [OF h'(1)])
  have run: "split_block ?p (word_of_nat s) (word_of_nat a) h = Some (add_free (word_of_nat ?k) h')"
    using puts f1 n2 f3 h'(1) k
    by (simp add: split_block_def Let_def pack_sizes hdrp_def WSIZE_def)
  have eq: "add_used (word_of_nat a) (add_free (word_of_nat ?k) h') = add_free (word_of_nat ?k) Y"
    using gs by (simp add: h'(2) add_used_def add_free_def)
  have kp: "keeps (payloads (outside C s)) h (add_free (word_of_nat ?k) h')"
  proof -
    have "keeps (payloads (outside C s)) ?h h'"
      using Y(3) a h'(2) by (auto simp: keeps_def live_fill add_used_def)
    then show ?thesis using keeps_trans [OF t(2)] by simp
  qed
  have "blk_size (add_free (word_of_nat ?k) h') (hdrp ?p) = Some (word_of_nat a)"
  proof -
    have "(?p, a, Used) \<in> layout_blocks (fill C [(a, Used), (?k, Listed)])" by (rule blocks_fill2(1))
    from heap_reads(1) [OF Y(2) Y(2) this] h'(2) show ?thesis by (simp add: blk_size_def get_word_def)
  qed
  then show ?thesis using run kp eq Y(2) by auto
qed

lemma list_remove_heap:
  assumes inv: "heap_ok (fill C [(s, Listed)]) h"
  shows "\<exists>h'. list_remove (hole_at C) (word_of_nat s) h = Some h' \<and>
    heap_ok (fill C [(s, Loose)]) (sub_free (word_of_nat s) h') \<and> keeps (live (fill C [(s, Listed)])) h h'"
  using assms list_remove_ok [of C s] unfolding heap_ok_def by metis

text \<open>
  The block is split when the rest is large enough to be a block; otherwise the whole block is
  handed out, at most 16 bytes larger than asked for.
\<close>

lemma place_ok:
  assumes inv: "heap_ok (fill C [(s, Listed)]) h" and settled: "settled (fill C [(s, Listed)])"
    and a: "16 dvd a" "32 \<le> a" "a \<le> s"
  shows "\<exists>k L' h'. place (hole_at C) (word_of_nat a) h = Some (hole_at C, h') \<and> heap_ok L' h' \<and> settled L' \<and>
    (hole_at C, k, Used) \<in> layout_blocks L' \<and> live L' = insert (hole_at C, k - 16) (live (fill C [(s, Listed)])) \<and>
    keeps (live (fill C [(s, Listed)])) h h' \<and> a \<le> k \<and> k < a + 32"
proof -
  let ?p = "hole_at C" and ?L = "fill C [(s, Listed)]"
  note ok = heap_block_ok [OF inv hole_block]
  have size: "blk_size h (hdrp ?p) = Some (word_of_nat s)" by (rule heap_reads(1) [OF inv inv hole_block])
  obtain h1 where h1: "list_remove ?p (word_of_nat s) h = Some h1"
    "heap_ok (fill C [(s, Loose)]) (sub_free (word_of_nat s) h1)" "keeps (live ?L) h h1"
    using list_remove_heap [OF inv] by blast
  let ?h = "sub_free (word_of_nat s) h1"
  have sub: "word_of_nat s - word_of_nat a = (word_of_nat (s - a) :: u64)" using a(3) by (simp add: of_nat_diff)
  have "unat (word_of_nat (s - a) :: u64) = s - a" using ok by (intro unat_of_nat_small) auto
  then have cond: "word_of_nat s - word_of_nat a \<ge> MIN_BLOCK \<longleftrightarrow> 32 \<le> s - a"
    by (simp only: sub MIN_BLOCK_def word_le_nat_alt) simp
  have pay: "payloads (outside C s) = live ?L" by (simp add: live_fill)
  have set: "settled (fill C [(s, Used)])" "prev_used C" "next_used C" using settled by (simp_all add: settled_listed)
  show ?thesis
  proof (cases "32 \<le> s - a")
    case True
    then have "a + 32 \<le> s" using a(3) by linarith
    then obtain h2 where h2: "split_block ?p (word_of_nat s) (word_of_nat a) ?h = Some h2"
      "heap_ok (fill C [(a, Used), (s - a, Listed)]) (add_used (word_of_nat a) h2)"
      "keeps (payloads (outside C s)) ?h h2" "blk_size h2 (hdrp ?p) = Some (word_of_nat a)"
      using split_block_ok [OF h1(2) a(1,2)] by blast
    have "place ?p (word_of_nat a) h = Some (?p, add_used (word_of_nat a) h2)"
      using size h1(1) cond True h2(1,4) by (simp add: place_def)
    moreover have "settled (fill C [(a, Used), (s - a, Listed)])"
      using set by (auto simp: settled_fill merged_append merged_Cons next_used_def)
    moreover have "live (fill C [(a, Used), (s - a, Listed)]) = insert (?p, a - 16) (live ?L)"
      using True by (simp add: live_fill)
    moreover have "keeps (live ?L) h (add_used (word_of_nat a) h2)"
      using keeps_trans [OF h1(3)] h2(3) pay by simp
    ultimately show ?thesis using h2(2) blocks_fill2(1) [of C a Used "[(s - a, Listed)]"]
      by (intro exI [of _ a] exI [of _ "fill C [(a, Used), (s - a, Listed)]"] exI [of _ "add_used (word_of_nat a) h2"]) simp
  next
    case False
    note r = put_tags [OF h1(2) _ _ refl, of Used, simplified]
    let ?m = "(mem ?h)(?p - 8 \<mapsto> tag_of s Used, ?p + s - 16 \<mapsto> tag_of s Used)"
    have st: "?h\<lparr>mem := ?m, g_stats := stats_of (fill C [(s, Used)])\<rparr> = add_used (word_of_nat s) (?h\<lparr>mem := ?m\<rparr>)"
      using ok heap_okD(3) [OF h1(2)] by (simp add: add_used_def stats_relabel(4) of_nat_diff DSIZE_def)
    have h2: "heap_ok (fill C [(s, Used)]) (add_used (word_of_nat s) (?h\<lparr>mem := ?m\<rparr>))" using r(2) st by (simp only:)
    have "blk_size (add_used (word_of_nat s) (?h\<lparr>mem := ?m\<rparr>)) (hdrp ?p) = Some (word_of_nat s)"
      by (rule heap_reads(1) [OF h2 h2 hole_block])
    then have size2: "blk_size (?h\<lparr>mem := ?m\<rparr>) (hdrp ?p) = Some (word_of_nat s)" by simp
    have "place ?p (word_of_nat a) h = Some (?p, add_used (word_of_nat s) (?h\<lparr>mem := ?m\<rparr>))"
      using size h1(1) cond False r(1) size2
      by (auto simp: place_def pack_sizes bind_eq_Some_conv)
    moreover have "live (fill C [(s, Used)]) = insert (?p, s - 16) (live ?L)" by (simp add: live_fill)
    moreover have "keeps (live ?L) h (add_used (word_of_nat s) (?h\<lparr>mem := ?m\<rparr>))"
      using keeps_trans [OF h1(3)] r(3) pay by simp
    moreover have "a \<le> s \<and> s < a + 32" using False a(3) by simp
    ultimately show ?thesis using h2 set(1) hole_block [of C s Used]
      by (intro exI [of _ s] exI [of _ "fill C [(s, Used)]"] exI) auto
  qed
qed

section \<open>Allocation\<close>

lemma live_blocks: "(p, n) \<in> live L \<longleftrightarrow> (\<exists>s. (p, s, Used) \<in> layout_blocks L \<and> n = s - 16)"
  by (simp add: live_def payloads_def)

lemma listed_not_live:
  assumes "wf_layout L" "(p, s, Listed) \<in> layout_blocks L"
  shows "(p, n) \<notin> live L"
  using block_unique [OF assms] by (auto simp: live_blocks)

text \<open>Two payloads in use are 16 bytes apart at least: the tags are between them.\<close>

lemma live_disjoint:
  assumes "wf_layout L" "(p, m) \<in> live L" "(q, n) \<in> live L" "(p, m) \<noteq> (q, n)"
  shows "p + m + 16 \<le> q \<or> q + n + 16 \<le> p"
proof -
  obtain s t where b: "(p, s, Used) \<in> layout_blocks L" "m = s - 16" "(q, t, Used) \<in> layout_blocks L" "n = t - 16"
    using assms(2,3) by (auto simp: live_blocks)
  then show ?thesis
    using layout_blocks_disjoint [OF assms(1) b(1,3)] layout_block_ok [OF assms(1) b(1)]
      layout_block_ok [OF assms(1) b(3)] assms(4) by auto
qed

lemma live_aligned: "wf_layout L \<Longrightarrow> (p, n) \<in> live L \<Longrightarrow> 16 dvd p \<and> 16 dvd n \<and> 16 \<le> n \<and> 32 < p \<and> p + n < 2 ^ 64"
  using layout_block_ok [of L] by (fastforce simp: live_blocks intro: dvd_diff_nat)

definition allocates :: "u64 \<Rightarrow> layout \<Rightarrow> nat \<Rightarrow> layout \<Rightarrow> bool" where
  "allocates sz L p L' \<longleftrightarrow> (\<exists>n. live L' = insert (p, n) (live L) \<and> (\<forall>k. (p, k) \<notin> live L) \<and>
     unat sz \<le> n \<and> n \<le> max 32 (unat sz + 31))"

lemma place_fit:
  assumes inv: "heap_ok L h" "settled L" and fit: "fits L (request_size sz) p" and sz: "unat sz \<le> 2 ^ 62"
  shows "\<exists>L' h'. place p (request_size sz) h = Some (p, h') \<and> heap_ok L' h' \<and> settled L' \<and> keeps (live L) h h' \<and>
    allocates sz L p L'"
proof -
  note r = request_size_ok [OF sz]
  let ?a = "unat (request_size sz)"
  obtain s where s: "(p, s, Listed) \<in> layout_blocks L" "?a \<le> s" using fit by (auto simp: fits_def)
  obtain C where C: "L = fill C [(s, Listed)]" "hole_at C = p" using block_focus [OF s(1)] by blast
  have "heap_ok (fill C [(s, Listed)]) h" "settled (fill C [(s, Listed)])" using inv C by simp_all
  from place_ok [OF this r(1,2) s(2)] C obtain k L' h' where
    p: "place p (request_size sz) h = Some (p, h')" "heap_ok L' h'" "settled L'" "(p, k, Used) \<in> layout_blocks L'"
    "live L' = insert (p, k - 16) (live L)" "keeps (live L) h h'" "?a \<le> k" "k < ?a + 32"
    by auto
  have "16 dvd k" using heap_block_ok [OF p(2,4)] by simp
  then have "k \<le> ?a + 16" using p(8) r(1) by presburger
  then have "unat sz \<le> k - 16" "k - 16 \<le> max 32 (unat sz + 31)" using r(3,4) p(7) by linarith+
  moreover have "(p, j) \<notin> live L" for j by (rule listed_not_live [OF heap_okD(1) [OF inv(1)] s(1)])
  ultimately have "allocates sz L p L'" using p(5) unfolding allocates_def by blast
  then show ?thesis using p by blast
qed

lemma balloc_ok:
  assumes inv: "heap_ok L h" "settled L" and os: "mmap_ok mmap h" and sz: "unat sz \<le> 2 ^ 62"
  shows "\<exists>p L' h'. balloc mmap sz h = Some (p, h') \<and> heap_ok L' h' \<and> settled L' \<and> keeps (live L) h h' \<and>
    (p = 0 \<and> L' = L \<and> h' = h \<and> (sz = 0 \<or> mmap (grow_total (request_size sz)) = None \<and> (\<forall>n. \<not> fits L (request_size sz) n))
     \<or> p \<noteq> 0 \<and> allocates sz L p L')"
proof (cases "sz = 0")
  case True
  then show ?thesis using inv by (auto simp: balloc_def)
next
  case False
  let ?a = "request_size sz"
  obtain n where n: "find_fit h ?a = Some n" "n \<noteq> 0 \<longrightarrow> fits L ?a n" "n = 0 \<longrightarrow> (\<forall>x. \<not> fits L ?a x)"
    using find_fit_ok [OF inv(1)] by blast
  show ?thesis
  proof (cases "n = 0")
    case True
    note g = grow_ok [OF inv os request_size_ok(5) [OF sz]]
    show ?thesis
    proof (cases "mmap (grow_total ?a)")
      case None
      then have "balloc mmap sz h = Some (0, h)" using g False n(1) True by (simp add: balloc_def Let_def)
      then show ?thesis using inv None n(3) True by auto
    next
      case (Some r)
      then obtain k h1 where h1: "grow mmap ?a h = Some (r + 32, h1)" "heap_ok ((r, [(k, Listed)]) # L) h1"
        "settled ((r, [(k, Listed)]) # L)" "keeps (live L) h h1" "unat ?a \<le> k"
        using g by auto
      let ?L = "(r, [(k, Listed)]) # L"
      have "(r + 32, k, Listed) \<in> layout_blocks ?L" by (simp add: chunk_blocks_def)
      then have "fits ?L ?a (r + 32)" using h1(5) by (auto simp: fits_def)
      then obtain L' h' where h': "place (r + 32) ?a h1 = Some (r + 32, h')" "heap_ok L' h'" "settled L'"
        "keeps (live ?L) h1 h'" "allocates sz ?L (r + 32) L'"
        using place_fit [OF h1(2,3) _ sz] by blast
      have live: "live ?L = live L" by (simp add: live_def chunk_blocks_def)
      have "balloc mmap sz h = Some (r + 32, h')" using False n(1) True h1(1) h'(1) by (simp add: balloc_def Let_def)
      moreover have "keeps (live L) h h'" using keeps_trans [OF h1(4)] h'(4) live by simp
      moreover have "allocates sz L (r + 32) L'" using h'(5) live by (simp add: allocates_def)
      ultimately show ?thesis using h'(2,3) by (intro exI [of _ "r + 32"] exI [of _ L'] exI [of _ h']) simp
    qed
  next
    case nz: False
    then obtain L' h' where h': "place n ?a h = Some (n, h')" "heap_ok L' h'" "settled L'"
      "keeps (live L) h h'" "allocates sz L n L'"
      using place_fit [OF inv _ sz] n(2) by blast
    have "balloc mmap sz h = Some (n, h')" using False n(1) nz h'(1) by (simp add: balloc_def Let_def)
    then show ?thesis using h' nz by (intro exI [of _ n] exI [of _ L'] exI [of _ h']) simp
  qed
qed

end
