(* ===== verification/Balloc_Check.thy ===== *)
theory Balloc_Check
  imports Balloc_Alloc
begin

text \<open>
  \<open>balloc_check\<close>: on a heap that satisfies the invariant the checker terminates and reports 0.
\<close>

section \<open>The free lists\<close>

lemma node_in_dseg:
  "dseg (mem h) q n ps 0 \<Longrightarrow> bp \<noteq> 0 \<Longrightarrow> node_in h bp n = Some (bp \<in> set ps)"
proof (induction ps arbitrary: q n)
  case Nil
  then show ?case by (subst node_in.simps) simp
next
  case (Cons x ps)
  then obtain w where "n = x" "x \<noteq> 0" "mem h x = Some w" "dseg (mem h) x (unat w) ps 0" by auto
  with Cons show ?case by (subst node_in.simps) (auto simp: node_next_def get_word_def)
qed

lemma in_classes_ok:
  assumes "class_inv L F (mem h) (g_class h)" "\<forall>c\<in>set cs. c < NCLASS" "bp \<noteq> 0"
  shows "in_classes h bp cs = Some (\<exists>c\<in>set cs. bp \<in> set (F c))"
  using assms(2)
proof (induction cs)
  case (Cons c cs)
  then have c: "c < NCLASS" by simp
  then have "rd (g_class h) c = Some (g_class h ! c)" "dseg (mem h) 0 (g_class h ! c) (F c) 0"
    using assms(1) by (auto simp: class_inv_def)
  with node_in_dseg [OF this(2) assms(3)] Cons show ?case by simp
qed simp

lemma on_free_list_ok:
  assumes inv: "heap_ok L h" and b: "(p, s, Listed) \<in> layout_blocks L"
  shows "on_free_list h p = Some True"
proof -
  obtain F where ci: "class_inv L F (mem h) (g_class h)" using inv by (auto simp: heap_ok_def heap_inv_def)
  let ?c = "size_class (word_of_nat s)"
  have "p \<noteq> 0" using heap_block_ok [OF inv b] by simp
  moreover have "p \<in> set (F ?c)" using ci b size_class_less by (auto simp: class_inv_def listed_def)
  ultimately show ?thesis
    unfolding on_free_list_def using in_classes_ok [OF ci, of "[0..<NCLASS]" p] size_class_less by auto
qed

lemma check_nodes_dseg:
  "dseg (mem h) q n ps 0 \<Longrightarrow> (\<And>x. x \<in> set ps \<Longrightarrow> blk_alloc h (hdrp x) = Some 0) \<Longrightarrow> check_nodes h n = Some 0"
proof (induction ps arbitrary: q n)
  case Nil
  then show ?case by (subst check_nodes.simps) simp
next
  case (Cons x ps)
  then obtain w where "n = x" "x \<noteq> 0" "mem h x = Some w" "dseg (mem h) x (unat w) ps 0" by auto
  with Cons show ?case by (subst check_nodes.simps) (auto simp: node_next_def get_word_def)
qed

lemma check_classes_ok:
  assumes inv: "heap_ok L h" and cs: "\<forall>c\<in>set cs. c < NCLASS"
  shows "check_classes h cs = Some 0"
  using cs
proof (induction cs)
  case (Cons c cs)
  obtain F where ci: "class_inv L F (mem h) (g_class h)" using inv by (auto simp: heap_ok_def heap_inv_def)
  have c: "c < NCLASS" using Cons.prems by simp
  have free: "blk_alloc h (hdrp x) = Some 0" if "x \<in> set (F c)" for x
    using class_node [OF ci c that] heap_reads(2) [OF inv inv] by fastforce
  have "rd (g_class h) c = Some (g_class h ! c)" "dseg (mem h) 0 (g_class h ! c) (F c) 0"
    using ci c by (auto simp: class_inv_def)
  then show ?case using Cons check_nodes_dseg [OF _ free] by simp
qed simp

section \<open>The walk over the blocks\<close>

lemma check_block_ok:
  assumes inv: "heap_ok L h" and b: "(p, s, t) \<in> layout_blocks L" and t: "t \<noteq> Loose"
    and prev: "t = Listed \<Longrightarrow> q \<noteq> 0 \<Longrightarrow> blk_alloc h (hdrp q) = Some 1"
  shows "check_block h p q = Some 0"
proof -
  note ok = heap_block_ok [OF inv b] and r = heap_reads [OF inv inv b] and tags = block_tags [OF inv b]
  have "p mod DSIZE = 0" using ok by (simp add: DSIZE_def dvd_eq_mod_eq_0 [symmetric])
  moreover have "get_word h (hdrp p) = Some (tag_of s t)" "get_word h (p + s - 16) = Some (tag_of s t)"
    using tags by (simp_all add: get_word_def hdrp_def WSIZE_def)
  moreover have "\<not> word_of_nat s < MIN_BLOCK"
  proof -
    have "unat (word_of_nat s :: u64) = s" using ok by (intro unat_of_nat_small) auto
    then have "\<not> unat (word_of_nat s :: u64) < 32" using ok by simp
    then show ?thesis by (simp only: MIN_BLOCK_def word_less_nat_alt) simp
  qed
  moreover have "t = Listed \<Longrightarrow> on_free_list h p = Some True" using on_free_list_ok [OF inv] b by blast
  ultimately show ?thesis using r prev t by (cases t) (auto simp: check_block_def)
qed

definition prev_block :: "nat \<Rightarrow> blocks \<Rightarrow> nat" where
  "prev_block r xs = (if xs = [] then 0 else r + 32 + span (butlast xs))"

lemma check_blocks_ok:
  assumes inv: "heap_ok L h" and settled: "settled L" and c: "(r, xs @ ys) \<in> set L"
  shows "check_blocks h (r + 32 + span xs) (prev_block r xs) = Some 0"
  using c
proof (induction ys arbitrary: xs)
  case Nil
  note h = heap_okD [OF inv]
  have "fenced (mem h) (r, xs)" using h(2) Nil by (simp add: mem_inv_def)
  then have "mem h (r + 32 + span xs - 8) = Some (tag_of 0 Used)"
    by (simp add: fenced_def chunk_size_def fence_tags algebra_simps)
  then have "blk_size h (hdrp (r + 32 + span xs)) = Some 0"
    using blk_size_tag [of h _ 0 Used] by (simp add: hdrp_def WSIZE_def)
  then show ?case by (subst check_blocks.simps) simp
next
  case (Cons b ys)
  obtain s t where b: "b = (s, t)" by fastforce
  let ?p = "r + 32 + span xs"
  have blk: "(?p, s, t) \<in> layout_blocks L"
    using Cons.prems b by (auto simp: layout_blocks_def chunk_blocks_def intro!: bexI)
  have m: "merged (xs @ (s, t) # ys)" using settled Cons.prems b by (auto simp: settled_def)
  then have t: "t \<noteq> Loose" by (auto simp: merged_append merged_Cons)
  have "check_block h ?p (prev_block r xs) = Some 0"
  proof (rule check_block_ok [OF inv blk t])
    assume "t = Listed" "prev_block r xs \<noteq> 0"
    then obtain xs' s' t' where xs: "xs = xs' @ [(s', t')]"
      by (cases xs rule: rev_cases) (auto simp: prev_block_def)
    then have "t' = Used" using m \<open>t = Listed\<close> by (auto simp: merged_append)
    moreover have "(r + 32 + span xs', s', t') \<in> layout_blocks L"
      using Cons.prems xs by (auto simp: layout_blocks_def chunk_blocks_def intro!: bexI)
    ultimately show "blk_alloc h (hdrp (prev_block r xs)) = Some 1"
      using heap_reads(2) [OF inv inv] xs by (fastforce simp: prev_block_def)
  qed
  moreover have "check_blocks h (?p + s) ?p = Some 0"
    using Cons.IH [of "xs @ [b]"] Cons.prems b by (simp add: prev_block_def add.assoc)
  moreover have "blk_size h (hdrp ?p) = Some (word_of_nat s)" "next_blkp h ?p = Some (?p + s)"
    by (rule heap_reads [OF inv inv blk])+
  moreover have "word_of_nat s \<noteq> (0 :: u64)"
  proof
    assume "word_of_nat s = (0 :: u64)"
    moreover have "unat (word_of_nat s :: u64) = s" using heap_block_ok [OF inv blk] by (intro unat_of_nat_small) auto
    ultimately show False using heap_block_ok [OF inv blk] by simp
  qed
  ultimately show ?case by (subst check_blocks.simps) simp
qed

lemma check_chunks_ok:
  assumes inv: "heap_ok L h" and settled: "settled L" and K: "chunk_list (mem h) p K" "set K \<subseteq> set L"
  shows "check_chunks h p = Some 0"
  using K
proof (induction K arbitrary: p)
  case Nil
  then show ?case by (subst check_chunks.simps) simp
next
  case (Cons c K)
  obtain r bs where c: "c = (r, bs)" by fastforce
  with Cons.prems have cL: "(r, bs) \<in> set L" by simp
  from wf_chunkD [OF heap_okD(1) [OF inv] cL] have ok: "0 < r" "16 dvd r" "r + 64 \<le> 2 ^ 64"
    by (auto simp: chunk_ok_def)
  have "check_blocks h (r + 32) 0 = Some 0"
    using check_blocks_ok [OF inv settled, of r "[]" bs] cL by (simp add: prev_block_def)
  moreover have "first_payload_of r = r + 32" by (rule first_payload_ok) (use ok in auto)
  moreover obtain w where "p = r" "mem h r = Some w" "chunk_list (mem h) (unat w) K" using Cons.prems c by auto
  ultimately show ?case using Cons ok(1) by (subst check_chunks.simps) (simp add: get_word_def)
qed

theorem balloc_check_ok:
  assumes "heap_ok L h" "settled L"
  shows "balloc_check h = Some 0"
proof -
  have "check_chunks h (g_chunks h) = Some 0"
    using check_chunks_ok [OF assms, of "g_chunks h" L] heap_okD(2) [OF assms(1)] by (simp add: mem_inv_def)
  moreover have "check_classes h [0..<NCLASS] = Some 0" by (rule check_classes_ok [OF assms(1)]) simp
  ultimately show ?thesis by (simp add: balloc_check_def)
qed

end
