(* ===== verification/Balloc_Client.thy ===== *)
theory Balloc_Client
  imports Balloc_Check
begin

text \<open>
  What a client does with a payload, and the operations that write payloads themselves:
  \<open>bcalloc\<close> with \<open>memset\<close>, \<open>brealloc\<close> with \<open>memcpy\<close>, and \<open>balloc_reset\<close>.
\<close>

section \<open>Writing a payload\<close>

lemma payload_write:
  assumes inv: "heap_ok L h" and b: "(p, n) \<in> live L"
    and agree: "\<And>x. x < p \<or> p + n \<le> x \<Longrightarrow> m' x = mem h x"
    and dom: "\<And>x. mem h x \<noteq> None \<Longrightarrow> m' x \<noteq> None"
  shows "heap_ok L (h\<lparr>mem := m'\<rparr>)" "keeps (live L - {(p, n)}) h (h\<lparr>mem := m'\<rparr>)"
proof -
  obtain s where s: "(p, s, Used) \<in> layout_blocks L" "n = s - 16" using b by (auto simp: live_blocks)
  obtain C where C: "L = fill C [(s, Used)]" "hole_at C = p" using block_focus [OF s(1)] by blast
  note ok = heap_block_ok [OF inv s(1)]
  have inv': "heap_ok (fill C [(s, Used)]) h" using inv C by simp
  have "tagged (mem h) (p, s, Used)" by (rule mem_invD [OF heap_okD(2) [OF inv] s(1)])
  then have t: "\<forall>b\<in>blocks_at (hole_at C) [(s, Used)]. tagged m' b"
    using ok s(2) C agree dom by (auto simp: tagged_def mapped_def)
  have bs: "span [(s, Used)] = span [(s, Used)]" "\<forall>b\<in>set [(s, Used)]. block_ok b"
    "\<forall>b\<in>set [(s, Used)] \<union> set [(s, Used)]. snd b \<noteq> Listed"
    using ok by (simp_all add: block_ok_def)
  have a: "m' x = mem h x" if "x < hole_at C - 8 \<or> hole_at C + span [(s, Used)] - 8 \<le> x" for x
    by (rule agree) (use that C(2) s(2) ok in auto)
  note r = retag [OF inv' bs a t]
  show "heap_ok L (h\<lparr>mem := m'\<rparr>)"
  proof -
    have "h\<lparr>mem := m', g_stats := stats_of L\<rparr> = h\<lparr>mem := m'\<rparr>"
      using heap_okD(3) [OF inv] by (cases h) simp
    then show ?thesis using r(1) C by simp
  qed
  show "keeps (live L - {(p, n)}) h (h\<lparr>mem := m'\<rparr>)"
    using r(2) C s(2) by (auto simp: live_fill intro: keeps_mono)
qed

text \<open>A client stores a word into a payload it holds.\<close>

lemma client_store:
  assumes inv: "heap_ok L h" and b: "(p, n) \<in> live L" and a: "p \<le> a" "a < p + n" "8 dvd a"
  shows "\<exists>h'. put_word a v h = Some h' \<and> heap_ok L h' \<and> mem h' a = Some v \<and> keeps (live L - {(p, n)}) h h'"
proof -
  obtain s where s: "(p, s, Used) \<in> layout_blocks L" "n = s - 16" using b by (auto simp: live_blocks)
  have "tagged (mem h) (p, s, Used)" by (rule mem_invD [OF heap_okD(2) [OF inv] s(1)])
  then have "mem h a \<noteq> None" using a s(2) heap_block_ok [OF inv s(1)] by (auto simp: tagged_def mapped_def)
  then have "put_word a v h = Some (h\<lparr>mem := (mem h)(a \<mapsto> v)\<rparr>)" by simp
  moreover have "heap_ok L (h\<lparr>mem := (mem h)(a \<mapsto> v)\<rparr>)" "keeps (live L - {(p, n)}) h (h\<lparr>mem := (mem h)(a \<mapsto> v)\<rparr>)"
    by (rule payload_write [OF inv b]; use a in auto)+
  ultimately show ?thesis by auto
qed

lemma payload_word:
  assumes inv: "heap_ok L h" and b: "(p, n) \<in> live L" and i: "8 * i < n"
  shows "mem h (p + 8 * i) \<noteq> None"
proof -
  obtain s where s: "(p, s, Used) \<in> layout_blocks L" "n = s - 16" using b by (auto simp: live_blocks)
  have "tagged (mem h) (p, s, Used)" by (rule mem_invD [OF heap_okD(2) [OF inv] s(1)])
  moreover have "8 dvd p" using heap_block_ok [OF inv s(1)] dvd_16_8 by auto
  ultimately show ?thesis using i s(2) by (auto simp: tagged_def mapped_def)
qed

section \<open>Clearing\<close>

text \<open>A byte of the memory: the machine is little-endian.\<close>

definition byte_at :: "balloc_heap \<Rightarrow> nat \<Rightarrow> u64 option" where
  "byte_at h a = map_option (\<lambda>w. take_bit 8 (drop_bit (8 * (a mod 8)) w)) (mem h (8 * (a div 8)))"

lemma byte_of_word: "8 dvd p \<Longrightarrow> byte_at h (p + j) = map_option (\<lambda>w. take_bit 8 (drop_bit (8 * (j mod 8)) w)) (mem h (p + 8 * (j div 8)))"
  by (auto simp: byte_at_def elim!: dvdE)

lemma masked_byte:
  assumes "j < r"
  shows "take_bit 8 (drop_bit (8 * j) (w AND NOT (mask (8 * r)) :: u64)) = 0"
  by (rule bit_eqI)
    (use assms in \<open>auto simp: bit_take_bit_iff bit_drop_bit_eq bit_and_iff bit_not_iff bit_mask_iff\<close>)

lemma zero_words:
  assumes "\<And>i. i < k \<Longrightarrow> mem h (p + 8 * i) \<noteq> None"
  shows "\<exists>m. ofor (\<lambda>i. put_word (p + 8 * i) 0) [0..<k] h = Some (h\<lparr>mem := m\<rparr>) \<and>
    (\<forall>i<k. m (p + 8 * i) = Some 0) \<and> (\<forall>x. (\<forall>i<k. x \<noteq> p + 8 * i) \<longrightarrow> m x = mem h x)"
proof -
  have "\<exists>h'. ofor (\<lambda>i. put_word (p + 8 * i) 0) [0..<k] h = Some h' \<and>
    (\<exists>m. h' = h\<lparr>mem := m\<rparr> \<and> (\<forall>i<k. m (p + 8 * i) = Some 0) \<and> (\<forall>x. (\<forall>i<k. x \<noteq> p + 8 * i) \<longrightarrow> m x = mem h x))"
  proof (induction rule: ofor_upt_rule [OF le0, consumes 0, case_names init step])
    case init
    then show ?case by (intro exI [of _ "mem h"]) simp
  next
    case (step i h')
    then obtain m where m: "h' = h\<lparr>mem := m\<rparr>" "\<forall>j<i. m (p + 8 * j) = Some 0" "\<forall>x. (\<forall>j<i. x \<noteq> p + 8 * j) \<longrightarrow> m x = mem h x"
      by blast
    then have "mem h' (p + 8 * i) \<noteq> None" using assms step(2) by simp
    then have "put_word (p + 8 * i) 0 h' = Some (h\<lparr>mem := m(p + 8 * i \<mapsto> 0)\<rparr>)" using m(1) by simp
    then show ?case using m(2,3) by (auto simp: less_Suc_eq)
  qed
  then show ?thesis by blast
qed

lemma mem_zero_ok:
  assumes inv: "heap_ok L h" and b: "(p, n) \<in> live L" and t: "t \<le> n"
  shows "\<exists>h'. mem_zero p t h = Some h' \<and> heap_ok L h' \<and> (\<forall>j<t. byte_at h' (p + j) = Some 0) \<and>
    keeps (live L - {(p, n)}) h h'"
proof -
  note al = live_aligned [OF heap_okD(1) [OF inv] b]
  have p8: "8 dvd p" using al dvd_16_8 by auto
  have words: "mem h (p + 8 * i) \<noteq> None" if "8 * i < n" for i by (rule payload_word [OF inv b that])
  have lt: "8 * i < n" if "i < t div 8" for i using that t by linarith
  obtain m where m: "ofor (\<lambda>i. put_word (p + 8 * i) 0) [0..<t div 8] h = Some (h\<lparr>mem := m\<rparr>)"
    "\<forall>i<t div 8. m (p + 8 * i) = Some 0" "\<forall>x. (\<forall>i<t div 8. x \<noteq> p + 8 * i) \<longrightarrow> m x = mem h x"
    using zero_words [of "t div 8" h p] words lt by blast
  have in_range: "m x = mem h x" if "x < p \<or> p + n \<le> x" for x
    using m(3) that lt by (metis add_le_cancel_left le_add1 not_le)
  have dom: "m x \<noteq> None" if "mem h x \<noteq> None" for x using m(2,3) that by (metis option.distinct(1))
  show ?thesis
  proof (cases "t mod 8 = 0")
    case True
    have "byte_at (h\<lparr>mem := m\<rparr>) (p + j) = Some 0" if "j < t" for j
    proof -
      have "j div 8 < t div 8" using that True by (metis div_less_iff_less_mult dvd_div_mult_self mod_0_imp_dvd zero_less_numeral)
      then show ?thesis using m(2) p8 by (simp add: byte_of_word)
    qed
    then show ?thesis using m(1) True payload_write [OF inv b in_range dom] by (auto simp: mem_zero_def)
  next
    case False
    let ?q = "p + 8 * (t div 8)"
    have q: "8 * (t div 8) < n" using False t by presburger
    have mq: "m ?q = mem h ?q" using m(3) by simp
    then obtain w where w: "m ?q = Some w" using words [OF q] by auto
    let ?v = "w AND NOT (mask (8 * (t mod 8)))"
    have "mem_zero p t h = Some (h\<lparr>mem := m(?q \<mapsto> ?v)\<rparr>)"
      using m(1) w False by (simp add: mem_zero_def get_word_def)
    moreover have "byte_at (h\<lparr>mem := m(?q \<mapsto> ?v)\<rparr>) (p + j) = Some 0" if "j < t" for j
    proof (cases "j div 8 = t div 8")
      case True
      then have "j mod 8 < t mod 8" using that by (metis div_mult_mod_eq nat_add_left_cancel_less)
      from masked_byte [OF this, of w] show ?thesis using p8 True by (simp add: byte_of_word)
    next
      case ne: False
      then have "j div 8 < t div 8" using that by (meson div_le_mono le_neq_implies_less less_imp_le_nat)
      then show ?thesis using m(2) p8 by (simp add: byte_of_word)
    qed
    moreover have "heap_ok L (h\<lparr>mem := m(?q \<mapsto> ?v)\<rparr>)" "keeps (live L - {(p, n)}) h (h\<lparr>mem := m(?q \<mapsto> ?v)\<rparr>)"
      by (rule payload_write [OF inv b]; use in_range dom q in auto)+
    ultimately show ?thesis by blast
  qed
qed

text \<open>\<open>bcalloc\<close>: a product that overflows is refused, and the payload comes back cleared.\<close>

lemma product_fits:
  fixes m s :: u64
  assumes "\<not> (m \<noteq> 0 \<and> s > - 1 div m)"
  shows "unat (m * s) = unat m * unat s"
proof (cases "m = 0")
  case False
  then have "s \<le> - 1 div m" using assms not_less by blast
  then have "unat s \<le> unat (- 1 div m :: u64)" by (simp only: word_le_nat_alt)
  also have "\<dots> = (2 ^ 64 - 1) div unat m"
    by (simp add: unat_div unsigned_minus_1_eq_mask mask_eq_exp_minus_1)
  finally have "unat m * unat s \<le> unat m * ((2 ^ 64 - 1) div unat m)" by (rule mult_le_mono2)
  also have "\<dots> \<le> 2 ^ 64 - 1" by simp
  finally have "unat m * unat s < 2 ^ 64" by simp
  then show ?thesis by (simp add: unat_word_ariths(2))
qed simp

text \<open>When there is no block for a request: none fits, and the system refuses a chunk.\<close>

definition refused :: "(u64 \<Rightarrow> nat option) \<Rightarrow> u64 \<Rightarrow> layout \<Rightarrow> bool" where
  "refused mmap sz L \<longleftrightarrow> mmap (grow_total (request_size sz)) = None \<and> (\<forall>n. \<not> fits L (request_size sz) n)"

lemma bcalloc_ok:
  assumes inv: "heap_ok L h" "settled L" and os: "mmap_ok mmap h" and sz: "unat n * unat sz \<le> 2 ^ 62"
  shows "\<exists>p L' h'. bcalloc mmap n sz h = Some (p, h') \<and> heap_ok L' h' \<and> settled L' \<and> keeps (live L) h h' \<and>
    (p = 0 \<and> L' = L \<and> h' = h \<and> (n * sz = 0 \<or> refused mmap (n * sz) L) \<or>
     p \<noteq> 0 \<and> allocates (n * sz) L p L' \<and> (\<forall>j<unat n * unat sz. byte_at h' (p + j) = Some 0))"
proof -
  have "\<not> (n \<noteq> 0 \<and> sz > - 1 div n)"
  proof
    assume "n \<noteq> 0 \<and> sz > - 1 div n"
    then have n: "0 < unat n" and "unat (- 1 div n :: u64) < unat sz" by (auto simp: word_less_nat_alt unat_gt_0)
    then have "(2 ^ 64 - 1) div unat n < unat sz"
      by (simp add: unat_div unsigned_minus_1_eq_mask mask_eq_exp_minus_1)
    then have "2 ^ 64 - 1 < unat sz * unat n" using n by (simp add: div_less_iff_less_mult)
    then show False using sz by (simp add: mult.commute)
  qed
  then have t: "unat (n * sz) = unat n * unat sz" and go: "(n \<noteq> 0 \<and> sz > - 1 div n) = False"
    using product_fits by blast+
  then have "unat (n * sz) \<le> 2 ^ 62" using sz by simp
  from balloc_ok [OF inv os this] obtain p L' h1 where b: "balloc mmap (n * sz) h = Some (p, h1)" "heap_ok L' h1"
    "settled L'" "keeps (live L) h h1" and cases: "p = 0 \<and> L' = L \<and> h1 = h \<and> (n * sz = 0 \<or> refused mmap (n * sz) L) \<or>
      p \<noteq> 0 \<and> allocates (n * sz) L p L'"
    unfolding refused_def by blast
  from cases show ?thesis
  proof
    assume "p = 0 \<and> L' = L \<and> h1 = h \<and> (n * sz = 0 \<or> refused mmap (n * sz) L)"
    then show ?thesis using b inv by (auto simp: bcalloc_def go)
  next
    assume p: "p \<noteq> 0 \<and> allocates (n * sz) L p L'"
    then obtain k where k: "live L' = insert (p, k) (live L)" "\<forall>j. (p, j) \<notin> live L" "unat (n * sz) \<le> k"
      by (auto simp: allocates_def)
    then obtain h2 where h2: "mem_zero p (unat (n * sz)) h1 = Some h2" "heap_ok L' h2"
      "\<forall>j<unat (n * sz). byte_at h2 (p + j) = Some 0" "keeps (live L' - {(p, k)}) h1 h2"
      using mem_zero_ok [OF b(2), of p k "unat (n * sz)"] by auto
    have "live L' - {(p, k)} = live L" using k by auto
    then have "keeps (live L) h h2" using keeps_trans [OF b(4)] h2(4) by simp
    moreover have "bcalloc mmap n sz h = Some (p, h2)" using b(1) h2(1) p by (simp add: bcalloc_def go Let_def)
    ultimately show ?thesis using p h2 b(3) t by auto
  qed
qed

lemma bcalloc_overflow: "2 ^ 64 \<le> unat n * unat sz \<Longrightarrow> bcalloc mmap n sz h = Some (0, h)"
proof -
  assume a: "2 ^ 64 \<le> unat n * unat sz"
  have "n \<noteq> 0 \<and> sz > - 1 div n"
  proof (rule ccontr)
    assume "\<not> ?thesis"
    then have "unat n * unat sz = unat (n * sz)" using product_fits by metis
    also have "\<dots> < 2 ^ 64" using unsigned_less [of "n * sz"] by simp
    finally show False using a by simp
  qed
  then show ?thesis by (simp add: bcalloc_def)
qed

section \<open>Copying\<close>

lemma copy_words:
  assumes "\<And>i. i < k \<Longrightarrow> mem h (d + 8 * i) \<noteq> None" "\<And>i. i < k \<Longrightarrow> mem h (p + 8 * i) \<noteq> None"
    and apart: "\<And>i j. i < k \<Longrightarrow> j < k \<Longrightarrow> p + 8 * i \<noteq> d + 8 * j"
  shows "\<exists>m. ofor (\<lambda>i h. do { w \<leftarrow> get_word h (p + 8 * i); put_word (d + 8 * i) w h }) [0..<k] h = Some (h\<lparr>mem := m\<rparr>) \<and>
    (\<forall>i<k. m (d + 8 * i) = mem h (p + 8 * i)) \<and> (\<forall>x. (\<forall>i<k. x \<noteq> d + 8 * i) \<longrightarrow> m x = mem h x)"
proof -
  let ?f = "\<lambda>i h. do { w \<leftarrow> get_word h (p + 8 * i); put_word (d + 8 * i) w h }"
  have "\<exists>h'. ofor ?f [0..<k] h = Some h' \<and>
    (\<exists>m. h' = h\<lparr>mem := m\<rparr> \<and> (\<forall>i<k. m (d + 8 * i) = mem h (p + 8 * i)) \<and> (\<forall>x. (\<forall>i<k. x \<noteq> d + 8 * i) \<longrightarrow> m x = mem h x))"
  proof (induction rule: ofor_upt_rule [OF le0, consumes 0, case_names init step])
    case init
    then show ?case by (intro exI [of _ "mem h"]) simp
  next
    case (step i h')
    then obtain m where m: "h' = h\<lparr>mem := m\<rparr>" "\<forall>j<i. m (d + 8 * j) = mem h (p + 8 * j)"
      "\<forall>x. (\<forall>j<i. x \<noteq> d + 8 * j) \<longrightarrow> m x = mem h x"
      by blast
    have "m (p + 8 * i) = mem h (p + 8 * i)" "m (d + 8 * i) = mem h (d + 8 * i)"
      using m(3) apart [of i] step(2) by auto
    moreover obtain w where "mem h (p + 8 * i) = Some w" using assms(2) [of i] step(2) by auto
    ultimately have "?f i h' = Some (h\<lparr>mem := m(d + 8 * i \<mapsto> w)\<rparr>)" "mem h (p + 8 * i) = Some w"
      using m(1) assms(1) [of i] step(2) by (simp_all add: get_word_def)
    then show ?case using m(2,3) by (auto simp: less_Suc_eq)
  qed
  then show ?thesis by blast
qed

lemma same_bytes:
  assumes "8 dvd d" "8 dvd p" "\<And>i. 8 * i < n \<Longrightarrow> mem h' (d + 8 * i) = mem h (p + 8 * i)" "j < n"
  shows "byte_at h' (d + j) = byte_at h (p + j)"
proof -
  have "8 * (j div 8) < n" using assms(4) by (meson le_less_trans times_div_less_eq_dividend)
  then show ?thesis using assms(1-3) by (simp add: byte_of_word)
qed

text \<open>A block that moves: the new payload starts with the bytes of the old one.\<close>

lemma move_ok:
  assumes inv: "heap_ok L h" "settled L" and p: "(p, n) \<in> live L" and q: "(q, k) \<in> live L" and qp: "q \<noteq> p" "n \<le> k"
  shows "\<exists>h1 L' h'. mem_copy q p n h = Some h1 \<and> bfree p h1 = Some h' \<and> heap_ok L' h' \<and> settled L' \<and>
    live L' = live L - {(p, n)} \<and> keeps (live L - {(p, n), (q, k)}) h h' \<and>
    (\<forall>j<n. byte_at h' (q + j) = byte_at h (p + j))"
proof -
  note wf = heap_okD(1) [OF inv(1)]
  note ap = live_aligned [OF wf p] and aq = live_aligned [OF wf q]
  have n8: "8 dvd n" using ap dvd_16_8 by auto
  have dis: "p + n + 16 \<le> q \<or> q + k + 16 \<le> p" by (rule live_disjoint [OF wf p q]) (use qp in auto)
  have lt: "8 * i < n" if "i < n div 8" for i using that n8 by (auto elim!: dvdE)
  have apart: "p + 8 * i \<noteq> q + 8 * j" if "i < n div 8" "j < n div 8" for i j
    using dis lt [OF that(1)] lt [OF that(2)] qp(2) by linarith
  have wq: "mem h (q + 8 * i) \<noteq> None" and wp: "mem h (p + 8 * i) \<noteq> None" if "i < n div 8" for i
    using payload_word [OF inv(1) q] payload_word [OF inv(1) p] lt [OF that] qp(2) by auto
  obtain m where m: "mem_copy q p n h = Some (h\<lparr>mem := m\<rparr>)" "\<forall>i<n div 8. m (q + 8 * i) = mem h (p + 8 * i)"
    "\<forall>x. (\<forall>i<n div 8. x \<noteq> q + 8 * i) \<longrightarrow> m x = mem h x"
    using copy_words [OF wq wp apart] unfolding mem_copy_def by blast
  let ?h1 = "h\<lparr>mem := m\<rparr>"
  have range: "m x = mem h x" if "x < q \<or> q + k \<le> x" for x
  proof -
    have "x \<noteq> q + 8 * i" if "i < n div 8" for i using lt [OF that] \<open>x < q \<or> q + k \<le> x\<close> qp(2) by linarith
    then show ?thesis using m(3) by blast
  qed
  have dom: "m x \<noteq> None" if "mem h x \<noteq> None" for x
  proof (cases "\<exists>i<n div 8. x = q + 8 * i")
    case True
    then obtain i where i: "i < n div 8" "x = q + 8 * i" by blast
    then have "m x = mem h (p + 8 * i)" using m(2) by simp
    then show ?thesis using wp [OF i(1)] by simp
  next
    case False
    then show ?thesis using m(3) that by metis
  qed
  note w = payload_write [OF inv(1) q range dom]
  obtain s where s: "(p, s, Used) \<in> layout_blocks L" "n = s - 16" using p by (auto simp: live_blocks)
  obtain L' h' where h': "bfree p ?h1 = Some h'" "heap_ok L' h'" "settled L'" "live L' = live L - {(p, n)}"
    "keeps (live L') ?h1 h'"
    using bfree_ok [OF w(1) inv(2) s(1)] s(2) by auto
  have "keeps (live L - {(p, n), (q, k)}) h h'"
    by (rule keeps_trans [OF keeps_mono [OF w(2)] keeps_mono [OF h'(5)]]) (auto simp: h'(4))
  moreover have "byte_at h' (q + j) = byte_at h (p + j)" if "j < n" for j
  proof (rule same_bytes [OF _ _ _ that])
    show "8 dvd q" "8 dvd p" using ap aq dvd_16_8 by auto
    fix i
    assume i: "8 * i < n"
    have "(q, k) \<in> live L'" using h'(4) q qp(1) by auto
    then have "mem h' (q + 8 * i) = m (q + 8 * i)" using h'(5) i qp(2) by (simp add: keeps_def)
    moreover have "i < n div 8" using i n8 by (auto elim!: dvdE)
    ultimately show "mem h' (q + 8 * i) = mem h (p + 8 * i)" using m(2) by simp
  qed
  ultimately show ?thesis using m(1) h' by blast
qed

definition reallocates :: "(u64 \<Rightarrow> nat option) \<Rightarrow> u64 \<Rightarrow> layout \<Rightarrow> nat \<times> nat \<Rightarrow> balloc_heap \<Rightarrow> nat \<Rightarrow> layout \<Rightarrow> balloc_heap \<Rightarrow> bool" where
  "reallocates mmap sz L b h q L' h' \<longleftrightarrow> (case b of (p, n) \<Rightarrow>
     if sz = 0 then q = 0 \<and> live L' = live L - {b}
     else if unat sz \<le> n then q = p \<and> L' = L \<and> h' = h
     else q = 0 \<and> L' = L \<and> h' = h \<and> refused mmap sz L \<or>
       q \<noteq> 0 \<and> (\<exists>k. unat sz \<le> k \<and> live L' = insert (q, k) (live L - {b}) \<and> (\<forall>j. (q, j) \<notin> live L) \<and>
         (\<forall>j<n. byte_at h' (q + j) = byte_at h (p + j))))"

lemma brealloc_ok:
  assumes inv: "heap_ok L h" "settled L" and os: "mmap_ok mmap h" and sz: "unat sz \<le> 2 ^ 62"
    and b: "(p, n) \<in> live L"
  shows "\<exists>q L' h'. brealloc mmap p sz h = Some (q, h') \<and> heap_ok L' h' \<and> settled L' \<and>
    keeps (live L - {(p, n)}) h h' \<and> reallocates mmap sz L (p, n) h q L' h'"
proof -
  obtain s where s: "(p, s, Used) \<in> layout_blocks L" "n = s - 16" using b by (auto simp: live_blocks)
  note ok = heap_block_ok [OF inv(1) s(1)]
  have p0: "p \<noteq> 0" using ok by simp
  have size: "blk_size h (hdrp p) = Some (word_of_nat s)" by (rule heap_reads(1) [OF inv(1) inv(1) s(1)])
  have un: "unat (word_of_nat s - of_nat DSIZE :: u64) = n"
  proof -
    have "word_of_nat s - of_nat DSIZE = (word_of_nat n :: u64)" using ok s(2) by (simp add: DSIZE_def of_nat_diff)
    moreover have "unat (word_of_nat n :: u64) = n" using ok s(2) by (intro unat_of_nat_small) linarith
    ultimately show ?thesis by simp
  qed
  consider (free) "sz = 0" | (stay) "sz \<noteq> 0" "unat sz \<le> n" | (move) "sz \<noteq> 0" "n < unat sz" by linarith
  then show ?thesis
  proof cases
    case free
    obtain L' h' where "bfree p h = Some h'" "heap_ok L' h'" "settled L'" "live L' = live L - {(p, n)}" "keeps (live L') h h'"
      using bfree_ok [OF inv s(1)] s(2) by auto
    then show ?thesis using free p0 by (auto simp: brealloc_def reallocates_def)
  next
    case stay
    have "sz \<le> word_of_nat s - of_nat DSIZE" using stay(2) un by (simp only: word_le_nat_alt)
    then have "brealloc mmap p sz h = Some (p, h)" using size p0 stay(1) by (simp add: brealloc_def Let_def)
    then show ?thesis using stay inv by (auto simp: reallocates_def)
  next
    case move
    have nle: "\<not> sz \<le> word_of_nat s - of_nat DSIZE" using move(2) un by (simp only: word_le_nat_alt)
    obtain q L1 h1 where q: "balloc mmap sz h = Some (q, h1)" "heap_ok L1 h1" "settled L1" "keeps (live L) h h1"
      and cs: "q = 0 \<and> L1 = L \<and> h1 = h \<and> refused mmap sz L \<or> q \<noteq> 0 \<and> allocates sz L q L1"
      using balloc_ok [OF inv os sz] move(1) unfolding refused_def by blast
    from cs show ?thesis
    proof
      assume q0: "q = 0 \<and> L1 = L \<and> h1 = h \<and> refused mmap sz L"
      then have "brealloc mmap p sz h = Some (0, h)" using q(1) size p0 move(1) nle by (simp add: brealloc_def Let_def)
      then show ?thesis using move inv q0 by (auto simp: reallocates_def)
    next
      assume "q \<noteq> 0 \<and> allocates sz L q L1"
      then obtain k where k: "q \<noteq> 0" "live L1 = insert (q, k) (live L)" "\<forall>j. (q, j) \<notin> live L" "unat sz \<le> k"
        by (auto simp: allocates_def)
      have qp: "q \<noteq> p" "n \<le> k" using k b move(2) by auto
      obtain h2 L' h' where m: "mem_copy q p n h1 = Some h2" "bfree p h2 = Some h'" "heap_ok L' h'" "settled L'"
        "live L' = live L1 - {(p, n)}" "keeps (live L1 - {(p, n), (q, k)}) h1 h'"
        "\<forall>j<n. byte_at h' (q + j) = byte_at h1 (p + j)"
        using move_ok [OF q(2,3) _ _ qp] b k(2) by auto
      have "brealloc mmap p sz h = Some (q, h')"
        using q(1) size p0 move(1) nle k(1) m(1,2) un by (simp add: brealloc_def Let_def)
      moreover have "live L1 - {(p, n), (q, k)} = live L - {(p, n)}" using k by auto
      then have "keeps (live L - {(p, n)}) h h'" using keeps_trans [OF keeps_mono [OF q(4)]] m(6) by auto
      moreover have "byte_at h' (q + j) = byte_at h (p + j)" if j: "j < n" for j
      proof -
        have "byte_at h1 (p + j) = byte_at h (p + j)"
        proof (rule same_bytes [OF _ _ _ j])
          show "8 dvd p" "8 dvd p" using ok dvd_16_8 by auto
          show "mem h1 (p + 8 * i) = mem h (p + 8 * i)" if "8 * i < n" for i
            using q(4) b that by (simp add: keeps_def)
        qed
        then show ?thesis using m(7) j by simp
      qed
      moreover have "live L' = insert (q, k) (live L - {(p, n)})" using m(5) k qp by auto
      ultimately show ?thesis using m(3,4) k move by (auto simp: reallocates_def)
    qed
  qed
qed

section \<open>Reset\<close>

definition in_chunks :: "layout \<Rightarrow> nat \<Rightarrow> bool" where
  "in_chunks L a \<longleftrightarrow> (\<exists>c\<in>set L. fst c \<le> a \<and> a < fst c + chunk_size c)"

lemma unmap_chunks_ok:
  assumes "chunk_list (mem h) p K" "\<forall>c\<in>set K. fenced (mem h) c \<and> chunk_ok c" "sorted_wrt apart K"
  shows "unmap_chunks p h = Some (h\<lparr>mem := \<lambda>a. if in_chunks K a then None else mem h a\<rparr>)"
  using assms
proof (induction K arbitrary: p h)
  case Nil
  then show ?case by (subst unmap_chunks.simps) (simp add: in_chunks_def)
next
  case (Cons c K)
  then obtain w where w: "p = fst c" "mem h p = Some w" "chunk_list (mem h) (unat w) K" by auto
  have ok: "0 < fst c" "fst c + chunk_size c \<le> 2 ^ 64" "64 \<le> chunk_size c" using Cons.prems(2) by (auto simp: chunk_ok_def)
  have sz: "mem h (p + 8) = Some (word_of_nat (chunk_size c))" using Cons.prems(2) w(1) by (simp add: fenced_def)
  have un: "unat (word_of_nat (chunk_size c) :: u64) = chunk_size c" using ok by (intro unat_of_nat_small) linarith
  let ?h = "os_unmap p (chunk_size c) h"
  have same: "mem ?h a = mem h a" if d: "d \<in> set K" and a: "fst d \<le> a" "a < fst d + chunk_size d" for d a
  proof -
    have "apart c d" using Cons.prems(3) d by simp
    then show ?thesis using a w(1) by (auto simp: os_unmap_def apart_def)
  qed
  have big: "64 \<le> chunk_size d" if "d \<in> set K" for d using Cons.prems(2) that by (auto simp: chunk_ok_def)
  have "chunk_list (mem ?h) (unat w) K"
  proof -
    have "mem ?h (fst d) = mem h (fst d)" if "d \<in> set K" for d using same [OF that] big [OF that] by simp
    then show ?thesis using w(3) chunk_list_cong [of K "mem ?h" "mem h"] by blast
  qed
  moreover have "\<forall>d\<in>set K. fenced (mem ?h) d \<and> chunk_ok d"
  proof
    fix d
    assume d: "d \<in> set K"
    then have "fenced (mem h) d" "chunk_ok d" using Cons.prems(2) by auto
    then show "fenced (mem ?h) d \<and> chunk_ok d" using same [OF d] big [OF d] by (simp add: fenced_def)
  qed
  ultimately have "unmap_chunks (unat w) ?h = Some (?h\<lparr>mem := \<lambda>a. if in_chunks K a then None else mem ?h a\<rparr>)"
    using Cons.IH [of ?h "unat w"] Cons.prems(3) by simp
  moreover have "?h\<lparr>mem := \<lambda>a. if in_chunks K a then None else mem ?h a\<rparr> =
      h\<lparr>mem := \<lambda>a. if in_chunks (c # K) a then None else mem h a\<rparr>"
  proof -
    have "(\<lambda>a. if in_chunks K a then None else mem ?h a) = (\<lambda>a. if in_chunks (c # K) a then None else mem h a)"
      using w(1) by (intro ext) (auto simp: os_unmap_def in_chunks_def)
    moreover have "?h\<lparr>mem := f\<rparr> = h\<lparr>mem := f\<rparr>" for f by (simp add: os_unmap_def)
    ultimately show ?thesis by simp
  qed
  ultimately show ?case
    using w(1,2) sz un ok(1) by (subst unmap_chunks.simps) (simp add: get_word_def)
qed

lemma empty_heap_ok:
  "length cs = NCLASS \<Longrightarrow> \<forall>c<NCLASS. cs ! c = 0 \<Longrightarrow>
   heap_ok [] \<lparr>mem = m, g_class = cs, g_chunks = 0, g_stats = no_stats\<rparr>"
  unfolding heap_ok_def
  by (intro exI [of _ "\<lambda>_. []"])
    (simp add: heap_inv_def wf_layout_def mem_inv_def class_inv_def listed_def stats_of_def no_stats_def
      payload_sum_def block_count_def)

lemma balloc_reset_ok:
  assumes inv: "heap_ok L h"
  shows "\<exists>h'. balloc_reset h = Some h' \<and> heap_ok [] h' \<and>
    (\<forall>a. mem h' a = (if in_chunks L a then None else mem h a))"
proof -
  note h = heap_okD [OF inv]
  have "unmap_chunks (g_chunks h) h = Some (h\<lparr>mem := \<lambda>a. if in_chunks L a then None else mem h a\<rparr>)"
    by (rule unmap_chunks_ok) (use h in \<open>auto simp: mem_inv_def wf_layout_def\<close>)
  moreover have "heap_ok [] (h\<lparr>mem := m, g_chunks := 0, g_class := replicate NCLASS 0, g_stats := no_stats\<rparr>)" for m
    using empty_heap_ok [of "replicate NCLASS 0" m] by (cases h) simp
  ultimately show ?thesis by (simp add: balloc_reset_def)
qed

end
