(* ===== verification/Balloc_Main.thy ===== *)
theory Balloc_Main
  imports Balloc_Client
begin

text \<open>
  The allocator as its clients see it: the contracts of the operations, and the runs of a client that
  frees only what it holds and stores only into what it has asked for.
\<close>

section \<open>The runs of a client\<close>

text \<open>The client knows the pointers it holds and the sizes it asked for.\<close>

type_synonym client = "(nat \<rightharpoonup> nat) \<times> balloc_heap"

definition got :: "nat \<Rightarrow> u64 \<Rightarrow> (nat \<rightharpoonup> nat) \<Rightarrow> nat \<rightharpoonup> nat" where
  "got p sz V = (if p = 0 then V else V(p \<mapsto> unat sz))"

inductive client_step :: "client \<Rightarrow> client \<Rightarrow> bool" where
  alloc: "mmap_ok mmap h \<Longrightarrow> unat sz \<le> 2 ^ 62 \<Longrightarrow> balloc mmap sz h = Some (p, h') \<Longrightarrow>
    client_step (V, h) (got p sz V, h')"
| calloc: "mmap_ok mmap h \<Longrightarrow> unat n * unat sz \<le> 2 ^ 62 \<Longrightarrow> bcalloc mmap n sz h = Some (p, h') \<Longrightarrow>
    client_step (V, h) (got p (n * sz) V, h')"
| realloc: "mmap_ok mmap h \<Longrightarrow> V p \<noteq> None \<Longrightarrow> unat sz \<le> 2 ^ 62 \<Longrightarrow> brealloc mmap p sz h = Some (q, h') \<Longrightarrow>
    client_step (V, h) (if sz \<noteq> 0 \<and> q = 0 then V else got q sz (V(p := None)), h')"
| free: "p = 0 \<or> V p \<noteq> None \<Longrightarrow> bfree p h = Some h' \<Longrightarrow> client_step (V, h) (V(p := None), h')"
| store: "V p = Some n \<Longrightarrow> p \<le> a \<Longrightarrow> a + 8 \<le> p + n \<Longrightarrow> 8 dvd a \<Longrightarrow> put_word a v h = Some h' \<Longrightarrow>
    client_step (V, h) (V, h')"
| reset: "balloc_reset h = Some h' \<Longrightarrow> client_step (V, h) (Map.empty, h')"

inductive_simps client_step_simps: "client_step (V, h) s"

definition held :: "(nat \<times> nat) set \<Rightarrow> (nat \<rightharpoonup> nat) \<Rightarrow> bool" where
  "held S V \<longleftrightarrow> (\<forall>p n. V p = Some n \<longrightarrow> (\<exists>k. (p, k) \<in> S \<and> n \<le> k)) \<and> (\<forall>p k. (p, k) \<in> S \<longrightarrow> V p \<noteq> None)"

definition client_ok :: "client \<Rightarrow> bool" where
  "client_ok s \<longleftrightarrow> (case s of (V, h) \<Rightarrow> \<exists>L. heap_ok L h \<and> settled L \<and> held (live L) V)"

lemma live_unique: "wf_layout L \<Longrightarrow> (p, m) \<in> live L \<Longrightarrow> (p, n) \<in> live L \<Longrightarrow> m = n"
  using block_unique [of L p _ Used _ Used] by (auto simp: live_blocks)

lemma held_got:
  "held S V \<Longrightarrow> unat sz \<le> k \<Longrightarrow> p \<noteq> 0 \<Longrightarrow> held (insert (p, k) S) (got p sz V)"
  unfolding held_def got_def by (auto split: if_splits)

lemma held_remove:
  assumes "held S V" "(p, k) \<in> S" "\<And>j. (p, j) \<in> S \<Longrightarrow> j = k"
  shows "held (S - {(p, k)}) (V(p := None))"
  unfolding held_def
proof (intro conjI allI impI)
  fix q n
  assume "(V(p := None)) q = Some n"
  then have q: "V q = Some n" "q \<noteq> p" by (auto split: if_splits)
  then obtain j where "(q, j) \<in> S" "n \<le> j" using assms(1) unfolding held_def by blast
  then show "\<exists>j. (q, j) \<in> S - {(p, k)} \<and> n \<le> j" using q(2) by blast
next
  fix q j
  assume "(q, j) \<in> S - {(p, k)}"
  then have "(q, j) \<in> S" "q \<noteq> p" using assms(3) by auto
  moreover from this(1) have "V q \<noteq> None" using assms(1) unfolding held_def by blast
  ultimately show "(V(p := None)) q \<noteq> None" by simp
qed

lemma held_live: "held S V \<Longrightarrow> V p \<noteq> None \<Longrightarrow> \<exists>n. (p, n) \<in> S"
  unfolding held_def by blast

lemma client_ok_init: "client_ok (Map.empty, no_heap)"
proof -
  have "heap_ok [] no_heap" using empty_heap_ok [of "replicate NCLASS 0" Map.empty] by (simp add: no_heap_def)
  then show ?thesis unfolding client_ok_def by (auto simp: settled_def held_def live_def intro!: exI [of _ "[]"])
qed

text \<open>One step of the client, from any state of the invariant: it is defined, and it keeps the invariant.\<close>

lemma alloc_client:
  assumes inv: "heap_ok L h" "settled L" "held (live L) V" and os: "mmap_ok mmap h" and sz: "unat sz \<le> 2 ^ 62"
  shows "\<exists>p h'. balloc mmap sz h = Some (p, h') \<and> client_ok (got p sz V, h')"
proof -
  obtain p L' h' where b: "balloc mmap sz h = Some (p, h')" "heap_ok L' h'" "settled L'"
    and cs: "p = 0 \<and> L' = L \<or> p \<noteq> 0 \<and> allocates sz L p L'"
    using balloc_ok [OF inv(1,2) os sz] by blast
  from cs have "held (live L') (got p sz V)"
    using inv(3) held_got [OF inv(3)] by (auto simp: allocates_def got_def)
  then show ?thesis using b by (auto simp: client_ok_def)
qed

lemma calloc_client:
  assumes inv: "heap_ok L h" "settled L" "held (live L) V" and os: "mmap_ok mmap h" and sz: "unat n * unat sz \<le> 2 ^ 62"
  shows "\<exists>p h'. bcalloc mmap n sz h = Some (p, h') \<and> client_ok (got p (n * sz) V, h')"
proof -
  obtain p L' h' where b: "bcalloc mmap n sz h = Some (p, h')" "heap_ok L' h'" "settled L'"
    and cs: "p = 0 \<and> L' = L \<or> p \<noteq> 0 \<and> allocates (n * sz) L p L'"
    using bcalloc_ok [OF inv(1,2) os sz] by blast
  from cs have "held (live L') (got p (n * sz) V)"
    using inv(3) held_got [OF inv(3)] by (auto simp: allocates_def got_def)
  then show ?thesis using b by (auto simp: client_ok_def)
qed

lemma free_client:
  assumes inv: "heap_ok L h" "settled L" "held (live L) V" and p: "V p \<noteq> None"
  shows "\<exists>h'. bfree p h = Some h' \<and> client_ok (V(p := None), h')"
proof -
  obtain n where n: "(p, n) \<in> live L" using held_live [OF inv(3) p] by blast
  then obtain s where s: "(p, s, Used) \<in> layout_blocks L" "n = s - 16" by (auto simp: live_blocks)
  obtain L' h' where "bfree p h = Some h'" "heap_ok L' h'" "settled L'" "live L' = live L - {(p, n)}"
    using bfree_ok [OF inv(1,2) s(1)] s(2) by auto
  then show ?thesis using held_remove [OF inv(3) n live_unique [OF heap_okD(1) [OF inv(1)] _ n]] by (auto simp: client_ok_def)
qed

lemma realloc_client:
  assumes inv: "heap_ok L h" "settled L" "held (live L) V" and os: "mmap_ok mmap h" and sz: "unat sz \<le> 2 ^ 62"
    and p: "V p \<noteq> None"
  shows "\<exists>q h'. brealloc mmap p sz h = Some (q, h') \<and>
    client_ok (if sz \<noteq> 0 \<and> q = 0 then V else got q sz (V(p := None)), h')"
proof -
  note wf = heap_okD(1) [OF inv(1)]
  obtain n where n: "(p, n) \<in> live L" using held_live [OF inv(3) p] by blast
  then have p0: "p \<noteq> 0" using live_aligned [OF wf] by fastforce
  obtain q L' h' where b: "brealloc mmap p sz h = Some (q, h')" "heap_ok L' h'" "settled L'"
    and r: "reallocates mmap sz L (p, n) h q L' h'"
    using brealloc_ok [OF inv(1,2) os sz n] by blast
  have "held (live L') (if sz \<noteq> 0 \<and> q = 0 then V else got q sz (V(p := None)))"
  proof -
    consider (free) "sz = 0" "q = 0" "live L' = live L - {(p, n)}"
      | (stay) "sz \<noteq> 0" "unat sz \<le> n" "q = p" "L' = L"
      | (fail) "sz \<noteq> 0" "q = 0" "L' = L"
      | (move) k where "sz \<noteq> 0" "q \<noteq> 0" "unat sz \<le> k" "live L' = insert (q, k) (live L - {(p, n)})" "\<forall>j. (q, j) \<notin> live L"
      using r by (auto simp: reallocates_def split: if_splits)
    then show ?thesis
    proof cases
      case free
      then show ?thesis using held_remove [OF inv(3) n live_unique [OF wf _ n]] by (simp add: got_def)
    next
      case stay
      have "held (live L) (V(p \<mapsto> unat sz))"
        using inv(3) n stay(2) unfolding held_def by auto
      then show ?thesis using stay p0 by (simp add: got_def)
    next
      case fail
      then show ?thesis using inv(3) by simp
    next
      case move
      have "held (live L - {(p, n)}) (V(p := None))" by (rule held_remove [OF inv(3) n live_unique [OF wf _ n]])
      from held_got [OF this move(3,2)] show ?thesis using move by simp
    qed
  qed
  then show ?thesis using b by (auto simp: client_ok_def)
qed

lemma store_client:
  assumes inv: "heap_ok L h" "settled L" "held (live L) V" and a: "V p = Some n" "p \<le> a" "a + 8 \<le> p + n" "8 dvd a"
  shows "\<exists>h'. put_word a v h = Some h' \<and> client_ok (V, h')"
proof -
  obtain k where k: "(p, k) \<in> live L" "n \<le> k" using inv(3) a(1) unfolding held_def by blast
  have "a < p + k" using k(2) a(3) by linarith
  from client_store [OF inv(1) k(1) a(2) this a(4), of v] show ?thesis using inv by (auto simp: client_ok_def)
qed

lemma reset_client:
  assumes "heap_ok L h"
  shows "\<exists>h'. balloc_reset h = Some h' \<and> client_ok (Map.empty, h')"
  using balloc_reset_ok [OF assms] by (fastforce simp: client_ok_def settled_def held_def live_def)

lemma client_ok_step:
  assumes ok: "client_ok s" and step: "client_step s t"
  shows "client_ok t"
proof -
  obtain V h where s: "s = (V, h)" by fastforce
  obtain L where L: "heap_ok L h" "settled L" "held (live L) V" using ok s by (auto simp: client_ok_def)
  from step [unfolded s] show ?thesis
  proof cases
    case (alloc mmap sz p h')
    then show ?thesis using alloc_client [OF L] by fastforce
  next
    case (calloc mmap n sz p h')
    then show ?thesis using calloc_client [OF L] by fastforce
  next
    case (realloc mmap p sz q h')
    then show ?thesis using realloc_client [OF L realloc(2,4,3)] by fastforce
  next
    case (free p h')
    show ?thesis
    proof (cases "p = 0")
      case True
      have "V 0 = None" 
      proof (rule ccontr)
        assume "V 0 \<noteq> None"
        then obtain n where "(0, n) \<in> live L" using held_live [OF L(3)] by blast
        then show False using live_aligned [OF heap_okD(1) [OF L(1)]] by fastforce
      qed
      then have "V(0 := None) = V" by auto
      then show ?thesis using True free ok s by (simp add: bfree_def)
    next
      case False
      then show ?thesis using free free_client [OF L, of p] by auto
    qed
  next
    case (store p n a v h')
    then show ?thesis using store_client [OF L store(2-5), of v] by auto
  next
    case (reset h')
    then show ?thesis using reset_client [OF L(1)] by fastforce
  qed
qed

interpretation client_run: inductive_invariant "(Map.empty, no_heap)" client_step client_ok
  by unfold_locales (auto intro: client_ok_init client_ok_step)

section \<open>Counting\<close>

lemma card_blocks_at:
  assumes "\<forall>b\<in>set bs. block_ok b"
  shows "finite (payloads (blocks_at p bs)) \<and> card (payloads (blocks_at p bs)) = run_count Used bs"
  using assms
proof (induction bs arbitrary: p)
  case (Cons b bs)
  obtain s t where b: "b = (s, t)" by fastforce
  have "0 < s" using Cons.prems b by (auto simp: block_ok_def)
  then have "(p, n) \<notin> payloads (blocks_at (p + s) bs)" for n
    by (auto simp: payloads_def dest: blocks_at_bounds)
  then show ?case using Cons.IH [of "p + s"] Cons.prems b by simp
qed simp

lemma card_live:
  "wf_layout L \<Longrightarrow> finite (live L) \<and> card (live L) = block_count Used L"
proof (induction L)
  case Nil
  then show ?case by (simp add: live_def block_count_def)
next
  case (Cons c L)
  have wf: "wf_layout L" and ok: "\<forall>b\<in>set (snd c). block_ok b" using Cons.prems by (auto simp: wf_layout_def chunk_ok_def)
  note c = card_blocks_at [OF ok, of "fst c + 32"]
  have split: "live (c # L) = payloads (blocks_at (fst c + 32) (snd c)) \<union> live L"
    by (simp add: live_def chunk_blocks_def)
  have "payloads (blocks_at (fst c + 32) (snd c)) \<inter> live L = {}"
  proof (rule ccontr)
    assume "\<not> ?thesis"
    then obtain p s s' where p: "(p, s, Used) \<in> chunk_blocks c" "(p, s', Used) \<in> layout_blocks L"
      by (auto simp: payloads_def live_def chunk_blocks_def)
    then obtain d where d: "d \<in> set L" "(p, s', Used) \<in> chunk_blocks d" by (auto simp: layout_blocks_def)
    have "0 < s" "0 < s'"
      using layout_block_ok [OF Cons.prems, of p s Used] layout_block_ok [OF wf p(2)] p(1) by auto
    moreover have "apart c d" using Cons.prems d(1) by (auto simp: wf_layout_def)
    ultimately show False using chunk_blocks_bounds [OF p(1)] chunk_blocks_bounds [OF d(2)] by (auto simp: apart_def)
  qed
  then show ?case using c Cons.IH [OF wf] split
    by (simp add: card_Un_disjoint block_count_def run_count_def)
qed

lemma live_held:
  assumes "wf_layout L" "held (live L) V"
  shows "fst ` live L = dom V" "inj_on fst (live L)"
proof -
  show "fst ` live L = dom V" using assms(2) unfolding held_def by force
  show "inj_on fst (live L)" using live_unique [OF assms(1)] by (auto simp: inj_on_def)
qed

lemma blocks_held:
  assumes "wf_layout L" "held (live L) V"
  shows "block_count Used L = card (dom V)"
  using card_live [OF assms(1)] card_image [OF live_held(2) [OF assms]] live_held(1) [OF assms] by simp

lemma held_ranges:
  assumes "wf_layout L" "held (live L) V" "V p = Some m"
  shows "p \<noteq> 0 \<and> 16 dvd p \<and> p + m < 2 ^ 64" "V q = Some n \<Longrightarrow> p \<noteq> q \<Longrightarrow> p + m \<le> q \<or> q + n \<le> p"
proof -
  obtain k where k: "(p, k) \<in> live L" "m \<le> k" using assms(2,3) unfolding held_def by blast
  then show "p \<noteq> 0 \<and> 16 dvd p \<and> p + m < 2 ^ 64" using live_aligned [OF assms(1) k(1)] by auto
  assume q: "V q = Some n" "p \<noteq> q"
  then obtain j where j: "(q, j) \<in> live L" "n \<le> j" using assms(2) unfolding held_def by blast
  from live_disjoint [OF assms(1) k(1) j(1)] q(2) show "p + m \<le> q \<or> q + n \<le> p" using k(2) j(2) by auto
qed

text \<open>With nothing handed out, coalescing has left one block in every chunk.\<close>

lemma merged_free: "merged bs \<Longrightarrow> \<forall>b\<in>set bs. snd b \<noteq> Used \<Longrightarrow> length bs \<le> 1"
  by (induction bs rule: merged.induct) auto

lemma blocks_at_set: "(s, t) \<in> set bs \<Longrightarrow> \<exists>p. (p, s, t) \<in> blocks_at q bs"
  by (induction bs arbitrary: q) fastforce+

lemma all_free_whole:
  assumes inv: "heap_ok L h" "settled L" and none: "live L = {}" and c: "c \<in> set L"
  shows "\<exists>s. snd c = [(s, Listed)]"
proof -
  have "snd b \<noteq> Used" if b: "b \<in> set (snd c)" for b
  proof
    assume u: "snd b = Used"
    obtain s where "b = (s, Used)" using u by (cases b) auto
    then obtain p where "(p, s, Used) \<in> chunk_blocks c"
      using blocks_at_set [of s Used "snd c"] b unfolding chunk_blocks_def by blast
    then have "(p, s - 16) \<in> live L" using c by (auto simp: live_blocks layout_blocks_def)
    then show False using none by simp
  qed
  moreover have m: "merged (snd c)" using inv(2) c by (simp add: settled_def)
  ultimately have "length (snd c) \<le> 1" using merged_free by blast
  moreover have "snd c \<noteq> []" using wf_chunkD [OF heap_okD(1) [OF inv(1)] c] by (auto simp: chunk_ok_def chunk_size_def)
  ultimately obtain b where b: "snd c = [b]" by (cases "snd c") auto
  then have "snd b = Listed" using m \<open>\<And>b. b \<in> set (snd c) \<Longrightarrow> snd b \<noteq> Used\<close> by (cases "snd b") auto
  then show ?thesis using b by (cases b) auto
qed

section \<open>Properties\<close>

text \<open>An operating system with one region to give, for the examples.\<close>

definition small_os :: "u64 \<Rightarrow> nat option" where
  "small_os len = (if len \<noteq> 0 \<and> len \<le> 2097152 then Some 4096 else None)"

lemma small_os_ok: "mmap_ok small_os no_heap"
proof -
  have "0 < len \<and> 4096 + unat len \<le> 2 ^ 64" if len: "len \<noteq> 0" "len \<le> 2097152" for len :: u64
  proof -
    have "unat len \<le> unat (2097152 :: u64)" using len(2) by (simp only: word_le_nat_alt)
    then show ?thesis using len(1) by (simp add: word_neq_0_conv)
  qed
  then show ?thesis by (auto simp: mmap_ok_def small_os_def no_heap_def split: if_splits)
qed

lemma no_heap_ok: "heap_ok [] no_heap" "settled []"
  using empty_heap_ok [of "replicate NCLASS 0" Map.empty] by (simp_all add: no_heap_def settled_def)

lemma first_chunk: "small_os (grow_total (request_size 24)) = Some 4096"
  by (simp add: small_os_def grow_total_def request_size_def align_up_def CHUNK_def MIN_BLOCK_def
      sizeof_chunk_def WSIZE_def DSIZE_def push_bit_eq_mult)

text \<open>
  C6: On every heap that a client can reach, whatever it has allocated, cleared, resized, freed and
  stored, \<open>balloc_check\<close> terminates and returns 0; the pointers it holds are not null, 16-byte
  aligned, and the ranges it asked for lie inside the address space and do not overlap; and the
  counter of blocks in use is their number.
\<close>

theorem client_heap_consistent:
  assumes "client_step\<^sup>*\<^sup>* (Map.empty, no_heap) (V, h)"
  shows "balloc_check h = Some 0 \<and>
    (\<forall>p m. V p = Some m \<longrightarrow> p \<noteq> 0 \<and> 16 dvd p \<and> p + m < 2 ^ 64) \<and>
    (\<forall>p m q n. V p = Some m \<longrightarrow> V q = Some n \<longrightarrow> p \<noteq> q \<longrightarrow> p + m \<le> q \<or> q + n \<le> p) \<and>
    blocks_in_use (balloc_stats_get h) = of_nat (card (dom V))"
proof -
  obtain L where L: "heap_ok L h" "settled L" "held (live L) V"
    using client_run.reachable_inv [OF assms] by (auto simp: client_ok_def)
  note wf = heap_okD(1) [OF L(1)]
  have "blocks_in_use (balloc_stats_get h) = of_nat (card (dom V))"
    using heap_okD(3) [OF L(1)] blocks_held [OF wf L(3)] by (simp add: balloc_stats_get_def stats_of_def)
  then show ?thesis using balloc_check_ok [OF L(1,2)] held_ranges [OF wf L(3)] by blast
qed

text \<open>A run with one block, which the witnesses share.\<close>

lemma one_block:
  "\<exists>p h. p \<noteq> 0 \<and> client_step\<^sup>*\<^sup>* (Map.empty, no_heap) ([p \<mapsto> 24], h) \<and> balloc small_os 24 no_heap = Some (p, h)"
proof -
  obtain p L' h where b: "balloc small_os 24 no_heap = Some (p, h)"
    and cs: "p = 0 \<and> ((24 :: u64) = 0 \<or> small_os (grow_total (request_size 24)) = None) \<or> p \<noteq> 0 \<and> allocates 24 [] p L'"
    using balloc_ok [OF no_heap_ok small_os_ok, of 24] by auto
  then have p: "p \<noteq> 0" using first_chunk by auto
  have "client_step (Map.empty, no_heap) (got p 24 Map.empty, h)"
    by (rule client_step.alloc [OF small_os_ok _ b]) simp
  then show ?thesis using b p by (intro exI [of _ p] exI [of _ h]) (auto simp: got_def)
qed

theorem client_heap_consistent_witness:
  "\<exists>p h. balloc small_os 24 no_heap = Some (p, h) \<and> p \<noteq> 0 \<and> balloc_check h = Some 0 \<and>
     blocks_in_use (balloc_stats_get h) = 1"
proof -
  obtain p h where r: "p \<noteq> 0" "client_step\<^sup>*\<^sup>* (Map.empty, no_heap) ([p \<mapsto> 24], h)" "balloc small_os 24 no_heap = Some (p, h)"
    using one_block by blast
  from client_heap_consistent [OF r(2)] r show ?thesis by auto
qed

text \<open>
  C7: No call of a client in these runs is undefined or runs forever: whatever it has done before, an
  allocation of up to 2^62 bytes, freeing or resizing a pointer it holds, a store into what it asked
  for, the check and the reset all return.
\<close>

theorem client_never_stuck:
  assumes "client_step\<^sup>*\<^sup>* (Map.empty, no_heap) (V, h)" "mmap_ok mmap h"
  shows "(\<forall>sz. unat sz \<le> 2 ^ 62 \<longrightarrow> balloc mmap sz h \<noteq> None) \<and>
    (\<forall>n sz. unat n * unat sz \<le> 2 ^ 62 \<longrightarrow> bcalloc mmap n sz h \<noteq> None) \<and>
    (\<forall>p. V p \<noteq> None \<longrightarrow> bfree p h \<noteq> None) \<and>
    (\<forall>p sz. V p \<noteq> None \<longrightarrow> unat sz \<le> 2 ^ 62 \<longrightarrow> brealloc mmap p sz h \<noteq> None) \<and>
    (\<forall>p m a v. V p = Some m \<longrightarrow> p \<le> a \<longrightarrow> a + 8 \<le> p + m \<longrightarrow> 8 dvd a \<longrightarrow> put_word a v h \<noteq> None) \<and>
    balloc_check h \<noteq> None \<and> balloc_reset h \<noteq> None"
proof -
  obtain L where L: "heap_ok L h" "settled L" "held (live L) V"
    using client_run.reachable_inv [OF assms(1)] by (auto simp: client_ok_def)
  have "balloc mmap sz h \<noteq> None" if "unat sz \<le> 2 ^ 62" for sz using alloc_client [OF L assms(2) that] by auto
  moreover have "bcalloc mmap n sz h \<noteq> None" if "unat n * unat sz \<le> 2 ^ 62" for n sz
    using calloc_client [OF L assms(2) that] by auto
  moreover have "bfree p h \<noteq> None" if "V p \<noteq> None" for p using free_client [OF L that] by auto
  moreover have "brealloc mmap p sz h \<noteq> None" if "V p \<noteq> None" "unat sz \<le> 2 ^ 62" for p sz
    using realloc_client [OF L assms(2) that(2,1)] by auto
  moreover have "put_word a v h \<noteq> None" if "V p = Some m" "p \<le> a" "a + 8 \<le> p + m" "8 dvd a" for p m a v
    using store_client [OF L that] by auto
  moreover have "balloc_check h \<noteq> None" using balloc_check_ok [OF L(1,2)] by simp
  moreover have "balloc_reset h \<noteq> None" using reset_client [OF L(1)] by auto
  ultimately show ?thesis by simp
qed

theorem client_never_stuck_witness:
  "balloc small_os 100 no_heap \<noteq> None \<and> bcalloc small_os 10 100 no_heap \<noteq> None"
proof -
  have a: "unat (100 :: u64) \<le> 2 ^ 62" "unat (10 :: u64) * unat (100 :: u64) \<le> 2 ^ 62" by simp_all
  from client_never_stuck [OF rtranclp.rtrancl_refl small_os_ok] a show ?thesis by blast
qed

text \<open>
  C8: What a client stored stays: allocating, clearing, resizing or freeing another block changes no
  word of a range the client asked for.
\<close>

theorem client_contents_kept:
  assumes "client_step\<^sup>*\<^sup>* (Map.empty, no_heap) (V, h)" "mmap_ok mmap h" "unat sz \<le> 2 ^ 62"
    and "V p = Some n" "p \<le> a" "a < p + n"
  shows "(\<forall>q h'. balloc mmap sz h = Some (q, h') \<longrightarrow> mem h' a = mem h a) \<and>
    (\<forall>k q h'. unat k * unat sz \<le> 2 ^ 62 \<longrightarrow> bcalloc mmap k sz h = Some (q, h') \<longrightarrow> mem h' a = mem h a) \<and>
    (\<forall>q h'. V q \<noteq> None \<longrightarrow> q \<noteq> p \<longrightarrow> bfree q h = Some h' \<longrightarrow> mem h' a = mem h a) \<and>
    (\<forall>q r h'. V q \<noteq> None \<longrightarrow> q \<noteq> p \<longrightarrow> brealloc mmap q sz h = Some (r, h') \<longrightarrow> mem h' a = mem h a)"
proof -
  obtain L where L: "heap_ok L h" "settled L" "held (live L) V"
    using client_run.reachable_inv [OF assms(1)] by (auto simp: client_ok_def)
  obtain m where m: "(p, m) \<in> live L" "n \<le> m" using L(3) assms(4) unfolding held_def by blast
  have at: "mem h' a = mem h a" if "keeps S h h'" "(p, m) \<in> S" for S h'
    using that assms(5,6) m(2) by (simp add: keeps_def)
  have "mem h' a = mem h a" if b: "balloc mmap sz h = Some (q, h')" for q h'
  proof -
    obtain r h'' where "balloc mmap sz h = Some (r, h'')" "keeps (live L) h h''"
      using balloc_ok [OF L(1,2) assms(2,3)] by blast
    with b have "keeps (live L) h h'" by simp
    from at [OF this m(1)] show ?thesis .
  qed
  moreover have "mem h' a = mem h a" if k: "unat k * unat sz \<le> 2 ^ 62" and b: "bcalloc mmap k sz h = Some (q, h')" for k q h'
  proof -
    obtain r h'' where "bcalloc mmap k sz h = Some (r, h'')" "keeps (live L) h h''"
      using bcalloc_ok [OF L(1,2) assms(2) k] by blast
    with b have "keeps (live L) h h'" by simp
    from at [OF this m(1)] show ?thesis .
  qed
  moreover have "mem h' a = mem h a" if q: "V q \<noteq> None" "q \<noteq> p" "bfree q h = Some h'" for q h'
  proof -
    obtain j where j: "(q, j) \<in> live L" using held_live [OF L(3) q(1)] by blast
    then obtain s where s: "(q, s, Used) \<in> layout_blocks L" "j = s - 16" by (auto simp: live_blocks)
    obtain L' where "keeps (live L') h h'" "live L' = live L - {(q, j)}"
      using bfree_ok [OF L(1,2) s(1)] s(2) q(3) by auto
    moreover have "(p, m) \<in> live L - {(q, j)}" using m(1) q(2) by simp
    ultimately show ?thesis using at by simp
  qed
  moreover have "mem h' a = mem h a" if q: "V q \<noteq> None" "q \<noteq> p" "brealloc mmap q sz h = Some (r, h')" for q r h'
  proof -
    obtain j where j: "(q, j) \<in> live L" using held_live [OF L(3) q(1)] by blast
    have "keeps (live L - {(q, j)}) h h'" using brealloc_ok [OF L(1,2) assms(2,3) j] q(3) by auto
    moreover have "(p, m) \<in> live L - {(q, j)}" using m(1) q(2) by simp
    ultimately show ?thesis using at by simp
  qed
  ultimately show ?thesis by blast
qed

theorem client_contents_kept_witness:
  "\<exists>p h h'. balloc small_os 24 no_heap = Some (p, h) \<and> balloc (\<lambda>_. None) 40 h = Some h' \<and> mem (snd h') (p + 8) = mem h (p + 8)"
proof -
  obtain p h where r: "p \<noteq> 0" "client_step\<^sup>*\<^sup>* (Map.empty, no_heap) ([p \<mapsto> 24], h)" "balloc small_os 24 no_heap = Some (p, h)"
    using one_block by blast
  have os: "mmap_ok (\<lambda>_. None) h" by (simp add: mmap_ok_def)
  obtain L where L: "heap_ok L h" "settled L" "held (live L) [p \<mapsto> 24]"
    using client_run.reachable_inv [OF r(2)] by (auto simp: client_ok_def)
  obtain q h' where q: "balloc (\<lambda>_. None) 40 h = Some (q, h')" using alloc_client [OF L os, of 40] by auto
  have "mem h' (p + 8) = mem h (p + 8)"
    using client_contents_kept [OF r(2) os, of 40 p 24 "p + 8"] q by simp
  then show ?thesis using r(3) q by auto
qed

text \<open>
  C10: An allocation of at most 2^62 bytes either returns a fresh block (16-byte aligned, at least as large as asked for and
  at most 31 bytes larger, or the minimum of 32, apart from every block in use) and leaves every block in use as it
  was, or it returns the null pointer and changes nothing; the latter only when the size is 0, or when
  no free block fits and the operating system refuses a chunk.
\<close>

theorem balloc_contract:
  assumes "heap_ok L h" "settled L" "mmap_ok mmap h" "unat sz \<le> 2 ^ 62"
  shows "\<exists>p L' h'. balloc mmap sz h = Some (p, h') \<and> heap_ok L' h' \<and> settled L' \<and> keeps (live L) h h' \<and>
    (p = 0 \<and> L' = L \<and> h' = h \<and>
       (sz = 0 \<or> mmap (grow_total (request_size sz)) = None \<and> (\<forall>n. \<not> fits L (request_size sz) n)) \<or>
     p \<noteq> 0 \<and> 16 dvd p \<and> (\<exists>n. live L' = insert (p, n) (live L) \<and> unat sz \<le> n \<and> n \<le> max 32 (unat sz + 31) \<and>
       (\<forall>(q, k)\<in>live L. p + n + 16 \<le> q \<or> q + k + 16 \<le> p)))"
proof -
  obtain p L' h' where b: "balloc mmap sz h = Some (p, h')" "heap_ok L' h'" "settled L'" "keeps (live L) h h'"
    and cs: "p = 0 \<and> L' = L \<and> h' = h \<and> (sz = 0 \<or> mmap (grow_total (request_size sz)) = None \<and> (\<forall>n. \<not> fits L (request_size sz) n))
     \<or> p \<noteq> 0 \<and> allocates sz L p L'"
    using balloc_ok [OF assms] by blast
  note wf = heap_okD(1) [OF b(2)]
  have "16 dvd p \<and> (\<forall>(q, k)\<in>live L. p + n + 16 \<le> q \<or> q + k + 16 \<le> p)"
    if n: "live L' = insert (p, n) (live L)" "\<forall>k. (p, k) \<notin> live L" for n
    using live_aligned [OF wf, of p n] live_disjoint [OF wf, of p n] n by fastforce
  then show ?thesis using b cs unfolding allocates_def by blast
qed

theorem balloc_contract_witness:
  "\<exists>p h'. balloc small_os 24 no_heap = Some (p, h') \<and> p \<noteq> 0 \<and> 16 dvd p"
proof -
  have "unat (24 :: u64) \<le> 2 ^ 62" by simp
  from balloc_contract [OF no_heap_ok small_os_ok this] first_chunk show ?thesis by fastforce
qed

text \<open>
  C9: Freeing a block takes exactly that block out of use and leaves the others as they were; its bytes
  end in one free block, and no two neighbouring blocks are free.
\<close>

theorem bfree_contract:
  assumes "heap_ok L h" "settled L" "(p, n) \<in> live L"
  shows "\<exists>L' h'. bfree p h = Some h' \<and> heap_ok L' h' \<and> settled L' \<and> live L' = live L - {(p, n)} \<and> keeps (live L') h h' \<and>
    (\<exists>q k. (q, k, Listed) \<in> layout_blocks L' \<and> q \<le> p \<and> p + n + 16 \<le> q + k)"
proof -
  obtain s where s: "(p, s, Used) \<in> layout_blocks L" "n = s - 16" using assms(3) by (auto simp: live_blocks)
  have "p + n + 16 = p + s" using heap_block_ok [OF assms(1) s(1)] s(2) by simp
  then show ?thesis using bfree_ok [OF assms(1,2) s(1)] s(2) by simp
qed

theorem bfree_contract_witness:
  "\<exists>p h h' L'. balloc small_os 24 no_heap = Some (p, h) \<and> bfree p h = Some h' \<and> heap_ok L' h' \<and> live L' = {}"
proof -
  have "unat (24 :: u64) \<le> 2 ^ 62" by simp
  from balloc_ok [OF no_heap_ok small_os_ok this] obtain p L h where
    b: "balloc small_os 24 no_heap = Some (p, h)" "heap_ok L h" "settled L" "allocates 24 [] p L"
    using first_chunk by fastforce
  then obtain n where n: "live L = {(p, n)}" by (auto simp: allocates_def live_def)
  then have "(p, n) \<in> live L" by simp
  from bfree_contract [OF b(2,3) this] n b(1) show ?thesis by fastforce
qed

text \<open>
  C34: \<open>brealloc\<close> of a block in use to at most 2^62 bytes: size 0 frees it; a size that fits its payload returns it unchanged;
  a larger size returns a fresh block that starts with all the bytes of the old one, which is no longer
  in use, or the null pointer with nothing changed, the latter only when no free block fits and the operating
  system refuses a chunk. Every other block keeps its contents. (Sizes near 2^64 are \<open>balloc_wraps\<close>.)
\<close>

theorem brealloc_contract:
  assumes "heap_ok L h" "settled L" "mmap_ok mmap h" "unat sz \<le> 2 ^ 62" "(p, n) \<in> live L"
  shows "\<exists>q L' h'. brealloc mmap p sz h = Some (q, h') \<and> heap_ok L' h' \<and> settled L' \<and> keeps (live L - {(p, n)}) h h' \<and>
    (if sz = 0 then q = 0 \<and> live L' = live L - {(p, n)}
     else if unat sz \<le> n then q = p \<and> L' = L \<and> h' = h
     else q = 0 \<and> L' = L \<and> h' = h \<and> mmap (grow_total (request_size sz)) = None \<and> (\<forall>n. \<not> fits L (request_size sz) n) \<or>
       q \<noteq> 0 \<and> (\<exists>k. unat sz \<le> k \<and> live L' = insert (q, k) (live L - {(p, n)}) \<and>
         (\<forall>j<n. byte_at h' (q + j) = byte_at h (p + j))))"
proof -
  obtain q L' h' where b: "brealloc mmap p sz h = Some (q, h')" "heap_ok L' h'" "settled L'"
    "keeps (live L - {(p, n)}) h h'" "reallocates mmap sz L (p, n) h q L' h'"
    using brealloc_ok [OF assms] by blast
  from b(5) have "if sz = 0 then q = 0 \<and> live L' = live L - {(p, n)}
     else if unat sz \<le> n then q = p \<and> L' = L \<and> h' = h
     else q = 0 \<and> L' = L \<and> h' = h \<and> mmap (grow_total (request_size sz)) = None \<and> (\<forall>n. \<not> fits L (request_size sz) n) \<or>
       q \<noteq> 0 \<and> (\<exists>k. unat sz \<le> k \<and> live L' = insert (q, k) (live L - {(p, n)}) \<and>
         (\<forall>j<n. byte_at h' (q + j) = byte_at h (p + j)))"
    by (auto simp: reallocates_def refused_def split: if_splits)
  then show ?thesis using b by blast
qed

theorem brealloc_contract_witness:
  "\<exists>p h. balloc small_os 24 no_heap = Some (p, h) \<and> brealloc (\<lambda>_. None) p 16 h = Some (p, h)"
proof -
  have sz: "unat (24 :: u64) \<le> 2 ^ 62" "unat (16 :: u64) \<le> 2 ^ 62" by simp_all
  from balloc_ok [OF no_heap_ok small_os_ok sz(1)] obtain p L h where
    b: "balloc small_os 24 no_heap = Some (p, h)" "heap_ok L h" "settled L" "allocates 24 [] p L"
    using first_chunk by fastforce
  then obtain n where n: "(p, n) \<in> live L" "24 \<le> n" by (auto simp: allocates_def)
  have os: "mmap_ok (\<lambda>_. None) h" by (simp add: mmap_ok_def)
  from brealloc_contract [OF b(2,3) os sz(2) n(1)] n(2) b(1) show ?thesis by auto
qed

text \<open>
  C35: \<open>bcalloc\<close> refuses every product that does not fit 64 bits, changing nothing. For a product of up
  to 2^62 it returns a fresh block whose bytes, as many as the product, are all zero, or the null pointer with nothing changed; the latter
  only when the product is 0, or when no free block fits and the operating system refuses a chunk. Nothing is said
  of the products between, where the size can wrap (\<open>balloc_wraps\<close>).
\<close>

theorem bcalloc_contract:
  assumes "heap_ok L h" "settled L" "mmap_ok mmap h"
  shows "if 2 ^ 64 \<le> unat n * unat sz then bcalloc mmap n sz h = Some (0, h)
    else unat n * unat sz \<le> 2 ^ 62 \<longrightarrow> (\<exists>p L' h'. bcalloc mmap n sz h = Some (p, h') \<and> heap_ok L' h' \<and> settled L' \<and> keeps (live L) h h' \<and>
      (p = 0 \<and> L' = L \<and> h' = h \<and>
         (unat n * unat sz = 0 \<or> mmap (grow_total (request_size (n * sz))) = None \<and> (\<forall>x. \<not> fits L (request_size (n * sz)) x)) \<or>
       p \<noteq> 0 \<and> (\<exists>k. live L' = insert (p, k) (live L) \<and> unat n * unat sz \<le> k) \<and> (\<forall>j<unat n * unat sz. byte_at h' (p + j) = Some 0)))"
proof (cases "2 ^ 64 \<le> unat n * unat sz")
  case True
  then show ?thesis using bcalloc_overflow by simp
next
  case False
  have "\<exists>p L' h'. bcalloc mmap n sz h = Some (p, h') \<and> heap_ok L' h' \<and> settled L' \<and> keeps (live L) h h' \<and>
      (p = 0 \<and> L' = L \<and> h' = h \<and>
         (unat n * unat sz = 0 \<or> mmap (grow_total (request_size (n * sz))) = None \<and> (\<forall>x. \<not> fits L (request_size (n * sz)) x)) \<or>
       p \<noteq> 0 \<and> (\<exists>k. live L' = insert (p, k) (live L) \<and> unat n * unat sz \<le> k) \<and> (\<forall>j<unat n * unat sz. byte_at h' (p + j) = Some 0))"
    if sz: "unat n * unat sz \<le> 2 ^ 62"
  proof -
    have "unat (n * sz) = unat n * unat sz" using False by (simp add: unat_word_ariths(2))
    moreover from this have "n * sz = 0 \<Longrightarrow> unat n * unat sz = 0" by simp
    ultimately show ?thesis using bcalloc_ok [OF assms sz] unfolding allocates_def refused_def by metis
  qed
  then show ?thesis using False by simp
qed

theorem bcalloc_contract_witness:
  "bcalloc small_os 4294967296 4294967296 no_heap = Some (0, no_heap)"
  using bcalloc_contract [OF no_heap_ok small_os_ok, of 4294967296 4294967296] by simp

text \<open>
  C36: When every block has been freed, coalescing has put each chunk back together: it is one free
  block, and it is on a free list.
\<close>

theorem freed_chunks_are_whole:
  assumes "client_step\<^sup>*\<^sup>* (Map.empty, no_heap) (Map.empty, h)"
  shows "\<exists>L. heap_ok L h \<and> (\<forall>c\<in>set L. \<exists>s. snd c = [(s, Listed)] \<and> on_free_list h (fst c + 32) = Some True)"
proof -
  obtain L where L: "heap_ok L h" "settled L" "held (live L) Map.empty"
    using client_run.reachable_inv [OF assms] by (auto simp: client_ok_def)
  have none: "live L = {}" using L(3) by (auto simp: held_def)
  have "\<exists>s. snd c = [(s, Listed)] \<and> on_free_list h (fst c + 32) = Some True" if c: "c \<in> set L" for c
  proof -
    obtain s where s: "snd c = [(s, Listed)]" using all_free_whole [OF L(1,2) none c] by blast
    then have "(fst c + 32, s, Listed) \<in> layout_blocks L" using c by (auto simp: layout_blocks_def chunk_blocks_def intro!: bexI [of _ c])
    then show ?thesis using s on_free_list_ok [OF L(1)] by blast
  qed
  then show ?thesis using L(1) by blast
qed

theorem freed_chunks_are_whole_witness:
  "\<exists>p h h'. balloc small_os 24 no_heap = Some (p, h) \<and> bfree p h = Some h' \<and> (\<exists>L. heap_ok L h' \<and> (\<forall>c\<in>set L. length (snd c) = 1))"
proof -
  obtain p h where r: "p \<noteq> 0" "client_step\<^sup>*\<^sup>* (Map.empty, no_heap) ([p \<mapsto> 24], h)" "balloc small_os 24 no_heap = Some (p, h)"
    using one_block by blast
  obtain L where L: "heap_ok L h" "settled L" "held (live L) [p \<mapsto> 24]"
    using client_run.reachable_inv [OF r(2)] by (auto simp: client_ok_def)
  obtain h' where h': "bfree p h = Some h'" using free_client [OF L, of p] by auto
  have "client_step ([p \<mapsto> 24], h) (([p \<mapsto> 24])(p := None), h')" by (rule client_step.free) (use h' in auto)
  then have "client_step\<^sup>*\<^sup>* (Map.empty, no_heap) (Map.empty, h')" using r(2) by simp
  from freed_chunks_are_whole [OF this] obtain L' where
    "heap_ok L' h'" "\<forall>c\<in>set L'. \<exists>s. snd c = [(s, Listed)] \<and> on_free_list h' (fst c + 32) = Some True" by blast
  then have "heap_ok L' h' \<and> (\<forall>c\<in>set L'. length (snd c) = 1)" by fastforce
  then show ?thesis using r(3) h' by blast
qed

text \<open>
  C40: A request within 31 bytes of 2^64 wraps in the computation of the block size: it is served like a
  request for 16 bytes instead of being refused.
\<close>

theorem balloc_wraps:
  assumes "2 ^ 64 - 31 \<le> unat sz"
  shows "balloc mmap sz h = balloc mmap 16 h"
proof -
  have "request_size sz = 32"
  proof -
    have lt: "unat sz < 2 ^ 64" using unsigned_less [of sz] by simp
    have "unat (sz + 31) = unat sz + 31 - 2 ^ 64" using assms lt by (simp add: unat_plus_if')
    then have "unat (sz + 31) \<le> 30" using lt by linarith
    then have small: "unat (align_up (sz + 16) 16) \<le> 30"
    proof -
      have e: "align_up (sz + 16) 16 = (sz + 31) AND NOT 15" by (simp add: align_up_def add.commute)
      have "unat ((sz + 31) AND NOT 15) \<le> unat (sz + 31)" using unat_and_not(1) [of "sz + 31" 15] by linarith
      then show ?thesis using \<open>unat (sz + 31) \<le> 30\<close> unfolding e by linarith
    qed
    then have "align_up (sz + 16) 16 < 32" by (simp add: word_less_nat_alt)
    then show ?thesis by (simp add: request_size_def DSIZE_def MIN_BLOCK_def Let_def)
  qed
  moreover have "request_size 16 = 32" by (simp add: request_size_def align_up_def DSIZE_def MIN_BLOCK_def)
  moreover have "sz \<noteq> 0" using assms by auto
  ultimately show ?thesis by (simp add: balloc_def)
qed

theorem balloc_wraps_witness: "balloc small_os (- 1) no_heap = balloc small_os 16 no_heap"
  by (rule balloc_wraps) (simp add: unsigned_minus_1_eq_mask mask_eq_exp_minus_1)

end
