(* ===== verification/Coroutine.thy ===== *)
theory Coroutine
  imports Prelude
begin

text \<open>
  \<open>C-Coroutines/src\<close>: the context switch of \<open>switch.S\<close>, on a machine with the registers and the memory
  that it uses, and the functions of \<open>coroutine.c\<close> around it.

  The C code between two calls of the library is the parameter of the model: a \<open>prog\<close> is what a
  function on a stack does as seen by the library, the calls it makes and how it goes on with their
  results. How the compiled code keeps its place across a call is the contract of the ABI: it goes on
  from the return address when it finds its stack pointer and the callee-saved registers as they were.
  The map \<open>conts\<close> holds, for each stack position from which \<open>co_switch\<close> has been called, what the code
  there expects and where it is; control that arrives anywhere else is undefined, the value \<^const>\<open>None\<close>.
\<close>

section \<open>The machine and the switch\<close>

datatype reg = RBP | RBX | R12 | R13 | R14 | R15 | RSP | RDI | RSI

datatype instr = Push reg | Pop reg | Store_at reg reg | Move reg reg | Ret

text \<open>Memory is a map from addresses to 64-bit words; what is not mapped faults.\<close>

record cpu =
  regs :: "reg \<Rightarrow> u64"
  ram :: "nat \<rightharpoonup> u64"
  rip :: u64

definition load :: "cpu \<Rightarrow> u64 \<Rightarrow> u64 option" where
  "load c a = ram c (unat a)"

definition store :: "u64 \<Rightarrow> u64 \<Rightarrow> cpu \<Rightarrow> cpu option" where
  "store a v c = (case ram c (unat a) of
     None \<Rightarrow> None
   | Some _ \<Rightarrow> Some (c\<lparr>ram := (ram c)(unat a \<mapsto> v)\<rparr>))"

definition set_reg :: "reg \<Rightarrow> u64 \<Rightarrow> cpu \<Rightarrow> cpu" where
  "set_reg r v c = c\<lparr>regs := (regs c)(r := v)\<rparr>"

fun exec_instr :: "instr \<Rightarrow> cpu \<Rightarrow> cpu option" where
  "exec_instr (Push r) c = (let sp = regs c RSP - 8 in do {
     c \<leftarrow> store sp (regs c r) c;
     Some (set_reg RSP sp c) })"
| "exec_instr (Pop r) c = do {
     v \<leftarrow> load c (regs c RSP);
     Some (set_reg r v (set_reg RSP (regs c RSP + 8) c)) }"
| "exec_instr (Store_at s d) c = store (regs c d) (regs c s) c"
| "exec_instr (Move s d) c = Some (set_reg d (regs c s) c)"
| "exec_instr Ret c = do {
     v \<leftarrow> load c (regs c RSP);
     Some (set_reg RSP (regs c RSP + 8) (c\<lparr>rip := v\<rparr>)) }"

primrec exec :: "instr list \<Rightarrow> cpu \<Rightarrow> cpu option" where
  "exec [] c = Some c"
| "exec (i # is) c = do { c \<leftarrow> exec_instr i c; exec is c }"

definition co_switch_code :: "instr list" where
  "co_switch_code =
    [Push RBP, Push RBX, Push R12, Push R13, Push R14, Push R15,
     Store_at RSP RDI,
     Move RSI RSP,
     Pop R15, Pop R14, Pop R13, Pop R12, Pop RBX, Pop RBP,
     Ret]"

text \<open>The callee-saved registers, in the order of their slots from the saved stack pointer up.\<close>

definition callee_saved :: "reg list" where
  "callee_saved = [R15, R14, R13, R12, RBX, RBP]"

section \<open>Programs\<close>

text \<open>A call of \<open>co_switch\<close>: the registers at the call, and the address it returns to.\<close>

record site =
  site_regs :: "reg \<Rightarrow> u64"
  site_ret :: u64

text \<open>
  What runs on a stack, up to and including its next call of the library. \<open>Create\<close> carries the
  outcomes of \<open>mmap\<close> and \<open>calloc\<close>; \<open>Write\<close> is a store of the function itself. Bodies need not end.
\<close>

codatatype prog =
  Return site
| Yield u64 site "u64 \<Rightarrow> prog"
| Resume u64 u64 site "u64 \<Rightarrow> prog"
| Create u64 u64 u64 "u64 \<Rightarrow> u64 option" "u64 option" "u64 \<Rightarrow> prog"
| Done u64 "u64 \<Rightarrow> prog"
| Destroy u64 prog
| Write u64 u64 prog

text \<open>
  Where in the library code a context waits in \<open>co_switch\<close>, with the local variables that are live
  there; the first argument is the variable \<open>self\<close> of the trampoline below it on the stack.
\<close>

datatype point =
  In_resume u64 u64 u64 "u64 \<Rightarrow> prog"
| In_yield u64 u64 "u64 \<Rightarrow> prog"
| In_trampoline

record cont =
  cont_regs :: "u64 list"
  cont_ret :: u64
  cont_point :: point

text \<open>The environment: the page size, the address of \<open>co_trampoline\<close>, and the functions given to \<open>co_create\<close>.\<close>

record env =
  page :: u64
  entry :: u64
  bodies :: "u64 \<Rightarrow> u64 \<Rightarrow> prog"

record world =
  core :: cpu
  g_current :: u64
  conts :: "nat \<rightharpoonup> cont"
  self :: u64

section \<open>The coroutine record\<close>

definition sp_at :: "u64 \<Rightarrow> u64" where "sp_at co = co"
definition caller_sp_at :: "u64 \<Rightarrow> u64" where "caller_sp_at co = co + 8"
definition stack_base_at :: "u64 \<Rightarrow> u64" where "stack_base_at co = co + 16"
definition map_size_at :: "u64 \<Rightarrow> u64" where "map_size_at co = co + 24"
definition fn_at :: "u64 \<Rightarrow> u64" where "fn_at co = co + 32"
definition arg_at :: "u64 \<Rightarrow> u64" where "arg_at co = co + 40"
definition value_at :: "u64 \<Rightarrow> u64" where "value_at co = co + 48"
definition flags_at :: "u64 \<Rightarrow> u64" where "flags_at co = co + 56"
definition sizeof_coroutine :: nat where "sizeof_coroutine = 64"

definition get :: "u64 \<Rightarrow> world \<Rightarrow> u64 option" where
  "get a w = load (core w) a"

definition put :: "u64 \<Rightarrow> u64 \<Rightarrow> world \<Rightarrow> world option" where
  "put a v w = do { c \<leftarrow> store a v (core w); Some (w\<lparr>core := c\<rparr>) }"

text \<open>The two \<open>int\<close> fields \<open>done\<close> and \<open>started\<close> are the halves of the last word.\<close>

definition get_done :: "u64 \<Rightarrow> world \<Rightarrow> u64 option" where
  "get_done co w = do { f \<leftarrow> get (flags_at co) w; Some (f AND 0xFFFFFFFF) }"

definition set_done :: "u64 \<Rightarrow> world \<Rightarrow> world option" where
  "set_done co w = do {
     f \<leftarrow> get (flags_at co) w;
     put (flags_at co) ((f AND NOT 0xFFFFFFFF) OR 1) w }"

definition set_started :: "u64 \<Rightarrow> world \<Rightarrow> world option" where
  "set_started co w = do {
     f \<leftarrow> get (flags_at co) w;
     put (flags_at co) ((f AND 0xFFFFFFFF) OR push_bit 32 1) w }"

section \<open>Switching and landing\<close>

definition co_switch :: "u64 \<Rightarrow> u64 \<Rightarrow> site \<Rightarrow> point \<Rightarrow> world \<Rightarrow> world option" where
  "co_switch save_sp restore_sp s pt w = do {
     let c = (core w)\<lparr>regs := (site_regs s)(RDI := save_sp, RSI := restore_sp)\<rparr>;
     let cont = \<lparr>cont_regs = map (site_regs s) callee_saved, cont_ret = site_ret s, cont_point = pt\<rparr>;
     c \<leftarrow> store (regs c RSP - 8) (site_ret s) c;
     c \<leftarrow> exec co_switch_code (set_reg RSP (regs c RSP - 8) c);
     Some (w\<lparr>core := c, conts := (conts w)(unat (site_regs s RSP) \<mapsto> cont)\<rparr>) }"

text \<open>
  The rest of \<open>co_resume\<close> and \<open>co_yield\<close> after their \<open>co_switch\<close>. The one of the trampoline does not
  return: there the code says \<open>__builtin_unreachable\<close>.
\<close>

fun resume_at :: "point \<Rightarrow> world \<Rightarrow> (world \<times> prog) option" where
  "resume_at (In_resume s co prev k) w = do {
     let w = w\<lparr>g_current := prev, self := s\<rparr>;
     v \<leftarrow> get (value_at co) w;
     Some (w, k v) }"
| "resume_at (In_yield s co k) w = do {
     let w = w\<lparr>self := s\<rparr>;
     v \<leftarrow> get (value_at co) w;
     Some (w, k v) }"
| "resume_at In_trampoline w = None"

definition co_trampoline :: "env \<Rightarrow> world \<Rightarrow> (world \<times> prog) option" where
  "co_trampoline E w = do {
     let s = g_current w;
     f \<leftarrow> get (fn_at s) w;
     a \<leftarrow> get (arg_at s) w;
     Some (w\<lparr>self := s\<rparr>, bodies E f a) }"

definition land :: "env \<Rightarrow> world \<Rightarrow> (world \<times> prog) option" where
  "land E w = (let c = core w in
     if rip c = entry E then co_trampoline E w
     else case conts w (unat (regs c RSP)) of
       None \<Rightarrow> None
     | Some p \<Rightarrow>
         if cont_ret p = rip c \<and> cont_regs p = map (regs c) callee_saved then resume_at (cont_point p) w
         else None)"

section \<open>The functions\<close>

definition co_return :: "env \<Rightarrow> site \<Rightarrow> world \<Rightarrow> (world \<times> prog) option" where
  "co_return E s w = do {
     w \<leftarrow> set_done (self w) w;
     w \<leftarrow> put (value_at (self w)) 0 w;
     sp \<leftarrow> get (caller_sp_at (self w)) w;
     w \<leftarrow> co_switch (sp_at (self w)) sp s In_trampoline w;
     land E w }"

definition co_resume :: "env \<Rightarrow> u64 \<Rightarrow> u64 \<Rightarrow> site \<Rightarrow> (u64 \<Rightarrow> prog) \<Rightarrow> world \<Rightarrow> (world \<times> prog) option" where
  "co_resume E co v s k w = do {
     d \<leftarrow> get_done co w;
     if d \<noteq> 0 then Some (w, k 0) else do {
       w \<leftarrow> put (value_at co) v w;
       let prev = g_current w;
       let w = w\<lparr>g_current := co\<rparr>;
       w \<leftarrow> set_started co w;
       sp \<leftarrow> get (sp_at co) w;
       w \<leftarrow> co_switch (caller_sp_at co) sp s (In_resume (self w) co prev k) w;
       land E w } }"

definition co_yield :: "env \<Rightarrow> u64 \<Rightarrow> site \<Rightarrow> (u64 \<Rightarrow> prog) \<Rightarrow> world \<Rightarrow> (world \<times> prog) option" where
  "co_yield E v s k w = do {
     let co = g_current w;
     w \<leftarrow> put (value_at co) v w;
     sp \<leftarrow> get (caller_sp_at co) w;
     w \<leftarrow> co_switch (sp_at co) sp s (In_yield (self w) co k) w;
     land E w }"

text \<open>
  \<open>mmap\<close> maps zeroed pages, \<open>mprotect\<close> makes the lowest one inaccessible, \<open>calloc\<close> gives a zeroed
  record; \<open>munmap\<close> and \<open>free\<close> take them back.
\<close>

definition map_words :: "u64 \<Rightarrow> nat \<Rightarrow> world \<Rightarrow> world" where
  "map_words a n w = w\<lparr>core := (core w)\<lparr>ram :=
     (\<lambda>x. if unat a \<le> x \<and> x < unat a + n then (if 8 dvd x then Some 0 else None) else ram (core w) x)\<rparr>\<rparr>"

definition unmap_words :: "u64 \<Rightarrow> nat \<Rightarrow> world \<Rightarrow> world" where
  "unmap_words a n w = w\<lparr>core := (core w)\<lparr>ram :=
     (\<lambda>x. if unat a \<le> x \<and> x < unat a + n then None else ram (core w) x)\<rparr>\<rparr>"

definition stack_bytes :: "u64 \<Rightarrow> u64 \<Rightarrow> u64" where
  "stack_bytes pg stack_size =
     (let n = if stack_size = 0 then 65536 else stack_size in (n + pg - 1) AND NOT (pg - 1))"

primrec push_zeros :: "nat \<Rightarrow> u64 \<Rightarrow> world \<Rightarrow> (u64 \<times> world) option" where
  "push_zeros 0 sp w = Some (sp, w)"
| "push_zeros (Suc n) sp w = do { w \<leftarrow> put (sp - 8) 0 w; push_zeros n (sp - 8) w }"

definition co_create ::
  "env \<Rightarrow> (u64 \<Rightarrow> u64 option) \<Rightarrow> u64 option \<Rightarrow> u64 \<Rightarrow> u64 \<Rightarrow> u64 \<Rightarrow> world \<Rightarrow> (u64 \<times> world) option" where
  "co_create E mmap calloc fn arg stack_size w = (
     let map_size = stack_bytes (page E) stack_size + page E in
     case mmap map_size of
       None \<Rightarrow> Some (0, w)
     | Some base \<Rightarrow> (
         let w = unmap_words base (unat (page E)) (map_words base (unat map_size) w) in
         case calloc of
           None \<Rightarrow> Some (0, unmap_words base (unat map_size) w)
         | Some co \<Rightarrow> do {
             let w = map_words co sizeof_coroutine w;
             w \<leftarrow> put (stack_base_at co) base w;
             w \<leftarrow> put (map_size_at co) map_size w;
             w \<leftarrow> put (fn_at co) fn w;
             w \<leftarrow> put (arg_at co) arg w;
             let tp = (base + map_size) AND NOT 15;
             w \<leftarrow> put (tp - 8) (entry E) w;
             (sp, w) \<leftarrow> push_zeros 6 (tp - 8) w;
             w \<leftarrow> put (sp_at co) sp w;
             Some (co, w) }))"

definition co_done :: "u64 \<Rightarrow> world \<Rightarrow> u64 option" where
  "co_done co w = get_done co w"

definition co_destroy :: "u64 \<Rightarrow> world \<Rightarrow> world option" where
  "co_destroy co w = (if co = 0 then Some w else do {
     base \<leftarrow> get (stack_base_at co) w;
     n \<leftarrow> get (map_size_at co) w;
     Some (unmap_words co sizeof_coroutine (unmap_words base (unat n) w)) })"

section \<open>Runs\<close>

definition co_step :: "env \<Rightarrow> world \<times> prog \<Rightarrow> (world \<times> prog) option" where
  "co_step E wp = (case wp of (w, p) \<Rightarrow> (case p of
     Return s \<Rightarrow> co_return E s w
   | Yield v s k \<Rightarrow> co_yield E v s k w
   | Resume co v s k \<Rightarrow> co_resume E co v s k w
   | Create fn arg n mmap calloc k \<Rightarrow> do { (co, w) \<leftarrow> co_create E mmap calloc fn arg n w; Some (w, k co) }
   | Done co k \<Rightarrow> do { d \<leftarrow> co_done co w; Some (w, k d) }
   | Destroy co p \<Rightarrow> do { w \<leftarrow> co_destroy co w; Some (w, p) }
   | Write a v p \<Rightarrow> do { w \<leftarrow> put a v w; Some (w, p) }))"

definition co_run :: "env \<Rightarrow> nat \<Rightarrow> world \<times> prog \<Rightarrow> (world \<times> prog) option" where
  "co_run E = steps (co_step E)"

end
