(* ===== verification/Coroutine_Switch.thy ===== *)
theory Coroutine_Switch
  imports Coroutine Words
begin

text \<open>
  What the assembly routine does: it leaves the six callee-saved registers and the return address on
  the stack of the caller, records where, and goes on with what another call, or \<open>co_create\<close>, has left
  at the stack pointer it is given.
\<close>

section \<open>Pushing and popping\<close>

definition push :: "u64 \<Rightarrow> cpu \<Rightarrow> cpu" where
  "push v c = (let a = unat (regs c RSP) - 8 in
     c\<lparr>regs := (regs c)(RSP := regs c RSP - 8), ram := (ram c)(a \<mapsto> v)\<rparr>)"

definition mapped_below :: "cpu \<Rightarrow> nat \<Rightarrow> nat \<Rightarrow> bool" where
  "mapped_below c s n \<longleftrightarrow> 8 * n \<le> s \<and> (\<forall>i<n. ram c (s - 8 * Suc i) \<noteq> None)"

lemma mapped_below_Suc:
  assumes "mapped_below c (unat (regs c RSP)) (Suc n)"
  shows "mapped_below (push v c) (unat (regs (push v c) RSP)) n" "8 \<le> unat (regs c RSP)"
    "ram c (unat (regs c RSP) - 8) \<noteq> None"
proof -
  show le: "8 \<le> unat (regs c RSP)" using assms by (simp add: mapped_below_def)
  show "ram c (unat (regs c RSP) - 8) \<noteq> None" using assms unfolding mapped_below_def by fastforce
  have "ram c (unat (regs c RSP) - 8 - 8 * Suc i) \<noteq> None" if "i < n" for i
  proof -
    have "ram c (unat (regs c RSP) - 8 * Suc (Suc i)) \<noteq> None"
      using assms that unfolding mapped_below_def by blast
    then show ?thesis by (simp add: diff_diff_left)
  qed
  then show "mapped_below (push v c) (unat (regs (push v c) RSP)) n"
    using assms le by (auto simp: mapped_below_def push_def Let_def unat_sub_8)
qed

lemma exec_push:
  assumes "mapped_below c (unat (regs c RSP)) (Suc n)"
  shows "exec_instr (Push r) c = Some (push (regs c r) c)"
  using mapped_below_Suc(2,3) [OF assms]
  by (auto simp: store_def push_def set_reg_def Let_def unat_sub_8)

text \<open>A saved context: six registers and a return address from the saved stack pointer up.\<close>

definition saved :: "(nat \<rightharpoonup> u64) \<Rightarrow> nat \<Rightarrow> u64 list \<Rightarrow> u64 \<Rightarrow> bool" where
  "saved m s rs ret \<longleftrightarrow> length rs = 6 \<and> (\<forall>i<6. m (s + 8 * i) = Some (rs ! i)) \<and> m (s + 48) = Some ret"

lemma saved_cong:
  assumes "\<And>x. s \<le> x \<Longrightarrow> x < s + 56 \<Longrightarrow> m' x = m x"
  shows "saved m' s rs ret \<longleftrightarrow> saved m s rs ret"
  using assms by (auto simp: saved_def)

lemma less_six: "(\<forall>i<6. P i) \<longleftrightarrow> P 0 \<and> P 1 \<and> P 2 \<and> P 3 \<and> P 4 \<and> P (5 :: nat)"
  by (auto simp: eval_nat_numeral All_less_Suc)

lemma length_six: "length rs = 6 \<longleftrightarrow> (\<exists>a b c d e f. rs = [a, b, c, d, e, f])"
  by (auto simp: length_Suc_conv eval_nat_numeral)

lemma exec_restore:
  assumes sv: "saved (ram c) (unat (regs c RSI)) rs ret" and bound: "unat (regs c RSI) + 56 < 2 ^ 64"
  shows "\<exists>c'. exec [Move RSI RSP, Pop R15, Pop R14, Pop R13, Pop R12, Pop RBX, Pop RBP, Ret] c = Some c' \<and>
    ram c' = ram c \<and> rip c' = ret \<and> map (regs c') callee_saved = rs \<and> unat (regs c' RSP) = unat (regs c RSI) + 56"
proof -
  let ?s = "regs c RSI"
  obtain r0 r1 r2 r3 r4 r5 where rs: "rs = [r0, r1, r2, r3, r4, r5]"
    using sv by (auto simp: saved_def length_six)
  have at: "unat (?s + word_of_nat n) = unat ?s + n" if "n \<le> 56" for n
    using unat_add_num [of ?s n] bound that by simp
  have u: "unat (?s + 8) = unat ?s + 8" "unat (?s + 16) = unat ?s + 16" "unat (?s + 24) = unat ?s + 24"
    "unat (?s + 32) = unat ?s + 32" "unat (?s + 40) = unat ?s + 40" "unat (?s + 48) = unat ?s + 48"
    "unat (?s + 56) = unat ?s + 56"
    using at [of 8] at [of 16] at [of 24] at [of 32] at [of 40] at [of 48] at [of 56] by simp_all
  have m: "ram c (unat ?s) = Some r0" "ram c (unat ?s + 8) = Some r1" "ram c (unat ?s + 16) = Some r2"
    "ram c (unat ?s + 24) = Some r3" "ram c (unat ?s + 32) = Some r4" "ram c (unat ?s + 40) = Some r5"
    "ram c (unat ?s + 48) = Some ret"
    using sv by (simp_all add: saved_def rs less_six)
  show ?thesis
    by (simp add: load_def set_reg_def callee_saved_def m u rs add.assoc)
qed

lemma push_fields [simp]:
  "rip (push v c) = rip c" "q \<noteq> RSP \<Longrightarrow> regs (push v c) q = regs c q"
  "regs (push v c) RSP = regs c RSP - 8" "ram (push v c) = (ram c)(unat (regs c RSP) - 8 \<mapsto> v)"
  by (simp_all add: push_def Let_def)

lemma exec_pushes:
  assumes "mapped_below c (unat (regs c RSP)) (length ls)" "RSP \<notin> set ls"
  shows "exec (map Push ls @ is) c = exec is (fold (\<lambda>r. push (regs c r)) ls c)"
  using assms
proof (induction ls arbitrary: c)
  case (Cons r ls)
  have "fold (\<lambda>q. push (regs (push (regs c r) c) q)) ls x = fold (\<lambda>q. push (regs c q)) ls x" for x
    using Cons.prems(2) by (intro fold_cong refl) (metis push_fields(2) list.set_intros(2))
  then show ?case
    using Cons.IH [of "push (regs c r) c"] exec_push [of c "length ls" r] Cons.prems mapped_below_Suc(1) [of c "length ls"]
    by auto
qed simp

text \<open>The memory with a context saved below the stack pointer \<open>s\<close>.\<close>

definition save_mem :: "nat \<Rightarrow> (reg \<Rightarrow> u64) \<Rightarrow> u64 \<Rightarrow> (nat \<rightharpoonup> u64) \<Rightarrow> nat \<rightharpoonup> u64" where
  "save_mem s f ret m = m(s - 8 \<mapsto> ret, s - 16 \<mapsto> f RBP, s - 24 \<mapsto> f RBX, s - 32 \<mapsto> f R12,
     s - 40 \<mapsto> f R13, s - 48 \<mapsto> f R14, s - 56 \<mapsto> f R15)"

lemma save_mem_other:
  assumes "x < s - 56 \<or> s \<le> x" "56 \<le> s"
  shows "save_mem s f ret m x = m x"
proof -
  obtain b where s: "s = b + 56" using assms(2) by (metis le_add_diff_inverse2)
  have "x < b \<or> b + 56 \<le> x" using assms(1) unfolding s by simp
  then have "x \<noteq> b" "x \<noteq> 8 + b" "x \<noteq> 16 + b" "x \<noteq> 24 + b" "x \<noteq> 32 + b" "x \<noteq> 40 + b" "x \<noteq> 48 + b"
    by linarith+
  then show ?thesis by (simp add: save_mem_def s)
qed

lemma upd_dom: "m x \<noteq> None \<Longrightarrow> (m(a \<mapsto> v)) x \<noteq> None"
  by simp

lemma save_mem_dom: "m x \<noteq> None \<Longrightarrow> save_mem s f ret m x \<noteq> None"
  unfolding save_mem_def by (intro upd_dom)

lemma save_mem_saved:
  assumes "56 \<le> s"
  shows "saved (save_mem s f ret m) (s - 56) (map f callee_saved) ret"
proof -
  obtain b where s: "s = b + 56" using assms by (metis le_add_diff_inverse2)
  show ?thesis by (simp add: saved_def save_mem_def callee_saved_def less_six s)
qed

text \<open>
  The switch as a whole: from the call at stack pointer \<open>s\<close> the context is saved at \<open>s - 56\<close>, its
  address is stored where the first argument says, and control goes on with the context saved at the
  second argument.
\<close>

lemma co_switch_ok:
  assumes m: "\<forall>i<7. ram (core w) (unat (site_regs s RSP) - 8 * Suc i) \<noteq> None" and low: "56 \<le> unat (site_regs s RSP)"
    and A: "ram (core w) (unat A) \<noteq> None" "unat A < unat (site_regs s RSP) - 56 \<or> unat (site_regs s RSP) \<le> unat A"
    and T: "saved (ram (core w)) (unat T) rs ret" "unat T + 56 < 2 ^ 64"
      "unat T + 56 \<le> unat (site_regs s RSP) - 56 \<or> unat (site_regs s RSP) \<le> unat T"
      "unat A + 8 \<le> unat T \<or> unat T + 56 \<le> unat A"
  shows "\<exists>w'. co_switch A T s pt w = Some w' \<and>
    ram (core w') = (save_mem (unat (site_regs s RSP)) (site_regs s) (site_ret s) (ram (core w)))
      (unat A \<mapsto> site_regs s RSP - 56) \<and>
    rip (core w') = ret \<and> map (regs (core w')) callee_saved = rs \<and> unat (regs (core w') RSP) = unat T + 56 \<and>
    conts w' = (conts w)(unat (site_regs s RSP) \<mapsto>
      \<lparr>cont_regs = map (site_regs s) callee_saved, cont_ret = site_ret s, cont_point = pt\<rparr>) \<and>
    g_current w' = g_current w \<and> self w' = self w"
proof -
  let ?f = "site_regs s" and ?S = "unat (site_regs s RSP)"
  define c0 where "c0 = (core w)\<lparr>regs := ?f(RDI := A, RSI := T)\<rparr>"
  define c1 where "c1 = push (site_ret s) c0"
  define c2 where "c2 = fold (\<lambda>r. push (regs c1 r)) [RBP, RBX, R12, R13, R14, R15] c1"
  have below: "mapped_below c0 (unat (regs c0 RSP)) 7"
    using m low by (simp add: mapped_below_def c0_def)
  then have below': "mapped_below c0 (unat (regs c0 RSP)) (Suc 6)" by simp
  have first: "store (regs c0 RSP - 8) (site_ret s) c0 = Some (c0\<lparr>ram := ram c1\<rparr>)"
    "set_reg RSP (regs c0 RSP - 8) (c0\<lparr>ram := ram c1\<rparr>) = c1"
    using mapped_below_Suc(2,3) [OF below'] by (auto simp: store_def set_reg_def c1_def push_def Let_def unat_sub_8)
  have b1: "mapped_below c1 (unat (regs c1 RSP)) (length [RBP, RBX, R12, R13, R14, R15])"
    using mapped_below_Suc(1) [OF below'] by (simp add: c1_def eval_nat_numeral)
  have pushes: "exec co_switch_code c1 = exec (drop 6 co_switch_code) c2"
    using exec_pushes [OF b1, of "drop 6 co_switch_code"] by (simp add: co_switch_code_def c2_def)
  have r: "regs c2 RDI = A" "regs c2 RSI = T" "regs c2 RSP = ?f RSP - 56" "rip c2 = rip (core w)"
    by (simp_all add: c2_def c1_def c0_def)
  have mem2: "ram c2 = save_mem ?S ?f (site_ret s) (ram (core w))"
    using low by (simp add: c2_def c1_def c0_def save_mem_def unat_sub_steps)
  define c3 where "c3 = c2\<lparr>ram := (ram c2)(unat A \<mapsto> ?f RSP - 56)\<rparr>"
  have st: "exec_instr (Store_at RSP RDI) c2 = Some c3"
    using save_mem_dom [of "ram (core w)" "unat A" ?S ?f "site_ret s", OF A(1)]
    by (auto simp: store_def c3_def r mem2)
  have "saved (ram c3) (unat (regs c3 RSI)) rs ret"
  proof -
    have "(ram c3) x = ram (core w) x" if "unat T \<le> x" "x < unat T + 56" for x
    proof -
      have "x \<noteq> unat A" using T(4) that by auto
      moreover have "x < ?S - 56 \<or> ?S \<le> x" using T(3) that by auto
      ultimately show ?thesis using save_mem_other [OF _ low] by (simp add: c3_def mem2)
    qed
    then show ?thesis using T(1) saved_cong [of "unat T" "ram c3" "ram (core w)"] by (simp add: c3_def r)
  qed
  moreover have "unat (regs c3 RSI) + 56 < 2 ^ 64" using T(2) by (simp add: c3_def r)
  ultimately obtain c4 where c4: "exec [Move RSI RSP, Pop R15, Pop R14, Pop R13, Pop R12, Pop RBX, Pop RBP, Ret] c3 = Some c4"
    "ram c4 = ram c3" "rip c4 = ret" "map (regs c4) callee_saved = rs" "unat (regs c4 RSP) = unat T + 56"
    using exec_restore [of c3 rs ret] by (auto simp: c3_def r)
  have "exec co_switch_code c1 = Some c4"
    unfolding pushes using st c4(1) by (simp add: co_switch_code_def del: exec_instr.simps)
  then have "co_switch A T s pt w = Some (w\<lparr>core := c4, conts := (conts w)(?S \<mapsto>
      \<lparr>cont_regs = map ?f callee_saved, cont_ret = site_ret s, cont_point = pt\<rparr>)\<rparr>)"
    using first unfolding co_switch_def c0_def [symmetric] Let_def by simp
  then show ?thesis using c4 by (simp add: c3_def mem2)
qed

end
