(* ===== verification/Coroutine_Spec.thy ===== *)
theory Coroutine_Spec
  imports Coroutine_Switch
begin

text \<open>
  What the library promises, without stack pointers and saved frames: a coroutine is suspended with the
  rest of its program, active (running, or waiting for a coroutine it has resumed), or finished; the
  waiting contexts form a stack. The step function of this machine is defined exactly for the programs
  that use the library as it is meant to be used: they do not resume an active coroutine nor destroy
  one, they yield only inside of a coroutine, and they keep to their stack.
\<close>

section \<open>The abstract machine\<close>

datatype co_state = Suspended "u64 \<Rightarrow> prog" | Active | Finished

text \<open>The stack of a coroutine is \<open>low\<close> to \<open>high\<close>, above the guard page from \<open>guard\<close> to \<open>low\<close>.\<close>

record coro =
  state :: co_state
  guard :: nat
  low :: nat
  high :: nat

text \<open>The context \<open>me\<close> runs; 0 is the main program, whose stack is \<open>home\<close>.\<close>

record spec =
  me :: u64
  waiting :: "(u64 \<times> (u64 \<Rightarrow> prog)) list"
  coros :: "u64 \<rightharpoonup> coro"
  home :: "nat \<times> nat"

definition stack_of :: "spec \<Rightarrow> u64 \<Rightarrow> (nat \<times> nat) option" where
  "stack_of a c = (if c = 0 then Some (home a) else map_option (\<lambda>r. (low r, high r)) (coros a c))"

definition apart_from :: "nat \<times> nat \<Rightarrow> nat \<times> nat \<Rightarrow> bool" where
  "apart_from I J \<longleftrightarrow> snd I \<le> fst J \<or> snd J \<le> fst I"

definition fresh_region :: "spec \<Rightarrow> nat \<times> nat \<Rightarrow> bool" where
  "fresh_region a I \<longleftrightarrow> 0 < fst I \<and> fst I \<le> snd I \<and> snd I < 2 ^ 64 \<and> apart_from I (home a) \<and>
     (\<forall>co r. coros a co = Some r \<longrightarrow> apart_from I (guard r, high r) \<and> apart_from I (unat co, unat co + 64))"

definition site_ok :: "env \<Rightarrow> spec \<Rightarrow> site \<Rightarrow> bool" where
  "site_ok E a s \<longleftrightarrow> (case stack_of a (me a) of
     None \<Rightarrow> False
   | Some (lo, hi) \<Rightarrow> lo + 56 \<le> unat (site_regs s RSP) \<and> unat (site_regs s RSP) \<le> hi) \<and>
     8 dvd unat (site_regs s RSP) \<and> site_ret s \<noteq> entry E"

definition set_state :: "u64 \<Rightarrow> co_state \<Rightarrow> spec \<Rightarrow> spec" where
  "set_state co st a = a\<lparr>coros := (case coros a co of None \<Rightarrow> coros a | Some r \<Rightarrow> (coros a)(co \<mapsto> r\<lparr>state := st\<rparr>))\<rparr>"

text \<open>Control goes back to the context that waits longest: the last that resumed.\<close>

definition hand_back :: "co_state \<Rightarrow> u64 \<Rightarrow> spec \<Rightarrow> (spec \<times> prog) option" where
  "hand_back st v a = (case waiting a of
     [] \<Rightarrow> None
   | (c, k) # rest \<Rightarrow> Some ((set_state (me a) st a)\<lparr>me := c, waiting := rest\<rparr>, k v))"

text \<open>
  \<open>mmap\<close> is asked for a whole number of pages and gives page-aligned memory that nobody uses, \<open>calloc\<close>
  gives aligned memory that nobody uses.
\<close>

definition create_ok :: "env \<Rightarrow> spec \<Rightarrow> u64 \<Rightarrow> u64 \<Rightarrow> u64 \<Rightarrow> bool" where
  "create_ok E a len base co \<longleftrightarrow> co \<noteq> 0 \<and> 16 dvd unat co \<and>
     unat base mod unat (page E) = 0 \<and>
     fresh_region a (unat base, unat base + unat len) \<and> fresh_region a (unat co, unat co + 64) \<and>
     apart_from (unat base, unat base + unat len) (unat co, unat co + 64)"

definition spec_create ::
  "env \<Rightarrow> (u64 \<Rightarrow> u64 option) \<Rightarrow> u64 option \<Rightarrow> u64 \<Rightarrow> u64 \<Rightarrow> u64 \<Rightarrow> spec \<Rightarrow> (u64 \<times> spec) option" where
  "spec_create E mmap calloc fn arg n a = (let len = stack_bytes (page E) n + page E in
     case mmap len of
       None \<Rightarrow> Some (0, a)
     | Some base \<Rightarrow> (case calloc of
         None \<Rightarrow> if unat n \<le> 2 ^ 62 \<and> fresh_region a (unat base, unat base + unat len) then Some (0, a) else None
       | Some co \<Rightarrow>
           if unat n \<le> 2 ^ 62 \<and> create_ok E a len base co then
             Some (co, a\<lparr>coros := (coros a)(co \<mapsto> \<lparr>state = Suspended (\<lambda>_. bodies E fn arg), guard = unat base,
               low = unat base + unat (page E), high = unat base + unat len\<rparr>)\<rparr>)
           else None))"

definition spec_step :: "env \<Rightarrow> spec \<times> prog \<Rightarrow> (spec \<times> prog) option" where
  "spec_step E ap = (case ap of (a, p) \<Rightarrow> (case p of
     Return s \<Rightarrow> if site_ok E a s then hand_back Finished 0 a else None
   | Yield v s k \<Rightarrow> if site_ok E a s then hand_back (Suspended k) v a else None
   | Resume co v s k \<Rightarrow> (case map_option state (coros a co) of
       Some Finished \<Rightarrow> Some (a, k 0)
     | Some (Suspended c) \<Rightarrow>
         if site_ok E a s then Some ((set_state co Active a)\<lparr>me := co, waiting := (me a, k) # waiting a\<rparr>, c v)
         else None
     | _ \<Rightarrow> None)
   | Create fn arg n mmap calloc k \<Rightarrow> do { (co, a) \<leftarrow> spec_create E mmap calloc fn arg n a; Some (a, k co) }
   | Done co k \<Rightarrow> map_option (\<lambda>r. (a, k (case state r of Finished \<Rightarrow> 1 | _ \<Rightarrow> 0))) (coros a co)
   | Destroy co p \<Rightarrow>
       if co = 0 then Some (a, p)
       else (case map_option state (coros a co) of
         None \<Rightarrow> None
       | Some Active \<Rightarrow> None
       | _ \<Rightarrow> Some (a\<lparr>coros := (coros a)(co := None)\<rparr>, p))
   | Write x v p \<Rightarrow> (case stack_of a (me a) of
       None \<Rightarrow> None
     | Some (lo, hi) \<Rightarrow> if lo \<le> unat x \<and> unat x < hi \<and> 8 dvd unat x then Some (a, p) else None)))"

definition spec_run :: "env \<Rightarrow> nat \<Rightarrow> spec \<times> prog \<Rightarrow> (spec \<times> prog) option" where
  "spec_run E = steps (spec_step E)"

text \<open>Before the first coroutine: only the main program, on its stack.\<close>

definition spec_init :: "nat \<times> nat \<Rightarrow> spec" where
  "spec_init I = \<lparr>me = 0, waiting = [], coros = Map.empty, home = I\<rparr>"

definition world_init :: "(nat \<rightharpoonup> u64) \<Rightarrow> world" where
  "world_init m = \<lparr>core = \<lparr>regs = (\<lambda>_. 0), ram = m, rip = 0\<rparr>, g_current = 0, conts = Map.empty, self = 0\<rparr>"

end
