(* ===== verification/Coroutine_Sim.thy ===== *)
theory Coroutine_Sim
  imports Coroutine_Spec
begin

text \<open>
  The relation between the machine with stack pointers and the abstract machine: every context but the
  running one has exactly one saved frame on its stack, and the coroutine records say where.
\<close>

section \<open>The regions of memory\<close>

definition co_shape :: "u64 \<Rightarrow> coro \<Rightarrow> bool" where
  "co_shape co r \<longleftrightarrow> co \<noteq> 0 \<and> unat co + 64 < 2 ^ 64 \<and> guard r \<le> low r \<and> low r \<le> high r \<and> high r < 2 ^ 64 \<and>
     apart_from (guard r, high r) (unat co, unat co + 64)"

definition shaped :: "spec \<Rightarrow> bool" where
  "shaped a \<longleftrightarrow> fst (home a) \<le> snd (home a) \<and> snd (home a) < 2 ^ 64 \<and>
     (\<forall>co r. coros a co = Some r \<longrightarrow> co_shape co r \<and>
        apart_from (home a) (guard r, high r) \<and> apart_from (home a) (unat co, unat co + 64)) \<and>
     (\<forall>co r d q. coros a co = Some r \<longrightarrow> coros a d = Some q \<longrightarrow> co \<noteq> d \<longrightarrow>
        apart_from (guard r, high r) (guard q, high q) \<and> apart_from (guard r, high r) (unat d, unat d + 64) \<and>
        apart_from (unat co, unat co + 64) (unat d, unat d + 64))"

lemma apart_from_pair [simp]: "apart_from (a, b) (c, d) \<longleftrightarrow> b \<le> c \<or> d \<le> a"
  by (simp add: apart_from_def)

lemma shaped_co: "shaped a \<Longrightarrow> coros a co = Some r \<Longrightarrow> co_shape co r"
  unfolding shaped_def by blast

lemma shaped_stack:
  assumes "shaped a" "stack_of a c = Some (lo, hi)"
  shows "lo \<le> hi" "hi < 2 ^ 64"
  using assms shaped_co [OF assms(1)] by (auto simp: stack_of_def shaped_def co_shape_def split: if_splits)

lemma stacks_apart:
  assumes sh: "shaped a" and c: "stack_of a c = Some (lo, hi)" "stack_of a d = Some (lo', hi')" "c \<noteq> d"
  shows "hi \<le> lo' \<or> hi' \<le> lo"
proof -
  have home: "apart_from (home a) (guard r, high r) \<and> guard r \<le> low r" if "coros a e = Some r" for e r
    using sh that unfolding shaped_def co_shape_def by blast
  have two: "apart_from (guard r, high r) (guard q, high q)" if "coros a e = Some r" "coros a f = Some q" "e \<noteq> f" for e f r q
    using sh that unfolding shaped_def by blast
  consider "c = 0" "d \<noteq> 0" | "c \<noteq> 0" "d = 0" | "c \<noteq> 0" "d \<noteq> 0" using c(3) by auto
  then show ?thesis
  proof cases
    case 1
    then obtain r where "coros a d = Some r" "lo' = low r" "hi' = high r" using c by (auto simp: stack_of_def)
    then show ?thesis using home [of d r] c(1) 1 by (auto simp: stack_of_def)
  next
    case 2
    then obtain r where "coros a c = Some r" "lo = low r" "hi = high r" using c by (auto simp: stack_of_def)
    then show ?thesis using home [of c r] c(2) 2 by (auto simp: stack_of_def)
  next
    case 3
    then obtain r q where "coros a c = Some r" "lo = low r" "hi = high r" "coros a d = Some q" "lo' = low q" "hi' = high q"
      using c by (auto simp: stack_of_def)
    then show ?thesis using two [of c r d q] home [of c r] home [of d q] c(3) by auto
  qed
qed

lemma stack_record_apart:
  assumes sh: "shaped a" and c: "stack_of a c = Some (lo, hi)" "coros a d = Some q"
  shows "hi \<le> unat d \<or> unat d + 64 \<le> lo"
proof (cases "c = 0")
  case True
  then show ?thesis using sh c by (auto simp: shaped_def stack_of_def)
next
  case False
  then obtain r where r: "coros a c = Some r" "lo = low r" "hi = high r" using c(1) by (auto simp: stack_of_def)
  have "guard r \<le> low r" using shaped_co [OF sh r(1)] by (simp add: co_shape_def)
  moreover have "apart_from (guard r, high r) (unat d, unat d + 64)"
  proof (cases "c = d")
    case True
    then show ?thesis using shaped_co [OF sh r(1)] by (simp add: co_shape_def)
  next
    case False
    then show ?thesis using sh r(1) c(2) unfolding shaped_def by blast
  qed
  ultimately show ?thesis using r by auto
qed

lemma records_apart:
  assumes sh: "shaped a" and "coros a c = Some r" "coros a d = Some q" "c \<noteq> d"
  shows "unat c + 64 \<le> unat d \<or> unat d + 64 \<le> unat c"
proof -
  have "apart_from (unat c, unat c + 64) (unat d, unat d + 64)"
    using assms unfolding shaped_def by blast
  then show ?thesis by simp
qed

section \<open>Fields of the records\<close>

lemma field_at:
  assumes "co_shape co r"
  shows "unat (sp_at co) = unat co" "unat (caller_sp_at co) = unat co + 8" "unat (stack_base_at co) = unat co + 16"
    "unat (map_size_at co) = unat co + 24" "unat (fn_at co) = unat co + 32" "unat (arg_at co) = unat co + 40"
    "unat (value_at co) = unat co + 48" "unat (flags_at co) = unat co + 56"
  using assms unat_add_num [of co 8] unat_add_num [of co 16] unat_add_num [of co 24] unat_add_num [of co 32]
    unat_add_num [of co 40] unat_add_num [of co 48] unat_add_num [of co 56]
  by (simp_all add: co_shape_def sp_at_def caller_sp_at_def stack_base_at_def map_size_at_def fn_at_def arg_at_def
      value_at_def flags_at_def)

definition poke :: "nat \<Rightarrow> u64 \<Rightarrow> world \<Rightarrow> world" where
  "poke x v w = w\<lparr>core := (core w)\<lparr>ram := (ram (core w))(x \<mapsto> v)\<rparr>\<rparr>"

lemma poke_fields [simp]:
  "ram (core (poke x v w)) = (ram (core w))(x \<mapsto> v)" "rip (core (poke x v w)) = rip (core w)"
  "regs (core (poke x v w)) = regs (core w)" "conts (poke x v w) = conts w" "g_current (poke x v w) = g_current w"
  "self (poke x v w) = self w"
  by (simp_all add: poke_def)

lemma put_mapped: "ram (core w) (unat a) \<noteq> None \<Longrightarrow> put a v w = Some (poke (unat a) v w)"
  by (auto simp: put_def store_def poke_def)

lemma get_ram: "get a w = ram (core w) (unat a)"
  by (simp add: get_def load_def)

definition record_ok :: "world \<Rightarrow> u64 \<Rightarrow> coro \<Rightarrow> bool" where
  "record_ok w co r \<longleftrightarrow> (\<forall>i<8. ram (core w) (unat co + 8 * i) \<noteq> None) \<and>
     ram (core w) (unat co + 16) = Some (word_of_nat (guard r)) \<and>
     ram (core w) (unat co + 24) = Some (word_of_nat (high r - guard r)) \<and>
     get_done co w = Some (case state r of Finished \<Rightarrow> 1 | _ \<Rightarrow> 0)"

lemma record_mapped:
  assumes "record_ok w co r"
  shows "ram (core w) (unat co) \<noteq> None" "ram (core w) (unat co + 8) \<noteq> None" "ram (core w) (unat co + 48) \<noteq> None"
    "ram (core w) (unat co + 56) \<noteq> None"
proof -
  have "ram (core w) (unat co + 8 * i) \<noteq> None" if "i < 8" for i using assms that unfolding record_ok_def by blast
  from this [of 0] this [of 1] this [of 6] this [of 7]
  show "ram (core w) (unat co) \<noteq> None" "ram (core w) (unat co + 8) \<noteq> None" "ram (core w) (unat co + 48) \<noteq> None"
    "ram (core w) (unat co + 56) \<noteq> None" by simp_all
qed

section \<open>The relation\<close>

definition frame :: "env \<Rightarrow> spec \<Rightarrow> world \<Rightarrow> u64 \<Rightarrow> point \<Rightarrow> u64 \<Rightarrow> bool" where
  "frame E a w c pt s \<longleftrightarrow> (\<exists>lo hi rs ret. stack_of a c = Some (lo, hi) \<and> lo \<le> unat s \<and> unat s + 56 \<le> hi \<and>
     saved (ram (core w)) (unat s) rs ret \<and> ret \<noteq> entry E \<and>
     conts w (unat s + 56) = Some \<lparr>cont_regs = rs, cont_ret = ret, cont_point = pt\<rparr>)"

definition launch :: "env \<Rightarrow> spec \<Rightarrow> world \<Rightarrow> u64 \<Rightarrow> (u64 \<Rightarrow> prog) \<Rightarrow> u64 \<Rightarrow> bool" where
  "launch E a w co k s \<longleftrightarrow> (\<exists>lo hi rs f g. stack_of a co = Some (lo, hi) \<and> lo \<le> unat s \<and> unat s + 56 \<le> hi \<and>
     saved (ram (core w)) (unat s) rs (entry E) \<and>
     ram (core w) (unat co + 32) = Some f \<and> ram (core w) (unat co + 40) = Some g \<and> k = (\<lambda>_. bodies E f g))"

definition parked :: "env \<Rightarrow> spec \<Rightarrow> world \<Rightarrow> u64 \<Rightarrow> (u64 \<Rightarrow> prog) \<Rightarrow> bool" where
  "parked E a w co k \<longleftrightarrow> (\<exists>s. ram (core w) (unat co) = Some s \<and>
     (frame E a w co (In_yield co co k) s \<or> launch E a w co k s))"

fun chain :: "env \<Rightarrow> spec \<Rightarrow> world \<Rightarrow> u64 \<Rightarrow> (u64 \<times> (u64 \<Rightarrow> prog)) list \<Rightarrow> bool" where
  "chain E a w c [] \<longleftrightarrow> c = 0"
| "chain E a w c ((d, k) # cs) \<longleftrightarrow> c \<noteq> 0 \<and>
     (\<exists>s. ram (core w) (unat c + 8) = Some s \<and> frame E a w d (In_resume d c d k) s) \<and> chain E a w d cs"

definition actives :: "spec \<Rightarrow> u64 list" where
  "actives a = me a # map fst (waiting a)"

definition stacks_mapped :: "spec \<Rightarrow> world \<Rightarrow> bool" where
  "stacks_mapped a w \<longleftrightarrow> (\<forall>c lo hi x. stack_of a c = Some (lo, hi) \<longrightarrow> lo \<le> x \<longrightarrow> x < hi \<longrightarrow> 8 dvd x \<longrightarrow>
     ram (core w) x \<noteq> None)"

definition sim :: "env \<Rightarrow> spec \<Rightarrow> world \<Rightarrow> bool" where
  "sim E a w \<longleftrightarrow> shaped a \<and> g_current w = me a \<and> self w = me a \<and> stacks_mapped a w \<and>
     (\<forall>co r. coros a co = Some r \<longrightarrow> record_ok w co r) \<and>
     (\<forall>co r k. coros a co = Some r \<longrightarrow> state r = Suspended k \<longrightarrow> parked E a w co k) \<and>
     distinct (actives a) \<and>
     (\<forall>co\<in>set (actives a). co \<noteq> 0 \<longrightarrow> (\<exists>r. coros a co = Some r \<and> state r = Active)) \<and>
     chain E a w (me a) (waiting a)"

section \<open>What a change leaves\<close>

definition stack_kept :: "spec \<Rightarrow> u64 \<Rightarrow> world \<Rightarrow> world \<Rightarrow> bool" where
  "stack_kept a c w w' \<longleftrightarrow> (\<forall>lo hi x. stack_of a c = Some (lo, hi) \<longrightarrow>
     (lo \<le> x \<longrightarrow> x < hi \<longrightarrow> ram (core w') x = ram (core w) x) \<and>
     (lo + 56 \<le> x \<longrightarrow> x \<le> hi \<longrightarrow> conts w' x = conts w x))"

definition record_kept :: "u64 \<Rightarrow> world \<Rightarrow> world \<Rightarrow> bool" where
  "record_kept c w w' \<longleftrightarrow> (\<forall>x. unat c \<le> x \<longrightarrow> x < unat c + 64 \<longrightarrow> ram (core w') x = ram (core w) x)"

lemma record_keptD: "record_kept c w w' \<Longrightarrow> n < 64 \<Longrightarrow> ram (core w') (unat c + n) = ram (core w) (unat c + n)"
  by (simp add: record_kept_def)

lemma frame_kept:
  assumes "frame E a w c pt s" "stack_kept a c w w'" "stack_of a' c = stack_of a c"
  shows "frame E a' w' c pt s"
proof -
  obtain lo hi rs ret where f: "stack_of a c = Some (lo, hi)" "lo \<le> unat s" "unat s + 56 \<le> hi"
    "saved (ram (core w)) (unat s) rs ret" "ret \<noteq> entry E"
    "conts w (unat s + 56) = Some \<lparr>cont_regs = rs, cont_ret = ret, cont_point = pt\<rparr>"
    using assms(1) unfolding frame_def by blast
  have k: "lo \<le> x \<Longrightarrow> x < hi \<Longrightarrow> ram (core w') x = ram (core w) x"
    "lo + 56 \<le> x \<Longrightarrow> x \<le> hi \<Longrightarrow> conts w' x = conts w x" for x
    using assms(2) f(1) unfolding stack_kept_def by blast+
  have "saved (ram (core w')) (unat s) rs ret"
    using f(2-4) k(1) saved_cong [of "unat s" "ram (core w')" "ram (core w)"] by simp
  moreover have "conts w' (unat s + 56) = conts w (unat s + 56)" using k(2) f(2,3) by simp
  ultimately show ?thesis using f assms(3) unfolding frame_def by fastforce
qed

lemma launch_kept:
  assumes "launch E a w c k s" "stack_kept a c w w'" "record_kept c w w'" "stack_of a' c = stack_of a c"
  shows "launch E a' w' c k s"
proof -
  obtain lo hi rs f g where l: "stack_of a c = Some (lo, hi)" "lo \<le> unat s" "unat s + 56 \<le> hi"
    "saved (ram (core w)) (unat s) rs (entry E)" "ram (core w) (unat c + 32) = Some f"
    "ram (core w) (unat c + 40) = Some g" "k = (\<lambda>_. bodies E f g)"
    using assms(1) unfolding launch_def by blast
  have k: "lo \<le> x \<Longrightarrow> x < hi \<Longrightarrow> ram (core w') x = ram (core w) x" for x
    using assms(2) l(1) unfolding stack_kept_def by blast
  have "saved (ram (core w')) (unat s) rs (entry E)"
    using l(2-4) k saved_cong [of "unat s" "ram (core w')" "ram (core w)"] by simp
  moreover have "ram (core w') (unat c + 32) = Some f" "ram (core w') (unat c + 40) = Some g"
    using l(5,6) record_keptD [OF assms(3)] by simp_all
  ultimately show ?thesis using l assms(4) unfolding launch_def by fastforce
qed

lemma parked_kept:
  assumes "parked E a w c k" "stack_kept a c w w'" "record_kept c w w'" "stack_of a' c = stack_of a c"
  shows "parked E a' w' c k"
  using assms(1) frame_kept [OF _ assms(2,4)] launch_kept [OF _ assms(2-4)] record_keptD [OF assms(3), of 0]
  unfolding parked_def by auto

lemma chain_kept:
  assumes "chain E a w c cs" "\<forall>d\<in>set (map fst cs). stack_kept a d w w' \<and> stack_of a' d = stack_of a d"
    and "\<forall>d\<in>set (c # map fst cs). d \<noteq> 0 \<longrightarrow> record_kept d w w'"
  shows "chain E a' w' c cs"
  using assms
proof (induction cs arbitrary: c)
  case (Cons b cs)
  obtain d k where b: "b = (d, k)" by fastforce
  obtain s where s: "ram (core w) (unat c + 8) = Some s" "frame E a w d (In_resume d c d k) s" "c \<noteq> 0"
    using Cons.prems(1) b by auto
  have "frame E a' w' d (In_resume d c d k) s"
    using frame_kept [OF s(2)] Cons.prems(2) b by auto
  moreover have "ram (core w') (unat c + 8) = Some s"
    using record_keptD [of c w w' 8] Cons.prems(3) s by auto
  moreover have "chain E a' w' d cs" using Cons.IH [of d] Cons.prems b by auto
  ultimately show ?case using s(3) b by auto
qed simp

lemma record_ok_kept: "record_ok w co r \<Longrightarrow> record_kept co w w' \<Longrightarrow> co_shape co r \<Longrightarrow> record_ok w' co r"
  using record_keptD [of co w w']
  by (simp add: record_ok_def get_done_def get_ram field_at)

end
