(* ===== verification/Coroutine_Step.thy ===== *)
theory Coroutine_Step
  imports Coroutine_Sim
begin

text \<open>
  The simulation, call by call: where the abstract machine has a step, the code is defined, goes on with
  the same program, and the two states are related again.
\<close>

section \<open>Changing the state of a coroutine\<close>

lemma set_state_fields [simp]:
  "me (set_state co st a) = me a" "waiting (set_state co st a) = waiting a" "home (set_state co st a) = home a"
  by (simp_all add: set_state_def)

lemma coros_set_state:
  "coros (set_state co st a) d = (if d = co then map_option (\<lambda>r. r\<lparr>state := st\<rparr>) (coros a d) else coros a d)"
  by (auto simp: set_state_def split: option.splits)

definition same_regions :: "spec \<Rightarrow> spec \<Rightarrow> bool" where
  "same_regions a a' \<longleftrightarrow> home a' = home a \<and>
     (\<forall>co. map_option (\<lambda>r. (guard r, low r, high r)) (coros a' co) = map_option (\<lambda>r. (guard r, low r, high r)) (coros a co))"

lemma same_regions_set: "same_regions a ((set_state co st a)\<lparr>me := c, waiting := ws\<rparr>)"
  by (auto simp: same_regions_def coros_set_state option.map_comp o_def)

lemma same_regions_co:
  assumes "same_regions a a'"
  shows "home a' = home a" "coros a' co = Some r \<Longrightarrow> \<exists>q. coros a co = Some q \<and> guard q = guard r \<and> low q = low r \<and> high q = high r"
    "coros a' co = None \<longleftrightarrow> coros a co = None"
proof -
  show "home a' = home a" using assms by (simp add: same_regions_def)
  have e: "map_option (\<lambda>r. (guard r, low r, high r)) (coros a' co) = map_option (\<lambda>r. (guard r, low r, high r)) (coros a co)"
    using assms unfolding same_regions_def by blast
  show "\<exists>q. coros a co = Some q \<and> guard q = guard r \<and> low q = low r \<and> high q = high r" if "coros a' co = Some r"
    using e that by (cases "coros a co") auto
  show "coros a' co = None \<longleftrightarrow> coros a co = None" using e by (cases "coros a co"; cases "coros a' co") auto
qed

lemma same_regions_stack: "same_regions a a' \<Longrightarrow> stack_of a' c = stack_of a c"
  using same_regions_co(1) [of a a'] same_regions_co(2) [of a a' c] same_regions_co(3) [of a a' c]
  by (cases "coros a' c") (auto simp: stack_of_def)

lemma same_regions_shaped:
  assumes "same_regions a a'" "shaped a"
  shows "shaped a'"
proof -
  have "co_shape co r \<and> apart_from (home a') (guard r, high r) \<and> apart_from (home a') (unat co, unat co + 64)"
    if r: "coros a' co = Some r" for co r
  proof -
    obtain q where q: "coros a co = Some q" "guard q = guard r" "low q = low r" "high q = high r"
      using same_regions_co(2) [OF assms(1) r] by blast
    have "co_shape co q \<and> apart_from (home a) (guard q, high q) \<and> apart_from (home a) (unat co, unat co + 64)"
      using assms(2) q(1) unfolding shaped_def by blast
    then show ?thesis using q same_regions_co(1) [OF assms(1)] by (simp add: co_shape_def)
  qed
  moreover have "apart_from (guard r, high r) (guard q, high q) \<and> apart_from (guard r, high r) (unat d, unat d + 64) \<and>
        apart_from (unat co, unat co + 64) (unat d, unat d + 64)"
    if two: "coros a' co = Some r" "coros a' d = Some q" "co \<noteq> d" for co r d q
  proof -
    obtain r' where r: "coros a co = Some r'" "guard r' = guard r" "high r' = high r"
      using same_regions_co(2) [OF assms(1) two(1)] by blast
    obtain q' where q: "coros a d = Some q'" "guard q' = guard q" "high q' = high q"
      using same_regions_co(2) [OF assms(1) two(2)] by blast
    have "apart_from (guard r', high r') (guard q', high q') \<and> apart_from (guard r', high r') (unat d, unat d + 64) \<and>
        apart_from (unat co, unat co + 64) (unat d, unat d + 64)"
      using assms(2) r(1) q(1) two(3) unfolding shaped_def by blast
    then show ?thesis using r q by simp
  qed
  moreover have "fst (home a') \<le> snd (home a') \<and> snd (home a') < 2 ^ 64"
    using assms(2) same_regions_co(1) [OF assms(1)] by (simp add: shaped_def)
  ultimately show ?thesis unfolding shaped_def by blast
qed

section \<open>The switch, on related states\<close>

lemma switch_sim:
  assumes sh: "shaped a" and mp: "stacks_mapped a w" and s: "site_ok E a s"
    and e: "coros a e = Some r" "unat e \<le> unat A" "unat A + 8 \<le> unat e + 64" "ram (core w) (unat A) \<noteq> None"
    and d: "stack_of a d = Some (lo, hi)" "d \<noteq> me a" "lo \<le> unat t" "unat t + 56 \<le> hi" "saved (ram (core w)) (unat t) rs ret"
  shows "\<exists>w'. co_switch A t s pt w = Some w' \<and>
    rip (core w') = ret \<and> map (regs (core w')) callee_saved = rs \<and> unat (regs (core w') RSP) = unat t + 56 \<and>
    g_current w' = g_current w \<and> self w' = self w \<and>
    (\<exists>u. ram (core w') (unat A) = Some u \<and> frame E a w' (me a) pt u) \<and>
    (\<forall>c. c \<noteq> me a \<longrightarrow> stack_kept a c w w') \<and>
    (\<forall>c q. coros a c = Some q \<longrightarrow> c \<noteq> e \<longrightarrow> record_kept c w w') \<and>
    (\<forall>x. unat e \<le> x \<longrightarrow> x < unat e + 64 \<longrightarrow> x \<noteq> unat A \<longrightarrow> ram (core w') x = ram (core w) x) \<and>
    (\<forall>x. ram (core w) x \<noteq> None \<longrightarrow> ram (core w') x \<noteq> None)"
proof -
  let ?S = "unat (site_regs s RSP)"
  obtain ml mh where m: "stack_of a (me a) = Some (ml, mh)" "ml + 56 \<le> ?S" "?S \<le> mh" "8 dvd ?S" "site_ret s \<noteq> entry E"
    using s by (auto simp: site_ok_def split: option.splits)
  have low: "56 \<le> ?S" using m(2) by simp
  have below: "ram (core w) (?S - 8 * Suc i) \<noteq> None" if "i < 7" for i
  proof -
    have "8 * Suc i \<le> 56" "0 < 8 * Suc i" using that by simp_all
    then have "ml \<le> ?S - 8 * Suc i" "?S - 8 * Suc i < mh"
      using m(2,3) low by linarith+
    moreover have "8 dvd ?S - 8 * Suc i" using m(4) by simp
    ultimately show ?thesis using mp m(1) unfolding stacks_mapped_def by blast
  qed
  note se = stack_record_apart [OF sh m(1) e(1)]
  note de = stack_record_apart [OF sh d(1) e(1)]
  note md = stacks_apart [OF sh m(1) d(1) d(2) [symmetric]]
  have A: "unat A < ?S - 56 \<or> ?S \<le> unat A" using se e(2,3) m(2,3) by linarith
  have t: "unat t + 56 < 2 ^ 64" using shaped_stack(2) [OF sh d(1)] d(4) by simp
  have t3: "unat t + 56 \<le> ?S - 56 \<or> ?S \<le> unat t" using md d(3,4) m(2,3) by linarith
  have t4: "unat A + 8 \<le> unat t \<or> unat t + 56 \<le> unat A" using de e(2,3) d(3,4) by linarith
  obtain w' where w': "co_switch A t s pt w = Some w'"
    "ram (core w') = (save_mem ?S (site_regs s) (site_ret s) (ram (core w))) (unat A \<mapsto> site_regs s RSP - 56)"
    "rip (core w') = ret" "map (regs (core w')) callee_saved = rs" "unat (regs (core w') RSP) = unat t + 56"
    "conts w' = (conts w)(?S \<mapsto> \<lparr>cont_regs = map (site_regs s) callee_saved, cont_ret = site_ret s, cont_point = pt\<rparr>)"
    "g_current w' = g_current w" "self w' = self w"
    using co_switch_ok [OF _ low e(4) A d(5) t t3 t4, of pt] below by blast
  have ram: "ram (core w') x = ram (core w) x" if "x \<noteq> unat A" "x < ?S - 56 \<or> ?S \<le> x" for x
    using that save_mem_other [OF that(2) low] by (simp add: w'(2))
  have mapped: "ram (core w') x \<noteq> None" if "ram (core w) x \<noteq> None" for x
    unfolding w'(2) by (intro upd_dom save_mem_dom that)
  have u: "unat (site_regs s RSP - 56) = ?S - 56" by (rule unat_sub_steps(7) [OF low])
  have "frame E a w' (me a) pt (site_regs s RSP - 56)"
  proof -
    have "saved (ram (core w')) (?S - 56) (map (site_regs s) callee_saved) (site_ret s)"
    proof -
      have "ram (core w') x = save_mem ?S (site_regs s) (site_ret s) (ram (core w)) x"
        if "?S - 56 \<le> x" "x < ?S - 56 + 56" for x
        using A that low by (auto simp: w'(2))
      then show ?thesis using save_mem_saved [OF low, of "site_regs s" "site_ret s" "ram (core w)"]
        saved_cong [of "?S - 56" "ram (core w')"] by blast
    qed
    then show ?thesis using m low unfolding frame_def u
      by (intro exI [of _ ml] exI [of _ mh] exI [of _ "map (site_regs s) callee_saved"] exI [of _ "site_ret s"])
        (simp add: w'(6))
  qed
  moreover have "stack_kept a c w w'" if c: "c \<noteq> me a" for c
    unfolding stack_kept_def
  proof (intro allI impI conjI)
    fix lo' hi' x assume st: "stack_of a c = Some (lo', hi')"
    note mc = stacks_apart [OF sh m(1) st c [symmetric]]
    { assume "lo' \<le> x" "x < hi'"
      then show "ram (core w') x = ram (core w) x"
        using mc stack_record_apart [OF sh st e(1)] e(2,3) m(2,3) by (intro ram) linarith+ }
    { assume "lo' + 56 \<le> x" "x \<le> hi'"
      then have "x \<noteq> ?S" using mc m(2,3) by linarith
      then show "conts w' x = conts w x" by (simp add: w'(6)) }
  qed
  moreover have "record_kept c w w'" if c: "coros a c = Some q" "c \<noteq> e" for c q
    unfolding record_kept_def
    using records_apart [OF sh c(1) e(1) c(2)] stack_record_apart [OF sh m(1) c(1)] e(2,3) m(2,3)
    by (intro allI impI ram) linarith+
  moreover have "ram (core w') x = ram (core w) x" if "unat e \<le> x" "x < unat e + 64" "x \<noteq> unat A" for x
    using se that m(2,3) by (intro ram) linarith+
  ultimately show ?thesis using w' mapped by (intro exI [of _ w']) auto
qed

text \<open>Landing in a saved frame, and in the frame that \<open>co_create\<close> has built.\<close>

lemma land_frame:
  assumes "conts w (unat (regs (core w) RSP)) = Some \<lparr>cont_regs = rs, cont_ret = ret, cont_point = pt\<rparr>"
    and "rip (core w) = ret" "ret \<noteq> entry E" "map (regs (core w)) callee_saved = rs"
  shows "land E w = resume_at pt w"
  using assms by (simp add: land_def Let_def)

end
