(* ===== verification/Coroutine_Calls.thy ===== *)
theory Coroutine_Calls
  imports Coroutine_Step
begin

text \<open>Yielding, returning and resuming, on related states.\<close>

lemma simD:
  assumes "sim E a w"
  shows "shaped a" "g_current w = me a" "self w = me a" "stacks_mapped a w" "distinct (actives a)"
    "chain E a w (me a) (waiting a)" "coros a co = Some r \<Longrightarrow> record_ok w co r"
    "coros a co = Some r \<Longrightarrow> state r = Suspended k \<Longrightarrow> parked E a w co k"
    "co \<in> set (actives a) \<Longrightarrow> co \<noteq> 0 \<Longrightarrow> \<exists>r. coros a co = Some r \<and> state r = Active"
  using assms unfolding sim_def by blast+

lemma stack_kept_trans: "stack_kept a c w w' \<Longrightarrow> stack_kept a c w' w'' \<Longrightarrow> stack_kept a c w w''"
  unfolding stack_kept_def by (metis (no_types))

lemma record_kept_trans: "record_kept c w w' \<Longrightarrow> record_kept c w' w'' \<Longrightarrow> record_kept c w w''"
  unfolding record_kept_def by metis

text \<open>A change inside of the record of one coroutine.\<close>

definition only_record :: "u64 \<Rightarrow> world \<Rightarrow> world \<Rightarrow> bool" where
  "only_record c w w' \<longleftrightarrow> conts w' = conts w \<and>
     (\<forall>x. x < unat c \<or> unat c + 64 \<le> x \<longrightarrow> ram (core w') x = ram (core w) x) \<and>
     (\<forall>x. ram (core w) x \<noteq> None \<longrightarrow> ram (core w') x \<noteq> None)"

lemma only_record_stack:
  assumes "shaped a" "coros a c = Some r" "only_record c w w'"
  shows "stack_kept a d w w'"
  unfolding stack_kept_def
proof (intro allI impI conjI)
  fix lo hi x assume st: "stack_of a d = Some (lo, hi)"
  note ap = stack_record_apart [OF assms(1) st assms(2)]
  { assume "lo \<le> x" "x < hi"
    then have "x < unat c \<or> unat c + 64 \<le> x" using ap by linarith
    then show "ram (core w') x = ram (core w) x" using assms(3) unfolding only_record_def by blast }
  show "conts w' x = conts w x" using assms(3) by (simp add: only_record_def)
qed

lemma only_record_record:
  assumes "shaped a" "coros a c = Some r" "only_record c w w'" "coros a d = Some q" "d \<noteq> c"
  shows "record_kept d w w'"
  unfolding record_kept_def
proof (intro allI impI)
  fix x assume "unat d \<le> x" "x < unat d + 64"
  then have "x < unat c \<or> unat c + 64 \<le> x" using records_apart [OF assms(1,4,2,5)] by linarith
  then show "ram (core w') x = ram (core w) x" using assms(3) unfolding only_record_def by blast
qed

lemma only_record_mapped: "only_record c w w' \<Longrightarrow> stacks_mapped a w \<Longrightarrow> stacks_mapped a w'"
  unfolding only_record_def stacks_mapped_def by blast

lemma resume_at_waiting:
  "ram (core w) (unat (value_at co)) = Some v \<Longrightarrow>
    resume_at (In_resume s co prev k) w = Some (w\<lparr>g_current := prev, self := s\<rparr>, k v)"
  "ram (core w) (unat (value_at co)) = Some v \<Longrightarrow> resume_at (In_yield s co k') w = Some (w\<lparr>self := s\<rparr>, k' v)"
  by (simp_all add: get_ram)

text \<open>Only the memory and the continuations of a state matter for the frames.\<close>

lemma kept_update [simp]:
  "stack_kept a c w (w'\<lparr>g_current := x\<rparr>) = stack_kept a c w w'" "stack_kept a c w (w'\<lparr>self := y\<rparr>) = stack_kept a c w w'"
  "record_kept c w (w'\<lparr>g_current := x\<rparr>) = record_kept c w w'" "record_kept c w (w'\<lparr>self := y\<rparr>) = record_kept c w w'"
  "frame E a (w'\<lparr>g_current := x\<rparr>) c pt t = frame E a w' c pt t" "frame E a (w'\<lparr>self := y\<rparr>) c pt t = frame E a w' c pt t"
  "record_ok (w'\<lparr>g_current := x\<rparr>) c r = record_ok w' c r" "record_ok (w'\<lparr>self := y\<rparr>) c r = record_ok w' c r"
  "stacks_mapped a (w'\<lparr>g_current := x\<rparr>) = stacks_mapped a w'" "stacks_mapped a (w'\<lparr>self := y\<rparr>) = stacks_mapped a w'"
  by (simp_all add: stack_kept_def record_kept_def frame_def record_ok_def get_done_def get_ram stacks_mapped_def)

lemma frame_regions: "same_regions a a' \<Longrightarrow> frame E a w c pt s \<Longrightarrow> frame E a' w c pt s"
  unfolding frame_def by (simp add: same_regions_stack)

lemma chain_waiting: "chain E a w c ((d, k) # cs) \<Longrightarrow> \<exists>s. ram (core w) (unat c + 8) = Some s \<and> frame E a w d (In_resume d c d k) s"
  by auto

lemma back_sim:
  assumes sim: "sim E a w" and wt: "waiting a = (d, k0) # rest" and s: "site_ok E a s"
    and r: "coros a (me a) = Some r" and w1: "only_record (me a) w w1"
    and v: "ram (core w1) (unat (me a) + 8) = ram (core w) (unat (me a) + 8)" "ram (core w1) (unat (me a) + 48) = Some v"
    and ok: "record_ok w1 (me a) (r\<lparr>state := st\<rparr>)"
    and st: "st = Finished \<or> (\<exists>k. st = Suspended k \<and> pt = In_yield (me a) (me a) k)"
  shows "\<exists>sp w2 w3. get (caller_sp_at (me a)) w1 = Some sp \<and> co_switch (sp_at (me a)) sp s pt w1 = Some w2 \<and>
    land E w2 = Some (w3, k0 v) \<and> sim E ((set_state (me a) st a)\<lparr>me := d, waiting := rest\<rparr>) w3 \<and>
    (\<forall>c. c \<noteq> me a \<longrightarrow> stack_kept a c w w3)"
proof -
  let ?c = "me a" and ?a = "(set_state (me a) st a)\<lparr>me := d, waiting := rest\<rparr>"
  note sh = simD(1) [OF sim]
  note shape = shaped_co [OF sh r]
  note at = field_at [OF shape]
  have dist: "distinct (?c # d # map fst rest)" using simD(5) [OF sim] wt by (simp add: actives_def)
  have same: "same_regions a ?a" by (rule same_regions_set)
  have ch: "chain E a w ?c ((d, k0) # rest)" using simD(6) [OF sim] wt by simp
  then obtain sp where sp: "ram (core w) (unat ?c + 8) = Some sp" "frame E a w d (In_resume d ?c d k0) sp" by auto
  have "frame E a w1 d (In_resume d ?c d k0) sp"
    by (rule frame_kept [OF sp(2) only_record_stack [OF sh r w1] refl])
  then obtain lo hi rs ret where f: "stack_of a d = Some (lo, hi)" "lo \<le> unat sp" "unat sp + 56 \<le> hi"
    "saved (ram (core w1)) (unat sp) rs ret" "ret \<noteq> entry E"
    "conts w1 (unat sp + 56) = Some \<lparr>cont_regs = rs, cont_ret = ret, cont_point = In_resume d ?c d k0\<rparr>"
    unfolding frame_def by blast
  have dc: "d \<noteq> ?c" using dist by auto
  have "ram (core w1) (unat ?c) \<noteq> None" using record_mapped [OF ok] by simp
  then obtain w2 u where w2: "co_switch (sp_at ?c) sp s pt w1 = Some w2"
    "rip (core w2) = ret" "map (regs (core w2)) callee_saved = rs" "unat (regs (core w2) RSP) = unat sp + 56"
    "ram (core w2) (unat ?c) = Some u" "frame E a w2 ?c pt u"
    and k2: "\<And>c. c \<noteq> ?c \<Longrightarrow> stack_kept a c w1 w2" "\<And>c q. coros a c = Some q \<Longrightarrow> c \<noteq> ?c \<Longrightarrow> record_kept c w1 w2"
    "\<And>x. unat ?c \<le> x \<Longrightarrow> x < unat ?c + 64 \<Longrightarrow> x \<noteq> unat ?c \<Longrightarrow> ram (core w2) x = ram (core w1) x"
    "\<And>x. ram (core w1) x \<noteq> None \<Longrightarrow> ram (core w2) x \<noteq> None"
    using switch_sim [OF sh only_record_mapped [OF w1 simD(4) [OF sim]] s r, of "sp_at ?c" d lo hi sp rs ret pt]
      f(1-4) dc by (auto simp: at)
  let ?w = "w2\<lparr>g_current := d, self := d\<rparr>"
  have "conts w2 (unat sp + 56) = conts w1 (unat sp + 56)"
    using k2(1) [OF dc] f(1-3) unfolding stack_kept_def by simp
  then have "land E w2 = resume_at (In_resume d ?c d k0) w2"
    using land_frame [of w2 rs ret "In_resume d ?c d k0" E] w2 f(5,6) by simp
  moreover have "ram (core w2) (unat (value_at ?c)) = Some v" using k2(3) v(2) by (simp add: at)
  ultimately have land: "land E w2 = Some (?w, k0 v)" by (simp only: resume_at_waiting(1))
  have sk: "stack_kept a c w ?w" if "c \<noteq> ?c" for c
    using stack_kept_trans [OF only_record_stack [OF sh r w1, of c] k2(1) [OF that]] by simp
  have rk: "record_kept c w ?w" if "coros a c = Some q" "c \<noteq> ?c" for c q
    using record_kept_trans [OF only_record_record [OF sh r w1 that] k2(2) [OF that]] by simp
  have ok2: "record_ok ?w ?c (r\<lparr>state := st\<rparr>)"
  proof -
    have "ram (core w2) (unat ?c + 16) = ram (core w1) (unat ?c + 16)" "ram (core w2) (unat ?c + 24) = ram (core w1) (unat ?c + 24)"
      "ram (core w2) (unat ?c + 56) = ram (core w1) (unat ?c + 56)"
      using k2(3) by simp_all
    then show ?thesis using ok k2(4) by (simp add: record_ok_def get_done_def get_ram at)
  qed
  have "sim E ?a ?w"
    unfolding sim_def
  proof (intro conjI allI impI ballI)
    show "shaped ?a" by (rule same_regions_shaped [OF same sh])
    show "g_current ?w = me ?a" "self ?w = me ?a" by simp_all
    show "stacks_mapped ?a ?w"
      using only_record_mapped [OF w1 simD(4) [OF sim]] k2(4)
      unfolding stacks_mapped_def same_regions_stack [OF same] by simp
    show "distinct (actives ?a)" using dist by (simp add: actives_def)
    show "record_ok ?w co q" if "coros ?a co = Some q" for co q
    proof (cases "co = ?c")
      case True
      then show ?thesis using that ok2 r by (simp add: coros_set_state)
    next
      case False
      then have q: "coros a co = Some q" using that by (simp add: coros_set_state)
      from record_ok_kept [OF simD(7) [OF sim q] rk [OF q False] shaped_co [OF sh q]] show ?thesis .
    qed
    show "parked E ?a ?w co k" if "coros ?a co = Some q" "state q = Suspended k" for co q k
    proof (cases "co = ?c")
      case True
      then have "st = Suspended k" using that r by (auto simp: coros_set_state)
      then have "pt = In_yield ?c ?c k" using st by auto
      then have "frame E ?a ?w ?c (In_yield ?c ?c k) u" using frame_regions [OF same w2(6)] by simp
      then show ?thesis using True w2(5) unfolding parked_def by auto
    next
      case False
      then have q: "coros a co = Some q" using that by (simp add: coros_set_state)
      from parked_kept [OF simD(8) [OF sim q that(2)] sk [OF False] rk [OF q False] same_regions_stack [OF same]]
      show ?thesis .
    qed
    show "\<exists>q. coros ?a co = Some q \<and> state q = Active" if "co \<in> set (actives ?a)" "co \<noteq> 0" for co
    proof -
      have "co \<in> set (actives a)" "co \<noteq> ?c" using that(1) dist wt by (auto simp: actives_def)
      then show ?thesis using simD(9) [OF sim _ that(2)] by (simp add: coros_set_state)
    qed
    have "chain E a w d rest" using ch by simp
    moreover have "\<forall>e\<in>set (map fst rest). stack_kept a e w ?w \<and> stack_of ?a e = stack_of a e"
    proof (intro ballI conjI)
      fix e assume "e \<in> set (map fst rest)"
      then have "e \<noteq> ?c" using dist by (metis distinct.simps(2) list.set_intros(2))
      then show "stack_kept a e w ?w" by (rule sk)
      show "stack_of ?a e = stack_of a e" by (rule same_regions_stack [OF same])
    qed
    moreover have "\<forall>e\<in>set (d # map fst rest). e \<noteq> 0 \<longrightarrow> record_kept e w ?w"
    proof (intro ballI impI)
      fix e assume e: "e \<in> set (d # map fst rest)" "e \<noteq> 0"
      then have "e \<in> set (actives a)" "e \<noteq> ?c" using dist wt by (auto simp: actives_def)
      then show "record_kept e w ?w" using simD(9) [OF sim _ e(2)] rk by blast
    qed
    ultimately show "chain E ?a ?w (me ?a) (waiting ?a)" using chain_kept [of E a w d rest ?w ?a] by simp
  qed
  moreover have "get (caller_sp_at ?c) w1 = Some sp" using v(1) sp(1) by (simp add: get_ram at)
  ultimately show ?thesis using w2(1) land sk by blast
qed

section \<open>Yield and return\<close>

lemma poke_only: "unat c \<le> x \<Longrightarrow> x < unat c + 64 \<Longrightarrow> only_record c w (poke x v w)"
  by (auto simp: only_record_def)

lemma only_record_trans: "only_record c w w' \<Longrightarrow> only_record c w' w'' \<Longrightarrow> only_record c w w''"
  by (simp add: only_record_def)

lemma actives_me: "sim E a w \<Longrightarrow> me a \<noteq> 0 \<Longrightarrow> \<exists>r. coros a (me a) = Some r \<and> state r = Active"
  using simD(9) [of E a w "me a"] by (simp add: actives_def)

lemma waiting_me: "sim E a w \<Longrightarrow> waiting a = b # rest \<Longrightarrow> me a \<noteq> 0"
  using simD(6) [of E a w] by (cases b) simp

lemma yield_sim:
  assumes sim: "sim E a w" and s: "site_ok E a s" and st: "hand_back (Suspended k) v a = Some (a', p)"
  shows "\<exists>w'. co_yield E v s k w = Some (w', p) \<and> sim E a' w' \<and> (\<forall>c. c \<noteq> me a \<longrightarrow> stack_kept a c w w')"
proof -
  obtain d k0 rest where wt: "waiting a = (d, k0) # rest"
    and a': "a' = (set_state (me a) (Suspended k) a)\<lparr>me := d, waiting := rest\<rparr>" "p = k0 v"
    using st by (auto simp: hand_back_def split: list.splits)
  obtain r where r: "coros a (me a) = Some r" "state r = Active"
    using actives_me [OF sim waiting_me [OF sim wt]] by blast
  note at = field_at [OF shaped_co [OF simD(1) [OF sim] r(1)]]
  note ok = simD(7) [OF sim r(1)]
  let ?w = "poke (unat (me a) + 48) v w"
  have put: "put (value_at (me a)) v w = Some ?w" using put_mapped [of w "value_at (me a)" v] record_mapped(3) [OF ok] by (simp add: at)
  have "record_ok ?w (me a) (r\<lparr>state := Suspended k\<rparr>)"
    using ok r(2) by (simp add: record_ok_def get_done_def get_ram at)
  from back_sim [OF sim wt s r(1) poke_only [of "me a" "unat (me a) + 48" w v] _ _ this, of v "In_yield (me a) (me a) k"]
  obtain sp w2 w3 where "get (caller_sp_at (me a)) ?w = Some sp"
    "co_switch (sp_at (me a)) sp s (In_yield (me a) (me a) k) ?w = Some w2" "land E w2 = Some (w3, k0 v)" "sim E a' w3" "\<forall>c. c \<noteq> me a \<longrightarrow> stack_kept a c w w3"
    unfolding a'(1) by auto
  then show ?thesis using put a'(2) simD(2,3) [OF sim] by (simp add: co_yield_def)
qed

text \<open>Setting the two flags, the halves of one word.\<close>

lemma flag_words:
  fixes f :: u64
  shows "((f AND NOT 0xFFFFFFFF) OR 1) AND 0xFFFFFFFF = 1"
    "((f AND 0xFFFFFFFF) OR push_bit 32 1) AND 0xFFFFFFFF = f AND 0xFFFFFFFF"
proof -
  have "((f AND NOT 0xFFFFFFFF) OR 1) AND 0xFFFFFFFF = (f AND (NOT 0xFFFFFFFF AND 0xFFFFFFFF)) OR 1"
    by (simp only: and.assoc bit.conj_disj_distrib2) simp
  then show "((f AND NOT 0xFFFFFFFF) OR 1) AND 0xFFFFFFFF = 1" by simp
  have "((f AND 0xFFFFFFFF) OR push_bit 32 1) AND 0xFFFFFFFF = ((f AND 0xFFFFFFFF) AND 0xFFFFFFFF) OR (push_bit 32 1 AND 0xFFFFFFFF)"
    by (simp only: bit.conj_disj_distrib2)
  then show "((f AND 0xFFFFFFFF) OR push_bit 32 1) AND 0xFFFFFFFF = f AND 0xFFFFFFFF" by (simp add: and.assoc push_bit_eq_mult)
qed

lemma return_sim:
  assumes sim: "sim E a w" and s: "site_ok E a s" and st: "hand_back Finished 0 a = Some (a', p)"
  shows "\<exists>w'. co_return E s w = Some (w', p) \<and> sim E a' w' \<and> (\<forall>c. c \<noteq> me a \<longrightarrow> stack_kept a c w w')"
proof -
  obtain d k0 rest where wt: "waiting a = (d, k0) # rest"
    and a': "a' = (set_state (me a) Finished a)\<lparr>me := d, waiting := rest\<rparr>" "p = k0 0"
    using st by (auto simp: hand_back_def split: list.splits)
  obtain r where r: "coros a (me a) = Some r" "state r = Active"
    using actives_me [OF sim waiting_me [OF sim wt]] by blast
  note at = field_at [OF shaped_co [OF simD(1) [OF sim] r(1)]]
  note ok = simD(7) [OF sim r(1)]
  obtain f where f: "ram (core w) (unat (me a) + 56) = Some f" using record_mapped(4) [OF ok] by auto
  let ?f = "(f AND NOT 0xFFFFFFFF) OR 1"
  let ?w1 = "poke (unat (me a) + 56) ?f w" and ?w = "poke (unat (me a) + 48) 0 (poke (unat (me a) + 56) ?f w)"
  have sd: "set_done (me a) w = Some ?w1"
    using put_mapped [of w "flags_at (me a)" ?f] f by (simp add: set_done_def get_ram at)
  have put: "put (value_at (me a)) 0 ?w1 = Some ?w"
    using put_mapped [of ?w1 "value_at (me a)" 0] record_mapped(3) [OF ok] by (simp add: at)
  have only: "only_record (me a) w ?w"
    by (rule only_record_trans [OF poke_only poke_only]) simp_all
  have "record_ok ?w (me a) (r\<lparr>state := Finished\<rparr>)"
    using ok by (simp add: record_ok_def get_done_def get_ram at flag_words [simplified])
  from back_sim [OF sim wt s r(1) only _ _ this, of 0 In_trampoline]
  obtain sp w2 w3 where "get (caller_sp_at (me a)) ?w = Some sp"
    "co_switch (sp_at (me a)) sp s In_trampoline ?w = Some w2" "land E w2 = Some (w3, k0 0)" "sim E a' w3" "\<forall>c. c \<noteq> me a \<longrightarrow> stack_kept a c w w3"
    unfolding a'(1) by auto
  then show ?thesis using sd put a'(2) simD(3) [OF sim] by (simp add: co_return_def)
qed

section \<open>Resume\<close>

text \<open>Where a suspended coroutine goes on: in its \<open>co_yield\<close>, or in the trampoline.\<close>

lemma parked_frame:
  assumes "parked E a w co k" "coros a co = Some q"
  shows "\<exists>t rs ret lo hi. ram (core w) (unat co) = Some t \<and> stack_of a co = Some (lo, hi) \<and> lo \<le> unat t \<and> unat t + 56 \<le> hi \<and>
    saved (ram (core w)) (unat t) rs ret \<and>
    (ret \<noteq> entry E \<and> conts w (unat t + 56) = Some \<lparr>cont_regs = rs, cont_ret = ret, cont_point = In_yield co co k\<rparr> \<or>
     ret = entry E \<and> (\<exists>f g. ram (core w) (unat co + 32) = Some f \<and> ram (core w) (unat co + 40) = Some g \<and> k = (\<lambda>_. bodies E f g)))"
  using assms unfolding parked_def frame_def launch_def by fastforce

lemma resume_sim:
  assumes sim: "sim E a w" and s: "site_ok E a s" and q: "coros a co = Some q" "state q = Suspended c"
  shows "\<exists>w'. co_resume E co v s k w = Some (w', c v) \<and>
    sim E ((set_state co Active a)\<lparr>me := co, waiting := (me a, k) # waiting a\<rparr>) w' \<and>
    (\<forall>c. c \<noteq> me a \<longrightarrow> stack_kept a c w w')"
proof -
  let ?a = "(set_state co Active a)\<lparr>me := co, waiting := (me a, k) # waiting a\<rparr>"
  note sh = simD(1) [OF sim]
  note shape = shaped_co [OF sh q(1)]
  note at = field_at [OF shape]
  note ok = simD(7) [OF sim q(1)]
  have same: "same_regions a ?a" by (rule same_regions_set)
  obtain f where f: "ram (core w) (unat co + 56) = Some f" using record_mapped(4) [OF ok] by auto
  let ?f = "(f AND 0xFFFFFFFF) OR push_bit 32 1"
  define w0 where "w0 = poke (unat co + 48) v w"
  define w1 where "w1 = poke (unat co + 56) ?f (w0\<lparr>g_current := co\<rparr>)"
  have undone: "get_done co w = Some 0" using ok q(2) by (simp add: record_ok_def)
  have put: "put (value_at co) v w = Some w0"
    using put_mapped [of w "value_at co" v] record_mapped(3) [OF ok] by (simp add: at w0_def)
  have started: "set_started co (w0\<lparr>g_current := co\<rparr>) = Some w1"
    using put_mapped [of "w0\<lparr>g_current := co\<rparr>" "flags_at co" ?f] f by (simp add: set_started_def get_ram at w1_def w0_def)
  have only: "only_record co w w1" by (auto simp: only_record_def w1_def w0_def)
  have keep1: "ram (core w1) (unat co + n) = ram (core w) (unat co + n)" if "n \<noteq> 48" "n \<noteq> 56" for n
    using that by (simp add: w1_def w0_def)
  have ok1: "record_ok w1 co (q\<lparr>state := Active\<rparr>)"
    using ok q(2) f by (simp add: record_ok_def get_done_def get_ram at flag_words [simplified] w1_def w0_def)
  have notme: "co \<noteq> me a"
  proof
    assume e: "co = me a"
    then obtain r where "coros a co = Some r" "state r = Active"
      using simD(9) [OF sim, of co] shape by (auto simp: actives_def co_shape_def)
    then show False using q by simp
  qed
  have "parked E a w co c" by (rule simD(8) [OF sim q])
  then obtain t rs ret lo hi where t: "ram (core w) (unat co) = Some t" "stack_of a co = Some (lo, hi)" "lo \<le> unat t"
    "unat t + 56 \<le> hi" "saved (ram (core w)) (unat t) rs ret"
    and cs: "ret \<noteq> entry E \<and> conts w (unat t + 56) = Some \<lparr>cont_regs = rs, cont_ret = ret, cont_point = In_yield co co c\<rparr> \<or>
     ret = entry E \<and> (\<exists>f g. ram (core w) (unat co + 32) = Some f \<and> ram (core w) (unat co + 40) = Some g \<and> c = (\<lambda>_. bodies E f g))"
    using parked_frame [OF _ q(1)] by blast
  have sk1: "stack_kept a d w w1" for d by (rule only_record_stack [OF sh q(1) only])
  have "saved (ram (core w1)) (unat t) rs ret"
    using t(2-5) sk1 [of co] saved_cong [of "unat t" "ram (core w1)" "ram (core w)"] unfolding stack_kept_def by simp
  moreover have "ram (core w1) (unat (caller_sp_at co)) \<noteq> None" using record_mapped(2) [OF ok1] by (simp add: at)
  ultimately obtain w2 u where w2: "co_switch (caller_sp_at co) t s (In_resume (me a) co (me a) k) w1 = Some w2"
    "rip (core w2) = ret" "map (regs (core w2)) callee_saved = rs" "unat (regs (core w2) RSP) = unat t + 56"
    "g_current w2 = co" "ram (core w2) (unat co + 8) = Some u" "frame E a w2 (me a) (In_resume (me a) co (me a) k) u"
    and k2: "\<And>c. c \<noteq> me a \<Longrightarrow> stack_kept a c w1 w2" "\<And>c q. coros a c = Some q \<Longrightarrow> c \<noteq> co \<Longrightarrow> record_kept c w1 w2"
    "\<And>x. unat co \<le> x \<Longrightarrow> x < unat co + 64 \<Longrightarrow> x \<noteq> unat co + 8 \<Longrightarrow> ram (core w2) x = ram (core w1) x"
    "\<And>x. ram (core w1) x \<noteq> None \<Longrightarrow> ram (core w2) x \<noteq> None"
    using switch_sim [OF sh only_record_mapped [OF only simD(4) [OF sim]] s q(1), of "caller_sp_at co" co lo hi t rs ret
        "In_resume (me a) co (me a) k"] t(2-4) notme by (auto simp: at w1_def)
  let ?w = "w2\<lparr>self := co\<rparr>"
  have keep: "ram (core w2) (unat co + n) = ram (core w) (unat co + n)" if "n < 64" "n \<noteq> 8" "n \<noteq> 48" "n \<noteq> 56" for n
    using k2(3) [of "unat co + n"] keep1 [of n] that by simp
  have val: "ram (core w2) (unat (value_at co)) = Some v"
    using k2(3) [of "unat co + 48"] by (simp add: at w1_def w0_def)
  have land: "land E w2 = Some (?w, c v)"
  proof (cases "ret = entry E")
    case True
    then obtain g h where g: "ram (core w) (unat co + 32) = Some g" "ram (core w) (unat co + 40) = Some h" "c = (\<lambda>_. bodies E g h)"
      using cs by auto
    then show ?thesis using True w2(2,5) keep [of 32] keep [of 40]
      by (simp add: land_def co_trampoline_def get_ram at)
  next
    case False
    then have c: "conts w (unat t + 56) = Some \<lparr>cont_regs = rs, cont_ret = ret, cont_point = In_yield co co c\<rparr>" using cs by simp
    have "stack_kept a co w w2" by (rule stack_kept_trans [OF sk1 k2(1) [OF notme]])
    then have "conts w2 (unat t + 56) = conts w (unat t + 56)" using t(2-4) unfolding stack_kept_def by simp
    then have "land E w2 = resume_at (In_yield co co c) w2"
      using land_frame [of w2 rs ret "In_yield co co c" E] w2(2-4) c False by simp
    then show ?thesis using resume_at_waiting(2) [OF val] by simp
  qed
  have sk: "stack_kept a d w ?w" if "d \<noteq> me a" for d
    using stack_kept_trans [OF sk1 k2(1) [OF that]] by simp
  have rk: "record_kept d w ?w" if "coros a d = Some r" "d \<noteq> co" for d r
    using record_kept_trans [OF only_record_record [OF sh q(1) only that] k2(2) [OF that]] by simp
  have ok2: "record_ok ?w co (q\<lparr>state := Active\<rparr>)"
    using ok1 k2(4) k2(3) [of "unat co + 16"] k2(3) [of "unat co + 24"] k2(3) [of "unat co + 56"]
    by (simp add: record_ok_def get_done_def get_ram at)
  have "sim E ?a ?w"
    unfolding sim_def
  proof (intro conjI allI impI ballI)
    show "shaped ?a" by (rule same_regions_shaped [OF same sh])
    show "g_current ?w = me ?a" "self ?w = me ?a" using w2(5) by simp_all
    show "stacks_mapped ?a ?w"
      using only_record_mapped [OF only simD(4) [OF sim]] k2(4)
      unfolding stacks_mapped_def same_regions_stack [OF same] by simp
    have "co \<notin> set (actives a)"
      using simD(9) [OF sim, of co] q shape by (auto simp: co_shape_def)
    then show "distinct (actives ?a)" using simD(5) [OF sim] by (auto simp: actives_def)
    show "record_ok ?w d r" if "coros ?a d = Some r" for d r
    proof (cases "d = co")
      case True
      then show ?thesis using that ok2 q by (simp add: coros_set_state)
    next
      case False
      then have r: "coros a d = Some r" using that by (simp add: coros_set_state)
      from record_ok_kept [OF simD(7) [OF sim r] rk [OF r False] shaped_co [OF sh r]] show ?thesis .
    qed
    show "parked E ?a ?w d j" if "coros ?a d = Some r" "state r = Suspended j" for d r j
    proof -
      have d: "d \<noteq> co" using that by (auto simp: coros_set_state)
      then have r: "coros a d = Some r" using that by (simp add: coros_set_state)
      have "d \<noteq> me a"
      proof
        assume "d = me a"
        then obtain r' where "coros a d = Some r'" "state r' = Active"
          using simD(9) [OF sim, of d] shaped_co [OF sh r] by (auto simp: actives_def co_shape_def)
        then show False using r that(2) by simp
      qed
      from parked_kept [OF simD(8) [OF sim r that(2)] sk [OF this] rk [OF r d] same_regions_stack [OF same]] show ?thesis .
    qed
    show "\<exists>r. coros ?a d = Some r \<and> state r = Active" if "d \<in> set (actives ?a)" "d \<noteq> 0" for d
      using simD(9) [OF sim _ that(2)] that(1) q by (auto simp: actives_def coros_set_state)
    have "chain E a w (me a) (waiting a)" by (rule simD(6) [OF sim])
    moreover have "\<forall>e\<in>set (map fst (waiting a)). stack_kept a e w ?w \<and> stack_of ?a e = stack_of a e"
    proof (intro ballI conjI)
      fix e assume "e \<in> set (map fst (waiting a))"
      then have "e \<noteq> me a" using simD(5) [OF sim] unfolding actives_def by (metis distinct.simps(2))
      then show "stack_kept a e w ?w" by (rule sk)
      show "stack_of ?a e = stack_of a e" by (rule same_regions_stack [OF same])
    qed
    moreover have "\<forall>e\<in>set (me a # map fst (waiting a)). e \<noteq> 0 \<longrightarrow> record_kept e w ?w"
    proof (intro ballI impI)
      fix e assume "e \<in> set (me a # map fst (waiting a))" "e \<noteq> 0"
      then obtain r where "coros a e = Some r" "state r = Active"
        using simD(9) [OF sim, of e] by (auto simp: actives_def)
      then show "record_kept e w ?w" using rk q by fastforce
    qed
    ultimately have "chain E ?a ?w (me a) (waiting a)" by (rule chain_kept)
    moreover have "frame E ?a ?w (me a) (In_resume (me a) co (me a) k) u"
      using frame_regions [OF same w2(7)] by simp
    ultimately show "chain E ?a ?w (me ?a) (waiting ?a)" using w2(6) shape by (simp add: co_shape_def)
  qed
  moreover have "get (sp_at co) w1 = Some t" using keep1 [of 0] t(1) by (simp add: get_ram at)
  ultimately show ?thesis using undone put started w2(1) land sk simD(2,3) [OF sim]
    by (simp add: co_resume_def w1_def w0_def)
qed

end
