(* ===== verification/Coroutine_Create.thy ===== *)
theory Coroutine_Create
  imports Coroutine_Calls
begin

text \<open>Creating and destroying coroutines, on related states.\<close>

section \<open>The size and the top of a stack\<close>

definition env_ok :: "env \<Rightarrow> bool" where
  "env_ok E \<longleftrightarrow> (\<exists>k. 12 \<le> k \<and> k \<le> 30 \<and> unat (page E) = 2 ^ k)"

lemma pageD:
  assumes "env_ok E"
  shows "4096 \<le> unat (page E)" "unat (page E) \<le> 2 ^ 30" "16 dvd unat (page E)"
proof -
  obtain k where k: "12 \<le> k" "k \<le> 30" "unat (page E) = 2 ^ k" using assms unfolding env_ok_def by blast
  have "(2 :: nat) ^ 12 \<le> 2 ^ k" using k(1) by (intro power_increasing) auto
  then show "4096 \<le> unat (page E)" using k(3) by simp
  show "unat (page E) \<le> 2 ^ 30" unfolding k(3) using k(2) by (intro power_increasing) auto
  have "(2 :: nat) ^ 4 dvd 2 ^ k" using k(1) by (intro le_imp_power_dvd) simp
  then show "16 dvd unat (page E)" using k(3) by simp
qed

lemma stack_bytes_ok:
  assumes E: "env_ok E" and n: "unat n \<le> 2 ^ 62"
  shows "unat (page E) \<le> unat (stack_bytes (page E) n)" "unat (stack_bytes (page E) n) \<le> 2 ^ 62 + 2 ^ 30"
    "unat (page E) dvd unat (stack_bytes (page E) n)"
    "unat (stack_bytes (page E) n + page E) = unat (stack_bytes (page E) n) + unat (page E)"
proof -
  obtain k where k: "12 \<le> k" "k \<le> 30" "unat (page E) = 2 ^ k" using E unfolding env_ok_def by blast
  note p = pageD [OF E]
  define m where "m = (if n = 0 then 65536 else n)"
  have "unat m \<noteq> 0" by (auto simp: m_def unat_eq_0)
  then have m: "0 < unat m" "unat m \<le> 2 ^ 62" using n by (simp_all add: m_def)
  have lt: "unat m + unat (page E) < 2 ^ 64" using m(2) p(2) by simp
  have pos: "0 < unat (page E)" using p(1) by simp
  have sb: "stack_bytes (page E) n = (m + page E - 1) AND NOT (page E - 1)"
    by (simp add: stack_bytes_def Let_def m_def)
  note r = round_up_nat [OF lt pos, folded sb]
  show d: "unat (page E) dvd unat (stack_bytes (page E) n)" using r(3) [of k] k(3) by simp
  moreover have "0 < unat (stack_bytes (page E) n)" using r(1) m(1) by simp
  ultimately show "unat (page E) \<le> unat (stack_bytes (page E) n)" by (rule dvd_imp_le)
  show u: "unat (stack_bytes (page E) n) \<le> 2 ^ 62 + 2 ^ 30" using r(2) m(2) p(2) by linarith
  show "unat (stack_bytes (page E) n + page E) = unat (stack_bytes (page E) n) + unat (page E)"
    using u p(2) by (simp add: unat_plus_if')
qed

lemma and_not_15:
  fixes x :: u64
  assumes "16 dvd unat x"
  shows "x AND NOT 15 = x"
proof -
  have "x AND 15 = take_bit 4 x" by (simp add: take_bit_eq_mask mask_eq_exp_minus_1)
  moreover have "unat (take_bit 4 x) = take_bit 4 (unat x)" by (simp only: unsigned_take_bit_eq)
  moreover have "take_bit 4 (unat x) = 0" using assms by (simp add: take_bit_eq_mod)
  ultimately have "x AND 15 = 0" by (simp only: unat_eq_0)
  then show ?thesis using and_not_sub [of x 15] by simp
qed

section \<open>The memory after \<open>co_create\<close>\<close>

lemma map_words_ram:
  "ram (core (map_words a n w)) x =
    (if unat a \<le> x \<and> x < unat a + n then (if 8 dvd x then Some 0 else None) else ram (core w) x)"
  "ram (core (unmap_words a n w)) x = (if unat a \<le> x \<and> x < unat a + n then None else ram (core w) x)"
  "conts (map_words a n w) = conts w" "conts (unmap_words a n w) = conts w"
  "g_current (map_words a n w) = g_current w" "g_current (unmap_words a n w) = g_current w"
  "self (map_words a n w) = self w" "self (unmap_words a n w) = self w"
  by (simp_all add: map_words_def unmap_words_def)

text \<open>The frame that \<open>co_create\<close> builds below the top of the stack.\<close>

definition launch_mem :: "nat \<Rightarrow> u64 \<Rightarrow> (nat \<rightharpoonup> u64) \<Rightarrow> nat \<rightharpoonup> u64" where
  "launch_mem b ret m = m(b + 48 \<mapsto> ret, b + 40 \<mapsto> 0, b + 32 \<mapsto> 0, b + 24 \<mapsto> 0, b + 16 \<mapsto> 0, b + 8 \<mapsto> 0, b \<mapsto> 0)"

lemma launch_mem_saved: "saved (launch_mem b ret m) b [0, 0, 0, 0, 0, 0] ret"
  by (simp add: saved_def launch_mem_def less_six)

lemma launch_mem_other:
  assumes "x < b \<or> b + 56 \<le> x"
  shows "launch_mem b ret m x = m x"
proof -
  have "x \<noteq> b" "x \<noteq> b + 8" "x \<noteq> b + 16" "x \<noteq> b + 24" "x \<noteq> b + 32" "x \<noteq> b + 40" "x \<noteq> b + 48"
    using assms by linarith+
  then show ?thesis by (simp add: launch_mem_def)
qed

lemma launch_mem_dom: "m x \<noteq> None \<Longrightarrow> launch_mem b ret m x \<noteq> None"
  unfolding launch_mem_def by (intro upd_dom)

lemma push_launch:
  assumes T: "unat tp = b + 56" and m: "\<And>x. b \<le> x \<Longrightarrow> x < b + 56 \<Longrightarrow> 8 dvd x \<Longrightarrow> ram (core w) x \<noteq> None" and b: "8 dvd b"
  shows "\<exists>w0 w'. put (tp - 8) e w = Some w0 \<and> push_zeros 6 (tp - 8) w0 = Some (tp - 56, w') \<and>
    ram (core w') = launch_mem b e (ram (core w)) \<and> conts w' = conts w \<and> g_current w' = g_current w \<and> self w' = self w"
proof -
  have low: "56 \<le> unat tp" using T by simp
  have at: "unat (tp - 8) = b + 48" "unat (tp - 16) = b + 40" "unat (tp - 24) = b + 32" "unat (tp - 32) = b + 24"
    "unat (tp - 40) = b + 16" "unat (tp - 48) = b + 8" "unat (tp - 56) = b"
    using unat_sub_steps [OF low] T by simp_all
  have mp: "ram (core w) (b + n) \<noteq> None" if "n < 56" "8 dvd n" for n using m [of "b + n"] b that by simp
  let ?w0 = "poke (b + 48) e w"
  let ?w1 = "poke (b + 40) 0 ?w0" let ?w2 = "poke (b + 32) 0 ?w1" let ?w3 = "poke (b + 24) 0 ?w2"
  let ?w4 = "poke (b + 16) 0 ?w3" let ?w5 = "poke (b + 8) 0 ?w4" let ?w6 = "poke b 0 ?w5"
  have "put (tp - 8) e w = Some ?w0" "put (tp - 16) 0 ?w0 = Some ?w1" "put (tp - 24) 0 ?w1 = Some ?w2"
    "put (tp - 32) 0 ?w2 = Some ?w3" "put (tp - 40) 0 ?w3 = Some ?w4" "put (tp - 48) 0 ?w4 = Some ?w5"
    "put (tp - 56) 0 ?w5 = Some ?w6"
    using put_mapped [of w "tp - 8" e] put_mapped [of ?w0 "tp - 16" 0] put_mapped [of ?w1 "tp - 24" 0]
      put_mapped [of ?w2 "tp - 32" 0] put_mapped [of ?w3 "tp - 40" 0] put_mapped [of ?w4 "tp - 48" 0]
      put_mapped [of ?w5 "tp - 56" 0] mp [of 48] mp [of 40] mp [of 32] mp [of 24] mp [of 16] mp [of 8] mp [of 0]
    by (simp_all add: at)
  then have "put (tp - 8) e w = Some ?w0 \<and> push_zeros 6 (tp - 8) ?w0 = Some (tp - 56, ?w6)"
    by (simp add: eval_nat_numeral diff_diff_add)
  moreover have "ram (core ?w6) = launch_mem b e (ram (core w))" by (simp add: launch_mem_def)
  ultimately show ?thesis by (intro exI [of _ ?w0] exI [of _ ?w6]) simp
qed

lemma stack_top:
  assumes E: "env_ok E" and n: "unat n \<le> 2 ^ 62" and len: "len = stack_bytes (page E) n + page E"
    and base: "unat base mod unat (page E) = 0"
  shows "16 dvd unat base + unat len"
proof -
  have "unat (page E) dvd unat base + unat len"
    using base stack_bytes_ok(3,4) [OF E n, folded len] by (simp add: mod_eq_0_iff_dvd)
  then show ?thesis using pageD(3) [OF E] by (rule dvd_trans [rotated])
qed

text \<open>The whole of \<open>co_create\<close>, when both allocations succeed.\<close>

lemma create_ram:
  fixes base co :: u64 and n f g :: u64
  assumes E: "env_ok E" and n: "unat n \<le> 2 ^ 62" and len: "len = stack_bytes (page E) n + page E"
    and os: "mmap len = Some base" and ok: "create_ok E a len base co"
  shows "\<exists>w'. co_create E mmap (Some co) f g n w = Some (co, w') \<and>
    conts w' = conts w \<and> g_current w' = g_current w \<and> self w' = self w \<and>
    (\<forall>x. (x < unat base \<or> unat base + unat len \<le> x) \<longrightarrow> (x < unat co \<or> unat co + 64 \<le> x) \<longrightarrow>
       ram (core w') x = ram (core w) x) \<and>
    (\<forall>x. unat base + unat (page E) \<le> x \<longrightarrow> x < unat base + unat len \<longrightarrow> 8 dvd x \<longrightarrow> ram (core w') x \<noteq> None) \<and>
    (\<exists>sp. ram (core w') (unat co) = Some sp \<and> unat sp + 56 = unat base + unat len \<and>
       saved (ram (core w')) (unat sp) [0, 0, 0, 0, 0, 0] (entry E)) \<and>
    ram (core w') (unat co + 8) = Some 0 \<and> ram (core w') (unat co + 16) = Some base \<and>
    ram (core w') (unat co + 24) = Some len \<and> ram (core w') (unat co + 32) = Some f \<and>
    ram (core w') (unat co + 40) = Some g \<and> ram (core w') (unat co + 48) = Some 0 \<and> ram (core w') (unat co + 56) = Some 0"
proof -
  let ?B = "unat base" and ?C = "unat co" and ?P = "unat (page E)" and ?L = "unat len"
  note p = pageD [OF E]
  note sb = stack_bytes_ok [OF E n, folded len]
  have al: "?B mod ?P = 0" "16 dvd ?C" "?B + ?L < 2 ^ 64" "?C + 64 < 2 ^ 64" "?B + ?L \<le> ?C \<or> ?C + 64 \<le> ?B"
    using ok by (simp_all add: create_ok_def fresh_region_def)
  have L: "2 * ?P \<le> ?L" "?P dvd ?L" using sb by simp_all
  have T16: "16 dvd ?B + ?L" by (rule stack_top [OF E n len al(1)])
  have T: "unat (base + len) = ?B + ?L" using al(3) by (simp add: unat_plus_if')
  have tp: "(base + len) AND NOT 15 = base + len" by (rule and_not_15) (simp add: T T16)
  define b where "b = ?B + ?L - 56"
  have b: "?B + ?L = b + 56" "?B + ?P \<le> b" using L p(1) by (simp_all add: b_def)
  have b8: "8 dvd b"
  proof -
    have "8 dvd b + 56" using T16 unfolding b(1) by (rule dvd_trans [rotated]) simp
    then show ?thesis by (simp add: dvd_add_left_iff)
  qed
  define w1 where "w1 = unmap_words base ?P (map_words base ?L w)"
  define w2 where "w2 = map_words co sizeof_coroutine w1"
  have w2: "ram (core w2) x = (if ?C \<le> x \<and> x < ?C + 64 then (if 8 dvd x then Some 0 else None)
      else if ?B \<le> x \<and> x < ?B + ?P then None
      else if ?B \<le> x \<and> x < ?B + ?L then (if 8 dvd x then Some 0 else None) else ram (core w) x)" for x
    by (simp add: w2_def w1_def map_words_ram sizeof_coroutine_def)
  have C8: "8 dvd ?C" using al(2) by (rule dvd_trans [rotated]) simp
  have f2: "ram (core w2) (?C + i) = Some 0" if "i < 64" "8 dvd i" for i using that C8 by (simp add: w2)
  have at: "unat (stack_base_at co) = ?C + 16" "unat (map_size_at co) = ?C + 24" "unat (fn_at co) = ?C + 32"
    "unat (arg_at co) = ?C + 40" "unat (sp_at co) = ?C"
    using unat_add_num [of co 16] unat_add_num [of co 24] unat_add_num [of co 32] unat_add_num [of co 40] al(4)
    by (simp_all add: stack_base_at_def map_size_at_def fn_at_def arg_at_def sp_at_def)
  let ?w3 = "poke (?C + 16) base w2" let ?w4 = "poke (?C + 24) len ?w3"
  let ?w5 = "poke (?C + 32) f ?w4" let ?w6 = "poke (?C + 40) g ?w5"
  have puts: "put (stack_base_at co) base w2 = Some ?w3" "put (map_size_at co) len ?w3 = Some ?w4"
    "put (fn_at co) f ?w4 = Some ?w5" "put (arg_at co) g ?w5 = Some ?w6"
    using put_mapped [of w2 "stack_base_at co" base] put_mapped [of ?w3 "map_size_at co" len]
      put_mapped [of ?w4 "fn_at co" f] put_mapped [of ?w5 "arg_at co" g] f2 [of 16] f2 [of 24] f2 [of 32] f2 [of 40]
    by (simp_all add: at)
  have out6: "ram (core ?w6) x = ram (core w2) x" if "x < ?C \<or> ?C + 64 \<le> x" for x using that by auto
  have st6: "ram (core ?w6) x \<noteq> None" if "?B + ?P \<le> x" "x < ?B + ?L" "8 dvd x" for x
  proof -
    have "x < ?C \<or> ?C + 64 \<le> x" using al(5) that by linarith
    then show ?thesis using that by (simp add: out6 w2)
  qed
  have "ram (core ?w6) x \<noteq> None" if "b \<le> x" "x < b + 56" "8 dvd x" for x
    using st6 [of x] that b by linarith
  then obtain w7 w8 where w8: "put (base + len - 8) (entry E) ?w6 = Some w7" "push_zeros 6 (base + len - 8) w7 = Some (base + len - 56, w8)"
    "ram (core w8) = launch_mem b (entry E) (ram (core ?w6))" "conts w8 = conts ?w6" "g_current w8 = g_current ?w6" "self w8 = self ?w6"
    using push_launch [of "base + len" b ?w6 "entry E", OF _ _ b8] T b(1) by auto
  have rec8: "ram (core w8) x = ram (core ?w6) x" if "?C \<le> x" "x < ?C + 64" for x
  proof -
    have "x < b \<or> b + 56 \<le> x" using al(5) that b by linarith
    then show ?thesis unfolding w8(3) by (rule launch_mem_other)
  qed
  let ?sp = "base + len - 56" let ?w = "poke ?C ?sp w8"
  have sp: "unat ?sp = b" using unat_sub_num [of 56 "base + len"] T b(1) by simp
  have "put (sp_at co) ?sp w8 = Some ?w"
    using put_mapped [of w8 "sp_at co" ?sp] rec8 [of ?C] f2 [of 0] by (simp add: at)
  then have run: "co_create E mmap (Some co) f g n w = Some (co, ?w)"
    using os puts w8(1,2) unfolding co_create_def Let_def len [symmetric]
    by (simp add: w1_def [symmetric] w2_def [symmetric] tp [simplified])
  moreover have "saved (ram (core ?w)) b [0, 0, 0, 0, 0, 0] (entry E)"
  proof -
    have "ram (core ?w) x = launch_mem b (entry E) (ram (core ?w6)) x" if "b \<le> x" "x < b + 56" for x
    proof -
      have "x \<noteq> ?C" using al(5) that b by linarith
      then show ?thesis by (simp add: w8(3))
    qed
    then show ?thesis using launch_mem_saved saved_cong [of b "ram (core ?w)"] by blast
  qed
  moreover have "ram (core ?w) x = ram (core w) x" if "x < ?B \<or> ?B + ?L \<le> x" "x < ?C \<or> ?C + 64 \<le> x" for x
  proof -
    have "x < b \<or> b + 56 \<le> x" "x \<noteq> ?C" using that b by linarith+
    then have "ram (core ?w) x = ram (core w2) x" using out6 [OF that(2)] by (simp add: w8(3) launch_mem_other)
    also have "\<dots> = ram (core w) x" using that L(1) p(1) by (auto simp: w2)
    finally show ?thesis .
  qed
  moreover have "ram (core ?w) x \<noteq> None" if "?B + ?P \<le> x" "x < ?B + ?L" "8 dvd x" for x
    using launch_mem_dom [of "ram (core ?w6)" x b "entry E", OF st6 [OF that]] by (auto simp: w8(3))
  moreover have "ram (core ?w) (?C + i) = ram (core ?w6) (?C + i)" if "0 < i" "i < 64" for i
    using rec8 [of "?C + i"] that by simp
  ultimately show ?thesis
    using w8(4-6) sp b(1) f2 [of 8] f2 [of 48] f2 [of 56]
    by (intro exI [of _ ?w]) (simp add: w2_def w1_def map_words_ram)
qed

section \<open>Adding and removing a coroutine\<close>

lemma word_nat: "word_of_nat (unat x) = x"
  by simp

text \<open>With one more coroutine, or one fewer, the others are what they were.\<close>

lemma stack_of_add: "c \<noteq> co \<Longrightarrow> stack_of (a\<lparr>coros := (coros a)(co := r)\<rparr>) c = stack_of a c"
  by (simp add: stack_of_def)

lemma add_apart:
  assumes "shaped a" "fresh_region a I" "coros a d = Some q"
  shows "apart_from I (guard q, high q)" "apart_from I (unat d, unat d + 64)"
  using assms by (simp_all add: fresh_region_def)

lemma apart_from_sym: "apart_from I J = apart_from J I"
  by (auto simp: apart_from_def)

lemma shaped_add:
  assumes sh: "shaped a" and ok: "create_ok E a len base co" and r: "guard r = unat base" "guard r \<le> low r" "low r \<le> high r"
    "high r = unat base + unat len"
  shows "shaped (a\<lparr>coros := (coros a)(co \<mapsto> r)\<rparr>)"
proof -
  have f: "fresh_region a (guard r, high r)" "fresh_region a (unat co, unat co + 64)"
    "apart_from (guard r, high r) (unat co, unat co + 64)" "co \<noteq> 0"
    using ok r by (simp_all add: create_ok_def)
  have shape: "co_shape co r" using f r by (simp add: co_shape_def fresh_region_def)
  have old: "apart_from (guard r, high r) (guard q, high q) \<and> apart_from (guard r, high r) (unat d, unat d + 64) \<and>
      apart_from (guard q, high q) (unat co, unat co + 64) \<and> apart_from (unat co, unat co + 64) (unat d, unat d + 64)"
    if "coros a d = Some q" for d q
    using add_apart [OF sh f(1) that] add_apart [OF sh f(2) that] apart_from_sym by blast
  have home: "apart_from (home a) (guard r, high r)" "apart_from (home a) (unat co, unat co + 64)"
    using f(1,2) by (auto simp: fresh_region_def apart_from_def)
  show ?thesis
    unfolding shaped_def
  proof (intro conjI allI impI)
    let ?a = "a\<lparr>coros := (coros a)(co \<mapsto> r)\<rparr>"
    show "fst (home ?a) \<le> snd (home ?a)" "snd (home ?a) < 2 ^ 64" using sh by (simp_all add: shaped_def)
    fix d q assume d: "coros ?a d = Some q"
    have "co_shape d q \<and> apart_from (home a) (guard q, high q) \<and> apart_from (home a) (unat d, unat d + 64)"
    proof (cases "d = co")
      case True
      then show ?thesis using d shape home by simp
    next
      case False
      then show ?thesis using d sh unfolding shaped_def by simp
    qed
    then show "co_shape d q" "apart_from (home ?a) (guard q, high q)" "apart_from (home ?a) (unat d, unat d + 64)" by simp_all
    fix e p assume e: "coros ?a e = Some p" "d \<noteq> e"
    have "apart_from (guard q, high q) (guard p, high p) \<and> apart_from (guard q, high q) (unat e, unat e + 64) \<and>
      apart_from (unat d, unat d + 64) (unat e, unat e + 64)"
    proof -
      consider "d = co" "e \<noteq> co" | "d \<noteq> co" "e = co" | "d \<noteq> co" "e \<noteq> co" using e(2) by blast
      then show ?thesis
      proof cases
        case 1
        then show ?thesis using old [of e p] d e by simp
      next
        case 2
        then show ?thesis using old [of d q] d e by auto
      next
        case 3
        then have "coros a d = Some q" "coros a e = Some p" using d e by simp_all
        then show ?thesis using sh e(2) unfolding shaped_def by blast
      qed
    qed
    then show "apart_from (guard q, high q) (guard p, high p)" "apart_from (guard q, high q) (unat e, unat e + 64)"
      "apart_from (unat d, unat d + 64) (unat e, unat e + 64)" by blast+
  qed
qed

lemma shaped_remove: "shaped a \<Longrightarrow> shaped (a\<lparr>coros := (coros a)(co := None)\<rparr>)"
  unfolding shaped_def by (simp split: if_splits)

text \<open>
  The relation is kept by a change of memory outside of the stacks and records of the other coroutines,
  when a coroutine that is not active is added or removed.
\<close>

lemma sim_others:
  assumes sim: "sim E a w" and sh: "shaped (a\<lparr>coros := (coros a)(co := x)\<rparr>)"
    and w': "conts w' = conts w" "g_current w' = g_current w" "self w' = self w"
    and kept: "\<And>c. c \<noteq> co \<Longrightarrow> stack_kept a c w w'" "\<And>c q. c \<noteq> co \<Longrightarrow> coros a c = Some q \<Longrightarrow> record_kept c w w'"
    and co: "co \<noteq> 0" "co \<notin> set (actives a)"
    and x: "\<And>r. x = Some r \<Longrightarrow> record_ok w' co r \<and>
      (\<forall>y. low r \<le> y \<longrightarrow> y < high r \<longrightarrow> 8 dvd y \<longrightarrow> ram (core w') y \<noteq> None) \<and>
      (\<exists>k. state r = Suspended k \<and> parked E (a\<lparr>coros := (coros a)(co := x)\<rparr>) w' co k)"
  shows "sim E (a\<lparr>coros := (coros a)(co := x)\<rparr>) w'"
proof -
  let ?a = "a\<lparr>coros := (coros a)(co := x)\<rparr>"
  have st: "stack_of ?a c = stack_of a c" if "c \<noteq> co" for c using that by (rule stack_of_add)
  have act: "actives ?a = actives a" by (simp add: actives_def)
  show ?thesis
    unfolding sim_def act
  proof (intro conjI allI impI ballI)
    show "shaped ?a" by (rule sh)
    show "g_current w' = me ?a" "self w' = me ?a" using simD(2,3) [OF sim] w' by simp_all
    show "stacks_mapped ?a w'"
      unfolding stacks_mapped_def
    proof (intro allI impI)
      fix c lo hi y assume c: "stack_of ?a c = Some (lo, hi)" "lo \<le> y" "y < hi" "8 dvd y"
      show "ram (core w') y \<noteq> None"
      proof (cases "c = co")
        case True
        then obtain r where "x = Some r" "lo = low r" "hi = high r" using c(1) co(1) by (auto simp: stack_of_def)
        then show ?thesis using x c(2-4) by blast
      next
        case False
        then have "ram (core w') y = ram (core w) y" "stack_of a c = Some (lo, hi)"
          using kept(1) [OF False] c st unfolding stack_kept_def by auto
        then show ?thesis using simD(4) [OF sim] c(2-4) unfolding stacks_mapped_def by metis
      qed
    qed
    show "record_ok w' d r" if d: "coros ?a d = Some r" for d r
    proof (cases "d = co")
      case True
      then show ?thesis using d x by simp
    next
      case False
      then have q: "coros a d = Some r" using d by simp
      from record_ok_kept [OF simD(7) [OF sim q] kept(2) [OF False q] shaped_co [OF simD(1) [OF sim] q]] show ?thesis .
    qed
    show "parked E ?a w' d k" if d: "coros ?a d = Some r" "state r = Suspended k" for d r k
    proof (cases "d = co")
      case True
      then show ?thesis using d x [of r] by auto
    next
      case False
      then have q: "coros a d = Some r" using d by simp
      from parked_kept [OF simD(8) [OF sim q d(2)] kept(1) [OF False] kept(2) [OF False q] st [OF False]] show ?thesis .
    qed
    show "distinct (actives a)" by (rule simD(5) [OF sim])
    show "\<exists>r. coros ?a d = Some r \<and> state r = Active" if "d \<in> set (actives a)" "d \<noteq> 0" for d
      using simD(9) [OF sim that] that(1) co(2) by auto
    have "\<forall>d\<in>set (map fst (waiting a)). stack_kept a d w w' \<and> stack_of ?a d = stack_of a d"
    proof
      fix d assume "d \<in> set (map fst (waiting a))"
      then have "d \<noteq> co" using co(2) by (auto simp: actives_def)
      then show "stack_kept a d w w' \<and> stack_of ?a d = stack_of a d" using kept(1) st by simp
    qed
    moreover have "\<forall>d\<in>set (me a # map fst (waiting a)). d \<noteq> 0 \<longrightarrow> record_kept d w w'"
    proof (intro ballI impI)
      fix d assume d: "d \<in> set (me a # map fst (waiting a))" "d \<noteq> 0"
      then obtain q where "coros a d = Some q" using simD(9) [OF sim, of d] by (auto simp: actives_def)
      moreover have "d \<noteq> co" using d(1) co(2) by (auto simp: actives_def)
      ultimately show "record_kept d w w'" using kept(2) by blast
    qed
    ultimately have "chain E ?a w' (me a) (waiting a)" using chain_kept [OF simD(6) [OF sim]] by blast
    then show "chain E ?a w' (me ?a) (waiting ?a)" by simp
  qed
qed

end
