(* ===== verification/Coroutine_Main.thy ===== *)
theory Coroutine_Main
  imports Coroutine_Create
begin

text \<open>The remaining steps, and the theorems about whole runs of a program with coroutines.\<close>

section \<open>Creating, destroying, storing\<close>

lemma sim_kept:
  assumes sim: "sim E a w" and w': "g_current w' = g_current w" "self w' = self w"
    and kept: "\<And>c. c \<noteq> me a \<Longrightarrow> stack_kept a c w w'" "\<And>c q. coros a c = Some q \<Longrightarrow> record_kept c w w'"
    and mp: "stacks_mapped a w'"
  shows "sim E a w'"
  unfolding sim_def
proof (intro conjI allI impI ballI)
  show "shaped a" "g_current w' = me a" "self w' = me a" "stacks_mapped a w'" "distinct (actives a)"
    using simD [OF sim] w' mp by simp_all
  show "record_ok w' d r" if "coros a d = Some r" for d r
    using record_ok_kept [OF simD(7) [OF sim that] kept(2) [OF that] shaped_co [OF simD(1) [OF sim] that]] .
  show "parked E a w' d k" if d: "coros a d = Some r" "state r = Suspended k" for d r k
  proof -
    have "d \<noteq> me a"
    proof
      assume "d = me a"
      then obtain q where "coros a d = Some q" "state q = Active"
        using simD(9) [OF sim, of d] shaped_co [OF simD(1) [OF sim] d(1)] by (auto simp: actives_def co_shape_def)
      then show False using d by simp
    qed
    from parked_kept [OF simD(8) [OF sim d] kept(1) [OF this] kept(2) [OF d(1)] refl] show ?thesis .
  qed
  show "\<exists>r. coros a d = Some r \<and> state r = Active" if "d \<in> set (actives a)" "d \<noteq> 0" for d
    using simD(9) [OF sim that] .
  have "\<forall>d\<in>set (map fst (waiting a)). stack_kept a d w w' \<and> stack_of a d = stack_of a d"
  proof
    fix d assume "d \<in> set (map fst (waiting a))"
    then have "d \<noteq> me a" using simD(5) [OF sim] unfolding actives_def by (metis distinct.simps(2))
    then show "stack_kept a d w w' \<and> stack_of a d = stack_of a d" using kept(1) by simp
  qed
  moreover have "\<forall>d\<in>set (me a # map fst (waiting a)). d \<noteq> 0 \<longrightarrow> record_kept d w w'"
    using simD(9) [OF sim] kept(2) unfolding actives_def by blast
  ultimately show "chain E a w' (me a) (waiting a)" using chain_kept [OF simD(6) [OF sim]] by blast
qed

text \<open>Memory that a fresh region takes is nobody's.\<close>

lemma fresh_stack:
  assumes sh: "shaped a" and f: "fresh_region a I" and c: "stack_of a c = Some (lo, hi)"
  shows "snd I \<le> lo \<or> hi \<le> fst I"
proof (cases "c = 0")
  case True
  then show ?thesis using f c by (cases I) (auto simp: fresh_region_def stack_of_def)
next
  case False
  then obtain r where r: "coros a c = Some r" "lo = low r" "hi = high r" using c by (auto simp: stack_of_def)
  then show ?thesis using add_apart(1) [OF sh f r(1)] shaped_co [OF sh r(1)] by (cases I) (auto simp: co_shape_def)
qed

lemma region_kept:
  assumes sh: "shaped a" and f: "\<And>I. I \<in> R \<Longrightarrow> fresh_region a I"
    and ram: "\<And>x. (\<And>I. I \<in> R \<Longrightarrow> x < fst I \<or> snd I \<le> x) \<Longrightarrow> ram (core w') x = ram (core w) x" and "conts w' = conts w"
  shows "stack_kept a c w w'" "coros a c = Some q \<Longrightarrow> record_kept c w w'"
proof -
  have "ram (core w') x = ram (core w) x" if "stack_of a c = Some (lo, hi)" "lo \<le> x" "x < hi" for lo hi x
  proof (rule ram)
    fix I assume "I \<in> R"
    then show "x < fst I \<or> snd I \<le> x" using fresh_stack [OF sh f that(1)] that(2,3) by fastforce
  qed
  then show "stack_kept a c w w'" using assms(4) by (auto simp: stack_kept_def)
  show "record_kept c w w'" if q: "coros a c = Some q"
    unfolding record_kept_def
  proof (intro allI impI)
    fix x assume x: "unat c \<le> x" "x < unat c + 64"
    show "ram (core w') x = ram (core w) x"
    proof (rule ram)
      fix I assume "I \<in> R"
      from add_apart(2) [OF sh f [OF this] q] show "x < fst I \<or> snd I \<le> x"
        using x by (cases I) auto
    qed
  qed
qed

lemma kept_mapped: "(\<And>c. stack_kept a c w w') \<Longrightarrow> stacks_mapped a w \<Longrightarrow> stacks_mapped a w'"
  unfolding stack_kept_def stacks_mapped_def by metis

lemma create_sim:
  assumes E: "env_ok E" and sim: "sim E a w" and st: "spec_create E mmap calloc f g n a = Some (c, a')"
  shows "\<exists>w'. co_create E mmap calloc f g n w = Some (c, w') \<and> sim E a' w' \<and> (\<forall>d. stack_kept a d w w')"
proof -
  define len where "len = stack_bytes (page E) n + page E"
  note sh = simD(1) [OF sim]
  consider (refused) "mmap len = None" "c = 0" "a' = a"
    | (freed) base where "mmap len = Some base" "calloc = None" "c = 0" "a' = a" "unat n \<le> 2 ^ 62" "fresh_region a (unat base, unat base + unat len)"
    | (made) base where "mmap len = Some base" "calloc = Some c" "unat n \<le> 2 ^ 62" "create_ok E a len base c"
        "a' = a\<lparr>coros := (coros a)(c \<mapsto> \<lparr>state = Suspended (\<lambda>_. bodies E f g), guard = unat base,
               low = unat base + unat (page E), high = unat base + unat len\<rparr>)\<rparr>"
    using st by (auto simp: spec_create_def Let_def len_def [symmetric] split: option.splits if_splits)
  then show ?thesis
  proof cases
    case refused
    then show ?thesis using sim by (simp add: co_create_def Let_def len_def stack_kept_def)
  next
    case (freed base)
    let ?w = "unmap_words base (unat len) (unmap_words base (unat (page E)) (map_words base (unat len) w))"
    let ?R = "{(unat base, unat base + unat len)}"
    have "unat (page E) \<le> unat len" using stack_bytes_ok(4) [OF E freed(5)] by (simp add: len_def)
    then have ram: "ram (core ?w) x = ram (core w) x" if "\<And>I. I \<in> ?R \<Longrightarrow> x < fst I \<or> snd I \<le> x" for x
      using that by (auto simp: map_words_ram)
    have "conts ?w = conts w" by (simp add: map_words_ram)
    note kept = region_kept [OF sh _ ram this, of ?R]
    have fr: "fresh_region a I" if "I \<in> ?R" for I using that freed(6) by simp
    have sk: "stack_kept a d w ?w" for d by (rule kept(1)) (use fr in auto)
    have rk: "record_kept d w ?w" if "coros a d = Some q" for d q by (rule kept(2) [OF _ _ that]) (use fr in auto)
    have "sim E a ?w"
      by (rule sim_kept [OF sim _ _ sk rk kept_mapped [OF sk simD(4) [OF sim]]]) (simp_all add: map_words_ram)
    then show ?thesis using freed sk by (simp add: co_create_def Let_def len_def)
  next
    case (made base)
    let ?r = "\<lparr>state = Suspended (\<lambda>_. bodies E f g), guard = unat base,
               low = unat base + unat (page E), high = unat base + unat len\<rparr>"
    let ?R = "{(unat base, unat base + unat len), (unat c, unat c + 64)}"
    obtain w' sp where w': "co_create E mmap (Some c) f g n w = Some (c, w')" "conts w' = conts w"
      "g_current w' = g_current w" "self w' = self w"
      and ram: "\<And>x. x < unat base \<or> unat base + unat len \<le> x \<Longrightarrow> x < unat c \<or> unat c + 64 \<le> x \<Longrightarrow> ram (core w') x = ram (core w) x"
      and mp: "\<And>x. unat base + unat (page E) \<le> x \<Longrightarrow> x < unat base + unat len \<Longrightarrow> 8 dvd x \<Longrightarrow> ram (core w') x \<noteq> None"
      and sp: "ram (core w') (unat c) = Some sp" "unat sp + 56 = unat base + unat len"
        "saved (ram (core w')) (unat sp) [0, 0, 0, 0, 0, 0] (entry E)"
      and fields: "ram (core w') (unat c + 8) = Some 0" "ram (core w') (unat c + 16) = Some base"
        "ram (core w') (unat c + 24) = Some len" "ram (core w') (unat c + 32) = Some f"
        "ram (core w') (unat c + 40) = Some g" "ram (core w') (unat c + 48) = Some 0" "ram (core w') (unat c + 56) = Some 0"
      using create_ram [where mmap = mmap and f = f and g = g and w = w, OF E made(3) len_def made(1,4)] by blast
    have fr: "fresh_region a I" if "I \<in> ?R" for I using that made(4) by (auto simp: create_ok_def)
    have ram': "ram (core w') x = ram (core w) x" if "\<And>I. I \<in> ?R \<Longrightarrow> x < fst I \<or> snd I \<le> x" for x
      using ram [of x] that [of "(unat base, unat base + unat len)"] that [of "(unat c, unat c + 64)"] by simp
    note kept = region_kept [OF sh _ ram' w'(2), of ?R]
    have sk: "stack_kept a d w w'" for d by (rule kept(1)) (use fr in auto)
    have rk: "record_kept d w w'" if "coros a d = Some q" for d q by (rule kept(2) [OF _ _ that]) (use fr in auto)
    have page: "unat (page E) \<le> unat (stack_bytes (page E) n)" "4096 \<le> unat (page E)"
      "unat len = unat (stack_bytes (page E) n) + unat (page E)"
      using stack_bytes_ok [OF E made(3)] pageD [OF E] by (simp_all add: len_def)
    have sh': "shaped (a\<lparr>coros := (coros a)(c := Some ?r)\<rparr>)"
      by (rule shaped_add [OF sh made(4)]) (use page in simp_all)
    have c: "c \<noteq> 0" "coros a c = None" and shape: "co_shape c ?r"
    proof -
      show "c \<noteq> 0" using made(4) by (simp add: create_ok_def)
      show "coros a c = None"
      proof (rule ccontr)
        assume "coros a c \<noteq> None"
        then obtain q where q: "coros a c = Some q" by blast
        have "fresh_region a (unat c, unat c + 64)" using made(4) by (simp add: create_ok_def)
        from add_apart(2) [OF sh this q] show False by simp
      qed
      show "co_shape c ?r" using shaped_co [OF sh', of c ?r] by simp
    qed
    have rec: "record_ok w' c ?r"
      unfolding record_ok_def
    proof (intro conjI allI impI)
      show "ram (core w') (unat c + 8 * i) \<noteq> None" if "i < 8" for i
      proof -
        have "i \<in> {0, 1, 2, 3, 4, 5, 6, 7}" using that by auto
        then show ?thesis using sp(1) fields by auto
      qed
    qed (use fields field_at [OF shape] in \<open>simp_all add: get_done_def get_ram\<close>)
    have "parked E (a\<lparr>coros := (coros a)(c := Some ?r)\<rparr>) w' c (\<lambda>_. bodies E f g)"
      using sp fields(4,5) c(1) page unfolding parked_def launch_def by (auto simp: stack_of_def)
    then have "sim E (a\<lparr>coros := (coros a)(c := Some ?r)\<rparr>) w'"
      using simD(9) [OF sim, of c] c rec mp sp(1)
      by (intro sim_others [OF sim sh' w'(2-4) sk rk c(1)]) auto
    then show ?thesis using w'(1) made(2,5) sk by simp
  qed
qed

lemma destroy_sim:
  assumes sim: "sim E a w" and r: "coros a co = Some r" "state r \<noteq> Active"
  shows "\<exists>w'. co_destroy co w = Some w' \<and> sim E (a\<lparr>coros := (coros a)(co := None)\<rparr>) w' \<and>
    co \<noteq> 0 \<and> (\<forall>c. c \<noteq> co \<longrightarrow> stack_kept a c w w')"
proof -
  note sh = simD(1) [OF sim]
  note shape = shaped_co [OF sh r(1)]
  note at = field_at [OF shape]
  let ?G = "guard r" and ?n = "high r - guard r"
  have b: "?G \<le> high r" "high r < 2 ^ 64" "co \<noteq> 0" using shape by (simp_all add: co_shape_def)
  have un: "unat (word_of_nat ?G :: u64) = ?G" "unat (word_of_nat ?n :: u64) = ?n"
    by (rule unat_word_of_nat, use b in linarith)+
  define w' where "w' = unmap_words co sizeof_coroutine (unmap_words (word_of_nat ?G) ?n w)"
  have run: "co_destroy co w = Some w'"
    using simD(7) [OF sim r(1)] b(3) un(2) by (simp add: co_destroy_def record_ok_def get_ram at w'_def)
  have ram: "ram (core w') x = ram (core w) x" if "x < ?G \<or> high r \<le> x" "x < unat co \<or> unat co + 64 \<le> x" for x
    using that b(1) by (auto simp: w'_def map_words_ram un sizeof_coroutine_def)
  have w': "conts w' = conts w" "g_current w' = g_current w" "self w' = self w" by (simp_all add: w'_def map_words_ram)
  have sk: "stack_kept a c w w'" if c: "c \<noteq> co" for c
  proof -
    have "ram (core w') x = ram (core w) x" if st: "stack_of a c = Some (lo, hi)" "lo \<le> x" "x < hi" for lo hi x
    proof (rule ram)
      have "high r \<le> lo \<or> hi \<le> ?G"
      proof (cases "c = 0")
        case True
        then have "apart_from (home a) (?G, high r)" "home a = (lo, hi)" using sh r(1) st(1) by (auto simp: shaped_def stack_of_def)
        then show ?thesis by auto
      next
        case False
        then obtain q where q: "coros a c = Some q" "lo = low q" "hi = high q" using st(1) by (auto simp: stack_of_def)
        then have "apart_from (guard q, high q) (?G, high r)" using sh r(1) c unfolding shaped_def by blast
        then show ?thesis using q shaped_co [OF sh q(1)] by (auto simp: co_shape_def)
      qed
      then show "x < ?G \<or> high r \<le> x" using st(2,3) by linarith
      show "x < unat co \<or> unat co + 64 \<le> x" using stack_record_apart [OF sh st(1) r(1)] st(2,3) by linarith
    qed
    then show ?thesis using w'(1) by (simp add: stack_kept_def)
  qed
  have rk: "record_kept c w w'" if c: "c \<noteq> co" "coros a c = Some q" for c q
  proof -
    have "apart_from (?G, high r) (unat c, unat c + 64)" using sh r(1) c unfolding shaped_def by blast
    then have g: "high r \<le> unat c \<or> unat c + 64 \<le> ?G" by simp
    show ?thesis
      unfolding record_kept_def
      using g records_apart [OF sh c(2) r(1) c(1)] by (intro allI impI ram) linarith+
  qed
  have act: "co \<notin> set (actives a)" using simD(9) [OF sim, of co] r b(3) by auto
  have "sim E (a\<lparr>coros := (coros a)(co := None)\<rparr>) w'"
    by (rule sim_others [OF sim shaped_remove [OF sh] w' sk rk b(3) act]) simp_all
  then show ?thesis using run sk b(3) by blast
qed

lemma write_sim:
  assumes sim: "sim E a w" and x: "stack_of a (me a) = Some (lo, hi)" "lo \<le> unat x" "unat x < hi" "8 dvd unat x"
  shows "\<exists>w'. put x v w = Some w' \<and> sim E a w' \<and> (\<forall>c. c \<noteq> me a \<longrightarrow> stack_kept a c w w')"
proof -
  note sh = simD(1) [OF sim]
  have "ram (core w) (unat x) \<noteq> None" using simD(4) [OF sim] x unfolding stacks_mapped_def by blast
  then have put: "put x v w = Some (poke (unat x) v w)" by (rule put_mapped)
  have sk: "stack_kept a c w (poke (unat x) v w)" if c: "c \<noteq> me a" for c
    using stacks_apart [OF sh x(1) _ c [symmetric]] x(2,3) by (fastforce simp: stack_kept_def)
  have "record_kept c w (poke (unat x) v w)" if "coros a c = Some q" for c q
    using stack_record_apart [OF sh x(1) that] x(2,3) by (auto simp: record_kept_def)
  moreover have "stacks_mapped a (poke (unat x) v w)"
    using simD(4) [OF sim] unfolding stacks_mapped_def by simp
  ultimately have "sim E a (poke (unat x) v w)" using sk by (intro sim_kept [OF sim]) simp_all
  then show ?thesis using put sk by blast
qed

section \<open>Runs\<close>

lemma step_sim:
  assumes E: "env_ok E" and sim: "sim E a w" and st: "spec_step E (a, p) = Some (a', p')"
  shows "\<exists>w'. co_step E (w, p) = Some (w', p') \<and> sim E a' w' \<and>
    (\<forall>c. c \<noteq> me a \<longrightarrow> stack_of a' c \<noteq> None \<longrightarrow> stack_kept a c w w')"
proof -
  have same: "stack_kept a c w w" for c by (simp add: stack_kept_def)
  show ?thesis
  proof (cases p)
    case (Return s)
    then have "site_ok E a s" "hand_back Finished 0 a = Some (a', p')" using st by (auto simp: spec_step_def split: if_splits)
    from return_sim [OF sim this] show ?thesis using Return by (auto simp: co_step_def)
  next
    case (Yield v s k)
    then have "site_ok E a s" "hand_back (Suspended k) v a = Some (a', p')" using st by (auto simp: spec_step_def split: if_splits)
    from yield_sim [OF sim this] show ?thesis using Yield by (auto simp: co_step_def)
  next
    case (Resume co v s k)
    then obtain r where r: "coros a co = Some r" using st by (auto simp: spec_step_def split: option.splits)
    show ?thesis
    proof (cases "state r")
      case (Suspended c)
      then have "site_ok E a s" "a' = (set_state co Active a)\<lparr>me := co, waiting := (me a, k) # waiting a\<rparr>" "p' = c v"
        using st Resume r by (auto simp: spec_step_def split: if_splits)
      then show ?thesis using resume_sim [OF sim _ r Suspended, of s v k] Resume by (auto simp: co_step_def)
    next
      case Active
      then show ?thesis using st Resume r by (simp add: spec_step_def)
    next
      case Finished
      then have "get_done co w = Some 1" using simD(7) [OF sim r] by (simp add: record_ok_def)
      then show ?thesis using st Resume r Finished sim same by (simp add: spec_step_def co_step_def co_resume_def)
    qed
  next
    case (Create f g n mmap calloc k)
    then obtain co where "spec_create E mmap calloc f g n a = Some (co, a')" "p' = k co"
      using st by (auto simp: spec_step_def bind_eq_Some_conv)
    then show ?thesis using create_sim [OF E sim] Create by (fastforce simp: co_step_def)
  next
    case (Done co k)
    then obtain r where r: "coros a co = Some r" "a' = a" "p' = k (case state r of Finished \<Rightarrow> 1 | _ \<Rightarrow> 0)"
      using st by (auto simp: spec_step_def)
    then show ?thesis using simD(7) [OF sim r(1)] Done sim same by (simp add: co_step_def co_done_def record_ok_def)
  next
    case (Destroy co q)
    show ?thesis
    proof (cases "co = 0")
      case True
      then show ?thesis using st Destroy sim same by (simp add: spec_step_def co_step_def co_destroy_def)
    next
      case False
      then obtain r where r: "coros a co = Some r" "state r \<noteq> Active" "a' = a\<lparr>coros := (coros a)(co := None)\<rparr>" "p' = q"
        using st Destroy by (auto simp: spec_step_def split: option.splits co_state.splits)
      then show ?thesis using destroy_sim [OF sim r(1,2)] Destroy by (auto simp: co_step_def stack_of_def)
    qed
  next
    case (Write x v q)
    then obtain lo hi where x: "stack_of a (me a) = Some (lo, hi)" "lo \<le> unat x" "unat x < hi" "8 dvd unat x" "a' = a" "p' = q"
      using st by (auto simp: spec_step_def split: option.splits if_splits)
    obtain w' where "put x v w = Some w'" "sim E a w'" "\<forall>c. c \<noteq> me a \<longrightarrow> stack_kept a c w w'"
      using write_sim [OF sim x(1-4)] by blast
    then show ?thesis using x(5,6) Write by (simp add: co_step_def)
  qed
qed

definition related_runs :: "env \<Rightarrow> spec \<times> prog \<Rightarrow> world \<times> prog \<Rightarrow> bool" where
  "related_runs E s t \<longleftrightarrow> env_ok E \<and> snd t = snd s \<and> sim E (fst s) (fst t)"

interpretation coroutines: forward_simulation "spec_step E" "co_step E" "related_runs E" for E
proof unfold_locales
  fix s s' t assume "related_runs E s t" "spec_step E s = Some s'"
  then show "\<exists>t'. co_step E t = Some t' \<and> related_runs E s' t'"
    using step_sim [of E "fst s" "fst t" "snd s" "fst s'" "snd s'"]
    by (cases s; cases t; cases s') (auto simp: related_runs_def)
qed

lemma run_sim:
  assumes "env_ok E" "sim E a w" "spec_run E n (a, p) = Some (a', p')"
  shows "\<exists>w'. co_run E n (w, p) = Some (w', p') \<and> sim E a' w'"
  using coroutines.steps_related [of E "(a, p)" "(w, p)" n "(a', p')"] assms
  by (auto simp: related_runs_def spec_run_def co_run_def)

definition main_stack :: "nat \<times> nat \<Rightarrow> (nat \<rightharpoonup> u64) \<Rightarrow> bool" where
  "main_stack I m \<longleftrightarrow> fst I \<le> snd I \<and> snd I < 2 ^ 64 \<and> (\<forall>x. fst I \<le> x \<longrightarrow> x < snd I \<longrightarrow> 8 dvd x \<longrightarrow> m x \<noteq> None)"

lemma init_sim: "main_stack I m \<Longrightarrow> sim E (spec_init I) (world_init m)"
  by (auto simp: sim_def main_stack_def shaped_def spec_init_def world_init_def stacks_mapped_def stack_of_def actives_def)

section \<open>Properties\<close>

text \<open>
  An example: the main program resumes a generator twice; it yields one more than its argument, and
  then returns. The last step of the program stands for the use of the three results.
\<close>

definition site_at :: "u64 \<Rightarrow> site" where
  "site_at sp = \<lparr>site_regs = (\<lambda>r. if r = RSP then sp else 7), site_ret = 4096\<rparr>"

definition demo_env :: env where
  "demo_env = \<lparr>page = 4096, entry = 8192, bodies = (\<lambda>f x. Yield (x + 1) (site_at 1114000) (\<lambda>v. Return (site_at 1114000)))\<rparr>"

definition demo_end :: "u64 \<Rightarrow> u64 \<Rightarrow> u64 \<Rightarrow> prog" where
  "demo_end x y d = Create x y d (\<lambda>_. None) None (\<lambda>_. Return (site_at 0))"

definition demo_main :: prog where
  "demo_main = Create 1 41 0 (\<lambda>_. Some 1048576) (Some 524288)
     (\<lambda>co. Resume co 5 (site_at 131072) (\<lambda>x. Resume co 6 (site_at 131072) (\<lambda>y. Done co (demo_end x y))))"

definition demo_ram :: "nat \<rightharpoonup> u64" where
  "demo_ram a = (if 65536 \<le> a \<and> a < 131072 \<and> 8 dvd a then Some 0 else None)"

lemma demo_ok: "env_ok demo_env" "main_stack (65536, 131072) demo_ram"
proof -
  have "unat (page demo_env) = 2 ^ 12" by (simp add: demo_env_def)
  then show "env_ok demo_env" unfolding env_ok_def by (intro exI [of _ 12]) simp
  show "main_stack (65536, 131072) demo_ram" by (simp add: main_stack_def demo_ram_def)
qed

definition demo_state :: "co_state \<Rightarrow> spec" where
  "demo_state st = \<lparr>me = 0, waiting = [], coros = [524288 \<mapsto>
     \<lparr>state = st, guard = 1048576, low = 1052672, high = 1118208\<rparr>], home = (65536, 131072)\<rparr>"

lemma demo_create:
  "spec_step demo_env (spec_init (65536, 131072), demo_main) =
    Some (demo_state (Suspended (\<lambda>_. bodies demo_env 1 41)),
      Resume 524288 5 (site_at 131072) (\<lambda>x. Resume 524288 6 (site_at 131072) (\<lambda>y. Done 524288 (demo_end x y))))"
proof -
  have sb: "stack_bytes 4096 0 = 65536" by (simp add: stack_bytes_def)
  show ?thesis
    by (simp add: spec_step_def demo_main_def spec_create_def demo_env_def sb Let_def create_ok_def fresh_region_def
        spec_init_def demo_state_def)
qed

lemma demo_resume:
  "spec_step demo_env (demo_state (Suspended c), Resume 524288 v (site_at 131072) k) =
    Some ((demo_state Active)\<lparr>me := 524288, waiting := [(0, k)]\<rparr>, c v)"
  by (simp add: spec_step_def demo_state_def site_ok_def stack_of_def site_at_def demo_env_def set_state_def)

lemma demo_back:
  "spec_step demo_env ((demo_state Active)\<lparr>me := 524288, waiting := [(0, k)]\<rparr>, Yield v (site_at 1114000) j) =
    Some (demo_state (Suspended j), k v)"
  "spec_step demo_env ((demo_state Active)\<lparr>me := 524288, waiting := [(0, k)]\<rparr>, Return (site_at 1114000)) =
    Some (demo_state Finished, k 0)"
  by (simp_all add: spec_step_def demo_state_def site_ok_def stack_of_def site_at_def demo_env_def set_state_def hand_back_def)

lemma demo_done: "spec_step demo_env (demo_state Finished, Done 524288 k) = Some (demo_state Finished, k 1)"
  by (simp add: spec_step_def demo_state_def)

lemma demo_run:
  "spec_run demo_env 6 (spec_init (65536, 131072), demo_main) = Some (demo_state Finished, demo_end 42 0 1)"
proof -
  have six: "6 = Suc (Suc (Suc (Suc (Suc (Suc 0)))))" by simp
  have body: "bodies demo_env f x = Yield (x + 1) (site_at 1114000) (\<lambda>v. Return (site_at 1114000))" for f x
    by (simp add: demo_env_def)
  show ?thesis
    unfolding six by (simp add: spec_run_def demo_create demo_resume demo_back demo_done body)
qed

text \<open>
  C11: The coroutine library implements the abstract machine. Whatever a program does with coroutines
  (it creates, resumes, yields, returns, destroys and stores in its stack, in any order and nesting, as
  long as it keeps to the rules), the code with its fabricated stacks, saved stack pointers and
  register frames is defined at every step, continues with the same program, the right coroutine is
  the current one, and \<open>co_done\<close> tells which ones have returned.
\<close>

theorem coroutines_refine:
  assumes "env_ok E" "main_stack I m" "spec_run E n (spec_init I, p) = Some (a, q)"
  shows "\<exists>w. co_run E n (world_init m, p) = Some (w, q) \<and> g_current w = me a \<and>
    (\<forall>co r. coros a co = Some r \<longrightarrow> co_done co w = Some (case state r of Finished \<Rightarrow> 1 | _ \<Rightarrow> 0))"
proof -
  obtain w where "co_run E n (world_init m, p) = Some (w, q)" "sim E a w"
    using run_sim [OF assms(1) init_sim [OF assms(2)] assms(3)] by blast
  then show ?thesis using simD(2,7) by (auto simp: co_done_def record_ok_def)
qed

theorem coroutines_refine_witness:
  "\<exists>w. co_run demo_env 6 (world_init demo_ram, demo_main) = Some (w, demo_end 42 0 1) \<and> co_done 524288 w = Some 1"
proof -
  obtain w where w: "co_run demo_env 6 (world_init demo_ram, demo_main) = Some (w, demo_end 42 0 1)"
    "\<forall>co r. coros (demo_state Finished) co = Some r \<longrightarrow> co_done co w = Some (case state r of Finished \<Rightarrow> 1 | _ \<Rightarrow> 0)"
    using coroutines_refine [OF demo_ok demo_run] by blast
  then show ?thesis by (simp add: demo_state_def)
qed

text \<open>
  C12: The stack of a context that is not running stays as it is: no step of another context, resume and
  yield included, changes a word of it, until the coroutine is destroyed. So local variables survive.
\<close>

theorem parked_stack_kept:
  assumes "env_ok E" "main_stack I m" "spec_run E n (spec_init I, p) = Some (a, q)"
    and "spec_step E (a, q) = Some (a', q')" "c \<noteq> me a" "stack_of a c = Some (lo, hi)" "stack_of a' c \<noteq> None"
    and "lo \<le> x" "x < hi"
  shows "\<exists>w w'. co_run E n (world_init m, p) = Some (w, q) \<and> co_step E (w, q) = Some (w', q') \<and>
    ram (core w') x = ram (core w) x"
proof -
  obtain w where w: "co_run E n (world_init m, p) = Some (w, q)" "sim E a w"
    using run_sim [OF assms(1) init_sim [OF assms(2)] assms(3)] by blast
  obtain w' where w': "co_step E (w, q) = Some (w', q')" "stack_kept a c w w'"
    using step_sim [OF assms(1) w(2) assms(4)] assms(5,7) by blast
  then have "ram (core w') x = ram (core w) x" using assms(6,8,9) unfolding stack_kept_def by blast
  with w(1) w'(1) show ?thesis by blast
qed

lemma demo_prefix: "spec_run demo_env 2 (spec_init (65536, 131072), demo_main) =
  Some ((demo_state Active)\<lparr>me := 524288, waiting := [(0, \<lambda>x. Resume 524288 6 (site_at 131072) (\<lambda>y. Done 524288 (demo_end x y)))]\<rparr>,
    Yield 42 (site_at 1114000) (\<lambda>v. Return (site_at 1114000)))"
  unfolding numeral_2_eq_2 by (simp add: spec_run_def demo_create demo_resume) (simp add: demo_env_def)

theorem parked_stack_kept_witness:
  "\<exists>w w'. co_run demo_env 2 (world_init demo_ram, demo_main) = Some (w, Yield 42 (site_at 1114000) (\<lambda>v. Return (site_at 1114000))) \<and>
    co_step demo_env (w, Yield 42 (site_at 1114000) (\<lambda>v. Return (site_at 1114000))) =
      Some (w', Resume 524288 6 (site_at 131072) (\<lambda>y. Done 524288 (demo_end 42 y))) \<and>
    ram (core w') 131016 = ram (core w) 131016"
proof -
  have c: "0 \<noteq> me ((demo_state Active)\<lparr>me := 524288, waiting := ws\<rparr>)"
    "stack_of ((demo_state Active)\<lparr>me := 524288, waiting := ws\<rparr>) 0 = Some (65536, 131072)"
    "stack_of (demo_state (Suspended j)) 0 \<noteq> None" for ws j
    by (simp_all add: demo_state_def stack_of_def)
  show ?thesis by (rule parked_stack_kept [OF demo_ok demo_prefix demo_back(1) c]) simp_all
qed

text \<open>
  C13: The first resume of a coroutine enters \<open>co_trampoline\<close> with the six registers zero, as the code
  means it, but with a stack pointer that is a multiple of 16. The ABI has it 8 below such a multiple
  at the entry of a function, so the calls that the trampoline makes are misaligned by 8.
\<close>

theorem trampoline_misaligned:
  assumes E: "env_ok E" and sim: "sim E a w" and n: "unat n \<le> 2 ^ 62" and len: "len = stack_bytes (page E) n + page E"
    and os: "mmap len = Some base" "create_ok E a len base co" and s: "site_ok E a s"
  shows "\<exists>w1 t w2. co_create E mmap (Some co) f g n w = Some (co, w1) \<and> get (sp_at co) w1 = Some t \<and>
    co_switch (caller_sp_at co) t s pt w1 = Some w2 \<and> rip (core w2) = entry E \<and>
    (\<forall>r\<in>set callee_saved. regs (core w2) r = 0) \<and> unat (regs (core w2) RSP) mod 16 = 0"
proof -
  let ?r = "\<lparr>state = Suspended (\<lambda>_. bodies E f g), guard = unat base, low = unat base + unat (page E), high = unat base + unat len\<rparr>"
  let ?a = "a\<lparr>coros := (coros a)(co \<mapsto> ?r)\<rparr>"
  have "spec_create E mmap (Some co) f g n a = Some (co, ?a)"
    using os n by (simp add: spec_create_def Let_def len [symmetric])
  from create_sim [OF E sim this] obtain w1 where w1: "co_create E mmap (Some co) f g n w = Some (co, w1)" "sim E ?a w1" by blast
  obtain t where t: "ram (core w1) (unat co) = Some t" "unat t + 56 = unat base + unat len"
    "saved (ram (core w1)) (unat t) [0, 0, 0, 0, 0, 0] (entry E)"
    using create_ram [where mmap = mmap and f = f and g = g and w = w, OF E n len os] w1(1) by auto
  have co: "coros ?a co = Some ?r" "co \<noteq> 0" using os(2) by (simp_all add: create_ok_def)
  note at = field_at [OF shaped_co [OF simD(1) [OF w1(2)] co(1)]]
  have me: "co \<noteq> me a"
  proof
    assume e: "co = me a"
    then obtain q where "coros a co = Some q" using simD(9) [OF sim, of co] co(2) by (auto simp: actives_def)
    moreover have "fresh_region a (unat co, unat co + 64)" using os(2) by (simp add: create_ok_def)
    ultimately show False using add_apart(2) [OF simD(1) [OF sim]] by fastforce
  qed
  have site: "site_ok E ?a s" using s me by (simp add: site_ok_def stack_of_add)
  have st: "stack_of ?a co = Some (unat base + unat (page E), unat base + unat len)" using co(2) by (simp add: stack_of_def)
  have "unat (page E) \<le> unat (stack_bytes (page E) n)" "unat len = unat (stack_bytes (page E) n) + unat (page E)" "4096 \<le> unat (page E)"
    using stack_bytes_ok(1,4) [OF E n] pageD [OF E] by (simp_all add: len)
  then have low: "unat base + unat (page E) \<le> unat t" "unat t + 56 \<le> unat base + unat len" using t(2) by linarith+
  have rec: "ram (core w1) (unat (caller_sp_at co)) \<noteq> None"
    using record_mapped(2) [OF simD(7) [OF w1(2) co(1)]] by (simp add: at)
  have A: "unat co \<le> unat (caller_sp_at co)" "unat (caller_sp_at co) + 8 \<le> unat co + 64" "co \<noteq> me ?a" using me by (simp_all add: at)
  obtain w2 where w2: "co_switch (caller_sp_at co) t s pt w1 = Some w2" "rip (core w2) = entry E"
    "map (regs (core w2)) callee_saved = [0, 0, 0, 0, 0, 0]" "unat (regs (core w2) RSP) = unat t + 56"
    using switch_sim [OF simD(1,4) [OF w1(2)] site co(1) A(1,2) rec st A(3) low t(3), of pt]
    by (elim exE conjE) (rule that)
  have "16 dvd unat base + unat len"
    by (rule stack_top [OF E n len]) (use os(2) in \<open>simp add: create_ok_def\<close>)
  then have "unat (regs (core w2) RSP) mod 16 = 0" using w2(4) t(2) by simp
  moreover have "\<forall>r\<in>set callee_saved. regs (core w2) r = 0" using w2(3) by (auto simp: callee_saved_def)
  ultimately show ?thesis using w1(1) w2(1,2) t(1) at(1) by (auto simp: get_ram)
qed

theorem trampoline_misaligned_witness:
  "\<exists>w1 t w2. co_create demo_env (\<lambda>_. Some 1048576) (Some 524288) 1 41 0 (world_init demo_ram) = Some (524288, w1) \<and>
    get (sp_at 524288) w1 = Some t \<and> co_switch (caller_sp_at 524288) t (site_at 131072) In_trampoline w1 = Some w2 \<and>
    rip (core w2) = 8192 \<and> (\<forall>r\<in>set callee_saved. regs (core w2) r = 0) \<and> unat (regs (core w2) RSP) mod 16 = 0"
proof -
  have sb: "stack_bytes 4096 0 = 65536" by (simp add: stack_bytes_def)
  have len: "(69632 :: u64) = stack_bytes (page demo_env) 0 + page demo_env" by (simp add: demo_env_def sb)
  have ok: "create_ok demo_env (spec_init (65536, 131072)) 69632 1048576 524288"
    by (simp add: create_ok_def fresh_region_def demo_env_def spec_init_def)
  have s: "site_ok demo_env (spec_init (65536, 131072)) (site_at 131072)"
    by (simp add: site_ok_def stack_of_def spec_init_def site_at_def demo_env_def)
  have e: "entry demo_env = 8192" by (simp add: demo_env_def)
  show ?thesis
    using trampoline_misaligned [OF demo_ok(1) init_sim [OF demo_ok(2)] _ len _ ok s, of "\<lambda>_. Some 1048576" 1 41 In_trampoline]
    by (simp add: e)
qed

end
