(* ===== verification/Json.thy ===== *)
theory Json
  imports Prelude
begin

text \<open>
  \<open>CPP-SimdJSON/include/simdjson.hpp\<close>: the recursive-descent parser with its AVX2 scanners.

  The text is a list of bytes, the pointers \<open>begin_\<close>, \<open>p_\<close> and \<open>end_\<close> are 0, a position and the length.
  Each function takes the position and returns the new one; \<open>ParseError\<close> is the left side of a sum.
  Doubles are the type \<open>'n\<close>: \<open>std::from_chars\<close> is a parameter, a function from the characters of a
  number to the value and the number of characters it has used, or \<^const>\<open>None\<close> for an error code.
\<close>

section \<open>Characters, values, errors\<close>

definition ch :: "char \<Rightarrow> u8" where "ch c = of_char c"

text \<open>The characters of the grammar, and the two that cannot be written plainly.\<close>

definition quote :: u8 where "quote = 34"
definition backslash :: u8 where "backslash = 92"

datatype 'n json =
  Null
| Bool bool
| Number 'n
| String "u8 list"
| Array "'n json list"
| Object "(u8 list \<times> 'n json) list"

datatype parse_error = ParseError string nat

type_synonym 'a parsed = "parse_error + 'a \<times> nat"

definition fail :: "string \<Rightarrow> nat \<Rightarrow> parse_error + 'a" where
  "fail msg p = Inl (ParseError msg p)"

text \<open>The members of \<open>Value\<close>; comparing numbers is the comparison of doubles, a parameter.\<close>

fun json_find :: "'n json \<Rightarrow> u8 list \<Rightarrow> 'n json option" where
  "json_find (Object kvs) key = map_of kvs key"
| "json_find _ key = None"

fun json_size :: "'n json \<Rightarrow> nat" where
  "json_size (Array vs) = length vs"
| "json_size (Object kvs) = length kvs"
| "json_size _ = 0"

fun json_eq :: "('n \<Rightarrow> 'n \<Rightarrow> bool) \<Rightarrow> 'n json \<Rightarrow> 'n json \<Rightarrow> bool" where
  "json_eq eq Null Null \<longleftrightarrow> True"
| "json_eq eq (Bool a) (Bool b) \<longleftrightarrow> a = b"
| "json_eq eq (Number x) (Number y) \<longleftrightarrow> eq x y"
| "json_eq eq (String s) (String t) \<longleftrightarrow> s = t"
| "json_eq eq (Array vs) (Array ws) \<longleftrightarrow> list_all2 (json_eq eq) vs ws"
| "json_eq eq (Object vs) (Object ws) \<longleftrightarrow> list_all2 (\<lambda>(k, v) (l, w). k = l \<and> json_eq eq v w) vs ws"
| "json_eq eq _ _ \<longleftrightarrow> False"

section \<open>Scanning 32 bytes at a time\<close>

text \<open>The intrinsics on a vector of bytes, and the builtin that counts trailing zeros.\<close>

definition cmpeq_epi8 :: "u8 list \<Rightarrow> u8 \<Rightarrow> u8 list" where
  "cmpeq_epi8 chunk c = map (\<lambda>b. if b = c then 0xFF else 0) chunk"

definition or_si256 :: "u8 list \<Rightarrow> u8 list \<Rightarrow> u8 list" where
  "or_si256 = map2 (OR)"

definition movemask_epi8 :: "u8 list \<Rightarrow> u32" where
  "movemask_epi8 v = horner_sum of_bool 2 (map (\<lambda>b. bit b 7) v)"

definition ctz :: "u32 \<Rightarrow> nat" where
  "ctz w = length (takeWhile (\<lambda>i. \<not> bit w i) [0..<32])"

definition is_ws :: "u8 \<Rightarrow> bool" where
  "is_ws c \<longleftrightarrow> c = 32 \<or> c = 9 \<or> c = 10 \<or> c = 13"

text \<open>The AVX2 loops return the position and whether the function returns there.\<close>

function skip_ws_avx2 :: "u8 list \<Rightarrow> nat \<Rightarrow> nat \<times> bool" where
  "skip_ws_avx2 inp p = (if p + 32 \<le> length inp then
     let chunk = take 32 (drop p inp);
         ws = or_si256 (or_si256 (cmpeq_epi8 chunk 32) (cmpeq_epi8 chunk 9))
                (or_si256 (cmpeq_epi8 chunk 10) (cmpeq_epi8 chunk 13));
         nonws = NOT (movemask_epi8 ws)
     in if nonws \<noteq> 0 then (p + ctz nonws, True) else skip_ws_avx2 inp (p + 32)
   else (p, False))"
  by auto
termination by (relation "measure (\<lambda>(inp, p). length inp - p)") auto

function skip_ws_scalar :: "u8 list \<Rightarrow> nat \<Rightarrow> nat" where
  "skip_ws_scalar inp p = (if p < length inp \<and> is_ws (inp ! p) then skip_ws_scalar inp (p + 1) else p)"
  by auto
termination by (relation "measure (\<lambda>(inp, p). length inp - p)") auto

definition skip_ws :: "bool \<Rightarrow> u8 list \<Rightarrow> nat \<Rightarrow> nat" where
  "skip_ws simd inp p = (if simd then
       (case skip_ws_avx2 inp p of (p, returned) \<Rightarrow> if returned then p else skip_ws_scalar inp p)
     else skip_ws_scalar inp p)"

function scan_avx2 :: "u8 list \<Rightarrow> nat \<Rightarrow> nat \<times> bool" where
  "scan_avx2 inp p = (if p + 32 \<le> length inp then
     let chunk = take 32 (drop p inp);
         hit = or_si256 (cmpeq_epi8 chunk quote) (cmpeq_epi8 chunk backslash);
         mask = movemask_epi8 hit
     in if mask \<noteq> 0 then (p + ctz mask, True) else scan_avx2 inp (p + 32)
   else (p, False))"
  by auto
termination by (relation "measure (\<lambda>(inp, p). length inp - p)") auto

function scan_scalar :: "u8 list \<Rightarrow> nat \<Rightarrow> nat" where
  "scan_scalar inp p =
     (if p < length inp \<and> inp ! p \<noteq> quote \<and> inp ! p \<noteq> backslash then scan_scalar inp (p + 1) else p)"
  by auto
termination by (relation "measure (\<lambda>(inp, p). length inp - p)") auto

declare skip_ws_avx2.simps [simp del] skip_ws_scalar.simps [simp del] scan_avx2.simps [simp del] scan_scalar.simps [simp del]

text \<open>The position of the next quote or backslash, and that character, or 0 at the end.\<close>

definition scan_to_string_special :: "bool \<Rightarrow> u8 list \<Rightarrow> nat \<Rightarrow> u8 \<times> nat" where
  "scan_to_string_special simd inp p =
     (let (q, returned) = (if simd then scan_avx2 inp p else (p, False)) in
      if returned then (inp ! q, q)
      else let q = scan_scalar inp q in (if q < length inp then inp ! q else 0, q))"

section \<open>Literals and numbers\<close>

fun parse_literal :: "u8 list \<Rightarrow> 'a \<Rightarrow> u8 list \<Rightarrow> nat \<Rightarrow> 'a parsed" where
  "parse_literal [] v inp p = Inr (v, p)"
| "parse_literal (l # ls) v inp p =
     (if p \<ge> length inp \<or> inp ! p \<noteq> l then fail ''invalid literal'' p else parse_literal ls v inp (p + 1))"

definition is_digit :: "u8 \<Rightarrow> bool" where
  "is_digit c \<longleftrightarrow> 48 \<le> c \<and> c \<le> 57"

definition at :: "u8 list \<Rightarrow> nat \<Rightarrow> (u8 \<Rightarrow> bool) \<Rightarrow> bool" where
  "at inp p P \<longleftrightarrow> p < length inp \<and> P (inp ! p)"

function skip_digits :: "u8 list \<Rightarrow> nat \<Rightarrow> nat" where
  "skip_digits inp p = (if at inp p is_digit then skip_digits inp (p + 1) else p)"
  by auto
termination by (relation "measure (\<lambda>(inp, p). length inp - p)") (auto simp: at_def)

declare skip_digits.simps [simp del]

definition parse_int :: "u8 list \<Rightarrow> nat \<Rightarrow> parse_error + nat" where
  "parse_int inp p =
     (if at inp p (\<lambda>c. c = ch CHR ''0'') then Inr (p + 1)
      else if at inp p (\<lambda>c. ch CHR ''1'' \<le> c \<and> c \<le> ch CHR ''9'') then Inr (skip_digits inp p)
      else fail ''invalid number'' p)"

definition parse_frac :: "u8 list \<Rightarrow> nat \<Rightarrow> parse_error + nat" where
  "parse_frac inp p =
     (if at inp p (\<lambda>c. c = ch CHR ''.'') then
        (if \<not> at inp (p + 1) is_digit then fail ''invalid number (fraction)'' (p + 1)
         else Inr (skip_digits inp (p + 1)))
      else Inr p)"

definition parse_exp :: "u8 list \<Rightarrow> nat \<Rightarrow> parse_error + nat" where
  "parse_exp inp p =
     (if at inp p (\<lambda>c. c = ch CHR ''e'' \<or> c = ch CHR ''E'') then
        (let p = p + 1; p = (if at inp p (\<lambda>c. c = ch CHR ''+'' \<or> c = ch CHR ''-'') then p + 1 else p) in
         if \<not> at inp p is_digit then fail ''invalid number (exponent)'' p
         else Inr (skip_digits inp p))
      else Inr p)"

definition parse_number :: "(u8 list \<Rightarrow> ('n \<times> nat) option) \<Rightarrow> u8 list \<Rightarrow> nat \<Rightarrow> 'n json parsed" where
  "parse_number from_chars inp start =
     (let p = (if at inp start (\<lambda>c. c = ch CHR ''-'') then start + 1 else start) in
      case parse_int inp p of Inl e \<Rightarrow> Inl e | Inr p \<Rightarrow>
      case parse_frac inp p of Inl e \<Rightarrow> Inl e | Inr p \<Rightarrow>
      case parse_exp inp p of Inl e \<Rightarrow> Inl e | Inr p \<Rightarrow>
      case from_chars (take (p - start) (drop start inp)) of
        None \<Rightarrow> fail ''number out of range'' p
      | Some (x, n) \<Rightarrow> if start + n \<noteq> p then fail ''number out of range'' p else Inr (Number x, p))"

section \<open>Strings\<close>

definition hex_digit :: "u8 \<Rightarrow> u32 option" where
  "hex_digit c =
     (if ch CHR ''0'' \<le> c \<and> c \<le> ch CHR ''9'' then Some (ucast (c - ch CHR ''0''))
      else if ch CHR ''a'' \<le> c \<and> c \<le> ch CHR ''f'' then Some (ucast (c - ch CHR ''a'' + 10))
      else if ch CHR ''A'' \<le> c \<and> c \<le> ch CHR ''F'' then Some (ucast (c - ch CHR ''A'' + 10))
      else None)"

fun hex_loop :: "nat \<Rightarrow> u8 list \<Rightarrow> u32 \<Rightarrow> nat \<Rightarrow> u32 parsed" where
  "hex_loop 0 inp cp p = Inr (cp, p)"
| "hex_loop (Suc n) inp cp p =
     (let c = inp ! p; p = p + 1; cp = push_bit 4 cp in
      case hex_digit c of
        None \<Rightarrow> fail ''invalid hex digit'' p
      | Some d \<Rightarrow> hex_loop n inp (cp OR d) p)"

definition read_hex4 :: "u8 list \<Rightarrow> nat \<Rightarrow> u32 parsed" where
  "read_hex4 inp p =
     (if length inp - p < 4 then fail (''truncated '' @ [CHR 0x5C] @ ''u escape'') p else hex_loop 4 inp 0 p)"

definition encode_utf8 :: "u32 \<Rightarrow> u8 list" where
  "encode_utf8 cp =
     (if cp \<le> 0x7F then [ucast cp]
      else if cp \<le> 0x7FF then
        [ucast (0xC0 OR drop_bit 6 cp), ucast (0x80 OR (cp AND 0x3F))]
      else if cp \<le> 0xFFFF then
        [ucast (0xE0 OR drop_bit 12 cp), ucast (0x80 OR (drop_bit 6 cp AND 0x3F)), ucast (0x80 OR (cp AND 0x3F))]
      else
        [ucast (0xF0 OR drop_bit 18 cp), ucast (0x80 OR (drop_bit 12 cp AND 0x3F)),
         ucast (0x80 OR (drop_bit 6 cp AND 0x3F)), ucast (0x80 OR (cp AND 0x3F))])"

definition append_unicode :: "u8 list \<Rightarrow> nat \<Rightarrow> u8 list \<Rightarrow> u8 list parsed" where
  "append_unicode inp p out =
     (case read_hex4 inp p of Inl e \<Rightarrow> Inl e | Inr (cp, p) \<Rightarrow>
      if 0xD800 \<le> cp \<and> cp \<le> 0xDBFF then
        (if 2 \<le> length inp - p \<and> inp ! p = backslash \<and> inp ! (p + 1) = ch CHR ''u'' then
           (case read_hex4 inp (p + 2) of Inl e \<Rightarrow> Inl e | Inr (lo, p) \<Rightarrow>
            if 0xDC00 \<le> lo \<and> lo \<le> 0xDFFF then
              Inr (out @ encode_utf8 (0x10000 + push_bit 10 (cp - 0xD800) + (lo - 0xDC00)), p)
            else fail ''invalid low surrogate'' p)
         else fail ''missing low surrogate'' p)
      else Inr (out @ encode_utf8 cp, p))"

definition simple_escape :: "u8 \<Rightarrow> u8 option" where
  "simple_escape e =
     (if e = quote then Some quote
      else if e = backslash then Some backslash
      else if e = ch CHR ''/'' then Some (ch CHR ''/'')
      else if e = ch CHR ''b'' then Some 8
      else if e = ch CHR ''f'' then Some 12
      else if e = ch CHR ''n'' then Some 10
      else if e = ch CHR ''r'' then Some 13
      else if e = ch CHR ''t'' then Some 9
      else None)"

lemma scan_scalar_ge: "p \<le> scan_scalar inp p"
proof (induction inp p rule: scan_scalar.induct)
  case (1 inp p)
  then show ?case using le_trans [of p "p + 1" "scan_scalar inp (p + 1)"] by (subst scan_scalar.simps) auto
qed

lemma scan_avx2_ge: "p \<le> fst (scan_avx2 inp p)"
proof (induction inp p rule: scan_avx2.induct)
  case (1 inp p)
  show ?case by (subst scan_avx2.simps) (use 1 in \<open>fastforce simp: Let_def\<close>)
qed

lemma scan_ge: "p \<le> snd (scan_to_string_special simd inp p)"
proof -
  obtain q r where q: "scan_avx2 inp p = (q, r)" by fastforce
  then have "p \<le> q" using scan_avx2_ge [of p inp] by simp
  then show ?thesis using scan_scalar_ge [of q inp] scan_scalar_ge [of p inp] q
    by (auto simp: scan_to_string_special_def Let_def)
qed

lemma hex_loop_pos: "hex_loop n inp cp p = Inr (d, q) \<Longrightarrow> q = p + n"
  by (induction n inp cp p rule: hex_loop.induct) (auto simp: Let_def fail_def split: option.splits)

lemma read_hex4_pos: "read_hex4 inp p = Inr (d, q) \<Longrightarrow> q = p + 4 \<and> q \<le> length inp"
  by (auto simp: read_hex4_def fail_def split: if_splits dest: hex_loop_pos)

lemma append_unicode_pos:
  assumes "append_unicode inp p out = Inr (out', q)"
  shows "p < q \<and> q \<le> length inp"
proof -
  obtain cp r where r: "read_hex4 inp p = Inr (cp, r)" using assms by (auto simp: append_unicode_def split: sum.splits)
  note rp = read_hex4_pos [OF r]
  show ?thesis
  proof (cases "0xD800 \<le> cp \<and> cp \<le> 0xDBFF")
    case True
    then obtain lo t where t: "read_hex4 inp (r + 2) = Inr (lo, t)" "q = t"
      using assms r by (auto simp: append_unicode_def fail_def split: sum.splits if_splits)
    from read_hex4_pos [OF t(1)] t(2) rp show ?thesis by simp
  next
    case False
    then have "q = r" using assms r by (auto simp: append_unicode_def)
    then show ?thesis using rp by simp
  qed
qed

lemma string_loop_less:
  "(special, q) = scan_to_string_special simd inp p \<Longrightarrow> q + 1 < length inp \<Longrightarrow> q + 2 \<le> r \<Longrightarrow> length inp - r < length inp - p"
  using scan_ge [of p simd inp] by (cases "scan_to_string_special simd inp p") simp

function string_loop :: "bool \<Rightarrow> u8 list \<Rightarrow> nat \<Rightarrow> u8 list \<Rightarrow> u8 list parsed" where
  "string_loop simd inp p out =
     (let (special, q) = scan_to_string_special simd inp p;
          out = out @ take (q - p) (drop p inp)
      in if special = 0 then fail ''unterminated string'' q
      else if special = quote then Inr (out, q + 1)
      else if q + 1 \<ge> length inp then fail ''unterminated escape'' (q + 1)
      else let e = inp ! (q + 1) in
        case simple_escape e of
          Some c \<Rightarrow> string_loop simd inp (q + 2) (out @ [c])
        | None \<Rightarrow>
            if e = ch CHR ''u'' then
              (case append_unicode inp (q + 2) out of
                Inl err \<Rightarrow> Inl err
              | Inr (out, q) \<Rightarrow> string_loop simd inp q out)
            else fail ''invalid escape'' (q + 2))"
  by auto
termination
  by (relation "measure (\<lambda>(simd, inp, p, out). length inp - p)") (auto simp: string_loop_less dest: append_unicode_pos)

declare string_loop.simps [simp del]

definition parse_string :: "bool \<Rightarrow> u8 list \<Rightarrow> nat \<Rightarrow> u8 list parsed" where
  "parse_string simd inp p = string_loop simd inp (p + 1) []"

section \<open>Values\<close>

text \<open>
  The beginning of \<open>parse_array\<close> and \<open>parse_object\<close>, up to their loops; the loop is an argument, since it
  is recursive with \<open>parse_value\<close>.
\<close>

definition parse_array :: "(nat \<Rightarrow> 'n json parsed) \<Rightarrow> bool \<Rightarrow> u8 list \<Rightarrow> nat \<Rightarrow> 'n json parsed" where
  "parse_array loop simd inp p =
     (let p = skip_ws simd inp (p + 1) in
      if at inp p (\<lambda>c. c = ch CHR '']'') then Inr (Array [], p + 1) else loop p)"

definition parse_object :: "(nat \<Rightarrow> 'n json parsed) \<Rightarrow> bool \<Rightarrow> u8 list \<Rightarrow> nat \<Rightarrow> 'n json parsed" where
  "parse_object loop simd inp p =
     (let p = skip_ws simd inp (p + 1) in
      if at inp p (\<lambda>c. c = ch CHR ''}'') then Inr (Object [], p + 1) else loop p)"

text \<open>A key with its colon: the part of an object's loop before the value.\<close>

definition parse_key :: "bool \<Rightarrow> u8 list \<Rightarrow> nat \<Rightarrow> u8 list parsed" where
  "parse_key simd inp p =
     (let p = skip_ws simd inp p in
      if \<not> at inp p (\<lambda>c. c = quote) then fail ''expected string key'' p
      else case parse_string simd inp p of Inl e \<Rightarrow> Inl e | Inr (key, p) \<Rightarrow>
        let p = skip_ws simd inp p in
        if \<not> at inp p (\<lambda>c. c = ch CHR '':'') then fail (''expected '' @ [CHR 0x27, CHR '':'', CHR 0x27]) p
        else Inr (key, p + 1))"

lemma skip_ws_scalar_ge: "p \<le> skip_ws_scalar inp p"
proof (induction inp p rule: skip_ws_scalar.induct)
  case (1 inp p)
  then show ?case using le_trans [of p "p + 1" "skip_ws_scalar inp (p + 1)"] by (subst skip_ws_scalar.simps) auto
qed

lemma skip_ws_avx2_ge: "p \<le> fst (skip_ws_avx2 inp p)"
proof (induction inp p rule: skip_ws_avx2.induct)
  case (1 inp p)
  show ?case by (subst skip_ws_avx2.simps) (use 1 in \<open>fastforce simp: Let_def\<close>)
qed

lemma skip_ws_ge: "p \<le> skip_ws simd inp p"
proof -
  obtain q r where q: "skip_ws_avx2 inp p = (q, r)" by fastforce
  then have "p \<le> q" using skip_ws_avx2_ge [of p inp] by simp
  then show ?thesis using skip_ws_scalar_ge [of q inp] skip_ws_scalar_ge [of p inp] q by (auto simp: skip_ws_def)
qed

lemma parse_array_cong [fundef_cong]:
  assumes "simd = simd'" "inp = inp'" "p = p'" "\<And>q. p' < q \<Longrightarrow> loop q = loop' q"
  shows "parse_array loop simd inp p = parse_array loop' simd' inp' p'"
proof -
  have "p' < skip_ws simd' inp' (p' + 1)" using skip_ws_ge [of "p' + 1" simd' inp'] by simp
  then show ?thesis using assms by (simp add: parse_array_def Let_def)
qed

lemma parse_object_cong [fundef_cong]:
  assumes "simd = simd'" "inp = inp'" "p = p'" "\<And>q. p' < q \<Longrightarrow> loop q = loop' q"
  shows "parse_object loop simd inp p = parse_object loop' simd' inp' p'"
proof -
  have "p' < skip_ws simd' inp' (p' + 1)" using skip_ws_ge [of "p' + 1" simd' inp'] by simp
  then show ?thesis using assms by (simp add: parse_object_def Let_def)
qed

text \<open>How a loop over a string that succeeds has gone on.\<close>

lemma string_loop_cases:
  assumes "string_loop simd inp p out = Inr (s, q)" "scan_to_string_special simd inp p = (special, r)"
  obtains (close) "special = quote" "q = r + 1" "s = out @ take (r - p) (drop p inp)"
  | (escape) c where "special \<noteq> 0" "special \<noteq> quote" "r + 1 < length inp" "simple_escape (inp ! (r + 1)) = Some c"
      "string_loop simd inp (r + 2) ((out @ take (r - p) (drop p inp)) @ [c]) = Inr (s, q)"
  | (unicode) out' t where "special \<noteq> 0" "special \<noteq> quote" "r + 1 < length inp" "simple_escape (inp ! (r + 1)) = None"
      "inp ! (r + 1) = ch CHR ''u''" "append_unicode inp (r + 2) (out @ take (r - p) (drop p inp)) = Inr (out', t)"
      "string_loop simd inp t out' = Inr (s, q)"
  using assms
  by (subst (asm) string_loop.simps) (auto simp: Let_def fail_def split: if_splits option.splits sum.splits)

lemma string_loop_pos: "string_loop simd inp p out = Inr (s, q) \<Longrightarrow> p < q"
proof (induction "length inp - p" arbitrary: p out rule: less_induct)
  case less
  obtain special r where r: "scan_to_string_special simd inp p = (special, r)" by fastforce
  have "p \<le> r" using scan_ge [of p simd inp] r by simp
  from less.prems r show ?case
  proof (cases rule: string_loop_cases)
    case close
    then show ?thesis using \<open>p \<le> r\<close> by simp
  next
    case (escape c)
    then have "length inp - (r + 2) < length inp - p" using \<open>p \<le> r\<close> by linarith
    from less.hyps [OF this escape(5)] \<open>p \<le> r\<close> show ?thesis by simp
  next
    case (unicode out' t)
    note t = append_unicode_pos [OF unicode(6)]
    then have "length inp - t < length inp - p" using unicode(3) \<open>p \<le> r\<close> by linarith
    from less.hyps [OF this unicode(7)] t \<open>p \<le> r\<close> show ?thesis by simp
  qed
qed

lemma parse_key_pos:
  assumes "parse_key simd inp p = Inr (key, q)"
  shows "p < q"
proof -
  obtain r where r: "parse_string simd inp (skip_ws simd inp p) = Inr (key, r)" "q = skip_ws simd inp r + 1"
    using assms by (auto simp: parse_key_def Let_def fail_def split: if_splits sum.splits)
  have "skip_ws simd inp p + 1 < r" using r(1) string_loop_pos by (auto simp: parse_string_def)
  then show ?thesis using skip_ws_ge [of p simd inp] skip_ws_ge [of r simd inp] r(2) by linarith
qed

function (sequential)
  parse_value :: "(u8 list \<Rightarrow> ('n \<times> nat) option) \<Rightarrow> bool \<Rightarrow> u8 list \<Rightarrow> nat \<Rightarrow> 'n json parsed" and
  array_loop :: "(u8 list \<Rightarrow> ('n \<times> nat) option) \<Rightarrow> bool \<Rightarrow> u8 list \<Rightarrow> nat \<Rightarrow> 'n json list \<Rightarrow> 'n json parsed" and
  object_loop :: "(u8 list \<Rightarrow> ('n \<times> nat) option) \<Rightarrow> bool \<Rightarrow> u8 list \<Rightarrow> nat \<Rightarrow> (u8 list \<times> 'n json) list \<Rightarrow> 'n json parsed"
where
  "parse_value F simd inp p =
     (if p \<ge> length inp then fail ''unexpected end of input'' p
      else let c = inp ! p in
        if c = ch CHR ''{'' then parse_object (\<lambda>q. object_loop F simd inp q []) simd inp p
        else if c = ch CHR ''['' then parse_array (\<lambda>q. array_loop F simd inp q []) simd inp p
        else if c = quote then
          (case parse_string simd inp p of Inl e \<Rightarrow> Inl e | Inr (s, q) \<Rightarrow> Inr (String s, q))
        else if c = ch CHR ''t'' then parse_literal (map ch ''true'') (Bool True) inp p
        else if c = ch CHR ''f'' then parse_literal (map ch ''false'') (Bool False) inp p
        else if c = ch CHR ''n'' then parse_literal (map ch ''null'') Null inp p
        else parse_number F inp p)"
| "array_loop F simd inp p vs =
     (case parse_value F simd inp (skip_ws simd inp p) of
        Inl e \<Rightarrow> Inl e
      | Inr (v, q) \<Rightarrow>
          (let q = skip_ws simd inp q; vs = vs @ [v] in
           if q \<ge> length inp then fail ''unterminated array'' q
           else if inp ! q = ch CHR '','' then array_loop F simd inp (q + 1) vs
           else if inp ! q = ch CHR '']'' then Inr (Array vs, q + 1)
           else fail (''expected '' @ [CHR 0x27, CHR '','', CHR 0x27] @ '' or '' @ [CHR 0x27, CHR '']'', CHR 0x27]) q))"
| "object_loop F simd inp p kvs =
     (case parse_key simd inp p of
        Inl e \<Rightarrow> Inl e
      | Inr (key, q) \<Rightarrow>
          (case parse_value F simd inp (skip_ws simd inp q) of
             Inl e \<Rightarrow> Inl e
           | Inr (v, q) \<Rightarrow>
               (let q = skip_ws simd inp q; kvs = kvs @ [(key, v)] in
                if q \<ge> length inp then fail ''unterminated object'' q
                else if inp ! q = ch CHR '','' then object_loop F simd inp (q + 1) kvs
                else if inp ! q = ch CHR ''}'' then Inr (Object kvs, q + 1)
                else fail (''expected '' @ [CHR 0x27, CHR '','', CHR 0x27] @ '' or '' @ [CHR 0x27, CHR ''}'', CHR 0x27]) q)))"
  by pat_completeness auto

lemma parse_literal_pos: "parse_literal ls v inp p = Inr (w, q) \<Longrightarrow> q = p + length ls"
  by (induction ls v inp p rule: parse_literal.induct) (auto simp: fail_def split: if_splits)

lemma skip_digits_ge: "p \<le> skip_digits inp p"
proof (induction inp p rule: skip_digits.induct)
  case (1 inp p)
  then show ?case using le_trans [of p "p + 1" "skip_digits inp (p + 1)"] by (subst skip_digits.simps) auto
qed

lemma skip_digits_gt: "at inp p is_digit \<Longrightarrow> p < skip_digits inp p"
  using skip_digits_ge [of "p + 1" inp] by (subst skip_digits.simps) simp

lemma ch_numbers: "ch CHR ''0'' = 48" "ch CHR ''1'' = 49" "ch CHR ''9'' = 57"
  by (simp_all add: ch_def)

lemma parse_number_pos:
  assumes "parse_number F inp p = Inr (v, q)"
  shows "p < q"
proof -
  obtain a b c where n: "parse_int inp a = Inr b" "parse_frac inp b = Inr c" "parse_exp inp c = Inr q" "p \<le> a"
    using assms by (auto simp: parse_number_def Let_def fail_def split: if_splits sum.splits option.splits)
  have "a < b"
    using n(1) skip_digits_gt [of inp a] order_trans [of 48 49 "inp ! a"]
    by (auto simp: parse_int_def fail_def at_def is_digit_def ch_numbers split: if_splits)
  moreover have "b \<le> c"
    using n(2) skip_digits_ge [of "b + 1" inp] by (auto simp: parse_frac_def fail_def split: if_splits)
  moreover have "c \<le> q"
    using n(3) skip_digits_ge [of "c + 1" inp] skip_digits_ge [of "c + 2" inp]
    by (auto simp: parse_exp_def fail_def Let_def split: if_splits)
  ultimately show ?thesis using n(4) by linarith
qed

lemma parse_array_pos:
  assumes "parse_array loop simd inp p = Inr (v, q)" "\<And>r. p < r \<Longrightarrow> loop r = Inr (v, q) \<Longrightarrow> r < q"
  shows "p < q"
proof -
  have r: "p < skip_ws simd inp (p + 1)" using skip_ws_ge [of "p + 1" simd inp] by simp
  then show ?thesis using assms(1) assms(2) [OF r]
    by (auto simp: parse_array_def Let_def split: if_splits)
qed

lemma parse_object_pos:
  assumes "parse_object loop simd inp p = Inr (v, q)" "\<And>r. p < r \<Longrightarrow> loop r = Inr (v, q) \<Longrightarrow> r < q"
  shows "p < q"
proof -
  have r: "p < skip_ws simd inp (p + 1)" using skip_ws_ge [of "p + 1" simd inp] by simp
  then show ?thesis using assms(1) assms(2) [OF r]
    by (auto simp: parse_object_def Let_def split: if_splits)
qed

text \<open>Every function that succeeds has moved on; this is why the parser terminates.\<close>

lemma parse_progress:
  "parse_value_array_loop_object_loop_dom (Inl (F, simd, inp, p)) \<Longrightarrow> parse_value F simd inp p = Inr (v, q) \<Longrightarrow> p < q"
  "parse_value_array_loop_object_loop_dom (Inr (Inl (F, simd, inp, p, vs))) \<Longrightarrow> array_loop F simd inp p vs = Inr (v, q) \<Longrightarrow> p < q"
  "parse_value_array_loop_object_loop_dom (Inr (Inr (F, simd, inp, p, kvs))) \<Longrightarrow> object_loop F simd inp p kvs = Inr (v, q) \<Longrightarrow> p < q"
proof (induction F simd inp p and F simd inp p vs and F simd inp p kvs arbitrary: v q and v q and v q
    rule: parse_value_array_loop_object_loop.pinduct)
  case (1 F simd inp p)
  note ih = 1(2,3)
  note run = 1(4) [unfolded parse_value.psimps [OF 1(1)]]
  show ?case
  proof (cases "p < length inp \<and> (inp ! p = ch CHR ''{'' \<or> inp ! p = ch CHR ''['')")
    case True
    then consider "parse_object (\<lambda>q. object_loop F simd inp q []) simd inp p = Inr (v, q)" "inp ! p = ch CHR ''{''"
      | "parse_array (\<lambda>q. array_loop F simd inp q []) simd inp p = Inr (v, q)" "inp ! p = ch CHR ''[''" "inp ! p \<noteq> ch CHR ''{''"
      using run by (auto simp: Let_def split: if_splits)
    then show ?thesis
    proof cases
      case 1
      show ?thesis by (rule parse_object_pos [OF 1(1)]) (use ih(1) True 1(2) in auto)
    next
      case 2
      show ?thesis by (rule parse_array_pos [OF 2(1)]) (use ih(2) True 2(2,3) in auto)
    qed
  next
    case False
    then show ?thesis using run
      by (auto simp: Let_def fail_def parse_string_def split: if_splits sum.splits
          dest: string_loop_pos parse_literal_pos parse_number_pos)
  qed
next
  case (2 F simd inp p vs)
  obtain w r where w: "parse_value F simd inp (skip_ws simd inp p) = Inr (w, r)"
    using 2(4) by (auto simp: array_loop.psimps [OF 2(1)] split: sum.splits)
  have r: "p < r" using 2(2) [OF w] skip_ws_ge [of p simd inp] by simp
  have "array_loop F simd inp (skip_ws simd inp r + 1) (vs @ [w]) = Inr (v, q) \<and> skip_ws simd inp r < length inp \<and>
      inp ! skip_ws simd inp r = ch CHR '','' \<or> q = skip_ws simd inp r + 1"
    using 2(4) w by (auto simp: array_loop.psimps [OF 2(1)] Let_def fail_def split: if_splits)
  then show ?case
    using 2(3) [OF w refl refl refl] skip_ws_ge [of r simd inp] r by fastforce
next
  case (3 F simd inp p kvs)
  obtain key k where k: "parse_key simd inp p = Inr (key, k)"
    using 3(4) by (auto simp: object_loop.psimps [OF 3(1)] split: sum.splits)
  then obtain w r where w: "parse_value F simd inp (skip_ws simd inp k) = Inr (w, r)"
    using 3(4) by (auto simp: object_loop.psimps [OF 3(1)] split: sum.splits)
  have r: "p < r" using 3(2) [OF k refl w] parse_key_pos [OF k] skip_ws_ge [of k simd inp] by simp
  have "object_loop F simd inp (skip_ws simd inp r + 1) (kvs @ [(key, w)]) = Inr (v, q) \<and> skip_ws simd inp r < length inp \<and>
      inp ! skip_ws simd inp r = ch CHR '','' \<or> q = skip_ws simd inp r + 1"
    using 3(4) k w by (auto simp: object_loop.psimps [OF 3(1)] Let_def fail_def split: if_splits)
  then show ?case
    using 3(3) [OF k refl w refl refl refl] skip_ws_ge [of r simd inp] r by fastforce
qed

text \<open>The loops are above the values at a position, the values above the loops further on.\<close>

termination parse_value
proof (relation "measure (\<lambda>x. case x of Inl (F, simd, inp, p) \<Rightarrow> 2 * (length inp - p)
    | Inr (Inl (F, simd, inp, p, vs)) \<Rightarrow> 2 * (length inp - p) + 1
    | Inr (Inr (F, simd, inp, p, kvs)) \<Rightarrow> 2 * (length inp - p) + 1)", goal_cases)
  case (4 F simd inp p vs)
  then show ?case using skip_ws_ge [of p simd inp] by auto
next
  case (5 F simd inp p vs x w r q ws)
  then have "skip_ws simd inp p < r" by (auto dest: parse_progress(1))
  then show ?case using 5 skip_ws_ge [of p simd inp] skip_ws_ge [of r simd inp] by auto
next
  case (6 F simd inp p kvs x key k)
  then have "p < k" by (auto dest: parse_key_pos)
  then show ?case using skip_ws_ge [of k simd inp] by auto
next
  case (7 F simd inp p kvs x key k y w r q ws)
  then have "p < k" "skip_ws simd inp k < r" by (auto dest: parse_key_pos parse_progress(1))
  then show ?case using 7 skip_ws_ge [of k simd inp] skip_ws_ge [of r simd inp] by auto
qed auto

declare parse_value.simps [simp del] array_loop.simps [simp del] object_loop.simps [simp del]

text \<open>The whole parser. \<open>simd\<close> is the flag, in a build with AVX2.\<close>

definition parse :: "(u8 list \<Rightarrow> ('n \<times> nat) option) \<Rightarrow> bool \<Rightarrow> u8 list \<Rightarrow> parse_error + 'n json" where
  "parse F simd inp =
     (case parse_value F simd inp (skip_ws simd inp 0) of
        Inl e \<Rightarrow> Inl e
      | Inr (v, p) \<Rightarrow>
          (let p = skip_ws simd inp p in
           if p \<noteq> length inp then fail ''trailing characters after JSON value'' p else Inr v))"

end
