(* ===== verification/Json_Scan.thy ===== *)
theory Json_Scan
  imports Json
begin

text \<open>
  The AVX2 scanners find what the scalar loops find, so the parser has the same results with and
  without them.
\<close>

section \<open>Vectors\<close>

lemma bit_movemask: "bit (movemask_epi8 v) i \<longleftrightarrow> i < 32 \<and> i < length v \<and> bit (v ! i) 7"
  by (auto simp: movemask_epi8_def bit_horner_sum_bit_iff)

lemma length_vectors [simp]:
  "length (cmpeq_epi8 chunk c) = length chunk" "length (or_si256 a b) = min (length a) (length b)"
  by (simp_all add: cmpeq_epi8_def or_si256_def)

lemma bit_cmpeq: "i < length chunk \<Longrightarrow> bit (cmpeq_epi8 chunk c ! i) 7 \<longleftrightarrow> chunk ! i = c"
  by (simp add: cmpeq_epi8_def)

lemma bit_or_vectors:
  "i < length a \<Longrightarrow> i < length b \<Longrightarrow> bit (or_si256 a b ! i) 7 \<longleftrightarrow> bit (a ! i) 7 \<or> bit (b ! i) 7"
  by (simp add: or_si256_def bit_or_iff)

lemma ctz_first:
  assumes "w \<noteq> 0"
  shows "ctz w < 32" "bit w (ctz w)" "j < ctz w \<Longrightarrow> \<not> bit w j"
proof -
  obtain i where i: "bit w i" using assms by (metis bit_eqI bit_0_eq bot_apply bot_bool_def)
  then have "i < 32" using bit_imp_le_length by fastforce
  with i have "\<exists>x\<in>set [0..<32]. \<not> \<not> bit w x" by auto
  then have len: "length (takeWhile (\<lambda>i. \<not> bit w i) [0..<32]) < length [0..<32 :: nat]"
    by (metis takeWhile_eq_all_conv length_takeWhile_le le_neq_implies_less takeWhile_eq_take take_all_iff)
  then show lt: "ctz w < 32" by (simp add: ctz_def)
  from nth_length_takeWhile [OF len] lt show "bit w (ctz w)" by (simp add: ctz_def)
  show "\<not> bit w j" if "j < ctz w"
  proof -
    have "takeWhile (\<lambda>i. \<not> bit w i) [0..<32] ! j \<in> set (takeWhile (\<lambda>i. \<not> bit w i) [0..<32])"
      using that unfolding ctz_def by (rule nth_mem)
    moreover have "takeWhile (\<lambda>i. \<not> bit w i) [0..<32] ! j = j"
      using takeWhile_nth [OF that [unfolded ctz_def]] that lt by simp
    ultimately show ?thesis using set_takeWhileD by fastforce
  qed
qed

section \<open>Vector loops\<close>

text \<open>
  A loop over vectors with a mask of the bytes that stop it, and the scalar loop with the same stop
  bytes.
\<close>

locale vector_scan =
  fixes stop :: "u8 \<Rightarrow> bool" and mask :: "u8 list \<Rightarrow> u32"
    and vector :: "u8 list \<Rightarrow> nat \<Rightarrow> nat \<times> bool" and scalar :: "u8 list \<Rightarrow> nat \<Rightarrow> nat"
  assumes bit_mask: "length chunk = 32 \<Longrightarrow> bit (mask chunk) i \<longleftrightarrow> i < 32 \<and> stop (chunk ! i)"
    and vector: "vector inp p = (if p + 32 \<le> length inp then
      (if mask (take 32 (drop p inp)) \<noteq> 0 then (p + ctz (mask (take 32 (drop p inp))), True) else vector inp (p + 32))
      else (p, False))"
    and scalar: "scalar inp p = (if p < length inp \<and> \<not> stop (inp ! p) then scalar inp (p + 1) else p)"
begin

lemma scalar_skip:
  assumes "p + n \<le> length inp" "\<And>i. i < n \<Longrightarrow> \<not> stop (inp ! (p + i))"
  shows "scalar inp p = scalar inp (p + n)"
  using assms
proof (induction n arbitrary: p)
  case (Suc n)
  have "scalar inp p = scalar inp (p + 1)" using Suc.prems(1) Suc.prems(2) [of 0] by (subst scalar) simp
  also have "\<dots> = scalar inp (p + 1 + n)"
    using Suc.IH [of "p + 1"] Suc.prems(1) Suc.prems(2) [of "Suc i" for i] by simp
  finally show ?case by simp
qed simp

lemma vector_scalar:
  "vector inp p = (q, r) \<Longrightarrow> scalar inp p = scalar inp q \<and> (r \<longrightarrow> q < length inp \<and> stop (inp ! q))"
proof (induction "length inp - p" arbitrary: p rule: less_induct)
  case less
  let ?m = "mask (take 32 (drop p inp))"
  show ?case
  proof (cases "p + 32 \<le> length inp")
    case False
    then show ?thesis using less.prems by (subst (asm) vector) simp
  next
    case True
    have bits: "bit ?m i \<longleftrightarrow> i < 32 \<and> stop (inp ! (p + i))" for i
      using bit_mask [of "take 32 (drop p inp)" i] True by auto
    show ?thesis
    proof (cases "?m = 0")
      case zero: True
      have "\<not> stop (inp ! (p + i))" if "i < 32" for i using bits [of i] zero that by simp
      then have "scalar inp p = scalar inp (p + 32)" using scalar_skip [OF True] by blast
      moreover have "vector inp (p + 32) = (q, r)" using less.prems True zero by (subst (asm) vector) simp
      ultimately show ?thesis using less.hyps [of "p + 32"] True by simp
    next
      case False
      note c = ctz_first [OF False]
      have q: "q = p + ctz ?m" "r" using less.prems True False by (subst (asm) vector, simp)+
      have "stop (inp ! q)" using c(2) bits q(1) by simp
      moreover have "scalar inp p = scalar inp (p + ctz ?m)"
      proof (rule scalar_skip)
        show "p + ctz ?m \<le> length inp" using c(1) True by linarith
        show "\<not> stop (inp ! (p + i))" if "i < ctz ?m" for i using c(3) [OF that] bits [of i] c(1) that by simp
      qed
      ultimately show ?thesis using q c(1) True by simp
    qed
  qed
qed

lemma scalar_stops: "p < length inp \<Longrightarrow> stop (inp ! p) \<Longrightarrow> scalar inp p = p"
  by (subst scalar) simp

text \<open>Running the vector loop first, and returning where it says so, changes nothing.\<close>

lemma vector_then_scalar: "(case vector inp p of (q, r) \<Rightarrow> if r then q else scalar inp q) = scalar inp p"
  using vector_scalar [of inp p] scalar_stops by (auto split: prod.splits)

end

lemma ws_mask:
  assumes "length chunk = 32"
  shows "bit (NOT (movemask_epi8 (or_si256 (or_si256 (cmpeq_epi8 chunk 32) (cmpeq_epi8 chunk 9))
      (or_si256 (cmpeq_epi8 chunk 10) (cmpeq_epi8 chunk 13))))) i \<longleftrightarrow> i < 32 \<and> \<not> is_ws (chunk ! i)"
  using assms by (auto simp: bit_not_iff bit_movemask bit_cmpeq bit_or_vectors is_ws_def)

lemma special_mask:
  assumes "length chunk = 32"
  shows "bit (movemask_epi8 (or_si256 (cmpeq_epi8 chunk quote) (cmpeq_epi8 chunk backslash))) i \<longleftrightarrow>
    i < 32 \<and> (chunk ! i = quote \<or> chunk ! i = backslash)"
  using assms by (auto simp: bit_movemask bit_cmpeq bit_or_vectors)

interpretation ws: vector_scan "\<lambda>c. \<not> is_ws c"
  "\<lambda>chunk. NOT (movemask_epi8 (or_si256 (or_si256 (cmpeq_epi8 chunk 32) (cmpeq_epi8 chunk 9))
                (or_si256 (cmpeq_epi8 chunk 10) (cmpeq_epi8 chunk 13))))" skip_ws_avx2 skip_ws_scalar
  by unfold_locales
    (rule ws_mask, assumption, subst skip_ws_avx2.simps, simp add: Let_def, subst skip_ws_scalar.simps, simp)

interpretation special: vector_scan "\<lambda>c. c = quote \<or> c = backslash"
  "\<lambda>chunk. movemask_epi8 (or_si256 (cmpeq_epi8 chunk quote) (cmpeq_epi8 chunk backslash))" scan_avx2 scan_scalar
  by unfold_locales
    (rule special_mask, assumption, subst scan_avx2.simps, simp add: Let_def, subst scan_scalar.simps, simp)

section \<open>The parser without vectors\<close>

lemma skip_ws_simd: "skip_ws simd inp p = skip_ws_scalar inp p"
  using ws.vector_then_scalar [of inp p] by (simp add: skip_ws_def)

lemma scan_simd: "scan_to_string_special simd inp p = scan_to_string_special False inp p"
proof -
  obtain q r where q: "scan_avx2 inp p = (q, r)" by fastforce
  show ?thesis
    using special.vector_scalar [OF q] special.scalar_stops [of q inp] q
    by (cases r) (simp_all add: scan_to_string_special_def)
qed

lemma string_loop_simd: "string_loop simd inp p out = string_loop False inp p out"
proof (induction "length inp - p" arbitrary: p out rule: less_induct)
  case less
  obtain c q where q: "scan_to_string_special False inp p = (c, q)" by fastforce
  note less_q = string_loop_less [OF q [symmetric]]
  have esc: "string_loop simd inp (q + 2) out' = string_loop False inp (q + 2) out'" if "q + 1 < length inp" for out'
    using less.hyps less_q [OF that] by simp
  have uni: "string_loop simd inp t out'' = string_loop False inp t out''"
    if "q + 1 < length inp" "append_unicode inp (q + 2) out' = Inr (out'', t)" for out' out'' t
    using less.hyps less_q [OF that(1)] append_unicode_pos [OF that(2)] by simp
  show ?case
    by (subst (1 2) string_loop.simps)
      (use esc uni in \<open>auto simp: scan_simd [of simd] q Let_def split: option.splits sum.splits\<close>)
qed

lemma parse_string_simd: "parse_string simd inp p = parse_string False inp p"
  by (simp add: parse_string_def string_loop_simd [of simd])

lemma parse_key_simd: "parse_key simd inp p = parse_key False inp p"
  by (simp add: parse_key_def skip_ws_simd parse_string_simd [of simd] Let_def split: sum.splits)

lemma parse_simd:
  "parse_value F simd inp p = parse_value F False inp p"
  "array_loop F simd inp p vs = array_loop F False inp p vs"
  "object_loop F simd inp p kvs = object_loop F False inp p kvs"
proof (induction F simd inp p and F simd inp p vs and F simd inp p kvs rule: parse_value_array_loop_object_loop.induct)
  case (1 F simd inp p)
  have "parse_object (\<lambda>q. object_loop F simd inp q []) simd inp p = parse_object (\<lambda>q. object_loop F False inp q []) False inp p"
    if "p < length inp" "inp ! p = ch CHR ''{''"
  proof -
    have "parse_object (\<lambda>q. object_loop F simd inp q []) simd inp p = parse_object (\<lambda>q. object_loop F False inp q []) simd inp p"
      by (rule parse_object_cong) (use 1(1) that in auto)
    then show ?thesis by (simp add: parse_object_def skip_ws_simd)
  qed
  moreover have "parse_array (\<lambda>q. array_loop F simd inp q []) simd inp p = parse_array (\<lambda>q. array_loop F False inp q []) False inp p"
    if "p < length inp" "inp ! p = ch CHR ''[''" "inp ! p \<noteq> ch CHR ''{''"
  proof -
    have "parse_array (\<lambda>q. array_loop F simd inp q []) simd inp p = parse_array (\<lambda>q. array_loop F False inp q []) simd inp p"
      by (rule parse_array_cong) (use 1(2) that in auto)
    then show ?thesis by (simp add: parse_array_def skip_ws_simd)
  qed
  ultimately show ?case
    by (subst (1 2) parse_value.simps) (simp add: Let_def parse_string_simd [of simd])
next
  case (2 F simd inp p vs)
  show ?case
    by (subst (1 2) array_loop.simps)
      (use 2 in \<open>auto simp: skip_ws_simd Let_def split: sum.splits\<close>)
next
  case (3 F simd inp p kvs)
  show ?case
    by (subst (1 2) object_loop.simps)
      (use 3 in \<open>auto simp: skip_ws_simd parse_key_simd [of simd] Let_def split: sum.splits\<close>)
qed

text \<open>
  C24: The AVX2 path and the scalar path agree: on every text, the parser with vector scanning gives the
  same value, or the same error at the same position, as without.
\<close>

theorem json_simd_is_scalar: "parse F True inp = parse F False inp"
  by (simp add: parse_def skip_ws_simd parse_simd(1) [of F True] Let_def split: sum.splits)

end
