(* ===== verification/Json_Spec.thy ===== *)
theory Json_Spec
  imports Json_Scan
begin

text \<open>
  The grammar of texts and the values they stand for, in the dialect of RFC 8259 and in the lenient one of
  the parser; and the lexical half of the proof that it accepts exactly the latter: white space, strings, numbers, literals.
\<close>

section \<open>The grammar\<close>

definition ws_text :: "u8 list \<Rightarrow> bool" where
  "ws_text t \<longleftrightarrow> (\<forall>c\<in>set t. is_ws c)"

fun hex4 :: "u8 list \<Rightarrow> u32 option" where
  "hex4 [a, b, c, d] = (case (hex_digit a, hex_digit b, hex_digit c, hex_digit d) of
     (Some w, Some x, Some y, Some z) \<Rightarrow> Some (push_bit 4 (push_bit 4 (push_bit 4 w OR x) OR y) OR z)
   | _ \<Rightarrow> None)"
| "hex4 _ = None"

definition high_surrogate :: "u32 \<Rightarrow> bool" where
  "high_surrogate cp \<longleftrightarrow> 0xD800 \<le> cp \<and> cp \<le> 0xDBFF"

definition low_surrogate :: "u32 \<Rightarrow> bool" where
  "low_surrogate cp \<longleftrightarrow> 0xDC00 \<le> cp \<and> cp \<le> 0xDFFF"

definition astral :: "u32 \<Rightarrow> u32 \<Rightarrow> u32" where
  "astral hi lo = 0x10000 + push_bit 10 (hi - 0xD800) + (lo - 0xDC00)"

text \<open>
  The grammar comes in two dialects: that of RFC 8259, and the one the parser accepts, which is more lenient
  in two rules. In strings it admits control characters, which section 7 of the RFC excludes, and
  an escape of a low surrogate without a high one before it. The RFC's grammar admits escapes of lone surrogates, but
  leaves open what they mean (section 8.2); here a text of the RFC dialect stands for Unicode characters, so it has none.
  Bytes from 0x80 on stand for themselves in both: that a text is UTF-8 is not asked for.
\<close>

datatype dialect = Lenient | Rfc8259

text \<open>The inside of a string, and the bytes it stands for.\<close>

inductive str_body :: "dialect \<Rightarrow> u8 list \<Rightarrow> u8 list \<Rightarrow> bool" for D where
  empty: "str_body D [] []"
| plain: "c \<noteq> quote \<Longrightarrow> c \<noteq> backslash \<Longrightarrow> (D = Rfc8259 \<longrightarrow> 0x20 \<le> c) \<Longrightarrow> str_body D t s \<Longrightarrow> str_body D (c # t) (c # s)"
| escape: "simple_escape e = Some c \<Longrightarrow> str_body D t s \<Longrightarrow> str_body D (backslash # e # t) (c # s)"
| unicode: "hex4 ds = Some cp \<Longrightarrow> \<not> high_surrogate cp \<Longrightarrow> (D = Rfc8259 \<longrightarrow> \<not> low_surrogate cp) \<Longrightarrow> str_body D t s \<Longrightarrow>
    str_body D (backslash # ch CHR ''u'' # ds @ t) (encode_utf8 cp @ s)"
| pair: "hex4 ds = Some hi \<Longrightarrow> high_surrogate hi \<Longrightarrow> hex4 es = Some lo \<Longrightarrow> low_surrogate lo \<Longrightarrow> str_body D t s \<Longrightarrow>
    str_body D (backslash # ch CHR ''u'' # ds @ backslash # ch CHR ''u'' # es @ t) (encode_utf8 (astral hi lo) @ s)"

lemma lenient_plain: "c \<noteq> quote \<Longrightarrow> c \<noteq> backslash \<Longrightarrow> str_body Lenient t s \<Longrightarrow> str_body Lenient (c # t) (c # s)"
  by (rule str_body.plain) simp_all

lemma lenient_unicode: "hex4 ds = Some cp \<Longrightarrow> \<not> high_surrogate cp \<Longrightarrow> str_body Lenient t s \<Longrightarrow>
    str_body Lenient (backslash # ch CHR ''u'' # ds @ t) (encode_utf8 cp @ s)"
  by (rule str_body.unicode) simp_all

definition digits :: "u8 list \<Rightarrow> bool" where
  "digits t \<longleftrightarrow> t \<noteq> [] \<and> (\<forall>c\<in>set t. is_digit c)"

definition int_text :: "u8 list \<Rightarrow> bool" where
  "int_text t \<longleftrightarrow> t = [48] \<or> digits t \<and> hd t \<noteq> 48"

definition frac_text :: "u8 list \<Rightarrow> bool" where
  "frac_text t \<longleftrightarrow> t = [] \<or> (\<exists>ds. t = ch CHR ''.'' # ds \<and> digits ds)"

definition exp_text :: "u8 list \<Rightarrow> bool" where
  "exp_text t \<longleftrightarrow> t = [] \<or> (\<exists>e sg ds. t = e # sg @ ds \<and> (e = ch CHR ''e'' \<or> e = ch CHR ''E'') \<and>
     (sg = [] \<or> sg = [ch CHR ''+''] \<or> sg = [ch CHR ''-'']) \<and> digits ds)"

definition number_text :: "u8 list \<Rightarrow> bool" where
  "number_text t \<longleftrightarrow> (\<exists>sg i f e. t = sg @ i @ f @ e \<and> (sg = [] \<or> sg = [ch CHR ''-'']) \<and>
     int_text i \<and> frac_text f \<and> exp_text e)"

inductive json_text :: "dialect \<Rightarrow> (u8 list \<Rightarrow> ('n \<times> nat) option) \<Rightarrow> u8 list \<Rightarrow> 'n json \<Rightarrow> bool"
  and elements_text :: "dialect \<Rightarrow> (u8 list \<Rightarrow> ('n \<times> nat) option) \<Rightarrow> u8 list \<Rightarrow> 'n json list \<Rightarrow> bool"
  and members_text :: "dialect \<Rightarrow> (u8 list \<Rightarrow> ('n \<times> nat) option) \<Rightarrow> u8 list \<Rightarrow> (u8 list \<times> 'n json) list \<Rightarrow> bool"
  for D F where
  null: "json_text D F (map ch ''null'') Null"
| true: "json_text D F (map ch ''true'') (Bool True)"
| false: "json_text D F (map ch ''false'') (Bool False)"
| number: "number_text t \<Longrightarrow> F t = Some (x, length t) \<Longrightarrow> json_text D F t (Number x)"
| string: "str_body D t s \<Longrightarrow> json_text D F (quote # t @ [quote]) (String s)"
| no_elements: "ws_text w \<Longrightarrow> json_text D F (ch CHR ''['' # w @ [ch CHR '']'']) (Array [])"
| array: "elements_text D F t vs \<Longrightarrow> json_text D F (ch CHR ''['' # t @ [ch CHR '']'']) (Array vs)"
| no_members: "ws_text w \<Longrightarrow> json_text D F (ch CHR ''{'' # w @ [ch CHR ''}'']) (Object [])"
| object: "members_text D F t kvs \<Longrightarrow> json_text D F (ch CHR ''{'' # t @ [ch CHR ''}'']) (Object kvs)"
| last_element: "ws_text a \<Longrightarrow> json_text D F t v \<Longrightarrow> ws_text b \<Longrightarrow> elements_text D F (a @ t @ b) [v]"
| element: "ws_text a \<Longrightarrow> json_text D F t v \<Longrightarrow> ws_text b \<Longrightarrow> elements_text D F r vs \<Longrightarrow>
    elements_text D F (a @ t @ b @ ch CHR '','' # r) (v # vs)"
| last_member: "ws_text a \<Longrightarrow> str_body D k key \<Longrightarrow> ws_text b \<Longrightarrow> ws_text c \<Longrightarrow> json_text D F t v \<Longrightarrow> ws_text d \<Longrightarrow>
    members_text D F (a @ quote # k @ quote # b @ ch CHR '':'' # c @ t @ d) [(key, v)]"
| member: "ws_text a \<Longrightarrow> str_body D k key \<Longrightarrow> ws_text b \<Longrightarrow> ws_text c \<Longrightarrow> json_text D F t v \<Longrightarrow> ws_text d \<Longrightarrow>
    members_text D F r kvs \<Longrightarrow>
    members_text D F (a @ quote # k @ quote # b @ ch CHR '':'' # c @ t @ d @ ch CHR '','' # r) ((key, v) # kvs)"

definition document :: "dialect \<Rightarrow> (u8 list \<Rightarrow> ('n \<times> nat) option) \<Rightarrow> u8 list \<Rightarrow> 'n json \<Rightarrow> bool" where
  "document D F inp v \<longleftrightarrow> (\<exists>a t b. inp = a @ t @ b \<and> ws_text a \<and> json_text D F t v \<and> ws_text b)"

section \<open>Pieces of the text\<close>

definition consumes :: "u8 list \<Rightarrow> nat \<Rightarrow> u8 list \<Rightarrow> nat \<Rightarrow> bool" where
  "consumes inp p t q \<longleftrightarrow> q = p + length t \<and> q \<le> length inp \<and> drop p inp = t @ drop q inp"

lemma consumes_Nil [simp]: "consumes inp p [] q \<longleftrightarrow> q = p \<and> p \<le> length inp"
  by (auto simp: consumes_def)

lemma consumes_append:
  "consumes inp p (s @ t) q \<longleftrightarrow> consumes inp p s (p + length s) \<and> consumes inp (p + length s) t q"
proof
  assume c: "consumes inp p (s @ t) q"
  then have d: "drop p inp = s @ t @ drop q inp" "q = p + length s + length t" "q \<le> length inp" by (auto simp: consumes_def)
  have "drop (p + length s) inp = drop (length s) (drop p inp)" by (simp add: add.commute)
  also have "\<dots> = t @ drop q inp" using d(1) by simp
  finally show "consumes inp p s (p + length s) \<and> consumes inp (p + length s) t q"
    using d by (simp add: consumes_def)
next
  assume "consumes inp p s (p + length s) \<and> consumes inp (p + length s) t q"
  then show "consumes inp p (s @ t) q" by (auto simp: consumes_def)
qed

lemma consumes_Cons: "consumes inp p (c # t) q \<longleftrightarrow> p < length inp \<and> inp ! p = c \<and> consumes inp (p + 1) t q"
proof -
  have "consumes inp p [c] (p + 1) \<longleftrightarrow> p < length inp \<and> inp ! p = c"
  proof
    assume "consumes inp p [c] (p + 1)"
    then have "drop p inp = c # drop (p + 1) inp" "p < length inp" by (auto simp: consumes_def)
    moreover then have "drop p inp = inp ! p # drop (p + 1) inp" using Cons_nth_drop_Suc [of p inp] by simp
    ultimately show "p < length inp \<and> inp ! p = c" by simp
  next
    assume "p < length inp \<and> inp ! p = c"
    then show "consumes inp p [c] (p + 1)" using Cons_nth_drop_Suc [of p inp] by (auto simp: consumes_def)
  qed
  then show ?thesis using consumes_append [of inp p "[c]" t q] by auto
qed

lemma consumes_join: "consumes inp p s q \<Longrightarrow> consumes inp q t r \<Longrightarrow> consumes inp p (s @ t) r"
  by (auto simp: consumes_def)

lemma consumes_len: "consumes inp p t q \<Longrightarrow> p \<le> q \<and> q \<le> length inp \<and> q = p + length t"
  by (simp add: consumes_def)

lemma consumes_one: "p < length inp \<Longrightarrow> consumes inp p [inp ! p] (p + 1)"
  by (simp add: consumes_Cons)

text \<open>What a scanner of one kind of character consumes, and where it stops.\<close>

definition stops :: "u8 list \<Rightarrow> nat \<Rightarrow> (u8 \<Rightarrow> bool) \<Rightarrow> bool" where
  "stops inp q P \<longleftrightarrow> (q < length inp \<longrightarrow> \<not> P (inp ! q))"

locale skipper =
  fixes P :: "u8 \<Rightarrow> bool" and skip :: "u8 list \<Rightarrow> nat \<Rightarrow> nat"
  assumes skip: "skip inp p = (if p < length inp \<and> P (inp ! p) then skip inp (p + 1) else p)"
begin

lemma skip_sound:
  "p \<le> length inp \<Longrightarrow> \<exists>t. consumes inp p t (skip inp p) \<and> (\<forall>c\<in>set t. P c) \<and> stops inp (skip inp p) P"
proof (induction "length inp - p" arbitrary: p rule: less_induct)
  case less
  show ?case
  proof (cases "p < length inp \<and> P (inp ! p)")
    case True
    then have e: "skip inp p = skip inp (p + 1)" by (subst skip) simp
    obtain t where t: "consumes inp (p + 1) t (skip inp (p + 1))" "\<forall>c\<in>set t. P c" "stops inp (skip inp (p + 1)) P"
    proof -
      have "length inp - (p + 1) < length inp - p" "p + 1 \<le> length inp" using True by auto
      from less.hyps [OF this] show thesis using that by blast
    qed
    then have "consumes inp p (inp ! p # t) (skip inp p)" using True e by (simp add: consumes_Cons)
    then show ?thesis using t True e by (intro exI [of _ "inp ! p # t"]) simp
  next
    case False
    then have "skip inp p = p" by (subst skip) auto
    then show ?thesis using False less.prems by (intro exI [of _ "[]"]) (auto simp: stops_def)
  qed
qed

lemma skip_complete: "consumes inp p t q \<Longrightarrow> \<forall>c\<in>set t. P c \<Longrightarrow> stops inp q P \<Longrightarrow> skip inp p = q"
proof (induction t arbitrary: p)
  case Nil
  then have "\<not> (p < length inp \<and> P (inp ! p))" "q = p" by (auto simp: stops_def)
  then show ?case by (subst skip) auto
next
  case (Cons c t)
  then have "skip inp p = skip inp (p + 1)" by (subst skip) (simp add: consumes_Cons)
  then show ?case using Cons by (simp add: consumes_Cons)
qed

lemma skip_again: "skip inp (skip inp p) = skip inp p"
proof (cases "p \<le> length inp")
  case True
  have "\<not> (skip inp p < length inp \<and> P (inp ! skip inp p))"
    using skip_sound [OF True] by (auto simp: stops_def)
  then show ?thesis by (subst skip) auto
next
  case False
  then have "skip inp p = p" by (subst skip) simp
  then show ?thesis by simp
qed

end

interpretation space: skipper is_ws skip_ws_scalar
  by unfold_locales (rule skip_ws_scalar.simps)

interpretation digit: skipper is_digit skip_digits
  by unfold_locales (subst skip_digits.simps, simp add: at_def)

interpretation ordinary: skipper "\<lambda>c. c \<noteq> quote \<and> c \<noteq> backslash" scan_scalar
  by unfold_locales (rule scan_scalar.simps)

end
