(* ===== verification/Json_Lex.thy ===== *)
theory Json_Lex
  imports Json_Spec
begin

text \<open>
  Strings, numbers and literals: what the parser reads is a text of the grammar, and it reads every
  such text to its end.
\<close>

section \<open>Characters\<close>

lemma ch_codes:
  "ch CHR ''0'' = 48" "ch CHR ''1'' = 49" "ch CHR ''9'' = 57" "ch CHR ''a'' = 97" "ch CHR ''f'' = 102" "ch CHR ''A'' = 65"
  "ch CHR ''F'' = 70" "ch CHR ''.'' = 46" "ch CHR ''-'' = 45" "ch CHR ''+'' = 43" "ch CHR ''e'' = 101" "ch CHR ''E'' = 69"
  "ch CHR ''b'' = 98" "ch CHR ''n'' = 110" "ch CHR ''r'' = 114" "ch CHR ''t'' = 116" "ch CHR ''u'' = 117" "ch CHR ''/'' = 47"
  "ch CHR ''l'' = 108" "ch CHR ''s'' = 115" "ch CHR '','' = 44" "ch CHR '':'' = 58" "ch CHR ''['' = 91" "ch CHR '']'' = 93"
  "ch CHR ''{'' = 123" "ch CHR ''}'' = 125" "quote = 34" "backslash = 92"
  by (simp_all add: ch_def quote_def backslash_def)

lemma quote_not_backslash [simp]: "quote \<noteq> backslash" "backslash \<noteq> quote" "quote \<noteq> 0" "backslash \<noteq> 0"
  by (simp_all add: quote_def backslash_def)

lemma at_consumes: "at inp p P \<Longrightarrow> \<exists>c. P c \<and> consumes inp p [c] (p + 1)"
  by (auto simp: at_def consumes_Cons)

section \<open>Digits and numbers\<close>

lemma digits_sound: "at inp p is_digit \<Longrightarrow> \<exists>t. consumes inp p t (skip_digits inp p) \<and> digits t \<and> stops inp (skip_digits inp p) is_digit"
proof -
  assume a: "at inp p is_digit"
  then have "p \<le> length inp" by (simp add: at_def)
  from digit.skip_sound [OF this] obtain t where t: "consumes inp p t (skip_digits inp p)" "\<forall>c\<in>set t. is_digit c"
    "stops inp (skip_digits inp p) is_digit" by blast
  moreover have "t \<noteq> []" using t(1) skip_digits_gt [OF a] by auto
  ultimately show ?thesis by (auto simp: digits_def)
qed

lemma digits_complete: "consumes inp p t q \<Longrightarrow> digits t \<Longrightarrow> stops inp q is_digit \<Longrightarrow> skip_digits inp p = q \<and> at inp p is_digit"
  using digit.skip_complete [of inp p t q] by (cases t) (auto simp: digits_def at_def consumes_Cons)

lemma int_sound:
  assumes "parse_int inp p = Inr q"
  shows "\<exists>t. consumes inp p t q \<and> int_text t"
proof (cases "at inp p (\<lambda>c. c = ch CHR ''0'')")
  case True
  then have "q = p + 1" "consumes inp p [48] (p + 1)"
    using assms by (auto simp: parse_int_def at_def consumes_Cons ch_codes)
  then show ?thesis by (auto simp: int_text_def)
next
  case False
  then have a: "at inp p (\<lambda>c. 49 \<le> c \<and> c \<le> 57)" "q = skip_digits inp p"
    using assms by (auto simp: parse_int_def fail_def ch_codes split: if_splits)
  then have "at inp p is_digit" using order_trans [of 48 49 "inp ! p"] by (auto simp: at_def is_digit_def)
  from digits_sound [OF this] obtain t where t: "consumes inp p t q" "digits t" using a(2) by blast
  then have "hd t \<noteq> 48" using a(1) by (cases t) (auto simp: digits_def consumes_Cons at_def)
  then show ?thesis using t by (auto simp: int_text_def)
qed

lemma int_complete:
  assumes c: "consumes inp p t q" "int_text t" and stop: "stops inp q is_digit"
  shows "parse_int inp p = Inr q"
proof (cases "t = [48]")
  case True
  then show ?thesis using c(1) by (auto simp: parse_int_def at_def consumes_Cons ch_codes)
next
  case False
  then have t: "digits t" "hd t \<noteq> 48" using c(2) by (auto simp: int_text_def)
  then obtain d ds where d: "t = d # ds" "is_digit d" "d \<noteq> 48" by (cases t) (auto simp: digits_def)
  then have "48 < d" by (simp add: is_digit_def order.strict_iff_order)
  then have "49 \<le> d" using inc_le [of 48 d] by simp
  then show ?thesis using digits_complete [OF c(1) t(1) stop] c(1) d
    by (auto simp: parse_int_def at_def consumes_Cons ch_codes is_digit_def)
qed

lemma frac_sound:
  assumes "parse_frac inp p = Inr q" "p \<le> length inp"
  shows "\<exists>t. consumes inp p t q \<and> frac_text t"
proof (cases "at inp p (\<lambda>c. c = ch CHR ''.'')")
  case True
  then have a: "at inp (p + 1) is_digit" "q = skip_digits inp (p + 1)" using assms(1) by (auto simp: parse_frac_def fail_def split: if_splits)
  from digits_sound [OF a(1)] obtain t where "consumes inp (p + 1) t q" "digits t" using a(2) by blast
  then show ?thesis using True by (intro exI [of _ "ch CHR ''.'' # t"]) (auto simp: frac_text_def consumes_Cons at_def)
next
  case False
  then show ?thesis using assms by (intro exI [of _ "[]"]) (auto simp: parse_frac_def frac_text_def)
qed

lemma frac_complete:
  assumes c: "consumes inp p t q" "frac_text t" and stop: "stops inp q (\<lambda>c. is_digit c \<or> c = ch CHR ''.'')"
  shows "parse_frac inp p = Inr q"
proof (cases t)
  case Nil
  then show ?thesis using c(1) stop by (auto simp: parse_frac_def at_def stops_def)
next
  case (Cons d ds)
  then have d: "d = ch CHR ''.''" "digits ds" using c(2) by (auto simp: frac_text_def)
  have "stops inp q is_digit" using stop by (auto simp: stops_def)
  from digits_complete [OF _ d(2) this, of "p + 1"] show ?thesis
    using c(1) d(1) Cons by (auto simp: parse_frac_def at_def consumes_Cons)
qed

lemma exp_sound:
  assumes "parse_exp inp p = Inr q" "p \<le> length inp"
  shows "\<exists>t. consumes inp p t q \<and> exp_text t"
proof (cases "at inp p (\<lambda>c. c = ch CHR ''e'' \<or> c = ch CHR ''E'')")
  case True
  define r where "r = (if at inp (p + 1) (\<lambda>c. c = ch CHR ''+'' \<or> c = ch CHR ''-'') then p + 2 else p + 1)"
  have a: "at inp r is_digit" "q = skip_digits inp r"
    using True assms(1) by (auto simp: parse_exp_def fail_def r_def Let_def split: if_splits)
  from digits_sound [OF a(1)] obtain ds where ds: "consumes inp r ds q" "digits ds" using a(2) by blast
  obtain sg where sg: "consumes inp (p + 1) sg r" "sg = [] \<or> sg = [ch CHR ''+''] \<or> sg = [ch CHR ''-'']"
  proof (cases "at inp (p + 1) (\<lambda>c. c = ch CHR ''+'' \<or> c = ch CHR ''-'')")
    case sgn: True
    then show thesis using that [of "[inp ! (p + 1)]"] by (auto simp: r_def at_def consumes_Cons)
  next
    case False
    then show thesis using that [of "[]"] True by (auto simp: r_def at_def)
  qed
  have "consumes inp p (inp ! p # sg @ ds) q"
    using True consumes_join [OF sg(1) ds(1)] by (auto simp: consumes_Cons at_def)
  then show ?thesis using True sg(2) ds(2) by (auto simp: exp_text_def at_def)
next
  case False
  then show ?thesis using assms by (intro exI [of _ "[]"]) (auto simp: parse_exp_def exp_text_def)
qed

lemma exp_complete:
  assumes c: "consumes inp p t q" "exp_text t"
    and stop: "stops inp q (\<lambda>c. is_digit c \<or> c = ch CHR ''e'' \<or> c = ch CHR ''E'')"
  shows "parse_exp inp p = Inr q"
proof (cases "t = []")
  case True
  then show ?thesis using c(1) stop by (auto simp: parse_exp_def at_def stops_def)
next
  case False
  then obtain e sg ds where t: "t = e # sg @ ds" "e = ch CHR ''e'' \<or> e = ch CHR ''E''"
    "sg = [] \<or> sg = [ch CHR ''+''] \<or> sg = [ch CHR ''-'']" "digits ds"
    using c(2) by (auto simp: exp_text_def)
  have e: "p < length inp" "inp ! p = e" "consumes inp (p + 1) sg (p + 1 + length sg)" "consumes inp (p + 1 + length sg) ds q"
    using c(1) t(1) consumes_append [of inp "p + 1" sg ds q] by (simp_all add: consumes_Cons)
  have "stops inp q is_digit" using stop by (auto simp: stops_def)
  note ds = digits_complete [OF e(4) t(4) this]
  define r where "r = (if at inp (p + 1) (\<lambda>c. c = ch CHR ''+'' \<or> c = ch CHR ''-'') then p + 2 else p + 1)"
  have "r = p + 1 + length sg"
    using t(3) e(3) ds by (auto simp: r_def at_def consumes_Cons is_digit_def ch_codes)
  moreover have "parse_exp inp p =
      (if \<not> at inp r is_digit then fail ''invalid number (exponent)'' r else Inr (skip_digits inp r))"
    using e(1,2) t(2) by (auto simp: parse_exp_def Let_def at_def r_def)
  ultimately show ?thesis using ds by simp
qed

text \<open>After a number comes a character that cannot belong to it.\<close>

definition number_ends :: "u8 list \<Rightarrow> nat \<Rightarrow> bool" where
  "number_ends inp q \<longleftrightarrow> stops inp q (\<lambda>c. is_digit c \<or> c = ch CHR ''.'' \<or> c = ch CHR ''e'' \<or> c = ch CHR ''E'')"

lemma number_sound:
  assumes "parse_number F inp p = Inr (v, q)" "p \<le> length inp"
  shows "\<exists>t x. consumes inp p t q \<and> number_text t \<and> F t = Some (x, length t) \<and> v = Number x"
proof -
  define a where "a = (if at inp p (\<lambda>c. c = ch CHR ''-'') then p + 1 else p)"
  obtain b c where n: "parse_int inp a = Inr b" "parse_frac inp b = Inr c" "parse_exp inp c = Inr q"
    and f: "\<exists>x n. F (take (q - p) (drop p inp)) = Some (x, n) \<and> p + n = q \<and> v = Number x"
    using assms(1) by (auto simp: parse_number_def Let_def fail_def a_def [symmetric] split: if_splits sum.splits option.splits)
  obtain sg where sg: "consumes inp p sg a" "sg = [] \<or> sg = [ch CHR ''-'']"
  proof (cases "at inp p (\<lambda>c. c = ch CHR ''-'')")
    case True
    then show thesis using that [of "[inp ! p]"] by (auto simp: a_def at_def consumes_Cons)
  next
    case False
    then show thesis using that [of "[]"] assms(2) by (auto simp: a_def)
  qed
  obtain i where i: "consumes inp a i b" "int_text i" using int_sound [OF n(1)] by blast
  obtain fr where fr: "consumes inp b fr c" "frac_text fr" using frac_sound [OF n(2)] consumes_len [OF i(1)] by blast
  obtain ex where ex: "consumes inp c ex q" "exp_text ex" using exp_sound [OF n(3)] consumes_len [OF fr(1)] by blast
  have c: "consumes inp p (sg @ i @ fr @ ex) q"
    using consumes_join [OF sg(1) consumes_join [OF i(1) consumes_join [OF fr(1) ex(1)]]] .
  then have "take (q - p) (drop p inp) = sg @ i @ fr @ ex" "q = p + length (sg @ i @ fr @ ex)" by (auto simp: consumes_def)
  moreover have "number_text (sg @ i @ fr @ ex)" using sg(2) i(2) fr(2) ex(2) unfolding number_text_def by blast
  ultimately show ?thesis using c f by (intro exI [of _ "sg @ i @ fr @ ex"]) auto
qed

lemma number_complete:
  assumes c: "consumes inp p t q" and t: "number_text t" "F t = Some (x, length t)" and ends: "number_ends inp q"
  shows "parse_number F inp p = Inr (Number x, q)"
proof -
  obtain sg i f e where s: "t = sg @ i @ f @ e" "sg = [] \<or> sg = [ch CHR ''-'']" "int_text i" "frac_text f" "exp_text e"
    using t(1) unfolding number_text_def by blast
  define a where "a = (if at inp p (\<lambda>c. c = ch CHR ''-'') then p + 1 else p)"
  define b where "b = p + length sg + length i"
  define d where "d = b + length f"
  have cs: "consumes inp p sg (p + length sg)" "consumes inp (p + length sg) i b" "consumes inp b f d" "consumes inp d e q"
    using c unfolding s(1) consumes_append b_def d_def by (simp_all add: consumes_append add.assoc)
  have first: "i \<noteq> [] \<and> is_digit (hd i)" using s(3) by (cases i) (auto simp: int_text_def digits_def is_digit_def)
  then have "inp ! (p + length sg) = hd i" "p + length sg < length inp" using cs(2) by (cases i; simp add: consumes_Cons)+
  then have a: "a = p + length sg"
    using s(2) cs(1) first by (auto simp: a_def at_def consumes_Cons is_digit_def ch_codes)
  have q: "stops inp q (\<lambda>c. is_digit c \<or> c = ch CHR ''e'' \<or> c = ch CHR ''E'')" using ends by (auto simp: number_ends_def stops_def)
  have d: "stops inp d (\<lambda>c. is_digit c \<or> c = ch CHR ''.'')"
    using s(5) cs(4) ends by (cases e) (auto simp: exp_text_def stops_def number_ends_def consumes_Cons is_digit_def ch_codes)
  have b: "stops inp b is_digit"
    using s(4) cs(3) d by (cases f) (auto simp: frac_text_def stops_def consumes_Cons is_digit_def ch_codes)
  have "take (q - p) (drop p inp) = t" "p + length t = q" using c by (auto simp: consumes_def)
  then show ?thesis
    using int_complete [OF cs(2) s(3) b] frac_complete [OF cs(3) s(4) d] exp_complete [OF cs(4) s(5) q] t(2)
    by (simp add: parse_number_def Let_def a_def [symmetric] a)
qed

section \<open>Literals\<close>

lemma literal_sound: "parse_literal ls v inp p = Inr (w, q) \<Longrightarrow> p \<le> length inp \<Longrightarrow> consumes inp p ls q \<and> w = v"
  by (induction ls v inp p rule: parse_literal.induct) (auto simp: consumes_Cons fail_def split: if_splits)

lemma literal_complete: "consumes inp p ls q \<Longrightarrow> parse_literal ls v inp p = Inr (v, q)"
  by (induction ls v inp p rule: parse_literal.induct) (auto simp: consumes_Cons)

section \<open>Strings\<close>

lemma four: "(\<exists>a b c d. t = [a, b, c, d]) \<longleftrightarrow> length t = 4"
  by (auto simp: length_Suc_conv eval_nat_numeral)

lemma hex_sound:
  assumes "read_hex4 inp p = Inr (cp, q)"
  shows "\<exists>ds. consumes inp p ds q \<and> hex4 ds = Some cp"
proof -
  have len: "q = p + 4" "q \<le> length inp" "\<not> length inp - p < 4" "hex_loop (Suc (Suc (Suc (Suc 0)))) inp 0 p = Inr (cp, q)"
    using assms read_hex4_pos [OF assms] by (auto simp: read_hex4_def fail_def numeral_eq_Suc split: if_splits)
  let ?ds = "[inp ! p, inp ! (p + 1), inp ! (p + 2), inp ! (p + 3)]"
  have "hex4 ?ds = Some cp"
    using len(4) by (auto simp: Let_def fail_def numeral_eq_Suc split: option.splits)
  moreover have "consumes inp p ?ds q" using len(1,2) by (simp add: consumes_Cons numeral_eq_Suc)
  ultimately show ?thesis by blast
qed

lemma hex_complete:
  assumes "consumes inp p ds q" "hex4 ds = Some cp"
  shows "read_hex4 inp p = Inr (cp, q)"
proof -
  obtain a b c d where ds: "ds = [a, b, c, d]" using assms(2) by (cases ds rule: hex4.cases) auto
  then have p: "p + 3 < length inp" "inp ! p = a" "inp ! (p + 1) = b" "inp ! (p + 2) = c" "inp ! (p + 3) = d" "q = p + 4"
    using assms(1) by (auto simp: consumes_Cons numeral_eq_Suc)
  then show ?thesis using assms(2) ds
    by (auto simp: read_hex4_def Let_def numeral_eq_Suc split: option.splits)
qed

text \<open>One \<open>\u\<close> escape, after its two first characters: an ordinary character or a surrogate pair.\<close>

definition unicode_text :: "u8 list \<Rightarrow> u8 list \<Rightarrow> bool" where
  "unicode_text t s \<longleftrightarrow>
     (\<exists>cp. hex4 t = Some cp \<and> \<not> high_surrogate cp \<and> s = encode_utf8 cp) \<or>
     (\<exists>ds es hi lo. t = ds @ backslash # ch CHR ''u'' # es \<and> hex4 ds = Some hi \<and> high_surrogate hi \<and>
        hex4 es = Some lo \<and> low_surrogate lo \<and> s = encode_utf8 (astral hi lo))"

lemma unicode_sound:
  assumes "append_unicode inp p out = Inr (out', q)"
  shows "\<exists>t s. consumes inp p t q \<and> unicode_text t s \<and> out' = out @ s"
proof -
  obtain cp r where r: "read_hex4 inp p = Inr (cp, r)" using assms by (auto simp: append_unicode_def split: sum.splits)
  obtain ds where ds: "consumes inp p ds r" "hex4 ds = Some cp" using hex_sound [OF r] by blast
  show ?thesis
  proof (cases "high_surrogate cp")
    case True
    then obtain lo where lo: "read_hex4 inp (r + 2) = Inr (lo, q)" "low_surrogate lo" "out' = out @ encode_utf8 (astral cp lo)"
      "2 \<le> length inp - r" "inp ! r = backslash" "inp ! (r + 1) = ch CHR ''u''"
      using assms r
      by (auto simp: append_unicode_def fail_def high_surrogate_def low_surrogate_def astral_def split: sum.splits if_splits)
    obtain es where es: "consumes inp (r + 2) es q" "hex4 es = Some lo" using hex_sound [OF lo(1)] by blast
    have "consumes inp r (backslash # ch CHR ''u'' # es) q" using lo(4-6) es(1) by (auto simp: consumes_Cons)
    from consumes_join [OF ds(1) this] show ?thesis
      using ds(2) es(2) lo(2,3) True unfolding unicode_text_def by blast
  next
    case False
    then have "q = r" "out' = out @ encode_utf8 cp" using assms r by (auto simp: append_unicode_def high_surrogate_def)
    then show ?thesis using ds False unfolding unicode_text_def by blast
  qed
qed

lemma unicode_complete:
  assumes c: "consumes inp p t q" and t: "unicode_text t s"
  shows "append_unicode inp p out = Inr (out @ s, q)"
  using t unfolding unicode_text_def
proof (elim disjE exE conjE)
  fix cp assume cp: "hex4 t = Some cp" "\<not> high_surrogate cp" "s = encode_utf8 cp"
  then show ?thesis using hex_complete [OF c cp(1)] by (auto simp: append_unicode_def high_surrogate_def)
next
  fix ds es hi lo
  assume h: "t = ds @ backslash # ch CHR ''u'' # es" "hex4 ds = Some hi" "high_surrogate hi" "hex4 es = Some lo"
    "low_surrogate lo" "s = encode_utf8 (astral hi lo)"
  define r where "r = p + length ds"
  have d: "consumes inp p ds r" "consumes inp r (backslash # ch CHR ''u'' # es) q"
    using c unfolding h(1) r_def consumes_append [of inp p ds] by blast+
  then have e: "inp ! r = backslash" "inp ! (r + 1) = ch CHR ''u''" "2 \<le> length inp - r" "consumes inp (r + 2) es q"
    by (auto simp: consumes_Cons)
  show ?thesis
    using hex_complete [OF d(1) h(2)] hex_complete [OF e(4) h(4)] e(1-3) h(3,5,6)
    by (simp add: append_unicode_def high_surrogate_def low_surrogate_def astral_def)
qed

text \<open>The loop over a string, one character at a time.\<close>

lemma scan_here:
  assumes "p < length inp" "inp ! p = quote \<or> inp ! p = backslash"
  shows "scan_to_string_special False inp p = (inp ! p, p)"
proof -
  have "scan_scalar inp p = p" using assms by (subst scan_scalar.simps) auto
  then show ?thesis using assms(1) by (simp add: scan_to_string_special_def)
qed

lemma string_loop_plain:
  assumes p: "p < length inp" "inp ! p \<noteq> quote" "inp ! p \<noteq> backslash"
  shows "string_loop False inp p out = string_loop False inp (p + 1) (out @ [inp ! p])"
proof -
  have e: "scan_scalar inp p = scan_scalar inp (p + 1)" using p by (subst scan_scalar.simps) simp
  have ge: "p + 1 \<le> scan_scalar inp (p + 1)" by (rule scan_scalar_ge)
  then have d: "take (scan_scalar inp (p + 1) - p) (drop p inp) = inp ! p # take (scan_scalar inp (p + 1) - (p + 1)) (drop (p + 1) inp)"
    using Cons_nth_drop_Suc [OF p(1)] by (metis Suc_diff_le Suc_eq_plus1 diff_Suc_Suc take_Suc_Cons)
  show ?thesis
    by (subst (1 2) string_loop.simps) (simp add: scan_to_string_special_def e Let_def d [simplified] cong: option.case_cong)
qed

lemma string_loop_end:
  "\<not> p < length inp \<Longrightarrow> string_loop False inp p out \<noteq> Inr r"
  "p < length inp \<Longrightarrow> inp ! p = quote \<Longrightarrow> string_loop False inp p out = Inr (out, p + 1)"
proof -
  assume "\<not> p < length inp"
  moreover then have "scan_scalar inp p = p" by (subst scan_scalar.simps) simp
  ultimately show "string_loop False inp p out \<noteq> Inr r"
    by (subst string_loop.simps) (simp add: scan_to_string_special_def fail_def)
next
  assume "p < length inp" "inp ! p = quote"
  then show "string_loop False inp p out = Inr (out, p + 1)"
    by (subst string_loop.simps) (simp add: scan_here)
qed

lemma string_loop_escape:
  assumes "p < length inp" "inp ! p = backslash"
  shows "string_loop False inp p out =
    (if p + 1 \<ge> length inp then fail ''unterminated escape'' (p + 1)
     else case simple_escape (inp ! (p + 1)) of
       Some c \<Rightarrow> string_loop False inp (p + 2) (out @ [c])
     | None \<Rightarrow> if inp ! (p + 1) = ch CHR ''u'' then
           (case append_unicode inp (p + 2) out of Inl err \<Rightarrow> Inl err | Inr (out, q) \<Rightarrow> string_loop False inp q out)
         else fail ''invalid escape'' (p + 2))"
  using assms by (subst string_loop.simps) (simp add: scan_here Let_def cong: option.case_cong)

lemma string_sound:
  "string_loop False inp p out = Inr (s, q) \<Longrightarrow> \<exists>t u. consumes inp p (t @ [quote]) q \<and> str_body Lenient t u \<and> s = out @ u"
proof (induction "length inp - p" arbitrary: p out rule: less_induct)
  case less
  have p: "p < length inp" using less.prems string_loop_end(1) by blast
  consider (close) "inp ! p = quote" | (esc) "inp ! p = backslash" | (plain) "inp ! p \<noteq> quote" "inp ! p \<noteq> backslash" by blast
  then show ?case
  proof cases
    case close
    then have "s = out" "q = p + 1" using less.prems string_loop_end(2) [OF p] by auto
    then show ?thesis using p close by (intro exI [of _ "[]"]) (auto simp: consumes_Cons str_body.empty)
  next
    case plain
    have "length inp - (p + 1) < length inp - p" using p by linarith
    from less.hyps [OF this less.prems [unfolded string_loop_plain [OF p plain]]]
    obtain t u where t: "consumes inp (p + 1) (t @ [quote]) q" "str_body Lenient t u" "s = (out @ [inp ! p]) @ u" by blast
    then show ?thesis using p lenient_plain [OF plain t(2)]
      by (intro exI [of _ "inp ! p # t"] exI [of _ "inp ! p # u"]) (simp add: consumes_Cons)
  next
    case esc
    note run = less.prems [unfolded string_loop_escape [OF p esc]]
    have p1: "p + 1 < length inp" using run by (auto simp: fail_def split: if_splits)
    show ?thesis
    proof (cases "simple_escape (inp ! (p + 1))")
      case (Some c)
      have "length inp - (p + 2) < length inp - p" using p by linarith
      moreover have "string_loop False inp (p + 2) (out @ [c]) = Inr (s, q)" using run p1 Some by simp
      ultimately obtain t u where t: "consumes inp (p + 2) (t @ [quote]) q" "str_body Lenient t u" "s = (out @ [c]) @ u"
        using less.hyps by blast
      then show ?thesis using p p1 esc str_body.escape [OF Some t(2)]
        by (intro exI [of _ "backslash # inp ! (p + 1) # t"] exI [of _ "c # u"]) (simp add: consumes_Cons)
    next
      case None
      then obtain out' r where r: "inp ! (p + 1) = ch CHR ''u''" "append_unicode inp (p + 2) out = Inr (out', r)"
        "string_loop False inp r out' = Inr (s, q)"
        using run p1 by (auto simp: fail_def split: if_splits sum.splits)
      obtain d v where d: "consumes inp (p + 2) d r" "unicode_text d v" "out' = out @ v" using unicode_sound [OF r(2)] by blast
      have "length inp - r < length inp - p" using consumes_len [OF d(1)] p by linarith
      from less.hyps [OF this r(3)] obtain t u where t: "consumes inp r (t @ [quote]) q" "str_body Lenient t u" "s = out' @ u" by blast
      have c: "consumes inp p ((backslash # ch CHR ''u'' # d @ t) @ [quote]) q"
        using p p1 esc r(1) consumes_join [OF d(1) t(1)] by (simp add: consumes_Cons)
      have "str_body Lenient (backslash # ch CHR ''u'' # d @ t) (v @ u)"
        using d(2) t(2) lenient_unicode str_body.pair unfolding unicode_text_def by fastforce
      then show ?thesis using c d(3) t(3) by (intro exI [of _ "backslash # ch CHR ''u'' # d @ t"] exI [of _ "v @ u"]) simp
    qed
  qed
qed

lemma unicode_step:
  assumes c: "consumes inp p (backslash # ch CHR ''u'' # d @ t @ [quote]) q" and d: "unicode_text d v"
  shows "string_loop False inp p out = string_loop False inp (p + 2 + length d) (out @ v) \<and>
    consumes inp (p + 2 + length d) (t @ [quote]) q"
proof -
  have p: "p < length inp" "inp ! p = backslash" "p + 1 < length inp" "inp ! (p + 1) = ch CHR ''u''"
    "consumes inp (p + 2) (d @ t @ [quote]) q" using c by (auto simp: consumes_Cons)
  have "consumes inp (p + 2) d (p + 2 + length d)" "consumes inp (p + 2 + length d) (t @ [quote]) q"
    using p(5) consumes_append [of inp "p + 2" d "t @ [quote]" q] by blast+
  moreover have "simple_escape (ch CHR ''u'') = None" by (simp add: simple_escape_def ch_codes)
  ultimately show ?thesis
    using unicode_complete [OF _ d, of inp "p + 2" "p + 2 + length d" out] p by (simp add: string_loop_escape)
qed

lemma string_complete:
  "str_body Lenient t s \<Longrightarrow> consumes inp p (t @ [quote]) q \<Longrightarrow> string_loop False inp p out = Inr (out @ s, q)"
proof (induction arbitrary: p out rule: str_body.induct)
  case empty
  then show ?case using string_loop_end(2) [of p inp out] by (auto simp: consumes_Cons)
next
  case (plain c t s)
  then have p: "p < length inp" "inp ! p = c" "consumes inp (p + 1) (t @ [quote]) q" by (auto simp: consumes_Cons)
  then show ?case using plain.IH [OF p(3)] string_loop_plain [of p inp out] plain.hyps by simp
next
  case (escape e c t s)
  then have p: "p < length inp" "inp ! p = backslash" "p + 1 < length inp" "inp ! (p + 1) = e" "consumes inp (p + 2) (t @ [quote]) q"
    by (auto simp: consumes_Cons)
  then show ?case using escape.IH [OF p(5)] string_loop_escape [OF p(1,2)] escape.hyps by simp
next
  case (unicode ds cp t s)
  have "unicode_text ds (encode_utf8 cp)" using unicode.hyps unfolding unicode_text_def by blast
  from unicode_step [OF _ this, of inp p t q out] unicode.IH unicode.prems show ?case by simp
next
  case (pair ds hi es lo t s)
  have "unicode_text (ds @ backslash # ch CHR ''u'' # es) (encode_utf8 (astral hi lo))"
    using pair.hyps unfolding unicode_text_def by blast
  from unicode_step [OF _ this, of inp p t q out] pair.IH pair.prems show ?case by simp
qed

end
