(* ===== verification/Json_Proof.thy ===== *)
theory Json_Proof
  imports Json_Lex
begin

text \<open>
  The parser accepts exactly the documents of the lenient grammar, with the values they stand for; its errors;
  the UTF-8 it produces.
\<close>

section \<open>Values\<close>

lemma space_sound:
  assumes "p \<le> length inp"
  shows "\<exists>w. consumes inp p w (skip_ws simd inp p) \<and> ws_text w \<and> stops inp (skip_ws simd inp p) is_ws"
  using space.skip_sound [OF assms] by (auto simp: skip_ws_simd ws_text_def)

lemma space_complete: "consumes inp p w q \<Longrightarrow> ws_text w \<Longrightarrow> stops inp q is_ws \<Longrightarrow> skip_ws simd inp p = q"
  using space.skip_complete [of inp p w q] by (simp add: skip_ws_simd ws_text_def)

lemma space_again: "skip_ws simd inp (skip_ws simd inp p) = skip_ws simd inp p"
  by (simp add: skip_ws_simd space.skip_again)

lemma key_sound:
  assumes "parse_key simd inp p = Inr (key, q)" "p \<le> length inp"
  shows "\<exists>a k b. consumes inp p (a @ quote # k @ quote # b @ [ch CHR '':'']) q \<and> ws_text a \<and> str_body Lenient k key \<and> ws_text b"
proof -
  define r where "r = skip_ws False inp p"
  obtain s where s: "at inp r (\<lambda>c. c = quote)" "parse_string False inp r = Inr (key, s)"
    "at inp (skip_ws False inp s) (\<lambda>c. c = ch CHR '':'')" "q = skip_ws False inp s + 1"
    using assms(1) unfolding parse_key_simd [of simd] by (auto simp: parse_key_def r_def [symmetric] Let_def fail_def split: if_splits sum.splits)
  obtain a where a: "consumes inp p a r" "ws_text a" using space_sound [OF assms(2), of False] r_def by blast
  obtain k where k: "consumes inp (r + 1) (k @ [quote]) s" "str_body Lenient k key"
    using s(2) string_sound [of inp "r + 1" "[]" key s] by (auto simp: parse_string_def)
  obtain b where b: "consumes inp s b (skip_ws False inp s)" "ws_text b"
    using space_sound [of s inp False] consumes_len [OF k(1)] by blast
  have "consumes inp r (quote # k @ [quote]) s" using s(1) k(1) by (auto simp: at_def consumes_Cons)
  moreover have "consumes inp (skip_ws False inp s) [ch CHR '':''] q" using s(3,4) by (auto simp: at_def consumes_Cons)
  ultimately have "consumes inp p (a @ (quote # k @ [quote]) @ b @ [ch CHR '':'']) q"
    using a(1) b(1) consumes_join by blast
  then show ?thesis using a(2) k(2) b(2) by auto
qed

lemma not_ws_chars: "\<not> is_ws quote" "\<not> is_ws (ch CHR '':'')" "\<not> is_ws (ch CHR '','')" "\<not> is_ws (ch CHR '']'')" "\<not> is_ws (ch CHR ''}'')"
  by (simp_all add: is_ws_def ch_codes)

lemma key_complete:
  assumes c: "consumes inp p (a @ quote # k @ quote # b @ [ch CHR '':'']) q" and a: "ws_text a" and k: "str_body Lenient k key" and b: "ws_text b"
  shows "parse_key False inp p = Inr (key, q)"
proof -
  define r where "r = p + length a"
  define s where "s = r + 1 + length (k @ [quote])"
  define u where "u = s + length b"
  have c1: "consumes inp p a r" "consumes inp r (quote # (k @ [quote]) @ b @ [ch CHR '':'']) q"
    using c unfolding r_def consumes_append [of inp p a] by simp_all
  then have c2: "consumes inp (r + 1) (k @ [quote]) s" "consumes inp s (b @ [ch CHR '':'']) q"
    unfolding s_def consumes_Cons consumes_append [of inp "r + 1" "k @ [quote]"] by blast+
  have c3: "consumes inp s b u" "consumes inp u [ch CHR '':''] q"
    using c2(2) unfolding u_def consumes_append [of inp s b] by blast+
  have "skip_ws False inp p = r"
    by (rule space_complete [OF c1(1) a]) (use c1(2) not_ws_chars in \<open>auto simp: stops_def consumes_Cons\<close>)
  moreover have "parse_string False inp r = Inr (key, s)"
    using string_complete [OF k c2(1), of "[]"] by (simp add: parse_string_def)
  moreover have "skip_ws False inp s = u"
    by (rule space_complete [OF c3(1) b]) (use c3(2) not_ws_chars in \<open>auto simp: stops_def consumes_Cons\<close>)
  ultimately show ?thesis using c1(2) c3(2) by (auto simp: parse_key_def Let_def at_def consumes_Cons)
qed

text \<open>Soundness: what the parser has read is a text of the grammar.\<close>

lemma ws_text_append [simp]: "ws_text (a @ b) \<longleftrightarrow> ws_text a \<and> ws_text b"
  by (auto simp: ws_text_def)

lemma elements_ws:
  assumes "ws_text a" "elements_text Lenient F t vs"
  shows "elements_text Lenient F (a @ t) vs"
  using assms(2)
proof (cases rule: elements_text.cases)
  case (last_element b u v c)
  then show ?thesis using json_text_elements_text_members_text.last_element [of "a @ b" Lenient F u v c] assms(1) by simp
next
  case (element b u v c r ws)
  then show ?thesis using json_text_elements_text_members_text.element [of "a @ b" Lenient F u v c r ws] assms(1) by simp
qed

lemma members_ws:
  assumes "ws_text a" "members_text Lenient F t kvs"
  shows "members_text Lenient F (a @ t) kvs"
  using assms(2)
proof (cases rule: members_text.cases)
  case (last_member b k key c d u v e)
  then show ?thesis using json_text_elements_text_members_text.last_member [of "a @ b" Lenient k key c d F u v e] assms(1) by simp
next
  case (member b k key c d u v e r kvs')
  then show ?thesis using json_text_elements_text_members_text.member [of "a @ b" Lenient k key c d F u v e r kvs'] assms(1) by simp
qed

lemma array_sound:
  assumes run: "parse_array loop simd inp p = Inr (v, q)" and p: "p < length inp" "inp ! p = ch CHR ''[''"
    and loop: "\<And>r. p < r \<Longrightarrow> r \<le> length inp \<Longrightarrow> loop r = Inr (v, q) \<Longrightarrow>
      \<exists>t vs. consumes inp r (t @ [ch CHR '']'']) q \<and> elements_text Lenient F t vs \<and> v = Array vs"
  shows "\<exists>t. consumes inp p t q \<and> json_text Lenient F t v"
proof -
  define r where "r = skip_ws simd inp (p + 1)"
  obtain w where w: "consumes inp (p + 1) w r" "ws_text w" using space_sound [of "p + 1" inp simd] p(1) r_def by auto
  note wr = consumes_len [OF w(1)]
  show ?thesis
  proof (cases "at inp r (\<lambda>c. c = ch CHR '']'')")
    case True
    then have q: "v = Array []" "consumes inp r [ch CHR '']''] q"
      using run by (auto simp: parse_array_def r_def [symmetric, simplified] Let_def at_def consumes_Cons)
    have "consumes inp p (ch CHR ''['' # w @ [ch CHR '']'']) q"
      using p consumes_join [OF w(1) q(2)] by (simp add: consumes_Cons)
    then show ?thesis using q(1) json_text_elements_text_members_text.no_elements [OF w(2)] by blast
  next
    case False
    then have "loop r = Inr (v, q)" using run by (simp add: parse_array_def r_def [symmetric, simplified] Let_def)
    then obtain t vs where t: "consumes inp r (t @ [ch CHR '']'']) q" "elements_text Lenient F t vs" "v = Array vs"
      using loop [of r] wr by auto
    have "consumes inp p (ch CHR ''['' # (w @ t) @ [ch CHR '']'']) q"
      using p consumes_join [OF w(1) t(1)] by (simp add: consumes_Cons)
    then show ?thesis using t(3) json_text_elements_text_members_text.array [OF elements_ws [OF w(2) t(2)]] by blast
  qed
qed

lemma object_sound:
  assumes run: "parse_object loop simd inp p = Inr (v, q)" and p: "p < length inp" "inp ! p = ch CHR ''{''"
    and loop: "\<And>r. p < r \<Longrightarrow> r \<le> length inp \<Longrightarrow> loop r = Inr (v, q) \<Longrightarrow>
      \<exists>t vs. consumes inp r (t @ [ch CHR ''}'']) q \<and> members_text Lenient F t vs \<and> v = Object vs"
  shows "\<exists>t. consumes inp p t q \<and> json_text Lenient F t v"
proof -
  define r where "r = skip_ws simd inp (p + 1)"
  obtain w where w: "consumes inp (p + 1) w r" "ws_text w" using space_sound [of "p + 1" inp simd] p(1) r_def by auto
  note wr = consumes_len [OF w(1)]
  show ?thesis
  proof (cases "at inp r (\<lambda>c. c = ch CHR ''}'')")
    case True
    then have q: "v = Object []" "consumes inp r [ch CHR ''}''] q"
      using run by (auto simp: parse_object_def r_def [symmetric, simplified] Let_def at_def consumes_Cons)
    have "consumes inp p (ch CHR ''{'' # w @ [ch CHR ''}'']) q"
      using p consumes_join [OF w(1) q(2)] by (simp add: consumes_Cons)
    then show ?thesis using q(1) json_text_elements_text_members_text.no_members [OF w(2)] by blast
  next
    case False
    then have "loop r = Inr (v, q)" using run by (simp add: parse_object_def r_def [symmetric, simplified] Let_def)
    then obtain t vs where t: "consumes inp r (t @ [ch CHR ''}'']) q" "members_text Lenient F t vs" "v = Object vs"
      using loop [of r] wr by auto
    have "consumes inp p (ch CHR ''{'' # (w @ t) @ [ch CHR ''}'']) q"
      using p consumes_join [OF w(1) t(1)] by (simp add: consumes_Cons)
    then show ?thesis using t(3) json_text_elements_text_members_text.object [OF members_ws [OF w(2) t(2)]] by blast
  qed
qed

lemma value_sound:
  "parse_value F simd inp p = Inr (v, q) \<Longrightarrow> p \<le> length inp \<Longrightarrow> \<exists>t. consumes inp p t q \<and> json_text Lenient F t v"
  "array_loop F simd inp p vs = Inr (v, q) \<Longrightarrow> p \<le> length inp \<Longrightarrow>
     \<exists>t ws. consumes inp p (t @ [ch CHR '']'']) q \<and> elements_text Lenient F t ws \<and> v = Array (vs @ ws)"
  "object_loop F simd inp p kvs = Inr (v, q) \<Longrightarrow> p \<le> length inp \<Longrightarrow>
     \<exists>t ws. consumes inp p (t @ [ch CHR ''}'']) q \<and> members_text Lenient F t ws \<and> v = Object (kvs @ ws)"
proof (induction F simd inp p and F simd inp p vs and F simd inp p kvs arbitrary: v q and v q and v q
    rule: parse_value_array_loop_object_loop.induct)
  case (1 F simd inp p)
  note ih = 1(1,2)
  have p: "p < length inp" using 1(3) by (subst (asm) parse_value.simps) (auto simp: fail_def split: if_splits)
  note run = 1(3) [unfolded parse_value.simps [of F simd inp p] Let_def]
  consider (obj) "inp ! p = ch CHR ''{''" | (arr) "inp ! p = ch CHR ''[''" "inp ! p \<noteq> ch CHR ''{''"
    | (str) "inp ! p = quote" "inp ! p \<noteq> ch CHR ''[''" "inp ! p \<noteq> ch CHR ''{''"
    | (other) "inp ! p \<noteq> quote" "inp ! p \<noteq> ch CHR ''[''" "inp ! p \<noteq> ch CHR ''{''" by blast
  then show ?case
  proof cases
    case obj
    show ?thesis
      by (rule object_sound [OF _ p obj]) (use run obj p ih(1) in auto)
  next
    case arr
    show ?thesis
      by (rule array_sound [OF _ p arr(1)]) (use run arr p ih(2) in auto)
  next
    case str
    then obtain t where t: "string_loop False inp (p + 1) [] = Inr (t, q)" "v = String t"
      using run p by (auto simp: parse_string_def string_loop_simd [of simd] split: sum.splits)
    obtain u where "consumes inp (p + 1) (u @ [quote]) q" "str_body Lenient u t" using string_sound [OF t(1)] by auto
    then show ?thesis using str(1) p t(2) json_text_elements_text_members_text.string
      by (intro exI [of _ "quote # u @ [quote]"]) (auto simp: consumes_Cons)
  next
    case other
    then consider "parse_literal (map ch ''true'') (Bool True) inp p = Inr (v, q)"
      | "parse_literal (map ch ''false'') (Bool False) inp p = Inr (v, q)"
      | "parse_literal (map ch ''null'') Null inp p = Inr (v, q)" | "parse_number F inp p = Inr (v, q)"
      using run p by (simp split: if_splits)
    then show ?thesis
    proof cases
      case 1
      from literal_sound [OF this] p show ?thesis using json_text_elements_text_members_text.true by fastforce
    next
      case 2
      from literal_sound [OF this] p show ?thesis using json_text_elements_text_members_text.false by fastforce
    next
      case 3
      from literal_sound [OF this] p show ?thesis using json_text_elements_text_members_text.null by fastforce
    next
      case 4
      from number_sound [OF this] p show ?thesis using json_text_elements_text_members_text.number by fastforce
    qed
  qed
next
  case (2 F simd inp p vs)
  obtain a where a: "consumes inp p a (skip_ws simd inp p)" "ws_text a" using space_sound [OF 2(4)] by blast
  obtain w r where w: "parse_value F simd inp (skip_ws simd inp p) = Inr (w, r)"
    using 2(3) by (subst (asm) array_loop.simps) (auto split: sum.splits)
  obtain t where t: "consumes inp (skip_ws simd inp p) t r" "json_text Lenient F t w"
    using 2(1) [OF w] consumes_len [OF a(1)] by blast
  obtain b where b: "consumes inp r b (skip_ws simd inp r)" "ws_text b"
    using space_sound [of r inp simd] consumes_len [OF t(1)] by blast
  let ?s = "skip_ws simd inp r"
  have c: "consumes inp p (a @ t @ b) ?s" using consumes_join [OF a(1) consumes_join [OF t(1) b(1)]] .
  consider (more) "?s < length inp" "inp ! ?s = ch CHR '',''" "array_loop F simd inp (?s + 1) (vs @ [w]) = Inr (v, q)"
    | (last) "?s < length inp" "inp ! ?s = ch CHR '']''" "v = Array (vs @ [w])" "q = ?s + 1"
    using 2(3) w by (subst (asm) array_loop.simps) (auto simp: Let_def fail_def split: if_splits)
  then show ?case
  proof cases
    case more
    then obtain u ws where u: "consumes inp (?s + 1) (u @ [ch CHR '']'']) q" "elements_text Lenient F u ws" "v = Array ((vs @ [w]) @ ws)"
      using 2(2) [OF w refl refl refl] by auto
    have "consumes inp ?s (ch CHR '','' # u @ [ch CHR '']'']) q" using more u(1) by (simp add: consumes_Cons)
    from consumes_join [OF c this] have "consumes inp p ((a @ t @ b @ ch CHR '','' # u) @ [ch CHR '']'']) q" by simp
    then show ?thesis using json_text_elements_text_members_text.element [OF a(2) t(2) b(2) u(2)] u(3)
      by (intro exI [of _ "a @ t @ b @ ch CHR '','' # u"] exI [of _ "w # ws"]) simp
  next
    case last
    then have "consumes inp ?s [ch CHR '']''] q" by (simp add: consumes_Cons)
    from consumes_join [OF c this] show ?thesis
      using json_text_elements_text_members_text.last_element [OF a(2) t(2) b(2)] last(3)
      by (intro exI [of _ "a @ t @ b"] exI [of _ "[w]"]) simp
  qed
next
  case (3 F simd inp p kvs)
  obtain key k where k: "parse_key simd inp p = Inr (key, k)"
    using 3(3) by (subst (asm) object_loop.simps) (auto split: sum.splits)
  obtain a kt b where kt: "consumes inp p (a @ quote # kt @ quote # b @ [ch CHR '':'']) k" "ws_text a" "str_body Lenient kt key" "ws_text b"
    using key_sound [OF k 3(4)] by blast
  obtain c where c: "consumes inp k c (skip_ws simd inp k)" "ws_text c"
    using space_sound [of k inp simd] consumes_len [OF kt(1)] by blast
  obtain w r where w: "parse_value F simd inp (skip_ws simd inp k) = Inr (w, r)"
    using 3(3) k by (subst (asm) object_loop.simps) (auto split: sum.splits)
  obtain t where t: "consumes inp (skip_ws simd inp k) t r" "json_text Lenient F t w"
    using 3(1) [OF k refl w] consumes_len [OF c(1)] by blast
  obtain d where d: "consumes inp r d (skip_ws simd inp r)" "ws_text d"
    using space_sound [of r inp simd] consumes_len [OF t(1)] by blast
  let ?s = "skip_ws simd inp r"
  have pre: "consumes inp p ((a @ quote # kt @ quote # b @ [ch CHR '':'']) @ c @ t @ d) ?s"
    using consumes_join [OF kt(1) consumes_join [OF c(1) consumes_join [OF t(1) d(1)]]] .
  consider (more) "?s < length inp" "inp ! ?s = ch CHR '',''" "object_loop F simd inp (?s + 1) (kvs @ [(key, w)]) = Inr (v, q)"
    | (last) "?s < length inp" "inp ! ?s = ch CHR ''}''" "v = Object (kvs @ [(key, w)])" "q = ?s + 1"
    using 3(3) k w by (subst (asm) object_loop.simps) (auto simp: Let_def fail_def split: if_splits)
  then show ?case
  proof cases
    case more
    then obtain u ws where u: "consumes inp (?s + 1) (u @ [ch CHR ''}'']) q" "members_text Lenient F u ws" "v = Object ((kvs @ [(key, w)]) @ ws)"
      using 3(2) [OF k refl w refl refl refl] by auto
    have "consumes inp ?s (ch CHR '','' # u @ [ch CHR ''}'']) q" using more u(1) by (simp add: consumes_Cons)
    from consumes_join [OF pre this] show ?thesis
      using json_text_elements_text_members_text.member [OF kt(2-4) c(2) t(2) d(2) u(2)] u(3)
      by (intro exI [of _ "a @ quote # kt @ quote # b @ ch CHR '':'' # c @ t @ d @ ch CHR '','' # u"] exI [of _ "(key, w) # ws"]) simp
  next
    case last
    then have "consumes inp ?s [ch CHR ''}''] q" by (simp add: consumes_Cons)
    from consumes_join [OF pre this] show ?thesis
      using json_text_elements_text_members_text.last_member [OF kt(2-4) c(2) t(2) d(2)] last(3)
      by (intro exI [of _ "a @ quote # kt @ quote # b @ ch CHR '':'' # c @ t @ d"] exI [of _ "[(key, w)]"]) simp
  qed
qed

text \<open>Completeness: every text of the grammar is read to its end, unless a number goes on after it.\<close>

lemma number_start:
  assumes "number_text t"
  shows "\<exists>c r. t = c # r \<and> (c = ch CHR ''-'' \<or> is_digit c)"
proof -
  obtain sg i f e where t: "t = sg @ i @ f @ e" "sg = [] \<or> sg = [ch CHR ''-'']" "int_text i"
    using assms unfolding number_text_def by blast
  then show ?thesis by (cases i) (auto simp: int_text_def digits_def is_digit_def)
qed

definition value_start :: "u8 \<Rightarrow> bool" where
  "value_start c \<longleftrightarrow> \<not> is_ws c \<and> c \<noteq> ch CHR '']'' \<and> c \<noteq> ch CHR ''}''"

lemma json_start: "json_text Lenient F t v \<Longrightarrow> \<exists>c r. t = c # r \<and> value_start c"
proof (induction rule: json_text.cases)
  case (number t x)
  then show ?case using number_start [of t] by (auto simp: value_start_def is_ws_def is_digit_def ch_codes)
qed (auto simp: value_start_def is_ws_def ch_codes)

lemma ends_after:
  "stops inp q (\<lambda>c. \<not> (is_ws c \<or> c = ch CHR '','' \<or> c = ch CHR '']'' \<or> c = ch CHR ''}'')) \<Longrightarrow> number_ends inp q"
  by (auto simp: stops_def number_ends_def is_ws_def is_digit_def ch_codes)

text \<open>The value inside of an element or member, with the white space around it.\<close>

lemma value_with_space:
  assumes c: "consumes inp p (a @ t @ b @ [d]) q" and a: "ws_text a" and t: "json_text Lenient F t v" and b: "ws_text b"
    and d: "d = ch CHR '','' \<or> d = ch CHR '']'' \<or> d = ch CHR ''}''"
    and ih: "\<And>r s. consumes inp r t s \<Longrightarrow> number_ends inp s \<Longrightarrow> parse_value F False inp r = Inr (v, s)"
  shows "\<exists>r. parse_value F False inp (skip_ws False inp p) = Inr (v, r) \<and> skip_ws False inp r + 1 = q \<and>
    skip_ws False inp r < length inp \<and> inp ! skip_ws False inp r = d"
proof -
  define r where "r = p + length a"
  define s where "s = r + length t"
  define u where "u = s + length b"
  have cs: "consumes inp p a r" "consumes inp r t s" "consumes inp s b u" "consumes inp u [d] q"
    using c unfolding r_def s_def u_def consumes_append [of inp p a] consumes_append [of inp "p + length a" t]
      consumes_append [of inp "p + length a + length t" b] by blast+
  obtain x ts where x: "t = x # ts" "value_start x" using json_start [OF t] by blast
  have "stops inp r is_ws" using cs(2) x by (auto simp: stops_def consumes_Cons value_start_def)
  from space_complete [OF cs(1) a this, of False] have p: "skip_ws False inp p = r" .
  have u: "u < length inp" "inp ! u = d" "q = u + 1" using cs(4) by (auto simp: consumes_Cons)
  have "stops inp u is_ws" using u d not_ws_chars by (auto simp: stops_def)
  from space_complete [OF cs(3) b this, of False] have su: "skip_ws False inp s = u" .
  have "number_ends inp s"
  proof (rule ends_after)
    show "stops inp s (\<lambda>c. \<not> (is_ws c \<or> c = ch CHR '','' \<or> c = ch CHR '']'' \<or> c = ch CHR ''}''))"
      using cs(3) b u d by (cases b) (auto simp: stops_def consumes_Cons ws_text_def)
  qed
  from ih [OF cs(2) this] show ?thesis using p su u by simp
qed

lemma array_loop_again: "array_loop F False inp (skip_ws False inp p) vs = array_loop F False inp p vs"
  by (subst (1 2) array_loop.simps) (simp add: space_again)

lemma object_loop_again: "object_loop F False inp (skip_ws False inp p) kvs = object_loop F False inp p kvs"
proof -
  have "parse_key False inp (skip_ws False inp p) = parse_key False inp p" by (simp add: parse_key_def space_again)
  then show ?thesis by (subst (1 2) object_loop.simps) simp
qed

lemma dispatch:
  "p < length inp \<Longrightarrow> inp ! p = ch CHR ''['' \<Longrightarrow> parse_value F False inp p = parse_array (\<lambda>q. array_loop F False inp q []) False inp p"
  "p < length inp \<Longrightarrow> inp ! p = ch CHR ''{'' \<Longrightarrow> parse_value F False inp p = parse_object (\<lambda>q. object_loop F False inp q []) False inp p"
  by (subst parse_value.simps, simp add: Let_def ch_codes)+

text \<open>The space before the first element or member: then comes no closing bracket.\<close>

lemma first_element:
  assumes "elements_text Lenient F t vs"
  shows "\<exists>a c r. t = a @ c # r \<and> ws_text a \<and> value_start c"
  using assms
proof (cases rule: elements_text.cases)
  case (last_element a u v b)
  then show ?thesis using json_start [of F u v] by fastforce
next
  case (element a u v b r ws)
  then show ?thesis using json_start [of F u v] by fastforce
qed

lemma first_member:
  assumes "members_text Lenient F t kvs"
  shows "\<exists>a c r. t = a @ c # r \<and> ws_text a \<and> value_start c"
  using assms
  by (cases rule: members_text.cases) (fastforce simp: value_start_def is_ws_def ch_codes)+

lemma skip_to_first:
  assumes c: "consumes inp p (t @ [d]) q" and t: "t = a @ x # r" "ws_text a" "value_start x"
  shows "\<not> at inp (skip_ws False inp p) (\<lambda>c. c = ch CHR '']'')" "\<not> at inp (skip_ws False inp p) (\<lambda>c. c = ch CHR ''}'')"
proof -
  have cs: "consumes inp p a (p + length a)" "consumes inp (p + length a) (x # r @ [d]) q"
    using c consumes_append [of inp p a "x # r @ [d]" q] by (simp_all add: t(1))
  have "stops inp (p + length a) is_ws" using cs(2) t(3) by (auto simp: stops_def consumes_Cons value_start_def)
  from space_complete [OF cs(1) t(2) this, of False] have "skip_ws False inp p = p + length a" .
  then show "\<not> at inp (skip_ws False inp p) (\<lambda>c. c = ch CHR '']'')" "\<not> at inp (skip_ws False inp p) (\<lambda>c. c = ch CHR ''}'')"
    using cs(2) t(3) by (auto simp: at_def consumes_Cons value_start_def)
qed

lemma value_complete:
  "json_text Lenient F t v \<Longrightarrow> consumes inp p t q \<Longrightarrow> number_ends inp q \<Longrightarrow> parse_value F False inp p = Inr (v, q)"
  "elements_text Lenient F t vs \<Longrightarrow> consumes inp p' (t @ [ch CHR '']'']) q' \<Longrightarrow> array_loop F False inp p' ws = Inr (Array (ws @ vs), q')"
  "members_text Lenient F t kvs \<Longrightarrow> consumes inp p'' (t @ [ch CHR ''}'']) q'' \<Longrightarrow> object_loop F False inp p'' os = Inr (Object (os @ kvs), q'')"
proof (induction arbitrary: p q and p' q' ws and p'' q'' os rule: json_text_elements_text_members_text.inducts)
  case null
  then show ?case using literal_complete [OF null(1), of Null] by (subst parse_value.simps) (auto simp: consumes_Cons ch_codes)
next
  case true
  then show ?case using literal_complete [OF true(1), of "Bool True"] by (subst parse_value.simps) (auto simp: consumes_Cons ch_codes)
next
  case false
  then show ?case using literal_complete [OF false(1), of "Bool False"] by (subst parse_value.simps) (auto simp: consumes_Cons ch_codes)
next
  case (number t x)
  then obtain c r where c: "t = c # r" "c = ch CHR ''-'' \<or> is_digit c" using number_start by blast
  have p: "p < length inp" "inp ! p = c" using number(3) c(1) by (auto simp: consumes_Cons)
  have "c \<noteq> quote \<and> c \<notin> {ch CHR ''{'', ch CHR ''['', ch CHR ''t'', ch CHR ''f'', ch CHR ''n''}"
    using c(2) by (auto simp: ch_codes is_digit_def)
  then have "parse_value F False inp p = parse_number F inp p"
    using p by (subst parse_value.simps) (simp add: Let_def)
  then show ?case using number_complete [where F = F, OF number(3,1,2,4)] by simp
next
  case (string t s)
  then have p: "p < length inp" "inp ! p = quote" "consumes inp (p + 1) (t @ [quote]) q" by (auto simp: consumes_Cons)
  then show ?case using string_complete [OF string(1) p(3), of "[]"]
    by (subst parse_value.simps) (simp add: parse_string_def ch_codes)
next
  case (no_elements w)
  let ?r = "p + 1 + length w"
  have p: "p < length inp" "inp ! p = ch CHR ''[''" "consumes inp (p + 1) w ?r" "consumes inp ?r [ch CHR '']''] q"
    using no_elements(2) consumes_append [of inp "p + 1" w] by (simp_all add: consumes_Cons)
  have "skip_ws False inp (p + 1) = ?r"
    by (rule space_complete [OF p(3) no_elements(1)]) (use p(4) not_ws_chars in \<open>auto simp: stops_def consumes_Cons\<close>)
  then show ?case unfolding dispatch(1) [OF p(1,2)]
    using p(4) by (auto simp: parse_array_def Let_def at_def consumes_Cons)
next
  case (array t vs)
  have p: "p < length inp" "inp ! p = ch CHR ''[''" "consumes inp (p + 1) (t @ [ch CHR '']'']) q"
    using array(3) by (auto simp: consumes_Cons)
  obtain a c r where f: "t = a @ c # r" "ws_text a" "value_start c" using first_element [OF array(1)] by blast
  show ?case unfolding dispatch(1) [OF p(1,2)]
    using array(2) [OF p(3), of "[]"] skip_to_first(1) [OF p(3) f] array_loop_again [of F inp "p + 1" "[]"]
    by (simp add: parse_array_def)
next
  case (no_members w)
  let ?r = "p + 1 + length w"
  have p: "p < length inp" "inp ! p = ch CHR ''{''" "consumes inp (p + 1) w ?r" "consumes inp ?r [ch CHR ''}''] q"
    using no_members(2) consumes_append [of inp "p + 1" w] by (simp_all add: consumes_Cons)
  have "skip_ws False inp (p + 1) = ?r"
    by (rule space_complete [OF p(3) no_members(1)]) (use p(4) not_ws_chars in \<open>auto simp: stops_def consumes_Cons\<close>)
  then show ?case unfolding dispatch(2) [OF p(1,2)]
    using p(4) by (auto simp: parse_object_def Let_def at_def consumes_Cons)
next
  case (object t kvs)
  have p: "p < length inp" "inp ! p = ch CHR ''{''" "consumes inp (p + 1) (t @ [ch CHR ''}'']) q"
    using object(3) by (auto simp: consumes_Cons)
  obtain a c r where f: "t = a @ c # r" "ws_text a" "value_start c" using first_member [OF object(1)] by blast
  show ?case unfolding dispatch(2) [OF p(1,2)]
    using object(2) [OF p(3), of "[]"] skip_to_first(2) [OF p(3) f] object_loop_again [of F inp "p + 1" "[]"]
    by (simp add: parse_object_def)
next
  case (last_element a t v b)
  have "consumes inp p' (a @ t @ b @ [ch CHR '']'']) q'" using last_element(5) by simp
  from value_with_space [OF this last_element(1,3,2) _ last_element(4)]
  obtain r where "parse_value F False inp (skip_ws False inp p') = Inr (v, r)" "skip_ws False inp r + 1 = q'"
    "skip_ws False inp r < length inp" "inp ! skip_ws False inp r = ch CHR '']''" by blast
  then show ?case by (subst array_loop.simps) (simp add: Let_def ch_codes)
next
  case (element a t v b r vs)
  define m where "m = p' + length (a @ t @ b @ [ch CHR '',''])"
  have c: "consumes inp p' (a @ t @ b @ [ch CHR '','']) m" "consumes inp m (r @ [ch CHR '']'']) q'"
    using element(7) consumes_append [of inp p' "a @ t @ b @ [ch CHR '','']" "r @ [ch CHR '']'']" q']
    unfolding m_def by simp_all
  from value_with_space [OF c(1) element(1,3,2) _ element(4)]
  obtain s where s: "parse_value F False inp (skip_ws False inp p') = Inr (v, s)" "skip_ws False inp s + 1 = m"
    "skip_ws False inp s < length inp" "inp ! skip_ws False inp s = ch CHR '',''" by blast
  have "array_loop F False inp p' ws = array_loop F False inp m (ws @ [v])"
    using s by (subst array_loop.simps) (simp add: Let_def)
  then show ?case using element(6) [OF c(2), of "ws @ [v]"] by simp
next
  case (last_member a k key b c t v d)
  define m where "m = p'' + length (a @ quote # k @ quote # b @ [ch CHR '':''])"
  have cs: "consumes inp p'' (a @ quote # k @ quote # b @ [ch CHR '':'']) m" "consumes inp m (c @ t @ d @ [ch CHR ''}'']) q''"
    using last_member(8) consumes_append [of inp p'' "a @ quote # k @ quote # b @ [ch CHR '':'']" "c @ t @ d @ [ch CHR ''}'']" q'']
    unfolding m_def by simp_all
  note key = key_complete [OF cs(1) last_member(1,5,2)]
  from value_with_space [OF cs(2) last_member(3,6,4) _ last_member(7)]
  obtain r where "parse_value F False inp (skip_ws False inp m) = Inr (v, r)" "skip_ws False inp r + 1 = q''"
    "skip_ws False inp r < length inp" "inp ! skip_ws False inp r = ch CHR ''}''" by blast
  then show ?case using key by (subst object_loop.simps) (simp add: Let_def ch_codes)
next
  case (member a k key b c t v d r kvs)
  define m where "m = p'' + length (a @ quote # k @ quote # b @ [ch CHR '':''])"
  define n where "n = m + length (c @ t @ d @ [ch CHR '',''])"
  have cs: "consumes inp p'' (a @ quote # k @ quote # b @ [ch CHR '':'']) m" "consumes inp m ((c @ t @ d @ [ch CHR '','']) @ r @ [ch CHR ''}'']) q''"
    using member(10) consumes_append [of inp p'' "a @ quote # k @ quote # b @ [ch CHR '':'']" "c @ t @ d @ ch CHR '','' # r @ [ch CHR ''}'']" q'']
    unfolding m_def by simp_all
  have cn: "consumes inp m (c @ t @ d @ [ch CHR '','']) n" "consumes inp n (r @ [ch CHR ''}'']) q''"
    using cs(2) unfolding n_def consumes_append [of inp m "c @ t @ d @ [ch CHR '','']"] by blast+
  note key = key_complete [OF cs(1) member(1,5,2)]
  from value_with_space [OF cn(1) member(3,6,4) _ member(7)]
  obtain s where s: "parse_value F False inp (skip_ws False inp m) = Inr (v, s)" "skip_ws False inp s + 1 = n"
    "skip_ws False inp s < length inp" "inp ! skip_ws False inp s = ch CHR '',''" by blast
  have "object_loop F False inp p'' os = object_loop F False inp n (os @ [(key, v)])"
    using s key by (subst object_loop.simps) (simp add: Let_def)
  then show ?case using member(9) [OF cn(2), of "os @ [(key, v)]"] by simp
qed

section \<open>Documents\<close>

lemma parse_sound:
  assumes "parse F simd inp = Inr v"
  shows "document Lenient F inp v"
proof -
  obtain q where q: "parse_value F simd inp (skip_ws simd inp 0) = Inr (v, q)" "skip_ws simd inp q = length inp"
    using assms by (auto simp: parse_def Let_def fail_def split: sum.splits if_splits)
  obtain a where a: "consumes inp 0 a (skip_ws simd inp 0)" "ws_text a" using space_sound [of 0 inp simd] by auto
  obtain t where t: "consumes inp (skip_ws simd inp 0) t q" "json_text Lenient F t v"
    using value_sound(1) [OF q(1)] consumes_len [OF a(1)] by blast
  obtain b where b: "consumes inp q b (length inp)" "ws_text b"
    using space_sound [of q inp simd] consumes_len [OF t(1)] q(2) by auto
  have "consumes inp 0 (a @ t @ b) (length inp)" using consumes_join [OF a(1) consumes_join [OF t(1) b(1)]] .
  then have "inp = a @ t @ b" by (simp add: consumes_def)
  then show ?thesis using a(2) t(2) b(2) unfolding document_def by blast
qed

lemma parse_complete:
  assumes "document Lenient F inp v"
  shows "parse F simd inp = Inr v"
proof -
  obtain a t b where d: "inp = a @ t @ b" "ws_text a" "json_text Lenient F t v" "ws_text b" using assms unfolding document_def by blast
  let ?p = "length a" and ?q = "length a + length t"
  have cs: "consumes inp 0 a ?p" "consumes inp ?p t ?q" "consumes inp ?q b (length inp)"
    by (simp_all add: consumes_def d(1))
  obtain x r where x: "t = x # r" "value_start x" using json_start [OF d(3)] by blast
  have "stops inp ?p is_ws" using cs(2) x by (auto simp: stops_def consumes_Cons value_start_def)
  from space_complete [OF cs(1) d(2) this, of simd] have p: "skip_ws simd inp 0 = ?p" .
  have "number_ends inp ?q"
    by (rule ends_after) (use cs(3) d(4) in \<open>cases b; auto simp: stops_def consumes_Cons ws_text_def\<close>)
  from value_complete(1) [OF d(3) cs(2) this] have v: "parse_value F simd inp ?p = Inr (v, ?q)"
    by (simp add: parse_simd(1) [of F simd])
  have "stops inp (length inp) is_ws" by (simp add: stops_def)
  from space_complete [OF cs(3) d(4) this, of simd] show ?thesis by (simp add: parse_def p v Let_def)
qed

section \<open>Errors\<close>

lemma skip_ws_le: "p \<le> length inp \<Longrightarrow> skip_ws simd inp p \<le> length inp"
  using space_sound [of p inp simd] consumes_len by blast

lemma skip_digits_le: "p \<le> length inp \<Longrightarrow> skip_digits inp p \<le> length inp"
  using digit.skip_sound [of p inp] consumes_len by blast

lemma hex_loop_error:
  "hex_loop n inp cp p = Inl (ParseError m e) \<Longrightarrow> p + n \<le> length inp \<Longrightarrow> e \<le> length inp"
  by (induction n inp cp p rule: hex_loop.induct) (auto simp: Let_def fail_def split: option.splits)

lemma read_hex4_error: "read_hex4 inp p = Inl (ParseError m e) \<Longrightarrow> p \<le> length inp \<Longrightarrow> e \<le> length inp"
  by (auto simp: read_hex4_def fail_def split: if_splits dest: hex_loop_error)

lemma append_unicode_error:
  assumes "append_unicode inp p out = Inl (ParseError m e)" "p \<le> length inp"
  shows "e \<le> length inp"
proof (cases "read_hex4 inp p")
  case (Inl x)
  then have "read_hex4 inp p = Inl (ParseError m e)" using assms(1) by (simp add: append_unicode_def)
  from read_hex4_error [OF this assms(2)] show ?thesis .
next
  case (Inr y)
  then obtain cp r where r: "read_hex4 inp p = Inr (cp, r)" by (cases y) auto
  note rl = read_hex4_pos [OF r]
  show ?thesis
  proof (cases "read_hex4 inp (r + 2)")
    case (Inl x)
    then show ?thesis using assms(1) r rl read_hex4_error [of inp "r + 2" m e]
      by (simp add: append_unicode_def fail_def split: if_splits)
  next
    case (Inr z)
    then obtain lo t where "read_hex4 inp (r + 2) = Inr (lo, t)" by (cases z) auto
    from read_hex4_pos [OF this] this show ?thesis using assms(1) r rl
      by (simp add: append_unicode_def fail_def split: if_splits)
  qed
qed

lemma string_error:
  "string_loop False inp p out = Inl (ParseError m e) \<Longrightarrow> p \<le> length inp \<Longrightarrow> e \<le> length inp"
proof (induction "length inp - p" arbitrary: p out rule: less_induct)
  case less
  show ?case
  proof (cases "p < length inp")
    case False
    then have "scan_scalar inp p = p" by (subst scan_scalar.simps) simp
    then show ?thesis using less.prems False by (subst (asm) string_loop.simps) (auto simp: scan_to_string_special_def fail_def)
  next
    case p: True
    consider (close) "inp ! p = quote" | (esc) "inp ! p = backslash" | (plain) "inp ! p \<noteq> quote" "inp ! p \<noteq> backslash" by blast
    then show ?thesis
    proof cases
      case close
      then show ?thesis using less.prems string_loop_end(2) [OF p] by simp
    next
      case plain
      have "length inp - (p + 1) < length inp - p" using p by linarith
      from less.hyps [OF this less.prems(1) [unfolded string_loop_plain [OF p plain]]] p show ?thesis by simp
    next
      case esc
      note run = less.prems(1) [unfolded string_loop_escape [OF p esc]]
      have l2: "length inp - (p + 2) < length inp - p" using p by linarith
      show ?thesis
      proof (cases "p + 1 < length inp")
        case False
        then show ?thesis using run p by (simp add: fail_def)
      next
        case p1: True
        show ?thesis
        proof (cases "simple_escape (inp ! (p + 1))")
          case (Some c)
          then show ?thesis using less.hyps [OF l2] run p1 by simp
        next
          case None
          show ?thesis
          proof (cases "append_unicode inp (p + 2) out")
            case (Inl x)
            then show ?thesis using run p1 None append_unicode_error [of inp "p + 2" out m e]
              by (auto simp: fail_def split: if_splits)
          next
            case (Inr y)
            obtain out' r where y: "append_unicode inp (p + 2) out = Inr (out', r)" using Inr by (cases y) auto
            note r = append_unicode_pos [OF y]
            have "length inp - r < length inp - p" using r p by linarith
            from less.hyps [OF this] show ?thesis using run p1 None y r by (auto simp: fail_def split: if_splits)
          qed
        qed
      qed
    qed
  qed
qed

lemma key_error:
  assumes "parse_key simd inp p = Inl (ParseError m e)" "p \<le> length inp"
  shows "e \<le> length inp"
proof -
  let ?r = "skip_ws False inp p"
  have r: "?r \<le> length inp" using skip_ws_le [OF assms(2)] .
  note run = assms(1) [unfolded parse_key_simd [of simd]]
  show ?thesis
  proof (cases "at inp ?r (\<lambda>c. c = quote)")
    case False
    then show ?thesis using run r by (simp add: parse_key_def fail_def Let_def)
  next
    case at: True
    show ?thesis
    proof (cases "parse_string False inp ?r")
      case (Inl x)
      then have "string_loop False inp (?r + 1) [] = Inl (ParseError m e)"
        using run at by (simp add: parse_key_def parse_string_def Let_def)
      from string_error [OF this] at show ?thesis by (simp add: at_def)
    next
      case (Inr y)
      then obtain k s where y: "parse_string False inp ?r = Inr (k, s)" by (cases y) auto
      then have run': "string_loop False inp (?r + 1) [] = Inr (k, s)" by (simp add: parse_string_def)
      have "s \<le> length inp" using string_sound [OF run'] consumes_len by blast
      then show ?thesis using run at y skip_ws_le [of s inp False] by (simp add: parse_key_def fail_def Let_def split: if_splits)
    qed
  qed
qed

lemma literal_error: "parse_literal ls v inp p = Inl (ParseError m e) \<Longrightarrow> p \<le> length inp \<Longrightarrow> e \<le> length inp"
  by (induction ls v inp p rule: parse_literal.induct) (auto simp: fail_def split: if_splits)

lemma int_le: "parse_int inp p = Inr q \<Longrightarrow> p \<le> length inp \<Longrightarrow> q \<le> length inp"
  by (auto simp: parse_int_def fail_def at_def skip_digits_le split: if_splits)

lemma frac_le: "parse_frac inp p = Inr q \<Longrightarrow> p \<le> length inp \<Longrightarrow> q \<le> length inp"
  by (auto simp: parse_frac_def fail_def at_def intro!: skip_digits_le split: if_splits)

lemma exp_le: "parse_exp inp p = Inr q \<Longrightarrow> p \<le> length inp \<Longrightarrow> q \<le> length inp"
  by (auto simp: parse_exp_def Let_def fail_def at_def intro!: skip_digits_le split: if_splits)

lemma int_error: "parse_int inp p = Inl (ParseError m e) \<Longrightarrow> p \<le> length inp \<Longrightarrow> e \<le> length inp"
  by (auto simp: parse_int_def fail_def split: if_splits)

lemma frac_error: "parse_frac inp p = Inl (ParseError m e) \<Longrightarrow> p \<le> length inp \<Longrightarrow> e \<le> length inp"
  by (auto simp: parse_frac_def fail_def at_def split: if_splits)

lemma exp_error: "parse_exp inp p = Inl (ParseError m e) \<Longrightarrow> p \<le> length inp \<Longrightarrow> e \<le> length inp"
  by (auto simp: parse_exp_def Let_def fail_def at_def split: if_splits)

lemma number_error:
  assumes run: "parse_number F inp p = Inl (ParseError m e)" and p: "p \<le> length inp"
  shows "e \<le> length inp"
proof -
  define a where "a = (if at inp p (\<lambda>c. c = ch CHR ''-'') then p + 1 else p)"
  have a: "a \<le> length inp" using p by (auto simp: a_def at_def)
  note run = run [unfolded parse_number_def Let_def, folded a_def]
  show ?thesis
  proof (cases "parse_int inp a")
    case (Inl x)
    then show ?thesis using run int_error [of inp a m e] a by simp
  next
    case b: (Inr b)
    note bl = int_le [OF b a]
    show ?thesis
    proof (cases "parse_frac inp b")
      case (Inl x)
      then show ?thesis using run b frac_error [of inp b m e] bl by simp
    next
      case c: (Inr c)
      note cl = frac_le [OF c bl]
      show ?thesis
      proof (cases "parse_exp inp c")
        case (Inl x)
        then show ?thesis using run b c exp_error [of inp c m e] cl by simp
      next
        case d: (Inr d)
        then show ?thesis using run b c exp_le [OF d cl] by (auto simp: fail_def split: option.splits if_splits)
      qed
    qed
  qed
qed

lemma array_error:
  assumes "parse_array loop simd inp p = Inl (ParseError m e)" "p < length inp"
    "\<And>r. p < r \<Longrightarrow> r \<le> length inp \<Longrightarrow> loop r = Inl (ParseError m e) \<Longrightarrow> e \<le> length inp"
  shows "e \<le> length inp"
proof -
  have "p < skip_ws simd inp (p + 1)" "skip_ws simd inp (p + 1) \<le> length inp"
    using skip_ws_ge [of "p + 1" simd inp] skip_ws_le [of "p + 1" inp simd] assms(2) by simp_all
  from assms(3) [OF this] assms(1) show ?thesis by (simp add: parse_array_def Let_def split: if_splits)
qed

lemma object_error:
  assumes "parse_object loop simd inp p = Inl (ParseError m e)" "p < length inp"
    "\<And>r. p < r \<Longrightarrow> r \<le> length inp \<Longrightarrow> loop r = Inl (ParseError m e) \<Longrightarrow> e \<le> length inp"
  shows "e \<le> length inp"
proof -
  have "p < skip_ws simd inp (p + 1)" "skip_ws simd inp (p + 1) \<le> length inp"
    using skip_ws_ge [of "p + 1" simd inp] skip_ws_le [of "p + 1" inp simd] assms(2) by simp_all
  from assms(3) [OF this] assms(1) show ?thesis by (simp add: parse_object_def Let_def split: if_splits)
qed

lemma value_error:
  "parse_value F simd inp p = Inl (ParseError m e) \<Longrightarrow> p \<le> length inp \<Longrightarrow> e \<le> length inp"
  "array_loop F simd inp p vs = Inl (ParseError m e) \<Longrightarrow> p \<le> length inp \<Longrightarrow> e \<le> length inp"
  "object_loop F simd inp p kvs = Inl (ParseError m e) \<Longrightarrow> p \<le> length inp \<Longrightarrow> e \<le> length inp"
proof (induction F simd inp p and F simd inp p vs and F simd inp p kvs
    rule: parse_value_array_loop_object_loop.induct)
  case (1 F simd inp p)
  note run = 1(3) [unfolded parse_value.simps [of F simd inp p] Let_def]
  show ?case
  proof (cases "p < length inp")
    case False
    then show ?thesis using run 1(4) by (simp add: fail_def)
  next
    case p: True
    consider (obj) "inp ! p = ch CHR ''{''" | (arr) "inp ! p = ch CHR ''[''" "inp ! p \<noteq> ch CHR ''{''"
      | (str) "inp ! p = quote" "inp ! p \<noteq> ch CHR ''[''" "inp ! p \<noteq> ch CHR ''{''"
      | (other) "inp ! p \<noteq> quote" "inp ! p \<noteq> ch CHR ''[''" "inp ! p \<noteq> ch CHR ''{''" by blast
    then show ?thesis
    proof cases
      case obj
      show ?thesis by (rule object_error [OF _ p]) (use run obj p 1(1) in auto)
    next
      case arr
      show ?thesis by (rule array_error [OF _ p]) (use run arr p 1(2) in auto)
    next
      case str
      then have "string_loop False inp (p + 1) [] = Inl (ParseError m e)"
        using run p by (auto simp: parse_string_def string_loop_simd [of simd] split: sum.splits)
      from string_error [OF this] p show ?thesis by simp
    next
      case other
      then show ?thesis using run p literal_error [of _ _ inp p m e] number_error [of F inp p m e]
        by (simp del: parse_literal.simps split: if_splits)
    qed
  qed
next
  case (2 F simd inp p vs)
  have p: "skip_ws simd inp p \<le> length inp" using skip_ws_le [OF 2(4)] .
  show ?case
  proof (cases "parse_value F simd inp (skip_ws simd inp p)")
    case (Inl x)
    then show ?thesis using 2(3) 2(1) p by (simp add: array_loop.simps [of F simd inp p vs])
  next
    case (Inr y)
    then obtain w r where w: "parse_value F simd inp (skip_ws simd inp p) = Inr (w, r)" by (cases y) auto
    have "r \<le> length inp" using value_sound(1) [OF w p] consumes_len by blast
    then have "skip_ws simd inp r \<le> length inp" by (rule skip_ws_le)
    then show ?thesis using 2(3) w 2(2) [OF w refl refl refl]
      by (simp add: array_loop.simps [of F simd inp p vs] Let_def fail_def split: if_splits)
  qed
next
  case (3 F simd inp p kvs)
  show ?case
  proof (cases "parse_key simd inp p")
    case (Inl x)
    then show ?thesis using 3(3) key_error [of simd inp p m e] 3(4) by (simp add: object_loop.simps [of F simd inp p kvs])
  next
    case (Inr y)
    then obtain key k where k: "parse_key simd inp p = Inr (key, k)" by (cases y) auto
    have "k \<le> length inp" using key_sound [OF k 3(4)] consumes_len by blast
    then have kl: "skip_ws simd inp k \<le> length inp" by (rule skip_ws_le)
    show ?thesis
    proof (cases "parse_value F simd inp (skip_ws simd inp k)")
      case (Inl x)
      then show ?thesis using 3(3) k 3(1) [OF k refl] kl by (simp add: object_loop.simps [of F simd inp p kvs])
    next
      case (Inr z)
      then obtain w r where w: "parse_value F simd inp (skip_ws simd inp k) = Inr (w, r)" by (cases z) auto
      have "r \<le> length inp" using value_sound(1) [OF w kl] consumes_len by blast
      then have "skip_ws simd inp r \<le> length inp" by (rule skip_ws_le)
      then show ?thesis using 3(3) k w 3(2) [OF k refl w refl refl refl]
        by (simp add: object_loop.simps [of F simd inp p kvs] Let_def fail_def split: if_splits)
    qed
  qed
qed

text \<open>
  C25: A parse error carries a position of the input, or its end: the pointer that the parser reports
  (and reads at) has not run past the text.
\<close>

theorem json_error_position:
  assumes "parse F simd inp = Inl (ParseError m e)"
  shows "e \<le> length inp"
proof (cases "parse_value F simd inp (skip_ws simd inp 0)")
  case (Inl x)
  then have "parse_value F simd inp (skip_ws simd inp 0) = Inl (ParseError m e)" using assms by (simp add: parse_def)
  from value_error(1) [OF this] show ?thesis using skip_ws_le [of 0 inp simd] by simp
next
  case (Inr y)
  then obtain v q where v: "parse_value F simd inp (skip_ws simd inp 0) = Inr (v, q)" by (cases y) auto
  have "q \<le> length inp" using value_sound(1) [OF v] skip_ws_le [of 0 inp simd] consumes_len by fastforce
  then show ?thesis using assms v skip_ws_le [of q inp simd]
    by (simp add: parse_def Let_def fail_def split: if_splits)
qed

theorem json_error_position_witness:
  "parse (\<lambda>_. None :: (nat \<times> nat) option) True [91, 32] = Inl (ParseError ''unexpected end of input'' 2)
    \<and> 2 \<le> length [91, 32 :: u8]"
proof -
  have p: "parse (\<lambda>_. None :: (nat \<times> nat) option) True [91, 32] = Inl (ParseError ''unexpected end of input'' 2)"
    by code_simp
  from json_error_position [OF p] p show ?thesis by blast
qed

end
