(* ===== verification/Json_Utf8.thy ===== *)
theory Json_Utf8
  imports Json_Proof
begin

text \<open>
  The bytes that the parser makes of \<open>\u\<close> escapes, against a decoder of UTF-8: which escapes give well
  formed UTF-8 and which do not.
\<close>

section \<open>A decoder of UTF-8\<close>

definition scalar :: "u32 \<Rightarrow> bool" where
  "scalar cp \<longleftrightarrow> cp < 0xD800 \<or> 0xE000 \<le> cp \<and> cp < 0x110000"

definition continuation :: "u8 \<Rightarrow> bool" where
  "continuation b \<longleftrightarrow> 0x80 \<le> b \<and> b < 0xC0"

definition decode2 :: "u8 \<Rightarrow> u8 \<Rightarrow> u32 option" where
  "decode2 a b = (let cp = push_bit 6 (ucast a AND 0x1F) OR (ucast b AND 0x3F) in
     if continuation b \<and> 0x80 \<le> cp then Some cp else None)"

definition decode3 :: "u8 \<Rightarrow> u8 \<Rightarrow> u8 \<Rightarrow> u32 option" where
  "decode3 a b c = (let cp = push_bit 12 (ucast a AND 0x0F) OR push_bit 6 (ucast b AND 0x3F) OR (ucast c AND 0x3F) in
     if continuation b \<and> continuation c \<and> 0x800 \<le> cp \<and> scalar cp then Some cp else None)"

definition decode4 :: "u8 \<Rightarrow> u8 \<Rightarrow> u8 \<Rightarrow> u8 \<Rightarrow> u32 option" where
  "decode4 a b c d = (let cp = push_bit 18 (ucast a AND 0x07) OR push_bit 12 (ucast b AND 0x3F) OR
       push_bit 6 (ucast c AND 0x3F) OR (ucast d AND 0x3F) in
     if continuation b \<and> continuation c \<and> continuation d \<and> 0x10000 \<le> cp \<and> scalar cp then Some cp else None)"

fun utf8_decode :: "u8 list \<Rightarrow> u32 list option" where
  "utf8_decode [] = Some []"
| "utf8_decode (a # t) =
     (if a < 0x80 then map_option ((#) (ucast a)) (utf8_decode t)
      else if 0xC0 \<le> a \<and> a < 0xE0 then
        (case t of b # t' \<Rightarrow> (case decode2 a b of Some cp \<Rightarrow> map_option ((#) cp) (utf8_decode t') | None \<Rightarrow> None)
         | _ \<Rightarrow> None)
      else if 0xE0 \<le> a \<and> a < 0xF0 then
        (case t of b # c # t' \<Rightarrow> (case decode3 a b c of Some cp \<Rightarrow> map_option ((#) cp) (utf8_decode t') | None \<Rightarrow> None)
         | _ \<Rightarrow> None)
      else if 0xF0 \<le> a \<and> a < 0xF8 then
        (case t of b # c # d # t' \<Rightarrow> (case decode4 a b c d of Some cp \<Rightarrow> map_option ((#) cp) (utf8_decode t') | None \<Rightarrow> None)
         | _ \<Rightarrow> None)
      else None)"

declare utf8_decode.simps(2) [simp del]

section \<open>The encoder against the decoder\<close>

lemma small_word: "w < word_of_nat n \<Longrightarrow> n < 2 ^ 32 \<Longrightarrow> \<exists>k\<in>set [0..<n]. w = (word_of_nat k :: u32)"
  by (rule bexI [of _ "unat w"]) (auto simp: word_less_nat_alt unat_of_nat)

lemma lead_bytes:
  fixes w :: u32
  shows "w < 128 \<Longrightarrow> ucast w < (0x80 :: u8) \<and> ucast (ucast w :: u8) = w"
    "w < 32 \<Longrightarrow> (0xC0 :: u8) \<le> ucast (0xC0 OR w) \<and> ucast (0xC0 OR w) < (0xE0 :: u8) \<and>
      ucast (ucast (0xC0 OR w) :: u8) AND 0x1F = w"
    "w < 16 \<Longrightarrow> (0xE0 :: u8) \<le> ucast (0xE0 OR w) \<and> ucast (0xE0 OR w) < (0xF0 :: u8) \<and>
      ucast (ucast (0xE0 OR w) :: u8) AND 0x0F = w"
    "w < 8 \<Longrightarrow> (0xF0 :: u8) \<le> ucast (0xF0 OR w) \<and> ucast (0xF0 OR w) < (0xF8 :: u8) \<and>
      ucast (ucast (0xF0 OR w) :: u8) AND 0x07 = w"
    "w < 64 \<Longrightarrow> continuation (ucast (0x80 OR w)) \<and> ucast (ucast (0x80 OR w) :: u8) AND 0x3F = w"
proof -
  have "\<forall>k\<in>set [0..<128]. ucast (word_of_nat k :: u32) < (0x80 :: u8) \<and> ucast (ucast (word_of_nat k :: u32) :: u8) = (word_of_nat k :: u32)"
    by code_simp
  then show "w < 128 \<Longrightarrow> ucast w < (0x80 :: u8) \<and> ucast (ucast w :: u8) = w" using small_word [of w 128] by auto
  have "\<forall>k\<in>set [0..<32]. (0xC0 :: u8) \<le> ucast (0xC0 OR word_of_nat k :: u32) \<and> ucast (0xC0 OR word_of_nat k :: u32) < (0xE0 :: u8) \<and>
      ucast (ucast (0xC0 OR word_of_nat k :: u32) :: u8) AND 0x1F = (word_of_nat k :: u32)"
    by code_simp
  then show "w < 32 \<Longrightarrow> (0xC0 :: u8) \<le> ucast (0xC0 OR w) \<and> ucast (0xC0 OR w) < (0xE0 :: u8) \<and>
      ucast (ucast (0xC0 OR w) :: u8) AND 0x1F = w" using small_word [of w 32] by auto
  have "\<forall>k\<in>set [0..<16]. (0xE0 :: u8) \<le> ucast (0xE0 OR word_of_nat k :: u32) \<and> ucast (0xE0 OR word_of_nat k :: u32) < (0xF0 :: u8) \<and>
      ucast (ucast (0xE0 OR word_of_nat k :: u32) :: u8) AND 0x0F = (word_of_nat k :: u32)"
    by code_simp
  then show "w < 16 \<Longrightarrow> (0xE0 :: u8) \<le> ucast (0xE0 OR w) \<and> ucast (0xE0 OR w) < (0xF0 :: u8) \<and>
      ucast (ucast (0xE0 OR w) :: u8) AND 0x0F = w" using small_word [of w 16] by auto
  have "\<forall>k\<in>set [0..<8]. (0xF0 :: u8) \<le> ucast (0xF0 OR word_of_nat k :: u32) \<and> ucast (0xF0 OR word_of_nat k :: u32) < (0xF8 :: u8) \<and>
      ucast (ucast (0xF0 OR word_of_nat k :: u32) :: u8) AND 0x07 = (word_of_nat k :: u32)"
    by code_simp
  then show "w < 8 \<Longrightarrow> (0xF0 :: u8) \<le> ucast (0xF0 OR w) \<and> ucast (0xF0 OR w) < (0xF8 :: u8) \<and>
      ucast (ucast (0xF0 OR w) :: u8) AND 0x07 = w" using small_word [of w 8] by auto
  have "\<forall>k\<in>set [0..<64]. continuation (ucast (0x80 OR word_of_nat k :: u32)) \<and>
      ucast (ucast (0x80 OR word_of_nat k :: u32) :: u8) AND 0x3F = (word_of_nat k :: u32)"
    by code_simp
  then show "w < 64 \<Longrightarrow> continuation (ucast (0x80 OR w)) \<and> ucast (ucast (0x80 OR w) :: u8) AND 0x3F = w"
    using small_word [of w 64] by auto
qed

lemma six_bits: "(x :: u32) AND 0x3F < 64"
proof -
  have "x AND 0x3F \<le> 0x3F" by (rule word_and_le1)
  then show ?thesis by (rule order_le_less_trans) simp
qed

lemma drop_less: "unat (cp :: u32) < 2 ^ (n + k) \<Longrightarrow> unat (drop_bit n cp) < 2 ^ k"
proof -
  assume "unat cp < 2 ^ (n + k)"
  then have "unat cp div 2 ^ n < 2 ^ k" by (simp add: less_mult_imp_div_less power_add mult.commute)
  moreover have "unat (drop_bit n cp) = unat cp div 2 ^ n" unfolding unat_drop_bit_eq by (rule drop_bit_eq_div)
  ultimately show ?thesis by (simp only:)
qed

lemma mask6: "(0x3F :: u32) = mask 6"
  by (simp add: mask_eq_exp_minus_1)

lemma recombine:
  fixes cp :: u32
  shows "push_bit 6 (drop_bit 6 cp) OR (cp AND 0x3F) = cp"
    "push_bit 12 (drop_bit 12 cp) OR push_bit 6 (drop_bit 6 cp AND 0x3F) OR (cp AND 0x3F) = cp"
    "push_bit 18 (drop_bit 18 cp) OR push_bit 12 (drop_bit 12 cp AND 0x3F) OR push_bit 6 (drop_bit 6 cp AND 0x3F) OR (cp AND 0x3F) = cp"
proof -
  have "push_bit 18 (drop_bit 18 cp) OR push_bit 12 (drop_bit 12 cp AND mask 6) = push_bit 12 (drop_bit 12 cp)"
  proof (rule bit_word_eqI)
    show "bit (push_bit 18 (drop_bit 18 cp) OR push_bit 12 (drop_bit 12 cp AND mask 6)) n = bit (push_bit 12 (drop_bit 12 cp)) n"
      if "n < LENGTH(32)" for n using that by (cases "18 \<le> n") (auto simp: bit_simps)
  qed
  moreover have b: "push_bit 12 (drop_bit 12 cp) OR push_bit 6 (drop_bit 6 cp AND mask 6) = push_bit 6 (drop_bit 6 cp)"
  proof (rule bit_word_eqI)
    show "bit (push_bit 12 (drop_bit 12 cp) OR push_bit 6 (drop_bit 6 cp AND mask 6)) n = bit (push_bit 6 (drop_bit 6 cp)) n"
      if "n < LENGTH(32)" for n using that by (cases "12 \<le> n") (auto simp: bit_simps)
  qed
  moreover have a: "push_bit 6 (drop_bit 6 cp) OR (cp AND mask 6) = cp"
  proof (rule bit_word_eqI)
    show "bit (push_bit 6 (drop_bit 6 cp) OR (cp AND mask 6)) n = bit cp n"
      if "n < LENGTH(32)" for n using that by (cases "6 \<le> n") (auto simp: bit_simps)
  qed
  ultimately show "push_bit 6 (drop_bit 6 cp) OR (cp AND 0x3F) = cp"
    "push_bit 12 (drop_bit 12 cp) OR push_bit 6 (drop_bit 6 cp AND 0x3F) OR (cp AND 0x3F) = cp"
    "push_bit 18 (drop_bit 18 cp) OR push_bit 12 (drop_bit 12 cp AND 0x3F) OR push_bit 6 (drop_bit 6 cp AND 0x3F) OR (cp AND 0x3F) = cp"
    by (simp_all add: mask6 flip: or.assoc del: push_bit_and)
qed

lemma decode_cases:
  "a < 0x80 \<Longrightarrow> utf8_decode (a # t) = map_option ((#) (ucast a)) (utf8_decode t)"
  "0xC0 \<le> a \<Longrightarrow> a < 0xE0 \<Longrightarrow> decode2 a b = Some cp \<Longrightarrow> utf8_decode (a # b # t) = map_option ((#) cp) (utf8_decode t)"
  "0xE0 \<le> a \<Longrightarrow> a < 0xF0 \<Longrightarrow> decode3 a b c = Some cp \<Longrightarrow> utf8_decode (a # b # c # t) = map_option ((#) cp) (utf8_decode t)"
  "0xF0 \<le> a \<Longrightarrow> a < 0xF8 \<Longrightarrow> decode4 a b c d = Some cp \<Longrightarrow>
    utf8_decode (a # b # c # d # t) = map_option ((#) cp) (utf8_decode t)"
  by (auto simp: utf8_decode.simps(2) [of a] word_less_nat_alt word_le_nat_alt)

lemma encode_decode_step:
  assumes "scalar cp"
  shows "utf8_decode (encode_utf8 cp @ t) = map_option ((#) cp) (utf8_decode t)"
proof -
  consider (one) "cp \<le> 0x7F" | (two) "0x7F < cp" "cp \<le> 0x7FF" | (three) "0x7FF < cp" "cp \<le> 0xFFFF" | (four) "0xFFFF < cp"
    by (meson not_le)
  then show ?thesis
  proof cases
    case one
    then have "cp < 128" by (simp add: word_le_nat_alt word_less_nat_alt)
    from lead_bytes(1) [OF this] one show ?thesis by (simp add: encode_utf8_def decode_cases(1))
  next
    case two
    have h: "drop_bit 6 cp < 32" using two drop_less [of cp 6 5] by (simp add: word_le_nat_alt word_less_nat_alt)
    have "0x80 \<le> cp" "\<not> cp \<le> 0x7F" using two(1) by (simp_all add: word_le_nat_alt word_less_nat_alt)
    then show ?thesis using two lead_bytes(2) [OF h] lead_bytes(5) [OF six_bits, of cp]
      by (simp add: encode_utf8_def decode_cases(2) decode2_def recombine del: push_bit_and)
  next
    case three
    have h: "drop_bit 12 cp < 16" using three drop_less [of cp 12 4] by (simp add: word_le_nat_alt word_less_nat_alt)
    have "0x800 \<le> cp" "\<not> cp \<le> 0x7F" "\<not> cp \<le> 0x7FF" using three(1) by (simp_all add: word_le_nat_alt word_less_nat_alt)
    then show ?thesis using three assms lead_bytes(3) [OF h] lead_bytes(5) [OF six_bits, of cp] lead_bytes(5) [OF six_bits, of "drop_bit 6 cp"]
      by (simp add: encode_utf8_def decode_cases(3) decode3_def recombine del: push_bit_and)
  next
    case four
    have "unat cp < 2 ^ (18 + 3)" using assms by (auto simp: scalar_def word_less_nat_alt)
    then have h: "drop_bit 18 cp < 8" using drop_less [of cp 18 3] by (simp add: word_less_nat_alt)
    have "0x10000 \<le> cp" "\<not> cp \<le> 0x7F" "\<not> cp \<le> 0x7FF" "\<not> cp \<le> 0xFFFF" using four by (simp_all add: word_le_nat_alt word_less_nat_alt)
    then show ?thesis using four assms lead_bytes(4) [OF h] lead_bytes(5) [OF six_bits, of cp] lead_bytes(5) [OF six_bits, of "drop_bit 6 cp"]
        lead_bytes(5) [OF six_bits, of "drop_bit 12 cp"]
      by (simp add: encode_utf8_def decode_cases(4) decode4_def recombine del: push_bit_and)
  qed
qed

lemma surrogate_pair_scalar:
  assumes "high_surrogate hi" "low_surrogate lo"
  shows "scalar (astral hi lo) \<and> 0x10000 \<le> astral hi lo"
proof -
  define h l where "h = unat (hi - 0xD800)" and "l = unat (lo - 0xDC00)"
  have h: "h < 1024" and l: "l < 1024"
    using assms by (auto simp: h_def l_def high_surrogate_def low_surrogate_def unat_sub word_le_nat_alt)
  have "push_bit 10 (hi - 0xD800) = (word_of_nat (h * 1024) :: u32)"
    by (simp add: h_def push_bit_eq_mult)
  then have "astral hi lo = word_of_nat (0x10000 + h * 1024 + l)"
    by (simp add: astral_def l_def)
  moreover have "unat (word_of_nat (0x10000 + h * 1024 + l) :: u32) = 0x10000 + h * 1024 + l"
    unfolding unat_of_nat using h l by (intro mod_less) simp
  ultimately show ?thesis using h l by (simp add: scalar_def word_le_nat_alt word_less_nat_alt)
qed

text \<open>
  C26: The UTF-8 that the parser makes of code points decodes to them: for any list of Unicode scalar
  values, a decoder that rejects overlong forms, surrogates and values above 0x10FFFF reads back
  exactly the list.
\<close>

theorem json_utf8_roundtrip:
  assumes "\<forall>cp\<in>set cps. scalar cp"
  shows "utf8_decode (concat (map encode_utf8 cps)) = Some cps"
  using assms by (induction cps) (simp_all add: encode_decode_step)

theorem json_utf8_roundtrip_witness:
  "utf8_decode (concat (map encode_utf8 [0x41, 0xE9, 0x20AC, 0x1F600])) = Some [0x41, 0xE9, 0x20AC, 0x1F600]"
  by (rule json_utf8_roundtrip) (simp add: scalar_def)

text \<open>
  A low surrogate without a high one before it is accepted as an escape, with or without vector
  scanning, and the string then holds bytes that are not UTF-8.
\<close>

theorem json_lone_low_surrogate:
  "parse F simd (quote # backslash # map ch ''uDC00'' @ [quote]) = Inr (String [0xED, 0xB0, 0x80]) \<and>
    utf8_decode [0xED, 0xB0, 0x80] = None"
proof -
  have hex: "hex4 (map ch ''DC00'') = Some 0xDC00" by code_simp
  have enc: "encode_utf8 0xDC00 = [0xED, 0xB0, 0x80]" by code_simp
  have "str_body Lenient (backslash # ch CHR ''u'' # map ch ''DC00'' @ []) (encode_utf8 0xDC00 @ [])"
    by (rule lenient_unicode [OF hex _ str_body.empty]) (simp add: high_surrogate_def)
  then have "json_text Lenient F (quote # (backslash # map ch ''uDC00'') @ [quote]) (String [0xED, 0xB0, 0x80])"
    by (intro json_text_elements_text_members_text.string) (simp add: enc)
  then have "document Lenient F (quote # (backslash # map ch ''uDC00'') @ [quote]) (String [0xED, 0xB0, 0x80])"
    unfolding document_def by (intro exI [of _ "[]"] exI [of _ "quote # (backslash # map ch ''uDC00'') @ [quote]"]) (simp add: ws_text_def)
  from parse_complete [OF this] have "parse F simd (quote # backslash # map ch ''uDC00'' @ [quote]) = Inr (String [0xED, 0xB0, 0x80])"
    by simp
  moreover have "utf8_decode [0xED, 0xB0, 0x80] = None" by code_simp
  ultimately show ?thesis by blast
qed

end
