(* ===== verification/Json_Rfc.thy ===== *)
theory Json_Rfc
  imports Json_Proof
begin

text \<open>
  The parser against RFC 8259: what it accepts are the documents of the lenient dialect, and among them the
  documents of the RFC are those whose strings pass the check \<open>strict_strings\<close>.
\<close>

section \<open>The check\<close>

text \<open>
  One pass over a text, inside or outside of strings: no control character in a string, no escape of
  a low surrogate other than after one of a high surrogate.
\<close>

fun strict_strings :: "bool \<Rightarrow> u8 list \<Rightarrow> bool" where
  "strict_strings False [] \<longleftrightarrow> True"
| "strict_strings False (c # t) \<longleftrightarrow> strict_strings (c = quote) t"
| "strict_strings True [] \<longleftrightarrow> True"
| "strict_strings True (c # t) \<longleftrightarrow>
     (if c = quote then strict_strings False t
      else if c = backslash then (case t of
          [] \<Rightarrow> True
        | e # u \<Rightarrow>
            if e = ch CHR ''u'' then (case hex4 (take 4 u) of
                None \<Rightarrow> True
              | Some cp \<Rightarrow> \<not> low_surrogate cp \<and> strict_strings True (drop (if high_surrogate cp then 10 else 4) u))
            else strict_strings True u)
      else 0x20 \<le> c \<and> strict_strings True t)"

lemma strict_skip: "\<forall>c\<in>set a. c \<noteq> quote \<Longrightarrow> strict_strings False (a @ r) = strict_strings False r"
  by (induction a) simp_all

section \<open>Strings\<close>

lemma hex4_four: "hex4 ds = Some cp \<Longrightarrow> length ds = 4"
  by (cases ds rule: hex4.cases) simp_all

lemma escape_not_u: "simple_escape e = Some c \<Longrightarrow> e \<noteq> ch CHR ''u''"
  by (auto simp: simple_escape_def ch_codes split: if_splits)

lemma high_not_low: "high_surrogate cp \<Longrightarrow> \<not> low_surrogate cp"
  by (auto simp: high_surrogate_def low_surrogate_def word_le_nat_alt)

lemma strict_escape:
  "e \<noteq> ch CHR ''u'' \<Longrightarrow> strict_strings True (backslash # e # t) = strict_strings True t"
  by (simp add: quote_def backslash_def ch_codes)

lemma strict_unicode:
  assumes "hex4 ds = Some cp" "\<not> high_surrogate cp"
  shows "strict_strings True (backslash # ch CHR ''u'' # ds @ t) \<longleftrightarrow> \<not> low_surrogate cp \<and> strict_strings True t"
  using assms hex4_four [OF assms(1)] by (simp add: quote_def backslash_def)

lemma strict_pair:
  assumes "hex4 ds = Some hi" "high_surrogate hi" "hex4 es = Some lo"
  shows "strict_strings True (backslash # ch CHR ''u'' # ds @ backslash # ch CHR ''u'' # es @ t) = strict_strings True t"
  using assms hex4_four [OF assms(1)] hex4_four [OF assms(3)] high_not_low [OF assms(2)]
  by (simp add: quote_def backslash_def)

lemma strict_body:
  "str_body Lenient t s \<Longrightarrow> strict_strings True (t @ quote # r) \<Longrightarrow> str_body Rfc8259 t s \<and> strict_strings False r"
proof (induction rule: str_body.induct)
  case empty
  then show ?case by (simp add: str_body.empty)
next
  case (plain c t s)
  then show ?case by (auto intro: str_body.plain)
next
  case (escape e c t s)
  then show ?case by (auto simp: strict_escape [OF escape_not_u [OF escape(1)]] intro: str_body.escape simp del: strict_strings.simps)
next
  case (unicode ds cp t s)
  then show ?case using strict_unicode [OF unicode(1,2), of "t @ quote # r"]
    by (auto intro: str_body.unicode simp del: strict_strings.simps)
next
  case (pair ds hi es lo t s)
  then show ?case using strict_pair [OF pair(1-3), of "t @ quote # r"]
    by (auto intro: str_body.pair simp del: strict_strings.simps)
qed

lemma body_strict:
  "str_body Rfc8259 t s \<Longrightarrow> strict_strings False r \<Longrightarrow> str_body Lenient t s \<and> strict_strings True (t @ quote # r)"
proof (induction rule: str_body.induct)
  case empty
  then show ?case by (simp add: str_body.empty)
next
  case (plain c t s)
  then show ?case by (auto intro: lenient_plain)
next
  case (escape e c t s)
  then show ?case by (auto simp: strict_escape [OF escape_not_u [OF escape(1)]] intro: str_body.escape simp del: strict_strings.simps)
next
  case (unicode ds cp t s)
  then show ?case using strict_unicode [OF unicode(1,2), of "t @ quote # r"]
    by (auto intro: lenient_unicode simp del: strict_strings.simps)
next
  case (pair ds hi es lo t s)
  then show ?case using strict_pair [OF pair(1-3), of "t @ quote # r"]
    by (auto intro: str_body.pair simp del: strict_strings.simps)
qed

section \<open>Texts\<close>

lemma ws_no_quote: "ws_text w \<Longrightarrow> \<forall>c\<in>set w. c \<noteq> quote"
  by (auto simp: ws_text_def is_ws_def quote_def)

lemma digits_no_quote: "digits t \<Longrightarrow> \<forall>c\<in>set t. c \<noteq> quote"
  by (auto simp: digits_def is_digit_def quote_def)

lemma number_no_quote: "number_text t \<Longrightarrow> \<forall>c\<in>set t. c \<noteq> quote"
  using digits_no_quote
  by (fastforce simp: number_text_def int_text_def frac_text_def exp_text_def quote_def ch_codes)

lemmas strict_ws = strict_skip [OF ws_no_quote]

lemma strict_one: "c \<noteq> quote \<Longrightarrow> strict_strings False (c # r) = strict_strings False r"
  by simp

lemma marks_no_quote:
  "ch CHR ''['' \<noteq> quote" "ch CHR '']'' \<noteq> quote" "ch CHR ''{'' \<noteq> quote" "ch CHR ''}'' \<noteq> quote"
  "ch CHR '','' \<noteq> quote" "ch CHR '':'' \<noteq> quote"
  by (simp_all add: quote_def ch_codes)

lemma literals_no_quote:
  "\<forall>c\<in>set (map ch ''null''). c \<noteq> quote" "\<forall>c\<in>set (map ch ''true''). c \<noteq> quote" "\<forall>c\<in>set (map ch ''false''). c \<noteq> quote"
  by (simp_all add: quote_def ch_codes)

lemmas json_rules = json_text_elements_text_members_text.intros

lemma strict_string: "strict_strings False (quote # t) = strict_strings True t"
  by simp

lemmas strict_steps = strict_ws strict_one [OF marks_no_quote(1)] strict_one [OF marks_no_quote(2)]
  strict_one [OF marks_no_quote(3)] strict_one [OF marks_no_quote(4)] strict_one [OF marks_no_quote(5)]
  strict_one [OF marks_no_quote(6)] strict_string append_assoc append_Cons append_Nil

text \<open>A lenient text that passes the check is one of the RFC, and the check goes on behind it.\<close>

lemma strict_text:
  "json_text Lenient F t v \<Longrightarrow> strict_strings False (t @ r) \<Longrightarrow> json_text Rfc8259 F t v \<and> strict_strings False r"
  "elements_text Lenient F t vs \<Longrightarrow> strict_strings False (t @ r) \<Longrightarrow> elements_text Rfc8259 F t vs \<and> strict_strings False r"
  "members_text Lenient F t kvs \<Longrightarrow> strict_strings False (t @ r) \<Longrightarrow> members_text Rfc8259 F t kvs \<and> strict_strings False r"
proof (induction arbitrary: r and r and r rule: json_text_elements_text_members_text.inducts)
  case null
  then show ?case unfolding strict_skip [OF literals_no_quote(1)] by (blast intro: json_rules)
next
  case true
  then show ?case unfolding strict_skip [OF literals_no_quote(2)] by (blast intro: json_rules)
next
  case false
  then show ?case unfolding strict_skip [OF literals_no_quote(3)] by (blast intro: json_rules)
next
  case (number t x)
  then show ?case unfolding strict_skip [OF number_no_quote [OF number(1)]] by (blast intro: json_rules)
next
  case (string t s)
  then show ?case using strict_body [OF string(1), of r] unfolding strict_steps by (blast intro: json_rules)
next
  case (no_elements w)
  then show ?case by (simp only: strict_steps) (blast intro: json_rules)
next
  case (array t vs)
  show ?case using array(3) array(2) [of "ch CHR '']'' # r"] by (simp only: strict_steps) (blast intro: json_rules)
next
  case (no_members w)
  then show ?case by (simp only: strict_steps) (blast intro: json_rules)
next
  case (object t kvs)
  show ?case using object(3) object(2) [of "ch CHR ''}'' # r"] by (simp only: strict_steps) (blast intro: json_rules)
next
  case (last_element a t v b)
  show ?case using last_element(1,2,5) last_element(4) [of "b @ r"] by (simp only: strict_steps) (blast intro: json_rules)
next
  case (element a t v b u vs)
  show ?case using element(1,2,7) element(4) [of "b @ ch CHR '','' # u @ r"] element(6) [of r]
    by (simp only: strict_steps) (blast intro: json_rules)
next
  case (last_member a k key b c t v d)
  have k: "str_body Lenient k key" by fact
  show ?case using last_member(1-4,8) strict_body [OF k, of "b @ ch CHR '':'' # c @ t @ d @ r"] last_member(7) [of "d @ r"]
    by (simp only: strict_steps) (blast intro: json_rules)
next
  case (member a k key b c t v d u kvs)
  have k: "str_body Lenient k key" by fact
  show ?case using member(1-4,10) strict_body [OF k, of "b @ ch CHR '':'' # c @ t @ d @ ch CHR '','' # u @ r"]
      member(7) [of "d @ ch CHR '','' # u @ r"] member(9) [of r]
    by (simp only: strict_steps) (blast intro: json_rules)
qed

text \<open>A text of the RFC is a lenient one and passes the check.\<close>

lemma text_strict:
  "json_text Rfc8259 F t v \<Longrightarrow> strict_strings False r \<Longrightarrow> json_text Lenient F t v \<and> strict_strings False (t @ r)"
  "elements_text Rfc8259 F t vs \<Longrightarrow> strict_strings False r \<Longrightarrow> elements_text Lenient F t vs \<and> strict_strings False (t @ r)"
  "members_text Rfc8259 F t kvs \<Longrightarrow> strict_strings False r \<Longrightarrow> members_text Lenient F t kvs \<and> strict_strings False (t @ r)"
proof (induction arbitrary: r and r and r rule: json_text_elements_text_members_text.inducts)
  case null
  then show ?case unfolding strict_skip [OF literals_no_quote(1)] by (blast intro: json_rules)
next
  case true
  then show ?case unfolding strict_skip [OF literals_no_quote(2)] by (blast intro: json_rules)
next
  case false
  then show ?case unfolding strict_skip [OF literals_no_quote(3)] by (blast intro: json_rules)
next
  case (number t x)
  then show ?case unfolding strict_skip [OF number_no_quote [OF number(1)]] by (blast intro: json_rules)
next
  case (string t s)
  then show ?case using body_strict [OF string(1), of r] unfolding strict_steps by (blast intro: json_rules)
next
  case (no_elements w)
  then show ?case by (simp only: strict_steps) (blast intro: json_rules)
next
  case (array t vs)
  show ?case using array(3) array(2) [of "ch CHR '']'' # r"] by (simp only: strict_steps) (blast intro: json_rules)
next
  case (no_members w)
  then show ?case by (simp only: strict_steps) (blast intro: json_rules)
next
  case (object t kvs)
  show ?case using object(3) object(2) [of "ch CHR ''}'' # r"] by (simp only: strict_steps) (blast intro: json_rules)
next
  case (last_element a t v b)
  show ?case using last_element(1,2,5) last_element(4) [of "b @ r"] by (simp only: strict_steps) (blast intro: json_rules)
next
  case (element a t v b u vs)
  show ?case using element(1,2,7) element(4) [of "b @ ch CHR '','' # u @ r"] element(6) [of r]
    by (simp only: strict_steps) (blast intro: json_rules)
next
  case (last_member a k key b c t v d)
  have k: "str_body Rfc8259 k key" by fact
  show ?case using last_member(1-4,8) body_strict [OF k, of "b @ ch CHR '':'' # c @ t @ d @ r"] last_member(7) [of "d @ r"]
    by (simp only: strict_steps) (blast intro: json_rules)
next
  case (member a k key b c t v d u kvs)
  have k: "str_body Rfc8259 k key" by fact
  show ?case using member(1-4,10) body_strict [OF k, of "b @ ch CHR '':'' # c @ t @ d @ ch CHR '','' # u @ r"]
      member(7) [of "d @ ch CHR '','' # u @ r"] member(9) [of r]
    by (simp only: strict_steps) (blast intro: json_rules)
qed

section \<open>Documents\<close>

lemma rfc_document_iff: "document Rfc8259 F inp v \<longleftrightarrow> document Lenient F inp v \<and> strict_strings False inp"
proof
  assume "document Rfc8259 F inp v"
  then obtain a t b where d: "inp = a @ t @ b" "ws_text a" "json_text Rfc8259 F t v" "ws_text b" unfolding document_def by blast
  have "strict_strings False b" using strict_skip [OF ws_no_quote [OF d(4)], of "[]"] by simp
  from text_strict(1) [OF d(3) this] d(1,2,4) show "document Lenient F inp v \<and> strict_strings False inp"
    unfolding document_def by (auto simp: strict_ws simp del: strict_strings.simps)
next
  assume "document Lenient F inp v \<and> strict_strings False inp"
  then obtain a t b where d: "inp = a @ t @ b" "ws_text a" "json_text Lenient F t v" "ws_text b" "strict_strings False inp"
    unfolding document_def by blast
  then have "strict_strings False (t @ b)" by (simp add: strict_ws del: strict_strings.simps)
  from strict_text(1) [OF d(3) this] d(1,2,4) show "document Rfc8259 F inp v" unfolding document_def by blast
qed

text \<open>
  C23: The parser, with or without vector scanning, accepts exactly the documents of its lenient grammar,
  and returns the value they stand for; in particular it always terminates, and a text stands for at most
  one value. The grammar differs from RFC 8259: in strings it admits raw control characters and escapes of lone low
  surrogates. The documents of the RFC dialect are all accepted, with their value, and they are exactly the accepted texts that
  pass the check for these two things. Neither grammar asks that the text be UTF-8, gives an escape
  of a lone high surrogate a meaning, or has numbers that \<open>from_chars\<close> refuses.
\<close>

theorem json_parses_documents:
  "(parse F simd inp = Inr v \<longleftrightarrow> document Lenient F inp v) \<and>
   (document Rfc8259 F inp v \<longleftrightarrow> parse F simd inp = Inr v \<and> strict_strings False inp)"
  using parse_sound [of F simd inp v] parse_complete [of F inp v simd] rfc_document_iff [of F inp v] by blast

text \<open>Both differences are real: a raw line feed, and the escape DC00 on its own.\<close>

lemma lenient_only:
  "\<not> strict_strings False [quote, 10, quote]"
  "\<not> strict_strings False (quote # backslash # map ch ''uDC00'' @ [quote])"
  by code_simp+

end
