(* ===== verification/Traces.thy ===== *)
theory Traces
  imports Main
begin

text \<open>
  Runs of a step relation whose steps carry a label or none, what can be seen of a run, and the
  simulation that shows that one relation has only traces of another.
\<close>

inductive runs :: "('s \<Rightarrow> 'e option \<Rightarrow> 's \<Rightarrow> bool) \<Rightarrow> 's \<Rightarrow> 'e list \<Rightarrow> 's \<Rightarrow> bool" for step where
  stay: "runs step s [] s"
| silent: "runs step s es t \<Longrightarrow> step t None u \<Longrightarrow> runs step s es u"
| visible: "runs step s es t \<Longrightarrow> step t (Some e) u \<Longrightarrow> runs step s (es @ [e]) u"

lemma runs_append: "runs step t fs u \<Longrightarrow> runs step s es t \<Longrightarrow> runs step s (es @ fs) u"
  by (induction rule: runs.induct) (auto intro: runs.intros simp flip: append_assoc)

lemma runs_one: "step s (Some e) t \<Longrightarrow> runs step s [e] t"
  using runs.visible [OF runs.stay] by fastforce

lemma runs_silent: "step s None t \<Longrightarrow> runs step s [] t"
  using runs.silent [OF runs.stay] .

definition label_trace :: "'e option \<Rightarrow> 'e list" where
  "label_trace l = (case l of None \<Rightarrow> [] | Some e \<Rightarrow> [e])"

lemma label_trace_simps [simp]: "label_trace None = []" "label_trace (Some e) = [e]"
  by (simp_all add: label_trace_def)

locale trace_simulation =
  fixes spec :: "'a \<Rightarrow> 'e option \<Rightarrow> 'a \<Rightarrow> bool" and impl :: "'b \<Rightarrow> 'e option \<Rightarrow> 'b \<Rightarrow> bool"
    and related :: "'a \<Rightarrow> 'b \<Rightarrow> bool"
  assumes simulates: "related a b \<Longrightarrow> impl b l c \<Longrightarrow> \<exists>a'. runs spec a (label_trace l) a' \<and> related a' c"
begin

lemma runs_related: "runs impl b es c \<Longrightarrow> related a b \<Longrightarrow> \<exists>a'. runs spec a es a' \<and> related a' c"
proof (induction rule: runs.induct)
  case (stay b)
  then show ?case by (intro exI [of _ a] conjI runs.stay)
next
  case (silent b es c d)
  then obtain a' where a': "runs spec a es a'" "related a' c" by blast
  from simulates [OF a'(2) silent.hyps(2)] obtain a'' where "runs spec a' [] a''" "related a'' d" by auto
  from runs_append [OF this(1) a'(1)] this(2) show ?case by auto
next
  case (visible b es c e d)
  then obtain a' where a': "runs spec a es a'" "related a' c" by blast
  from simulates [OF a'(2) visible.hyps(2)] obtain a'' where "runs spec a' [e] a''" "related a'' d" by auto
  from runs_append [OF this(1) a'(1)] this(2) show ?case by blast
qed

end

text \<open>A property of the start and the trace so far, kept by every step.\<close>

locale trace_invariant =
  fixes step :: "'s \<Rightarrow> 'e option \<Rightarrow> 's \<Rightarrow> bool" and inv :: "'e list \<Rightarrow> 's \<Rightarrow> bool" and init :: 's
  assumes initially: "inv [] init"
    and kept: "inv es s \<Longrightarrow> step s l t \<Longrightarrow> inv (es @ label_trace l) t"
begin

lemma runs_inv: "runs step init es s \<Longrightarrow> inv es s"
proof (induction init \<equiv> init es s rule: runs.induct)
  case stay
  show ?case by (rule initially)
next
  case (silent es t u)
  then show ?case using kept [of es t None u] by simp
next
  case (visible es t e u)
  then show ?case using kept [of es t "Some e" u] by simp
qed

end

end
