(* ===== verification/Deque.thy ===== *)
theory Deque
  imports Prelude Traces
begin

text \<open>
  \<open>CPP-WorkStealing/include/workstealing.hpp\<close>, the class \<open>Deque\<close>: the Chase-Lev deque of one worker.

  Each access to an atomic variable is one step of the thread that makes it; the value of the
  program counter says which access is next and holds the local variables. Steps of the owner and of
  the thieves interleave in any order, so the memory is sequentially consistent: the memory orders of
  the code and its fences have no effect here. The indices are integers (an \<open>int64_t\<close> that counts pushes
  does not overflow). Rings are at addresses, the positions of a list; a retired ring stays there. A
  slot that was never written is \<^const>\<open>None\<close>, as is the null pointer.
\<close>

section \<open>Rings\<close>

record 't ring =
  ring_cap :: int
  ring_mask :: int
  ring_slots :: "'t option list"

definition new_ring :: "int \<Rightarrow> 't ring" where
  "new_ring c = \<lparr>ring_cap = c, ring_mask = c - 1, ring_slots = replicate (nat c) None\<rparr>"

definition ring_get :: "'t ring \<Rightarrow> int \<Rightarrow> 't option option" where
  "ring_get r i = rd_int (ring_slots r) (i AND ring_mask r)"

definition ring_put :: "'t ring \<Rightarrow> int \<Rightarrow> 't option \<Rightarrow> 't ring option" where
  "ring_put r i x =
     (if i AND ring_mask r < 0 then None
      else map_option (\<lambda>ss. r\<lparr>ring_slots := ss\<rparr>) (wr (ring_slots r) (nat (i AND ring_mask r)) x))"

section \<open>The shared variables\<close>

record 't deque =
  dq_top :: int
  dq_bottom :: int
  dq_ring :: nat
  dq_retired :: "nat list"
  dq_heap :: "'t ring list"

definition new_deque :: "int \<Rightarrow> 't deque" where
  "new_deque c = \<lparr>dq_top = 0, dq_bottom = 0, dq_ring = 0, dq_retired = [], dq_heap = [new_ring c]\<rparr>"

definition heap_get :: "'t deque \<Rightarrow> nat \<Rightarrow> int \<Rightarrow> 't option option" where
  "heap_get d a i = do { r \<leftarrow> rd (dq_heap d) a; ring_get r i }"

definition heap_put :: "'t deque \<Rightarrow> nat \<Rightarrow> int \<Rightarrow> 't option \<Rightarrow> 't deque option" where
  "heap_put d a i x = do {
     r \<leftarrow> rd (dq_heap d) a;
     r' \<leftarrow> ring_put r i x;
     Some (d\<lparr>dq_heap := (dq_heap d)[a := r']\<rparr>) }"

definition cas_top :: "'t deque \<Rightarrow> int \<Rightarrow> int \<Rightarrow> bool \<times> 't deque" where
  "cas_top d expected desired =
     (if dq_top d = expected then (True, d\<lparr>dq_top := desired\<rparr>) else (False, d))"

definition dq_empty :: "'t deque \<Rightarrow> bool" where
  "dq_empty d \<longleftrightarrow> dq_bottom d \<le> dq_top d"

section \<open>The owner: push and pop\<close>

datatype 't owner_pc =
  Owner_idle
| Push_bottom 't
| Push_top 't int
| Push_ring 't int int
| Push_copy 't int int nat nat int
| Push_put 't int nat
| Push_publish 't int
| Push_done
| Pop_bottom
| Pop_ring int
| Pop_store int nat
| Pop_top int nat
| Pop_get int nat int
| Pop_cas int int "'t option"
| Pop_restore int "'t option"
| Pop_done "'t option"

text \<open>
  The arguments are the variables \<open>x\<close>, \<open>b\<close>, \<open>t\<close>, \<open>a\<close>, \<open>na\<close> and \<open>i\<close> of the code. The retired list belongs to
  the owner, so adding to it is no step of its own.
\<close>

fun owner_step :: "'t deque \<Rightarrow> 't owner_pc \<Rightarrow> ('t deque \<times> 't owner_pc) option" where
  "owner_step d (Push_bottom x) = Some (d, Push_top x (dq_bottom d))"
| "owner_step d (Push_top x b) = Some (d, Push_ring x b (dq_top d))"
| "owner_step d (Push_ring x b t) = do {
     let a = dq_ring d;
     r \<leftarrow> rd (dq_heap d) a;
     if b - t > ring_cap r - 1 then
       Some (d\<lparr>dq_heap := dq_heap d @ [new_ring (ring_cap r * 2)]\<rparr>, Push_copy x b t a (length (dq_heap d)) t)
     else Some (d, Push_put x b a) }"
| "owner_step d (Push_copy x b t a na i) =
     (if i < b then do {
        y \<leftarrow> heap_get d a i;
        d' \<leftarrow> heap_put d na i y;
        Some (d', Push_copy x b t a na (i + 1)) }
      else Some (d\<lparr>dq_retired := dq_retired d @ [a], dq_ring := na\<rparr>, Push_put x b na))"
| "owner_step d (Push_put x b a) = do { d' \<leftarrow> heap_put d a b (Some x); Some (d', Push_publish x b) }"
| "owner_step d (Push_publish x b) = Some (d\<lparr>dq_bottom := b + 1\<rparr>, Push_done)"
| "owner_step d Pop_bottom = Some (d, Pop_ring (dq_bottom d - 1))"
| "owner_step d (Pop_ring b) = Some (d, Pop_store b (dq_ring d))"
| "owner_step d (Pop_store b a) = Some (d\<lparr>dq_bottom := b\<rparr>, Pop_top b a)"
| "owner_step d (Pop_top b a) =
     (let t = dq_top d in if t \<le> b then Some (d, Pop_get b a t) else Some (d, Pop_restore b None))"
| "owner_step d (Pop_get b a t) = do {
     x \<leftarrow> heap_get d a b;
     Some (d, if t = b then Pop_cas b t x else Pop_done x) }"
| "owner_step d (Pop_cas b t x) =
     (case cas_top d t (t + 1) of (won, d') \<Rightarrow> Some (d', Pop_restore b (if won then x else None)))"
| "owner_step d (Pop_restore b x) = Some (d\<lparr>dq_bottom := b + 1\<rparr>, Pop_done x)"
| "owner_step d _ = None"

section \<open>A thief: steal\<close>

datatype 't thief_pc =
  Thief_idle
| Steal_top
| Steal_bottom int
| Steal_ring int
| Steal_get int nat
| Steal_cas int "'t option"
| Steal_done "'t option"

fun thief_step :: "'t deque \<Rightarrow> 't thief_pc \<Rightarrow> ('t deque \<times> 't thief_pc) option" where
  "thief_step d Steal_top = Some (d, Steal_bottom (dq_top d))"
| "thief_step d (Steal_bottom t) = Some (d, if t < dq_bottom d then Steal_ring t else Steal_done None)"
| "thief_step d (Steal_ring t) = Some (d, Steal_get t (dq_ring d))"
| "thief_step d (Steal_get t a) = do { x \<leftarrow> heap_get d a t; Some (d, Steal_cas t x) }"
| "thief_step d (Steal_cas t x) =
     (case cas_top d t (t + 1) of (won, d') \<Rightarrow> Some (d', Steal_done (if won then x else None)))"
| "thief_step d _ = None"

section \<open>All threads\<close>

record ('i, 't) threads =
  shared :: "'t deque"
  owner :: "'t owner_pc"
  thieves :: "'i \<Rightarrow> 't thief_pc"

definition start :: "int \<Rightarrow> ('i, 't) threads" where
  "start c = \<lparr>shared = new_deque c, owner = Owner_idle, thieves = \<lambda>_. Thief_idle\<rparr>"

text \<open>What a client sees of a run: the calls and what they return.\<close>

datatype ('i, 't) event =
  Call_push 't | Ret_push | Call_pop | Ret_pop "'t option" | Call_steal 'i | Ret_steal 'i "'t option"

inductive dq_step :: "('i, 't) threads \<Rightarrow> ('i, 't) event option \<Rightarrow> ('i, 't) threads \<Rightarrow> bool" where
  call_push: "owner s = Owner_idle \<Longrightarrow> dq_step s (Some (Call_push x)) (s\<lparr>owner := Push_bottom x\<rparr>)"
| ret_push: "owner s = Push_done \<Longrightarrow> dq_step s (Some Ret_push) (s\<lparr>owner := Owner_idle\<rparr>)"
| call_pop: "owner s = Owner_idle \<Longrightarrow> dq_step s (Some Call_pop) (s\<lparr>owner := Pop_bottom\<rparr>)"
| ret_pop: "owner s = Pop_done x \<Longrightarrow> dq_step s (Some (Ret_pop x)) (s\<lparr>owner := Owner_idle\<rparr>)"
| owner: "owner_step (shared s) (owner s) = Some (d, pc) \<Longrightarrow> dq_step s None (s\<lparr>shared := d, owner := pc\<rparr>)"
| call_steal: "thieves s i = Thief_idle \<Longrightarrow>
    dq_step s (Some (Call_steal i)) (s\<lparr>thieves := (thieves s)(i := Steal_top)\<rparr>)"
| ret_steal: "thieves s i = Steal_done x \<Longrightarrow>
    dq_step s (Some (Ret_steal i x)) (s\<lparr>thieves := (thieves s)(i := Thief_idle)\<rparr>)"
| thief: "thief_step (shared s) (thieves s i) = Some (d, pc) \<Longrightarrow>
    dq_step s None (s\<lparr>shared := d, thieves := (thieves s)(i := pc)\<rparr>)"

end
