(* ===== verification/Deque_Spec.thy ===== *)
theory Deque_Spec
  imports Deque "HOL-Library.Multiset"
begin

text \<open>
  What the deque promises: an atomic double-ended queue. Each call takes effect at one instant between
  its start and its return. A steal may also fail, but only when the queue is empty or when it competes
  with another operation: one that has removed the first item since the steal began, or a pop of the
  only item.
\<close>

datatype 't owner_call = Owner_free | Pushing 't | Pushed | Popping | Popped "'t option"

datatype 't thief_call = Thief_free | Stealing nat | Stolen "'t option"

text \<open>\<open>removed\<close> counts the first items removed; a steal remembers the count at its start.\<close>

record ('i, 't) atomic_deque =
  items :: "'t list"
  removed :: nat
  owner_call :: "'t owner_call"
  thief_calls :: "'i \<Rightarrow> 't thief_call"

definition atomic_start :: "('i, 't) atomic_deque" where
  "atomic_start = \<lparr>items = [], removed = 0, owner_call = Owner_free, thief_calls = \<lambda>_. Thief_free\<rparr>"

inductive atomic_step :: "('i, 't) atomic_deque \<Rightarrow> ('i, 't) event option \<Rightarrow> ('i, 't) atomic_deque \<Rightarrow> bool" where
  call_push: "owner_call s = Owner_free \<Longrightarrow> atomic_step s (Some (Call_push x)) (s\<lparr>owner_call := Pushing x\<rparr>)"
| push: "owner_call s = Pushing x \<Longrightarrow> atomic_step s None (s\<lparr>items := items s @ [x], owner_call := Pushed\<rparr>)"
| ret_push: "owner_call s = Pushed \<Longrightarrow> atomic_step s (Some Ret_push) (s\<lparr>owner_call := Owner_free\<rparr>)"
| call_pop: "owner_call s = Owner_free \<Longrightarrow> atomic_step s (Some Call_pop) (s\<lparr>owner_call := Popping\<rparr>)"
| pop: "owner_call s = Popping \<Longrightarrow> items s = ys @ [y] \<Longrightarrow>
    atomic_step s None (s\<lparr>items := ys, removed := removed s + (if ys = [] then 1 else 0), owner_call := Popped (Some y)\<rparr>)"
| pop_empty: "owner_call s = Popping \<Longrightarrow> items s = [] \<Longrightarrow> atomic_step s None (s\<lparr>owner_call := Popped None\<rparr>)"
| ret_pop: "owner_call s = Popped x \<Longrightarrow> atomic_step s (Some (Ret_pop x)) (s\<lparr>owner_call := Owner_free\<rparr>)"
| call_steal: "thief_calls s i = Thief_free \<Longrightarrow>
    atomic_step s (Some (Call_steal i)) (s\<lparr>thief_calls := (thief_calls s)(i := Stealing (removed s))\<rparr>)"
| steal: "thief_calls s i = Stealing n \<Longrightarrow> items s = y # ys \<Longrightarrow>
    atomic_step s None (s\<lparr>items := ys, removed := removed s + 1, thief_calls := (thief_calls s)(i := Stolen (Some y))\<rparr>)"
| steal_fails: "thief_calls s i = Stealing n \<Longrightarrow>
    items s = [] \<or> n < removed s \<or> owner_call s = Popping \<and> (\<exists>y. items s = [y]) \<Longrightarrow>
    atomic_step s None (s\<lparr>thief_calls := (thief_calls s)(i := Stolen None)\<rparr>)"
| ret_steal: "thief_calls s i = Stolen x \<Longrightarrow>
    atomic_step s (Some (Ret_steal i x)) (s\<lparr>thief_calls := (thief_calls s)(i := Thief_free)\<rparr>)"

section \<open>Exactly once\<close>

text \<open>The tasks given to the deque in a history, and those that it has given back.\<close>

definition pushed_in :: "('i, 't) event list \<Rightarrow> 't multiset" where
  "pushed_in es = mset (List.map_filter (\<lambda>e. case e of Call_push x \<Rightarrow> Some x | _ \<Rightarrow> None) es)"

definition taken_in :: "('i, 't) event list \<Rightarrow> 't multiset" where
  "taken_in es = mset (List.map_filter (\<lambda>e. case e of Ret_pop x \<Rightarrow> x | Ret_steal i x \<Rightarrow> x | _ \<Rightarrow> None) es)"

lemma pushed_in_simps [simp]:
  "pushed_in [] = {#}" "pushed_in (es @ fs) = pushed_in es + pushed_in fs" "pushed_in [Call_push x] = {#x#}"
  "pushed_in [Ret_push] = {#}" "pushed_in [Call_pop] = {#}" "pushed_in [Ret_pop r] = {#}"
  "pushed_in [Call_steal i] = {#}" "pushed_in [Ret_steal i r] = {#}"
  by (simp_all add: pushed_in_def map_filter_def)

definition mset_option :: "'t option \<Rightarrow> 't multiset" where
  "mset_option x = (case x of None \<Rightarrow> {#} | Some y \<Rightarrow> {#y#})"

lemma mset_option_simps [simp]: "mset_option None = {#}" "mset_option (Some y) = {#y#}"
  by (simp_all add: mset_option_def)

lemma taken_in_simps [simp]:
  "taken_in [] = {#}" "taken_in (es @ fs) = taken_in es + taken_in fs" "taken_in [Call_push x] = {#}"
  "taken_in [Ret_push] = {#}" "taken_in [Call_pop] = {#}" "taken_in [Ret_pop r] = mset_option r"
  "taken_in [Call_steal i] = {#}" "taken_in [Ret_steal i r] = mset_option r"
  by (cases r; simp add: taken_in_def map_filter_def)+

text \<open>The tasks that a call has in hand: not in the queue yet, or not returned yet.\<close>

fun owner_holds :: "'t owner_call \<Rightarrow> 't multiset" where
  "owner_holds (Pushing x) = {#x#}"
| "owner_holds (Popped r) = mset_option r"
| "owner_holds _ = {#}"

fun thief_holds :: "'t thief_call \<Rightarrow> 't multiset" where
  "thief_holds (Stolen r) = mset_option r"
| "thief_holds _ = {#}"

definition in_hand :: "('i :: finite, 't) atomic_deque \<Rightarrow> 't multiset" where
  "in_hand s = owner_holds (owner_call s) + (\<Sum>i\<in>UNIV. thief_holds (thief_calls s i))"

lemma sum_update:
  fixes f :: "'i :: finite \<Rightarrow> 'a" and g :: "'a \<Rightarrow> 'b :: comm_monoid_add"
  shows "(\<Sum>i\<in>UNIV. g ((f(j := x)) i)) + g (f j) = (\<Sum>i\<in>UNIV. g (f i)) + g x"
proof -
  have "(\<Sum>i\<in>UNIV. g ((f(j := x)) i)) = g x + (\<Sum>i\<in>UNIV - {j}. g ((f(j := x)) i))"
    by (subst sum.remove [of UNIV j]) simp_all
  also have "(\<Sum>i\<in>UNIV - {j}. g ((f(j := x)) i)) = (\<Sum>i\<in>UNIV - {j}. g (f i))"
    by (rule sum.cong) auto
  finally show ?thesis using sum.remove [of UNIV j "\<lambda>i. g (f i)"] by (simp add: ac_simps)
qed

lemma thief_sum:
  fixes f :: "'i :: finite \<Rightarrow> 't thief_call"
  assumes "thief_holds (f j) = {#}"
  shows "(\<Sum>i\<in>UNIV. thief_holds ((f(j := x)) i)) = (\<Sum>i\<in>UNIV. thief_holds (f i)) + thief_holds x"
  using sum_update [of thief_holds f j x] assms by simp

text \<open>The tasks in the queue or in hand; a step changes them by what goes in and what comes out.\<close>

definition tasks_of :: "('i :: finite, 't) atomic_deque \<Rightarrow> 't multiset" where
  "tasks_of s = mset (items s) + in_hand s"

lemma tasks_of_step:
  assumes "atomic_step s l t"
  shows "tasks_of s + pushed_in (label_trace l) = tasks_of t + taken_in (label_trace l)"
  using assms
proof (cases rule: atomic_step.cases)
  case (ret_steal i x)
  have "(\<Sum>j\<in>UNIV. thief_holds (((thief_calls s)(i := Thief_free)) j)) + mset_option x = (\<Sum>j\<in>UNIV. thief_holds (thief_calls s j))"
    using sum_update [of thief_holds "thief_calls s" i Thief_free] ret_steal by simp
  then show ?thesis using ret_steal by (simp add: tasks_of_def in_hand_def ac_simps)
qed (simp_all add: tasks_of_def in_hand_def thief_sum ac_simps del: fun_upd_apply)

definition conserved :: "('i :: finite, 't) event list \<Rightarrow> ('i, 't) atomic_deque \<Rightarrow> bool" where
  "conserved es s \<longleftrightarrow> pushed_in es = taken_in es + tasks_of s"

lemma conserved_step: "conserved es s \<Longrightarrow> atomic_step s l t \<Longrightarrow> conserved (es @ label_trace l) t"
  using tasks_of_step [of s l t] by (simp add: conserved_def ac_simps)

lemma tasks_of_start [simp]: "tasks_of atomic_start = {#}"
  by (simp add: tasks_of_def in_hand_def atomic_start_def)

interpretation exactly_once: trace_invariant atomic_step conserved atomic_start
  by unfold_locales (simp add: conserved_def, rule conserved_step)

end
