(* ===== verification/Deque_Sim.thy ===== *)
theory Deque_Sim
  imports Deque_Spec
begin

text \<open>
  The relation between the atomic deque and the threads on the shared variables, and that every step of
  the threads keeps it.
\<close>

section \<open>Rings\<close>

definition ring_ok :: "'t ring \<Rightarrow> bool" where
  "ring_ok r \<longleftrightarrow> (\<exists>k. ring_cap r = 2 ^ k) \<and> ring_mask r = ring_cap r - 1 \<and> int (length (ring_slots r)) = ring_cap r"

lemma ring_cap_pos: "ring_ok r \<Longrightarrow> 0 < ring_cap r"
  by (auto simp: ring_ok_def)

lemma ring_index: "ring_ok r \<Longrightarrow> i AND ring_mask r = i mod ring_cap r"
proof -
  assume r: "ring_ok r"
  then obtain k where k: "ring_cap r = 2 ^ k" "ring_mask r = 2 ^ k - 1" by (auto simp: ring_ok_def)
  have "i AND mask k = i mod 2 ^ k" by (simp flip: take_bit_eq_mask add: take_bit_eq_mod)
  then show ?thesis by (simp add: k mask_eq_exp_minus_1)
qed

lemma ring_mod: "ring_ok r \<Longrightarrow> 0 \<le> i mod ring_cap r" "ring_ok r \<Longrightarrow> i mod ring_cap r < ring_cap r"
  by (simp_all add: ring_cap_pos)

lemma ring_index_bound: "ring_ok r \<Longrightarrow> nat (i mod ring_cap r) < length (ring_slots r)"
  using ring_mod [of r i] by (simp add: ring_ok_def nat_less_iff)

lemma ring_get_eq: "ring_ok r \<Longrightarrow> ring_get r i = Some (ring_slots r ! nat (i mod ring_cap r))"
  using ring_index_bound [of r i] ring_mod [of r i] by (simp add: ring_get_def ring_index)

lemma ring_put_eq:
  "ring_ok r \<Longrightarrow> ring_put r i x = Some (r\<lparr>ring_slots := (ring_slots r)[nat (i mod ring_cap r) := x]\<rparr>)"
  using ring_index_bound [of r i] ring_mod(1) [of r i] by (simp add: ring_put_def ring_index not_less)

lemma ring_put_ok:
  assumes "ring_ok r"
  obtains r' where "ring_put r i x = Some r'" "ring_ok r'" "ring_cap r' = ring_cap r"
    "\<And>j. ring_get r' j = (if j mod ring_cap r = i mod ring_cap r then Some x else ring_get r j)"
proof -
  let ?r = "r\<lparr>ring_slots := (ring_slots r)[nat (i mod ring_cap r) := x]\<rparr>"
  have ok: "ring_ok ?r" using assms by (simp add: ring_ok_def)
  have "ring_get ?r j = (if j mod ring_cap r = i mod ring_cap r then Some x else ring_get r j)" for j
  proof -
    have "nat (j mod ring_cap r) = nat (i mod ring_cap r) \<longleftrightarrow> j mod ring_cap r = i mod ring_cap r"
      using ring_mod(1) [OF assms] by (simp add: nat_eq_iff)
    then show ?thesis
      using ring_get_eq [OF ok, of j] ring_get_eq [OF assms, of j] ring_index_bound [OF assms, of i]
      by (auto simp: nth_list_update)
  qed
  with that [OF ring_put_eq [OF assms] ok] show thesis by simp
qed

lemma new_ring_ok: "ring_ok (new_ring (2 ^ k))"
  by (auto simp: ring_ok_def new_ring_def)

lemma new_ring_cap [simp]: "ring_cap (new_ring c) = c"
  by (simp add: new_ring_def)

lemma double_ring_ok: "ring_ok r \<Longrightarrow> ring_ok (new_ring (ring_cap r * 2))"
proof -
  assume "ring_ok r"
  then obtain k where "ring_cap r = 2 ^ k" by (auto simp: ring_ok_def)
  then show ?thesis using new_ring_ok [of "Suc k"] by (simp add: mult.commute)
qed

text \<open>Indices closer than the size of the ring have different slots.\<close>

lemma slots_differ: "(i :: int) < j \<Longrightarrow> j - i < c \<Longrightarrow> i mod c \<noteq> j mod c"
proof
  assume a: "i < j" "j - i < c" "i mod c = j mod c"
  then have "c dvd j - i" by (metis mod_eq_dvd_iff)
  with a(1,2) show False using zdvd_imp_le [of c "j - i"] by simp
qed

section \<open>The heap of rings\<close>

definition rings_ok :: "'t deque \<Rightarrow> bool" where
  "rings_ok d \<longleftrightarrow> (\<forall>r\<in>set (dq_heap d). ring_ok r)"

definition cap_at :: "'t deque \<Rightarrow> nat \<Rightarrow> int" where
  "cap_at d a = ring_cap (dq_heap d ! a)"

lemma heap_get_simps [simp]:
  "heap_get (d\<lparr>dq_top := t\<rparr>) a i = heap_get d a i" "heap_get (d\<lparr>dq_bottom := t\<rparr>) a i = heap_get d a i"
  "heap_get (d\<lparr>dq_retired := l, dq_ring := c\<rparr>) a i = heap_get d a i"
  "rings_ok (d\<lparr>dq_top := t\<rparr>) = rings_ok d" "rings_ok (d\<lparr>dq_bottom := t\<rparr>) = rings_ok d"
  "rings_ok (d\<lparr>dq_retired := l, dq_ring := c\<rparr>) = rings_ok d"
  "cap_at (d\<lparr>dq_top := t\<rparr>) a = cap_at d a" "cap_at (d\<lparr>dq_bottom := t\<rparr>) a = cap_at d a"
  "cap_at (d\<lparr>dq_retired := l, dq_ring := c\<rparr>) a = cap_at d a"
  by (simp_all add: heap_get_def rings_ok_def cap_at_def)

lemma ring_ok_at: "rings_ok d \<Longrightarrow> a < length (dq_heap d) \<Longrightarrow> ring_ok (dq_heap d ! a)"
  by (simp add: rings_ok_def)

lemma cap_at_pos: "rings_ok d \<Longrightarrow> a < length (dq_heap d) \<Longrightarrow> 0 < cap_at d a"
  by (simp add: cap_at_def ring_ok_at ring_cap_pos)

lemma heap_get_ok: "rings_ok d \<Longrightarrow> a < length (dq_heap d) \<Longrightarrow> \<exists>y. heap_get d a i = Some y"
  using ring_get_eq [OF ring_ok_at [of d a], of i] by (simp add: heap_get_def)

lemma heap_put_ok:
  assumes "rings_ok d" "a < length (dq_heap d)"
  obtains hs where "heap_put d a i x = Some (d\<lparr>dq_heap := hs\<rparr>)" "rings_ok (d\<lparr>dq_heap := hs\<rparr>)" "length hs = length (dq_heap d)"
    "\<And>b. cap_at (d\<lparr>dq_heap := hs\<rparr>) b = cap_at d b"
    "\<And>b j. heap_get (d\<lparr>dq_heap := hs\<rparr>) b j = (if b = a \<and> j mod cap_at d a = i mod cap_at d a then Some x else heap_get d b j)"
proof -
  obtain r' where r': "ring_put (dq_heap d ! a) i x = Some r'" "ring_ok r'" "ring_cap r' = ring_cap (dq_heap d ! a)"
    "\<And>j. ring_get r' j = (if j mod ring_cap (dq_heap d ! a) = i mod ring_cap (dq_heap d ! a) then Some x else ring_get (dq_heap d ! a) j)"
    by (rule ring_put_ok [OF ring_ok_at [OF assms], of i x]) blast
  let ?hs = "(dq_heap d)[a := r']"
  have "heap_get (d\<lparr>dq_heap := ?hs\<rparr>) b j = (if b = a \<and> j mod cap_at d a = i mod cap_at d a then Some x else heap_get d b j)" for b j
    using assms(2) r'(4) by (auto simp: heap_get_def rd_def cap_at_def nth_list_update)
  moreover have "rings_ok (d\<lparr>dq_heap := ?hs\<rparr>)"
    using assms(1) r'(2) set_update_subset_insert [of "dq_heap d" a r'] by (auto simp: rings_ok_def)
  moreover have "cap_at (d\<lparr>dq_heap := ?hs\<rparr>) b = cap_at d b" for b
    using assms(2) r'(3) by (cases "b = a") (simp_all add: cap_at_def)
  ultimately show thesis using that [of ?hs] r'(1) assms(2) by (simp add: heap_put_def)
qed

lemma heap_append:
  "a < length (dq_heap d) \<Longrightarrow> heap_get (d\<lparr>dq_heap := dq_heap d @ [r]\<rparr>) a i = heap_get d a i"
  "a < length (dq_heap d) \<Longrightarrow> cap_at (d\<lparr>dq_heap := dq_heap d @ [r]\<rparr>) a = cap_at d a"
  "cap_at (d\<lparr>dq_heap := dq_heap d @ [r]\<rparr>) (length (dq_heap d)) = ring_cap r"
  "rings_ok d \<Longrightarrow> ring_ok r \<Longrightarrow> rings_ok (d\<lparr>dq_heap := dq_heap d @ [r]\<rparr>)"
  by (auto simp: heap_get_def rd_def cap_at_def rings_ok_def nth_append)

section \<open>The relation\<close>

definition deque_inv :: "'t deque \<Rightarrow> 't list \<Rightarrow> int \<Rightarrow> bool" where
  "deque_inv d xs e \<longleftrightarrow> rings_ok d \<and> dq_ring d < length (dq_heap d) \<and> 0 \<le> dq_top d \<and> dq_top d + int (length xs) = e \<and>
     int (length xs) \<le> cap_at d (dq_ring d) \<and>
     (\<forall>k<length xs. heap_get d (dq_ring d) (dq_top d + int k) = Some (Some (xs ! k)))"

text \<open>The end of the queue: while a pop has lowered \<open>bottom_\<close> but not removed an item, one more.\<close>

fun queue_end :: "'t deque \<Rightarrow> 't owner_pc \<Rightarrow> int" where
  "queue_end d (Pop_top b a) = dq_bottom d + 1"
| "queue_end d (Pop_get b a t) = (if t = b then dq_bottom d + 1 else dq_bottom d)"
| "queue_end d (Pop_cas b t x) = dq_bottom d + 1"
| "queue_end d (Pop_restore b x) = dq_bottom d + 1"
| "queue_end d _ = dq_bottom d"

fun owner_rel :: "'t deque \<Rightarrow> 't list \<Rightarrow> 't owner_call \<Rightarrow> 't owner_pc \<Rightarrow> bool" where
  "owner_rel d xs st Owner_idle \<longleftrightarrow> st = Owner_free"
| "owner_rel d xs st (Push_bottom x) \<longleftrightarrow> st = Pushing x"
| "owner_rel d xs st (Push_top x b) \<longleftrightarrow> st = Pushing x \<and> b = dq_bottom d"
| "owner_rel d xs st (Push_ring x b t) \<longleftrightarrow> st = Pushing x \<and> b = dq_bottom d \<and> t \<le> dq_top d \<and> b - t \<le> cap_at d (dq_ring d)"
| "owner_rel d xs st (Push_copy x b t a na i) \<longleftrightarrow> st = Pushing x \<and> b = dq_bottom d \<and> t \<le> dq_top d \<and> t \<le> i \<and>
     b - t \<le> cap_at d a \<and> a = dq_ring d \<and> a < na \<and> na < length (dq_heap d) \<and> cap_at d na = 2 * cap_at d a \<and>
     (\<forall>j. t \<le> j \<and> j < i \<longrightarrow> heap_get d na j = heap_get d a j)"
| "owner_rel d xs st (Push_put x b a) \<longleftrightarrow> st = Pushing x \<and> b = dq_bottom d \<and> a = dq_ring d \<and> int (length xs) < cap_at d a"
| "owner_rel d xs st (Push_publish x b) \<longleftrightarrow> st = Pushing x \<and> b = dq_bottom d \<and> int (length xs) < cap_at d (dq_ring d) \<and>
     heap_get d (dq_ring d) b = Some (Some x)"
| "owner_rel d xs st Push_done \<longleftrightarrow> st = Pushed"
| "owner_rel d xs st Pop_bottom \<longleftrightarrow> st = Popping"
| "owner_rel d xs st (Pop_ring b) \<longleftrightarrow> st = Popping \<and> b = dq_bottom d - 1"
| "owner_rel d xs st (Pop_store b a) \<longleftrightarrow> st = Popping \<and> b = dq_bottom d - 1 \<and> a = dq_ring d"
| "owner_rel d xs st (Pop_top b a) \<longleftrightarrow> st = Popping \<and> b = dq_bottom d \<and> a = dq_ring d"
| "owner_rel d xs st (Pop_get b a t) \<longleftrightarrow> b = dq_bottom d \<and> a = dq_ring d \<and> t \<le> dq_top d \<and> t \<le> b \<and>
     (if t = b then st = Popping else \<exists>y. st = Popped (Some y) \<and> heap_get d (dq_ring d) b = Some (Some y))"
| "owner_rel d xs st (Pop_cas b t x) \<longleftrightarrow> st = Popping \<and> b = dq_bottom d \<and> t = b \<and> t \<le> dq_top d \<and> (xs \<noteq> [] \<longrightarrow> x = Some (hd xs))"
| "owner_rel d xs st (Pop_restore b x) \<longleftrightarrow> st = Popped x \<and> b = dq_bottom d \<and> xs = []"
| "owner_rel d xs st (Pop_done x) \<longleftrightarrow> st = Popped x"

text \<open>A thief that has read \<open>top_\<close> knows the first item only as long as \<open>top_\<close> has not moved.\<close>

fun thief_rel :: "'t deque \<Rightarrow> 't list \<Rightarrow> 't thief_call \<Rightarrow> 't thief_pc \<Rightarrow> bool" where
  "thief_rel d xs st Thief_idle \<longleftrightarrow> st = Thief_free"
| "thief_rel d xs st Steal_top \<longleftrightarrow> (\<exists>n. st = Stealing n \<and> int n \<le> dq_top d)"
| "thief_rel d xs st (Steal_bottom t) \<longleftrightarrow> (\<exists>n. st = Stealing n \<and> int n \<le> t) \<and> t \<le> dq_top d"
| "thief_rel d xs st (Steal_ring t) \<longleftrightarrow> (\<exists>n. st = Stealing n \<and> int n \<le> t) \<and> t \<le> dq_top d \<and> (t = dq_top d \<longrightarrow> xs \<noteq> [])"
| "thief_rel d xs st (Steal_get t a) \<longleftrightarrow> (\<exists>n. st = Stealing n \<and> int n \<le> t) \<and> t \<le> dq_top d \<and> a \<le> dq_ring d \<and>
     (t = dq_top d \<longrightarrow> xs \<noteq> [] \<and> heap_get d a t = Some (Some (hd xs)))"
| "thief_rel d xs st (Steal_cas t x) \<longleftrightarrow> (\<exists>n. st = Stealing n \<and> int n \<le> t) \<and> t \<le> dq_top d \<and>
     (t = dq_top d \<longrightarrow> xs \<noteq> [] \<and> x = Some (hd xs))"
| "thief_rel d xs st (Steal_done x) \<longleftrightarrow> st = Stolen x"

definition thieves_keep :: "'t deque \<Rightarrow> 't list \<Rightarrow> 't deque \<Rightarrow> 't list \<Rightarrow> bool" where
  "thieves_keep d xs d' xs' \<longleftrightarrow> dq_top d \<le> dq_top d' \<and> dq_ring d \<le> dq_ring d' \<and>
     (dq_top d' = dq_top d \<longrightarrow> xs \<noteq> [] \<longrightarrow> xs' \<noteq> [] \<and> hd xs' = hd xs \<and>
        (\<forall>a\<le>dq_ring d. heap_get d' a (dq_top d) = heap_get d a (dq_top d)))"

lemma thief_rel_keep: "thief_rel d xs st pc \<Longrightarrow> thieves_keep d xs d' xs' \<Longrightarrow> thief_rel d' xs' st pc"
  by (cases pc) (auto simp: thieves_keep_def)

definition related :: "('i, 't) atomic_deque \<Rightarrow> ('i, 't) threads \<Rightarrow> bool" where
  "related a s \<longleftrightarrow> deque_inv (shared s) (items a) (queue_end (shared s) (owner s)) \<and> int (removed a) = dq_top (shared s) \<and>
     owner_rel (shared s) (items a) (owner_call a) (owner s) \<and>
     (\<forall>i. thief_rel (shared s) (items a) (thief_calls a i) (thieves s i))"

end
