(* ===== verification/Deque_Proof.thy ===== *)
theory Deque_Proof
  imports Deque_Sim
begin

text \<open>
  Every step of the threads, seen on the atomic deque; from that the history of calls and returns is one
  of the atomic deque, every task is taken once, and no operation gets stuck or runs on.
\<close>

section \<open>The steps of the owner\<close>

text \<open>What a step of the owner has to establish: a step of the atomic deque, or none, and the relation.\<close>

definition owner_effect :: "('i, 't) atomic_deque \<Rightarrow> 't deque \<Rightarrow> 't deque \<Rightarrow> 't owner_pc \<Rightarrow> ('i, 't) atomic_deque \<Rightarrow> bool" where
  "owner_effect a d d' pc a' \<longleftrightarrow> (a' = a \<or> atomic_step a None a') \<and> thief_calls a' = thief_calls a \<and>
     deque_inv d' (items a') (queue_end d' pc) \<and> int (removed a') = dq_top d' \<and> owner_rel d' (items a') (owner_call a') pc \<and>
     thieves_keep d (items a) d' (items a')"

lemma thieves_keep_refl [simp]: "thieves_keep d xs d xs"
  by (simp add: thieves_keep_def)

lemma deque_inv_bottom [simp]: "deque_inv (d\<lparr>dq_bottom := b\<rparr>) xs e = deque_inv d xs e"
  by (simp add: deque_inv_def)

lemma thieves_keep_bottom [simp]: "thieves_keep d xs (d\<lparr>dq_bottom := b\<rparr>) xs' = thieves_keep d xs d xs'"
  by (simp add: thieves_keep_def)

lemma first_item: "deque_inv d xs e \<Longrightarrow> xs \<noteq> [] \<Longrightarrow> heap_get d (dq_ring d) (dq_top d) = Some (Some (hd xs))"
  by (auto simp: deque_inv_def hd_conv_nth dest: spec [of _ 0])

lemma push_ring_step:
  assumes inv: "deque_inv d xs (dq_bottom d)" and rel: "owner_rel d xs st (Push_ring x b t)"
    and step: "owner_step d (Push_ring x b t) = Some (d', pc)"
  shows "deque_inv d' xs (queue_end d' pc) \<and> dq_top d' = dq_top d \<and> owner_rel d' xs st pc \<and> thieves_keep d xs d' xs"
proof -
  let ?a = "dq_ring d" and ?n = "length (dq_heap d)"
  have ok: "rings_ok d" "?a < ?n" using inv by (simp_all add: deque_inv_def)
  have len: "int (length xs) = b - dq_top d" using inv rel by (simp add: deque_inv_def)
  show ?thesis
  proof (cases "b - t > cap_at d ?a - 1")
    case True
    then have d': "d' = d\<lparr>dq_heap := dq_heap d @ [new_ring (cap_at d ?a * 2)]\<rparr>" "pc = Push_copy x b t ?a ?n t"
      using step ok by (simp_all add: cap_at_def Let_def)
    have "ring_ok (new_ring (cap_at d ?a * 2))" using double_ring_ok [OF ring_ok_at [OF ok]] by (simp add: cap_at_def)
    note app = heap_append(1-3) heap_append(4) [OF ok(1) this]
    have "deque_inv d' xs (dq_bottom d')" using inv ok(2) by (simp add: d'(1) deque_inv_def app)
    moreover have "thieves_keep d xs d' xs" using ok(2) by (simp add: d'(1) thieves_keep_def app)
    ultimately show ?thesis using rel ok(2) by (auto simp: d' app)
  next
    case False
    then have "d' = d" "pc = Push_put x b ?a" using step ok by (auto simp: cap_at_def)
    then show ?thesis using inv rel False len by simp
  qed
qed

lemma push_copy_step:
  assumes inv: "deque_inv d xs (dq_bottom d)" and rel: "owner_rel d xs st (Push_copy x b t a na i)"
    and step: "owner_step d (Push_copy x b t a na i) = Some (d', pc)"
  shows "deque_inv d' xs (queue_end d' pc) \<and> dq_top d' = dq_top d \<and> owner_rel d' xs st pc \<and> thieves_keep d xs d' xs"
proof -
  have ok: "rings_ok d" "dq_ring d < length (dq_heap d)" "na < length (dq_heap d)" "a = dq_ring d" "a \<noteq> na"
    using inv rel by (simp_all add: deque_inv_def)
  show ?thesis
  proof (cases "i < b")
    case True
    obtain y where y: "heap_get d a i = Some y" using heap_get_ok [OF ok(1,2)] ok(4) by blast
    obtain hs where hs: "heap_put d na i y = Some (d\<lparr>dq_heap := hs\<rparr>)" "rings_ok (d\<lparr>dq_heap := hs\<rparr>)" "length hs = length (dq_heap d)"
      "\<And>b. cap_at (d\<lparr>dq_heap := hs\<rparr>) b = cap_at d b"
      "\<And>b j. heap_get (d\<lparr>dq_heap := hs\<rparr>) b j = (if b = na \<and> j mod cap_at d na = i mod cap_at d na then Some y else heap_get d b j)"
      by (rule heap_put_ok [OF ok(1,3), of i y]) blast
    have d': "d' = d\<lparr>dq_heap := hs\<rparr>" "pc = Push_copy x b t a na (i + 1)" using step True y hs(1) by simp_all
    have "deque_inv d' xs (dq_bottom d')" using inv ok hs by (simp add: d'(1) deque_inv_def)
    moreover have "thieves_keep d xs d' xs" using rel ok hs by (auto simp: d'(1) thieves_keep_def)
    moreover have "heap_get d' na j = heap_get d' a j" if j: "t \<le> j" "j < i + 1" for j
    proof (cases "j = i")
      case True
      then show ?thesis using y ok(5) hs(5) by (simp add: d'(1))
    next
      case False
      then have "j mod cap_at d na \<noteq> i mod cap_at d na"
        using j rel True cap_at_pos [OF ok(1,2)] ok(4) by (intro slots_differ) auto
      then show ?thesis using False j rel ok(5) hs(5) by (simp add: d'(1))
    qed
    ultimately show ?thesis using rel ok hs by (simp add: d')
  next
    case False
    then have d': "d' = d\<lparr>dq_retired := dq_retired d @ [a], dq_ring := na\<rparr>" "pc = Push_put x b na" using step by simp_all
    have len: "int (length xs) = b - dq_top d" using inv rel by (simp add: deque_inv_def)
    have "heap_get d na (dq_top d + int k) = Some (Some (xs ! k))" if "k < length xs" for k
      using that rel inv False len by (simp add: deque_inv_def)
    then have "deque_inv d' xs (dq_bottom d')" using inv rel len ok cap_at_pos [OF ok(1,2)] by (simp add: d'(1) deque_inv_def)
    moreover have "thieves_keep d xs d' xs" using rel by (simp add: d'(1) thieves_keep_def)
    ultimately show ?thesis using rel ok len cap_at_pos [OF ok(1,2)] by (simp add: d')
  qed
qed

lemma push_put_step:
  assumes inv: "deque_inv d xs (dq_bottom d)" and rel: "owner_rel d xs st (Push_put x b a)"
    and step: "owner_step d (Push_put x b a) = Some (d', pc)"
  shows "deque_inv d' xs (queue_end d' pc) \<and> dq_top d' = dq_top d \<and> owner_rel d' xs st pc \<and> thieves_keep d xs d' xs"
proof -
  have ok: "rings_ok d" "a < length (dq_heap d)" "a = dq_ring d" "b = dq_bottom d" using inv rel by (simp_all add: deque_inv_def)
  obtain hs where hs: "heap_put d a b (Some x) = Some (d\<lparr>dq_heap := hs\<rparr>)" "rings_ok (d\<lparr>dq_heap := hs\<rparr>)" "length hs = length (dq_heap d)"
    "\<And>b. cap_at (d\<lparr>dq_heap := hs\<rparr>) b = cap_at d b"
    "\<And>c j. heap_get (d\<lparr>dq_heap := hs\<rparr>) c j = (if c = a \<and> j mod cap_at d a = b mod cap_at d a then Some (Some x) else heap_get d c j)"
    by (rule heap_put_ok [OF ok(1,2), of b "Some x"]) blast
  have d': "d' = d\<lparr>dq_heap := hs\<rparr>" "pc = Push_publish x b" using step hs(1) by simp_all
  have other: "(dq_top d + int k) mod cap_at d a \<noteq> b mod cap_at d a" if "k < length xs" for k
    using that inv rel by (intro slots_differ) (auto simp: deque_inv_def)
  have "deque_inv d' xs (dq_bottom d')" using inv ok hs other by (simp add: d'(1) deque_inv_def)
  moreover have "thieves_keep d xs d' xs" using other [of 0] hs by (simp add: d'(1) thieves_keep_def)
  ultimately show ?thesis using rel ok hs by (simp add: d')
qed

lemma publish_inv:
  assumes inv: "deque_inv d xs (dq_bottom d)" and rel: "owner_rel d xs st (Push_publish x b)"
  shows "deque_inv d (xs @ [x]) (b + 1)"
proof -
  have b: "dq_top d + int (length xs) = b" using inv rel by (simp add: deque_inv_def)
  have "heap_get d (dq_ring d) (dq_top d + int k) = Some (Some ((xs @ [x]) ! k))" if k: "k < length (xs @ [x])" for k
  proof (cases "k < length xs")
    case True
    then show ?thesis using inv by (simp add: deque_inv_def nth_append)
  next
    case False
    then have "k = length xs" using k by simp
    then show ?thesis using rel b by auto
  qed
  then show ?thesis using inv rel by (simp add: deque_inv_def)
qed

lemma pop_last_inv:
  assumes "deque_inv d (ys @ [y]) e"
  shows "deque_inv d ys (e - 1)" "heap_get d (dq_ring d) (e - 1) = Some (Some y)"
proof -
  have "heap_get d (dq_ring d) (dq_top d + int k) = Some (Some ((ys @ [y]) ! k))" if "k \<le> length ys" for k
    using assms that by (simp add: deque_inv_def)
  from this [of "length ys"] this [of k for k] show "deque_inv d ys (e - 1)" "heap_get d (dq_ring d) (e - 1) = Some (Some y)"
    using assms by (auto simp: deque_inv_def nth_append)
qed

lemma owner_steps:
  assumes inv: "deque_inv d (items a) (queue_end d pc)" and rm: "int (removed a) = dq_top d"
    and rel: "owner_rel d (items a) (owner_call a) pc" and step: "owner_step d pc = Some (d', pc')"
  shows "\<exists>a'. owner_effect a d d' pc' a'"
proof (cases pc)
  case (Push_bottom x)
  then show ?thesis using assms by (intro exI [of _ a]) (auto simp: owner_effect_def)
next
  case (Push_top x b)
  then have "b - dq_top d \<le> cap_at d (dq_ring d)" using inv rel by (simp add: deque_inv_def)
  then show ?thesis using assms Push_top by (intro exI [of _ a]) (auto simp: owner_effect_def)
next
  case (Push_ring x b t)
  have "deque_inv d' (items a) (queue_end d' pc') \<and> dq_top d' = dq_top d \<and> owner_rel d' (items a) (owner_call a) pc' \<and>
      thieves_keep d (items a) d' (items a)"
    by (rule push_ring_step [OF _ rel [unfolded Push_ring] step [unfolded Push_ring]]) (use inv Push_ring in simp)
  then show ?thesis using rm by (intro exI [of _ a]) (simp add: owner_effect_def)
next
  case (Push_copy x b t na oa i)
  have "deque_inv d' (items a) (queue_end d' pc') \<and> dq_top d' = dq_top d \<and> owner_rel d' (items a) (owner_call a) pc' \<and>
      thieves_keep d (items a) d' (items a)"
    by (rule push_copy_step [OF _ rel [unfolded Push_copy] step [unfolded Push_copy]]) (use inv Push_copy in simp)
  then show ?thesis using rm by (intro exI [of _ a]) (simp add: owner_effect_def)
next
  case (Push_put x b oa)
  have "deque_inv d' (items a) (queue_end d' pc') \<and> dq_top d' = dq_top d \<and> owner_rel d' (items a) (owner_call a) pc' \<and>
      thieves_keep d (items a) d' (items a)"
    by (rule push_put_step [OF _ rel [unfolded Push_put] step [unfolded Push_put]]) (use inv Push_put in simp)
  then show ?thesis using rm by (intro exI [of _ a]) (simp add: owner_effect_def)
next
  case (Push_publish x b)
  then have d': "d' = d\<lparr>dq_bottom := b + 1\<rparr>" "pc' = Push_done" using step by simp_all
  have "atomic_step a None (a\<lparr>items := items a @ [x], owner_call := Pushed\<rparr>)"
    using rel Push_publish by (intro atomic_step.push) simp
  then show ?thesis using publish_inv [of d "items a" "owner_call a" x b] assms Push_publish
    by (intro exI [of _ "a\<lparr>items := items a @ [x], owner_call := Pushed\<rparr>"])
       (auto simp: owner_effect_def d' thieves_keep_def)
next
  case Pop_bottom
  then show ?thesis using assms by (intro exI [of _ a]) (auto simp: owner_effect_def)
next
  case (Pop_ring b)
  then show ?thesis using assms by (intro exI [of _ a]) (auto simp: owner_effect_def)
next
  case (Pop_store b oa)
  then show ?thesis using assms by (intro exI [of _ a]) (auto simp: owner_effect_def)
next
  case (Pop_top b oa)
  have b: "owner_call a = Popping" "b = dq_bottom d" "oa = dq_ring d" using rel Pop_top by simp_all
  have len: "dq_top d + int (length (items a)) = b + 1" using inv Pop_top b by (simp add: deque_inv_def)
  consider "dq_top d < b" | "dq_top d = b" | "dq_top d > b" by linarith
  then show ?thesis
  proof cases
    case 1
    then have d': "d' = d" "pc' = Pop_get b oa (dq_top d)" using step Pop_top by auto
    obtain ys y where ys: "items a = ys @ [y]" "ys \<noteq> []" using len 1 by (cases "items a" rule: rev_cases) auto
    let ?a = "a\<lparr>items := ys, removed := removed a + (if ys = [] then 1 else 0), owner_call := Popped (Some y)\<rparr>"
    have "atomic_step a None ?a" using b(1) ys(1) by (rule atomic_step.pop)
    then show ?thesis using pop_last_inv [of d ys y "b + 1"] inv rm Pop_top b ys d' 1
      by (intro exI [of _ ?a]) (simp add: owner_effect_def thieves_keep_def)
  next
    case 2
    then have "d' = d" "pc' = Pop_get b oa (dq_top d)" using step Pop_top by auto
    then show ?thesis using inv rm Pop_top b 2 by (intro exI [of _ a]) (simp add: owner_effect_def)
  next
    case 3
    then have d': "d' = d" "pc' = Pop_restore b None" using step Pop_top by simp_all
    have "items a = []" using len 3 by (cases "items a") auto
    then have "atomic_step a None (a\<lparr>owner_call := Popped None\<rparr>)" using b(1) by (intro atomic_step.pop_empty)
    then show ?thesis using inv rm Pop_top b d' \<open>items a = []\<close>
      by (intro exI [of _ "a\<lparr>owner_call := Popped None\<rparr>"]) (simp add: owner_effect_def)
  qed
next
  case (Pop_get b oa t)
  obtain x where x: "heap_get d oa b = Some x" "d' = d" "pc' = (if t = b then Pop_cas b t x else Pop_done x)"
    using step Pop_get by (auto simp: bind_eq_Some_conv)
  show ?thesis
  proof (cases "t = b")
    case True
    have "x = Some (hd (items a))" if "items a \<noteq> []"
    proof -
      have "0 < length (items a)" "dq_top d + int (length (items a)) = b + 1" "b \<le> dq_top d" "oa = dq_ring d"
        using that inv rel Pop_get True by (auto simp: deque_inv_def)
      then have "dq_top d = b" by linarith
      then show ?thesis using first_item [OF inv that] x(1) \<open>oa = dq_ring d\<close> by simp
    qed
    then show ?thesis using assms Pop_get x True by (intro exI [of _ a]) (auto simp: owner_effect_def)
  next
    case False
    then show ?thesis using assms Pop_get x by (intro exI [of _ a]) (auto simp: owner_effect_def)
  qed
next
  case (Pop_cas b t x)
  have b: "owner_call a = Popping" "b = dq_bottom d" "t = b" "t \<le> dq_top d" using rel Pop_cas by simp_all
  have len: "dq_top d + int (length (items a)) = b + 1" using inv Pop_cas b by (simp add: deque_inv_def)
  show ?thesis
  proof (cases "dq_top d = t")
    case True
    then have d': "d' = d\<lparr>dq_top := t + 1\<rparr>" "pc' = Pop_restore b x" using step Pop_cas by (simp_all add: cas_top_def)
    obtain y where y: "items a = [] @ [y]" using len True b(3) by (cases "items a") auto
    let ?a = "a\<lparr>items := [], removed := removed a + 1, owner_call := Popped (Some y)\<rparr>"
    have "atomic_step a None ?a" using atomic_step.pop [OF b(1) y] by simp
    then show ?thesis using assms Pop_cas b y d' True
      by (intro exI [of _ ?a]) (simp add: owner_effect_def thieves_keep_def deque_inv_def)
  next
    case False
    then have d': "d' = d" "pc' = Pop_restore b None" using step Pop_cas by (simp_all add: cas_top_def)
    have "items a = []" using len False b by (cases "items a") auto
    then have "atomic_step a None (a\<lparr>owner_call := Popped None\<rparr>)" using b(1) by (intro atomic_step.pop_empty)
    then show ?thesis using inv rm Pop_cas b d' \<open>items a = []\<close>
      by (intro exI [of _ "a\<lparr>owner_call := Popped None\<rparr>"]) (simp add: owner_effect_def)
  qed
next
  case (Pop_restore b x)
  then show ?thesis using assms by (intro exI [of _ a]) (auto simp: owner_effect_def)
qed (use step in simp_all)

section \<open>The steps of a thief\<close>

text \<open>When a thief removes the first item, the relation of the owner holds for the rest.\<close>

lemma queue_end_top [simp]: "queue_end (d\<lparr>dq_top := t\<rparr>) pc = queue_end d pc"
  by (cases pc) simp_all

lemma take_inv: "deque_inv d (y # ys) e \<Longrightarrow> deque_inv (d\<lparr>dq_top := dq_top d + 1\<rparr>) ys e"
proof -
  assume inv: "deque_inv d (y # ys) e"
  have "heap_get d (dq_ring d) (dq_top d + 1 + int k) = Some (Some (ys ! k))" if "k < length ys" for k
  proof -
    have "heap_get d (dq_ring d) (dq_top d + int (Suc k)) = Some (Some ((y # ys) ! Suc k))"
      using inv that unfolding deque_inv_def by (metis Suc_less_eq length_Cons)
    then show ?thesis by (simp add: ac_simps)
  qed
  then show ?thesis using inv by (simp add: deque_inv_def)
qed

lemma owner_rel_take:
  assumes "owner_rel d (y # ys) st pc" "deque_inv d (y # ys) (queue_end d pc)"
  shows "owner_rel (d\<lparr>dq_top := dq_top d + 1\<rparr>) ys st pc"
proof (cases pc)
  case (Pop_cas b t x)
  then have "dq_top d + int (length ys) = b" "b \<le> dq_top d" using assms by (auto simp: deque_inv_def)
  then have "ys = []" by (cases ys) auto
  then show ?thesis using assms Pop_cas by simp
qed (use assms in \<open>auto simp: deque_inv_def\<close>)

lemma owner_popping:
  assumes "deque_inv d xs (queue_end d pc)" "owner_rel d xs st pc" "dq_bottom d \<le> dq_top d" "xs \<noteq> []"
  shows "st = Popping \<and> (\<exists>y. xs = [y])"
proof -
  have e: "dq_top d + int (length xs) = queue_end d pc" "0 < length xs" using assms(1,4) by (simp_all add: deque_inv_def)
  have q: "queue_end d pc \<noteq> dq_bottom d" using e assms(3) by linarith
  have "queue_end d pc \<le> dq_bottom d + 1" by (cases pc) simp_all
  then have "length xs = 1" using e assms(3) by linarith
  moreover have "st = Popping" using q assms(2,4) by (cases pc) (auto split: if_splits)
  ultimately show ?thesis by (simp add: length_Suc_conv)
qed

text \<open>The effect of a step of the thief \<open>i\<close>.\<close>

definition thief_effect :: "('i, 't) atomic_deque \<Rightarrow> 't deque \<Rightarrow> 't owner_pc \<Rightarrow> 'i \<Rightarrow> 't deque \<Rightarrow> 't thief_pc \<Rightarrow> ('i, 't) atomic_deque \<Rightarrow> bool" where
  "thief_effect a d own i d' pc a' \<longleftrightarrow> (a' = a \<or> atomic_step a None a') \<and> owner_call a' = owner_call a \<and>
     (\<forall>j. j \<noteq> i \<longrightarrow> thief_calls a' j = thief_calls a j) \<and>
     deque_inv d' (items a') (queue_end d' own) \<and> int (removed a') = dq_top d' \<and> owner_rel d' (items a') (owner_call a') own \<and>
     thief_rel d' (items a') (thief_calls a' i) pc \<and> thieves_keep d (items a) d' (items a')"

lemma thief_steps:
  assumes inv: "deque_inv d (items a) (queue_end d own)" and rm: "int (removed a) = dq_top d"
    and own: "owner_rel d (items a) (owner_call a) own"
    and rel: "thief_rel d (items a) (thief_calls a i) pc" and step: "thief_step d pc = Some (d', pc')"
  shows "\<exists>a'. thief_effect a d own i d' pc' a'"
proof (cases pc)
  case Steal_top
  then show ?thesis using assms by (intro exI [of _ a]) (auto simp: thief_effect_def)
next
  case (Steal_bottom t)
  obtain n where n: "thief_calls a i = Stealing n" "int n \<le> t" "t \<le> dq_top d" using rel Steal_bottom by auto
  show ?thesis
  proof (cases "t < dq_bottom d")
    case True
    have "dq_bottom d \<le> queue_end d own" by (cases own) simp_all
    then have "t = dq_top d \<longrightarrow> items a \<noteq> []" using True inv by (auto simp: deque_inv_def)
    then show ?thesis using assms Steal_bottom True n by (intro exI [of _ a]) (auto simp: thief_effect_def)
  next
    case False
    then have d': "d' = d" "pc' = Steal_done None" using step Steal_bottom by simp_all
    have "items a = [] \<or> n < removed a \<or> owner_call a = Popping \<and> (\<exists>y. items a = [y])"
    proof (cases "int n < dq_top d")
      case True
      then show ?thesis using rm by simp
    next
      case less: False
      then have "dq_bottom d \<le> dq_top d" using False n by linarith
      then show ?thesis using owner_popping [OF inv own] by blast
    qed
    with n(1) have "atomic_step a None (a\<lparr>thief_calls := (thief_calls a)(i := Stolen None)\<rparr>)" by (rule atomic_step.steal_fails)
    then show ?thesis using inv rm own d'
      by (intro exI [of _ "a\<lparr>thief_calls := (thief_calls a)(i := Stolen None)\<rparr>"]) (simp add: thief_effect_def)
  qed
next
  case (Steal_ring t)
  then show ?thesis using assms first_item [of d "items a"] by (intro exI [of _ a]) (auto simp: thief_effect_def)
next
  case (Steal_get t r)
  then show ?thesis using assms by (intro exI [of _ a]) (auto simp: thief_effect_def bind_eq_Some_conv)
next
  case (Steal_cas t x)
  obtain n where n: "thief_calls a i = Stealing n" "int n \<le> t" "t \<le> dq_top d" using rel Steal_cas by auto
  show ?thesis
  proof (cases "dq_top d = t")
    case True
    then have d': "d' = d\<lparr>dq_top := dq_top d + 1\<rparr>" "pc' = Steal_done x" using step Steal_cas by (simp_all add: cas_top_def)
    obtain y ys where y: "items a = y # ys" "x = Some y" using rel Steal_cas True by (cases "items a") auto
    let ?a = "a\<lparr>items := ys, removed := removed a + 1, thief_calls := (thief_calls a)(i := Stolen (Some y))\<rparr>"
    have "atomic_step a None ?a" using n(1) y(1) by (rule atomic_step.steal)
    moreover have "deque_inv d' ys (queue_end d' own)" using take_inv [of d y ys] inv y(1) by (simp add: d'(1))
    moreover have "owner_rel d' ys (owner_call a) own" using owner_rel_take [of d y ys] own inv y(1) by (simp add: d'(1))
    ultimately show ?thesis using rm d' y by (intro exI [of _ ?a]) (simp add: thief_effect_def thieves_keep_def)
  next
    case False
    then have d': "d' = d" "pc' = Steal_done None" using step Steal_cas by (simp_all add: cas_top_def)
    have "n < removed a" using False n rm by linarith
    with n(1) have "atomic_step a None (a\<lparr>thief_calls := (thief_calls a)(i := Stolen None)\<rparr>)"
      by (intro atomic_step.steal_fails) auto
    then show ?thesis using inv rm own d'
      by (intro exI [of _ "a\<lparr>thief_calls := (thief_calls a)(i := Stolen None)\<rparr>"]) (simp add: thief_effect_def)
  qed
qed (use step in simp_all)

section \<open>Histories\<close>

lemma related_start: "related atomic_start (start (2 ^ k))"
  by (auto simp: related_def atomic_start_def start_def new_deque_def deque_inv_def rings_ok_def cap_at_def new_ring_ok)

lemma runs_maybe: "a' = a \<or> step a None a' \<Longrightarrow> runs step a [] a'"
  using runs.stay runs_silent by metis

lemma dq_simulates:
  assumes "related a s" "dq_step s l s'"
  shows "\<exists>a'. runs atomic_step a (label_trace l) a' \<and> related a' s'"
  using assms(2,1)
proof (cases rule: dq_step.cases)
  case (call_push x)
  then have "runs atomic_step a [Call_push x] (a\<lparr>owner_call := Pushing x\<rparr>)"
    using assms(1) by (intro runs_one atomic_step.call_push) (simp add: related_def)
  then show ?thesis using call_push assms(1)
    by (intro exI [of _ "a\<lparr>owner_call := Pushing x\<rparr>"]) (simp add: related_def)
next
  case ret_push
  then have "runs atomic_step a [Ret_push] (a\<lparr>owner_call := Owner_free\<rparr>)"
    using assms(1) by (intro runs_one atomic_step.ret_push) (simp add: related_def)
  then show ?thesis using ret_push assms(1)
    by (intro exI [of _ "a\<lparr>owner_call := Owner_free\<rparr>"]) (simp add: related_def)
next
  case call_pop
  then have "runs atomic_step a [Call_pop] (a\<lparr>owner_call := Popping\<rparr>)"
    using assms(1) by (intro runs_one atomic_step.call_pop) (simp add: related_def)
  then show ?thesis using call_pop assms(1)
    by (intro exI [of _ "a\<lparr>owner_call := Popping\<rparr>"]) (simp add: related_def)
next
  case (ret_pop x)
  then have "runs atomic_step a [Ret_pop x] (a\<lparr>owner_call := Owner_free\<rparr>)"
    using assms(1) by (intro runs_one atomic_step.ret_pop) (simp add: related_def)
  then show ?thesis using ret_pop assms(1)
    by (intro exI [of _ "a\<lparr>owner_call := Owner_free\<rparr>"]) (simp add: related_def)
next
  case (owner d pc)
  obtain a' where a': "owner_effect a (shared s) d pc a'"
    using owner_steps [of "shared s" a "owner s" d pc] assms(1) owner(3) by (auto simp: related_def)
  then have "related a' s'" using assms(1) owner(2) thief_rel_keep by (fastforce simp: related_def owner_effect_def)
  moreover have "runs atomic_step a [] a'" using a' by (intro runs_maybe) (simp add: owner_effect_def)
  ultimately show ?thesis using owner(1) by (intro exI [of _ a']) simp
next
  case (call_steal i)
  let ?a = "a\<lparr>thief_calls := (thief_calls a)(i := Stealing (removed a))\<rparr>"
  have "runs atomic_step a [Call_steal i] ?a"
    using assms(1) call_steal(3) by (intro runs_one atomic_step.call_steal) (auto simp: related_def dest: spec [of _ i])
  then show ?thesis using call_steal assms(1) by (intro exI [of _ ?a]) (simp add: related_def)
next
  case (ret_steal i x)
  let ?a = "a\<lparr>thief_calls := (thief_calls a)(i := Thief_free)\<rparr>"
  have "runs atomic_step a [Ret_steal i x] ?a"
    using assms(1) ret_steal(3) by (intro runs_one atomic_step.ret_steal) (auto simp: related_def dest: spec [of _ i])
  then show ?thesis using ret_steal assms(1) by (intro exI [of _ ?a]) (simp add: related_def)
next
  case (thief i d pc)
  obtain a' where a': "thief_effect a (shared s) (owner s) i d pc a'"
    using thief_steps [of "shared s" a "owner s" i "thieves s i" d pc] assms(1) thief(3) by (auto simp: related_def)
  then have "related a' s'" using assms(1) thief(2) thief_rel_keep by (fastforce simp: related_def thief_effect_def)
  moreover have "runs atomic_step a [] a'" using a' by (intro runs_maybe) (simp add: thief_effect_def)
  ultimately show ?thesis using thief(1) by (intro exI [of _ a']) simp
qed

interpretation deque_trace: trace_simulation atomic_step dq_step related
  by unfold_locales (rule dq_simulates)

end
