(* ===== verification/Deque_Main.thy ===== *)
theory Deque_Main
  imports Deque_Proof
begin

text \<open>The theorems about the deque of a worker, and schedules that can be evaluated.\<close>

section \<open>Schedules\<close>

text \<open>A schedule says who makes the next step; it can be run.\<close>

datatype ('i, 't) action = Client "('i, 't) event" | Own | Thief 'i

fun perform :: "('i, 't) threads \<Rightarrow> ('i, 't) action \<Rightarrow> ('i, 't) threads option" where
  "perform s (Client (Call_push x)) = (if owner s = Owner_idle then Some (s\<lparr>owner := Push_bottom x\<rparr>) else None)"
| "perform s (Client Ret_push) = (if owner s = Push_done then Some (s\<lparr>owner := Owner_idle\<rparr>) else None)"
| "perform s (Client Call_pop) = (if owner s = Owner_idle then Some (s\<lparr>owner := Pop_bottom\<rparr>) else None)"
| "perform s (Client (Ret_pop x)) = (if owner s = Pop_done x then Some (s\<lparr>owner := Owner_idle\<rparr>) else None)"
| "perform s (Client (Call_steal i)) =
     (if thieves s i = Thief_idle then Some (s\<lparr>thieves := (thieves s)(i := Steal_top)\<rparr>) else None)"
| "perform s (Client (Ret_steal i x)) =
     (if thieves s i = Steal_done x then Some (s\<lparr>thieves := (thieves s)(i := Thief_idle)\<rparr>) else None)"
| "perform s Own = map_option (\<lambda>(d, pc). s\<lparr>shared := d, owner := pc\<rparr>) (owner_step (shared s) (owner s))"
| "perform s (Thief i) =
     map_option (\<lambda>(d, pc). s\<lparr>shared := d, thieves := (thieves s)(i := pc)\<rparr>) (thief_step (shared s) (thieves s i))"

definition label_of :: "('i, 't) action \<Rightarrow> ('i, 't) event option" where
  "label_of a = (case a of Client e \<Rightarrow> Some e | _ \<Rightarrow> None)"

lemma perform_step: "perform s a = Some t \<Longrightarrow> dq_step s (label_of a) t"
  by (induction s a rule: perform.induct) (auto simp: label_of_def intro: dq_step.intros split: if_splits)

fun run_schedule :: "('i, 't) threads \<Rightarrow> ('i, 't) action list \<Rightarrow> ('i, 't) threads option" where
  "run_schedule s [] = Some s"
| "run_schedule s (a # as) = do { t \<leftarrow> perform s a; run_schedule t as }"

lemma run_schedule_runs:
  "run_schedule s as = Some t \<Longrightarrow> runs dq_step s (concat (map (\<lambda>a. label_trace (label_of a)) as)) t"
proof (induction as arbitrary: s)
  case Nil
  then show ?case by (simp add: runs.stay)
next
  case (Cons a as)
  then obtain u where u: "perform s a = Some u" "run_schedule u as = Some t" by (auto simp: bind_eq_Some_conv)
  have "runs dq_step s (label_trace (label_of a)) u"
    using perform_step [OF u(1)] by (cases "label_of a") (auto intro: runs_one runs_silent)
  from runs_append [OF Cons.IH [OF u(2)] this] show ?case by simp
qed

text \<open>A push, then a steal that reads the task while the owner pops it: the thief wins.\<close>

definition race :: "(bool, nat) action list" where
  "race = [Client (Call_push 7), Own, Own, Own, Own, Own, Client Ret_push,
     Client (Call_steal True), Thief True, Thief True, Thief True, Thief True,
     Client Call_pop, Own, Own, Own, Own, Own, Thief True, Own, Own,
     Client (Ret_steal True (Some 7)), Client (Ret_pop None)]"

definition race_history :: "(bool, nat) event list" where
  "race_history = [Call_push 7, Ret_push, Call_steal True, Call_pop, Ret_steal True (Some 7), Ret_pop None]"

definition summary :: "(bool, nat) threads option \<Rightarrow> (nat deque \<times> nat owner_pc \<times> nat thief_pc \<times> nat thief_pc) option" where
  "summary r = map_option (\<lambda>s. (shared s, owner s, thieves s True, thieves s False)) r"

lemma race_end:
  "summary (run_schedule (start 2) race) =
     Some (\<lparr>dq_top = 1, dq_bottom = 1, dq_ring = 0, dq_retired = [], dq_heap = [\<lparr>ring_cap = 2, ring_mask = 1, ring_slots = [Some 7, None]\<rparr>]\<rparr>,
       Owner_idle, Thief_idle, Thief_idle)"
  by code_simp

lemma race_runs:
  obtains s where "runs dq_step (start (2 ^ 1)) race_history s" "owner s = Owner_idle" "\<And>i. thieves s i = Thief_idle"
    "shared s = \<lparr>dq_top = 1, dq_bottom = 1, dq_ring = 0, dq_retired = [], dq_heap = [\<lparr>ring_cap = 2, ring_mask = 1, ring_slots = [Some 7, None]\<rparr>]\<rparr>"
proof -
  obtain s where s: "run_schedule (start 2) race = Some s" "owner s = Owner_idle" "thieves s True = Thief_idle" "thieves s False = Thief_idle"
    "shared s = \<lparr>dq_top = 1, dq_bottom = 1, dq_ring = 0, dq_retired = [], dq_heap = [\<lparr>ring_cap = 2, ring_mask = 1, ring_slots = [Some 7, None]\<rparr>]\<rparr>"
    using race_end by (auto simp: summary_def)
  have "thieves s i = Thief_idle" for i using s(3,4) by (cases i) simp_all
  moreover have "concat (map (\<lambda>a. label_trace (label_of a)) race) = race_history"
    by (simp add: race_def race_history_def label_of_def)
  ultimately show thesis using that [of s] run_schedule_runs [OF s(1)] s by simp
qed

section \<open>Linearizability\<close>

lemma reachable_related:
  "runs dq_step (start (2 ^ k)) es s \<Longrightarrow> \<exists>a. runs atomic_step atomic_start es a \<and> related a s"
  using deque_trace.runs_related related_start by blast

text \<open>
  C14: The deque is linearizable. Whatever the owner calls and however the single accesses of the owner
  and of any number of thieves interleave, with rings of any initial size that is a power of two, the
  history of calls and returns is one of the atomic deque, in which each call takes effect at one
  instant: push at one end, pop at the same end, steal at the other; a steal fails only if the deque is
  empty or it competes with another removal.
\<close>

theorem deque_linearizable:
  assumes "runs dq_step (start (2 ^ k)) es s"
  shows "\<exists>a. runs atomic_step atomic_start es a"
  using reachable_related [OF assms] by blast

theorem deque_linearizable_witness: "\<exists>a. runs atomic_step atomic_start race_history a"
proof -
  obtain s where "runs dq_step (start (2 ^ 1)) race_history s" by (rule race_runs)
  then show ?thesis by (rule deque_linearizable)
qed

section \<open>Every task once\<close>

definition contents :: "'t deque \<Rightarrow> 't option list" where
  "contents d = map (\<lambda>n. Option.bind (heap_get d (dq_ring d) (dq_top d + int n)) id) [0..<nat (dq_bottom d - dq_top d)]"

definition quiet :: "('i, 't) threads \<Rightarrow> bool" where
  "quiet s \<longleftrightarrow> owner s = Owner_idle \<and> (\<forall>i. thieves s i = Thief_idle)"

lemma related_quiet:
  assumes "related a s" "quiet s"
  shows "contents (shared s) = map Some (items a)" "in_hand (a :: ('i :: finite, 't) atomic_deque) = {#}"
    "dq_empty (shared s) \<longleftrightarrow> items a = []"
proof -
  let ?d = "shared s"
  have inv: "deque_inv ?d (items a) (dq_bottom ?d)" using assms by (simp add: related_def quiet_def)
  then have len: "nat (dq_bottom ?d - dq_top ?d) = length (items a)" by (auto simp: deque_inv_def)
  show "contents ?d = map Some (items a)"
    using inv by (intro nth_equalityI) (auto simp: contents_def len deque_inv_def)
  have "thief_calls a i = Thief_free" for i using assms by (auto simp: related_def quiet_def dest: spec [of _ i])
  moreover have "owner_call a = Owner_free" using assms by (simp add: related_def quiet_def)
  ultimately show "in_hand a = {#}" by (simp add: in_hand_def)
  show "dq_empty ?d \<longleftrightarrow> items a = []" using inv by (cases "items a") (auto simp: dq_empty_def deque_inv_def)
qed

text \<open>
  C15: Every task is dequeued exactly once. In every run the tasks returned by pops and steals are,
  counted with multiplicity, among those pushed; and when no call is in progress, the tasks pushed are
  the tasks returned and those still in the ring between \<open>top_\<close> and \<open>bottom_\<close>, and \<open>empty\<close> says whether there
  are any.
\<close>

theorem deque_exactly_once:
  fixes s :: "('i :: finite, 't) threads"
  assumes "runs dq_step (start (2 ^ k)) es s"
  shows "taken_in es \<subseteq># pushed_in es \<and>
    (quiet s \<longrightarrow> (\<exists>xs. contents (shared s) = map Some xs \<and> pushed_in es = taken_in es + mset xs \<and>
       (dq_empty (shared s) \<longleftrightarrow> xs = [])))"
proof -
  obtain a where a: "runs atomic_step atomic_start es a" "related a s" using reachable_related [OF assms] by blast
  have c: "pushed_in es = taken_in es + mset (items a) + in_hand a"
    using exactly_once.runs_inv [OF a(1)] by (simp add: conserved_def tasks_of_def)
  show ?thesis
  proof (intro conjI impI)
    show "taken_in es \<subseteq># pushed_in es" unfolding c by (simp add: add.assoc)
    assume "quiet s"
    then show "\<exists>xs. contents (shared s) = map Some xs \<and> pushed_in es = taken_in es + mset xs \<and> (dq_empty (shared s) \<longleftrightarrow> xs = [])"
      using related_quiet [OF a(2)] c by (intro exI [of _ "items a"]) simp
  qed
qed

theorem deque_exactly_once_witness:
  "\<exists>s :: (bool, nat) threads. runs dq_step (start (2 ^ 1)) race_history s \<and> quiet s \<and>
    pushed_in race_history = {#7#} \<and> taken_in race_history \<subseteq># pushed_in race_history"
proof -
  obtain s :: "(bool, nat) threads" where s: "runs dq_step (start (2 ^ 1)) race_history s" "quiet s"
    using race_runs by (metis quiet_def)
  from deque_exactly_once [OF s(1)] have "taken_in race_history \<subseteq># pushed_in race_history" ..
  moreover have "pushed_in race_history = {#7#}" by (simp add: pushed_in_def race_history_def map_filter_def)
  ultimately show ?thesis using s by blast
qed

section \<open>Every call ends\<close>

definition owner_busy :: "'t owner_pc \<Rightarrow> bool" where
  "owner_busy pc \<longleftrightarrow> (case pc of Owner_idle \<Rightarrow> False | Push_done \<Rightarrow> False | Pop_done x \<Rightarrow> False | _ \<Rightarrow> True)"

definition thief_busy :: "'t thief_pc \<Rightarrow> bool" where
  "thief_busy pc \<longleftrightarrow> (case pc of Thief_idle \<Rightarrow> False | Steal_done x \<Rightarrow> False | _ \<Rightarrow> True)"

text \<open>The own steps that a call has left at most.\<close>

fun owner_work :: "'t deque \<Rightarrow> 't owner_pc \<Rightarrow> nat" where
  "owner_work d (Push_bottom x) = nat (dq_bottom d - dq_top d) + 8"
| "owner_work d (Push_top x b) = nat (b - dq_top d) + 7"
| "owner_work d (Push_ring x b t) = nat (b - t) + 6"
| "owner_work d (Push_copy x b t a na i) = nat (b - i) + 4"
| "owner_work d (Push_put x b a) = 3"
| "owner_work d (Push_publish x b) = 2"
| "owner_work d Pop_bottom = 7"
| "owner_work d (Pop_ring b) = 6"
| "owner_work d (Pop_store b a) = 5"
| "owner_work d (Pop_top b a) = 4"
| "owner_work d (Pop_get b a t) = 3"
| "owner_work d (Pop_cas b t x) = 2"
| "owner_work d (Pop_restore b x) = 1"
| "owner_work d _ = 0"

fun thief_work :: "'t thief_pc \<Rightarrow> nat" where
  "thief_work Steal_top = 5"
| "thief_work (Steal_bottom t) = 4"
| "thief_work (Steal_ring t) = 3"
| "thief_work (Steal_get t a) = 2"
| "thief_work (Steal_cas t x) = 1"
| "thief_work _ = 0"

lemma owner_goes_on:
  assumes inv: "deque_inv d xs (queue_end d pc)" and rel: "owner_rel d xs st pc" and busy: "owner_busy pc"
  shows "\<exists>d' pc'. owner_step d pc = Some (d', pc') \<and> owner_work d' pc' < owner_work d pc"
proof -
  have ok: "rings_ok d" "dq_ring d < length (dq_heap d)" using inv by (simp_all add: deque_inv_def)
  show ?thesis
  proof (cases pc)
    case (Push_ring x b t)
    then show ?thesis using ok by (auto simp: Let_def)
  next
    case (Push_copy x b t a na i)
    then have a: "a = dq_ring d" "na < length (dq_heap d)" using rel by simp_all
    obtain y where y: "heap_get d a i = Some y" using heap_get_ok [OF ok] a(1) by blast
    obtain hs where "heap_put d na i y = Some (d\<lparr>dq_heap := hs\<rparr>)" by (rule heap_put_ok [OF ok(1) a(2), of i y])
    then show ?thesis using Push_copy y by (cases "i < b") auto
  next
    case (Push_put x b a)
    then have a: "a < length (dq_heap d)" using rel ok by simp
    obtain hs where "heap_put d a b (Some x) = Some (d\<lparr>dq_heap := hs\<rparr>)" by (rule heap_put_ok [OF ok(1) a, of b "Some x"])
    then show ?thesis using Push_put by simp
  next
    case (Pop_get b a t)
    then have "a = dq_ring d" using rel by simp
    then obtain y where "heap_get d a b = Some y" using heap_get_ok [OF ok] by blast
    then show ?thesis using Pop_get by simp
  qed (use busy in \<open>auto simp: owner_busy_def cas_top_def Let_def\<close>)
qed

lemma thief_goes_on:
  assumes inv: "deque_inv d xs e" and rel: "thief_rel d xs st pc" and busy: "thief_busy pc"
  shows "\<exists>d' pc'. thief_step d pc = Some (d', pc') \<and> thief_work pc' < thief_work pc"
proof (cases pc)
  case (Steal_get t a)
  then have "a < length (dq_heap d)" "rings_ok d" using inv rel by (auto simp: deque_inv_def)
  then obtain y where "heap_get d a t = Some y" using heap_get_ok by blast
  then show ?thesis using Steal_get by simp
qed (use busy in \<open>auto simp: thief_busy_def cas_top_def\<close>)

lemma thief_leaves_work:
  "thief_step d pc = Some (d', pc') \<Longrightarrow> dq_top d \<le> dq_top d' \<Longrightarrow> owner_work d' own \<le> owner_work d own"
  by (cases pc; cases own) (auto simp: cas_top_def bind_eq_Some_conv split: if_splits)

text \<open>
  C16: The deque is wait-free and nothing in it is undefined. In every state of every run, a thread
  inside of a call can make its next step (the ring and the slot it reads or writes exist), that step
  lowers the number of own steps the call has left, which for a push is at most eight more than the
  items in the deque and for the others at most seven; and no step of a thief raises that number for
  the owner.
\<close>

theorem deque_wait_free:
  assumes "runs dq_step (start (2 ^ k)) es s"
  shows "(owner_busy (owner s) \<longrightarrow> (\<exists>d pc. owner_step (shared s) (owner s) = Some (d, pc) \<and> owner_work d pc < owner_work (shared s) (owner s))) \<and>
    (\<forall>i. thief_busy (thieves s i) \<longrightarrow> (\<exists>d pc. thief_step (shared s) (thieves s i) = Some (d, pc) \<and> thief_work pc < thief_work (thieves s i))) \<and>
    (\<forall>i d pc. thief_step (shared s) (thieves s i) = Some (d, pc) \<longrightarrow> owner_work d (owner s) \<le> owner_work (shared s) (owner s))"
proof -
  obtain a where "related a s" using reachable_related [OF assms] by blast
  then have inv: "deque_inv (shared s) (items a) (queue_end (shared s) (owner s))"
    and own: "owner_rel (shared s) (items a) (owner_call a) (owner s)"
    and thieves: "thief_rel (shared s) (items a) (thief_calls a i) (thieves s i)" for i
    by (simp_all add: related_def)
  have "owner_work d (owner s) \<le> owner_work (shared s) (owner s)" if "thief_step (shared s) (thieves s i) = Some (d, pc)" for i d pc
  proof -
    have "dq_top (shared s) \<le> dq_top d" using that by (cases "thieves s i") (auto simp: cas_top_def bind_eq_Some_conv split: if_splits)
    then show ?thesis using thief_leaves_work [OF that] by blast
  qed
  then show ?thesis using owner_goes_on [OF inv own] thief_goes_on [OF inv thieves] by blast
qed

theorem deque_wait_free_witness:
  "\<exists>s :: (bool, nat) threads. runs dq_step (start (2 ^ 1)) race_history s \<and>
    (\<forall>i d pc. thief_step (shared s) (thieves s i) = Some (d, pc) \<longrightarrow> owner_work d (owner s) \<le> owner_work (shared s) (owner s))"
proof -
  obtain s :: "(bool, nat) threads" where s: "runs dq_step (start (2 ^ 1)) race_history s" by (rule race_runs)
  from deque_wait_free [OF s] s show ?thesis by blast
qed

section \<open>The rings\<close>

text \<open>The rings that the destructor deletes.\<close>

definition deque_frees :: "'t deque \<Rightarrow> nat list" where
  "deque_frees d = dq_ring d # dq_retired d"

definition rings_inv :: "('i, 't) event list \<Rightarrow> ('i, 't) threads \<Rightarrow> bool" where
  "rings_inv es s \<longleftrightarrow> (case owner s of
      Push_copy x b t a na i \<Rightarrow> a = dq_ring (shared s) \<and> length (dq_heap (shared s)) = Suc na \<and>
        dq_retired (shared s) @ [dq_ring (shared s)] = [0..<na]
    | _ \<Rightarrow> dq_retired (shared s) @ [dq_ring (shared s)] = [0..<length (dq_heap (shared s))])"

lemma heap_put_frame:
  "heap_put d a i x = Some d' \<Longrightarrow> dq_ring d' = dq_ring d \<and> dq_retired d' = dq_retired d \<and> length (dq_heap d') = length (dq_heap d)"
  by (auto simp: heap_put_def bind_eq_Some_conv)

lemma thief_frame:
  "thief_step d pc = Some (d', pc') \<Longrightarrow> dq_ring d' = dq_ring d \<and> dq_retired d' = dq_retired d \<and> dq_heap d' = dq_heap d"
  by (cases pc) (auto simp: cas_top_def bind_eq_Some_conv split: if_splits)

lemma rings_owner_step:
  assumes "rings_inv es s" "owner_step (shared s) (owner s) = Some (d, pc)"
  shows "rings_inv es' (s\<lparr>shared := d, owner := pc\<rparr>)"
  using assms
  by (cases "owner s") (auto simp: rings_inv_def Let_def bind_eq_Some_conv cas_top_def dest: heap_put_frame split: if_splits)

lemma rings_step: "rings_inv es s \<Longrightarrow> dq_step s l t \<Longrightarrow> rings_inv (es @ label_trace l) t"
proof (erule dq_step.cases, goal_cases)
  case (5 s' d pc)
  then show ?case using rings_owner_step by blast
qed (auto simp: rings_inv_def dest: thief_frame split: owner_pc.splits)

interpretation rings: trace_invariant dq_step rings_inv "start c"
  by unfold_locales (simp add: rings_inv_def start_def new_deque_def, rule rings_step)

text \<open>
  C17: No ring leaks and none is deleted twice: when the owner is in no call, the destructor deletes
  every ring that was ever allocated, each once; and none is deleted before.
\<close>

theorem deque_frees_rings_once:
  assumes "runs dq_step (start c) es s" "owner s = Owner_idle"
  shows "mset (deque_frees (shared s)) = mset [0..<length (dq_heap (shared s))]"
proof -
  have "dq_retired (shared s) @ [dq_ring (shared s)] = [0..<length (dq_heap (shared s))]"
    using rings.runs_inv [OF assms(1)] assms(2) by (simp add: rings_inv_def)
  from arg_cong [OF this, of mset] show ?thesis by (simp add: deque_frees_def)
qed

theorem deque_frees_rings_once_witness:
  "\<exists>s :: (bool, nat) threads. runs dq_step (start (2 ^ 1)) race_history s \<and> mset (deque_frees (shared s)) = mset [0..<length (dq_heap (shared s))]"
proof -
  obtain s :: "(bool, nat) threads" where s: "runs dq_step (start (2 ^ 1)) race_history s" "owner s = Owner_idle" by (rule race_runs)
  from deque_frees_rings_once [OF s] s(1) show ?thesis by blast
qed

section \<open>A slot that was never written\<close>

text \<open>
  A deque of one slot; the first thief is about to load the ring when the second takes its item and the
  owner has published a larger ring, which does not hold the item any more.
\<close>

definition late_thief :: "(bool, nat) action list" where
  "late_thief = [Client (Call_push 7), Own, Own, Own, Own, Own, Client Ret_push,
     Client (Call_steal True), Thief True, Thief True,
     Client (Call_steal False), Thief False, Thief False, Thief False, Thief False, Thief False,
     Client (Call_push 8), Own, Own, Own, Own, Own, Client Ret_push,
     Client (Call_push 9), Own, Own, Own, Own, Own, Thief True, Thief True]"

text \<open>
  A thief can read a slot that nobody has written. The slots of a new ring are not initialised (the
  default constructor of \<open>std::atomic\<close> does not, before C++20), and \<open>push\<close> copies the live items only; a
  thief that has read \<open>top_\<close> before reads its item from the new ring. The value is discarded, since its
  exchange fails.
\<close>

theorem deque_reads_unwritten_slot:
  "\<exists>es (s :: (bool, nat) threads). runs dq_step (start (2 ^ 0)) es s \<and> thieves s True = Steal_cas 0 None \<and> dq_top (shared s) = 1"
proof -
  have "map_option (\<lambda>s. (thieves s True, dq_top (shared s))) (run_schedule (start 1) late_thief) = Some (Steal_cas 0 None, 1)"
    by code_simp
  then obtain s where s: "run_schedule (start 1) late_thief = Some s" "thieves s True = Steal_cas 0 None" "dq_top (shared s) = 1"
    by auto
  from run_schedule_runs [OF s(1)] s(2,3) show ?thesis unfolding power_0 by blast
qed

end
