(* ===== verification/Pool.thy ===== *)
theory Pool
  imports Deque_Spec
begin

text \<open>
  \<open>CPP-WorkStealing/include/workstealing.hpp\<close>, the class \<open>ThreadPool\<close>.

  The workers are the elements of a finite type, the outside threads those of another. Every access to
  shared data is a step of one thread; a critical section of the queue mutex is one step, the idle mutex
  has an owner, since a wait gives it up in the middle. The deques are the atomic queues of
  \<open>Deque_Spec\<close>: a call is a step that starts it, an internal step of the queue and a step that returns.
  A task is a value; what its function does is open: it may submit any tasks and then ends.
\<close>

section \<open>Threads\<close>

text \<open>The program counters of \<open>run\<close>, with \<open>enqueue\<close> and \<open>steal_from_others\<close> inlined.\<close>

datatype ('w, 't) worker_pc =
  W_test
| W_pop
| W_popping
| W_global
| W_steal nat
| W_stealing nat 'w
| W_stole 't
| W_run 't
| W_push 't 't
| W_pushing 't
| W_signal 't
| W_notify 't
| W_finish
| W_last
| W_notify_all
| W_idle bool
| W_check bool
| W_park
| W_sleep
| W_exit

text \<open>An outside thread in \<open>submit\<close> or \<open>wait_idle\<close>.\<close>

datatype 't client_pc =
  C_idle
| C_push 't
| C_signal
| C_notify
| C_wait
| C_check
| C_park
| C_sleep

datatype destructor_pc = D_none | D_lock | D_notify | D_join | D_end

record ('w, 'c, 't) pool =
  deques :: "'w \<Rightarrow> ('w, 't) atomic_deque"
  pending :: int
  steals :: nat
  done_flag :: bool
  global_queue :: "'t list"
  idle_mutex :: "('w + 'c) option"
  workers :: "'w \<Rightarrow> ('w, 't) worker_pc"
  clients :: "'c \<Rightarrow> 't client_pc"
  destructor :: destructor_pc

definition pool_start :: "('w, 'c, 't) pool" where
  "pool_start = \<lparr>deques = \<lambda>_. atomic_start, pending = 0, steals = 0, done_flag = False, global_queue = [],
     idle_mutex = None, workers = \<lambda>_. W_test, clients = \<lambda>_. C_idle, destructor = D_none\<rparr>"

text \<open>What counts: a task is submitted, a task has run, \<open>wait_idle\<close> has returned.\<close>

datatype ('c, 't) pool_event = Submit 't | Ran 't | Waited 'c

text \<open>What is open in a step: what the task does, the victim of a steal, who is woken, a timeout.\<close>

datatype ('w, 'c, 't) choice = Go | Submits 't | Victim 'w | Wakes "('w + 'c) option" | Time_out

section \<open>Parts of the steps\<close>

definition set_worker :: "'w \<Rightarrow> ('w, 't) worker_pc \<Rightarrow> ('w, 'c, 't) pool \<Rightarrow> ('w, 'c, 't) pool" where
  "set_worker w pc s = s\<lparr>workers := (workers s)(w := pc)\<rparr>"

definition set_client :: "'c \<Rightarrow> 't client_pc \<Rightarrow> ('w, 'c, 't) pool \<Rightarrow> ('w, 'c, 't) pool" where
  "set_client c pc s = s\<lparr>clients := (clients s)(c := pc)\<rparr>"

text \<open>The start or the return of a call to the deque of \<open>v\<close>.\<close>

fun atomic_call :: "('i, 't) atomic_deque \<Rightarrow> ('i, 't) event \<Rightarrow> ('i, 't) atomic_deque option" where
  "atomic_call d (Call_push x) = (if owner_call d = Owner_free then Some (d\<lparr>owner_call := Pushing x\<rparr>) else None)"
| "atomic_call d Ret_push = (if owner_call d = Pushed then Some (d\<lparr>owner_call := Owner_free\<rparr>) else None)"
| "atomic_call d Call_pop = (if owner_call d = Owner_free then Some (d\<lparr>owner_call := Popping\<rparr>) else None)"
| "atomic_call d (Ret_pop x) = (if owner_call d = Popped x then Some (d\<lparr>owner_call := Owner_free\<rparr>) else None)"
| "atomic_call d (Call_steal i) =
     (if thief_calls d i = Thief_free then Some (d\<lparr>thief_calls := (thief_calls d)(i := Stealing (removed d))\<rparr>) else None)"
| "atomic_call d (Ret_steal i x) =
     (if thief_calls d i = Stolen x then Some (d\<lparr>thief_calls := (thief_calls d)(i := Thief_free)\<rparr>) else None)"

definition deque_call :: "'w \<Rightarrow> ('w, 't) event \<Rightarrow> ('w, 'c, 't) pool \<Rightarrow> ('w, 'c, 't) pool option" where
  "deque_call v e s = map_option (\<lambda>d. s\<lparr>deques := (deques s)(v := d)\<rparr>) (atomic_call (deques s v) e)"

text \<open>The condition variable: a woken thread asks for the mutex again.\<close>

definition notify_one :: "('w + 'c) option \<Rightarrow> ('w, 'c, 't) pool \<Rightarrow> ('w, 'c, 't) pool option" where
  "notify_one x s = (case x of
     Some (Inl w) \<Rightarrow> if workers s w = W_sleep then Some (set_worker w (W_idle False) s) else None
   | Some (Inr c) \<Rightarrow> if clients s c = C_sleep then Some (set_client c C_wait s) else None
   | None \<Rightarrow> if (\<forall>w. workers s w \<noteq> W_sleep) \<and> (\<forall>c. clients s c \<noteq> C_sleep) then Some s else None)"

definition notify_all :: "('w, 'c, 't) pool \<Rightarrow> ('w, 'c, 't) pool" where
  "notify_all s = s\<lparr>workers := (\<lambda>w. if workers s w = W_sleep then W_idle False else workers s w),
     clients := (\<lambda>c. if clients s c = C_sleep then C_wait else clients s c)\<rparr>"

definition wake_one :: "('w, 'c, 't) choice \<Rightarrow> ('w, 'c, 't) pool \<Rightarrow> ('w, 'c, 't) pool option" where
  "wake_one ch s = (case ch of Wakes x \<Rightarrow> notify_one x s | _ \<Rightarrow> None)"

definition take_mutex :: "'w + 'c \<Rightarrow> ('w, 'c, 't) pool \<Rightarrow> ('w, 'c, 't) pool option" where
  "take_mutex x s = (if idle_mutex s = None then Some (s\<lparr>idle_mutex := Some x\<rparr>) else None)"

text \<open>Taking the mutex and giving it back at once.\<close>

definition pass_mutex :: "('w, 'c, 't) pool \<Rightarrow> ('w, 'c, 't) pool option" where
  "pass_mutex s = (if idle_mutex s = None then Some s else None)"

definition worker_idles :: "('w, 'c, 't) pool \<Rightarrow> bool" where
  "worker_idles s \<longleftrightarrow> \<not> done_flag s \<and> \<not> 0 < pending s"

section \<open>The workers\<close>

definition worker_step ::
  "'w :: finite \<Rightarrow> ('w, 'c, 't) choice \<Rightarrow> ('w, 'c, 't) pool \<Rightarrow> (('w, 'c, 't) pool \<times> ('c, 't) pool_event option) option" where
  "worker_step w ch s = (case workers s w of
     W_test \<Rightarrow> Some (set_worker w (if done_flag s then W_exit else W_pop) s, None)
   | W_pop \<Rightarrow> do { s \<leftarrow> deque_call w Call_pop s; Some (set_worker w W_popping s, None) }
   | W_popping \<Rightarrow> (case owner_call (deques s w) of
       Popped r \<Rightarrow> do {
         s \<leftarrow> deque_call w (Ret_pop r) s;
         Some (set_worker w (case r of Some t \<Rightarrow> W_run t | None \<Rightarrow> W_global) s, None) }
     | _ \<Rightarrow> None)
   | W_global \<Rightarrow> (case global_queue s of
       [] \<Rightarrow> Some (set_worker w (if card (UNIV :: 'w set) \<le> 1 then W_idle False else W_steal (2 * card (UNIV :: 'w set))) s, None)
     | t # ts \<Rightarrow> Some (set_worker w (W_run t) (s\<lparr>global_queue := ts\<rparr>), None))
   | W_steal tries \<Rightarrow> (if tries = 0 then Some (set_worker w (W_idle False) s, None) else (case ch of
       Victim v \<Rightarrow> if v = w then Some (set_worker w (W_steal (tries - 1)) s, None)
         else do { s \<leftarrow> deque_call v (Call_steal w) s; Some (set_worker w (W_stealing (tries - 1) v) s, None) }
     | _ \<Rightarrow> None))
   | W_stealing tries v \<Rightarrow> (case thief_calls (deques s v) w of
       Stolen r \<Rightarrow> do {
         s \<leftarrow> deque_call v (Ret_steal w r) s;
         Some (set_worker w (case r of Some t \<Rightarrow> W_stole t | None \<Rightarrow> W_steal tries) s, None) }
     | _ \<Rightarrow> None)
   | W_stole t \<Rightarrow> Some (set_worker w (W_run t) (s\<lparr>steals := steals s + 1\<rparr>), None)
   | W_run t \<Rightarrow> (case ch of
       Submits x \<Rightarrow> Some (set_worker w (W_push t x) (s\<lparr>pending := pending s + 1\<rparr>), Some (Submit x))
     | Go \<Rightarrow> Some (set_worker w W_finish s, Some (Ran t))
     | _ \<Rightarrow> None)
   | W_push t x \<Rightarrow> do { s \<leftarrow> deque_call w (Call_push x) s; Some (set_worker w (W_pushing t) s, None) }
   | W_pushing t \<Rightarrow> do { s \<leftarrow> deque_call w Ret_push s; Some (set_worker w (W_signal t) s, None) }
   | W_signal t \<Rightarrow> do { s \<leftarrow> pass_mutex s; Some (set_worker w (W_notify t) s, None) }
   | W_notify t \<Rightarrow> do { s \<leftarrow> wake_one ch s; Some (set_worker w (W_run t) s, None) }
   | W_finish \<Rightarrow> Some (set_worker w (if pending s = 1 then W_last else W_test) (s\<lparr>pending := pending s - 1\<rparr>), None)
   | W_last \<Rightarrow> do { s \<leftarrow> take_mutex (Inl w) s; Some (set_worker w W_notify_all s, None) }
   | W_notify_all \<Rightarrow> Some (set_worker w W_test ((notify_all s)\<lparr>idle_mutex := None\<rparr>), None)
   | W_idle timed_out \<Rightarrow> do { s \<leftarrow> take_mutex (Inl w) s; Some (set_worker w (W_check timed_out) s, None) }
   | W_check timed_out \<Rightarrow>
       (if timed_out \<or> \<not> worker_idles s then Some (set_worker w W_test (s\<lparr>idle_mutex := None\<rparr>), None)
        else Some (set_worker w W_park s, None))
   | W_park \<Rightarrow> Some (set_worker w W_sleep (s\<lparr>idle_mutex := None\<rparr>), None)
   | W_sleep \<Rightarrow> (case ch of
       Go \<Rightarrow> Some (set_worker w (W_idle False) s, None)
     | Time_out \<Rightarrow> Some (set_worker w (W_idle True) s, None)
     | _ \<Rightarrow> None)
   | W_exit \<Rightarrow> None)"

section \<open>Outside threads and the destructor\<close>

definition outside_step ::
  "'c \<Rightarrow> ('w, 'c, 't) choice \<Rightarrow> ('w, 'c, 't) pool \<Rightarrow> (('w, 'c, 't) pool \<times> ('c, 't) pool_event option) option" where
  "outside_step c ch s = (case clients s c of
     C_idle \<Rightarrow> (case ch of
       Submits x \<Rightarrow> Some (set_client c (C_push x) (s\<lparr>pending := pending s + 1\<rparr>), Some (Submit x))
     | Go \<Rightarrow> Some (set_client c C_wait s, None)
     | _ \<Rightarrow> None)
   | C_push x \<Rightarrow> Some (set_client c C_signal (s\<lparr>global_queue := global_queue s @ [x]\<rparr>), None)
   | C_signal \<Rightarrow> do { s \<leftarrow> pass_mutex s; Some (set_client c C_notify s, None) }
   | C_notify \<Rightarrow> do { s \<leftarrow> wake_one ch s; Some (set_client c C_idle s, None) }
   | C_wait \<Rightarrow> do { s \<leftarrow> take_mutex (Inr c) s; Some (set_client c C_check s, None) }
   | C_check \<Rightarrow>
       (if pending s = 0 then Some (set_client c C_idle (s\<lparr>idle_mutex := None\<rparr>), Some (Waited c))
        else Some (set_client c C_park s, None))
   | C_park \<Rightarrow> Some (set_client c C_sleep (s\<lparr>idle_mutex := None\<rparr>), None)
   | C_sleep \<Rightarrow> Some (set_client c C_wait s, None))"

definition destructor_step :: "('w, 'c, 't) pool \<Rightarrow> ('w, 'c, 't) pool option" where
  "destructor_step s = (case destructor s of
     D_none \<Rightarrow> Some (s\<lparr>done_flag := True, destructor := D_lock\<rparr>)
   | D_lock \<Rightarrow> do { s \<leftarrow> pass_mutex s; Some (s\<lparr>destructor := D_notify\<rparr>) }
   | D_notify \<Rightarrow> Some ((notify_all s)\<lparr>destructor := D_join\<rparr>)
   | D_join \<Rightarrow> if \<forall>w. workers s w = W_exit then Some (s\<lparr>destructor := D_end\<rparr>) else None
   | D_end \<Rightarrow> None)"

section \<open>All threads\<close>

inductive pool_step :: "('w :: finite, 'c, 't) pool \<Rightarrow> ('c, 't) pool_event option \<Rightarrow> ('w, 'c, 't) pool \<Rightarrow> bool" where
  worker: "worker_step w ch s = Some (s', l) \<Longrightarrow> pool_step s l s'"
| client: "outside_step c ch s = Some (s', l) \<Longrightarrow> pool_step s l s'"
| destructor: "destructor_step s = Some s' \<Longrightarrow> pool_step s None s'"
| deque: "atomic_step (deques s v) None d \<Longrightarrow> pool_step s None (s\<lparr>deques := (deques s)(v := d)\<rparr>)"

end
