(* ===== verification/Pool_Proof.thy ===== *)
theory Pool_Proof
  imports Pool Traces
begin

text \<open>The invariants of the pool: where the tasks are, who holds the mutex, who will wake whom.\<close>

section \<open>Where the tasks are\<close>

fun in_worker :: "('w, 't) worker_pc \<Rightarrow> 't multiset" where
  "in_worker (W_stole t) = {#t#}"
| "in_worker (W_run t) = {#t#}"
| "in_worker (W_push t x) = {#t#} + {#x#}"
| "in_worker (W_pushing t) = {#t#}"
| "in_worker (W_signal t) = {#t#}"
| "in_worker (W_notify t) = {#t#}"
| "in_worker _ = {#}"

fun in_client :: "'t client_pc \<Rightarrow> 't multiset" where
  "in_client (C_push x) = {#x#}"
| "in_client _ = {#}"

text \<open>Submitted and not run to the end: in a deque, in the global queue, in the hands of a thread.\<close>

definition waiting :: "('w :: finite, 'c :: finite, 't) pool \<Rightarrow> 't multiset" where
  "waiting s = (\<Sum>v\<in>UNIV. tasks_of (deques s v)) + mset (global_queue s) + (\<Sum>w\<in>UNIV. in_worker (workers s w)) +
     (\<Sum>c\<in>UNIV. in_client (clients s c))"

fun finish_count :: "('w, 't) worker_pc \<Rightarrow> int" where
  "finish_count W_finish = 1"
| "finish_count _ = 0"

definition finishing :: "('w :: finite, 'c, 't) pool \<Rightarrow> int" where
  "finishing s = (\<Sum>w\<in>UNIV. finish_count (workers s w))"

lemma waiting_set_worker: "waiting (set_worker w pc s) + in_worker (workers s w) = waiting s + in_worker pc"
  using sum_update [of in_worker "workers s" w pc] by (simp add: waiting_def set_worker_def ac_simps del: fun_upd_apply)

lemma waiting_set_client: "waiting (set_client c pc s) + in_client (clients s c) = waiting s + in_client pc"
  using sum_update [of in_client "clients s" c pc] by (simp add: waiting_def set_client_def ac_simps del: fun_upd_apply)

lemma waiting_deque: "waiting (s\<lparr>deques := (deques s)(v := d)\<rparr>) + tasks_of (deques s v) = waiting s + tasks_of d"
  using sum_update [of tasks_of "deques s" v d] by (simp add: waiting_def ac_simps del: fun_upd_apply)

lemma waiting_queue: "waiting (s\<lparr>global_queue := q\<rparr>) + mset (global_queue s) = waiting s + mset q"
  by (simp add: waiting_def ac_simps)

lemma waiting_other [simp]:
  "waiting (s\<lparr>pending := p\<rparr>) = waiting s" "waiting (s\<lparr>steals := n\<rparr>) = waiting s" "waiting (s\<lparr>idle_mutex := m\<rparr>) = waiting s"
  "waiting (s\<lparr>done_flag := f\<rparr>) = waiting s" "waiting (s\<lparr>destructor := e\<rparr>) = waiting s"
  "waiting (s\<lparr>done_flag := f, destructor := e\<rparr>) = waiting s"
  by (simp_all add: waiting_def)

lemma finishing_set_worker:
  "finishing (set_worker w pc s) + finish_count (workers s w) = finishing s + finish_count pc"
  using sum_update [of finish_count "workers s" w pc]
  by (simp add: finishing_def set_worker_def del: fun_upd_apply)

lemma finishing_other [simp]:
  "finishing (s\<lparr>pending := p\<rparr>) = finishing s" "finishing (s\<lparr>steals := n\<rparr>) = finishing s" "finishing (s\<lparr>idle_mutex := m\<rparr>) = finishing s"
  "finishing (s\<lparr>done_flag := f\<rparr>) = finishing s" "finishing (s\<lparr>destructor := e\<rparr>) = finishing s" "finishing (s\<lparr>deques := ds\<rparr>) = finishing s"
  "finishing (s\<lparr>done_flag := f, destructor := e\<rparr>) = finishing s"
  "finishing (s\<lparr>global_queue := q\<rparr>) = finishing s" "finishing (set_client c pc s) = finishing s"
  by (simp_all add: finishing_def set_client_def)

lemma set_fields [simp]:
  "workers (set_client c cp s) = workers s" "clients (set_worker w pc s) = clients s" "pending (set_worker w pc s) = pending s"
  "pending (set_client c cp s) = pending s" "idle_mutex (set_worker w pc s) = idle_mutex s" "idle_mutex (set_client c cp s) = idle_mutex s"
  "deques (set_worker w pc s) = deques s" "deques (set_client c cp s) = deques s"
  "workers (set_worker w pc s) = (workers s)(w := pc)" "clients (set_client c cp s) = (clients s)(c := cp)"
  by (simp_all add: set_worker_def set_client_def)

subsection \<open>Events\<close>

definition submitted_in :: "('c, 't) pool_event list \<Rightarrow> 't multiset" where
  "submitted_in es = mset (List.map_filter (\<lambda>e. case e of Submit x \<Rightarrow> Some x | _ \<Rightarrow> None) es)"

definition ran_in :: "('c, 't) pool_event list \<Rightarrow> 't multiset" where
  "ran_in es = mset (List.map_filter (\<lambda>e. case e of Ran x \<Rightarrow> Some x | _ \<Rightarrow> None) es)"

lemma event_counts [simp]:
  "submitted_in [] = {#}" "submitted_in (es @ fs) = submitted_in es + submitted_in fs" "submitted_in [Submit x] = {#x#}"
  "submitted_in [Ran x] = {#}" "submitted_in [Waited c] = {#}"
  "ran_in [] = {#}" "ran_in (es @ fs) = ran_in es + ran_in fs" "ran_in [Submit x] = {#}" "ran_in [Ran x] = {#x#}"
  "ran_in [Waited c] = {#}"
  by (simp_all add: submitted_in_def ran_in_def map_filter_def)

text \<open>The books of a step: what it adds to the tasks that wait, and to the counter.\<close>

definition balanced :: "('w :: finite, 'c :: finite, 't) pool \<Rightarrow> ('c, 't) pool_event option \<Rightarrow> ('w, 'c, 't) pool \<Rightarrow> bool" where
  "balanced s l s' \<longleftrightarrow> waiting s + submitted_in (label_trace l) = waiting s' + ran_in (label_trace l) \<and>
     pending s' + int (size (ran_in (label_trace l))) + finishing s = pending s + int (size (submitted_in (label_trace l))) + finishing s'"

subsection \<open>Calls, the mutex, waking\<close>

lemma atomic_call_step: "atomic_call d e = Some d' \<Longrightarrow> atomic_step d (Some e) d'"
  by (induction d e rule: atomic_call.induct) (auto intro: atomic_step.intros split: if_splits)

lemma deque_call_frame:
  "deque_call v e s = Some s' \<Longrightarrow> workers s' = workers s \<and> clients s' = clients s \<and> pending s' = pending s \<and> idle_mutex s' = idle_mutex s"
  by (auto simp: deque_call_def)

lemma deque_call_books:
  assumes "deque_call v e s = Some s'"
  shows "waiting s' + taken_in [e] = waiting s + pushed_in [e]" "workers s' = workers s" "clients s' = clients s" "pending s' = pending s"
    "finishing s' = finishing s" "idle_mutex s' = idle_mutex s"
proof -
  obtain d where d: "atomic_call (deques s v) e = Some d" "s' = s\<lparr>deques := (deques s)(v := d)\<rparr>"
    using assms by (auto simp: deque_call_def)
  have "tasks_of (deques s v) + pushed_in [e] = tasks_of d + taken_in [e]"
    using tasks_of_step [OF atomic_call_step [OF d(1)]] by simp
  then have "waiting s' + taken_in [e] + tasks_of (deques s v) = waiting s + pushed_in [e] + tasks_of (deques s v)"
    using waiting_deque [of s v d] d(2) by (metis (no_types, lifting) add.assoc add.commute)
  then show "waiting s' + taken_in [e] = waiting s + pushed_in [e]" by simp
  show "workers s' = workers s" "clients s' = clients s" "pending s' = pending s" "finishing s' = finishing s" "idle_mutex s' = idle_mutex s"
    using d(2) by simp_all
qed

lemma notify_one_frame:
  assumes "notify_one x s = Some s'"
  shows "workers s w \<noteq> W_sleep \<Longrightarrow> workers s' w = workers s w" "clients s c \<noteq> C_sleep \<Longrightarrow> clients s' c = clients s c"
  using assms by (auto simp: notify_one_def split: option.splits sum.splits if_splits)

lemma notify_one_books:
  assumes "notify_one x s = Some s'"
  shows "waiting s' = waiting s" "pending s' = pending s" "finishing s' = finishing s"
proof -
  have "waiting s' = waiting s \<and> pending s' = pending s \<and> finishing s' = finishing s"
  proof (cases x)
    case None
    then show ?thesis using assms by (auto simp: notify_one_def split: if_splits)
  next
    case (Some y)
    show ?thesis
    proof (cases y)
      case (Inl v)
      then have "workers s v = W_sleep" "s' = set_worker v (W_idle False) s"
        using assms Some by (auto simp: notify_one_def split: if_splits)
      then show ?thesis using waiting_set_worker [of v "W_idle False" s] finishing_set_worker [of v "W_idle False" s] by auto
    next
      case (Inr d)
      then have "clients s d = C_sleep" "s' = set_client d C_wait s"
        using assms Some by (auto simp: notify_one_def split: if_splits)
      then show ?thesis using waiting_set_client [of d C_wait s] by auto
    qed
  qed
  then show "waiting s' = waiting s" "pending s' = pending s" "finishing s' = finishing s" by blast+
qed

lemma wake_one_notifies: "wake_one ch s = Some s' \<Longrightarrow> \<exists>x. notify_one x s = Some s'"
  by (auto simp: wake_one_def split: choice.splits)

lemma notify_all_books [simp]:
  "waiting (notify_all s) = waiting s" "pending (notify_all s) = pending s" "finishing (notify_all s) = finishing s"
proof -
  have w: "in_worker (if pc = W_sleep then W_idle False else pc) = in_worker pc"
    "finish_count (if pc = W_sleep then W_idle False else pc) = finish_count pc" for pc :: "('b, 'd) worker_pc" by auto
  have c: "in_client (if pc = C_sleep then C_wait else pc) = in_client pc" for pc :: "'d client_pc" by auto
  show "waiting (notify_all s) = waiting s" "pending (notify_all s) = pending s" "finishing (notify_all s) = finishing s"
    by (simp_all add: waiting_def finishing_def notify_all_def w c)
qed

lemma notify_all_worker: "workers (notify_all s) w = (if workers s w = W_sleep then W_idle False else workers s w)"
  by (simp add: notify_all_def)

lemma mutex_books:
  "take_mutex x s = Some s' \<Longrightarrow> s' = s\<lparr>idle_mutex := Some x\<rparr> \<and> idle_mutex s = None"
  "pass_mutex s = Some s' \<Longrightarrow> s' = s \<and> idle_mutex s = None"
  by (auto simp: take_mutex_def pass_mutex_def split: if_splits)

subsection \<open>Every step keeps the books\<close>

text \<open>A step of a worker that does nothing but move on, from a state with the same books.\<close>

lemma balanced_move:
  assumes "waiting t + x = waiting s + y" "pending t = pending s" "finishing t = finishing s" "workers t w = workers s w"
    "in_worker (workers s w) + x = in_worker pc + y" "finish_count (workers s w) = finish_count pc"
  shows "balanced s None (set_worker w pc t)"
proof -
  have "waiting (set_worker w pc t) + (in_worker (workers s w) + x) = waiting s + (in_worker pc + y)"
    using waiting_set_worker [of w pc t] assms(1,4) by (metis (no_types, lifting) add.assoc add.commute)
  then have "waiting (set_worker w pc t) = waiting s" using assms(5) by simp
  then show ?thesis using finishing_set_worker [of w pc t] assms by (simp add: balanced_def)
qed

lemma worker_balanced:
  assumes "worker_step w ch s = Some (s', l)"
  shows "balanced s l s'"
proof (cases "workers s w")
  case W_popping
  then obtain r t where r: "deque_call w (Ret_pop r) s = Some t" "l = None"
    "s' = set_worker w (case r of Some t \<Rightarrow> W_run t | None \<Rightarrow> W_global) t"
    using assms by (auto simp: worker_step_def bind_eq_Some_conv split: owner_call.splits)
  note b = deque_call_books [OF r(1)]
  show ?thesis unfolding r(2,3)
    by (rule balanced_move [where x = "mset_option r" and y = "{#}"]) (use b W_popping in \<open>auto split: option.splits\<close>)
next
  case W_global
  show ?thesis
  proof (cases "global_queue s")
    case Nil
    then show ?thesis using assms W_global
      by (auto simp: worker_step_def intro!: balanced_move [where x = "{#}" and y = "{#}"] split: if_splits)
  next
    case (Cons t ts)
    then have s': "l = None" "s' = set_worker w (W_run t) (s\<lparr>global_queue := ts\<rparr>)" using assms W_global by (simp_all add: worker_step_def)
    show ?thesis unfolding s'
      by (rule balanced_move [where x = "{#t#}" and y = "{#}"])
        (use W_global Cons waiting_queue [of ts s] in \<open>auto simp: add_mset_commute\<close>)
  qed
next
  case (W_stealing k v)
  then obtain r t where r: "deque_call v (Ret_steal w r) s = Some t" "l = None"
    "s' = set_worker w (case r of Some t \<Rightarrow> W_stole t | None \<Rightarrow> W_steal k) t"
    using assms by (auto simp: worker_step_def bind_eq_Some_conv split: thief_call.splits)
  note b = deque_call_books [OF r(1)]
  show ?thesis unfolding r(2,3)
    by (rule balanced_move [where x = "mset_option r" and y = "{#}"]) (use b W_stealing in \<open>auto split: option.splits\<close>)
next
  case (W_run t)
  show ?thesis
  proof (cases ch)
    case Go
    then have "l = Some (Ran t)" "s' = set_worker w W_finish s" using assms W_run by (simp_all add: worker_step_def)
    then show ?thesis using waiting_set_worker [of w W_finish s] finishing_set_worker [of w W_finish s] W_run
      by (simp add: balanced_def)
  next
    case (Submits x)
    then have "l = Some (Submit x)" "s' = set_worker w (W_push t x) (s\<lparr>pending := pending s + 1\<rparr>)"
      using assms W_run by (simp_all add: worker_step_def)
    then show ?thesis using waiting_set_worker [of w "W_push t x" "s\<lparr>pending := pending s + 1\<rparr>"]
        finishing_set_worker [of w "W_push t x" "s\<lparr>pending := pending s + 1\<rparr>"] W_run
      by (simp add: balanced_def)
  qed (use assms W_run in \<open>simp_all add: worker_step_def\<close>)
next
  case (W_push t x)
  then obtain u where u: "deque_call w (Call_push x) s = Some u" "l = None" "s' = set_worker w (W_pushing t) u"
    using assms by (auto simp: worker_step_def bind_eq_Some_conv)
  note b = deque_call_books [OF u(1)]
  show ?thesis unfolding u(2,3)
    by (rule balanced_move [where x = "{#}" and y = "{#x#}"]) (use b W_push in auto)
next
  case (W_notify t)
  then obtain x u where u: "notify_one x s = Some u" "l = None" "s' = set_worker w (W_run t) u"
    using assms by (auto simp: worker_step_def bind_eq_Some_conv dest: wake_one_notifies)
  note b = notify_one_books [OF u(1)] notify_one_frame(1) [OF u(1), of w]
  show ?thesis unfolding u(2,3)
    by (rule balanced_move [where x = "{#}" and y = "{#}"]) (use b W_notify in auto)
next
  case W_finish
  let ?pc = "if pending s = 1 then W_last else W_test :: ('a, 'c) worker_pc" and ?s = "s\<lparr>pending := pending s - 1\<rparr>"
  have s': "l = None" "s' = set_worker w ?pc ?s" using assms W_finish by (simp_all add: worker_step_def)
  have "in_worker ?pc = {#}" "finish_count ?pc = 0" by simp_all
  then show ?thesis using waiting_set_worker [of w ?pc ?s] finishing_set_worker [of w ?pc ?s] W_finish
    unfolding balanced_def s' by (simp del: if_split)
next
  case W_notify_all
  then have s': "l = None" "s' = set_worker w W_test ((notify_all s)\<lparr>idle_mutex := None\<rparr>)" using assms by (simp_all add: worker_step_def)
  show ?thesis unfolding s'
    by (rule balanced_move [where x = "{#}" and y = "{#}"]) (use W_notify_all in \<open>auto simp: notify_all_worker\<close>)
qed (use assms in \<open>auto simp: worker_step_def bind_eq_Some_conv split: if_splits choice.splits dest!: mutex_books
    intro!: balanced_move [where x = "{#}" and y = "{#}"] dest: deque_call_books\<close>)


lemma client_balanced:
  assumes "outside_step c ch s = Some (s', l)"
  shows "balanced s l s'"
proof (cases "clients s c")
  case C_idle
  show ?thesis
  proof (cases ch)
    case (Submits x)
    then have "l = Some (Submit x)" "s' = set_client c (C_push x) (s\<lparr>pending := pending s + 1\<rparr>)"
      using assms C_idle by (simp_all add: outside_step_def)
    then show ?thesis using waiting_set_client [of c "C_push x" "s\<lparr>pending := pending s + 1\<rparr>"] C_idle by (simp add: balanced_def)
  qed (use assms C_idle waiting_set_client [of c C_wait s] in \<open>auto simp: outside_step_def balanced_def\<close>)
next
  case (C_push x)
  let ?s = "s\<lparr>global_queue := global_queue s @ [x]\<rparr>"
  have s': "l = None" "s' = set_client c C_signal ?s" using assms C_push by (simp_all add: outside_step_def)
  have "waiting s' = waiting s"
    using waiting_queue [of "global_queue s @ [x]" s] waiting_set_client [of c C_signal ?s] C_push by (simp add: s'(2))
  then show ?thesis by (simp add: balanced_def s')
next
  case C_notify
  then obtain x u where u: "notify_one x s = Some u" "l = None" "s' = set_client c C_idle u"
    using assms by (auto simp: outside_step_def bind_eq_Some_conv dest: wake_one_notifies)
  note b = notify_one_books [OF u(1)] notify_one_frame(2) [OF u(1), of c]
  then show ?thesis using waiting_set_client [of c C_idle u] C_notify by (simp add: balanced_def u)
next
  case C_check
  then show ?thesis using assms waiting_set_client [of c C_idle "s\<lparr>idle_mutex := None\<rparr>"] waiting_set_client [of c C_park s]
    by (auto simp: outside_step_def balanced_def split: if_splits)
next
  case C_signal
  then show ?thesis using assms waiting_set_client [of c C_notify s]
    by (auto simp: outside_step_def balanced_def bind_eq_Some_conv dest!: mutex_books)
next
  case C_wait
  then show ?thesis using assms waiting_set_client [of c C_check "s\<lparr>idle_mutex := Some (Inr c)\<rparr>"]
    by (auto simp: outside_step_def balanced_def bind_eq_Some_conv dest!: mutex_books)
next
  case C_park
  then show ?thesis using assms waiting_set_client [of c C_sleep "s\<lparr>idle_mutex := None\<rparr>"]
    by (auto simp: outside_step_def balanced_def)
next
  case C_sleep
  then show ?thesis using assms waiting_set_client [of c C_wait s] by (auto simp: outside_step_def balanced_def)
qed

lemma pool_balanced:
  assumes "pool_step s l s'"
  shows "balanced s l s'"
  using assms
proof (cases rule: pool_step.cases)
  case (worker w ch)
  then show ?thesis by (intro worker_balanced)
next
  case (client c ch)
  then show ?thesis by (intro client_balanced)
next
  case destructor
  then show ?thesis
    by (auto simp: destructor_step_def balanced_def bind_eq_Some_conv dest!: mutex_books split: destructor_pc.splits if_splits)
next
  case (deque v d)
  have "tasks_of (deques s v) = tasks_of d" using tasks_of_step [OF deque(3)] by simp
  then show ?thesis using waiting_deque [of s v d] deque by (simp add: balanced_def)
qed

definition accounts :: "('c :: finite, 't) pool_event list \<Rightarrow> ('w :: finite, 'c, 't) pool \<Rightarrow> bool" where
  "accounts es s \<longleftrightarrow> submitted_in es = ran_in es + waiting s \<and> pending s = int (size (waiting s)) + finishing s"

lemma accounts_step: "accounts es s \<Longrightarrow> pool_step s l s' \<Longrightarrow> accounts (es @ label_trace l) s'"
proof -
  assume a: "accounts es s" "pool_step s l s'"
  have b: "balanced s l s'" using pool_balanced [OF a(2)] .
  then have "size (waiting s) + size (submitted_in (label_trace l)) = size (waiting s') + size (ran_in (label_trace l))"
    unfolding balanced_def by (metis size_union)
  then show ?thesis using a(1) b by (simp add: accounts_def balanced_def ac_simps)
qed

lemma finish_count_nonneg: "0 \<le> finish_count pc"
  by (cases pc) simp_all

lemma finishing_nonneg: "0 \<le> finishing s"
  unfolding finishing_def by (intro sum_nonneg finish_count_nonneg)

section \<open>The mutex and the sleepers\<close>

definition worker_holds :: "('w, 't) worker_pc \<Rightarrow> bool" where
  "worker_holds pc \<longleftrightarrow> pc = W_notify_all \<or> pc = W_park \<or> (\<exists>b. pc = W_check b)"

definition client_holds :: "'t client_pc \<Rightarrow> bool" where
  "client_holds pc \<longleftrightarrow> pc = C_check \<or> pc = C_park"

definition locks :: "('w, 'c, 't) pool \<Rightarrow> bool" where
  "locks s \<longleftrightarrow> (\<forall>w. idle_mutex s = Some (Inl w) \<longleftrightarrow> worker_holds (workers s w)) \<and>
     (\<forall>c. idle_mutex s = Some (Inr c) \<longleftrightarrow> client_holds (clients s c))"

text \<open>When the counter is 0 and a thread sleeps in \<open>wait_idle\<close>, a worker is about to wake it.\<close>

definition wakes :: "('w, 'c, 't) pool \<Rightarrow> bool" where
  "wakes s \<longleftrightarrow> ((\<exists>c. clients s c = C_park \<or> clients s c = C_sleep) \<longrightarrow> pending s = 0 \<longrightarrow>
     (\<exists>w. workers s w = W_last \<or> workers s w = W_notify_all))"

text \<open>Steps that touch neither the mutex nor the threads that sleep or hold it.\<close>

lemma locks_set_worker:
  "locks s \<Longrightarrow> worker_holds (workers s w) = worker_holds pc \<Longrightarrow> locks (set_worker w pc s)"
  by (auto simp: locks_def)

lemma locks_set_client:
  "locks s \<Longrightarrow> client_holds (clients s c) = client_holds pc \<Longrightarrow> locks (set_client c pc s)"
  by (auto simp: locks_def)

lemma locks_acquire:
  "locks s \<Longrightarrow> idle_mutex s = None \<Longrightarrow> worker_holds pc \<Longrightarrow> locks (set_worker w pc (s\<lparr>idle_mutex := Some (Inl w)\<rparr>))"
  "locks s \<Longrightarrow> idle_mutex s = None \<Longrightarrow> client_holds cp \<Longrightarrow> locks (set_client c cp (s\<lparr>idle_mutex := Some (Inr c)\<rparr>))"
  by (auto simp: locks_def)

lemma locks_release:
  "locks s \<Longrightarrow> worker_holds (workers s w) \<Longrightarrow> \<not> worker_holds pc \<Longrightarrow> locks (set_worker w pc (s\<lparr>idle_mutex := None\<rparr>))"
  "locks s \<Longrightarrow> client_holds (clients s c) \<Longrightarrow> \<not> client_holds cp \<Longrightarrow> locks (set_client c cp (s\<lparr>idle_mutex := None\<rparr>))"
  unfolding locks_def by (auto, (metis Inl_inject Inr_inject option.inject sum.distinct)+)

lemma locks_notify_all: "locks s \<Longrightarrow> locks (notify_all s)"
  by (auto simp: locks_def notify_all_def worker_holds_def client_holds_def)

lemma locks_notify_one: "locks s \<Longrightarrow> notify_one x s = Some s' \<Longrightarrow> locks s'"
  by (auto simp: notify_one_def worker_holds_def client_holds_def intro!: locks_set_worker locks_set_client split: option.splits sum.splits if_splits)

lemma locks_move:
  "locks s \<Longrightarrow> workers t = workers s \<Longrightarrow> clients t = clients s \<Longrightarrow> idle_mutex t = idle_mutex s \<Longrightarrow>
    worker_holds (workers s w) = worker_holds pc \<Longrightarrow> locks (set_worker w pc t)"
  by (auto simp: locks_def)

lemma locks_move_client:
  "locks s \<Longrightarrow> workers t = workers s \<Longrightarrow> clients t = clients s \<Longrightarrow> idle_mutex t = idle_mutex s \<Longrightarrow>
    client_holds (clients s c) = client_holds pc \<Longrightarrow> locks (set_client c pc t)"
  by (auto simp: locks_def)

lemma holds_simps [simp]:
  "worker_holds W_notify_all" "worker_holds W_park" "worker_holds (W_check b)" "client_holds C_check" "client_holds C_park"
  "\<not> worker_holds W_test" "\<not> worker_holds W_pop" "\<not> worker_holds W_popping" "\<not> worker_holds W_global" "\<not> worker_holds (W_steal k)"
  "\<not> worker_holds (W_stealing k v)" "\<not> worker_holds (W_stole t)" "\<not> worker_holds (W_run t)" "\<not> worker_holds (W_push t x)"
  "\<not> worker_holds (W_pushing t)" "\<not> worker_holds (W_signal t)" "\<not> worker_holds (W_notify t)" "\<not> worker_holds W_finish"
  "\<not> worker_holds W_last" "\<not> worker_holds (W_idle b)" "\<not> worker_holds W_sleep" "\<not> worker_holds W_exit"
  "\<not> client_holds C_idle" "\<not> client_holds (C_push x)" "\<not> client_holds C_signal" "\<not> client_holds C_notify" "\<not> client_holds C_wait"
  "\<not> client_holds C_sleep"
  by (simp_all add: worker_holds_def client_holds_def)

lemma worker_locks:
  assumes l: "locks s" and step: "worker_step w ch s = Some (s', l)"
  shows "locks s'"
proof (cases "workers s w")
  case (W_notify t)
  then obtain x u where u: "notify_one x s = Some u" "s' = set_worker w (W_run t) u"
    using step by (auto simp: worker_step_def bind_eq_Some_conv dest: wake_one_notifies)
  show ?thesis unfolding u(2)
    by (rule locks_set_worker [OF locks_notify_one [OF l u(1)]]) (use notify_one_frame(1) [OF u(1), of w] W_notify in simp)
next
  case W_last
  then show ?thesis using step l
    by (auto simp: worker_step_def bind_eq_Some_conv dest!: mutex_books intro!: locks_acquire)
next
  case W_notify_all
  then have "s' = set_worker w W_test ((notify_all s)\<lparr>idle_mutex := None\<rparr>)" using step by (simp add: worker_step_def)
  then show ?thesis using locks_release(1) [OF locks_notify_all [OF l], of w W_test] W_notify_all by (simp add: notify_all_worker)
next
  case (W_idle b)
  then show ?thesis using step l
    by (auto simp: worker_step_def bind_eq_Some_conv dest!: mutex_books intro!: locks_acquire)
next
  case (W_check b)
  show ?thesis
  proof (cases "b \<or> \<not> worker_idles s")
    case True
    then have "s' = set_worker w W_test (s\<lparr>idle_mutex := None\<rparr>)" using step W_check by (auto simp: worker_step_def split: if_splits)
    then show ?thesis using locks_release(1) [OF l, of w W_test] W_check by simp
  next
    case False
    then have "s' = set_worker w W_park s" using step W_check by (auto simp: worker_step_def split: if_splits)
    then show ?thesis using locks_set_worker [OF l, of w W_park] W_check by simp
  qed
next
  case W_park
  then show ?thesis using step l by (auto simp: worker_step_def intro!: locks_release)
next
  case (W_steal k)
  then show ?thesis using step l
    by (auto simp: worker_step_def bind_eq_Some_conv split: if_splits choice.splits dest!: deque_call_frame intro!: locks_move [OF l])
qed (use step l in \<open>auto simp: worker_step_def bind_eq_Some_conv split: choice.splits owner_call.splits thief_call.splits
    option.splits list.splits if_splits dest!: mutex_books dest!: deque_call_frame intro!: locks_move [OF l]\<close>)

lemma client_locks:
  assumes l: "locks s" and step: "outside_step c ch s = Some (s', l)"
  shows "locks s'"
proof (cases "clients s c")
  case C_notify
  then obtain x u where u: "notify_one x s = Some u" "s' = set_client c C_idle u"
    using step by (auto simp: outside_step_def bind_eq_Some_conv dest: wake_one_notifies)
  show ?thesis unfolding u(2)
    by (rule locks_set_client [OF locks_notify_one [OF l u(1)]]) (use notify_one_frame(2) [OF u(1), of c] C_notify in simp)
next
  case C_wait
  then show ?thesis using step l
    by (auto simp: outside_step_def bind_eq_Some_conv dest!: mutex_books intro!: locks_acquire)
next
  case C_check
  show ?thesis
  proof (cases "pending s = 0")
    case True
    then have "s' = set_client c C_idle (s\<lparr>idle_mutex := None\<rparr>)" using step C_check by (auto simp: outside_step_def split: if_splits)
    then show ?thesis using locks_release(2) [OF l, of c C_idle] C_check by simp
  next
    case False
    then have "s' = set_client c C_park s" using step C_check by (auto simp: outside_step_def split: if_splits)
    then show ?thesis using locks_set_client [OF l, of c C_park] C_check by simp
  qed
next
  case C_park
  then show ?thesis using step l by (auto simp: outside_step_def intro!: locks_release)
qed (use step l in \<open>auto simp: outside_step_def bind_eq_Some_conv split: choice.splits dest!: mutex_books intro!: locks_move_client [OF l]\<close>)

lemma locks_step:
  assumes "locks s" "pool_step s l s'"
  shows "locks s'"
  using assms(2)
proof (cases rule: pool_step.cases)
  case (worker w ch)
  then show ?thesis using worker_locks [OF assms(1)] by blast
next
  case (client c ch)
  then show ?thesis using client_locks [OF assms(1)] by blast
next
  case destructor
  have "locks (notify_all s)" using assms(1) by (rule locks_notify_all)
  then show ?thesis using destructor assms(1)
    by (auto simp: destructor_step_def locks_def bind_eq_Some_conv dest!: mutex_books split: destructor_pc.splits if_splits)
next
  case (deque v d)
  then show ?thesis using assms(1) by (simp add: locks_def)
qed

subsection \<open>No wake-up is lost\<close>

lemma wakes_move:
  "wakes s \<Longrightarrow> clients t = clients s \<Longrightarrow> pending t = pending s \<Longrightarrow> workers t = workers s \<Longrightarrow>
    workers s w \<noteq> W_last \<Longrightarrow> workers s w \<noteq> W_notify_all \<Longrightarrow> wakes (set_worker w pc t)"
  by (auto simp: wakes_def)

lemma wakes_mono:
  assumes "wakes s" "pending t = pending s" "\<And>c. clients t c = C_park \<or> clients t c = C_sleep \<Longrightarrow> clients s c = C_park \<or> clients s c = C_sleep"
    "\<And>w. workers s w = W_last \<or> workers s w = W_notify_all \<Longrightarrow> workers t w = workers s w"
  shows "wakes t"
  unfolding wakes_def
proof (intro impI)
  assume "\<exists>c. clients t c = C_park \<or> clients t c = C_sleep" "pending t = 0"
  then obtain w where "workers s w = W_last \<or> workers s w = W_notify_all" using assms(1-3) unfolding wakes_def by auto
  then show "\<exists>w. workers t w = W_last \<or> workers t w = W_notify_all" using assms(4) [of w] by (intro exI [of _ w]) simp
qed

lemma wakes_notify_all: "wakes s \<Longrightarrow> wakes (notify_all s)"
  by (erule wakes_mono) (auto simp: notify_all_def split: if_splits)

lemma wakes_notify_one: "wakes s \<Longrightarrow> notify_one x s = Some s' \<Longrightarrow> wakes s'"
  by (erule wakes_mono) (auto simp: notify_one_def split: option.splits sum.splits if_splits)

lemma wakes_positive: "0 < pending s \<Longrightarrow> wakes s"
  by (simp add: wakes_def)

lemma worker_wakes:
  assumes wk: "wakes s" and l: "locks s" and p: "0 \<le> pending s" and step: "worker_step w ch s = Some (s', l')"
  shows "wakes s'"
proof (cases "workers s w")
  case (W_notify t)
  then obtain x u where u: "notify_one x s = Some u" "s' = set_worker w (W_run t) u"
    using step by (auto simp: worker_step_def bind_eq_Some_conv dest: wake_one_notifies)
  show ?thesis unfolding u(2)
    by (rule wakes_move [OF wakes_notify_one [OF wk u(1)]]) (use notify_one_frame(1) [OF u(1), of w] W_notify in simp_all)
next
  case W_finish
  then show ?thesis using step by (auto simp: worker_step_def wakes_def)
next
  case W_last
  then show ?thesis using step by (auto simp: worker_step_def bind_eq_Some_conv wakes_def dest!: mutex_books)
next
  case W_notify_all
  have "clients s c \<noteq> C_park" for c
  proof
    assume "clients s c = C_park"
    then have "idle_mutex s = Some (Inr c)" using l by (simp add: locks_def)
    moreover have "idle_mutex s = Some (Inl w)" using l W_notify_all by (simp add: locks_def)
    ultimately show False by simp
  qed
  then show ?thesis using step W_notify_all by (auto simp: worker_step_def wakes_def notify_all_def split: if_splits)
next
  case (W_run t)
  show ?thesis
  proof (cases ch)
    case Go
    then have "s' = set_worker w W_finish s" using step W_run by (simp add: worker_step_def)
    then show ?thesis using wakes_move [OF wk, of s w W_finish] W_run by simp
  next
    case (Submits x)
    then have "pending s' = pending s + 1" using step W_run by (auto simp: worker_step_def)
    then show ?thesis using p by (intro wakes_positive) simp
  qed (use step W_run in \<open>simp_all add: worker_step_def\<close>)
next
  case (W_steal k)
  then show ?thesis using step wk
    by (auto simp: worker_step_def bind_eq_Some_conv split: if_splits choice.splits dest!: deque_call_frame intro!: wakes_move [OF wk])
next
  case (W_check b)
  then show ?thesis using step wk by (auto simp: worker_step_def split: if_splits intro!: wakes_move [OF wk])
qed (use step wk in \<open>auto simp: worker_step_def bind_eq_Some_conv split: choice.splits owner_call.splits thief_call.splits
    option.splits list.splits if_splits dest!: mutex_books dest!: deque_call_frame intro!: wakes_move [OF wk]\<close>)

lemma client_wakes:
  assumes wk: "wakes s" and p: "0 \<le> pending s" and step: "outside_step c ch s = Some (s', l')"
  shows "wakes s'"
proof (cases "clients s c")
  case C_notify
  then obtain x u where u: "notify_one x s = Some u" "s' = set_client c C_idle u"
    using step by (auto simp: outside_step_def bind_eq_Some_conv dest: wake_one_notifies)
  then show ?thesis using wakes_notify_one [OF wk u(1)] by (auto simp: wakes_def)
qed (use step wk p in \<open>auto simp: outside_step_def wakes_def bind_eq_Some_conv split: choice.splits if_splits dest!: mutex_books\<close>)

lemma wakes_step:
  assumes wk: "wakes s" and l: "locks s" and p: "0 \<le> pending s" and step: "pool_step s l' s'"
  shows "wakes s'"
  using step
proof (cases rule: pool_step.cases)
  case (worker w ch)
  then show ?thesis using worker_wakes [OF wk l p] by blast
next
  case (client c ch)
  then show ?thesis using client_wakes [OF wk p] by blast
next
  case destructor
  then show ?thesis using wk wakes_notify_all [OF wk]
    by (auto simp: destructor_step_def wakes_def bind_eq_Some_conv dest!: mutex_books split: destructor_pc.splits if_splits)
next
  case (deque v d)
  then show ?thesis using wk by (simp add: wakes_def)
qed

definition pool_inv :: "('c :: finite, 't) pool_event list \<Rightarrow> ('w :: finite, 'c, 't) pool \<Rightarrow> bool" where
  "pool_inv es s \<longleftrightarrow> accounts es s \<and> locks s \<and> wakes s"

lemma accounts_nonneg: "accounts es s \<Longrightarrow> 0 \<le> pending s"
  using finishing_nonneg [of s] by (simp add: accounts_def)

lemma pool_inv_step: "pool_inv es s \<Longrightarrow> pool_step s l s' \<Longrightarrow> pool_inv (es @ label_trace l) s'"
  using accounts_step locks_step wakes_step accounts_nonneg unfolding pool_inv_def by blast

interpretation pool: trace_invariant pool_step pool_inv pool_start
proof unfold_locales
  show "pool_inv [] pool_start"
    by (simp add: pool_inv_def accounts_def locks_def wakes_def pool_start_def waiting_def finishing_def)
qed (rule pool_inv_step)

end
