(* ===== verification/Pool_Calls.thy ===== *)
theory Pool_Calls
  imports Pool_Proof
begin

text \<open>
  The pool uses its deques as they demand: only the worker that owns a deque pushes and pops, and no
  thread starts a call before its last one has returned. So a worker always gets on.
\<close>

fun owner_fits :: "('w, 't) worker_pc \<Rightarrow> 't owner_call \<Rightarrow> bool" where
  "owner_fits W_popping c \<longleftrightarrow> c = Popping \<or> (\<exists>r. c = Popped r)"
| "owner_fits (W_pushing t) c \<longleftrightarrow> c = Pushed \<or> (\<exists>x. c = Pushing x)"
| "owner_fits _ c \<longleftrightarrow> c = Owner_free"

fun thief_fits :: "'w \<Rightarrow> ('w, 't) worker_pc \<Rightarrow> 't thief_call \<Rightarrow> bool" where
  "thief_fits v (W_stealing k u) c \<longleftrightarrow> (if u = v then (\<exists>n. c = Stealing n) \<or> (\<exists>r. c = Stolen r) else c = Thief_free)"
| "thief_fits v _ c \<longleftrightarrow> c = Thief_free"

definition protocol :: "('w, 'c, 't) pool \<Rightarrow> bool" where
  "protocol s \<longleftrightarrow> (\<forall>w. owner_fits (workers s w) (owner_call (deques s w))) \<and>
     (\<forall>v w. thief_fits v (workers s w) (thief_calls (deques s v) w))"

lemma protocolD: "protocol s \<Longrightarrow> owner_fits (workers s w) (owner_call (deques s w))"
  "protocol s \<Longrightarrow> thief_fits v (workers s w) (thief_calls (deques s v) w)"
  by (simp_all add: protocol_def)

text \<open>A worker that is in no call of a deque, before and after.\<close>

definition no_call :: "('w, 't) worker_pc \<Rightarrow> bool" where
  "no_call pc \<longleftrightarrow> (case pc of W_popping \<Rightarrow> False | W_pushing t \<Rightarrow> False | W_stealing k v \<Rightarrow> False | _ \<Rightarrow> True)"

lemma no_call_fits: "no_call pc \<Longrightarrow> owner_fits pc c \<longleftrightarrow> c = Owner_free" "no_call pc \<Longrightarrow> thief_fits v pc c' \<longleftrightarrow> c' = Thief_free"
  by (cases pc; simp add: no_call_def)+

lemma protocol_cong: "protocol s \<Longrightarrow> deques t = deques s \<Longrightarrow> workers t = workers s \<Longrightarrow> protocol t"
  by (simp add: protocol_def)

lemma protocol_move:
  "protocol s \<Longrightarrow> deques t = deques s \<Longrightarrow> workers t = workers s \<Longrightarrow> no_call (workers s w) \<Longrightarrow> no_call pc \<Longrightarrow> protocol (set_worker w pc t)"
proof -
  assume a: "protocol s" "deques t = deques s" "workers t = workers s" "no_call (workers s w)" "no_call pc"
  have "owner_call (deques s w) = Owner_free" using protocolD(1) [OF a(1), of w] no_call_fits(1) [OF a(4)] by blast
  moreover have "thief_calls (deques s v) w = Thief_free" for v using protocolD(2) [OF a(1), of v w] no_call_fits(2) [OF a(4)] by blast
  ultimately show ?thesis using a by (simp add: protocol_def no_call_fits)
qed

lemma protocol_set_client [simp]: "protocol (set_client c pc s) = protocol s"
  by (simp add: protocol_def)

lemma protocol_notify_one: "protocol s \<Longrightarrow> notify_one x s = Some t \<Longrightarrow> protocol t"
  by (auto simp: notify_one_def no_call_def intro!: protocol_move split: option.splits sum.splits if_splits)

lemma woken_fits:
  "owner_fits (if pc = W_sleep then W_idle False else pc) c = owner_fits pc c"
  "thief_fits v (if pc = W_sleep then W_idle False else pc) c' = thief_fits v pc c'"
  by (cases pc; simp)+

lemma protocol_notify_all: "protocol s \<Longrightarrow> protocol (notify_all s)"
  by (simp add: protocol_def notify_all_def woken_fits del: if_split)

text \<open>A call of the owner, and one of a thief.\<close>

lemma protocol_owner:
  assumes "protocol s" "atomic_call (deques s w) e = Some d" "owner_fits pc (owner_call d)" "thief_calls d = thief_calls (deques s w)"
    "\<forall>v. thief_fits v pc = thief_fits v (workers s w)"
  shows "protocol (set_worker w pc (s\<lparr>deques := (deques s)(w := d)\<rparr>))"
  using assms by (auto simp: protocol_def)

lemma protocol_thief:
  assumes "protocol s" "v \<noteq> w" "atomic_call (deques s v) e = Some d" "owner_call d = owner_call (deques s v)"
    "thief_fits v pc (thief_calls d w)" "\<forall>u. u \<noteq> w \<longrightarrow> thief_calls d u = thief_calls (deques s v) u"
    "\<forall>u. u \<noteq> v \<longrightarrow> thief_fits u pc = thief_fits u (workers s w)" "owner_fits pc = owner_fits (workers s w)"
  shows "protocol (set_worker w pc (s\<lparr>deques := (deques s)(v := d)\<rparr>))"
  using assms by (auto simp: protocol_def)

definition steals_elsewhere :: "('w, 'c, 't) pool \<Rightarrow> bool" where
  "steals_elsewhere s \<longleftrightarrow> (\<forall>w k. workers s w \<noteq> W_stealing k w)"

lemma worker_protocol:
  assumes p: "protocol s" and e: "steals_elsewhere s" and step: "worker_step w ch s = Some (s', l)"
  shows "protocol s'"
proof (cases "workers s w")
  case W_pop
  then obtain d where d: "atomic_call (deques s w) Call_pop = Some d" "s' = set_worker w W_popping (s\<lparr>deques := (deques s)(w := d)\<rparr>)"
    using step by (auto simp: worker_step_def bind_eq_Some_conv deque_call_def)
  show ?thesis unfolding d(2) by (rule protocol_owner [OF p d(1)]) (use d(1) W_pop in \<open>auto split: if_splits\<close>)
next
  case W_popping
  obtain r where r: "owner_call (deques s w) = Popped r" using step W_popping by (auto simp: worker_step_def split: owner_call.splits)
  obtain d where d: "atomic_call (deques s w) (Ret_pop r) = Some d"
    "s' = set_worker w (case r of Some t \<Rightarrow> W_run t | None \<Rightarrow> W_global) (s\<lparr>deques := (deques s)(w := d)\<rparr>)"
    using step W_popping r by (auto simp: worker_step_def deque_call_def)
  show ?thesis unfolding d(2)
    by (rule protocol_owner [OF p d(1)]) (use d(1) W_popping in \<open>auto split: if_splits option.splits\<close>)
next
  case (W_push t x)
  then obtain d where d: "atomic_call (deques s w) (Call_push x) = Some d" "s' = set_worker w (W_pushing t) (s\<lparr>deques := (deques s)(w := d)\<rparr>)"
    using step by (auto simp: worker_step_def bind_eq_Some_conv deque_call_def)
  show ?thesis unfolding d(2) by (rule protocol_owner [OF p d(1)]) (use d(1) W_push in \<open>auto split: if_splits\<close>)
next
  case (W_pushing t)
  then obtain d where d: "atomic_call (deques s w) Ret_push = Some d" "s' = set_worker w (W_signal t) (s\<lparr>deques := (deques s)(w := d)\<rparr>)"
    using step by (auto simp: worker_step_def bind_eq_Some_conv deque_call_def)
  show ?thesis unfolding d(2) by (rule protocol_owner [OF p d(1)]) (use d(1) W_pushing in \<open>auto split: if_splits\<close>)
next
  case (W_stealing k v)
  then have v: "v \<noteq> w" using e by (auto simp: steals_elsewhere_def)
  obtain r where r: "thief_calls (deques s v) w = Stolen r" using step W_stealing by (auto simp: worker_step_def split: thief_call.splits)
  obtain d where d: "atomic_call (deques s v) (Ret_steal w r) = Some d"
    "s' = set_worker w (case r of Some t \<Rightarrow> W_stole t | None \<Rightarrow> W_steal k) (s\<lparr>deques := (deques s)(v := d)\<rparr>)"
    using step W_stealing r by (auto simp: worker_step_def deque_call_def)
  show ?thesis unfolding d(2)
    by (rule protocol_thief [OF p v d(1)]) (use d(1) W_stealing v in \<open>auto split: if_splits option.splits\<close>)
next
  case (W_steal k)
  show ?thesis
  proof (cases "k \<noteq> 0 \<and> (\<exists>v. ch = Victim v \<and> v \<noteq> w)")
    case True
    then obtain v where v: "ch = Victim v" "v \<noteq> w" by blast
    obtain d where d: "atomic_call (deques s v) (Call_steal w) = Some d" "s' = set_worker w (W_stealing (k - 1) v) (s\<lparr>deques := (deques s)(v := d)\<rparr>)"
      using step W_steal True v by (auto simp: worker_step_def bind_eq_Some_conv deque_call_def)
    show ?thesis unfolding d(2)
      by (rule protocol_thief [OF p v(2) d(1)]) (use d(1) W_steal v in \<open>auto split: if_splits\<close>)
  next
    case False
    then have "s' = set_worker w (W_idle False) s \<or> s' = set_worker w (W_steal (k - 1)) s"
      using step W_steal by (auto simp: worker_step_def split: if_splits choice.splits)
    then show ?thesis using protocol_move [OF p refl refl, of w] W_steal by (auto simp: no_call_def)
  qed
next
  case (W_notify t)
  then obtain x u where u: "notify_one x s = Some u" "s' = set_worker w (W_run t) u"
    using step by (auto simp: worker_step_def bind_eq_Some_conv dest: wake_one_notifies)
  show ?thesis unfolding u(2)
    by (rule protocol_move [OF protocol_notify_one [OF p u(1)] refl refl])
      (use notify_one_frame(1) [OF u(1), of w] W_notify in \<open>simp_all add: no_call_def\<close>)
next
  case W_notify_all
  then have s': "s' = set_worker w W_test ((notify_all s)\<lparr>idle_mutex := None\<rparr>)" using step by (simp add: worker_step_def)
  show ?thesis unfolding s'
    by (rule protocol_move [OF protocol_notify_all [OF p]]) (use W_notify_all in \<open>simp_all add: no_call_def notify_all_worker\<close>)
qed (use step in \<open>auto simp: worker_step_def no_call_def bind_eq_Some_conv split: choice.splits list.splits if_splits dest!: mutex_books
    intro!: protocol_move [OF p]\<close>)

lemma worker_elsewhere:
  assumes e: "steals_elsewhere s" and step: "worker_step w ch s = Some (s', l)"
  shows "steals_elsewhere s'"
proof -
  have "workers s' u \<noteq> W_stealing k u" for u k
  proof (cases "u = w")
    case True
    then show ?thesis using e step
      by (cases "workers s w") (auto simp: worker_step_def steals_elsewhere_def bind_eq_Some_conv
          split: choice.splits owner_call.splits thief_call.splits option.splits list.splits if_splits)
  next
    case False
    have keep: "workers s u \<noteq> W_stealing k u" using e by (simp add: steals_elsewhere_def)
    show ?thesis
    proof (cases "\<exists>t. workers s w = W_notify t")
      case True
      then obtain t where t: "workers s w = W_notify t" by blast
      then obtain x y where y: "notify_one x s = Some y" "s' = set_worker w (W_run t) y"
        using step by (auto simp: worker_step_def bind_eq_Some_conv dest: wake_one_notifies)
      then show ?thesis using keep \<open>u \<noteq> w\<close> by (auto simp: notify_one_def split: option.splits sum.splits if_splits)
    next
      case False
      then show ?thesis using keep \<open>u \<noteq> w\<close> step
        by (cases "workers s w") (auto simp: worker_step_def notify_all_worker bind_eq_Some_conv dest!: mutex_books deque_call_frame
            split: choice.splits owner_call.splits thief_call.splits option.splits list.splits if_splits)
    qed
  qed
  then show ?thesis by (simp add: steals_elsewhere_def)
qed

lemma client_keeps:
  assumes "outside_step c ch s = Some (s', l)"
  shows "protocol s \<Longrightarrow> protocol s'" "steals_elsewhere s \<Longrightarrow> steals_elsewhere s'"
proof -
  have "(protocol s \<longrightarrow> protocol s') \<and> (steals_elsewhere s \<longrightarrow> steals_elsewhere s')"
  proof (cases "clients s c = C_notify")
    case True
    then obtain x u where u: "notify_one x s = Some u" "s' = set_client c C_idle u"
      using assms by (auto simp: outside_step_def bind_eq_Some_conv dest: wake_one_notifies)
    have "steals_elsewhere s \<Longrightarrow> steals_elsewhere s'"
      using u by (auto simp: steals_elsewhere_def notify_one_def split: option.splits sum.splits if_splits)
    then show ?thesis using protocol_notify_one [OF _ u(1)] u(2) by simp
  next
    case False
    then have "deques s' = deques s" "workers s' = workers s"
      using assms by (auto simp: outside_step_def bind_eq_Some_conv dest!: mutex_books split: client_pc.splits choice.splits if_splits)
    then show ?thesis using protocol_cong [of s s'] by (simp add: steals_elsewhere_def)
  qed
  then show "protocol s \<Longrightarrow> protocol s'" "steals_elsewhere s \<Longrightarrow> steals_elsewhere s'" by blast+
qed

lemma protocol_internal:
  assumes "protocol s" "atomic_step (deques s v) None d"
  shows "protocol (s\<lparr>deques := (deques s)(v := d)\<rparr>)"
proof -
  have o: "owner_fits pc (owner_call (deques s v)) \<Longrightarrow> owner_fits pc (owner_call d)" for pc :: "('a, 'c) worker_pc"
    using assms(2) by (cases rule: atomic_step.cases; cases pc) auto
  have t: "thief_fits v pc (thief_calls (deques s v) w) \<Longrightarrow> thief_fits v pc (thief_calls d w)" for w and pc :: "('a, 'c) worker_pc"
    using assms(2) by (cases rule: atomic_step.cases; cases pc) (auto split: if_splits)
  show ?thesis using assms(1) o t by (auto simp: protocol_def)
qed

definition calls_inv :: "('c, 't) pool_event list \<Rightarrow> ('w :: finite, 'c, 't) pool \<Rightarrow> bool" where
  "calls_inv es s \<longleftrightarrow> protocol s \<and> steals_elsewhere s"

lemma calls_step:
  assumes "calls_inv es s" "pool_step s l s'"
  shows "calls_inv (es @ label_trace l) s'"
  using assms(2)
proof (cases rule: pool_step.cases)
  case (worker w ch)
  then show ?thesis using worker_protocol [of s w ch s' l] worker_elsewhere [of s w ch s' l] assms(1) by (simp add: calls_inv_def)
next
  case (client c ch)
  then show ?thesis using client_keeps [of c ch s s' l] assms(1) by (simp add: calls_inv_def)
next
  case destructor
  have "protocol (notify_all s)" "steals_elsewhere (notify_all s)"
    using protocol_notify_all assms(1) by (auto simp: calls_inv_def steals_elsewhere_def notify_all_worker)
  moreover have "(deques s' = deques s \<and> workers s' = workers s) \<or> (deques s' = deques (notify_all s) \<and> workers s' = workers (notify_all s))"
    using destructor by (auto simp: destructor_step_def bind_eq_Some_conv dest!: mutex_books split: destructor_pc.splits if_splits)
  ultimately show ?thesis using assms(1) protocol_cong [of s s'] protocol_cong [of "notify_all s" s']
    by (auto simp: calls_inv_def steals_elsewhere_def)
next
  case (deque v d)
  then show ?thesis using protocol_internal [of s v d] assms(1) by (simp add: calls_inv_def steals_elsewhere_def)
qed

interpretation calls: trace_invariant pool_step calls_inv pool_start
proof unfold_locales
  show "calls_inv [] pool_start" by (simp add: calls_inv_def protocol_def steals_elsewhere_def pool_start_def atomic_start_def)
qed (rule calls_step)

end
