(* ===== verification/Pool_Main.thy ===== *)
theory Pool_Main
  imports Pool_Calls
begin

text \<open>The theorems about the thread pool.\<close>

section \<open>Schedules\<close>

datatype ('w, 'c, 't) pool_action =
  Worker 'w "('w, 'c, 't) choice" | Outside 'c "('w, 'c, 't) choice" | Destroys | Pops 'w

text \<open>The internal step of a pop of the deque of \<open>w\<close>, for schedules.\<close>

definition pop_effect :: "('w, 't) atomic_deque \<Rightarrow> ('w, 't) atomic_deque option" where
  "pop_effect d = (if owner_call d \<noteq> Popping then None
     else if items d = [] then Some (d\<lparr>owner_call := Popped None\<rparr>)
     else Some (d\<lparr>items := butlast (items d), removed := removed d + (if butlast (items d) = [] then 1 else 0),
            owner_call := Popped (Some (last (items d)))\<rparr>))"

lemma pop_effect_step: "pop_effect d = Some d' \<Longrightarrow> atomic_step d None d'"
  using atomic_step.pop [of d "butlast (items d)" "last (items d)"] atomic_step.pop_empty [of d]
  by (auto simp: pop_effect_def split: if_splits)

fun pool_perform :: "('w :: finite, 'c, 't) pool \<Rightarrow> ('w, 'c, 't) pool_action \<Rightarrow> (('w, 'c, 't) pool \<times> ('c, 't) pool_event option) option" where
  "pool_perform s (Worker w ch) = worker_step w ch s"
| "pool_perform s (Outside c ch) = outside_step c ch s"
| "pool_perform s Destroys = map_option (\<lambda>t. (t, None)) (destructor_step s)"
| "pool_perform s (Pops w) = map_option (\<lambda>d. (s\<lparr>deques := (deques s)(w := d)\<rparr>, None)) (pop_effect (deques s w))"

lemma pool_perform_step: "pool_perform s a = Some (t, l) \<Longrightarrow> pool_step s l t"
  by (cases a) (auto intro: pool_step.intros dest: pop_effect_step)

fun pool_schedule :: "('w :: finite, 'c, 't) pool \<Rightarrow> ('w, 'c, 't) pool_action list \<Rightarrow> (('w, 'c, 't) pool \<times> ('c, 't) pool_event list) option" where
  "pool_schedule s [] = Some (s, [])"
| "pool_schedule s (a # as) = do {
     (t, l) \<leftarrow> pool_perform s a;
     (u, es) \<leftarrow> pool_schedule t as;
     Some (u, label_trace l @ es) }"

lemma pool_schedule_runs: "pool_schedule s as = Some (t, es) \<Longrightarrow> runs pool_step s es t"
proof (induction as arbitrary: s es)
  case Nil
  then show ?case by (simp add: runs.stay)
next
  case (Cons a as)
  then obtain u l fs where u: "pool_perform s a = Some (u, l)" "pool_schedule u as = Some (t, fs)" "es = label_trace l @ fs"
    by (auto simp: bind_eq_Some_conv)
  have "runs pool_step s (label_trace l) u"
    using pool_perform_step [OF u(1)] by (cases l) (auto intro: runs_one runs_silent)
  from runs_append [OF Cons.IH [OF u(2)] this] show ?case by (simp add: u(3))
qed

text \<open>An outside thread submits a task and waits, sleeping; a worker runs it, wakes the thread, and it returns.\<close>

definition job :: "(bool, bool, nat) pool_action list" where
  "job = [Outside True (Submits 7), Outside True Go, Outside True Go, Outside True (Wakes None),
     Outside True Go, Outside True Go, Outside True Go, Outside True Go,
     Worker True Go, Worker True Go, Pops True, Worker True Go, Worker True Go, Worker True Go, Worker True Go, Worker True Go, Worker True Go,
     Outside True Go, Outside True Go]"

lemma job_runs:
  "\<exists>s :: (bool, bool, nat) pool. runs pool_step pool_start [Submit 7, Ran 7, Waited True] s \<and>
     workers s True = W_test \<and> clients s True = C_idle \<and> pending s = 0"
proof -
  have "map_option (\<lambda>(s, es). (es, workers s True, clients s True, pending s)) (pool_schedule pool_start job) =
    Some ([Submit 7, Ran 7, Waited True], W_test, C_idle, 0)"
    by code_simp
  then show ?thesis using pool_schedule_runs [of pool_start job] by fastforce
qed

section \<open>Every task is run once\<close>

text \<open>
  C18: The pool neither loses a task nor runs one twice. In every run of any number of workers and outside
  threads, the tasks submitted are, with multiplicity, the tasks that have run and those that wait: in a
  deque, in the global queue, or in the hands of a thread. The counter is the number of those that wait,
  and of the workers that have run a task and are about to count it.
\<close>

theorem pool_runs_each_task_once:
  fixes s :: "('w :: finite, 'c :: finite, 't) pool"
  assumes "runs pool_step pool_start es s"
  shows "submitted_in es = ran_in es + waiting s \<and>
    pending s = int (size (waiting s)) + int (card {w. workers s w = W_finish})"
proof -
  have "finish_count pc = of_bool (pc = W_finish)" for pc :: "('w, 't) worker_pc" by (cases pc) simp_all
  then have "finishing s = (\<Sum>w\<in>UNIV. of_bool (workers s w = W_finish))" by (simp only: finishing_def)
  then have "finishing s = int (card {w. workers s w = W_finish})" by simp
  then show ?thesis using pool.runs_inv [OF assms] by (simp add: pool_inv_def accounts_def)
qed

theorem pool_runs_each_task_once_witness:
  "\<exists>s :: (bool, bool, nat) pool. runs pool_step pool_start [Submit 7, Ran 7, Waited True] s \<and> waiting s = {#}"
proof -
  obtain s :: "(bool, bool, nat) pool" where s: "runs pool_step pool_start [Submit 7, Ran 7, Waited True] s" using job_runs by blast
  from pool_runs_each_task_once [OF s] have "submitted_in [Submit 7 :: (bool, nat) pool_event, Ran 7, Waited True] =
      ran_in [Submit 7 :: (bool, nat) pool_event, Ran 7, Waited True] + waiting s" ..
  then have "waiting s = {#}" by (simp add: submitted_in_def ran_in_def map_filter_def)
  with s show ?thesis by blast
qed

section \<open>Waiting\<close>

lemma runs_last:
  "runs step s (es @ [e]) u \<Longrightarrow> \<exists>t t'. runs step s es t \<and> step t (Some e) t'"
  by (induction s "es @ [e]" u rule: runs.induct) auto

text \<open>
  C19: \<open>wait_idle\<close> returns only when all is done: at its return every task submitted before, also by other
  tasks, has run to its end.
\<close>

theorem wait_idle_means_done:
  fixes s :: "('w :: finite, 'c :: finite, 't) pool"
  assumes "runs pool_step pool_start (es @ [Waited c]) s"
  shows "submitted_in es = ran_in es"
proof -
  obtain t t' :: "('w, 'c, 't) pool" where t: "runs pool_step pool_start es t" "pool_step t (Some (Waited c)) t'"
    using runs_last [OF assms] by blast
  from t(2) have "pending t = 0"
    by (cases rule: pool_step.cases)
      (auto simp: worker_step_def outside_step_def bind_eq_Some_conv split: worker_pc.splits client_pc.splits owner_call.splits
        thief_call.splits choice.splits list.splits if_splits)
  moreover have acc: "accounts es t" using pool.runs_inv [OF t(1)] by (simp add: pool_inv_def)
  ultimately have "int (size (waiting t)) = 0" using finishing_nonneg [of t] unfolding accounts_def by linarith
  then show ?thesis using acc by (simp add: accounts_def)
qed

theorem wait_idle_means_done_witness:
  "submitted_in [Submit 7, Ran 7 :: (bool, nat) pool_event] = ran_in [Submit 7, Ran 7 :: (bool, nat) pool_event]"
proof -
  obtain s :: "(bool, bool, nat) pool" where "runs pool_step pool_start ([Submit 7, Ran 7] @ [Waited True]) s" using job_runs by auto
  then show ?thesis by (rule wait_idle_means_done)
qed

text \<open>
  C20: No wake-up is lost. When a thread sleeps in \<open>wait_idle\<close> or is about to, and no task is left, a worker
  is on its way to wake it: it has seen the counter go to 0, and it will take the mutex and notify all.
\<close>

theorem no_lost_wakeup:
  fixes s :: "('w :: finite, 'c :: finite, 't) pool"
  assumes "runs pool_step pool_start es s" "clients s c = C_park \<or> clients s c = C_sleep" "pending s = 0"
  shows "\<exists>w. workers s w = W_last \<or> workers s w = W_notify_all"
  using pool.runs_inv [OF assms(1)] assms(2,3) by (auto simp: pool_inv_def wakes_def)

theorem no_lost_wakeup_witness:
  "\<exists>es (s :: (bool, bool, nat) pool). runs pool_step pool_start es s \<and> clients s True = C_sleep \<and> pending s = 0 \<and>
    (\<exists>w. workers s w = W_last \<or> workers s w = W_notify_all)"
proof -
  have "map_option (\<lambda>(s, es). (clients s True, pending s)) (pool_schedule pool_start (take 16 job)) = Some (C_sleep, 0)"
    by code_simp
  then obtain es and s :: "(bool, bool, nat) pool" where
    s: "pool_schedule pool_start (take 16 job) = Some (s, es)" "clients s True = C_sleep" "pending s = 0" by auto
  note run = pool_schedule_runs [OF s(1)]
  have "\<exists>w. workers s w = W_last \<or> workers s w = W_notify_all"
    by (rule no_lost_wakeup [OF run _ s(3), of True]) (simp add: s(2))
  then show ?thesis using run s(2,3) by (intro exI [of _ es] exI [of _ s] conjI)
qed

section \<open>Calls of the deques\<close>

text \<open>
  C21: The single-owner rule of the deques is kept. A call of \<open>push\<close> or \<open>pop\<close> on a deque is in progress only
  for the worker it belongs to, at the place where that worker waits for it, and a steal only for
  another worker that waits for it; and when a worker is about to start a call, its last one is over.
\<close>

theorem pool_single_owner:
  fixes s :: "('w :: finite, 'c, 't) pool"
  assumes "runs pool_step pool_start es s"
  shows "(owner_call (deques s w) \<noteq> Owner_free \<longrightarrow> workers s w = W_popping \<or> (\<exists>t. workers s w = W_pushing t)) \<and>
    (thief_calls (deques s v) w \<noteq> Thief_free \<longrightarrow> v \<noteq> w \<and> (\<exists>k. workers s w = W_stealing k v)) \<and>
    (workers s w = W_pop \<or> (\<exists>t x. workers s w = W_push t x) \<longrightarrow> owner_call (deques s w) = Owner_free) \<and>
    (\<forall>k. workers s w = W_steal k \<longrightarrow> thief_calls (deques s v) w = Thief_free)"
proof -
  have inv: "protocol s" "steals_elsewhere s" using calls.runs_inv [OF assms] by (simp_all add: calls_inv_def)
  then have "\<not> (\<exists>k. workers s w = W_stealing k w)" by (simp add: steals_elsewhere_def)
  then show ?thesis using protocolD(1) [OF inv(1), of w] protocolD(2) [OF inv(1), of v w]
    by (cases "workers s w") (auto split: if_splits)
qed

theorem pool_single_owner_witness:
  "\<exists>s :: (bool, bool, nat) pool. runs pool_step pool_start [Submit 7, Ran 7, Waited True] s \<and> workers s True = W_test \<and>
    owner_call (deques s True) = Owner_free"
proof -
  obtain s :: "(bool, bool, nat) pool" where s: "runs pool_step pool_start [Submit 7, Ran 7, Waited True] s" "workers s True = W_test"
    using job_runs by blast
  from pool_single_owner [OF s(1), of True] s show ?thesis by auto
qed

text \<open>What keeps a worker from a step: a call that the deque has not answered, or the mutex.\<close>

definition can_step :: "'w :: finite \<Rightarrow> ('w, 'c, 't) pool \<Rightarrow> bool" where
  "can_step w s \<longleftrightarrow> (\<exists>ch s' l. worker_step w ch s = Some (s', l))"

lemma holder_steps:
  assumes "locks s" "idle_mutex s = Some x"
  shows "case x of Inl u \<Rightarrow> can_step u s | Inr c \<Rightarrow> \<exists>s' l. outside_step c Go s = Some (s', l)"
proof (cases x)
  case (Inl u)
  then have "worker_holds (workers s u)" using assms by (auto simp: locks_def)
  then have "\<exists>s' l. worker_step u Go s = Some (s', l)" by (auto simp: worker_holds_def worker_step_def)
  then show ?thesis using Inl by (auto simp: can_step_def)
next
  case (Inr c)
  then have "client_holds (clients s c)" using assms by (auto simp: locks_def)
  then show ?thesis using Inr by (auto simp: client_holds_def outside_step_def)
qed

lemma wake_possible: "\<exists>x t. notify_one x s = Some t"
proof -
  consider (w) w where "workers s w = W_sleep" | (c) c where "clients s c = C_sleep"
    | (none) "\<forall>w. workers s w \<noteq> W_sleep" "\<forall>c. clients s c \<noteq> C_sleep" by blast
  then show ?thesis
  proof cases
    case w
    then show ?thesis by (intro exI [of _ "Some (Inl w)"]) (simp add: notify_one_def)
  next
    case c
    then show ?thesis by (intro exI [of _ "Some (Inr c)"]) (simp add: notify_one_def)
  next
    case none
    then show ?thesis by (intro exI [of _ None]) (simp add: notify_one_def)
  qed
qed

lemma pop_answers:
  assumes "owner_call d = Popping"
  shows "\<exists>d' r. atomic_step d None d' \<and> owner_call d' = Popped r"
proof (cases "items d" rule: rev_cases)
  case Nil
  with assms have "atomic_step d None (d\<lparr>owner_call := Popped None\<rparr>)" by (rule atomic_step.pop_empty)
  then show ?thesis by fastforce
next
  case (snoc ys y)
  from atomic_step.pop [OF assms this] show ?thesis by fastforce
qed

lemma steal_answers:
  assumes "thief_calls d i = Stealing n"
  shows "\<exists>d' r. atomic_step d None d' \<and> thief_calls d' i = Stolen r"
proof (cases "items d")
  case Nil
  then have "atomic_step d None (d\<lparr>thief_calls := (thief_calls d)(i := Stolen None)\<rparr>)"
    by (intro atomic_step.steal_fails [OF assms]) simp
  then show ?thesis by fastforce
next
  case (Cons y ys)
  from atomic_step.steal [OF assms this] show ?thesis by fastforce
qed

lemma can_stepI: "worker_step w ch s \<noteq> None \<Longrightarrow> can_step w s"
  by (auto simp: can_step_def)

text \<open>The deque whose answer a worker waits for, and where it waits for the mutex; everywhere else it can step.\<close>

fun called_deque :: "'w \<Rightarrow> ('w, 't) worker_pc \<Rightarrow> 'w option" where
  "called_deque w W_popping = Some w"
| "called_deque w (W_stealing _ v) = Some v"
| "called_deque w (W_pushing _) = Some w"
| "called_deque w _ = None"

fun locking :: "('w, 't) worker_pc \<Rightarrow> bool" where
  "locking (W_signal _) = True"
| "locking W_last = True"
| "locking (W_idle _) = True"
| "locking _ = False"

lemma returned_steps:
  "workers s w = W_popping \<Longrightarrow> owner_call (deques s w) = Popped r \<Longrightarrow> can_step w s"
  "workers s w = W_stealing k v \<Longrightarrow> thief_calls (deques s v) w = Stolen r \<Longrightarrow> can_step w s"
  "workers s w = W_pushing t \<Longrightarrow> owner_call (deques s w) = Pushed \<Longrightarrow> can_step w s"
  by (simp_all add: can_step_def worker_step_def deque_call_def)

lemma calling_steps:
  assumes "protocol s" "called_deque w (workers s w) = Some v"
  shows "can_step w s \<or> (\<exists>d. atomic_step (deques s v) None d \<and> can_step w (s\<lparr>deques := (deques s)(v := d)\<rparr>))"
proof (cases "workers s w")
  case W_popping
  then have [simp]: "v = w" using assms(2) by simp
  from W_popping consider r where "owner_call (deques s w) = Popped r" | "owner_call (deques s w) = Popping"
    using protocolD(1) [OF assms(1), of w] by auto
  then show ?thesis
  proof cases
    case 2
    from pop_answers [OF this] obtain d r where d: "atomic_step (deques s w) None d" "owner_call d = Popped r" by blast
    then show ?thesis using returned_steps(1) [of "s\<lparr>deques := (deques s)(w := d)\<rparr>" w r] W_popping by auto
  qed (use returned_steps(1) [OF W_popping] in blast)
next
  case (W_stealing k u)
  then have at: "workers s w = W_stealing k v" using assms(2) by simp
  then consider r where "thief_calls (deques s v) w = Stolen r" | n where "thief_calls (deques s v) w = Stealing n"
    using protocolD(2) [OF assms(1), of v w] by auto
  then show ?thesis
  proof cases
    case 2
    from steal_answers [OF this] obtain d r where d: "atomic_step (deques s v) None d" "thief_calls d w = Stolen r" by blast
    then show ?thesis using returned_steps(2) [of "s\<lparr>deques := (deques s)(v := d)\<rparr>" w k v r] at by auto
  qed (use returned_steps(2) [OF at] in blast)
next
  case (W_pushing t)
  then have [simp]: "v = w" using assms(2) by simp
  from W_pushing consider "owner_call (deques s w) = Pushed" | x where "owner_call (deques s w) = Pushing x"
    using protocolD(1) [OF assms(1), of w] by auto
  then show ?thesis
  proof cases
    case 2
    from atomic_step.push [OF this] returned_steps(3) [of "s\<lparr>deques := (deques s)(w := _)\<rparr>" w t] W_pushing
    show ?thesis by fastforce
  qed (use returned_steps(3) [OF W_pushing] in blast)
qed (use assms(2) in auto)

lemma locking_steps:
  assumes "locks s" "locking (workers s w)"
  shows "can_step w s \<or> (\<exists>x. idle_mutex s = Some x \<and> x \<noteq> Inl w \<and>
    (case x of Inl u \<Rightarrow> can_step u s | Inr c \<Rightarrow> \<exists>s' l. outside_step c Go s = Some (s', l)))"
proof (cases "idle_mutex s")
  case None
  then show ?thesis using assms(2)
    by (cases "workers s w") (simp_all add: can_step_def worker_step_def pass_mutex_def take_mutex_def)
next
  case (Some x)
  have "\<not> worker_holds (workers s w)" using assms(2) by (cases "workers s w") simp_all
  then have "x \<noteq> Inl w" using assms(1) Some by (auto simp: locks_def)
  then show ?thesis using holder_steps [OF assms(1) Some] Some by blast
qed

lemma other_steps:
  assumes "protocol s" "called_deque w (workers s w) = None" "\<not> locking (workers s w)" "workers s w \<noteq> W_exit"
  shows "can_step w s"
proof (cases "workers s w")
  case (W_steal k)
  then show ?thesis by (intro can_stepI [of _ "Victim w"]) (simp add: worker_step_def)
next
  case (W_notify t)
  obtain x u where "notify_one x s = Some u" using wake_possible by blast
  then show ?thesis using W_notify by (intro can_stepI [of _ "Wakes x"]) (simp add: worker_step_def wake_one_def)
qed (use assms protocolD(1) [OF assms(1), of w] in
  \<open>auto intro!: can_stepI [of _ Go] simp: worker_step_def deque_call_def split: list.splits\<close>)

text \<open>
  C22: No worker gets stuck. A worker that has not left its loop can make its next step; or it waits for
  the answer of a deque it has called, and can step after one internal step of that deque; or it is at a
  place where it takes the idle mutex, which another thread holds, and that thread can step. In particular every call it makes is one the deque accepts.
\<close>

theorem pool_never_stuck:
  fixes s :: "('w :: finite, 'c :: finite, 't) pool"
  assumes "runs pool_step pool_start es s"
  shows "workers s w = W_exit \<or> can_step w s \<or>
    (\<exists>v d. called_deque w (workers s w) = Some v \<and> atomic_step (deques s v) None d \<and>
       can_step w (s\<lparr>deques := (deques s)(v := d)\<rparr>)) \<or>
    (locking (workers s w) \<and> (\<exists>x. idle_mutex s = Some x \<and> x \<noteq> Inl w \<and> (case x of Inl u \<Rightarrow> can_step u s | Inr c \<Rightarrow> \<exists>s' l. outside_step c Go s = Some (s', l))))"
proof -
  have "protocol s" using calls.runs_inv [OF assms] by (simp add: calls_inv_def)
  moreover have "locks s" using pool.runs_inv [OF assms] by (simp add: pool_inv_def)
  ultimately show ?thesis using calling_steps [of s w] locking_steps [of s w] other_steps [of s w]
    by (cases "called_deque w (workers s w)") blast+
qed

theorem pool_never_stuck_witness:
  "\<exists>s :: (bool, bool, nat) pool. runs pool_step pool_start [Submit 7, Ran 7, Waited True] s \<and> workers s True = W_test \<and>
    can_step True s"
proof -
  obtain s :: "(bool, bool, nat) pool" where s: "runs pool_step pool_start [Submit 7, Ran 7, Waited True] s" "workers s True = W_test"
    using job_runs by blast
  from pool_never_stuck [OF s(1), of True] s(2) have "can_step True s" by simp
  with s show ?thesis by blast
qed

section \<open>The destructor drops tasks\<close>

definition dropping :: "(bool, bool, nat) pool_action list" where
  "dropping = [Outside True (Submits 7), Outside True Go, Outside True Go, Outside True (Wakes None),
     Destroys, Destroys, Destroys, Worker True Go, Worker False Go, Destroys]"

text \<open>
  The destructor does not wait for submitted tasks: there is a run in which a task is submitted by a
  call that has returned, the destructor then runs to its end, and the task never runs.
\<close>

theorem pool_drops_tasks:
  "\<exists>s :: (bool, bool, nat) pool. runs pool_step pool_start [Submit 7] s \<and> destructor s = D_end \<and>
    clients s True = C_idle \<and> (\<forall>w. workers s w = W_exit) \<and> global_queue s = [7]"
proof -
  have "map_option (\<lambda>(s, es). (es, destructor s, clients s True, workers s True, workers s False, global_queue s)) (pool_schedule pool_start dropping) =
    Some ([Submit 7], D_end, C_idle, W_exit, W_exit, [7])"
    by code_simp
  then obtain s :: "(bool, bool, nat) pool" where s: "pool_schedule pool_start dropping = Some (s, [Submit 7])" "destructor s = D_end"
    "clients s True = C_idle" "workers s True = W_exit" "workers s False = W_exit" "global_queue s = [7]" by auto
  have "workers s w = W_exit" for w using s(4,5) by (cases w) simp_all
  then show ?thesis using pool_schedule_runs [OF s(1)] s by blast
qed

end
