(* ===== verification/Spec2Isabelle.thy ===== *)
theory Spec2Isabelle
  imports Gzip_Proof Codec Balloc_Main Coroutine_Main Json_Utf8 Json_Rfc Deque_Main Pool_Main
begin

text \<open>
  A model of the C and C++ programs of this repository and the theorems that make them correct.

  \<^bold>\<open>DEFLATE\<close> (\<open>C-Deflate/src\<close>). The parts, in the order the data flows, with their theories:

  \<^item> \<open>Prelude\<close>: machine integers, C's partial operations, loops over lists, bit lists. An operation
    whose behaviour C leaves undefined (a shift by 32 or more, an access out of an array) is the
    value \<^const>\<open>None\<close>, so a theorem that a function returns \<open>Some\<close> says it has no such behaviour.
  \<^item> \<open>Format\<close>: error codes, alphabet sizes, the length and distance tables of \<open>bits.c\<close>.
  \<^item> \<open>Bits\<close>: the bit writer and reader of \<open>bits.c\<close>, with their 32-bit accumulators. The lemmas
    relate both to a list of bits: a step \<^const>\<open>emits\<close> bits or \<^const>\<open>reads\<close> them.
  \<^item> \<open>Huffman_Code\<close>, \<open>Huffman_Decode\<close>, \<open>Huffman_Build\<close>: \<open>huffman.c\<close>, that is canonical codes, the
    decoding tables, and the construction of length-limited code lengths from frequencies.
  \<^item> \<open>Stream_Spec\<close>: what a stream of the two programs is, described without their code: items,
    run-length coded headers, blocks, the bytes they stand for. It is their variant of RFC 1951: the fixed
    code has 286 symbols, and a run of code lengths may reach past their end.
  \<^item> \<open>Rfc1951\<close>: what a stream is by RFC 1951 itself, and that the two agree on streams without
    literals from 144 on in fixed blocks, with at most 30 distance codes and no cut runs. The theorems about streams say what
    holds for either format.
  \<^item> \<open>Inflate\<close>, \<open>Inflate_Proof\<close>, \<open>Inflate_Complete\<close>: the decoder of \<open>inflate.c\<close>; it is total, and it
    accepts exactly the streams of \<open>Stream_Spec\<close> that fit the output buffer.
  \<^item> \<open>LZ77\<close>: hash chains, match search and lazy evaluation of \<open>deflate.c\<close>; the tokens expand to the
    input.
  \<^item> \<open>Deflate\<close>: symbol counts, header packing, costs, emission and \<open>deflate_compress\<close>. Its lemmas
    are in \<open>Deflate_Emit\<close> (what is written), \<open>Deflate_Count\<close> (frequencies), \<open>Deflate_Pack\<close> (the
    run-length coded lengths), \<open>Deflate_Header\<close> (the planned header), \<open>Deflate_Proof\<close> (its bits and
    the size bound) and \<open>Deflate_Main\<close> (the choice of block and the whole compressor).
  \<^item> \<open>Gzip\<close>, \<open>Gzip_Proof\<close>: the CRC with its static table, and the gzip container of \<open>inflate.c\<close>.
  \<^item> \<open>Codec\<close>: the interface between writing and reading a field, with its two instances, integers of
    fixed width and Huffman symbols.

  \<^bold>\<open>Allocator\<close> (\<open>C-Allocator/src/balloc.c\<close>). The theories:

  \<^item> \<open>Balloc\<close>: every macro and function of the file. The heap is the record \<^typ>\<open>balloc_heap\<close>: a memory of
    64-bit words at addresses that are multiples of 8, and the static variables. A word that is not
    mapped is \<^const>\<open>None\<close>, and so is the result of a function that reads or writes it. \<open>mmap\<close> is a
    parameter, a function from the length to the address or to the failure.
  \<^item> \<open>Balloc_Layout\<close>: what the memory stands for, a \<^typ>\<open>layout\<close> (chunks, each a list of blocks that
    are used, listed or loose, that is free and not listed yet), and the invariant \<^const>\<open>heap_inv\<close>. A
    proof about one block looks at the layout as a \<^typ>\<open>hole\<close> filled with some blocks.
  \<^item> \<open>Balloc_Lists\<close>, \<open>Balloc_Free\<close>, \<open>Balloc_Coalesce\<close>, \<open>Balloc_Size\<close>, \<open>Balloc_Grow\<close>,
    \<open>Balloc_Alloc\<close>, \<open>Balloc_Check\<close>, \<open>Balloc_Client\<close>: for each function, that it is defined on a heap of
    the invariant and what it does to the layout.
  \<^item> \<open>Balloc_Main\<close>: the runs of a client as a step relation, and the contracts of the interface.

  \<^bold>\<open>Coroutines\<close> (\<open>C-Coroutines/src\<close>). The theories:

  \<^item> \<open>Words\<close>: offsets and rounding of 64-bit words, shared with the allocator.
  \<^item> \<open>Coroutine\<close>: the instructions of \<open>switch.S\<close> on a machine of registers and memory, the functions of
    \<open>coroutine.c\<close> on the same memory (the records are words in it), and the step function of a
    program that calls them. What runs on a stack is a \<^typ>\<open>prog\<close>, a codatatype of library calls with
    continuations. A context goes on only where it finds its return address, its stack pointer and
    the callee-saved registers as they were; everything else is \<^const>\<open>None\<close>.
  \<^item> \<open>Coroutine_Switch\<close>: what the assembly routine does, as one change of state.
  \<^item> \<open>Coroutine_Spec\<close>: the abstract machine, with suspended, active and finished coroutines and a stack
    of waiting contexts, defined for programs that keep to the rules of the library.
  \<^item> \<open>Coroutine_Sim\<close>, \<open>Coroutine_Step\<close>, \<open>Coroutine_Calls\<close>, \<open>Coroutine_Create\<close>, \<open>Coroutine_Main\<close>: the
    simulation relation, call by call, and the theorems about runs.

  \<^bold>\<open>JSON parser\<close> (\<open>CPP-SimdJSON/include/simdjson.hpp\<close>). The theories:

  \<^item> \<open>Json\<close>: the whole parser. The text is a list of bytes and a pointer into it a position; every
    function takes the position and returns the new one or a \<^typ>\<open>parse_error\<close>. The AVX2 intrinsics are
    functions on lists of 32 bytes. \<open>std::from_chars\<close> is a parameter.
  \<^item> \<open>Json_Scan\<close>: the vector loops find what the scalar loops find, so the flag \<open>simd\<close> changes nothing.
  \<^item> \<open>Json_Spec\<close>: the grammar, as inductive relations between a text and the value it stands for, in two
    dialects: RFC 8259, and the lenient one of the parser, which admits raw control characters and
    escapes of lone low surrogates in strings.
  \<^item> \<open>Json_Lex\<close>, \<open>Json_Proof\<close>: the parser accepts exactly the texts of the lenient dialect; its error positions.
  \<^item> \<open>Json_Rfc\<close>: which of them are texts of the RFC, by a check of the strings.
  \<^item> \<open>Json_Utf8\<close>: a strict UTF-8 decoder, and the encoder of \<open>\u\<close> escapes against it.

  \<^bold>\<open>Work stealing\<close> (\<open>CPP-WorkStealing/include/workstealing.hpp\<close>). The theories:

  \<^item> \<open>Traces\<close>: runs of a relation with labelled steps, and simulation between two of them.
  \<^item> \<open>Deque\<close>: the Chase-Lev deque. Each access to an atomic variable is a step of the owner or of a
    thief; their program counters hold the local variables; the steps interleave freely.
  \<^item> \<open>Deque_Spec\<close>: the atomic queue that the deque is meant to be, and its conservation of tasks.
  \<^item> \<open>Deque_Sim\<close>, \<open>Deque_Proof\<close>: the simulation relation and that every step keeps it.
  \<^item> \<open>Deque_Main\<close>: the theorems about the deque.
  \<^item> \<open>Pool\<close>: the class \<open>ThreadPool\<close>. Its workers are the elements of a finite type, outside threads call
    \<open>submit\<close> and \<open>wait_idle\<close>, one thread may run the destructor. The deques are the atomic queues of
    \<open>Deque_Spec\<close>, which \<open>deque_linearizable\<close> justifies; the idle mutex has an owner, the condition variable
    is the set of threads that sleep on it, and a sleeper may also wake by itself or by its timeout.
    What a step leaves open (the victim of a steal, who is woken, what a task submits) is a \<^typ>\<open>('w, 'c, 't) choice\<close>.
  \<^item> \<open>Pool_Proof\<close>: the invariant of its tasks, its counter, its mutex and its sleepers.
  \<^item> \<open>Pool_Calls\<close>: the invariant of the calls of the deques.
  \<^item> \<open>Pool_Main\<close>: the theorems about the pool, and runs given by schedules for their witnesses.

  State and calls of the codec. A \<^typ>\<open>bitwriter\<close> and a \<^typ>\<open>bitreader\<close> are the C structs with their buffers;
  every function takes and returns them. The static CRC table is the record \<^typ>\<open>crc_static\<close>. The
  three \<open>malloc\<close> calls are arguments, the record \<^typ>\<open>allocs\<close> of their outcomes. The caller's output
  buffer is a list, returned updated. Counters that cannot overflow for buffers in memory are \<open>nat\<close>;
  frequencies keep their 32 bits, code tables their 16, accumulators are 32-bit words.

  Loops. A loop over a counter is \<^const>\<open>ofor\<close>. Loops with a measure are functions with a termination
  proof. The length-limiting loop of the Huffman construction, its tree walk, the main loop of the
  parser and the header packing are partial functions in the option monad, where not returning is
  \<^const>\<open>None\<close>: the theorems that they return \<open>Some\<close> include their termination. No fuel is used.

  Locales. \<open>codec\<close> is the contract of a field between writer and reader (\<open>Codec\<close>), \<open>tokenizer\<close> that
  of the parser toward the encoder (\<open>Deflate_Main\<close>), \<open>shift_register\<close> that of a checksum that loses
  nothing (\<open>Gzip\<close>), \<open>inductive_invariant\<close> that of a step relation and an invariant (\<open>Prelude\<close>,
  interpreted on the runs of an allocator client), \<open>forward_simulation\<close> that of two machines
  (\<open>Prelude\<close>, interpreted on the coroutines and their abstract machine), \<open>vector_scan\<close> that of a vector
  loop and the scalar loop it stands for (\<open>Json_Scan\<close>), \<open>skipper\<close> that of a loop that skips one kind of
  character (\<open>Json_Spec\<close>), \<open>trace_simulation\<close> and \<open>trace_invariant\<close> those of labelled runs (\<open>Traces\<close>,
  interpreted on the deque, its atomic queue and the pool); each is interpreted on the model's own functions.

  Bounds. The compressor's theorems assume an input below 2^32 - 1 bytes, because the symbol
  frequencies are 32-bit counters, and a buffer of \<open>deflate_bound\<close> bytes; with a smaller buffer the
  bit writer can shift by more than 31 (see \<open>compress_overflow_undefined\<close>). The decoder's theorems
  hold for every input and every capacity. The allocator's theorems assume requests of at most 2^62
  bytes and an \<open>mmap\<close> that returns page-aligned regions which overlap no mapping (\<^const>\<open>mmap_ok\<close>).
  \<open>memset\<close> clears whole words and the low bytes of the last one, as on the little-endian machine the
  code is written for. The coroutine theorems assume pages of 2^12 to 2^30 bytes, stacks of at most
  2^62 bytes, and that \<open>mmap\<close> and \<open>calloc\<close> give memory nobody uses.

  What the model shows to be wrong. A dynamic block whose matches all use one distance symbol other
  than 0 is written without a code for it, so it does not decode (\<open>lone_distance_uncoded\<close>); the
  theorems about streams exclude such inputs by \<^const>\<open>lone_input\<close>. The fixed code differs from the one
  of RFC 1951 (\<open>fixed_code_differs_from_rfc\<close>): encoder and decoder agree with each other, not with
  other programs.

  A request of nearly 2^64 bytes wraps in \<open>balloc\<close> and gets a block of 32 bytes (\<open>balloc_wraps\<close>).
  The trampoline of a coroutine is entered with a misaligned stack (\<open>trampoline_misaligned\<close>).

  A \<open>\u\<close> escape of a lone low surrogate is accepted and gives bytes that are not UTF-8
  (\<open>json_lone_low_surrogate\<close>); raw control characters in strings are accepted too.

  A thief can load a slot of a new ring that was never written (\<open>deque_reads_unwritten_slot\<close>).
  The destructor of the pool drops tasks that were submitted before it was called (\<open>pool_drops_tasks\<close>).

  Not modelled: the command line tool, benchmarks and tests (input and output only);
  the projects in other languages than C and C++. In the work-stealing header: the memory orders (the
  memory is sequentially consistent) and the overflow of the 64-bit indices and counters; futures and
  packaged tasks (a task is a value, running it a step); the constructor of the pool with its number of
  workers (the size of the type); what a thread that still uses the pool finds after its destructor; a
  task that calls \<open>wait_idle\<close>, or one that submits to a pool whose worker it does not run on.
\<close>

section \<open>Compression and decompression\<close>

text \<open>
  C1: Decompression undoes compression. For every input shorter than 4 GiB and every level, with a
  buffer of \<open>deflate_bound\<close> bytes and no failed allocation, \<open>deflate_compress\<close> returns a byte count,
  and \<open>deflate_decompress\<close> on that many bytes of the buffer returns the length of the input and leaves
  exactly the input in any buffer that is large enough, the rest of the buffer untouched. Excepted
  are the inputs whose matches all use one and the same distance symbol other than 0.
\<close>

theorem decompress_compress:
  assumes "Suc (length inp) < 2 ^ 32" "out_cap \<le> length out" "deflate_bound (length inp) \<le> out_cap"
    and "\<not> lone_input inp level" and "length inp \<le> cap" "cap \<le> length buffer"
  shows "\<exists>n out'. deflate_compress all_allocs inp out out_cap level = Some (Inr n, out') \<and>
    deflate_decompress out' n buffer cap = Some (Inr (length inp), inp @ drop (length inp) buffer)"
proof -
  from deflate_compress_ok [OF assms(1-3), of level all_allocs] assms(4) obtain n out' bs where
    run: "deflate_compress all_allocs inp out out_cap level = Some (Inr n, out')"
      "n \<le> out_cap" "length out' = length out" "encodes bs (bytes_bits (take n out')) inp"
    by (auto simp: compressed_def)
  have "n \<le> length out'" using run(2,3) assms(2) by simp
  from deflate_decompress_complete [OF this assms(6,5) run(4)] run(1) show ?thesis by (auto simp: buf_def)
qed

theorem decompress_compress_witness:
  "\<exists>n out'. deflate_compress all_allocs [7, 7, 7] (replicate 16 0) 16 6 = Some (Inr n, out') \<and>
    deflate_decompress out' n [0, 0, 0, 9] 3 = Some (Inr 3, [7, 7, 7, 9])"
proof -
  have "Suc (length [7, 7, 7 :: u8]) < 2 ^ 32" "16 \<le> length (replicate 16 (0 :: u8))"
    "deflate_bound (length [7, 7, 7 :: u8]) \<le> 16" "\<not> lone_input [7, 7, 7] 6"
    "length [7, 7, 7 :: u8] \<le> 3" "3 \<le> length [0, 0, 0, 9 :: u8]"
    by (simp_all add: deflate_bound_def short_not_lone)
  from decompress_compress [OF this] show ?thesis by (simp add: numeral_3_eq_3)
qed

text \<open>
  C37: At level 0 there is no exception: every input up to 4 GiB is stored in blocks of at most 65535
  bytes and comes back, also when more bytes follow the stream.
\<close>

theorem stored_roundtrip:
  assumes "Suc (length inp) < 2 ^ 32" "out_cap \<le> length out" "deflate_bound (length inp) \<le> out_cap"
    and "length inp \<le> cap" "cap \<le> length buffer"
  shows "\<exists>n out'. deflate_compress al inp out out_cap 0 = Some (Inr n, out') \<and>
    (\<forall>m. n \<le> m \<and> m \<le> length out' \<longrightarrow>
      deflate_decompress out' m buffer cap = Some (Inr (length inp), inp @ drop (length inp) buffer))"
proof -
  have level: "comp_level 0 = 0" by (simp add: comp_level_def)
  with deflate_compress_ok [OF assms(1-3), of 0 al] obtain n out' bs where
    run: "deflate_compress al inp out out_cap 0 = Some (Inr n, out')"
      "n \<le> out_cap" "length out' = length out" "encodes bs (bytes_bits (take n out')) inp"
    by (auto simp: compressed_def lone_input_def)
  have "deflate_decompress out' m buffer cap = Some (Inr (length inp), inp @ drop (length inp) buffer)"
    if m: "n \<le> m" "m \<le> length out'" for m
  proof -
    have "take m out' = take n out' @ take (m - n) (drop n out')"
      using m(1) by (metis le_add_diff_inverse take_add)
    then have "encodes bs (bytes_bits (take m out')) inp" using run(4) by (auto simp: encodes_def)
    from deflate_decompress_complete [OF m(2) assms(5,4) this] show ?thesis by (simp add: buf_def)
  qed
  with run(1) show ?thesis by blast
qed

theorem stored_roundtrip_witness:
  "\<exists>n out'. deflate_compress all_allocs [1, 2] (replicate 15 0) 15 0 = Some (Inr n, out') \<and>
    (\<forall>m. n \<le> m \<and> m \<le> length out' \<longrightarrow> deflate_decompress out' m [0, 0] 2 = Some (Inr 2, [1, 2]))"
proof -
  have "Suc (length [1, 2 :: u8]) < 2 ^ 32" "15 \<le> length (replicate 15 (0 :: u8))"
    "deflate_bound (length [1, 2 :: u8]) \<le> 15" "length [1, 2 :: u8] \<le> 2" "2 \<le> length [0, 0 :: u8]"
    by (simp_all add: deflate_bound_def)
  from stored_roundtrip [OF this, of all_allocs] show ?thesis by (simp add: numeral_2_eq_2)
qed

end
